(* ===== verification/Linux_Prelude.thy ===== *)
theory Linux_Prelude
  imports Main "HOL-Library.Word" "HOL-Library.Monad_Syntax"
begin

text \<open>
  Shared vocabulary of the development: the machine integers of
  \<^verbatim>\<open>ns-linux-util.h\<close> at the widths they have on the 32-bit target of the
  repository's build, the partial operations of C that can stop an execution (division,
  array reads, shifts), and the lemmas on words that the component theories share.

  \<^bold>\<open>Widths.\<close> \<^verbatim>\<open>ns-linux-util.h\<close> defines \<^verbatim>\<open>u32\<close> as
  \<^verbatim>\<open>unsigned long\<close>, \<^verbatim>\<open>u16\<close> as \<^verbatim>\<open>unsigned int\<close>,
  \<^verbatim>\<open>u8\<close> as \<^verbatim>\<open>unsigned char\<close> and \<^verbatim>\<open>u64\<close> as
  \<^verbatim>\<open>unsigned long long\<close>.  The objects of the repository are i686 objects, where
  these are 32, 32, 8 and 64 bits wide; note that \<^verbatim>\<open>u16\<close> is a 32-bit type there.
  Signed C integers are words too, read by \<^const>\<open>sint\<close> where their sign matters.

  \<^bold>\<open>Stopping.\<close> An operation returns \<open>'a exec\<close>: \<^const>\<open>Some\<close> of the
  result, or \<^const>\<open>None\<close> where the C execution does not return a value: an integer
  division by zero (a trap on the target), a read outside an array, a shift by the width
  or more, or a loop that never ends.
\<close>

unbundle bit_operations_syntax

type_synonym u8 = "8 word"
type_synonym u16 = "32 word"
type_synonym u32 = "32 word"
type_synonym u64 = "64 word"
type_synonym s32 = "32 word"
type_synonym s64 = "64 word"
type_synonym c_int = "32 word"
type_synonym 'a exec = "'a option"

named_theorems unat_simps \<open>moves machine arithmetic to the naturals\<close>

subsection \<open>Partial operations of C\<close>

definition c_div :: "'a::len word \<Rightarrow> 'a word \<Rightarrow> 'a word exec" where
  "c_div a b = (if b = 0 then None else Some (a div b))"

definition c_mod :: "'a::len word \<Rightarrow> 'a word \<Rightarrow> 'a word exec" where
  "c_mod a b = (if b = 0 then None else Some (a mod b))"

definition c_index :: "'a list \<Rightarrow> 'b::len word \<Rightarrow> 'a exec" where
  "c_index xs i = (if unat i < length xs then Some (xs ! unat i) else None)"

definition c_shl :: "'a::len word \<Rightarrow> 'b::len word \<Rightarrow> 'a word exec" where
  "c_shl a n = (if unat n < LENGTH('a) then Some (push_bit (unat n) a) else None)"

definition c_shr :: "'a::len word \<Rightarrow> 'b::len word \<Rightarrow> 'a word exec" where
  "c_shr a n = (if unat n < LENGTH('a) then Some (drop_bit (unat n) a) else None)"

text \<open>Signed division truncates towards zero and traps on a quotient that does not fit.\<close>

definition c_sdiv :: "'a::len word \<Rightarrow> 'a word \<Rightarrow> 'a word exec" where
  "c_sdiv a b =
     (let q = sgn (sint a) * sgn (sint b) * (\<bar>sint a\<bar> div \<bar>sint b\<bar>)
      in if b = 0 \<or> q = 2 ^ (LENGTH('a) - 1) then None else Some (word_of_int q))"

lemma c_div_Some [simp]: "b \<noteq> 0 \<Longrightarrow> c_div a b = Some (a div b)"
  by (simp add: c_div_def)

lemma c_div_0 [simp]: "c_div a 0 = None"
  by (simp add: c_div_def)

lemma c_div_eq_Some_iff: "c_div a b = Some q \<longleftrightarrow> b \<noteq> 0 \<and> q = a div b"
  by (auto simp: c_div_def)

lemma c_index_Some [simp]: "unat i < length xs \<Longrightarrow> c_index xs i = Some (xs ! unat i)"
  by (simp add: c_index_def)

lemma c_index_eq_None_iff: "c_index xs i = None \<longleftrightarrow> length xs \<le> unat i"
  by (simp add: c_index_def)

lemma c_shl_Some [simp]: "unat n < LENGTH('a) \<Longrightarrow> c_shl (a :: 'a::len word) n = Some (push_bit (unat n) a)"
  by (simp add: c_shl_def)

lemma c_shr_Some [simp]: "unat n < LENGTH('a) \<Longrightarrow> c_shr (a :: 'a::len word) n = Some (drop_bit (unat n) a)"
  by (simp add: c_shr_def)

subsection \<open>Words and naturals\<close>

lemma unat_add_bounded:
  fixes x y :: "'a::len word"
  assumes "unat x + unat y < 2 ^ LENGTH('a)"
  shows "unat (x + y) = unat x + unat y"
  using assms by (simp add: unat_add_lem)

lemma unat_mult_bounded:
  fixes x y :: "'a::len word"
  assumes "unat x * unat y < 2 ^ LENGTH('a)"
  shows "unat (x * y) = unat x * unat y"
  using assms by (simp add: unat_mult_lem)

lemma unat_Suc_bounded:
  fixes x y :: "'a::len word"
  assumes "x < y"
  shows "unat (x + 1) = Suc (unat x)"
proof -
  have "Suc (unat x) \<le> unat y" using assms by (simp add: word_less_nat_alt)
  also have "unat y < 2 ^ LENGTH('a)" by (rule unsigned_less)
  finally show ?thesis by (simp add: unat_word_ariths)
qed

lemma inc_bounded_le:
  fixes x y :: "'a::len word"
  assumes "x < y"
  shows "x + 1 \<le> y" and "x < x + 1"
  using assms by (simp_all add: word_le_nat_alt word_less_nat_alt unat_Suc_bounded)

lemma unat_drop_bit [unat_simps]: "unat (drop_bit n x) = unat x div 2 ^ n" for x :: "'a::len word"
  by (rule trans [OF unat_drop_bit_eq drop_bit_eq_div])

lemma unat_push_bit [unat_simps]:
  "unat (push_bit n x) = unat x * 2 ^ n mod 2 ^ LENGTH('a)" for x :: "'a::len word"
  by (subst unsigned_push_bit_eq) (simp add: push_bit_eq_mult take_bit_eq_mod mult.commute)

lemma unat_push_bit_bounded:
  fixes x :: "'a::len word"
  assumes "unat x * 2 ^ n < 2 ^ LENGTH('a)"
  shows "unat (push_bit n x) = unat x * 2 ^ n"
  using assms by (simp add: unat_push_bit)

lemma unat_max [unat_simps]: "unat (max x y) = max (unat x) (unat y)" for x y :: "'a::len word"
  by (simp add: max_def word_le_nat_alt)

lemma unat_min [unat_simps]: "unat (min x y) = min (unat x) (unat y)" for x y :: "'a::len word"
  by (simp add: min_def word_le_nat_alt)

lemma unat_div_word [unat_simps]: "unat (x div y) = unat x div unat y" for x y :: "'a::len word"
  by (rule unat_div_distrib)

lemmas word_nat_order [unat_simps] = word_less_nat_alt word_le_nat_alt

lemma word_pos_iff: "0 < x \<longleftrightarrow> x \<noteq> 0" for x :: "'a::len word"
  by (simp add: word_neq_0_conv)

lemma unat_pos_iff: "0 < unat x \<longleftrightarrow> x \<noteq> 0" for x :: "'a::len word"
  by (simp add: unat_gt_0)

lemma drop_bit_word_le: "drop_bit n x \<le> x" for x :: "'a::len word"
  by (simp add: unat_simps)

lemma u8_bound [simp]: "unat (x :: 8 word) < 256"
  using unsigned_less [of x] by simp

lemma unat_ucast_8_32: "unat (ucast (x :: 8 word) :: 32 word) = unat x"
  using less_trans [OF u8_bound [of x], of 4294967296]
  by (simp add: unsigned_ucast_eq take_bit_eq_mod)

lemma u32_bound [simp]: "unat (x :: 32 word) < 4294967296"
  using unsigned_less [of x] by simp

lemma u64_bound [simp]: "unat (x :: 64 word) < 18446744073709551616"
  using unsigned_less [of x] by simp

lemma unat_ucast_64_32: "unat (ucast (x :: 64 word) :: 32 word) = unat x mod 4294967296"
  by (simp add: unsigned_ucast_eq take_bit_eq_mod)

lemma unat_ucast_32_64: "unat (ucast (x :: 32 word) :: 64 word) = unat x"
  using less_trans [OF u32_bound [of x], of 18446744073709551616]
  by (simp add: unsigned_ucast_eq take_bit_eq_mod)

subsection \<open>Results that exist\<close>

text \<open>The same operation \<open>n\<close> times in a row, stopping with the first call that does not return.\<close>

primrec exec_iter :: "nat \<Rightarrow> ('s \<Rightarrow> 's exec) \<Rightarrow> 's \<Rightarrow> 's exec" where
  "exec_iter 0 f s = Some s"
| "exec_iter (Suc n) f s = (exec_iter n f s) \<bind> f"

lemma exec_iter_add: "exec_iter (m + n) f s = (exec_iter m f s) \<bind> exec_iter n f"
  by (induction n) (simp_all add: Option.bind_assoc)

end
