(* ===== verification/Linux_Sock.thy ===== *)
theory Linux_Sock
  imports Linux_Prelude
begin

text \<open>
  \<^verbatim>\<open>src/ns-2.34/tcp/linux/ns-linux-util.h\<close> and \<^verbatim>\<open>ns-linux-c.h\<close>: the state that
  TCP-Linux shares between the simulator and the congestion control modules.
  \<^item> \<open>tcp_sock\<close> is \<^verbatim>\<open>struct tcp_sock\<close> (the header makes \<^verbatim>\<open>sock\<close>,
    \<^verbatim>\<open>inet_sock\<close> and \<^verbatim>\<open>inet_connection_sock\<close> the same struct). The private
    area \<^verbatim>\<open>icsk_ca_priv[16]\<close>, which each module casts to its own struct, is a field
    of a type parameter: \<open>bictcp tcp_sock\<close> is a socket whose private area holds a
    \<^verbatim>\<open>struct bictcp\<close>.
  \<^item> \<open>kernel_env\<close> gathers the globals the modules read: the clocks the simulator sets
    before it calls a module, and the sysctl variables.
  \<^item> \<open>tcp_congestion_ops\<close> is the table of callbacks; a callback the module leaves out
    (a null pointer) is \<^const>\<open>None\<close>.
\<close>

section \<open>Data\<close>

datatype tcp_ca_event =
    CA_EVENT_TX_START
  | CA_EVENT_CWND_RESTART
  | CA_EVENT_COMPLETE_CWR
  | CA_EVENT_FRTO
  | CA_EVENT_LOSS
  | CA_EVENT_FAST_ACK
  | CA_EVENT_SLOW_ACK

abbreviation (input) TCP_CA_Open :: u8 where "TCP_CA_Open \<equiv> 0"
abbreviation (input) TCP_CA_Disorder :: u8 where "TCP_CA_Disorder \<equiv> 1"
abbreviation (input) TCP_CA_CWR :: u8 where "TCP_CA_CWR \<equiv> 2"
abbreviation (input) TCP_CA_Recovery :: u8 where "TCP_CA_Recovery \<equiv> 3"
abbreviation (input) TCP_CA_Loss :: u8 where "TCP_CA_Loss \<equiv> 4"

abbreviation (input) HZ :: "32 word" where "HZ \<equiv> 1000"

record tcp_options_received =
  rcv_tsval :: u32
  rcv_tsecr :: u32
  saw_tstamp :: bool

text \<open>Addresses of \<^verbatim>\<open>struct tcp_congestion_ops\<close>; 0 is the null pointer.\<close>

type_synonym ops_ptr = nat

record 'ca tcp_sock =
  sk_state :: c_int
  snd_nxt :: u32
  snd_una :: u32
  mss_cache :: u32
  srtt :: u32
  rx_opt :: tcp_options_received
  snd_ssthresh :: u32
  snd_cwnd :: u32
  snd_cwnd_cnt :: u16
  snd_cwnd_clamp :: u16
  snd_cwnd_stamp :: u32
  bytes_acked :: u32
  icsk_ca_ops :: ops_ptr
  icsk_ca_state :: u8
  icsk_ca_priv :: 'ca

record kernel_env =
  tcp_time_stamp :: u32
  ktime_get_real :: s64
  sysctl_tcp_abc :: u8
  sysctl_tcp_max_ssthresh :: c_int

record 'ca tcp_congestion_ops =
  ca_flags :: u32
  ca_init :: "(kernel_env \<Rightarrow> 'ca tcp_sock \<Rightarrow> 'ca tcp_sock exec) option"
  ca_release :: "(kernel_env \<Rightarrow> 'ca tcp_sock \<Rightarrow> 'ca tcp_sock exec) option"
  ca_ssthresh :: "(kernel_env \<Rightarrow> 'ca tcp_sock \<Rightarrow> (u32 \<times> 'ca tcp_sock) exec) option"
  ca_min_cwnd :: "('ca tcp_sock \<Rightarrow> u32 exec) option"
  ca_cong_avoid :: "(kernel_env \<Rightarrow> 'ca tcp_sock \<Rightarrow> u32 \<Rightarrow> u32 \<Rightarrow> u32 \<Rightarrow> c_int \<Rightarrow> 'ca tcp_sock exec) option"
  ca_rtt_sample :: "(kernel_env \<Rightarrow> 'ca tcp_sock \<Rightarrow> u32 \<Rightarrow> 'ca tcp_sock exec) option"
  ca_set_state :: "(kernel_env \<Rightarrow> 'ca tcp_sock \<Rightarrow> u8 \<Rightarrow> 'ca tcp_sock exec) option"
  ca_cwnd_event :: "(kernel_env \<Rightarrow> 'ca tcp_sock \<Rightarrow> tcp_ca_event \<Rightarrow> 'ca tcp_sock exec) option"
  ca_undo_cwnd :: "(kernel_env \<Rightarrow> 'ca tcp_sock \<Rightarrow> (u32 \<times> 'ca tcp_sock) exec) option"
  ca_pkts_acked :: "(kernel_env \<Rightarrow> 'ca tcp_sock \<Rightarrow> u32 \<Rightarrow> s64 \<Rightarrow> 'ca tcp_sock exec) option"
  ca_name :: string

abbreviation (input) TCP_CONG_NON_RESTRICTED :: u32 where "TCP_CONG_NON_RESTRICTED \<equiv> 1"
abbreviation (input) TCP_CONG_RTT_STAMP :: u32 where "TCP_CONG_RTT_STAMP \<equiv> 2"

text \<open>A designated initialiser leaves the callbacks it does not name null.\<close>

definition null_ops :: "string \<Rightarrow> 'ca tcp_congestion_ops" where
  "null_ops nm = \<lparr>ca_flags = 0, ca_init = None, ca_release = None, ca_ssthresh = None,
     ca_min_cwnd = None, ca_cong_avoid = None, ca_rtt_sample = None, ca_set_state = None,
     ca_cwnd_event = None, ca_undo_cwnd = None, ca_pkts_acked = None, ca_name = nm\<rparr>"

section \<open>Macros of \<^verbatim>\<open>ns-linux-c.h\<close>\<close>

definition tcp_is_cwnd_limited :: "'ca tcp_sock \<Rightarrow> u32 \<Rightarrow> bool" where
  "tcp_is_cwnd_limited sk in_flight \<longleftrightarrow> in_flight \<ge> snd_cwnd sk"

definition after :: "u32 \<Rightarrow> u32 \<Rightarrow> bool" where
  "after seq1 seq2 \<longleftrightarrow> seq2 < seq1"

definition between :: "u32 \<Rightarrow> u32 \<Rightarrow> u32 \<Rightarrow> bool" where
  "between seq1 seq2 seq3 \<longleftrightarrow> seq3 - seq2 \<ge> seq1 - seq2"

definition msecs_to_jiffies :: "32 word \<Rightarrow> 32 word" where
  "msecs_to_jiffies x = (1000 div 1000) * x"

section \<open>Updates of the private area\<close>

abbreviation upd_priv :: "('ca \<Rightarrow> 'ca) \<Rightarrow> 'ca tcp_sock \<Rightarrow> 'ca tcp_sock" where
  "upd_priv f sk \<equiv> sk\<lparr>icsk_ca_priv := f (icsk_ca_priv sk)\<rparr>"

text \<open>
  What a callback may not touch: the sequence numbers, the clamp, the segment size, the
  state and the table pointer belong to the simulator. \<open>same_control\<close> compares two
  sockets on exactly these fields.
\<close>

definition same_control :: "'ca tcp_sock \<Rightarrow> 'ca tcp_sock \<Rightarrow> bool" where
  "same_control s t \<longleftrightarrow>
     sk_state t = sk_state s \<and> snd_nxt t = snd_nxt s \<and> snd_una t = snd_una s \<and>
     mss_cache t = mss_cache s \<and> srtt t = srtt s \<and> rx_opt t = rx_opt s \<and>
     snd_cwnd_clamp t = snd_cwnd_clamp s \<and> snd_cwnd_stamp t = snd_cwnd_stamp s \<and>
     icsk_ca_ops t = icsk_ca_ops s \<and> icsk_ca_state t = icsk_ca_state s"

lemma same_control_refl [simp]: "same_control s s"
  by (simp add: same_control_def)

lemma same_control_trans [trans]: "same_control s t \<Longrightarrow> same_control t u \<Longrightarrow> same_control s u"
  by (simp add: same_control_def)

lemma same_control_updates [simp]:
  "same_control s (t\<lparr>snd_cwnd := w\<rparr>) = same_control s t"
  "same_control s (t\<lparr>snd_cwnd_cnt := c\<rparr>) = same_control s t"
  "same_control s (t\<lparr>snd_ssthresh := h\<rparr>) = same_control s t"
  "same_control s (t\<lparr>bytes_acked := b\<rparr>) = same_control s t"
  "same_control s (t\<lparr>icsk_ca_priv := p\<rparr>) = same_control s t"
  "same_control (s\<lparr>icsk_ca_priv := p\<rparr>) t = same_control s t"
  by (simp_all add: same_control_def)

text \<open>The callbacks other than \<^verbatim>\<open>cong_avoid\<close> may write the private area only.\<close>

definition priv_only :: "'ca tcp_sock \<Rightarrow> 'ca tcp_sock \<Rightarrow> bool" where
  "priv_only s t \<longleftrightarrow> t = s\<lparr>icsk_ca_priv := icsk_ca_priv t\<rparr>"

lemma priv_only_intros [simp]:
  "priv_only s s" "priv_only s (s\<lparr>icsk_ca_priv := p\<rparr>)"
  by (simp_all add: priv_only_def)

lemma priv_onlyE:
  assumes "priv_only s t"
  obtains p where "t = s\<lparr>icsk_ca_priv := p\<rparr>"
  using assms by (auto simp: priv_only_def)

lemma priv_only_same_control: "priv_only s t \<Longrightarrow> same_control s t"
  by (auto elim: priv_onlyE)

end
