(* ===== verification/NS_Linux_C.thy ===== *)
theory NS_Linux_C
  imports Linux_Prelude
begin

text \<open>
  \<^verbatim>\<open>src/ns-2.34/tcp/linux/ns-linux-c.c\<close>: the shortcuts for the kernel services the
  congestion control modules call. Bit search (\<open>fls\<close>, \<open>fls64\<close>), the 64-bit
  division \<open>div64_64\<close>, and the time helpers. The lemmas characterise the bit search
  by powers of two and bound the result of the approximate division.
\<close>

section \<open>Bit search\<close>

text \<open>One \<^verbatim>\<open>if\<close> block of \<open>fls\<close>: \<open>x\<close> and \<open>r\<close> are its local variables.\<close>

definition fls_step :: "c_int \<Rightarrow> nat \<Rightarrow> c_int \<times> c_int \<Rightarrow> c_int \<times> c_int" where
  "fls_step msk sh = (\<lambda>(x, r). if x AND msk = 0 then (push_bit sh x, r - of_nat sh) else (x, r))"

definition fls :: "c_int \<Rightarrow> c_int" where
  "fls x =
     (if x = 0 then 0
      else snd (fls_step 0x80000000 1
                 (fls_step 0xc0000000 2
                   (fls_step 0xf0000000 4
                     (fls_step 0xff000000 8
                       (fls_step 0xffff0000 16 (x, 32)))))))"

definition fls64 :: "u64 \<Rightarrow> c_int" where
  "fls64 x =
     (let h = (ucast (drop_bit 32 x) :: u32)
      in if h \<noteq> 0 then fls h + 32 else fls (ucast x))"

section \<open>Division\<close>

text \<open>
  \<^verbatim>\<open>do_div\<close> of \<^verbatim>\<open>ns-linux-c.h\<close>: divides the 64-bit variable by a base that
  the macro stores in a \<^verbatim>\<open>uint32_t\<close> first; the value of the statement is the
  remainder and the variable receives the quotient.
\<close>

definition do_div :: "u64 \<Rightarrow> u32 \<Rightarrow> (u64 \<times> u32) exec" where
  "do_div n base =
     (if base = 0 then None
      else Some (n div ucast base, ucast (n mod ucast base)))"

definition div64_64 :: "u64 \<Rightarrow> u64 \<Rightarrow> u64 exec" where
  "div64_64 dividend divisor =
     (let high = (ucast (drop_bit 32 divisor) :: u32) in
      if high \<noteq> 0
      then let shift = fls high;
               d = (ucast (drop_bit (unat shift) divisor) :: u32);
               dividend = drop_bit (unat shift) dividend
           in map_option fst (do_div dividend d)
      else map_option fst (do_div dividend (ucast divisor)))"

section \<open>Time\<close>

definition net_invalid_timestamp :: s64 where
  "net_invalid_timestamp = 0"

definition ktime_equal :: "s64 \<Rightarrow> s64 \<Rightarrow> bool" where
  "ktime_equal cmp1 cmp2 \<longleftrightarrow> cmp1 = cmp2"

text \<open>Signed division by 1000, which C truncates towards zero.\<close>

definition ktime_to_us :: "s64 \<Rightarrow> s64" where
  "ktime_to_us kt = word_of_int (sgn (sint kt) * (\<bar>sint kt\<bar> div 1000))"

definition net_timedelta :: "s64 \<Rightarrow> s64 \<Rightarrow> s64" where
  "net_timedelta ktime_get_real t = ktime_get_real - t"

section \<open>The bit search finds the highest set bit\<close>

lemma and_not_mask_eq_0_iff: "x AND NOT (mask n) = 0 \<longleftrightarrow> drop_bit n x = 0" for x :: "'a::len word"
proof
  assume "x AND NOT (mask n) = 0"
  then have "\<not> bit (x AND NOT (mask n)) (n + k)" for k by simp
  then show "drop_bit n x = 0"
    by (intro bit_eqI) (auto simp: bit_simps dest: bit_imp_le_length)
next
  assume "drop_bit n x = 0"
  then have "\<not> bit (drop_bit n x) (k - n)" for k by simp
  then show "x AND NOT (mask n) = 0"
    by (intro bit_eqI) (auto simp: bit_simps, metis le_add_diff_inverse not_le_imp_less)
qed

lemma and_high_mask_iff:
  fixes x :: c_int
  assumes "msk = NOT (mask n)" and "n \<le> 32"
  shows "x AND msk = 0 \<longleftrightarrow> unat x < 2 ^ n"
proof -
  have "x AND msk = 0 \<longleftrightarrow> unat (drop_bit n x) = 0"
    by (simp add: assms and_not_mask_eq_0_iff unat_eq_0)
  also have "\<dots> \<longleftrightarrow> unat x < 2 ^ n"
    by (simp add: unat_drop_bit div_eq_0_iff)
  finally show ?thesis .
qed

text \<open>
  What the blocks keep: the working value is \<open>x\<close> scaled by \<open>2 ^ (32 - r)\<close>, and after
  the block for \<open>sh\<close> it has a bit set among its top \<open>sh\<close> bits.
\<close>

definition fls_inv :: "nat \<Rightarrow> nat \<Rightarrow> c_int \<times> c_int \<Rightarrow> bool" where
  "fls_inv n lo s \<longleftrightarrow>
     unat (snd s) \<le> 32 \<and> unat (fst s) = n * 2 ^ (32 - unat (snd s)) \<and> 2 ^ lo \<le> unat (fst s)"

lemma fls_step_inv:
  assumes inv: "fls_inv n (32 - 2 * sh) s" and msk: "msk = NOT (mask (32 - sh))"
    and sh: "0 < sh" "2 * sh \<le> 32" and n: "0 < n"
  shows "fls_inv n (32 - sh) (fls_step msk sh s)"
proof -
  obtain x r where s: "s = (x, r)" by (cases s)
  from inv have r: "unat r \<le> 32" and x: "unat x = n * 2 ^ (32 - unat r)" and lo: "2 ^ (32 - 2 * sh) \<le> unat x"
    by (simp_all add: fls_inv_def s)
  have guard: "x AND msk = 0 \<longleftrightarrow> unat x < 2 ^ (32 - sh)"
    using msk by (rule and_high_mask_iff) simp
  show ?thesis
  proof (cases "unat x < 2 ^ (32 - sh)")
    case False
    then show ?thesis using r x by (simp add: fls_inv_def fls_step_def s guard)
  next
    case True
    have pw: "(2::nat) ^ (32 - sh) * 2 ^ sh = 2 ^ 32" using sh by (simp flip: power_add)
    from True have "unat x * 2 ^ sh < 2 ^ (32 - sh) * 2 ^ sh" by simp
    then have y: "unat (push_bit sh x) = unat x * 2 ^ sh"
      by (intro unat_push_bit_bounded) (simp add: pw)
    have "(2::nat) ^ (32 - unat r) \<le> unat x" using x n by simp
    then have "(2::nat) ^ (32 - unat r) < 2 ^ (32 - sh)" using True by linarith
    then have "32 - unat r < 32 - sh" by (rule power_less_imp_less_exp [rotated]) simp
    then have shr: "sh < unat r" by linarith
    have r': "unat (r - of_nat sh) = unat r - sh"
      using shr sh by (subst unat_sub) (simp_all add: word_le_nat_alt unat_of_nat)
    have "n * 2 ^ (32 - unat r) * 2 ^ sh = n * 2 ^ (32 - (unat r - sh))"
      using r shr by (simp add: mult.assoc flip: power_add)
    moreover have "(2::nat) ^ (32 - sh) \<le> unat x * 2 ^ sh"
    proof -
      have "(2::nat) ^ (32 - sh) = 2 ^ (32 - 2 * sh) * 2 ^ sh" using sh by (simp flip: power_add)
      then show ?thesis using lo by simp
    qed
    ultimately show ?thesis using True r x y r' by (simp add: fls_inv_def fls_step_def s guard)
  qed
qed

lemma fls_masks:
  "(0x80000000 :: c_int) = NOT (mask 31)" "(0xc0000000 :: c_int) = NOT (mask 30)"
  "(0xf0000000 :: c_int) = NOT (mask 28)" "(0xff000000 :: c_int) = NOT (mask 24)"
  "(0xffff0000 :: c_int) = NOT (mask 16)"
  by (simp_all add: mask_numeral)

lemma fls_bounds:
  fixes x :: c_int
  assumes "x \<noteq> 0"
  shows "0 < unat (fls x)" and "unat (fls x) \<le> 32"
    and "2 ^ (unat (fls x) - 1) \<le> unat x" and "unat x < 2 ^ unat (fls x)"
proof -
  let ?n = "unat x"
  have n: "0 < ?n" using assms by (simp add: unat_gt_0)
  have "fls_inv ?n 0 (x, 32)" using n by (simp add: fls_inv_def)
  then have "fls_inv ?n 16 (fls_step 0xffff0000 16 (x, 32))"
    using fls_step_inv [of ?n 16 "(x, 32)"] n by (simp add: fls_masks)
  then have "fls_inv ?n 24 (fls_step 0xff000000 8 (fls_step 0xffff0000 16 (x, 32)))" (is "fls_inv _ _ ?s2")
    using fls_step_inv [of ?n 8 "fls_step 0xffff0000 16 (x, 32)"] n by (simp add: fls_masks)
  then have "fls_inv ?n 28 (fls_step 0xf0000000 4 ?s2)" (is "fls_inv _ _ ?s3")
    using fls_step_inv [of ?n 4 ?s2] n by (simp add: fls_masks)
  then have "fls_inv ?n 30 (fls_step 0xc0000000 2 ?s3)" (is "fls_inv _ _ ?s4")
    using fls_step_inv [of ?n 2 ?s3] n by (simp add: fls_masks)
  then have "fls_inv ?n 31 (fls_step 0x80000000 1 ?s4)" (is "fls_inv _ _ ?s5")
    using fls_step_inv [of ?n 1 ?s4] n by (simp add: fls_masks)
  moreover have fls: "fls x = snd ?s5" using assms by (simp add: fls_def)
  ultimately have r: "unat (fls x) \<le> 32" and y: "unat (fst ?s5) = ?n * 2 ^ (32 - unat (fls x))"
    and lo: "2 ^ 31 \<le> unat (fst ?s5)"
    by (simp_all add: fls_inv_def)
  have hi: "unat (fst ?s5) < 2 ^ 32" using unsigned_less [of "fst ?s5"] by simp
  show "unat (fls x) \<le> 32" by (rule r)
  show pos: "0 < unat (fls x)"
  proof (rule ccontr)
    assume "\<not> 0 < unat (fls x)"
    then have "unat (fst ?s5) = ?n * 2 ^ 32" using y by simp
    then show False using hi n by simp
  qed
  have split: "(2::nat) ^ 32 = 2 ^ unat (fls x) * 2 ^ (32 - unat (fls x))"
    "(2::nat) ^ 31 = 2 ^ (unat (fls x) - 1) * 2 ^ (32 - unat (fls x))"
    using r pos by (simp_all flip: power_add)
  show "2 ^ (unat (fls x) - 1) \<le> ?n"
    using lo unfolding y split(2) by simp
  show "?n < 2 ^ unat (fls x)"
    using hi unfolding y split(1) by simp
qed

text \<open>The bounds determine the result, so they are a complete description of \<^const>\<open>fls\<close>.\<close>

lemma power_window_unique:
  fixes n a b :: nat
  assumes "2 ^ (a - 1) \<le> n" "n < 2 ^ a" "2 ^ (b - 1) \<le> n" "n < 2 ^ b" "0 < a" "0 < b"
  shows "a = b"
proof -
  have "(2::nat) ^ (a - 1) < 2 ^ b" "(2::nat) ^ (b - 1) < 2 ^ a" using assms by linarith+
  then have "a - 1 < b" "b - 1 < a" by simp_all
  then show ?thesis using assms by linarith
qed

lemma fls64_bounds:
  fixes x :: u64
  assumes "x \<noteq> 0"
  shows "0 < unat (fls64 x)" and "unat (fls64 x) \<le> 64"
    and "2 ^ (unat (fls64 x) - 1) \<le> unat x" and "unat x < 2 ^ unat (fls64 x)"
proof -
  define h where "h = (ucast (drop_bit 32 x) :: u32)"
  have x64: "unat x < 2 ^ 32 * 2 ^ 32" using unsigned_less [of x] by simp
  then have "unat x div 2 ^ 32 < 2 ^ 32" by (simp add: less_mult_imp_div_less)
  then have h: "unat h = unat x div 2 ^ 32"
    by (simp add: h_def unat_ucast_64_32 unat_drop_bit)
  have "0 < unat (fls64 x) \<and> unat (fls64 x) \<le> 64 \<and> 2 ^ (unat (fls64 x) - 1) \<le> unat x \<and> unat x < 2 ^ unat (fls64 x)"
  proof (cases "h = 0")
    case False
    note b = fls_bounds [OF False]
    have f: "unat (fls64 x) = unat (fls h) + 32"
      using False b(2) by (simp add: fls64_def h_def [symmetric] unat_word_ariths)
    have "2 ^ (unat (fls h) - 1) * 2 ^ 32 \<le> unat h * 2 ^ 32" using b(3) by simp
    also have "\<dots> \<le> unat x" by (simp only: h) (rule div_times_less_eq_dividend)
    finally have lo: "2 ^ (unat (fls h) + 32 - 1) \<le> unat x"
      using b(1) by (cases "unat (fls h)") (simp_all add: power_add)
    have "Suc (unat h) \<le> 2 ^ unat (fls h)" using b(4) by simp
    then have "Suc (unat h) * 2 ^ 32 \<le> 2 ^ unat (fls h) * 2 ^ 32" by (rule mult_le_mono1)
    moreover have "unat x < Suc (unat h) * 2 ^ 32"
      unfolding h using dividend_less_times_div [of "2 ^ 32" "unat x"] by simp
    ultimately have "unat x < 2 ^ (unat (fls h) + 32)" by (simp add: power_add)
    then show ?thesis using lo b by (simp add: f)
  next
    case True
    have "unat x div 2 ^ 32 = 0" using True h by simp
    then have small: "unat x < 2 ^ 32" by (simp add: div_eq_0_iff)
    then have lowx: "unat (ucast x :: u32) = unat x" by (simp add: unat_ucast_64_32)
    have "unat x \<noteq> 0" using assms by (simp add: unat_eq_0)
    then have nz: "(ucast x :: u32) \<noteq> 0" using lowx by (metis unat_0)
    show ?thesis
      using True fls_bounds [OF nz] by (simp add: fls64_def h_def [symmetric] lowx)
  qed
  then show "0 < unat (fls64 x)" and "unat (fls64 x) \<le> 64"
    and "2 ^ (unat (fls64 x) - 1) \<le> unat x" and "unat x < 2 ^ unat (fls64 x)" by simp_all
qed

lemma fls64_0 [simp]: "fls64 0 = 0"
  by (simp add: fls64_def fls_def)

section \<open>Accuracy of the 64-bit division\<close>

lemma do_div_Some: "base \<noteq> 0 \<Longrightarrow> do_div n base = Some (n div ucast base, ucast (n mod ucast base))"
  by (simp add: do_div_def)

lemma do_div_0 [simp]: "do_div n 0 = None"
  by (simp add: do_div_def)

lemma unat_fst_do_div: "do_div n base = Some (q, r) \<Longrightarrow> unat q = unat n div unat base"
  by (auto simp: do_div_def unat_ucast_32_64 unat_div_word split: if_splits)

text \<open>The divisor of the shifted division: 32 significant bits, the top one set.\<close>

lemma shifted_divisor_bounds:
  fixes divisor :: u64
  defines "high \<equiv> (ucast (drop_bit 32 divisor) :: u32)"
  defines "s \<equiv> unat (fls high)"
  assumes big: "2 ^ 32 \<le> unat divisor"
  shows "high \<noteq> 0" and "0 < s" and "s \<le> 32"
    and "2 ^ 31 \<le> unat divisor div 2 ^ s" and "unat divisor div 2 ^ s < 2 ^ 32"
proof -
  have d64: "unat divisor < 2 ^ 32 * 2 ^ 32" using unsigned_less [of divisor] by simp
  then have "unat divisor div 2 ^ 32 < 2 ^ 32" by (simp add: less_mult_imp_div_less)
  then have h: "unat high = unat divisor div 2 ^ 32"
    by (simp add: high_def unat_ucast_64_32 unat_drop_bit)
  have "0 < unat divisor div 2 ^ 32" using big by (simp add: div_greater_zero_iff)
  then show nz: "high \<noteq> 0" using h by (metis unat_0 less_irrefl)
  note b = fls_bounds [OF nz, folded s_def]
  show "0 < s" "s \<le> 32" by (rule b(1), rule b(2))
  have "2 ^ (s - 1) * 2 ^ 32 \<le> unat high * 2 ^ 32" using b(3) by simp
  also have "\<dots> \<le> unat divisor" by (simp only: h) (rule div_times_less_eq_dividend)
  finally have "2 ^ 31 * 2 ^ s \<le> unat divisor"
    using b(1) by (cases s) (simp_all flip: power_add)
  then show "2 ^ 31 \<le> unat divisor div 2 ^ s" by (simp add: less_eq_div_iff_mult_less_eq)
  have "Suc (unat high) \<le> 2 ^ s" using b(4) by simp
  then have "Suc (unat high) * 2 ^ 32 \<le> 2 ^ s * 2 ^ 32" by (rule mult_le_mono1)
  moreover have "unat divisor < Suc (unat high) * 2 ^ 32"
    unfolding h using dividend_less_times_div [of "2 ^ 32" "unat divisor"] by simp
  ultimately have "unat divisor < 2 ^ 32 * 2 ^ s" by (simp add: mult.commute)
  then show "unat divisor div 2 ^ s < 2 ^ 32" by (simp add: less_mult_imp_div_less)
qed

text \<open>
  Dropping \<open>s\<close> low bits of both operands, with 32 significant bits left in the divisor,
  never underestimates the quotient and overestimates it by at most one.
\<close>

lemma shifted_div_bounds:
  fixes D d s :: nat
  assumes D: "D < 2 ^ 64" and s: "0 < s" "s \<le> 32" and d': "2 ^ 31 \<le> d div 2 ^ s"
  shows "D div d \<le> (D div 2 ^ s) div (d div 2 ^ s)"
    and "(D div 2 ^ s) div (d div 2 ^ s) \<le> D div d + 1"
proof -
  define e where "e = d div 2 ^ s"
  define rho where "rho = d mod 2 ^ s"
  have d: "d = e * 2 ^ s + rho" by (simp only: e_def rho_def div_mult_mod_eq)
  have rho: "rho < 2 ^ s" by (simp add: rho_def)
  have e: "2 ^ 31 \<le> e" using d' by (simp add: e_def)
  then have epos: "0 < e" by (rule less_le_trans [rotated]) simp
  have dlow: "2 ^ 31 * 2 ^ s \<le> d" using e d by (simp add: trans_le_add1)
  then have dpos: "0 < d" by (rule less_le_trans [rotated]) simp
  have "(D div d) * (e * 2 ^ s) \<le> (D div d) * d" by (simp add: d)
  also have "\<dots> \<le> D" by (rule div_times_less_eq_dividend)
  finally have "((D div d) * e) * 2 ^ s \<le> D" by (simp add: mult.assoc)
  then have "(D div d) * e \<le> D div 2 ^ s" by (simp add: less_eq_div_iff_mult_less_eq)
  then show "D div d \<le> (D div 2 ^ s) div (d div 2 ^ s)"
    using epos by (simp add: less_eq_div_iff_mult_less_eq flip: e_def)
  define k where "k = D div d + 1"
  have Dk: "D < k * d" using dpos dividend_less_times_div [of d D] by (simp add: k_def algebra_simps)
  have p64: "(2::nat) ^ 64 = 2 ^ (33 - s) * (2 ^ 31 * 2 ^ s)" using s by (simp flip: power_add)
  have "D < 2 ^ (33 - s) * d"
    by (rule less_le_trans [OF D]) (simp only: p64 mult_le_mono2 dlow)
  then have "D div d < 2 ^ (33 - s)" by (rule less_mult_imp_div_less)
  then have k: "k \<le> 2 ^ (33 - s)" by (simp add: k_def)
  have "k * rho \<le> 2 ^ (33 - s) * (2 ^ s - 1)" using k rho by (intro mult_le_mono) simp_all
  also have "\<dots> \<le> 2 ^ 31 * 2 ^ s"
  proof (cases "s = 1")
    case False
    have "(2::nat) ^ (33 - s) * (2 ^ s - 1) \<le> 2 ^ (33 - s) * 2 ^ s" by simp
    also have "\<dots> = 2 ^ 31 * 4" using s by (simp flip: power_add)
    also have "\<dots> \<le> 2 ^ 31 * 2 ^ s"
      using False s power_increasing [of 2 s "2::nat"] by simp
    finally show ?thesis .
  qed simp
  also have "\<dots> \<le> e * 2 ^ s" using e by simp
  finally have "k * d \<le> (k + 1) * e * 2 ^ s" by (simp add: d algebra_simps)
  then have "D < (k + 1) * e * 2 ^ s" using Dk by simp
  then have "D div 2 ^ s < (k + 1) * e" by (rule less_mult_imp_div_less)
  then have "(D div 2 ^ s) div e < k + 1" by (rule less_mult_imp_div_less)
  then show "(D div 2 ^ s) div (d div 2 ^ s) \<le> D div d + 1" by (simp add: e_def k_def)
qed

lemma div64_64_small:
  assumes "unat divisor < 2 ^ 32"
  shows "div64_64 dividend divisor = c_div dividend divisor"
proof -
  have "unat (ucast (drop_bit 32 divisor) :: u32) = 0"
    using assms by (simp add: unat_ucast_64_32 unat_drop_bit)
  then have high: "(ucast (drop_bit 32 divisor) :: u32) = 0" by (simp add: unat_eq_0)
  have low: "unat (ucast divisor :: u32) = unat divisor"
    using assms by (simp add: unat_ucast_64_32)
  have z: "(ucast divisor :: u32) = 0 \<longleftrightarrow> divisor = 0" by (metis low unat_eq_zero)
  have "ucast (ucast divisor :: u32) = divisor"
    by (simp add: word_unat_eq_iff unat_ucast_32_64 low)
  then show ?thesis by (simp add: div64_64_def high do_div_def c_div_def z)
qed

lemma div64_64_big:
  assumes "2 ^ 32 \<le> unat divisor"
  obtains q where "div64_64 dividend divisor = Some q"
    and "unat dividend div unat divisor \<le> unat q" and "unat q \<le> unat dividend div unat divisor + 1"
proof -
  let ?high = "ucast (drop_bit 32 divisor) :: u32" and ?s = "unat (fls (ucast (drop_bit 32 divisor)))"
  note b = shifted_divisor_bounds [OF assms]
  have d: "unat (ucast (drop_bit ?s divisor) :: u32) = unat divisor div 2 ^ ?s"
    using b(5) by (simp add: unat_ucast_64_32 unat_drop_bit)
  then have nz: "(ucast (drop_bit ?s divisor) :: u32) \<noteq> 0"
    using b(4) by (metis not_le unat_0 zero_less_numeral zero_less_power)
  let ?q = "drop_bit ?s dividend div ucast (ucast (drop_bit ?s divisor) :: u32)"
  have "div64_64 dividend divisor = Some ?q"
    using b(1) nz by (simp add: div64_64_def Let_def do_div_Some)
  moreover have q: "unat ?q = (unat dividend div 2 ^ ?s) div (unat divisor div 2 ^ ?s)"
    by (simp add: unat_div_word unat_ucast_32_64 d unat_drop_bit)
  moreover have "unat dividend < 2 ^ 64" using unsigned_less [of dividend] by simp
  ultimately show thesis
    using shifted_div_bounds [of "unat dividend" ?s "unat divisor"] b that [of ?q] by simp
qed

section \<open>Properties\<close>

lemma least_power_window:
  fixes n m :: nat
  assumes "n < 2 ^ m" and "0 < n \<Longrightarrow> 2 ^ (m - 1) \<le> n" and "n = 0 \<Longrightarrow> m = 0"
  shows "m = (LEAST k. n < 2 ^ k)"
proof (rule Least_equality [symmetric])
  show "m \<le> k" if k: "n < 2 ^ k" for k
  proof (rule ccontr)
    assume "\<not> m \<le> k"
    then have n: "0 < n" and "(2::nat) ^ k \<le> 2 ^ (m - 1)" using assms(3) by (auto intro: power_increasing)
    then show False using assms(2) [OF n] k by linarith
  qed
qed (rule assms(1))

text \<open>
  The branching bit searches compute the number of significant bits: \<open>fls\<close> and \<open>fls64\<close> return
  the least number of bits that holds the argument, 0 for 0.
\<close>

theorem fls_least:
  "unat (fls x) = (LEAST k. unat x < 2 ^ k) \<and> unat (fls64 y) = (LEAST k. unat y < 2 ^ k)"
proof
  show "unat (fls x) = (LEAST k. unat x < 2 ^ k)"
    using fls_bounds [of x] by (cases "x = 0"; intro least_power_window) (auto simp: fls_def unat_gt_0)
  show "unat (fls64 y) = (LEAST k. unat y < 2 ^ k)"
    using fls64_bounds [of y] by (cases "y = 0"; intro least_power_window) (auto simp: unat_gt_0)
qed

text \<open>
  \<open>div64_64\<close> traps exactly on a zero divisor; with a divisor below \<open>2 ^ 32\<close> its result is the
  exact quotient, and with a larger one, where it drops low bits of both operands, it is the
  quotient or one more.
\<close>

theorem div64_64_accuracy:
  "case div64_64 dividend divisor of
     None \<Rightarrow> divisor = 0
   | Some q \<Rightarrow> divisor \<noteq> 0 \<and> unat dividend div unat divisor \<le> unat q \<and>
       unat q \<le> unat dividend div unat divisor + (if unat divisor < 2 ^ 32 then 0 else 1)"
proof (cases "unat divisor < 2 ^ 32")
  case True
  then show ?thesis
    using div64_64_small [OF True, of dividend] by (cases "divisor = 0") (simp_all add: unat_div_word)
next
  case False
  then obtain q where "div64_64 dividend divisor = Some q"
    "unat dividend div unat divisor \<le> unat q" "unat q \<le> unat dividend div unat divisor + 1"
    using div64_64_big [of divisor dividend] by (auto simp: not_less)
  then show ?thesis using False by auto
qed

end
