(* ===== verification/Cong_Control.thy ===== *)
theory Cong_Control
  imports Linux_Sock NS_Linux_C
begin

text \<open>
  The interface between the simulator and a congestion control module: how
  \<^verbatim>\<open>LinuxTcpAgent\<close> (\<^verbatim>\<open>src/ns-2.34/tcp/tcp-linux.cc\<close> and \<^verbatim>\<open>tcp-linux.h\<close>) drives the callbacks
  of a \<open>tcp_congestion_ops\<close> table, and the contract a module has to meet for that to be
  safe. The contract is the locale \<open>cong_control\<close>: each module theory interprets it on its
  own table. What the simulator gets from it is proved once, in the locale: every callback
  sequence it can issue returns, and the window stays positive and the threshold at least two.
\<close>

section \<open>How the agent calls a module\<close>

text \<open>Optional callbacks are tested for null before the call, required ones are not.\<close>

definition tcp_set_ca_state :: "'ca tcp_congestion_ops \<Rightarrow> kernel_env \<Rightarrow> u8 \<Rightarrow> 'ca tcp_sock \<Rightarrow> 'ca tcp_sock exec" where
  "tcp_set_ca_state ops e ca_state sk =
     do { sk \<leftarrow> (case ca_set_state ops of None \<Rightarrow> Some sk | Some f \<Rightarrow> f e sk ca_state);
          Some (sk\<lparr>icsk_ca_state := ca_state\<rparr>) }"

definition tcp_ca_event :: "'ca tcp_congestion_ops \<Rightarrow> kernel_env \<Rightarrow> tcp_ca_event \<Rightarrow> 'ca tcp_sock \<Rightarrow> 'ca tcp_sock exec" where
  "tcp_ca_event ops e event sk =
     (case ca_cwnd_event ops of None \<Rightarrow> Some sk | Some f \<Rightarrow> f e sk event)"

definition touch_cwnd :: "kernel_env \<Rightarrow> 'ca tcp_sock \<Rightarrow> 'ca tcp_sock" where
  "touch_cwnd e sk = sk\<lparr>snd_cwnd_stamp := tcp_time_stamp e\<rparr>"

definition tcp_cong_avoid ::
  "'ca tcp_congestion_ops \<Rightarrow> kernel_env \<Rightarrow> u32 \<Rightarrow> u32 \<Rightarrow> u32 \<Rightarrow> c_int \<Rightarrow> 'ca tcp_sock \<Rightarrow> 'ca tcp_sock exec" where
  "tcp_cong_avoid ops e ack rtt in_flight good sk =
     (case ca_cong_avoid ops of None \<Rightarrow> None
      | Some f \<Rightarrow> do { sk \<leftarrow> f e sk (ack * mss_cache sk) rtt in_flight good; Some (touch_cwnd e sk) })"

text \<open>The accounting of one acknowledgment, before the window is touched.\<close>

definition ack_callbacks ::
  "'ca tcp_congestion_ops \<Rightarrow> kernel_env \<Rightarrow> bool \<Rightarrow> bool \<Rightarrow> u32 \<Rightarrow> s64 \<Rightarrow> 'ca tcp_sock \<Rightarrow> 'ca tcp_sock exec" where
  "ack_callbacks ops e not_dup fast pkts last_ackt sk =
     do { sk \<leftarrow> (case ca_pkts_acked ops of
                   Some f \<Rightarrow> (if not_dup then f e sk pkts last_ackt else Some sk)
                 | None \<Rightarrow> Some sk);
          tcp_ca_event ops e (if fast then CA_EVENT_FAST_ACK else CA_EVENT_SLOW_ACK) sk }"

text \<open>
  The reaction to a loss or an ECN echo in \<open>tcp_fastretrans_alert\<close> (the branch taken when a
  module is installed), with the change of state that follows it.
\<close>

definition enter_recovery :: "'ca tcp_congestion_ops \<Rightarrow> kernel_env \<Rightarrow> 'ca tcp_sock \<Rightarrow> 'ca tcp_sock exec" where
  "enter_recovery ops e sk =
     (case ca_ssthresh ops of None \<Rightarrow> None
      | Some f \<Rightarrow> do {
          (v, sk) \<leftarrow> f e (touch_cwnd e sk);
          let sk = sk\<lparr>snd_ssthresh := v, snd_cwnd_cnt := 0, bytes_acked := 0\<rparr>;
          w \<leftarrow> (case ca_min_cwnd ops of Some g \<Rightarrow> g sk | None \<Rightarrow> Some (snd_ssthresh sk));
          tcp_set_ca_state ops e TCP_CA_Recovery (sk\<lparr>snd_cwnd := w\<rparr>)
        })"

text \<open>The reaction to a retransmission timeout in \<open>enter_loss\<close>, when a module is installed.\<close>

definition enter_loss :: "'ca tcp_congestion_ops \<Rightarrow> kernel_env \<Rightarrow> 'ca tcp_sock \<Rightarrow> 'ca tcp_sock exec" where
  "enter_loss ops e sk =
     (case ca_ssthresh ops of None \<Rightarrow> None
      | Some f \<Rightarrow> do {
          (v, sk) \<leftarrow> f e (touch_cwnd e sk);
          sk \<leftarrow> tcp_ca_event ops e CA_EVENT_LOSS (sk\<lparr>snd_ssthresh := v\<rparr>);
          tcp_set_ca_state ops e TCP_CA_Loss (sk\<lparr>snd_cwnd := 1, snd_cwnd_cnt := 0, bytes_acked := 0\<rparr>)
        })"

text \<open>The round trip time sample of \<open>time_stamping_ack\<close>, when the module asks for one.\<close>

definition rtt_sample_call :: "'ca tcp_congestion_ops \<Rightarrow> kernel_env \<Rightarrow> u32 \<Rightarrow> 'ca tcp_sock \<Rightarrow> 'ca tcp_sock exec" where
  "rtt_sample_call ops e usrtt sk =
     (case ca_rtt_sample ops of None \<Rightarrow> Some sk | Some f \<Rightarrow> f e sk usrtt)"

section \<open>The contract\<close>

text \<open>
  What the simulator guarantees of a socket when it calls a module: a positive window, a
  clamp of at least two segments, a non-zero segment size, a smoothed round trip time of at
  least one tick (it is stored scaled by eight), and window values below the limit under
  which the module's arithmetic is meant to work.
\<close>

definition wf_sock :: "nat \<Rightarrow> 'ca tcp_sock \<Rightarrow> bool" where
  "wf_sock lim s \<longleftrightarrow>
     0 < snd_cwnd s \<and> unat (snd_cwnd s) < lim \<and> 1 < snd_cwnd_clamp s \<and>
     unat (snd_cwnd_clamp s) < lim \<and> 0 < mss_cache s \<and> 8 \<le> srtt s"

lemma wf_sock_updates [simp]:
  "wf_sock lim (s\<lparr>snd_cwnd_cnt := c\<rparr>) = wf_sock lim s"
  "wf_sock lim (s\<lparr>snd_ssthresh := h\<rparr>) = wf_sock lim s"
  "wf_sock lim (s\<lparr>bytes_acked := b\<rparr>) = wf_sock lim s"
  "wf_sock lim (s\<lparr>icsk_ca_priv := p\<rparr>) = wf_sock lim s"
  "wf_sock lim (s\<lparr>icsk_ca_state := st\<rparr>) = wf_sock lim s"
  "wf_sock lim (s\<lparr>snd_cwnd_stamp := ts\<rparr>) = wf_sock lim s"
  "wf_sock lim (touch_cwnd e s) = wf_sock lim s"
  by (simp_all add: wf_sock_def touch_cwnd_def)

text \<open>A window that stays positive and under its old value or the clamp keeps a socket well formed.\<close>

lemma wf_sock_step:
  assumes "wf_sock lim s" "same_control s t" "0 < snd_cwnd t"
    and "snd_cwnd t \<le> max (snd_cwnd s) (snd_cwnd_clamp s)"
  shows "wf_sock lim t"
proof -
  have "unat (snd_cwnd t) \<le> max (unat (snd_cwnd s)) (unat (snd_cwnd_clamp s))"
    using assms(4) by (simp add: word_le_nat_alt unat_max)
  then show ?thesis using assms(1-3) by (auto simp: wf_sock_def same_control_def)
qed

text \<open>
  What one call of \<^verbatim>\<open>cong_avoid\<close> may do to the public fields: it leaves the simulator's fields alone,
  keeps the window positive and under the larger of its old value and the clamp, and does not lower
  a threshold of two or more below two.
\<close>

definition window_step :: "'ca tcp_sock \<Rightarrow> 'ca tcp_sock \<Rightarrow> bool" where
  "window_step s t \<longleftrightarrow>
     same_control s t \<and> 0 < snd_cwnd t \<and> snd_cwnd t \<le> max (snd_cwnd s) (snd_cwnd_clamp s) \<and>
     (2 \<le> snd_ssthresh s \<longrightarrow> 2 \<le> snd_ssthresh t)"

lemma window_step_frame [simp]:
  "window_step (s\<lparr>icsk_ca_priv := p\<rparr>) t = window_step s t"
  "window_step s (t\<lparr>icsk_ca_priv := p\<rparr>) = window_step s t"
  "window_step s (t\<lparr>snd_cwnd_cnt := c\<rparr>) = window_step s t"
  "window_step s (t\<lparr>bytes_acked := b\<rparr>) = window_step s t"
  by (simp_all add: window_step_def)

lemma window_step_refl: "0 < snd_cwnd s \<Longrightarrow> window_step s s"
  by (simp add: window_step_def max_def)

lemma window_step_inner [simp]:
  "window_step s (t\<lparr>icsk_ca_priv := p, snd_cwnd := w\<rparr>) = window_step s (t\<lparr>snd_cwnd := w\<rparr>)"
  "window_step s (t\<lparr>snd_cwnd_cnt := c, snd_cwnd := w\<rparr>) = window_step s (t\<lparr>snd_cwnd := w\<rparr>)"
  "window_step s (t\<lparr>bytes_acked := b, snd_cwnd := w\<rparr>) = window_step s (t\<lparr>snd_cwnd := w\<rparr>)"
  by (simp_all add: window_step_def)

lemma window_step_inc [simp]:
  "snd_cwnd s < snd_cwnd_clamp s \<Longrightarrow> window_step s (s\<lparr>snd_cwnd := snd_cwnd s + 1\<rparr>)"
  using inc_bounded_le [of "snd_cwnd s" "snd_cwnd_clamp s"]
  by (auto simp: window_step_def le_max_iff_disj word_pos_iff)

lemma window_step_trans:
  assumes "window_step s t" "window_step t u" "snd_cwnd t \<le> snd_cwnd s \<or> snd_cwnd t \<le> snd_cwnd_clamp s"
  shows "window_step s u"
  using assms by (auto simp: window_step_def same_control_def le_max_iff_disj intro: order.trans)

text \<open>
  The time stamp the simulator hands to \<^verbatim>\<open>pkts_acked\<close> is either the invalid one or a time in the
  past, less than 2147 seconds ago (in nanoseconds), so that the age fits a positive \<^verbatim>\<open>int\<close> in
  microseconds.
\<close>

definition ackt_ok :: "kernel_env \<Rightarrow> s64 \<Rightarrow> bool" where
  "ackt_ok e last_ackt \<longleftrightarrow> last_ackt = net_invalid_timestamp \<or>
     0 \<le> sint (net_timedelta (ktime_get_real e) last_ackt) \<and>
     sint (net_timedelta (ktime_get_real e) last_ackt) < 2147000000000"

text \<open>The age in microseconds, as the modules store it in a \<^verbatim>\<open>u32\<close>.\<close>

definition ack_age_us :: "kernel_env \<Rightarrow> s64 \<Rightarrow> u32" where
  "ack_age_us e last_ackt = ucast (ktime_to_us (net_timedelta (ktime_get_real e) last_ackt))"

lemma ack_age_us_bound:
  assumes "ackt_ok e last_ackt" "last_ackt \<noteq> net_invalid_timestamp"
  shows "unat (ack_age_us e last_ackt) < 2147000000"
    and "int (unat (ack_age_us e last_ackt)) = sint (net_timedelta (ktime_get_real e) last_ackt) div 1000"
proof -
  define d where "d = sint (net_timedelta (ktime_get_real e) last_ackt)"
  have d: "0 \<le> d" "d < 2147000000000" using assms by (auto simp: ackt_ok_def d_def)
  then have q: "0 \<le> d div 1000" "d div 1000 < 2147000000" by (simp, linarith)
  have "sgn d * (\<bar>d\<bar> div 1000) = d div 1000" using d by (auto simp: sgn_if)
  then have "ack_age_us e last_ackt = ucast (word_of_int (d div 1000) :: s64)"
    by (simp add: ack_age_us_def ktime_to_us_def flip: d_def)
  then have "uint (ack_age_us e last_ackt) = d div 1000"
    using q by (simp add: unsigned_ucast_eq take_bit_eq_mod uint_word_of_int)
  then show eq: "int (unat (ack_age_us e last_ackt)) = sint (net_timedelta (ktime_get_real e) last_ackt) div 1000"
    by (simp flip: d_def)
  show "unat (ack_age_us e last_ackt) < 2147000000" using eq q(2) unfolding d_def by linarith
qed

text \<open>The states the contract keeps: a well-formed socket whose private area is good.\<close>

definition cc_safe :: "nat \<Rightarrow> ('ca \<Rightarrow> bool) \<Rightarrow> 'ca tcp_sock \<Rightarrow> bool" where
  "cc_safe lim priv_ok s \<longleftrightarrow> wf_sock lim s \<and> priv_ok (icsk_ca_priv s) \<and> 2 \<le> snd_ssthresh s"

text \<open>The fields that only the simulator writes while a connection runs; no callback but \<^verbatim>\<open>init\<close> may change them.\<close>

definition same_seq :: "'ca tcp_sock \<Rightarrow> 'ca tcp_sock \<Rightarrow> bool" where
  "same_seq s t \<longleftrightarrow> snd_una t = snd_una s \<and> snd_nxt t = snd_nxt s \<and> mss_cache t = mss_cache s \<and> srtt t = srtt s"

lemma same_seq_trans: "same_seq s t \<Longrightarrow> same_seq t u \<Longrightarrow> same_seq s u"
  by (simp add: same_seq_def)

lemma same_control_seq: "same_control s t \<Longrightarrow> same_seq s t"
  by (simp add: same_control_def same_seq_def)

text \<open>
  The runs of a module: it starts from its \<^verbatim>\<open>init\<close> callback, and then the simulator
  interleaves acknowledgments, window updates, recoveries, timeouts and returns to the open
  state in any order; between two calls it may change every public field of the socket, as
  long as the socket stays well formed.
\<close>

inductive cc_reach ::
  "'ca tcp_congestion_ops \<Rightarrow> (kernel_env \<Rightarrow> 'ca tcp_sock \<Rightarrow> bool) \<Rightarrow> nat \<Rightarrow>
   ('ca \<Rightarrow> u32 \<Rightarrow> bool) \<Rightarrow> 'ca tcp_sock \<Rightarrow> bool"
  for ops env_ok lim ack_ok where
  start: "\<lbrakk>case ca_init ops of None \<Rightarrow> s = s0 | Some f \<Rightarrow> f e s0 = Some s;
      wf_sock lim s0; env_ok e s0; wf_sock lim s; 2 \<le> snd_ssthresh s\<rbrakk> \<Longrightarrow> cc_reach ops env_ok lim ack_ok s"
| ack: "\<lbrakk>cc_reach ops env_ok lim ack_ok s; env_ok e s; ack_ok (icsk_ca_priv s) n; ackt_ok e last_ackt;
      ack_callbacks ops e not_dup fast n last_ackt s = Some t\<rbrakk> \<Longrightarrow> cc_reach ops env_ok lim ack_ok t"
| avoid: "\<lbrakk>cc_reach ops env_ok lim ack_ok s; env_ok e s;
      tcp_cong_avoid ops e a rtt in_flight good s = Some t\<rbrakk> \<Longrightarrow> cc_reach ops env_ok lim ack_ok t"
| recovery: "\<lbrakk>cc_reach ops env_ok lim ack_ok s; env_ok e s;
      enter_recovery ops e s = Some t\<rbrakk> \<Longrightarrow> cc_reach ops env_ok lim ack_ok t"
| timeout: "\<lbrakk>cc_reach ops env_ok lim ack_ok s; env_ok e s;
      enter_loss ops e s = Some t\<rbrakk> \<Longrightarrow> cc_reach ops env_ok lim ack_ok t"
| reopen: "\<lbrakk>cc_reach ops env_ok lim ack_ok s; env_ok e s;
      tcp_set_ca_state ops e TCP_CA_Open s = Some t\<rbrakk> \<Longrightarrow> cc_reach ops env_ok lim ack_ok t"
| sample: "\<lbrakk>cc_reach ops env_ok lim ack_ok s; env_ok e s;
      rtt_sample_call ops e usrtt s = Some t\<rbrakk> \<Longrightarrow> cc_reach ops env_ok lim ack_ok t"
| simulator: "\<lbrakk>cc_reach ops env_ok lim ack_ok s; icsk_ca_priv t = icsk_ca_priv s;
      wf_sock lim t; 2 \<le> snd_ssthresh t\<rbrakk> \<Longrightarrow> cc_reach ops env_ok lim ack_ok t"

text \<open>
  What the simulator may do in a state: every call it can issue returns; a window update keeps the
  window positive and under the larger of its old value and the clamp, a recovery leaves a positive
  window, a timeout a window of one segment, and both a threshold of at least two.
\<close>

definition run_safe ::
  "'ca tcp_congestion_ops \<Rightarrow> kernel_env \<Rightarrow> ('ca \<Rightarrow> u32 \<Rightarrow> bool) \<Rightarrow> 'ca tcp_sock \<Rightarrow> bool" where
  "run_safe ops e ack_ok s \<longleftrightarrow>
     (\<forall>a rtt in_flight good. \<exists>t. tcp_cong_avoid ops e a rtt in_flight good s = Some t \<and> 0 < snd_cwnd t \<and>
        snd_cwnd t \<le> max (snd_cwnd s) (snd_cwnd_clamp s)) \<and>
     (\<exists>t. enter_recovery ops e s = Some t \<and> 0 < snd_cwnd t \<and> 2 \<le> snd_ssthresh t) \<and>
     (\<exists>t. enter_loss ops e s = Some t \<and> snd_cwnd t = 1 \<and> 2 \<le> snd_ssthresh t) \<and>
     (\<forall>not_dup fast n last_ackt. ack_ok (icsk_ca_priv s) n \<longrightarrow> ackt_ok e last_ackt \<longrightarrow>
        ack_callbacks ops e not_dup fast n last_ackt s \<noteq> None) \<and>
     (\<forall>st. tcp_set_ca_state ops e st s \<noteq> None) \<and>
     (\<forall>usrtt. rtt_sample_call ops e usrtt s \<noteq> None)"

locale cong_control =
  fixes ops :: "'ca tcp_congestion_ops"
    and priv_ok :: "'ca \<Rightarrow> bool"
    and env_ok :: "kernel_env \<Rightarrow> 'ca tcp_sock \<Rightarrow> bool"
    and lim :: nat
    and ack_ok :: "'ca \<Rightarrow> u32 \<Rightarrow> bool"
  assumes lim: "2 < lim" "lim \<le> 4294967296"
    and no_init: "ca_init ops = None \<Longrightarrow> priv_ok p"
    and init_ok: "\<lbrakk>ca_init ops = Some ini; wf_sock lim s; env_ok e s\<rbrakk> \<Longrightarrow> \<exists>t. ini e s = Some t \<and> priv_ok (icsk_ca_priv t)"
    and cong_avoid_present: "ca_cong_avoid ops \<noteq> None"
    and ssthresh_present: "ca_ssthresh ops \<noteq> None"
    and cong_avoid_ok: "\<lbrakk>ca_cong_avoid ops = Some ca; wf_sock lim s; env_ok e s; priv_ok (icsk_ca_priv s)\<rbrakk> \<Longrightarrow>
      \<exists>t. ca e s ack rtt in_flight flag = Some t \<and> window_step s t \<and> priv_ok (icsk_ca_priv t)"
    and ssthresh_ok: "\<lbrakk>ca_ssthresh ops = Some sth; wf_sock lim s; env_ok e s; priv_ok (icsk_ca_priv s)\<rbrakk> \<Longrightarrow>
      \<exists>v t. sth e s = Some (v, t) \<and> priv_only s t \<and> priv_ok (icsk_ca_priv t) \<and> 2 \<le> v \<and> unat v < lim"
    and min_cwnd_ok: "\<lbrakk>ca_min_cwnd ops = Some mc; wf_sock lim s; priv_ok (icsk_ca_priv s); 2 \<le> snd_ssthresh s;
        unat (snd_ssthresh s) < lim\<rbrakk> \<Longrightarrow>
      \<exists>w. mc s = Some w \<and> 0 < w \<and> unat w < lim"
    and set_state_ok: "\<lbrakk>ca_set_state ops = Some ss; wf_sock lim s; env_ok e s; priv_ok (icsk_ca_priv s)\<rbrakk> \<Longrightarrow>
      \<exists>t. ss e s st = Some t \<and> priv_only s t \<and> priv_ok (icsk_ca_priv t)"
    and cwnd_event_ok: "\<lbrakk>ca_cwnd_event ops = Some ce; wf_sock lim s; env_ok e s; priv_ok (icsk_ca_priv s);
        ev \<in> {CA_EVENT_LOSS, CA_EVENT_FAST_ACK, CA_EVENT_SLOW_ACK}\<rbrakk> \<Longrightarrow>
      \<exists>t. ce e s ev = Some t \<and> priv_only s t \<and> priv_ok (icsk_ca_priv t)"
    and pkts_acked_ok: "\<lbrakk>ca_pkts_acked ops = Some pa; wf_sock lim s; env_ok e s; priv_ok (icsk_ca_priv s);
        ack_ok (icsk_ca_priv s) n; ackt_ok e last_ackt\<rbrakk> \<Longrightarrow>
      \<exists>t. pa e s n last_ackt = Some t \<and> same_control s t \<and> priv_ok (icsk_ca_priv t) \<and>
          0 < snd_cwnd t \<and> snd_cwnd t \<le> snd_cwnd s \<and> snd_ssthresh t = snd_ssthresh s"
    and rtt_sample_ok: "\<lbrakk>ca_rtt_sample ops = Some rs; wf_sock lim s; env_ok e s; priv_ok (icsk_ca_priv s)\<rbrakk> \<Longrightarrow>
      \<exists>t. rs e s usrtt = Some t \<and> priv_only s t \<and> priv_ok (icsk_ca_priv t)"
    and env_ok_frame: "\<lbrakk>env_ok e s; same_control s t\<rbrakk> \<Longrightarrow> env_ok e t"
    and env_ok_touch: "env_ok e s \<Longrightarrow> env_ok e (touch_cwnd e s)"
    and env_ok_state: "env_ok e s \<Longrightarrow> env_ok e (s\<lparr>icsk_ca_state := st\<rparr>)"
begin

abbreviation safe :: "'ca tcp_sock \<Rightarrow> bool" where
  "safe \<equiv> cc_safe lim priv_ok"

lemma safe_touch [simp]: "safe (touch_cwnd e s) = safe s"
  by (simp add: cc_safe_def touch_cwnd_def wf_sock_def)

lemma tcp_set_ca_state_safe:
  assumes "safe s" "env_ok e s"
  shows "\<exists>p. tcp_set_ca_state ops e st s = Some (s\<lparr>icsk_ca_priv := p, icsk_ca_state := st\<rparr>) \<and> priv_ok p"
proof (cases "ca_set_state ops")
  case None
  then show ?thesis
    using assms by (intro exI [of _ "icsk_ca_priv s"]) (simp add: tcp_set_ca_state_def cc_safe_def)
next
  case (Some f)
  then show ?thesis
    using set_state_ok [OF Some, of s e st] assms by (auto simp: tcp_set_ca_state_def cc_safe_def elim!: priv_onlyE)
qed

lemma tcp_ca_event_safe:
  assumes "safe s" "env_ok e s" "ev \<in> {CA_EVENT_LOSS, CA_EVENT_FAST_ACK, CA_EVENT_SLOW_ACK}"
  shows "\<exists>p. tcp_ca_event ops e ev s = Some (s\<lparr>icsk_ca_priv := p\<rparr>) \<and> priv_ok p"
proof (cases "ca_cwnd_event ops")
  case None
  then show ?thesis
    using assms by (intro exI [of _ "icsk_ca_priv s"]) (simp add: tcp_ca_event_def cc_safe_def)
next
  case (Some f)
  then show ?thesis
    using cwnd_event_ok [OF Some, of s e ev] assms by (auto simp: tcp_ca_event_def cc_safe_def elim!: priv_onlyE)
qed

lemma rtt_sample_safe:
  assumes "safe s" "env_ok e s"
  shows "\<exists>p. rtt_sample_call ops e usrtt s = Some (s\<lparr>icsk_ca_priv := p\<rparr>) \<and> priv_ok p"
proof (cases "ca_rtt_sample ops")
  case None
  then show ?thesis
    using assms by (intro exI [of _ "icsk_ca_priv s"]) (simp add: rtt_sample_call_def cc_safe_def)
next
  case (Some f)
  then show ?thesis
    using rtt_sample_ok [OF Some, of s e usrtt] assms by (auto simp: rtt_sample_call_def cc_safe_def elim!: priv_onlyE)
qed

lemma tcp_cong_avoid_safe:
  assumes "safe s" "env_ok e s"
  shows "\<exists>t. tcp_cong_avoid ops e ack rtt in_flight good s = Some t \<and> safe t \<and>
    snd_cwnd t \<le> max (snd_cwnd s) (snd_cwnd_clamp s) \<and> same_seq s t \<and> icsk_ca_state t = icsk_ca_state s"
proof -
  obtain f where f: "ca_cong_avoid ops = Some f" using cong_avoid_present by blast
  from cong_avoid_ok [OF f, of s e "ack * mss_cache s" rtt in_flight good] assms
  obtain t where t: "f e s (ack * mss_cache s) rtt in_flight good = Some t" "same_control s t"
      "priv_ok (icsk_ca_priv t)" "0 < snd_cwnd t"
      "snd_cwnd t \<le> max (snd_cwnd s) (snd_cwnd_clamp s)" "2 \<le> snd_ssthresh t"
    by (auto simp: cc_safe_def window_step_def)
  moreover have "wf_sock lim t" using assms t by (intro wf_sock_step [of lim s t]) (simp_all add: cc_safe_def)
  ultimately show ?thesis
    by (simp add: tcp_cong_avoid_def f cc_safe_def touch_cwnd_def wf_sock_def same_seq_def same_control_def)
qed

lemma ack_callbacks_safe:
  assumes s: "safe s" "env_ok e s" and n: "ack_ok (icsk_ca_priv s) n" "ackt_ok e last_ackt"
  shows "\<exists>t. ack_callbacks ops e not_dup fast n last_ackt s = Some t \<and> safe t \<and> same_control s t"
proof -
  let ?pa = "case ca_pkts_acked ops of
      Some f \<Rightarrow> (if not_dup then f e s n last_ackt else Some s) | None \<Rightarrow> Some s"
  have "\<exists>t. ?pa = Some t \<and> same_control s t \<and> safe t"
  proof (cases "ca_pkts_acked ops")
    case None
    then show ?thesis using s by simp
  next
    case (Some f)
    from pkts_acked_ok [OF Some, of s e n last_ackt] s n
    obtain t where "f e s n last_ackt = Some t" "same_control s t" "priv_ok (icsk_ca_priv t)"
        "0 < snd_cwnd t" "snd_cwnd t \<le> snd_cwnd s" "snd_ssthresh t = snd_ssthresh s"
      by (auto simp: cc_safe_def)
    moreover from this have "wf_sock lim t"
      using s by (intro wf_sock_step [of lim s t]) (simp_all add: cc_safe_def max.coboundedI1)
    ultimately show ?thesis using Some s by (auto simp: cc_safe_def)
  qed
  then obtain t where t: "?pa = Some t" "same_control s t" "safe t" by blast
  have "env_ok e t" using s(2) t(2) by (rule env_ok_frame)
  then obtain p where "tcp_ca_event ops e (if fast then CA_EVENT_FAST_ACK else CA_EVENT_SLOW_ACK) t
      = Some (t\<lparr>icsk_ca_priv := p\<rparr>)" "priv_ok p"
    using tcp_ca_event_safe [OF t(3), of e "if fast then CA_EVENT_FAST_ACK else CA_EVENT_SLOW_ACK"]
    by (cases fast) auto
  then show ?thesis using t by (auto simp: ack_callbacks_def cc_safe_def elim!: priv_onlyE)
qed

lemma ssthresh_safe:
  assumes f: "ca_ssthresh ops = Some f" and s: "safe s" "env_ok e s"
  obtains v p where "f e s = Some (v, s\<lparr>icsk_ca_priv := p\<rparr>)" "priv_ok p" "2 \<le> v" "unat v < lim"
proof -
  from ssthresh_ok [OF f, of s e] s obtain v t where
    v: "f e s = Some (v, t)" "priv_only s t" "priv_ok (icsk_ca_priv t)" "2 \<le> v" "unat v < lim"
    unfolding cc_safe_def by blast
  from v(2) obtain p where "t = s\<lparr>icsk_ca_priv := p\<rparr>" by (rule priv_onlyE)
  then show thesis using v that [of v p] by simp
qed

lemma enter_recovery_safe:
  assumes s: "safe s" "env_ok e s"
  shows "\<exists>t. enter_recovery ops e s = Some t \<and> safe t \<and> icsk_ca_state t = TCP_CA_Recovery \<and> same_seq s t"
proof -
  let ?s = "touch_cwnd e s"
  obtain f where f: "ca_ssthresh ops = Some f" using ssthresh_present by blast
  have s': "safe ?s" "env_ok e ?s" using s by (simp_all add: env_ok_touch)
  then obtain v p where v: "f e ?s = Some (v, ?s\<lparr>icsk_ca_priv := p\<rparr>)" "priv_ok p" "2 \<le> v" "unat v < lim"
    by (rule ssthresh_safe [OF f])
  define t where "t = ?s\<lparr>icsk_ca_priv := p, snd_ssthresh := v, snd_cwnd_cnt := 0, bytes_acked := 0\<rparr>"
  have t: "wf_sock lim t" "priv_ok (icsk_ca_priv t)" "2 \<le> snd_ssthresh t" "unat (snd_ssthresh t) < lim"
    using s' v by (simp_all add: t_def cc_safe_def)
  have "\<exists>w. (case ca_min_cwnd ops of Some g \<Rightarrow> g t | None \<Rightarrow> Some (snd_ssthresh t)) = Some w \<and> 0 < w \<and> unat w < lim"
    using min_cwnd_ok [OF _ t] t(3,4)
    by (cases "ca_min_cwnd ops") (auto simp: word_le_nat_alt word_less_nat_alt)
  then obtain w where w: "(case ca_min_cwnd ops of Some g \<Rightarrow> g t | None \<Rightarrow> Some (snd_ssthresh t)) = Some w"
      "0 < w" "unat w < lim" by blast
  define u where "u = t\<lparr>snd_cwnd := w\<rparr>"
  have u: "safe u" "env_ok e u"
  proof -
    show "safe u" using t w by (simp add: u_def cc_safe_def wf_sock_def)
    show "env_ok e u" using s'(2) by (rule env_ok_frame) (simp add: u_def t_def)
  qed
  then obtain q where q: "tcp_set_ca_state ops e TCP_CA_Recovery u
      = Some (u\<lparr>icsk_ca_priv := q, icsk_ca_state := TCP_CA_Recovery\<rparr>)" "priv_ok q"
    using tcp_set_ca_state_safe by blast
  have "enter_recovery ops e s =
      (case ca_min_cwnd ops of Some g \<Rightarrow> g t | None \<Rightarrow> Some (snd_ssthresh t)) \<bind>
      (\<lambda>w. tcp_set_ca_state ops e TCP_CA_Recovery (t\<lparr>snd_cwnd := w\<rparr>))"
    by (simp only: enter_recovery_def f option.case v(1) Option.bind.bind_lunit case_prod_conv Let_def t_def)
  also have "\<dots> = Some (u\<lparr>icsk_ca_priv := q, icsk_ca_state := TCP_CA_Recovery\<rparr>)"
    by (simp only: w(1) Option.bind.bind_lunit q(1) flip: u_def)
  finally have "enter_recovery ops e s = Some (u\<lparr>icsk_ca_priv := q, icsk_ca_state := TCP_CA_Recovery\<rparr>)" .
  moreover have "same_seq s u" by (simp add: same_seq_def u_def t_def touch_cwnd_def)
  ultimately show ?thesis using u q by (simp add: cc_safe_def same_seq_def)
qed

lemma enter_loss_safe:
  assumes s: "safe s" "env_ok e s"
  shows "\<exists>t. enter_loss ops e s = Some t \<and> safe t \<and> snd_cwnd t = 1 \<and> icsk_ca_state t = TCP_CA_Loss \<and> same_seq s t"
proof -
  let ?s = "touch_cwnd e s"
  obtain f where f: "ca_ssthresh ops = Some f" using ssthresh_present by blast
  have s': "safe ?s" "env_ok e ?s" using s by (simp_all add: env_ok_touch)
  then obtain v p where v: "f e ?s = Some (v, ?s\<lparr>icsk_ca_priv := p\<rparr>)" "priv_ok p" "2 \<le> v" "unat v < lim"
    by (rule ssthresh_safe [OF f])
  define t where "t = ?s\<lparr>icsk_ca_priv := p, snd_ssthresh := v\<rparr>"
  have t: "safe t" "env_ok e t"
  proof -
    show "safe t" using s' v by (simp add: t_def cc_safe_def)
    show "env_ok e t" using s'(2) by (rule env_ok_frame) (simp add: t_def)
  qed
  then obtain q where q: "tcp_ca_event ops e CA_EVENT_LOSS t = Some (t\<lparr>icsk_ca_priv := q\<rparr>)" "priv_ok q"
    using tcp_ca_event_safe by blast
  define u where "u = t\<lparr>icsk_ca_priv := q, snd_cwnd := 1, snd_cwnd_cnt := 0, bytes_acked := 0\<rparr>"
  have u: "safe u" "env_ok e u"
  proof -
    show "safe u" using t q lim by (simp add: u_def cc_safe_def wf_sock_def)
    show "env_ok e u" using t(2) by (rule env_ok_frame) (simp add: u_def)
  qed
  then obtain r where r: "tcp_set_ca_state ops e TCP_CA_Loss u
      = Some (u\<lparr>icsk_ca_priv := r, icsk_ca_state := TCP_CA_Loss\<rparr>)" "priv_ok r"
    using tcp_set_ca_state_safe by blast
  have "enter_loss ops e s = Some (u\<lparr>icsk_ca_priv := r, icsk_ca_state := TCP_CA_Loss\<rparr>)"
    using v(1) q(1) r(1) by (simp add: enter_loss_def f t_def u_def)
  then show ?thesis using u r by (simp add: cc_safe_def u_def t_def wf_sock_def same_seq_def touch_cwnd_def)
qed

text \<open>Every state of a run is safe.\<close>

lemma reach_safe: "cc_reach ops env_ok lim ack_ok s \<Longrightarrow> safe s"
proof (induction rule: cc_reach.induct)
  case (start s s0 e)
  then have "priv_ok (icsk_ca_priv s)"
    using no_init init_ok [of _ s0 e] by (cases "ca_init ops") fastforce+
  with start show ?case by (simp add: cc_safe_def)
next
  case (ack s e n not_dup fast last_ackt t)
  then show ?case using ack_callbacks_safe [of s e n not_dup fast last_ackt] by auto
next
  case (avoid s e a rtt in_flight good t)
  then show ?case using tcp_cong_avoid_safe [of s e a rtt in_flight good] by auto
next
  case (recovery s e t)
  then show ?case using enter_recovery_safe [of s e] by auto
next
  case (timeout s e t)
  then show ?case using enter_loss_safe [of s e] by auto
next
  case (reopen s e t)
  then show ?case using tcp_set_ca_state_safe [of s e TCP_CA_Open] by (auto simp: cc_safe_def)
next
  case (sample s e usrtt t)
  then show ?case using rtt_sample_safe [of s e usrtt] by (auto simp: cc_safe_def)
next
  case (simulator s t)
  then show ?case by (simp add: cc_safe_def)
qed

text \<open>No call the simulator can issue in a run stops the simulation.\<close>

lemma reach_run_safe:
  assumes "cc_reach ops env_ok lim ack_ok s" "env_ok e s"
  shows "run_safe ops e ack_ok s"
proof -
  have s: "safe s" using assms(1) by (rule reach_safe)
  have "\<exists>t. tcp_cong_avoid ops e a rtt in_flight good s = Some t \<and> 0 < snd_cwnd t \<and>
           snd_cwnd t \<le> max (snd_cwnd s) (snd_cwnd_clamp s)" for a rtt in_flight good
    using tcp_cong_avoid_safe [OF s assms(2)] by (fastforce simp: cc_safe_def wf_sock_def)
  moreover have "\<exists>t. enter_recovery ops e s = Some t \<and> 0 < snd_cwnd t \<and> 2 \<le> snd_ssthresh t"
    using enter_recovery_safe [OF s assms(2)] by (fastforce simp: cc_safe_def wf_sock_def)
  moreover have "\<exists>t. enter_loss ops e s = Some t \<and> snd_cwnd t = 1 \<and> 2 \<le> snd_ssthresh t"
    using enter_loss_safe [OF s assms(2)] by (fastforce simp: cc_safe_def)
  moreover have "ack_ok (icsk_ca_priv s) n \<Longrightarrow> ackt_ok e last_ackt \<Longrightarrow>
      ack_callbacks ops e not_dup fast n last_ackt s \<noteq> None" for n last_ackt not_dup fast
    using ack_callbacks_safe [OF s assms(2)] by fastforce
  moreover have "tcp_set_ca_state ops e st s \<noteq> None" for st
    using tcp_set_ca_state_safe [OF s assms(2)] by fastforce
  moreover have "rtt_sample_call ops e usrtt s \<noteq> None" for usrtt
    using rtt_sample_safe [OF s assms(2)] by fastforce
  ultimately show ?thesis unfolding run_safe_def by blast
qed

lemma reach_priv_ok: "cc_reach ops env_ok lim ack_ok s \<Longrightarrow> priv_ok (icsk_ca_priv s)"
  using reach_safe by (simp add: cc_safe_def)

end

section \<open>A concrete connection\<close>

text \<open>A socket and clocks to run the modules on: ten segments out, five seconds after the start.\<close>

definition sample_sock :: "'ca \<Rightarrow> 'ca tcp_sock" where
  "sample_sock p = \<lparr>sk_state = 1, snd_nxt = 29200, snd_una = 14600, mss_cache = 1460, srtt = 800,
     rx_opt = \<lparr>rcv_tsval = 0, rcv_tsecr = 0, saw_tstamp = False\<rparr>, snd_ssthresh = 50, snd_cwnd = 10,
     snd_cwnd_cnt = 0, snd_cwnd_clamp = 100, snd_cwnd_stamp = 4900, bytes_acked = 0, icsk_ca_ops = 2,
     icsk_ca_state = TCP_CA_Open, icsk_ca_priv = p\<rparr>"

definition sample_env :: kernel_env where
  "sample_env = \<lparr>tcp_time_stamp = 5000, ktime_get_real = 5000000000, sysctl_tcp_abc = 0,
     sysctl_tcp_max_ssthresh = 0\<rparr>"

lemma sample_sock_wf: "100 < lim \<Longrightarrow> wf_sock lim (sample_sock p)" "2 \<le> snd_ssthresh (sample_sock p)"
  by (simp_all add: wf_sock_def sample_sock_def)

text \<open>A module without \<^verbatim>\<open>init\<close> starts a run on it; so does one whose \<^verbatim>\<open>init\<close> leaves a well-formed socket.\<close>

lemma sample_start:
  assumes "ca_init ops = None" and "100 < lim" "env_ok sample_env (sample_sock p)"
  shows "cc_reach ops env_ok lim ack_ok (sample_sock p)"
proof (rule cc_reach.start)
  show "case ca_init ops of None \<Rightarrow> sample_sock p = sample_sock p | Some f \<Rightarrow> f sample_env (sample_sock p) = Some (sample_sock p)"
    using assms(1) by simp
  show "env_ok sample_env (sample_sock p)" by (rule assms(3))
qed (simp_all add: sample_sock_wf assms)

lemma sample_init:
  assumes "ca_init ops = Some f" and "f sample_env (sample_sock q) = Some s"
    and "100 < lim" "env_ok sample_env (sample_sock q)" "wf_sock lim s" "2 \<le> snd_ssthresh s"
  shows "cc_reach ops env_ok lim ack_ok s"
proof (rule cc_reach.start)
  show "case ca_init ops of None \<Rightarrow> s = sample_sock q | Some f \<Rightarrow> f sample_env (sample_sock q) = Some s"
    using assms(1,2) by simp
  show "env_ok sample_env (sample_sock q)" by (rule assms(4))
qed (simp_all add: sample_sock_wf assms)

end
