(* ===== verification/Tcp_Reno.thy ===== *)
theory Tcp_Reno
  imports Cong_Control
begin

text \<open>
  \<^verbatim>\<open>src/ns-2.34/tcp/linux/src/tcp_cong.c\<close>, the algorithm half: slow start with its two
  extensions (limited slow start and appropriate byte counting) and the Reno congestion
  avoidance every other module falls back on. The lemmas give the termination condition of
  the slow start loop, its exact effect, and what one call of each operation does on every
  branch.
\<close>

section \<open>Operations\<close>

text \<open>
  The \<^verbatim>\<open>while\<close> loop of \<open>tcp_slow_start\<close> over \<^verbatim>\<open>snd_cwnd\<close> and
  \<^verbatim>\<open>snd_cwnd_cnt\<close>; it does not end when both \<^verbatim>\<open>snd_cwnd\<close> and
  \<^verbatim>\<open>snd_cwnd_clamp\<close> are 0.
\<close>

partial_function (option) slow_start_loop :: "u16 \<Rightarrow> u32 \<Rightarrow> u16 \<Rightarrow> (u32 \<times> u16) option" where
  "slow_start_loop clamp cwnd cnt =
     (if cwnd \<le> cnt
      then slow_start_loop clamp (if cwnd < clamp then cwnd + 1 else cwnd) (cnt - cwnd)
      else Some (cwnd, cnt))"

definition slow_start_cnt :: "kernel_env \<Rightarrow> 'ca tcp_sock \<Rightarrow> c_int" where
  "slow_start_cnt e tp =
     (let cnt = (if 0 < sint (sysctl_tcp_max_ssthresh e) \<and> snd_cwnd tp > sysctl_tcp_max_ssthresh e
                 then signed_drop_bit 1 (sysctl_tcp_max_ssthresh e)
                 else snd_cwnd tp)
      in if sysctl_tcp_abc e > 1 \<and> bytes_acked tp \<ge> 2 * mss_cache tp then push_bit 1 cnt else cnt)"

definition tcp_slow_start :: "kernel_env \<Rightarrow> 'ca tcp_sock \<Rightarrow> 'ca tcp_sock exec" where
  "tcp_slow_start e tp =
     (if sysctl_tcp_abc e \<noteq> 0 \<and> bytes_acked tp < mss_cache tp then Some tp
      else do {
        (cwnd, cnt) \<leftarrow> slow_start_loop (snd_cwnd_clamp tp) (snd_cwnd tp)
                         (snd_cwnd_cnt tp + slow_start_cnt e tp);
        Some (tp\<lparr>bytes_acked := 0, snd_cwnd := cwnd, snd_cwnd_cnt := cnt\<rparr>)
      })"

definition tcp_reno_cong_avoid ::
  "kernel_env \<Rightarrow> 'ca tcp_sock \<Rightarrow> u32 \<Rightarrow> u32 \<Rightarrow> u32 \<Rightarrow> c_int \<Rightarrow> 'ca tcp_sock exec" where
  "tcp_reno_cong_avoid e tp ack rtt in_flight flag =
     (if \<not> tcp_is_cwnd_limited tp in_flight then Some tp
      else if snd_cwnd tp \<le> snd_ssthresh tp then tcp_slow_start e tp
      else if sysctl_tcp_abc e \<noteq> 0 then
        Some (if bytes_acked tp \<ge> snd_cwnd tp * mss_cache tp
              then tp\<lparr>bytes_acked := bytes_acked tp - snd_cwnd tp * mss_cache tp,
                      snd_cwnd := (if snd_cwnd tp < snd_cwnd_clamp tp then snd_cwnd tp + 1 else snd_cwnd tp)\<rparr>
              else tp)
      else
        Some (if snd_cwnd_cnt tp \<ge> snd_cwnd tp
              then tp\<lparr>snd_cwnd := (if snd_cwnd tp < snd_cwnd_clamp tp then snd_cwnd tp + 1 else snd_cwnd tp),
                      snd_cwnd_cnt := 0\<rparr>
              else tp\<lparr>snd_cwnd_cnt := snd_cwnd_cnt tp + 1\<rparr>))"

definition tcp_reno_ssthresh :: "kernel_env \<Rightarrow> 'ca tcp_sock \<Rightarrow> (u32 \<times> 'ca tcp_sock) exec" where
  "tcp_reno_ssthresh e sk = Some (max (drop_bit 1 (snd_cwnd sk)) 2, sk)"

definition tcp_reno_min_cwnd :: "'ca tcp_sock \<Rightarrow> u32 exec" where
  "tcp_reno_min_cwnd sk = c_div (snd_ssthresh sk) 2"

definition tcp_reno :: "'ca tcp_congestion_ops" where
  "tcp_reno = (null_ops ''reno'')\<lparr>ca_flags := TCP_CONG_NON_RESTRICTED,
     ca_ssthresh := Some tcp_reno_ssthresh, ca_cong_avoid := Some tcp_reno_cong_avoid,
     ca_min_cwnd := Some tcp_reno_min_cwnd\<rparr>"

definition tcp_init_congestion_ops :: "'ca tcp_congestion_ops" where
  "tcp_init_congestion_ops = (null_ops '''')\<lparr>
     ca_ssthresh := Some tcp_reno_ssthresh, ca_cong_avoid := Some tcp_reno_cong_avoid,
     ca_min_cwnd := Some tcp_reno_min_cwnd\<rparr>"

section \<open>The slow start loop\<close>

lemma slow_start_loop_stop [simp]: "cnt < cwnd \<Longrightarrow> slow_start_loop clamp cwnd cnt = Some (cwnd, cnt)"
  by (subst slow_start_loop.simps) (simp add: not_le [symmetric])

lemma slow_start_loop_step:
  "cwnd \<le> cnt \<Longrightarrow> slow_start_loop clamp cwnd cnt =
     slow_start_loop clamp (if cwnd < clamp then cwnd + 1 else cwnd) (cnt - cwnd)"
  by (subst slow_start_loop.simps) simp

text \<open>
  From a positive window the loop ends: every round takes the window off the counter.
  The result leaves less than one window in the counter, and the window never passes the
  larger of its old value and the clamp.
\<close>

lemma slow_start_loop_pos:
  "0 < cwnd \<Longrightarrow> \<exists>w c. slow_start_loop clamp cwnd cnt = Some (w, c) \<and> c < w \<and> c \<le> cnt \<and>
     cwnd \<le> w \<and> w \<le> max cwnd clamp"
proof (induction "unat cnt" arbitrary: cwnd cnt rule: less_induct)
  case less
  show ?case
  proof (cases "cwnd \<le> cnt")
    case False
    then show ?thesis using less.prems by (simp add: not_le)
  next
    case True
    let ?w = "if cwnd < clamp then cwnd + 1 else cwnd"
    have sub: "unat (cnt - cwnd) = unat cnt - unat cwnd" using True by (simp add: unat_sub)
    have w: "0 < ?w" "cwnd \<le> ?w" "max ?w clamp \<le> max cwnd clamp"
      using less.prems inc_bounded_le [of cwnd clamp]
      by (auto simp: max_def intro: less_trans order.trans less_imp_le)
    have "unat (cnt - cwnd) < unat cnt"
      using True less.prems by (simp add: sub word_less_nat_alt word_le_nat_alt)
    from less.hyps [OF this w(1)] obtain w' c' where
      ih: "slow_start_loop clamp ?w (cnt - cwnd) = Some (w', c')" "c' < w'" "c' \<le> cnt - cwnd"
        "?w \<le> w'" "w' \<le> max ?w clamp"
      by blast
    have "cnt - cwnd \<le> cnt" by (simp add: word_le_nat_alt sub)
    then show ?thesis
      using ih w(2,3) slow_start_loop_step [OF True, of clamp] by (auto intro: order.trans)
  qed
qed

lemma slow_start_loop_zero:
  assumes "0 < clamp"
  shows "\<exists>w c. slow_start_loop clamp 0 cnt = Some (w, c) \<and> c < w \<and> w \<le> clamp"
proof -
  have "slow_start_loop clamp 0 cnt = slow_start_loop clamp 1 cnt"
    using assms by (subst slow_start_loop_step) simp_all
  moreover have "max 1 clamp = clamp" using assms by (simp add: max_def word_le_nat_alt unat_gt_0 Suc_le_eq)
  ultimately show ?thesis using slow_start_loop_pos [of 1 clamp cnt] by auto
qed

lemma slow_start_loop_diverges: "slow_start_loop 0 0 cnt = None"
proof (rule ccontr)
  assume "slow_start_loop 0 0 cnt \<noteq> None"
  then obtain r where ret: "slow_start_loop 0 0 cnt = Some r" by blast
  have "\<not> (0 = (0 :: u16) \<and> 0 = (0 :: u32))"
  proof (rule slow_start_loop.raw_induct [where P = "\<lambda>clamp cwnd cnt r. \<not> (clamp = 0 \<and> cwnd = 0)", OF _ ret])
    fix f :: "u16 \<Rightarrow> u32 \<Rightarrow> u16 \<Rightarrow> (u32 \<times> u16) option" and clamp cwnd cnt r
    assume IH: "\<And>clamp cwnd cnt r. f clamp cwnd cnt = Some r \<Longrightarrow> \<not> (clamp = 0 \<and> cwnd = 0)"
      and eq: "(if cwnd \<le> cnt then f clamp (if cwnd < clamp then cwnd + 1 else cwnd) (cnt - cwnd)
        else Some (cwnd, cnt)) = Some r"
    show "\<not> (clamp = (0 :: u16) \<and> cwnd = (0 :: u32))"
    proof
      assume "clamp = 0 \<and> cwnd = 0"
      then show False using eq IH [of clamp cwnd cnt r] by simp
    qed
  qed
  then show False by simp
qed

text \<open>
  In a regular state, one call of slow start adds one segment to the window: the counter is
  below the window, so adding the window to it makes the loop run exactly once.
\<close>

lemma slow_start_loop_once:
  fixes w c clamp :: u32
  assumes "c < w" "unat c + unat w < 4294967296"
  shows "slow_start_loop clamp w (c + w) = Some (if w < clamp then w + 1 else w, c)"
proof -
  have le: "w \<le> c + w" using assms by (simp add: word_le_nat_alt unat_word_ariths)
  have sub: "c + w - w = c" by simp
  have "c < (if w < clamp then w + 1 else w)"
    using assms(1) inc_bounded_le [of w clamp] by (auto intro: less_trans)
  then show ?thesis using le by (simp add: slow_start_loop_step sub)
qed

section \<open>One call of each operation\<close>

text \<open>The window grows, at most up to the clamp; nothing but the window and its counters changes.\<close>

definition window_grows :: "'ca tcp_sock \<Rightarrow> 'ca tcp_sock \<Rightarrow> bool" where
  "window_grows s t \<longleftrightarrow>
     same_control s t \<and> icsk_ca_priv t = icsk_ca_priv s \<and> snd_ssthresh t = snd_ssthresh s \<and>
     snd_cwnd s \<le> snd_cwnd t \<and> snd_cwnd t \<le> max (snd_cwnd s) (snd_cwnd_clamp s)"

lemma window_growsD:
  assumes "window_grows s t"
  shows "same_control s t" "icsk_ca_priv t = icsk_ca_priv s" "snd_ssthresh t = snd_ssthresh s"
    "snd_cwnd s \<le> snd_cwnd t" "snd_cwnd t \<le> max (snd_cwnd s) (snd_cwnd_clamp s)"
    "0 < snd_cwnd s \<Longrightarrow> 0 < snd_cwnd t"
  using assms by (auto simp: window_grows_def intro: less_le_trans)

lemma window_grows_step: "window_grows s t \<Longrightarrow> 0 < snd_cwnd s \<Longrightarrow> window_step s t"
  using window_growsD [of s t] by (simp add: window_step_def)

lemma window_grows_refl [simp]: "window_grows s s"
  by (simp add: window_grows_def max_def)

lemma window_grows_inc:
  "snd_cwnd s < snd_cwnd_clamp s \<Longrightarrow> window_grows s (s\<lparr>snd_cwnd := snd_cwnd s + 1\<rparr>)"
  using inc_bounded_le [of "snd_cwnd s" "snd_cwnd_clamp s"]
  by (auto simp: window_grows_def le_max_iff_disj intro: less_imp_le)

lemma window_grows_counters [simp]:
  "window_grows s (t\<lparr>snd_cwnd_cnt := c\<rparr>) = window_grows s t"
  "window_grows s (t\<lparr>bytes_acked := b\<rparr>) = window_grows s t"
  by (simp_all add: window_grows_def)

lemma window_grows_if:
  "window_grows s (s\<lparr>snd_cwnd := if snd_cwnd s < snd_cwnd_clamp s then snd_cwnd s + 1 else snd_cwnd s, snd_cwnd_cnt := c\<rparr>)"
  using window_grows_inc [of s] by simp

lemma tcp_slow_start_grows:
  assumes "0 < snd_cwnd s"
  shows "\<exists>t. tcp_slow_start e s = Some t \<and> window_grows s t"
proof -
  obtain w c where "slow_start_loop (snd_cwnd_clamp s) (snd_cwnd s) (snd_cwnd_cnt s + slow_start_cnt e s) = Some (w, c)"
      "snd_cwnd s \<le> w" "w \<le> max (snd_cwnd s) (snd_cwnd_clamp s)"
    using slow_start_loop_pos [OF assms] by blast
  then show ?thesis by (simp add: tcp_slow_start_def window_grows_def)
qed

lemma tcp_reno_cong_avoid_grows:
  assumes "0 < snd_cwnd s"
  shows "\<exists>t. tcp_reno_cong_avoid e s ack rtt in_flight flag = Some t \<and> window_grows s t"
proof -
  have "window_grows s (s\<lparr>snd_cwnd := if snd_cwnd s < snd_cwnd_clamp s then snd_cwnd s + 1 else snd_cwnd s\<rparr>)"
    using window_grows_inc [of s] by simp
  then have "window_grows s (s\<lparr>bytes_acked := b, snd_cwnd := if snd_cwnd s < snd_cwnd_clamp s then snd_cwnd s + 1 else snd_cwnd s\<rparr>)"
      "window_grows s (s\<lparr>snd_cwnd := if snd_cwnd s < snd_cwnd_clamp s then snd_cwnd s + 1 else snd_cwnd s, snd_cwnd_cnt := c\<rparr>)"
    for b c
    by (simp_all add: window_grows_def)
  then show ?thesis
    using tcp_slow_start_grows [OF assms, of e] by (simp add: tcp_reno_cong_avoid_def)
qed

text \<open>The same facts in the vocabulary of the contract.\<close>

lemma tcp_slow_start_step:
  assumes "0 < snd_cwnd s"
  shows "\<exists>t. tcp_slow_start e s = Some t \<and> window_step s t \<and> icsk_ca_priv t = icsk_ca_priv s"
  using tcp_slow_start_grows [OF assms, of e] window_grows_step [OF _ assms] window_growsD(2) by blast

lemma tcp_reno_cong_avoid_step:
  assumes "0 < snd_cwnd s"
  shows "\<exists>t. tcp_reno_cong_avoid e s ack rtt in_flight flag = Some t \<and> window_step s t \<and>
    icsk_ca_priv t = icsk_ca_priv s"
  using tcp_reno_cong_avoid_grows [OF assms, of e ack rtt in_flight flag]
    window_grows_step [OF _ assms] window_growsD(2) by blast

interpretation reno: cong_control tcp_reno "\<lambda>_ :: 'ca. True" "\<lambda>_ _. True" 4294967296 "\<lambda>_ _. True"
proof (unfold_locales, goal_cases)
  case (7 ca s e ack rtt in_flight flag)
  then show ?case
    using tcp_reno_cong_avoid_grows [of s e ack rtt in_flight flag]
    by (auto simp: tcp_reno_def null_ops_def wf_sock_def intro: window_grows_step)
next
  case (8 sth s e)
  then show ?case
    by (auto simp: tcp_reno_def null_ops_def tcp_reno_ssthresh_def)
next
  case (9 mc s)
  then show ?case
    by (auto simp: tcp_reno_def null_ops_def tcp_reno_min_cwnd_def unat_simps unat_div_word)
qed (auto simp: tcp_reno_def null_ops_def)

section \<open>Properties\<close>

text \<open>
  \<^bold>\<open>C35\<close> The slow start loop returns exactly when the window or the clamp is positive; with both at
  zero it never ends.
\<close>

theorem slow_start_loop_returns_iff:
  "(\<exists>r. slow_start_loop clamp cwnd cnt = Some r) \<longleftrightarrow> 0 < cwnd \<or> 0 < clamp"
proof (cases "0 < cwnd")
  case True
  then show ?thesis using slow_start_loop_pos [OF True, of clamp cnt] by blast
next
  case False
  then have "cwnd = 0" by (simp add: word_pos_iff)
  then show ?thesis
    using slow_start_loop_zero [of clamp cnt] slow_start_loop_diverges by (cases "clamp = 0") (auto simp: word_pos_iff)
qed

lemma u32_max: "x \<le> (0xffffffff :: u32)"
proof -
  have "unat x \<le> 4294967295" using u32_bound [of x] by linarith
  then show ?thesis by (simp add: word_le_nat_alt)
qed

text \<open>The plain configuration: no byte counting and no limited slow start.\<close>

definition plain_env :: "kernel_env \<Rightarrow> bool" where
  "plain_env e \<longleftrightarrow> sysctl_tcp_abc e = 0 \<and> sysctl_tcp_max_ssthresh e = 0"

lemma tcp_slow_start_once:
  assumes "plain_env e" "snd_cwnd_cnt s < snd_cwnd s" "snd_cwnd s < snd_cwnd_clamp s"
    and "unat (snd_cwnd_clamp s) \<le> 2147483648"
  shows "tcp_slow_start e s = Some (s\<lparr>bytes_acked := 0, snd_cwnd := snd_cwnd s + 1\<rparr>)"
proof -
  have "slow_start_loop (snd_cwnd_clamp s) (snd_cwnd s) (snd_cwnd_cnt s + snd_cwnd s) = Some (snd_cwnd s + 1, snd_cwnd_cnt s)"
    using assms slow_start_loop_once [of "snd_cwnd_cnt s" "snd_cwnd s" "snd_cwnd_clamp s"]
    by (simp add: word_less_nat_alt)
  then show ?thesis using assms(1) by (simp add: tcp_slow_start_def slow_start_cnt_def plain_env_def)
qed

text \<open>
  Slow start in the plain configuration: while the window is below the threshold and the
  clamp, each of \<open>n\<close> acknowledgments that find the window full adds exactly one segment, so that a
  window of acknowledgments doubles it.
\<close>

theorem reno_slow_start_acks:
  assumes "plain_env e" and "snd_cwnd_cnt s < snd_cwnd s"
    and "unat (snd_cwnd s) + n \<le> unat (snd_ssthresh s)" and "unat (snd_cwnd s) + n \<le> unat (snd_cwnd_clamp s)"
    and "unat (snd_cwnd_clamp s) \<le> 2147483648"
  shows "\<exists>t. exec_iter n (\<lambda>s. tcp_reno_cong_avoid e s ack rtt 0xffffffff flag) s = Some t \<and>
    unat (snd_cwnd t) = unat (snd_cwnd s) + n \<and> snd_cwnd_cnt t = snd_cwnd_cnt s \<and> window_grows s t"
  using assms(3,4)
proof (induction n)
  case (Suc n)
  then obtain t where t: "exec_iter n (\<lambda>s. tcp_reno_cong_avoid e s ack rtt 0xffffffff flag) s = Some t"
    "unat (snd_cwnd t) = unat (snd_cwnd s) + n" "snd_cwnd_cnt t = snd_cwnd_cnt s" "window_grows s t" by auto
  have k: "snd_cwnd_clamp t = snd_cwnd_clamp s" "snd_ssthresh t = snd_ssthresh s"
    using window_growsD [OF t(4)] by (simp_all add: same_control_def)
  have lt: "snd_cwnd t < snd_cwnd_clamp t" using t(2) k Suc.prems by (simp add: word_less_nat_alt)
  have "snd_cwnd t \<le> snd_ssthresh t" "snd_cwnd_cnt t < snd_cwnd t"
    using t(2,3) k Suc.prems assms(2) by (simp_all add: word_le_nat_alt word_less_nat_alt)
  then have step: "tcp_reno_cong_avoid e t ack rtt 0xffffffff flag = Some (t\<lparr>bytes_acked := 0, snd_cwnd := snd_cwnd t + 1\<rparr>)"
    using tcp_slow_start_once [OF assms(1) _ lt] assms(5) k
    by (simp add: tcp_reno_cong_avoid_def tcp_is_cwnd_limited_def u32_max)
  have "window_grows s (t\<lparr>bytes_acked := 0, snd_cwnd := snd_cwnd t + 1\<rparr>)"
    using t(4) window_growsD [OF window_grows_inc [OF lt]] inc_bounded_le [OF lt] k
    by (auto simp: window_grows_def le_max_iff_disj intro: order.trans)
  then show ?case using t step unat_Suc_bounded [OF lt] by simp
qed simp

theorem reno_slow_start_acks_witness:
  "\<exists>t. exec_iter 10 (\<lambda>s. tcp_reno_cong_avoid sample_env s 0 0 0xffffffff 0) (sample_sock ()) = Some t \<and>
    unat (snd_cwnd t) = 20"
  using reno_slow_start_acks [of sample_env "sample_sock ()" 10 0 0 0]
  by (auto simp: plain_env_def sample_env_def sample_sock_def)

text \<open>
  Congestion avoidance in the plain configuration: from an empty counter, \<open>snd_cwnd + 1\<close>
  acknowledgments that find the window full add exactly one segment and empty the counter again.
\<close>

theorem reno_avoidance_round:
  assumes "plain_env e" and "snd_cwnd_cnt s = 0"
    and "snd_ssthresh s < snd_cwnd s" and "snd_cwnd s < snd_cwnd_clamp s"
  shows "exec_iter (Suc (unat (snd_cwnd s))) (\<lambda>s. tcp_reno_cong_avoid e s ack rtt 0xffffffff flag) s =
    Some (s\<lparr>snd_cwnd := snd_cwnd s + 1\<rparr>)"
proof -
  let ?f = "\<lambda>s. tcp_reno_cong_avoid e s ack rtt 0xffffffff flag"
  have part: "exec_iter k ?f s = Some (s\<lparr>snd_cwnd_cnt := of_nat k\<rparr>)" if "k \<le> unat (snd_cwnd s)" for k
    using that
  proof (induction k)
    case 0
    then show ?case using assms(2) by simp
  next
    case (Suc k)
    then have "k < 4294967296" using u32_bound [of "snd_cwnd s"] by linarith
    then have "unat (of_nat k :: u32) = k" by (simp add: unat_of_nat)
    then have "\<not> snd_cwnd s \<le> of_nat k" using Suc.prems by (simp add: word_le_nat_alt)
    moreover have "\<not> snd_cwnd s \<le> snd_ssthresh s" using assms(3) by (simp add: not_le)
    ultimately show ?case
      using Suc assms(1) by (simp add: u32_max tcp_reno_cong_avoid_def tcp_is_cwnd_limited_def plain_env_def add.commute)
  qed
  have "\<not> snd_cwnd s \<le> snd_ssthresh s" using assms(3) by (simp add: not_le)
  then have "?f (s\<lparr>snd_cwnd_cnt := snd_cwnd s\<rparr>) = Some (s\<lparr>snd_cwnd := snd_cwnd s + 1, snd_cwnd_cnt := 0\<rparr>)"
    using assms by (simp add: u32_max tcp_reno_cong_avoid_def tcp_is_cwnd_limited_def plain_env_def)
  then show ?thesis using part [OF order_refl] assms(2) by simp
qed

theorem reno_avoidance_round_witness:
  "exec_iter 11 (\<lambda>s. tcp_reno_cong_avoid sample_env s 0 0 0xffffffff 0) ((sample_sock ())\<lparr>snd_ssthresh := 5\<rparr>) =
    Some ((sample_sock ())\<lparr>snd_ssthresh := 5, snd_cwnd := 11\<rparr>)"
  using reno_avoidance_round [of sample_env "(sample_sock ())\<lparr>snd_ssthresh := 5\<rparr>" 0 0 0]
  by (simp add: plain_env_def sample_env_def sample_sock_def)

text \<open>
  In every run of Reno, whatever the order of acknowledgments, losses and timeouts and
  whatever the simulator writes to the public fields in between, each call returns and the window
  and the threshold keep their bounds.
\<close>

theorem reno_run_safe:
  assumes "cc_reach tcp_reno (\<lambda>_ _. True) 4294967296 (\<lambda>_ _. True) s"
  shows "run_safe tcp_reno e (\<lambda>_ _. True) s"
  using reno.reach_run_safe [OF assms] by simp

theorem reno_run_safe_witness: "run_safe tcp_reno sample_env (\<lambda>_ _. True) (sample_sock ())"
  by (rule reno_run_safe, rule sample_start) (simp_all add: tcp_reno_def null_ops_def)

end
