(* ===== verification/Tcp_Scalable.thy ===== *)
theory Tcp_Scalable
  imports Tcp_Reno
begin

text \<open>
  \<^verbatim>\<open>src/ns-2.34/tcp/linux/src/tcp_scalable.c\<close> (Scalable TCP) and
  \<^verbatim>\<open>src/ns-2.34/tcp/linux/tcp_naivereno.c\<close> (the tutorial module), the two modules without a private
  struct. Scalable TCP meets the contract of \<open>Cong_Control\<close>; the tutorial module is described by
  the effect of its operations: its slow start ignores the clamp, and its \<^verbatim>\<open>beta\<close> parameter is a
  divisor.
\<close>

section \<open>Scalable TCP\<close>

definition tcp_scalable_cong_avoid ::
  "kernel_env \<Rightarrow> 'ca tcp_sock \<Rightarrow> u32 \<Rightarrow> u32 \<Rightarrow> u32 \<Rightarrow> c_int \<Rightarrow> 'ca tcp_sock exec" where
  "tcp_scalable_cong_avoid e tp ack rtt in_flight flag =
     (if \<not> tcp_is_cwnd_limited tp in_flight then Some tp
      else if snd_cwnd tp \<le> snd_ssthresh tp then tcp_slow_start e tp
      else
        let cnt = snd_cwnd_cnt tp + 1 in
        Some (if cnt > min (snd_cwnd tp) 50
              then tp\<lparr>snd_cwnd := (if snd_cwnd tp < snd_cwnd_clamp tp then snd_cwnd tp + 1 else snd_cwnd tp),
                      snd_cwnd_cnt := 0\<rparr>
              else tp\<lparr>snd_cwnd_cnt := cnt\<rparr>))"

definition tcp_scalable_ssthresh :: "kernel_env \<Rightarrow> 'ca tcp_sock \<Rightarrow> (u32 \<times> 'ca tcp_sock) exec" where
  "tcp_scalable_ssthresh e sk = Some (max (snd_cwnd sk - drop_bit 3 (snd_cwnd sk)) 2, sk)"

definition tcp_scalable :: "'ca tcp_congestion_ops" where
  "tcp_scalable = (null_ops ''scalable'')\<lparr>ca_ssthresh := Some tcp_scalable_ssthresh,
     ca_cong_avoid := Some tcp_scalable_cong_avoid, ca_min_cwnd := Some tcp_reno_min_cwnd\<rparr>"

section \<open>The tutorial module\<close>

record naive_params =
  naive_alpha :: c_int
  naive_beta :: c_int

definition naive_defaults :: naive_params where
  "naive_defaults = \<lparr>naive_alpha = 1, naive_beta = 2\<rparr>"

definition tcp_naive_reno_cong_avoid ::
  "naive_params \<Rightarrow> kernel_env \<Rightarrow> 'ca tcp_sock \<Rightarrow> u32 \<Rightarrow> u32 \<Rightarrow> u32 \<Rightarrow> c_int \<Rightarrow> 'ca tcp_sock exec" where
  "tcp_naive_reno_cong_avoid m e tp ack rtt in_flight flag =
     Some (if snd_cwnd tp < snd_ssthresh tp then tp\<lparr>snd_cwnd := snd_cwnd tp + 1\<rparr>
           else if snd_cwnd_cnt tp \<ge> snd_cwnd tp then
             let w = snd_cwnd tp + naive_alpha m in
             tp\<lparr>snd_cwnd_cnt := 0, snd_cwnd := (if w > snd_cwnd_clamp tp then snd_cwnd_clamp tp else w)\<rparr>
           else tp\<lparr>snd_cwnd_cnt := snd_cwnd_cnt tp + 1\<rparr>)"

definition tcp_naive_reno_ssthresh ::
  "naive_params \<Rightarrow> kernel_env \<Rightarrow> 'ca tcp_sock \<Rightarrow> (u32 \<times> 'ca tcp_sock) exec" where
  "tcp_naive_reno_ssthresh m e tp =
     do { reduction \<leftarrow> c_div (snd_cwnd tp) (naive_beta m);
          Some (max (snd_cwnd tp - reduction) 2, tp) }"

definition tcp_naive_reno_min_cwnd :: "'ca tcp_sock \<Rightarrow> u32 exec" where
  "tcp_naive_reno_min_cwnd tp = Some (snd_ssthresh tp)"

definition tcp_naive_reno :: "naive_params \<Rightarrow> 'ca tcp_congestion_ops" where
  "tcp_naive_reno m = (null_ops ''naive_reno'')\<lparr>ca_ssthresh := Some (tcp_naive_reno_ssthresh m),
     ca_cong_avoid := Some (tcp_naive_reno_cong_avoid m), ca_min_cwnd := Some tcp_naive_reno_min_cwnd\<rparr>"

section \<open>Lemmas\<close>

lemma tcp_scalable_cong_avoid_grows:
  assumes "0 < snd_cwnd s"
  shows "\<exists>t. tcp_scalable_cong_avoid e s ack rtt in_flight flag = Some t \<and> window_grows s t"
  using tcp_slow_start_grows [OF assms, of e] window_grows_if [of s 0]
  by (simp add: tcp_scalable_cong_avoid_def Let_def)

interpretation scalable: cong_control tcp_scalable "\<lambda>_ :: 'ca. True" "\<lambda>_ _. True" 4294967296 "\<lambda>_ _. True"
proof (unfold_locales, goal_cases)
  case (7 ca s e ack rtt in_flight flag)
  then show ?case
    using tcp_scalable_cong_avoid_grows [of s e ack rtt in_flight flag]
    by (auto simp: tcp_scalable_def null_ops_def wf_sock_def intro: window_grows_step)
next
  case (8 sth s e)
  then show ?case
    by (auto simp: tcp_scalable_def null_ops_def tcp_scalable_ssthresh_def)
next
  case (9 mc s)
  then show ?case using reno.min_cwnd_ok [of tcp_reno_min_cwnd s]
    by (auto simp: tcp_scalable_def null_ops_def tcp_reno_def)
qed (auto simp: tcp_scalable_def null_ops_def)

section \<open>Properties\<close>

text \<open>
  In every run of Scalable TCP each call the simulator can make returns, and the window and the
  threshold keep their bounds.
\<close>

theorem scalable_run_safe:
  assumes "cc_reach tcp_scalable (\<lambda>_ _. True) 4294967296 (\<lambda>_ _. True) s"
  shows "run_safe tcp_scalable e (\<lambda>_ _. True) s"
  using scalable.reach_run_safe [OF assms] by simp

theorem scalable_run_safe_witness: "run_safe tcp_scalable sample_env (\<lambda>_ _. True) (sample_sock ())"
  by (rule scalable_run_safe, rule sample_start) (simp_all add: tcp_scalable_def null_ops_def)

text \<open>
  The tutorial module reacts to a loss exactly when its parameter \<open>beta\<close> is not zero (it divides
  by it); with the default of two it leaves half the window, rounded up, and at least two.
\<close>

theorem naive_reno_cut:
  "(tcp_naive_reno_ssthresh m e s = None \<longleftrightarrow> naive_beta m = 0) \<and>
   (\<exists>v. tcp_naive_reno_ssthresh naive_defaults e s = Some (v, s) \<and>
      unat v = max (unat (snd_cwnd s) - unat (snd_cwnd s) div 2) 2)"
proof
  show "tcp_naive_reno_ssthresh m e s = None \<longleftrightarrow> naive_beta m = 0"
    by (cases "naive_beta m = 0") (simp_all add: tcp_naive_reno_ssthresh_def)
  have "unat (snd_cwnd s - snd_cwnd s div 2) = unat (snd_cwnd s) - unat (snd_cwnd s) div 2"
    by (subst unat_sub) (simp_all add: unat_simps)
  then show "\<exists>v. tcp_naive_reno_ssthresh naive_defaults e s = Some (v, s) \<and>
      unat v = max (unat (snd_cwnd s) - unat (snd_cwnd s) div 2) 2"
    by (simp add: tcp_naive_reno_ssthresh_def naive_defaults_def unat_max)
qed

end
