(* ===== verification/Tcp_Bic.thy ===== *)
theory Tcp_Bic
  imports Tcp_Reno
begin

text \<open>
  \<^verbatim>\<open>src/ns-2.34/tcp/linux/src/tcp_bic.c\<close>: binary increase congestion control. The module parameters
  (\<^verbatim>\<open>static int\<close> variables that the simulator can set) are a record passed to the operations. The
  invariant of the private struct is the one that keeps every division defined: the smoothed ratio
  \<^verbatim>\<open>delayed_ack\<close> stays between 16 (one packet per acknowledgment) and a bound that follows from the
  number of packets one acknowledgment may cover.
\<close>

section \<open>Data\<close>

record bic_params =
  bic_fast_convergence :: c_int
  bic_max_increment :: c_int
  bic_low_window :: c_int
  bic_beta :: c_int
  bic_initial_ssthresh :: c_int
  bic_smooth_part :: c_int

definition bic_defaults :: bic_params where
  "bic_defaults = \<lparr>bic_fast_convergence = 1, bic_max_increment = 16, bic_low_window = 14, bic_beta = 819,
     bic_initial_ssthresh = 0, bic_smooth_part = 20\<rparr>"

record bictcp =
  bic_cnt :: u32
  bic_last_max_cwnd :: u32
  bic_loss_cwnd :: u32
  bic_last_cwnd :: u32
  bic_last_time :: u32
  bic_epoch_start :: u32
  bic_delayed_ack :: u32

section \<open>Operations\<close>

definition bictcp_reset :: "bictcp \<Rightarrow> bictcp" where
  "bictcp_reset ca = ca\<lparr>bic_cnt := 0, bic_last_max_cwnd := 0, bic_loss_cwnd := 0, bic_last_cwnd := 0,
     bic_last_time := 0, bic_epoch_start := 0, bic_delayed_ack := push_bit 4 2\<rparr>"

definition bictcp_init :: "bic_params \<Rightarrow> kernel_env \<Rightarrow> bictcp tcp_sock \<Rightarrow> bictcp tcp_sock exec" where
  "bictcp_init m e sk =
     (let sk = upd_priv bictcp_reset sk in
      Some (if bic_initial_ssthresh m \<noteq> 0 then sk\<lparr>snd_ssthresh := bic_initial_ssthresh m\<rparr> else sk))"

text \<open>The increase count before the delayed acknowledgment correction.\<close>

definition bictcp_count :: "bic_params \<Rightarrow> bictcp \<Rightarrow> u32 \<Rightarrow> u32 exec" where
  "bictcp_count m ca cwnd =
     (if cwnd < bic_last_max_cwnd ca then do {
        dist \<leftarrow> c_div (bic_last_max_cwnd ca - cwnd) 4;
        if dist > bic_max_increment m then c_div cwnd (bic_max_increment m)
        else if dist \<le> 1 then c_div (cwnd * bic_smooth_part m) 4
        else c_div cwnd dist
      }
      else if cwnd < bic_last_max_cwnd ca + 4 then c_div (cwnd * bic_smooth_part m) 4
      else if cwnd < bic_last_max_cwnd ca + bic_max_increment m * (4 - 1)
      then c_div (cwnd * (4 - 1)) (cwnd - bic_last_max_cwnd ca)
      else c_div cwnd (bic_max_increment m))"

definition bictcp_update :: "bic_params \<Rightarrow> kernel_env \<Rightarrow> bictcp \<Rightarrow> u32 \<Rightarrow> bictcp exec" where
  "bictcp_update m e ca cwnd =
     (if bic_last_cwnd ca = cwnd \<and> sint (tcp_time_stamp e - bic_last_time ca) \<le> 1000 div 32 then Some ca
      else
        let ca = ca\<lparr>bic_last_cwnd := cwnd, bic_last_time := tcp_time_stamp e\<rparr>;
            ca = (if bic_epoch_start ca = 0 then ca\<lparr>bic_epoch_start := tcp_time_stamp e\<rparr> else ca)
        in if cwnd \<le> bic_low_window m then Some (ca\<lparr>bic_cnt := cwnd\<rparr>)
           else do {
             n \<leftarrow> bictcp_count m ca cwnd;
             let n = (if bic_loss_cwnd ca = 0 \<and> n > 20 then 20 else n);
             n \<leftarrow> c_div (push_bit 4 n) (bic_delayed_ack ca);
             Some (ca\<lparr>bic_cnt := (if n = 0 then 1 else n)\<rparr>)
           })"

definition bictcp_cong_avoid ::
  "bic_params \<Rightarrow> kernel_env \<Rightarrow> bictcp tcp_sock \<Rightarrow> u32 \<Rightarrow> u32 \<Rightarrow> u32 \<Rightarrow> c_int \<Rightarrow> bictcp tcp_sock exec" where
  "bictcp_cong_avoid m e tp ack seq_rtt in_flight data_acked =
     (if \<not> tcp_is_cwnd_limited tp in_flight then Some tp
      else if snd_cwnd tp \<le> snd_ssthresh tp then tcp_slow_start e tp
      else do {
        ca \<leftarrow> bictcp_update m e (icsk_ca_priv tp) (snd_cwnd tp);
        let tp = tp\<lparr>icsk_ca_priv := ca\<rparr>;
        Some (if snd_cwnd_cnt tp \<ge> bic_cnt ca
              then tp\<lparr>snd_cwnd := (if snd_cwnd tp < snd_cwnd_clamp tp then snd_cwnd tp + 1 else snd_cwnd tp),
                      snd_cwnd_cnt := 0\<rparr>
              else tp\<lparr>snd_cwnd_cnt := snd_cwnd_cnt tp + 1\<rparr>)
      })"

definition bictcp_recalc_ssthresh :: "bic_params \<Rightarrow> kernel_env \<Rightarrow> bictcp tcp_sock \<Rightarrow> (u32 \<times> bictcp tcp_sock) exec" where
  "bictcp_recalc_ssthresh m e sk =
     (let cwnd = snd_cwnd sk;
          ca = (icsk_ca_priv sk)\<lparr>bic_epoch_start := 0\<rparr>;
          ca = ca\<lparr>bic_last_max_cwnd :=
                   (if cwnd < bic_last_max_cwnd ca \<and> bic_fast_convergence m \<noteq> 0
                    then (cwnd * (1024 + bic_beta m)) div (2 * 1024) else cwnd)\<rparr>;
          ca = ca\<lparr>bic_loss_cwnd := cwnd\<rparr>
      in Some (if cwnd \<le> bic_low_window m then max (drop_bit 1 cwnd) 2
               else max ((cwnd * bic_beta m) div 1024) 2,
               sk\<lparr>icsk_ca_priv := ca\<rparr>))"

definition bictcp_undo_cwnd :: "kernel_env \<Rightarrow> bictcp tcp_sock \<Rightarrow> (u32 \<times> bictcp tcp_sock) exec" where
  "bictcp_undo_cwnd e sk = Some (max (snd_cwnd sk) (bic_last_max_cwnd (icsk_ca_priv sk)), sk)"

definition bictcp_state :: "kernel_env \<Rightarrow> bictcp tcp_sock \<Rightarrow> u8 \<Rightarrow> bictcp tcp_sock exec" where
  "bictcp_state e sk new_state = Some (if new_state = TCP_CA_Loss then upd_priv bictcp_reset sk else sk)"

definition bictcp_acked :: "kernel_env \<Rightarrow> bictcp tcp_sock \<Rightarrow> u32 \<Rightarrow> s64 \<Rightarrow> bictcp tcp_sock exec" where
  "bictcp_acked e sk cnt last_ackt =
     Some (if cnt > 0 \<and> icsk_ca_state sk = TCP_CA_Open
           then let ca = icsk_ca_priv sk; cnt = cnt - drop_bit 4 (bic_delayed_ack ca)
                in sk\<lparr>icsk_ca_priv := ca\<lparr>bic_delayed_ack := bic_delayed_ack ca + cnt\<rparr>\<rparr>
           else sk)"

definition bictcp_ops :: "bic_params \<Rightarrow> bictcp tcp_congestion_ops" where
  "bictcp_ops m = (null_ops ''bic'')\<lparr>ca_init := Some (bictcp_init m), ca_ssthresh := Some (bictcp_recalc_ssthresh m),
     ca_cong_avoid := Some (bictcp_cong_avoid m), ca_set_state := Some bictcp_state,
     ca_undo_cwnd := Some bictcp_undo_cwnd, ca_pkts_acked := Some bictcp_acked\<rparr>"

section \<open>The delayed acknowledgment ratio\<close>

text \<open>
  One sample moves the ratio (scaled by 16) by a sixteenth towards the sample. Both bounds are
  kept when a sample covers between one and \<open>2 ^ 27\<close> packets; CUBIC uses the same filter.
\<close>

abbreviation (input) DELACK_PKTS :: nat where "DELACK_PKTS \<equiv> 134217728"

definition delack_ok :: "u32 \<Rightarrow> bool" where
  "delack_ok d \<longleftrightarrow> 16 \<le> unat d \<and> unat d \<le> 16 * DELACK_PKTS + 15"

lemma delack_filter:
  assumes d: "delack_ok d" and n: "0 < n" "unat n \<le> DELACK_PKTS"
  shows "unat (d + (n - drop_bit 4 d)) = unat d - unat d div 16 + unat n"
    and "delack_ok (d + (n - drop_bit 4 d))"
proof -
  have le: "drop_bit 4 d \<le> d" by (rule drop_bit_word_le)
  have "d + (n - drop_bit 4 d) = (d - drop_bit 4 d) + n" by simp
  also have "unat \<dots> = unat (d - drop_bit 4 d) + unat n"
  proof (rule unat_add_bounded)
    have "unat d - unat d div 16 + unat n < 4294967296"
      using d n unfolding delack_ok_def by linarith
    then show "unat (d - drop_bit 4 d) + unat n < 2 ^ LENGTH(32)"
      using le by (simp add: unat_sub unat_drop_bit)
  qed
  also have "unat (d - drop_bit 4 d) = unat d - unat d div 16"
    using le by (simp add: unat_sub unat_drop_bit)
  finally show eq: "unat (d + (n - drop_bit 4 d)) = unat d - unat d div 16 + unat n" .
  have "0 < unat n" using n by (simp add: unat_gt_0 word_pos_iff)
  then show "delack_ok (d + (n - drop_bit 4 d))"
    using d n unfolding delack_ok_def eq by linarith
qed

lemma delack_ok_nonzero: "delack_ok d \<Longrightarrow> d \<noteq> 0"
  by (auto simp: delack_ok_def)

lemma delack_ok_start: "delack_ok 32"
  by (simp add: delack_ok_def)

section \<open>The contract\<close>

definition bic_ok :: "bictcp \<Rightarrow> bool" where
  "bic_ok ca \<longleftrightarrow> delack_ok (bic_delayed_ack ca) \<and> unat (bic_last_max_cwnd ca) < 4294967292"

lemma bictcp_count_defined:
  assumes "bic_max_increment m \<noteq> 0" "unat (bic_last_max_cwnd ca) < 4294967292"
  shows "bictcp_count m ca cwnd \<noteq> None"
proof -
  let ?w = "bic_last_max_cwnd ca"
  have "unat (?w + 4) = unat ?w + 4" using assms(2) by (subst unat_add_bounded) simp_all
  then have "\<not> cwnd < ?w \<Longrightarrow> \<not> cwnd < ?w + 4 \<Longrightarrow> cwnd - ?w \<noteq> 0"
    by (auto simp: word_less_nat_alt)
  then show ?thesis using assms(1) by (auto simp: bictcp_count_def c_div_def)
qed

text \<open>The update returns, keeps the invariant and leaves a count of at least one.\<close>

lemma bictcp_update_ok:
  assumes "bic_max_increment m \<noteq> 0" "bic_ok ca"
  shows "\<exists>ca'. bictcp_update m e ca cwnd = Some ca' \<and> bic_ok ca'"
proof -
  define ca1 where "ca1 = ca\<lparr>bic_last_cwnd := cwnd, bic_last_time := tcp_time_stamp e\<rparr>"
  define ca2 where "ca2 = (if bic_epoch_start ca1 = 0 then ca1\<lparr>bic_epoch_start := tcp_time_stamp e\<rparr> else ca1)"
  have ok2: "bic_ok (ca2\<lparr>bic_cnt := n\<rparr>)" for n
    using assms(2) by (simp add: bic_ok_def ca2_def ca1_def)
  have "bictcp_count m ca2 cwnd \<noteq> None"
    using assms ok2 by (intro bictcp_count_defined) (simp_all add: bic_ok_def)
  moreover have "bic_delayed_ack ca2 \<noteq> 0"
    using ok2 [of 0] by (simp add: bic_ok_def delack_ok_nonzero)
  ultimately show ?thesis
    using assms(2) ok2 by (auto simp: bictcp_update_def Let_def simp flip: ca1_def ca2_def)
qed

lemma bictcp_cong_avoid_ok:
  assumes "bic_max_increment m \<noteq> 0" "0 < snd_cwnd s" "bic_ok (icsk_ca_priv s)"
  shows "\<exists>t. bictcp_cong_avoid m e s ack rtt in_flight flag = Some t \<and> window_step s t \<and> bic_ok (icsk_ca_priv t)"
proof -
  obtain t where slow: "tcp_slow_start e s = Some t" "window_step s t" "icsk_ca_priv t = icsk_ca_priv s"
    using tcp_slow_start_step [OF assms(2)] by blast
  obtain ca where ca: "bictcp_update m e (icsk_ca_priv s) (snd_cwnd s) = Some ca" "bic_ok ca"
    using bictcp_update_ok [OF assms(1,3)] by blast
  show ?thesis
    using slow ca assms(3) window_step_refl [OF assms(2)]
    by (simp add: bictcp_cong_avoid_def Let_def)
qed

text \<open>
  Fast convergence: after a loss below the previous maximum the remembered maximum is strictly
  below the window, so a flow that is losing bandwidth gives way.
\<close>

lemma bictcp_fast_convergence:
  assumes "bictcp_recalc_ssthresh bic_defaults e s = Some (v, t)"
    and "snd_cwnd s < bic_last_max_cwnd (icsk_ca_priv s)" "0 < snd_cwnd s" "unat (snd_cwnd s) < 2330168"
  shows "unat (bic_last_max_cwnd (icsk_ca_priv t)) = unat (snd_cwnd s) * 1843 div 2048"
    and "bic_last_max_cwnd (icsk_ca_priv t) < snd_cwnd s"
proof -
  have "unat (snd_cwnd s * 1843) = unat (snd_cwnd s) * 1843"
    using assms(4) by (subst unat_mult_bounded) simp_all
  then have eq: "unat (snd_cwnd s * 1843 div 2048) = unat (snd_cwnd s) * 1843 div 2048"
    by (simp add: unat_div_word)
  have t: "bic_last_max_cwnd (icsk_ca_priv t) = snd_cwnd s * 1843 div 2048"
    using assms(1,2) by (auto simp: bictcp_recalc_ssthresh_def bic_defaults_def Let_def)
  show "unat (bic_last_max_cwnd (icsk_ca_priv t)) = unat (snd_cwnd s) * 1843 div 2048"
    by (simp only: t eq)
  moreover have "unat (snd_cwnd s) * 1843 div 2048 < unat (snd_cwnd s)"
    using assms(3) by (simp add: div_less_iff_less_mult unat_gt_0 word_pos_iff)
  ultimately show "bic_last_max_cwnd (icsk_ca_priv t) < snd_cwnd s" by (simp add: word_less_nat_alt)
qed

lemma bictcp_recalc_ok:
  assumes "bic_ok (icsk_ca_priv s)" "unat (snd_cwnd s) < 4294967292"
  shows "\<exists>v t. bictcp_recalc_ssthresh m e s = Some (v, t) \<and> priv_only s t \<and> bic_ok (icsk_ca_priv t) \<and>
    2 \<le> v \<and> unat v < 4294967292"
proof -
  have small: "unat x div 1024 < 4294967292" "unat x div 2048 < 4294967292" for x :: u32
    using u32_bound [of x] by (simp_all add: div_less_iff_less_mult del: u32_bound)
  have "unat (snd_cwnd s) div 2 < 4294967292" using assms(2) by linarith
  then show ?thesis
    using assms small by (simp add: bictcp_recalc_ssthresh_def bic_ok_def Let_def unat_simps)
qed

interpretation bic: cong_control "bictcp_ops bic_defaults" bic_ok "\<lambda>_ _. True" 4294967292 "\<lambda>_ n. unat n \<le> DELACK_PKTS"
proof (unfold_locales, goal_cases)
  case (4 ini s e)
  then show ?case
    by (auto simp: bictcp_ops_def null_ops_def bictcp_init_def bictcp_reset_def bic_ok_def delack_ok_start
        Let_def split: if_splits)
next
  case (7 ca s e ack rtt in_flight flag)
  then show ?case
    using bictcp_cong_avoid_ok [of bic_defaults s e ack rtt in_flight flag]
    by (auto simp: bictcp_ops_def null_ops_def wf_sock_def bic_defaults_def)
next
  case (8 sth s e)
  then show ?case
    using bictcp_recalc_ok [of s bic_defaults e] by (auto simp: bictcp_ops_def null_ops_def wf_sock_def)
next
  case (10 ss s e st)
  then show ?case
    by (auto simp: bictcp_ops_def null_ops_def bictcp_state_def bictcp_reset_def bic_ok_def delack_ok_start
        split: if_splits)
next
  case (12 pa s e n last_ackt)
  then show ?case
    using delack_filter(2) [of "bic_delayed_ack (icsk_ca_priv s)" n]
    by (auto simp: bictcp_ops_def null_ops_def bictcp_acked_def bic_ok_def wf_sock_def Let_def algebra_simps)
qed (auto simp: bictcp_ops_def null_ops_def)

section \<open>Properties\<close>

text \<open>
  In every run of BIC with its default parameters, given that an acknowledgment covers at most \<open>DELACK_PKTS\<close> segments, whatever the order of acknowledgments, losses and timeouts, each
  call the simulator can make returns, the window and the threshold keep their bounds and the delayed acknowledgment estimate, a divisor, stays at least one segment (16).
\<close>

theorem bic_run_safe:
  assumes "cc_reach (bictcp_ops bic_defaults) (\<lambda>_ _. True) 4294967292 (\<lambda>_ n. unat n \<le> DELACK_PKTS) s"
  shows "run_safe (bictcp_ops bic_defaults) e (\<lambda>_ n. unat n \<le> DELACK_PKTS) s \<and>
    16 \<le> unat (bic_delayed_ack (icsk_ca_priv s))"
  using bic.reach_run_safe [OF assms(1), of e] bic.reach_priv_ok [OF assms(1)] by (simp add: bic_ok_def delack_ok_def)

theorem bic_run_safe_witness:
  "\<forall>(q :: bictcp). \<exists>s. bictcp_init bic_defaults sample_env (sample_sock q) = Some s \<and> run_safe (bictcp_ops bic_defaults) sample_env (\<lambda>_ n. unat n \<le> DELACK_PKTS) s"
proof (intro allI)
  fix q :: bictcp
  let ?s = "the (bictcp_init bic_defaults sample_env (sample_sock q))"
  have "cc_reach (bictcp_ops bic_defaults) (\<lambda>_ _. True) 4294967292 (\<lambda>_ n. unat n \<le> DELACK_PKTS) ?s"
    by (rule sample_init [where f = "bictcp_init bic_defaults" and q = q]) (simp_all add: bictcp_ops_def null_ops_def bictcp_init_def bic_defaults_def bictcp_reset_def Let_def sample_sock_def wf_sock_def)
  then show "\<exists>s. bictcp_init bic_defaults sample_env (sample_sock q) = Some s \<and> run_safe (bictcp_ops bic_defaults) sample_env (\<lambda>_ n. unat n \<le> DELACK_PKTS) s"
    using bic_run_safe [of ?s sample_env] by (intro exI [of _ ?s]) (simp add: bictcp_ops_def null_ops_def bictcp_init_def bic_defaults_def bictcp_reset_def Let_def sample_sock_def)
qed

text \<open>
  Fast convergence: in every run, when a loss comes at a window below the last maximum, the new
  maximum is the window scaled by 1843/2048, rounded down and so strictly below the window, which
  releases bandwidth to newer flows.
\<close>

theorem bic_fast_convergence_run:
  assumes "cc_reach (bictcp_ops bic_defaults) (\<lambda>_ _. True) 4294967292 (\<lambda>_ n. unat n \<le> DELACK_PKTS) s"
    and "snd_cwnd s < bic_last_max_cwnd (icsk_ca_priv s)" and "unat (snd_cwnd s) < 2330168"
  shows "\<exists>v t. bictcp_recalc_ssthresh bic_defaults e s = Some (v, t) \<and> 2 \<le> v \<and> priv_only s t \<and>
    unat (bic_last_max_cwnd (icsk_ca_priv t)) = unat (snd_cwnd s) * 1843 div 2048 \<and>
    bic_last_max_cwnd (icsk_ca_priv t) < snd_cwnd s"
proof -
  have s: "bic_ok (icsk_ca_priv s)" "0 < snd_cwnd s" "unat (snd_cwnd s) < 4294967292"
    using bic.reach_safe [OF assms(1)] by (simp_all add: cc_safe_def wf_sock_def)
  obtain v t where vt: "bictcp_recalc_ssthresh bic_defaults e s = Some (v, t)" "priv_only s t" "2 \<le> v"
    using bictcp_recalc_ok [OF s(1,3)] by blast
  show ?thesis using vt bictcp_fast_convergence [OF vt(1) assms(2) s(2) assms(3)] by blast
qed

theorem bic_fast_convergence_run_witness:
  "\<exists>s. cc_reach (bictcp_ops bic_defaults) (\<lambda>_ _. True) 4294967292 (\<lambda>_ n. unat n \<le> DELACK_PKTS) s \<and>
    (\<exists>v t. bictcp_recalc_ssthresh bic_defaults sample_env s = Some (v, t) \<and> unat (bic_last_max_cwnd (icsk_ca_priv t)) = 4)"
proof -
  let ?R = "cc_reach (bictcp_ops bic_defaults) (\<lambda>_ _. True) 4294967292 (\<lambda>_ n. unat n \<le> DELACK_PKTS)"
  define q where "q = \<lparr>bic_cnt = 0, bic_last_max_cwnd = 0, bic_loss_cwnd = 0, bic_last_cwnd = 0, bic_last_time = 0,
    bic_epoch_start = 0, bic_delayed_ack = 32\<rparr>"
  define s0 where "s0 = sample_sock q"
  have r0: "?R s0"
    by (rule sample_init [where f = "bictcp_init bic_defaults" and q = q])
      (simp_all add: bictcp_ops_def null_ops_def bictcp_init_def bic_defaults_def bictcp_reset_def
        sample_sock_def wf_sock_def s0_def q_def)
  define s1 where "s1 = s0\<lparr>icsk_ca_priv := q\<lparr>bic_last_max_cwnd := 10, bic_loss_cwnd := 10, bic_epoch_start := 0\<rparr>, 
    snd_ssthresh := 5, snd_cwnd := 5, snd_cwnd_stamp := 5000, icsk_ca_state := TCP_CA_Recovery\<rparr>"
  have rec: "enter_recovery (bictcp_ops bic_defaults) sample_env s0 = Some s1"
    by (simp add: enter_recovery_def bictcp_ops_def null_ops_def bictcp_recalc_ssthresh_def bictcp_state_def
        tcp_set_ca_state_def touch_cwnd_def s0_def s1_def q_def sample_sock_def sample_env_def bic_defaults_def
        bictcp_undo_cwnd_def)
  have r1: "?R s1" by (rule cc_reach.recovery [OF r0 _ rec]) simp
  have c: "snd_cwnd s1 = 5" "bic_last_max_cwnd (icsk_ca_priv s1) = 10" by (simp_all add: s1_def)
  have h: "snd_cwnd s1 < bic_last_max_cwnd (icsk_ca_priv s1)" "unat (snd_cwnd s1) < 2330168" unfolding c by simp_all
  from bic_fast_convergence_run [OF r1 h, of sample_env] obtain v t where
    v: "bictcp_recalc_ssthresh bic_defaults sample_env s1 = Some (v, t)" and
    m: "unat (bic_last_max_cwnd (icsk_ca_priv t)) = unat (snd_cwnd s1) * 1843 div 2048" by blast
  have "unat (bic_last_max_cwnd (icsk_ca_priv t)) = 4" using m unfolding c by simp
  then show ?thesis using r1 v by blast
qed

end
