(* ===== verification/Tcp_Cubic.thy ===== *)
theory Tcp_Cubic
  imports Tcp_Bic NS_Linux_C
begin

text \<open>
  \<^verbatim>\<open>src/ns-2.34/tcp/linux/src/tcp_cubic.c\<close>: CUBIC. The private struct is a \<^verbatim>\<open>struct bictcp\<close> of its own,
  here \<open>cubictcp\<close> with fields prefixed \<open>cu_\<close>; the operations the C file names \<^verbatim>\<open>bictcp_*\<close> are
  named \<open>cubictcp_*\<close>. The lemmas show that the cube root never reads outside its table and never
  divides by zero for any 64-bit argument, that the loop of the TCP-friendly region ends, and that
  the module meets the contract for round trip times below the 100 seconds the source states.
\<close>

section \<open>Data\<close>

record cubic_params =
  cu_fast_convergence :: c_int
  cu_max_increment :: c_int
  cu_beta :: c_int
  cu_initial_ssthresh :: c_int
  cu_bic_scale :: c_int
  cu_tcp_friendliness :: c_int

definition cubic_defaults :: cubic_params where
  "cubic_defaults = \<lparr>cu_fast_convergence = 1, cu_max_increment = 16, cu_beta = 819,
     cu_initial_ssthresh = 0, cu_bic_scale = 41, cu_tcp_friendliness = 1\<rparr>"

text \<open>The scaling factors \<open>cubictcp_register\<close> computes once.\<close>

record cubic_scales =
  cube_rtt_scale :: u32
  beta_scale :: u32
  cube_factor :: u64

record cubictcp =
  cu_cnt :: u32
  cu_last_max_cwnd :: u32
  cu_loss_cwnd :: u32
  cu_last_cwnd :: u32
  cu_last_time :: u32
  cu_bic_origin_point :: u32
  cu_bic_K :: u32
  cu_delay_min :: u32
  cu_epoch_start :: u32
  cu_ack_cnt :: u32
  cu_tcp_cwnd :: u32
  cu_delayed_ack :: u32

section \<open>Operations\<close>

definition cubictcp_register_scales :: "cubic_params \<Rightarrow> cubic_scales exec" where
  "cubictcp_register_scales m =
     do { b3 \<leftarrow> c_sdiv (8 * (1024 + cu_beta m)) 3;
          b \<leftarrow> c_sdiv b3 (1024 - cu_beta m);
          (f, _) \<leftarrow> do_div (push_bit 40 1) (cu_bic_scale m * 10);
          Some \<lparr>cube_rtt_scale = cu_bic_scale m * 10, beta_scale = b, cube_factor = f\<rparr> }"

definition cubictcp_reset :: "cubictcp \<Rightarrow> cubictcp" where
  "cubictcp_reset ca = ca\<lparr>cu_cnt := 0, cu_last_max_cwnd := 0, cu_loss_cwnd := 0, cu_last_cwnd := 0,
     cu_last_time := 0, cu_bic_origin_point := 0, cu_bic_K := 0, cu_delay_min := 0, cu_epoch_start := 0,
     cu_delayed_ack := push_bit 4 2, cu_ack_cnt := 0, cu_tcp_cwnd := 0\<rparr>"

definition cubictcp_init :: "cubic_params \<Rightarrow> kernel_env \<Rightarrow> cubictcp tcp_sock \<Rightarrow> cubictcp tcp_sock exec" where
  "cubictcp_init m e sk =
     (let sk = upd_priv cubictcp_reset sk in
      Some (if cu_initial_ssthresh m \<noteq> 0 then sk\<lparr>snd_ssthresh := cu_initial_ssthresh m\<rparr> else sk))"

definition cubic_root_v :: "u8 list" where
  "cubic_root_v =
   [0, 54, 54, 54, 118, 118, 118, 118,
    123, 129, 134, 138, 143, 147, 151, 156,
    157, 161, 164, 168, 170, 173, 176, 179,
    181, 185, 187, 190, 192, 194, 197, 199,
    200, 202, 204, 206, 209, 211, 213, 215,
    217, 219, 221, 222, 224, 225, 227, 229,
    231, 232, 234, 236, 237, 239, 240, 242,
    244, 245, 246, 248, 250, 251, 252, 254]"

definition cubic_root :: "u64 \<Rightarrow> u32 exec" where
  "cubic_root a =
     (let b = fls64 a in
      if b < 7 then do {
        r \<leftarrow> c_index cubic_root_v (ucast a :: u32);
        Some (drop_bit 6 ((ucast r :: u32) + 35))
      }
      else do {
        let b = drop_bit 8 (b * 84) - 1;
        hi \<leftarrow> c_shr a (b * 3);
        let shift = (ucast hi :: u32);
        r \<leftarrow> c_index cubic_root_v shift;
        x \<leftarrow> c_shl ((ucast r :: u32) + 10) b;
        let x = drop_bit 6 x;
        q \<leftarrow> div64_64 a (ucast x * ucast (x - 1));
        let x = 2 * x + (ucast q :: u32);
        Some (drop_bit 10 (x * 341))
      })"

text \<open>The blocks of \<^verbatim>\<open>bictcp_update\<close>, in the order of the source.\<close>

definition cubic_epoch :: "cubic_scales \<Rightarrow> kernel_env \<Rightarrow> u32 \<Rightarrow> cubictcp \<Rightarrow> cubictcp exec" where
  "cubic_epoch sc e cwnd ca =
     (if cu_epoch_start ca = 0 then
        let ca = ca\<lparr>cu_epoch_start := tcp_time_stamp e, cu_ack_cnt := 1, cu_tcp_cwnd := cwnd\<rparr> in
        if cu_last_max_cwnd ca \<le> cwnd then Some (ca\<lparr>cu_bic_K := 0, cu_bic_origin_point := cwnd\<rparr>)
        else do {
          k \<leftarrow> cubic_root (cube_factor sc * ucast (cu_last_max_cwnd ca - cwnd));
          Some (ca\<lparr>cu_bic_K := k, cu_bic_origin_point := cu_last_max_cwnd ca\<rparr>)
        }
      else Some ca)"

definition cubic_time :: "kernel_env \<Rightarrow> cubictcp \<Rightarrow> u32" where
  "cubic_time e ca =
     push_bit 10 (tcp_time_stamp e + drop_bit 3 (cu_delay_min ca) - cu_epoch_start ca) div HZ"

definition cubic_target :: "cubic_scales \<Rightarrow> u32 \<Rightarrow> cubictcp \<Rightarrow> u32" where
  "cubic_target sc t ca =
     (let offs = (ucast (if t < cu_bic_K ca then cu_bic_K ca - t else t - cu_bic_K ca) :: u64);
          delta = (ucast (drop_bit 40 (ucast (cube_rtt_scale sc) * offs * offs * offs)) :: u32)
      in if t < cu_bic_K ca then cu_bic_origin_point ca - delta else cu_bic_origin_point ca + delta)"

definition cubic_count :: "cubic_params \<Rightarrow> u32 \<Rightarrow> u32 \<Rightarrow> u32 \<Rightarrow> cubictcp \<Rightarrow> cubictcp exec" where
  "cubic_count m cwnd t bic_target ca =
     do { ca \<leftarrow> (if bic_target > cwnd
                 then do { n \<leftarrow> c_div cwnd (bic_target - cwnd); Some (ca\<lparr>cu_cnt := n\<rparr>) }
                 else Some (ca\<lparr>cu_cnt := 100 * cwnd\<rparr>));
          ca \<leftarrow> (if cu_delay_min ca > 0 then do {
                   min_cnt \<leftarrow> c_div (cwnd * HZ * 8) (10 * cu_max_increment m * cu_delay_min ca);
                   Some (if cu_cnt ca < min_cnt \<and> t \<ge> cu_bic_K ca then ca\<lparr>cu_cnt := min_cnt\<rparr> else ca)
                 }
                 else Some ca);
          Some (if cu_loss_cwnd ca = 0 then ca\<lparr>cu_cnt := 50\<rparr> else ca) }"

partial_function (option) cubic_friendly_loop :: "u32 \<Rightarrow> u32 \<Rightarrow> u32 \<Rightarrow> (u32 \<times> u32) option" where
  "cubic_friendly_loop delta ack_cnt tcp_cwnd =
     (if ack_cnt > delta then cubic_friendly_loop delta (ack_cnt - delta) (tcp_cwnd + 1)
      else Some (ack_cnt, tcp_cwnd))"

definition cubic_friendly :: "cubic_params \<Rightarrow> cubic_scales \<Rightarrow> u32 \<Rightarrow> cubictcp \<Rightarrow> cubictcp exec" where
  "cubic_friendly m sc cwnd ca =
     (if cu_tcp_friendliness m \<noteq> 0 then do {
        let scale = beta_scale sc;
        let delta = drop_bit 3 (cwnd * scale);
        (ack_cnt, tcp_cwnd) \<leftarrow> cubic_friendly_loop delta (cu_ack_cnt ca) (cu_tcp_cwnd ca);
        let ca = ca\<lparr>cu_ack_cnt := ack_cnt, cu_tcp_cwnd := tcp_cwnd\<rparr>;
        if cu_tcp_cwnd ca > cwnd then do {
          max_cnt \<leftarrow> c_div cwnd (cu_tcp_cwnd ca - cwnd);
          Some (if cu_cnt ca > max_cnt then ca\<lparr>cu_cnt := max_cnt\<rparr> else ca)
        }
        else Some ca
      }
      else Some ca)"

definition cubictcp_update ::
  "cubic_params \<Rightarrow> cubic_scales \<Rightarrow> kernel_env \<Rightarrow> cubictcp \<Rightarrow> u32 \<Rightarrow> cubictcp exec" where
  "cubictcp_update m sc e ca cwnd =
     (let ca = ca\<lparr>cu_ack_cnt := cu_ack_cnt ca + 1\<rparr> in
      if cu_last_cwnd ca = cwnd \<and> sint (tcp_time_stamp e - cu_last_time ca) \<le> 1000 div 32 then Some ca
      else do {
        let ca = ca\<lparr>cu_last_cwnd := cwnd, cu_last_time := tcp_time_stamp e\<rparr>;
        ca \<leftarrow> cubic_epoch sc e cwnd ca;
        let t = cubic_time e ca;
        ca \<leftarrow> cubic_count m cwnd t (cubic_target sc t ca) ca;
        ca \<leftarrow> cubic_friendly m sc cwnd ca;
        n \<leftarrow> c_div (push_bit 4 (cu_cnt ca)) (cu_delayed_ack ca);
        Some (ca\<lparr>cu_cnt := (if n = 0 then 1 else n)\<rparr>)
      })"

definition measure_delay :: "kernel_env \<Rightarrow> cubictcp tcp_sock \<Rightarrow> cubictcp tcp_sock" where
  "measure_delay e tp =
     (let ca = icsk_ca_priv tp in
      if \<not> (saw_tstamp (rx_opt tp) \<and> rcv_tsecr (rx_opt tp) \<noteq> 0) \<or>
         sint (tcp_time_stamp e - cu_epoch_start ca) < 1000 then tp
      else
        let delay = push_bit 3 (tcp_time_stamp e - rcv_tsecr (rx_opt tp));
            delay = (if delay = 0 then 1 else delay)
        in if cu_delay_min ca = 0 \<or> cu_delay_min ca > delay
           then tp\<lparr>icsk_ca_priv := ca\<lparr>cu_delay_min := delay\<rparr>\<rparr> else tp)"

definition cubictcp_cong_avoid ::
  "cubic_params \<Rightarrow> cubic_scales \<Rightarrow> kernel_env \<Rightarrow> cubictcp tcp_sock \<Rightarrow> u32 \<Rightarrow> u32 \<Rightarrow> u32 \<Rightarrow> c_int \<Rightarrow>
   cubictcp tcp_sock exec" where
  "cubictcp_cong_avoid m sc e tp ack seq_rtt in_flight data_acked =
     (let tp = (if data_acked \<noteq> 0 then measure_delay e tp else tp) in
      if \<not> tcp_is_cwnd_limited tp in_flight then Some tp
      else if snd_cwnd tp \<le> snd_ssthresh tp then tcp_slow_start e tp
      else do {
        ca \<leftarrow> cubictcp_update m sc e (icsk_ca_priv tp) (snd_cwnd tp);
        let tp = tp\<lparr>icsk_ca_priv := ca\<rparr>;
        Some (if snd_cwnd_cnt tp \<ge> cu_cnt ca
              then tp\<lparr>snd_cwnd := (if snd_cwnd tp < snd_cwnd_clamp tp then snd_cwnd tp + 1 else snd_cwnd tp),
                      snd_cwnd_cnt := 0\<rparr>
              else tp\<lparr>snd_cwnd_cnt := snd_cwnd_cnt tp + 1\<rparr>)
      })"

definition cubictcp_recalc_ssthresh ::
  "cubic_params \<Rightarrow> kernel_env \<Rightarrow> cubictcp tcp_sock \<Rightarrow> (u32 \<times> cubictcp tcp_sock) exec" where
  "cubictcp_recalc_ssthresh m e sk =
     (let cwnd = snd_cwnd sk;
          ca = (icsk_ca_priv sk)\<lparr>cu_epoch_start := 0\<rparr>;
          ca = ca\<lparr>cu_last_max_cwnd :=
                   (if cwnd < cu_last_max_cwnd ca \<and> cu_fast_convergence m \<noteq> 0
                    then (cwnd * (1024 + cu_beta m)) div (2 * 1024) else cwnd)\<rparr>;
          ca = ca\<lparr>cu_loss_cwnd := cwnd\<rparr>
      in Some (max ((cwnd * cu_beta m) div 1024) 2, sk\<lparr>icsk_ca_priv := ca\<rparr>))"

definition cubictcp_undo_cwnd :: "kernel_env \<Rightarrow> cubictcp tcp_sock \<Rightarrow> (u32 \<times> cubictcp tcp_sock) exec" where
  "cubictcp_undo_cwnd e sk = Some (max (snd_cwnd sk) (cu_last_max_cwnd (icsk_ca_priv sk)), sk)"

definition cubictcp_state :: "kernel_env \<Rightarrow> cubictcp tcp_sock \<Rightarrow> u8 \<Rightarrow> cubictcp tcp_sock exec" where
  "cubictcp_state e sk new_state = Some (if new_state = TCP_CA_Loss then upd_priv cubictcp_reset sk else sk)"

definition cubictcp_acked :: "kernel_env \<Rightarrow> cubictcp tcp_sock \<Rightarrow> u32 \<Rightarrow> s64 \<Rightarrow> cubictcp tcp_sock exec" where
  "cubictcp_acked e sk cnt last_ackt =
     Some (if cnt > 0 \<and> icsk_ca_state sk = TCP_CA_Open
           then let ca = icsk_ca_priv sk; cnt = cnt - drop_bit 4 (cu_delayed_ack ca)
                in sk\<lparr>icsk_ca_priv := ca\<lparr>cu_delayed_ack := cu_delayed_ack ca + cnt\<rparr>\<rparr>
           else sk)"

definition cubictcp_ops :: "cubic_params \<Rightarrow> cubic_scales \<Rightarrow> cubictcp tcp_congestion_ops" where
  "cubictcp_ops m sc = (null_ops ''cubic'')\<lparr>ca_init := Some (cubictcp_init m),
     ca_ssthresh := Some (cubictcp_recalc_ssthresh m), ca_cong_avoid := Some (cubictcp_cong_avoid m sc),
     ca_set_state := Some cubictcp_state, ca_undo_cwnd := Some cubictcp_undo_cwnd,
     ca_pkts_acked := Some cubictcp_acked\<rparr>"

section \<open>The cube root\<close>

lemma length_cubic_root_v [simp]: "length cubic_root_v = 64"
  by (simp add: cubic_root_v_def)

lemma cubic_root_v_high: "8 \<le> i \<Longrightarrow> i < 64 \<Longrightarrow> 123 \<le> unat (cubic_root_v ! i)"
proof -
  assume i: "8 \<le> i" "i < 64"
  have "\<forall>v \<in> set (drop 8 cubic_root_v). 123 \<le> unat v" by (simp add: cubic_root_v_def)
  moreover have "cubic_root_v ! i \<in> set (drop 8 cubic_root_v)"
    using i by (auto simp: in_set_conv_nth intro!: exI [of _ "i - 8"])
  ultimately show ?thesis by blast
qed

text \<open>The digit count \<open>b\<close> leaves between four and six significant bits for the table.\<close>

lemma cubic_root_digits:
  assumes "7 \<le> n" "n \<le> 64"
  shows "1 \<le> n * 84 div 256 - 1" "n * 84 div 256 - 1 \<le> 20"
    "4 + 3 * (n * 84 div 256 - 1) \<le> n" "n \<le> 6 + 3 * (n * 84 div 256 - (1::nat))"
proof -
  define q where "q = n * 84 div 256"
  have q: "256 * q \<le> 84 * n" "84 * n < 256 * q + 256" unfolding q_def by linarith+
  have "2 \<le> q" "q \<le> 21" "3 * q < n" using q assms by linarith+
  moreover have "n \<le> 3 * q + 3"
  proof (cases "q = 21")
    case False
    then have "q \<le> 20" using \<open>q \<le> 21\<close> by simp
    then show ?thesis using q by linarith
  qed (use assms in simp)
  ultimately show "1 \<le> n * 84 div 256 - 1" "n * 84 div 256 - 1 \<le> 20"
    "4 + 3 * (n * 84 div 256 - 1) \<le> n" "n \<le> 6 + 3 * (n * 84 div 256 - (1::nat))"
    by (simp_all flip: q_def)
qed

lemma fls64_ge_7_iff: "\<not> fls64 a < 7 \<longleftrightarrow> 64 \<le> unat a"
proof (cases "a = 0")
  case False
  note b = fls64_bounds [OF False]
  show ?thesis
  proof
    assume "\<not> fls64 a < 7"
    then have "(2::nat) ^ 6 \<le> 2 ^ (unat (fls64 a) - 1)"
      by (intro power_increasing) (simp_all add: word_less_nat_alt)
    then show "64 \<le> unat a" using b(3) by simp
  next
    assume "64 \<le> unat a"
    then have "(2::nat) ^ 6 < 2 ^ unat (fls64 a)" using b(4) by simp
    then have "6 < unat (fls64 a)" by (rule power_less_imp_less_exp [rotated]) simp
    then show "\<not> fls64 a < 7" by (simp add: word_less_nat_alt)
  qed
qed simp

text \<open>
  The start value of the Newton step, for arguments from 64 on: the shift keeps the table index
  between 8 and 63, nothing overflows, and the value is at least 4, so that the divisor of the
  Newton step is not zero.
\<close>

definition cubic_b :: "u64 \<Rightarrow> nat" where
  "cubic_b a = unat (fls64 a) * 84 div 256 - 1"

definition cubic_x0 :: "u64 \<Rightarrow> nat" where
  "cubic_x0 a = (unat (cubic_root_v ! (unat a div 8 ^ cubic_b a)) + 10) * 2 ^ cubic_b a div 64"

lemma cubic_index_bounds:
  assumes "64 \<le> unat a"
  shows "1 \<le> cubic_b a" "cubic_b a \<le> 20" "8 \<le> unat a div 8 ^ cubic_b a" "unat a div 8 ^ cubic_b a < 64"
proof -
  have nz: "a \<noteq> 0" using assms by auto
  note b = fls64_bounds [OF nz]
  have n: "7 \<le> unat (fls64 a)" using assms fls64_ge_7_iff [of a] by (simp add: word_less_nat_alt)
  note d = cubic_root_digits [OF n b(2), folded cubic_b_def]
  show "1 \<le> cubic_b a" "cubic_b a \<le> 20" by (rule d)+
  have p8: "(8::nat) ^ k = 2 ^ (3 * k)" for k by (simp add: power_mult)
  have "8 * 8 ^ cubic_b a = (2::nat) ^ (3 + 3 * cubic_b a)" by (simp add: p8 power_add)
  also have "\<dots> \<le> 2 ^ (unat (fls64 a) - 1)" using d by (intro power_increasing) simp_all
  also have "\<dots> \<le> unat a" by (rule b(3))
  finally show "8 \<le> unat a div 8 ^ cubic_b a" by (simp add: less_eq_div_iff_mult_less_eq)
  have "unat a < 2 ^ unat (fls64 a)" by (rule b(4))
  also have "\<dots> \<le> (2::nat) ^ (6 + 3 * cubic_b a)" using d by (intro power_increasing) simp_all
  also have "\<dots> = 64 * 8 ^ cubic_b a" by (simp add: p8 power_add)
  finally show "unat a div 8 ^ cubic_b a < 64" by (simp add: less_mult_imp_div_less)
qed

lemma cubic_x0_bounds:
  assumes "64 \<le> unat a"
  shows "4 \<le> cubic_x0 a" "cubic_x0 a \<le> 4341760"
proof -
  note i = cubic_index_bounds [OF assms]
  let ?v = "unat (cubic_root_v ! (unat a div 8 ^ cubic_b a))"
  have v: "123 \<le> ?v" using i by (intro cubic_root_v_high)
  have v': "?v \<le> 255" using u8_bound [of "cubic_root_v ! (unat a div 8 ^ cubic_b a)"] by linarith
  have p: "(2::nat) ^ 1 \<le> 2 ^ cubic_b a" "(2::nat) ^ cubic_b a \<le> 2 ^ 20"
    using i by (intro power_increasing; simp)+
  have "133 * 2 ^ 1 \<le> (?v + 10) * 2 ^ cubic_b a" using v p by (intro mult_le_mono) simp_all
  then show "4 \<le> cubic_x0 a" by (simp add: cubic_x0_def less_eq_div_iff_mult_less_eq)
  have "(?v + 10) * 2 ^ cubic_b a \<le> 265 * 2 ^ 20" using v' p by (intro mult_le_mono) simp_all
  then show "cubic_x0 a \<le> 4341760" unfolding cubic_x0_def by (simp add: div_le_mono)
qed

lemma div64_64_defined: "divisor \<noteq> 0 \<Longrightarrow> div64_64 dividend divisor \<noteq> None"
proof (cases "unat divisor < 2 ^ 32")
  case False
  then have "2 ^ 32 \<le> unat divisor" by simp
  then show ?thesis by (rule div64_64_big [where dividend = dividend]) simp
qed (simp add: div64_64_small)

lemma cubic_root_newton:
  assumes a: "64 \<le> unat a"
  defines "x \<equiv> (of_nat (cubic_x0 a) :: u32)"
  shows "cubic_root a = map_option (\<lambda>q. drop_bit 10 ((2 * x + ucast q) * 341)) (div64_64 a (ucast x * ucast (x - 1)))"
proof -
  note i = cubic_index_bounds [OF a]
  let ?b = "drop_bit 8 (fls64 a * 84) - 1"
  have n: "unat (fls64 a) \<le> 64" by (cases "a = 0") (simp_all add: fls64_bounds)
  have "unat (fls64 a * 84) = unat (fls64 a) * 84" using n by (subst unat_mult_bounded) simp_all
  then have bb: "unat (drop_bit 8 (fls64 a * 84)) = unat (fls64 a) * 84 div 256"
    by (simp add: unat_drop_bit)
  have "1 \<le> drop_bit 8 (fls64 a * 84)" using i(1) bb by (simp add: word_le_nat_alt cubic_b_def)
  then have b: "unat ?b = cubic_b a" by (simp add: unat_sub bb cubic_b_def)
  have b3: "unat (?b * 3) = cubic_b a * 3" using b i(2) by (subst unat_mult_bounded) simp_all
  have sh: "c_shr a (?b * 3) = Some (drop_bit (cubic_b a * 3) a)"
    using i(2) b3 by (subst c_shr_Some) simp_all
  have idx: "unat (ucast (drop_bit (cubic_b a * 3) a) :: u32) = unat a div 8 ^ cubic_b a"
  proof -
    have "(2::nat) ^ (cubic_b a * 3) = 8 ^ cubic_b a" by (simp add: power_mult mult.commute [of "cubic_b a"])
    then show ?thesis using i(4) by (simp add: unat_ucast_64_32 unat_drop_bit)
  qed
  let ?v = "cubic_root_v ! (unat a div 8 ^ cubic_b a)"
  let ?r = "(ucast ?v :: u32) + 10"
  have v: "unat ?v \<le> 255" using u8_bound [of ?v] by linarith
  have r: "unat ?r = unat ?v + 10" using v by (subst unat_add_bounded) (simp_all add: unat_ucast_8_32)
  have "(unat ?v + 10) * 2 ^ cubic_b a \<le> 265 * 2 ^ 20"
    using v i(2) by (intro mult_le_mono power_increasing) simp_all
  then have "unat (push_bit (cubic_b a) ?r) = (unat ?v + 10) * 2 ^ cubic_b a"
    using r by (subst unat_push_bit_bounded) simp_all
  then have "drop_bit 6 (push_bit (cubic_b a) ?r) = x"
    using cubic_x0_bounds(2) [OF a]
    by (simp add: word_unat_eq_iff unat_drop_bit x_def cubic_x0_def unat_of_nat)
  moreover have "c_shl ?r ?b = Some (push_bit (cubic_b a) ?r)" using b i(2) by (subst c_shl_Some) simp_all
  ultimately show ?thesis
    using a fls64_ge_7_iff [of a] sh idx i(4)
    by (cases "div64_64 a (ucast x * ucast (x - 1))") (simp_all add: cubic_root_def Let_def c_index_def)
qed


lemma cubic_divisor:
  assumes "64 \<le> unat a"
  defines "x \<equiv> (of_nat (cubic_x0 a) :: u32)"
  shows "unat x = cubic_x0 a"
    and "unat ((ucast x :: u64) * ucast (x - 1)) = cubic_x0 a * (cubic_x0 a - 1)"
proof -
  note b = cubic_x0_bounds [OF assms(1)]
  show x: "unat x = cubic_x0 a" using b by (simp add: x_def unat_of_nat)
  have "x \<noteq> 0" using b x by auto
  then have x1: "unat (x - 1) = cubic_x0 a - 1" using x by (simp add: unat_minus_one)
  have "cubic_x0 a * (cubic_x0 a - 1) \<le> 4341760 * 4341760" using b by (intro mult_le_mono) simp_all
  then show "unat ((ucast x :: u64) * ucast (x - 1)) = cubic_x0 a * (cubic_x0 a - 1)"
    by (subst unat_mult_bounded) (simp_all add: unat_ucast_32_64 x x1)
qed

lemma cubic_root_defined: "\<exists>r. cubic_root a = Some r"
proof (cases "64 \<le> unat a")
  case True
  let ?x = "of_nat (cubic_x0 a) :: u32"
  have "0 < cubic_x0 a * (cubic_x0 a - 1)" using cubic_x0_bounds [OF True] by simp
  then have "(ucast ?x :: u64) * ucast (?x - 1) \<noteq> 0" using cubic_divisor(2) [OF True] by auto
  from div64_64_defined [OF this, of a] show ?thesis
    by (auto simp: cubic_root_newton [OF True])
next
  case False
  then have "fls64 a < 7" using fls64_ge_7_iff [of a] by blast
  moreover have "unat (ucast a :: u32) < 64" using False by (simp add: unat_ucast_64_32)
  ultimately show ?thesis by (simp add: cubic_root_def Let_def)
qed

section \<open>The TCP-friendly region\<close>

lemma cubic_friendly_loop_ends:
  assumes "delta \<noteq> 0"
  shows "\<exists>a w. cubic_friendly_loop delta ack_cnt tcp_cwnd = Some (a, w) \<and> a \<le> delta \<and> (0 < ack_cnt \<longrightarrow> 0 < a) \<and>
    unat ack_cnt = unat a + unat (w - tcp_cwnd) * unat delta"
proof (induction "unat ack_cnt" arbitrary: ack_cnt tcp_cwnd rule: less_induct)
  case less
  show ?case
  proof (cases "ack_cnt > delta")
    case False
    then show ?thesis by (subst cubic_friendly_loop.simps) (auto simp: not_less)
  next
    case True
    have sub: "unat (ack_cnt - delta) = unat ack_cnt - unat delta" using True by (simp add: unat_sub)
    have d: "0 < unat delta" "unat delta < unat ack_cnt" using assms True by (simp_all add: unat_gt_0 word_less_nat_alt)
    then have "unat (ack_cnt - delta) < unat ack_cnt" by (simp add: sub)
    moreover have "0 < ack_cnt - delta" using d(2) sub by (simp add: word_less_nat_alt)
    ultimately obtain a w where
      ih: "cubic_friendly_loop delta (ack_cnt - delta) (tcp_cwnd + 1) = Some (a, w)" "a \<le> delta"
        "unat ack_cnt - unat delta = unat a + unat (w - (tcp_cwnd + 1)) * unat delta" "0 < a"
      using less [of "ack_cnt - delta" "tcp_cwnd + 1"] by (auto simp: sub)
    let ?k = "unat (w - (tcp_cwnd + 1))"
    have "?k * unat delta < unat ack_cnt" using ih(3) d by linarith
    moreover have "?k \<le> ?k * unat delta" using d(1) by simp
    ultimately have "?k < unat ack_cnt" by linarith
    then have "w - (tcp_cwnd + 1) < ack_cnt" by (simp add: word_less_nat_alt)
    from unat_Suc_bounded [OF this] have k: "unat (w - tcp_cwnd) = Suc ?k" by (simp add: algebra_simps)
    have "unat ack_cnt = unat a + unat (w - tcp_cwnd) * unat delta"
      using ih(3) d(2) unfolding k by simp
    then show ?thesis using True ih by (subst cubic_friendly_loop.simps) simp
  qed
qed

text \<open>With a zero step the loop does not end as soon as one acknowledgment was counted.\<close>

lemma cubic_friendly_loop_diverges: "0 < ack_cnt \<Longrightarrow> cubic_friendly_loop 0 ack_cnt tcp_cwnd = None"
proof (rule ccontr)
  assume pos: "0 < ack_cnt" and "cubic_friendly_loop 0 ack_cnt tcp_cwnd \<noteq> None"
  then obtain r where ret: "cubic_friendly_loop 0 ack_cnt tcp_cwnd = Some r" by blast
  have "(0::u32) = 0 \<longrightarrow> ack_cnt = 0"
  proof (rule cubic_friendly_loop.raw_induct [where P = "\<lambda>delta a w r. delta = 0 \<longrightarrow> a = 0", OF _ ret])
    fix f :: "u32 \<Rightarrow> u32 \<Rightarrow> u32 \<Rightarrow> (u32 \<times> u32) option" and delta a w r
    assume IH: "\<And>delta a w r. f delta a w = Some r \<Longrightarrow> delta = 0 \<longrightarrow> a = 0"
      and eq: "(if delta < a then f delta (a - delta) (w + 1) else Some (a, w)) = Some r"
    show "delta = 0 \<longrightarrow> a = 0"
      using eq IH [of delta "a - delta" "w + 1" r] by (auto simp: word_pos_iff split: if_splits)
  qed
  then show False using pos by simp
qed

section \<open>The contract\<close>

definition cubic_default_scales :: cubic_scales where
  "cubic_default_scales = \<lparr>cube_rtt_scale = 410, beta_scale = 23, cube_factor = 2681735677\<rparr>"

lemma cubictcp_register_scales_default: "cubictcp_register_scales cubic_defaults = Some cubic_default_scales"
  by (simp add: cubictcp_register_scales_def cubic_defaults_def cubic_default_scales_def c_sdiv_def do_div_def)

abbreviation (input) CUBIC_LIM :: nat where "CUBIC_LIM \<equiv> 134217728"

text \<open>
  The round trip times of the source's comment: the echoed timestamp is less than 100 seconds old.
\<close>

definition cubic_env :: "kernel_env \<Rightarrow> 'ca tcp_sock \<Rightarrow> bool" where
  "cubic_env e s \<longleftrightarrow> (saw_tstamp (rx_opt s) \<and> rcv_tsecr (rx_opt s) \<noteq> 0 \<longrightarrow>
     unat (tcp_time_stamp e - rcv_tsecr (rx_opt s)) < 100000)"

definition cubic_ok :: "cubictcp \<Rightarrow> bool" where
  "cubic_ok ca \<longleftrightarrow> delack_ok (cu_delayed_ack ca) \<and> unat (cu_delay_min ca) < 26843545"

lemma cubic_epoch_ok:
  "\<exists>ca'. cubic_epoch sc e cwnd ca = Some ca' \<and> cu_delayed_ack ca' = cu_delayed_ack ca \<and>
     cu_delay_min ca' = cu_delay_min ca"
  using cubic_root_defined [of "cube_factor sc * ucast (cu_last_max_cwnd ca - cwnd)"]
  by (auto simp: cubic_epoch_def Let_def)

lemma cubic_count_ok:
  assumes "unat (cu_delay_min ca) < 26843545"
  shows "\<exists>ca'. cubic_count cubic_defaults cwnd t w ca = Some ca' \<and> cu_delayed_ack ca' = cu_delayed_ack ca \<and>
    cu_delay_min ca' = cu_delay_min ca"
proof -
  have "unat (160 * cu_delay_min ca) = 160 * unat (cu_delay_min ca)"
    using assms by (subst unat_mult_bounded) simp_all
  then have nz: "cu_delay_min ca \<noteq> 0 \<Longrightarrow> 160 * cu_delay_min ca \<noteq> 0"
    by (metis mult_eq_0_iff unat_eq_zero zero_neq_numeral)
  then show ?thesis
    by (auto simp: cubic_count_def cubic_defaults_def Let_def word_pos_iff)
qed

lemma cubic_friendly_ok:
  assumes "0 < cwnd" "unat cwnd < CUBIC_LIM"
  shows "\<exists>ca'. cubic_friendly cubic_defaults cubic_default_scales cwnd ca = Some ca' \<and>
    cu_delayed_ack ca' = cu_delayed_ack ca \<and> cu_delay_min ca' = cu_delay_min ca"
proof -
  let ?d = "drop_bit 3 (cwnd * 23)"
  have "unat (cwnd * 23) = unat cwnd * 23" using assms by (subst unat_mult_bounded) simp_all
  moreover have "1 \<le> unat cwnd" using assms(1) by (simp add: word_less_nat_alt)
  ultimately have "0 < unat ?d" by (simp add: unat_drop_bit div_greater_zero_iff)
  then have "?d \<noteq> 0" by auto
  from cubic_friendly_loop_ends [OF this, of "cu_ack_cnt ca" "cu_tcp_cwnd ca"] show ?thesis
    by (auto simp: cubic_friendly_def cubic_defaults_def cubic_default_scales_def Let_def)
qed

lemma cubictcp_update_ok:
  assumes "cubic_ok ca" "0 < cwnd" "unat cwnd < CUBIC_LIM"
  shows "\<exists>ca'. cubictcp_update cubic_defaults cubic_default_scales e ca cwnd = Some ca' \<and> cubic_ok ca'"
proof -
  define ca0 where "ca0 = ca\<lparr>cu_ack_cnt := cu_ack_cnt ca + 1\<rparr>"
  let ?ca1 = "ca0\<lparr>cu_last_cwnd := cwnd, cu_last_time := tcp_time_stamp e\<rparr>"
  have ok0: "cubic_ok ca0" using assms(1) by (simp add: ca0_def cubic_ok_def)
  obtain ca2 where ca2: "cubic_epoch cubic_default_scales e cwnd ?ca1 = Some ca2"
      "cu_delayed_ack ca2 = cu_delayed_ack ca0" "cu_delay_min ca2 = cu_delay_min ca0"
    using cubic_epoch_ok [of cubic_default_scales e cwnd ?ca1] by auto
  let ?t = "cubic_time e ca2"
  obtain ca3 where ca3: "cubic_count cubic_defaults cwnd ?t (cubic_target cubic_default_scales ?t ca2) ca2 = Some ca3"
      "cu_delayed_ack ca3 = cu_delayed_ack ca0" "cu_delay_min ca3 = cu_delay_min ca0"
    using cubic_count_ok [of ca2] ca2 ok0 by (fastforce simp: cubic_ok_def)
  obtain ca4 where ca4: "cubic_friendly cubic_defaults cubic_default_scales cwnd ca3 = Some ca4"
      "cu_delayed_ack ca4 = cu_delayed_ack ca0" "cu_delay_min ca4 = cu_delay_min ca0"
    using cubic_friendly_ok [OF assms(2,3), of ca3] ca3 by auto
  have "cu_delayed_ack ca0 \<noteq> 0" using ok0 by (simp add: cubic_ok_def delack_ok_nonzero)
  then show ?thesis
    using ok0 ca2 ca3 ca4 unfolding cubictcp_update_def by (simp add: Let_def cubic_ok_def flip: ca0_def)
qed

lemma measure_delay_ok:
  assumes "cubic_ok (icsk_ca_priv s)" "cubic_env e s"
  shows "priv_only s (measure_delay e s)" "cubic_ok (icsk_ca_priv (measure_delay e s))"
proof -
  show "priv_only s (measure_delay e s)" by (simp add: measure_delay_def Let_def)
  have "unat d < 100000 \<Longrightarrow> unat (push_bit 3 d) < 26843545" for d :: u32
    by (simp add: unat_push_bit)
  then show "cubic_ok (icsk_ca_priv (measure_delay e s))"
    using assms by (simp add: measure_delay_def Let_def cubic_ok_def cubic_env_def)
qed

lemma cubictcp_cong_avoid_ok:
  assumes "cubic_ok (icsk_ca_priv s)" "cubic_env e s" "0 < snd_cwnd s" "unat (snd_cwnd s) < CUBIC_LIM"
  shows "\<exists>t. cubictcp_cong_avoid cubic_defaults cubic_default_scales e s ack rtt in_flight flag = Some t \<and>
    window_step s t \<and> cubic_ok (icsk_ca_priv t)"
proof -
  define m where "m = (if flag \<noteq> 0 then measure_delay e s else s)"
  have m: "priv_only s m" "cubic_ok (icsk_ca_priv m)"
    using measure_delay_ok [OF assms(1,2)] assms(1) by (auto simp: m_def)
  then obtain p where p: "m = s\<lparr>icsk_ca_priv := p\<rparr>" by (auto elim: priv_onlyE)
  then have pos: "0 < snd_cwnd m" "unat (snd_cwnd m) < CUBIC_LIM" using assms by simp_all
  obtain t where slow: "tcp_slow_start e m = Some t" "window_step m t" "icsk_ca_priv t = icsk_ca_priv m"
    using tcp_slow_start_step [OF pos(1)] by blast
  obtain ca where ca: "cubictcp_update cubic_defaults cubic_default_scales e (icsk_ca_priv m) (snd_cwnd m) = Some ca"
      "cubic_ok ca"
    using cubictcp_update_ok [OF m(2) pos] by blast
  show ?thesis
    using slow ca m(2) window_step_refl [OF assms(3)]
    unfolding cubictcp_cong_avoid_def by (simp add: Let_def p flip: m_def)
qed

interpretation cubic: cong_control "cubictcp_ops cubic_defaults cubic_default_scales" cubic_ok cubic_env CUBIC_LIM "\<lambda>_ n. unat n \<le> DELACK_PKTS"
proof (unfold_locales, goal_cases)
  case (4 ini s e)
  then show ?case
    by (auto simp: cubictcp_ops_def null_ops_def cubictcp_init_def cubictcp_reset_def cubic_ok_def delack_ok_start
        Let_def split: if_splits)
next
  case (7 ca s e ack rtt in_flight flag)
  then show ?case
    using cubictcp_cong_avoid_ok [of s e ack rtt in_flight flag]
    by (auto simp: cubictcp_ops_def null_ops_def wf_sock_def)
next
  case (8 sth s e)
  have "unat x div 1024 < 134217728" for x :: u32
    using u32_bound [of x] by (simp add: div_less_iff_less_mult del: u32_bound)
  with 8 show ?case
    by (auto simp: cubictcp_ops_def null_ops_def cubictcp_recalc_ssthresh_def Let_def cubic_ok_def unat_simps)
next
  case (10 ss s e st)
  then show ?case
    by (auto simp: cubictcp_ops_def null_ops_def cubictcp_state_def cubictcp_reset_def cubic_ok_def delack_ok_start
        split: if_splits)
next
  case (12 pa s e n last_ackt)
  then show ?case
    using delack_filter(2) [of "cu_delayed_ack (icsk_ca_priv s)" n]
    by (auto simp: cubictcp_ops_def null_ops_def cubictcp_acked_def cubic_ok_def wf_sock_def Let_def algebra_simps)
qed (auto simp: cubictcp_ops_def null_ops_def cubic_env_def same_control_def touch_cwnd_def)

section \<open>Properties\<close>

text \<open>
  In every run of CUBIC with its default parameters, given windows below \<open>CUBIC_LIM\<close>, a bounded delay and acknowledgments of at most \<open>DELACK_PKTS\<close> segments, whatever the order of acknowledgments, losses and timeouts, each
  call the simulator can make returns, the window and the threshold keep their bounds and the delayed acknowledgment estimate, a divisor, stays at least one segment (16).
\<close>

theorem cubic_run_safe:
  assumes "cc_reach (cubictcp_ops cubic_defaults cubic_default_scales) cubic_env CUBIC_LIM (\<lambda>_ n. unat n \<le> DELACK_PKTS) s" and "cubic_env e s"
  shows "run_safe (cubictcp_ops cubic_defaults cubic_default_scales) e (\<lambda>_ n. unat n \<le> DELACK_PKTS) s \<and>
    16 \<le> unat (cu_delayed_ack (icsk_ca_priv s))"
  using cubic.reach_run_safe [OF assms(1), of e] cubic.reach_priv_ok [OF assms(1)] assms(2) by (simp add: cubic_ok_def delack_ok_def)

theorem cubic_run_safe_witness:
  "\<forall>(q :: cubictcp). \<exists>s. cubictcp_init cubic_defaults sample_env (sample_sock q) = Some s \<and> run_safe (cubictcp_ops cubic_defaults cubic_default_scales) sample_env (\<lambda>_ n. unat n \<le> DELACK_PKTS) s"
proof (intro allI)
  fix q :: cubictcp
  let ?s = "the (cubictcp_init cubic_defaults sample_env (sample_sock q))"
  have "cc_reach (cubictcp_ops cubic_defaults cubic_default_scales) cubic_env CUBIC_LIM (\<lambda>_ n. unat n \<le> DELACK_PKTS) ?s"
    by (rule sample_init [where f = "cubictcp_init cubic_defaults" and q = q]) (simp_all add: cubictcp_ops_def null_ops_def cubictcp_init_def cubic_defaults_def cubictcp_reset_def Let_def cubic_env_def sample_sock_def wf_sock_def)
  then show "\<exists>s. cubictcp_init cubic_defaults sample_env (sample_sock q) = Some s \<and> run_safe (cubictcp_ops cubic_defaults cubic_default_scales) sample_env (\<lambda>_ n. unat n \<le> DELACK_PKTS) s"
    using cubic_run_safe [of ?s sample_env] by (intro exI [of _ ?s]) (simp add: cubictcp_ops_def null_ops_def cubictcp_init_def cubic_defaults_def cubictcp_reset_def Let_def cubic_env_def sample_sock_def)
qed

text \<open>
  \<^bold>\<open>C37\<close> The loop that simulates a Reno flow (\<^verbatim>\<open>while (ca->ack_cnt > delta)\<close>) runs for ever exactly when its step is zero and
  something was counted (no result, \<^const>\<open>None\<close>, is the value of a run that does not end). In all other cases it returns; it has taken as
  many whole steps off the counter as it added to the simulated window, and leaves at most one step, and something if there was
  something.
\<close>

theorem cubic_friendly_loop_returns_iff:
  "if delta = 0 \<and> 0 < ack_cnt then cubic_friendly_loop delta ack_cnt tcp_cwnd = None
   else \<exists>a w. cubic_friendly_loop delta ack_cnt tcp_cwnd = Some (a, w) \<and> a \<le> delta \<and> (0 < a \<longleftrightarrow> 0 < ack_cnt) \<and>
     unat ack_cnt = unat a + unat (w - tcp_cwnd) * unat delta"
proof (cases "delta = 0")
  case True
  have "cubic_friendly_loop 0 0 tcp_cwnd = Some (0, tcp_cwnd)" by (subst cubic_friendly_loop.simps) simp
  then show ?thesis using True cubic_friendly_loop_diverges [of ack_cnt tcp_cwnd] by (auto simp: word_pos_iff)
next
  case False
  from cubic_friendly_loop_ends [OF False, of ack_cnt tcp_cwnd] obtain a w where
    r: "cubic_friendly_loop delta ack_cnt tcp_cwnd = Some (a, w)" "a \<le> delta" "0 < ack_cnt \<longrightarrow> 0 < a"
      "unat ack_cnt = unat a + unat (w - tcp_cwnd) * unat delta" by blast
  have "0 < ack_cnt" if "0 < a" using that r(4) unfolding word_less_nat_alt by simp
  then show ?thesis using False r by auto
qed

text \<open>
  \<open>cubic_root\<close> returns for every 64-bit argument: the table index is in range, the divisor of the
  Newton step is not zero; and the scales that the module computes when it registers with its default
  parameters are the constants the rest of the development uses.
\<close>

theorem cubic_root_total:
  "(\<exists>r. cubic_root a = Some r) \<and> cubictcp_register_scales cubic_defaults = Some cubic_default_scales"
  using cubic_root_defined cubictcp_register_scales_default by blast

end
