(* ===== verification/Tcp_Highspeed.thy ===== *)
theory Tcp_Highspeed
  imports Tcp_Reno
begin

text \<open>
  \<^verbatim>\<open>src/ns-2.34/tcp/linux/src/tcp_highspeed.c\<close>: HighSpeed TCP (RFC 3649). The private struct holds an
  index into the AIMD table; the two \<^verbatim>\<open>while\<close> loops move the index to the row of the current
  window. The lemmas show that the loops never read outside the table, that they establish the
  guarantee written in the comment of \<open>hstcp_cong_avoid\<close>, and that the decrease computed from the
  table row is exact under the clamp that \<open>hstcp_init\<close> installs.
\<close>

section \<open>Data\<close>

definition hstcp_aimd_vals :: "(u32 \<times> u32) list" where
  "hstcp_aimd_vals =
   [(38, 128), (118, 112), (221, 104), (347, 98), (495, 93), (663, 89), (851, 86), (1058, 83),
    (1284, 81), (1529, 78), (1793, 76), (2076, 74), (2378, 72), (2699, 71), (3039, 69), (3399, 68),
    (3778, 66), (4177, 65), (4596, 64), (5036, 62), (5497, 61), (5979, 60), (6483, 59), (7009, 58),
    (7558, 57), (8130, 56), (8726, 55), (9346, 54), (9991, 53), (10661, 52), (11358, 52), (12082, 51),
    (12834, 50), (13614, 49), (14424, 48), (15265, 48), (16137, 47), (17042, 46), (17981, 45), (18955, 45),
    (19965, 44), (21013, 43), (22101, 43), (23230, 42), (24402, 41), (25618, 41), (26881, 40), (28193, 39),
    (29557, 39), (30975, 38), (32450, 38), (33986, 37), (35586, 36), (37253, 36), (38992, 35), (40808, 35),
    (42707, 34), (44694, 33), (46776, 33), (48961, 32), (51258, 32), (53677, 31), (56230, 30), (58932, 30),
    (61799, 29), (64851, 28), (68113, 28), (71617, 27), (75401, 26), (79517, 26), (84035, 25), (89053, 24)]"

abbreviation (input) HSTCP_AIMD_MAX :: u32 where "HSTCP_AIMD_MAX \<equiv> 72"

record hstcp =
  hs_ai :: u32

section \<open>Operations\<close>

definition hstcp_init :: "kernel_env \<Rightarrow> hstcp tcp_sock \<Rightarrow> hstcp tcp_sock exec" where
  "hstcp_init e sk =
     Some (sk\<lparr>icsk_ca_priv := (icsk_ca_priv sk)\<lparr>hs_ai := 0\<rparr>,
              snd_cwnd_clamp := min (snd_cwnd_clamp sk) (0xffffffff div 128)\<rparr>)"

function hs_up :: "u32 \<Rightarrow> u32 \<Rightarrow> u32 exec" where
  "hs_up cwnd ai =
     (case c_index hstcp_aimd_vals ai of None \<Rightarrow> None
      | Some v \<Rightarrow> if cwnd > fst v \<and> ai < HSTCP_AIMD_MAX - 1 then hs_up cwnd (ai + 1) else Some ai)"
  by pat_completeness auto
termination
proof (relation "measure (\<lambda>(cwnd, ai). 72 - unat ai)", goal_cases)
  case (2 cwnd ai v)
  then show ?case
    using unat_Suc_bounded [of ai "71"] by (auto simp: word_less_nat_alt)
qed simp

function hs_down :: "u32 \<Rightarrow> u32 \<Rightarrow> u32 exec" where
  "hs_down cwnd ai =
     (if ai = 0 then Some ai
      else case c_index hstcp_aimd_vals (ai - 1) of None \<Rightarrow> None
        | Some v \<Rightarrow> if cwnd \<le> fst v then hs_down cwnd (ai - 1) else Some ai)"
  by pat_completeness auto
termination
  by (relation "measure (\<lambda>(cwnd, ai). unat ai)") (auto simp: measure_unat)

declare hs_up.simps [simp del] hs_down.simps [simp del]

text \<open>The update of the AIMD index: up while the window is above the row, else down.\<close>

definition hs_update :: "u32 \<Rightarrow> u32 \<Rightarrow> u32 exec" where
  "hs_update cwnd ai =
     do { v \<leftarrow> c_index hstcp_aimd_vals ai;
          if cwnd > fst v then hs_up cwnd ai else hs_down cwnd ai }"

definition hstcp_cong_avoid ::
  "kernel_env \<Rightarrow> hstcp tcp_sock \<Rightarrow> u32 \<Rightarrow> u32 \<Rightarrow> u32 \<Rightarrow> c_int \<Rightarrow> hstcp tcp_sock exec" where
  "hstcp_cong_avoid e tp adk rtt in_flight data_acked =
     (if \<not> tcp_is_cwnd_limited tp in_flight then Some tp
      else if snd_cwnd tp \<le> snd_ssthresh tp then tcp_slow_start e tp
      else do {
        ai \<leftarrow> hs_update (snd_cwnd tp) (hs_ai (icsk_ca_priv tp));
        let tp = upd_priv (hs_ai_update (\<lambda>_. ai)) tp;
        if snd_cwnd tp < snd_cwnd_clamp tp then
          let cnt = snd_cwnd_cnt tp + (ai + 1) in
          if cnt \<ge> snd_cwnd tp
          then Some (tp\<lparr>snd_cwnd_cnt := cnt - snd_cwnd tp, snd_cwnd := snd_cwnd tp + 1\<rparr>)
          else Some (tp\<lparr>snd_cwnd_cnt := cnt\<rparr>)
        else Some tp
      })"

definition hstcp_ssthresh :: "kernel_env \<Rightarrow> hstcp tcp_sock \<Rightarrow> (u32 \<times> hstcp tcp_sock) exec" where
  "hstcp_ssthresh e sk =
     do { v \<leftarrow> c_index hstcp_aimd_vals (hs_ai (icsk_ca_priv sk));
          Some (max (snd_cwnd sk - drop_bit 8 (snd_cwnd sk * snd v)) 2, sk) }"

definition tcp_highspeed :: "hstcp tcp_congestion_ops" where
  "tcp_highspeed = (null_ops ''highspeed'')\<lparr>ca_init := Some hstcp_init, ca_ssthresh := Some hstcp_ssthresh,
     ca_cong_avoid := Some hstcp_cong_avoid, ca_min_cwnd := Some tcp_reno_min_cwnd\<rparr>"

section \<open>The table and the loops\<close>

lemma length_hstcp_aimd_vals [simp]: "length hstcp_aimd_vals = 72"
  by (simp add: hstcp_aimd_vals_def)

lemma hstcp_md_le: "i < 72 \<Longrightarrow> unat (snd (hstcp_aimd_vals ! i)) \<le> 128"
proof -
  assume "i < 72"
  have "\<forall>v \<in> set hstcp_aimd_vals. unat (snd v) \<le> 128" by (simp add: hstcp_aimd_vals_def)
  then show ?thesis using \<open>i < 72\<close> by simp
qed

text \<open>The row of a window: the comment in \<open>hstcp_cong_avoid\<close>, with the open ends of the table.\<close>

definition hs_row :: "u32 \<Rightarrow> u32 \<Rightarrow> bool" where
  "hs_row cwnd ai \<longleftrightarrow> unat ai < 72 \<and>
     (ai = 0 \<or> fst (hstcp_aimd_vals ! (unat ai - 1)) < cwnd) \<and>
     (unat ai = 71 \<or> cwnd \<le> fst (hstcp_aimd_vals ! unat ai))"

lemma hs_up_row:
  "\<lbrakk>unat ai < 72; ai = 0 \<or> fst (hstcp_aimd_vals ! (unat ai - 1)) < cwnd\<rbrakk> \<Longrightarrow>
   \<exists>ai'. hs_up cwnd ai = Some ai' \<and> hs_row cwnd ai'"
proof (induction cwnd ai rule: hs_up.induct)
  case (1 cwnd ai)
  let ?v = "hstcp_aimd_vals ! unat ai"
  have idx: "c_index hstcp_aimd_vals ai = Some ?v" using "1.prems" by simp
  show ?case
  proof (cases "cwnd > fst ?v \<and> ai < 71")
    case True
    have "unat (ai + 1) = Suc (unat ai)" using True unat_Suc_bounded [of ai 71] by simp
    moreover from this have "unat (ai + 1) < 72" using True by (simp add: word_less_nat_alt)
    ultimately have "\<exists>ai'. hs_up cwnd (ai + 1) = Some ai' \<and> hs_row cwnd ai'"
      using True idx by (intro "1.IH") auto
    then show ?thesis using True idx by (simp add: hs_up.simps [of cwnd ai])
  next
    case False
    then have "hs_row cwnd ai"
      using "1.prems" by (auto simp: hs_row_def word_less_nat_alt word_le_nat_alt not_less)
    then show ?thesis using False idx by (auto simp: hs_up.simps [of cwnd ai])
  qed
qed

lemma hs_down_row:
  "\<lbrakk>unat ai < 72; cwnd \<le> fst (hstcp_aimd_vals ! unat ai)\<rbrakk> \<Longrightarrow>
   \<exists>ai'. hs_down cwnd ai = Some ai' \<and> hs_row cwnd ai'"
proof (induction cwnd ai rule: hs_down.induct)
  case (1 cwnd ai)
  show ?case
  proof (cases "ai = 0")
    case True
    then show ?thesis using "1.prems" by (auto simp: hs_down.simps [of cwnd 0] hs_row_def)
  next
    case False
    let ?v = "hstcp_aimd_vals ! (unat ai - 1)"
    have pred: "unat (ai - 1) = unat ai - 1" using False by (rule unat_minus_one)
    have idx: "c_index hstcp_aimd_vals (ai - 1) = Some ?v" using "1.prems" by (simp add: pred)
    show ?thesis
    proof (cases "cwnd \<le> fst ?v")
      case True
      have "\<exists>ai'. hs_down cwnd (ai - 1) = Some ai' \<and> hs_row cwnd ai'"
        using "1.prems" True by (intro "1.IH" [OF False idx]) (simp_all add: pred)
      then show ?thesis using True False idx by (simp add: hs_down.simps [of cwnd ai])
    next
      case no: False
      then have "hs_row cwnd ai" using "1.prems" by (auto simp: hs_row_def)
      then show ?thesis using False no idx by (simp add: hs_down.simps [of cwnd ai])
    qed
  qed
qed

text \<open>The windows of the table increase.\<close>

lemma hstcp_aimd_vals_increasing:
  assumes "Suc i < 72"
  shows "fst (hstcp_aimd_vals ! i) < fst (hstcp_aimd_vals ! Suc i)"
proof -
  have "\<forall>(v, w) \<in> set (zip hstcp_aimd_vals (tl hstcp_aimd_vals)). fst v < fst w"
    by (simp add: hstcp_aimd_vals_def)
  moreover have "(hstcp_aimd_vals ! i, hstcp_aimd_vals ! Suc i) \<in> set (zip hstcp_aimd_vals (tl hstcp_aimd_vals))"
    using assms by (auto simp: set_zip nth_tl intro!: exI [of _ i])
  ultimately show ?thesis by blast
qed

text \<open>
  From an index inside the table the update ends inside the table, at the row of the window,
  whether or not the old index was the right one.
\<close>

lemma hs_update_row:
  assumes "unat ai < 72"
  shows "\<exists>ai'. hs_update cwnd ai = Some ai' \<and> hs_row cwnd ai'"
proof (cases "cwnd > fst (hstcp_aimd_vals ! unat ai)")
  case True
  have "ai = 0 \<or> fst (hstcp_aimd_vals ! (unat ai - 1)) < cwnd"
  proof (cases "ai = 0")
    case False
    then have "Suc (unat ai - 1) = unat ai" by (simp add: unat_gt_0)
    then have "fst (hstcp_aimd_vals ! (unat ai - 1)) < fst (hstcp_aimd_vals ! unat ai)"
      using assms hstcp_aimd_vals_increasing [of "unat ai - 1"] by simp
    then show ?thesis using True by (simp add: less_trans)
  qed simp
  then show ?thesis using hs_up_row [OF assms] True assms by (simp add: hs_update_def)
next
  case False
  then have "cwnd \<le> fst (hstcp_aimd_vals ! unat ai)" by simp
  from hs_down_row [OF assms this] False assms show ?thesis by (simp add: hs_update_def)
qed

section \<open>The operations\<close>

abbreviation hs_ok :: "hstcp \<Rightarrow> bool" where
  "hs_ok ca \<equiv> unat (hs_ai ca) < 72"

lemma hstcp_cong_avoid_ok:
  assumes "0 < snd_cwnd s" "hs_ok (icsk_ca_priv s)"
  shows "\<exists>t. hstcp_cong_avoid e s ack rtt in_flight flag = Some t \<and> window_step s t \<and> hs_ok (icsk_ca_priv t)"
proof -
  obtain t where slow: "tcp_slow_start e s = Some t" "window_step s t" "icsk_ca_priv t = icsk_ca_priv s"
    using tcp_slow_start_step [OF assms(1)] by blast
  obtain ai where ai: "hs_update (snd_cwnd s) (hs_ai (icsk_ca_priv s)) = Some ai" "hs_row (snd_cwnd s) ai"
    using hs_update_row [OF assms(2)] by blast
  then have "unat ai < 72" by (simp add: hs_row_def)
  then show ?thesis
    using slow ai(1) assms(2) window_step_refl [OF assms(1)]
    by (simp add: hstcp_cong_avoid_def Let_def)
qed

text \<open>
  The decrease is exact below \<open>2 ^ 25\<close> segments, the clamp of \<open>hstcp_init\<close>: the product fits in
  32 bits, so the threshold is the window less the fraction \<open>md / 256\<close> of the row.
\<close>

lemma hstcp_ssthresh_exact:
  assumes "unat (snd_cwnd s) < 33554432" "hs_ok (icsk_ca_priv s)"
  defines "md \<equiv> unat (snd (hstcp_aimd_vals ! unat (hs_ai (icsk_ca_priv s))))"
  shows "\<exists>v. hstcp_ssthresh e s = Some (v, s) \<and>
    unat v = max (unat (snd_cwnd s) - unat (snd_cwnd s) * md div 256) 2"
proof -
  let ?w = "snd_cwnd s" and ?v = "hstcp_aimd_vals ! unat (hs_ai (icsk_ca_priv s))"
  have md: "md \<le> 128" using hstcp_md_le [OF assms(2)] by (simp add: md_def)
  have "unat ?w * md \<le> 33554431 * 128" using assms(1) md by (intro mult_le_mono) simp_all
  then have prod: "unat (?w * snd ?v) = unat ?w * md"
    by (subst unat_mult_bounded) (simp_all add: md_def)
  have "unat ?w * md \<le> unat ?w * 256" using md by simp
  then have "unat ?w * md div 256 \<le> unat ?w" by (metis div_le_mono div_mult_self_is_m zero_less_numeral)
  then have "unat (?w - drop_bit 8 (?w * snd ?v)) = unat ?w - unat ?w * md div 256"
    by (subst unat_sub) (simp_all add: word_le_nat_alt unat_drop_bit prod)
  then have "unat (max (?w - drop_bit 8 (?w * snd ?v)) 2) = max (unat ?w - unat ?w * md div 256) 2"
    by (simp add: unat_max)
  then show ?thesis using assms(2) by (simp add: hstcp_ssthresh_def)
qed

interpretation highspeed: cong_control tcp_highspeed hs_ok "\<lambda>_ _. True" 33554432 "\<lambda>_ _. True"
proof (unfold_locales, goal_cases)
  case (4 ini s e)
  then show ?case by (auto simp: tcp_highspeed_def null_ops_def hstcp_init_def)
next
  case (7 ca s e ack rtt in_flight flag)
  then show ?case
    using hstcp_cong_avoid_ok [of s e ack rtt in_flight flag]
    by (auto simp: tcp_highspeed_def null_ops_def wf_sock_def)
next
  case (8 sth s e)
  then have "wf_sock 33554432 s" "hs_ok (icsk_ca_priv s)" by simp_all
  then obtain v where v: "hstcp_ssthresh e s = Some (v, s)"
      "unat v = max (unat (snd_cwnd s) - unat (snd_cwnd s)
         * unat (snd (hstcp_aimd_vals ! unat (hs_ai (icsk_ca_priv s)))) div 256) 2"
    using hstcp_ssthresh_exact [of s e] by (auto simp: wf_sock_def)
  then have "2 \<le> v" "unat v < 33554432"
    using 8 by (auto simp: word_le_nat_alt wf_sock_def)
  then show ?case
    using 8 v(1) by (auto simp: tcp_highspeed_def null_ops_def)
next
  case (9 mc s)
  then have "mc = tcp_reno_min_cwnd" by (auto simp: tcp_highspeed_def null_ops_def)
  with 9 show ?case
    by (auto simp: tcp_reno_min_cwnd_def unat_simps unat_div_word)
qed (auto simp: tcp_highspeed_def null_ops_def)

section \<open>Properties\<close>

text \<open>
  In every run of HighSpeed TCP whatever the order of acknowledgments, losses and timeouts, each
  call the simulator can make returns, the window and the threshold keep their bounds and the table index stays inside the table of 72 rows.
\<close>

theorem highspeed_run_safe:
  assumes "cc_reach tcp_highspeed (\<lambda>_ _. True) 33554432 (\<lambda>_ _. True) s"
  shows "run_safe tcp_highspeed e (\<lambda>_ _. True) s \<and>
    unat (hs_ai (icsk_ca_priv s)) < 72"
  using highspeed.reach_run_safe [OF assms(1), of e] highspeed.reach_priv_ok [OF assms(1)] by (simp)

theorem highspeed_run_safe_witness:
  "\<forall>(q :: hstcp). \<exists>s. hstcp_init sample_env (sample_sock q) = Some s \<and> run_safe tcp_highspeed sample_env (\<lambda>_ _. True) s"
proof (intro allI)
  fix q :: hstcp
  let ?s = "the (hstcp_init sample_env (sample_sock q))"
  have "cc_reach tcp_highspeed (\<lambda>_ _. True) 33554432 (\<lambda>_ _. True) ?s"
    by (rule sample_init [where f = "hstcp_init" and q = q]) (simp_all add: tcp_highspeed_def null_ops_def hstcp_init_def sample_sock_def wf_sock_def)
  then show "\<exists>s. hstcp_init sample_env (sample_sock q) = Some s \<and> run_safe tcp_highspeed sample_env (\<lambda>_ _. True) s"
    using highspeed_run_safe [of ?s sample_env] by (intro exI [of _ ?s]) (simp add: tcp_highspeed_def null_ops_def hstcp_init_def sample_sock_def)
qed

lemma hstcp_aimd_vals_mono:
  assumes "i < j" "j < 72"
  shows "fst (hstcp_aimd_vals ! i) < fst (hstcp_aimd_vals ! j)"
  using assms
proof (induction j)
  case (Suc j)
  have step: "fst (hstcp_aimd_vals ! j) < fst (hstcp_aimd_vals ! Suc j)"
    using Suc.prems by (intro hstcp_aimd_vals_increasing)
  show ?case
  proof (cases "i = j")
    case False
    then have "fst (hstcp_aimd_vals ! i) < fst (hstcp_aimd_vals ! j)" using Suc by simp
    then show ?thesis using step by (rule less_trans)
  qed (use step in simp)
qed simp

lemma hs_row_le:
  assumes "hs_row cwnd a" "hs_row cwnd b"
  shows "unat a \<le> unat b"
proof (rule ccontr)
  assume "\<not> unat a \<le> unat b"
  then have lt: "unat b < unat a" "unat a < 72" using assms by (auto simp: hs_row_def)
  then have "a \<noteq> 0" "unat b \<noteq> 71" by auto
  then have bd: "fst (hstcp_aimd_vals ! (unat a - 1)) < cwnd" "cwnd \<le> fst (hstcp_aimd_vals ! unat b)"
    using assms by (auto simp: hs_row_def)
  have "fst (hstcp_aimd_vals ! unat b) \<le> fst (hstcp_aimd_vals ! (unat a - 1))"
  proof (cases "unat b = unat a - 1")
    case False
    then show ?thesis using lt by (intro less_imp_le hstcp_aimd_vals_mono) auto
  qed simp
  then show False using bd by simp
qed

text \<open>
  The table search does not depend on where it starts: from every row it ends, in the one row
  whose bounds enclose the window.
\<close>

theorem hs_update_unique_row:
  assumes "unat ai < 72"
  shows "\<exists>r. hs_update cwnd ai = Some r \<and> hs_row cwnd r \<and> hs_update cwnd 0 = Some r"
proof -
  obtain r r0 where "hs_update cwnd ai = Some r" "hs_row cwnd r" "hs_update cwnd 0 = Some r0" "hs_row cwnd r0"
    using hs_update_row [OF assms, of cwnd] hs_update_row [of 0 cwnd] by auto
  moreover from this have "r = r0" by (metis hs_row_le order.antisym word_unat_eq_iff)
  ultimately show ?thesis by simp
qed

theorem hs_update_unique_row_witness: "hs_update 500 70 = hs_update 500 0 \<and> hs_update 500 70 \<noteq> None"
  using hs_update_unique_row [of 70 500] by auto

text \<open>
  In every run the threshold after a loss is the window less the fraction of its table row,
  in 256ths and computed without overflow, and at least two.
\<close>

theorem highspeed_cut:
  assumes "cc_reach tcp_highspeed (\<lambda>_ _. True) 33554432 (\<lambda>_ _. True) s"
  shows "\<exists>v. hstcp_ssthresh e s = Some (v, s) \<and>
    unat v = max (unat (snd_cwnd s) -
      unat (snd_cwnd s) * unat (snd (hstcp_aimd_vals ! unat (hs_ai (icsk_ca_priv s)))) div 256) 2"
proof -
  have "unat (snd_cwnd s) < 33554432" "unat (hs_ai (icsk_ca_priv s)) < 72"
    using highspeed.reach_safe [OF assms] by (simp_all add: cc_safe_def wf_sock_def)
  then show ?thesis using hstcp_ssthresh_exact by blast
qed

theorem highspeed_cut_witness:
  "\<exists>v. hstcp_ssthresh sample_env (sample_sock \<lparr>hs_ai = 0\<rparr>) = Some (v, sample_sock \<lparr>hs_ai = 0\<rparr>) \<and> unat v = 5"
proof -
  have "cc_reach tcp_highspeed (\<lambda>_ _. True) 33554432 (\<lambda>_ _. True) (sample_sock \<lparr>hs_ai = 0\<rparr>)"
    by (rule sample_init [where f = hstcp_init and q = "\<lparr>hs_ai = 7\<rparr>"])
      (simp_all add: tcp_highspeed_def null_ops_def hstcp_init_def sample_sock_def wf_sock_def)
  then show ?thesis using highspeed_cut [of "sample_sock \<lparr>hs_ai = 0\<rparr>" sample_env]
    by (simp add: sample_sock_def hstcp_aimd_vals_def)
qed

end
