(* ===== verification/Tcp_Vegas.thy ===== *)
theory Tcp_Vegas
  imports Tcp_Reno
begin

text \<open>
  \<^verbatim>\<open>src/ns-2.34/tcp/linux/src/tcp_vegas.c\<close> and \<^verbatim>\<open>tcp_vegas.h\<close>: TCP Vegas. The operations YeAH reuses on
  its own struct (whose first member is a \<^verbatim>\<open>struct vegas\<close>) are polymorphic in the extension of the
  record \<open>vegas\<close>. The invariant of the struct is that the minimum round trip time, the divisor
  of the once-per-round-trip calculation, is never zero.
\<close>

section \<open>Data\<close>

record vegas =
  beg_snd_nxt :: u32
  beg_snd_una :: u32
  beg_snd_cwnd :: u32
  doing_vegas_now :: u8
  cntRTT :: u16
  minRTT :: u32
  baseRTT :: u32

record vegas_params =
  vegas_alpha :: c_int
  vegas_beta :: c_int
  vegas_gamma :: c_int

definition vegas_defaults :: vegas_params where
  "vegas_defaults = \<lparr>vegas_alpha = push_bit 1 2, vegas_beta = push_bit 1 4, vegas_gamma = push_bit 1 1\<rparr>"

section \<open>Operations\<close>

definition vegas_enable :: "'z vegas_scheme tcp_sock \<Rightarrow> 'z vegas_scheme tcp_sock" where
  "vegas_enable tp = upd_priv (\<lambda>v. v\<lparr>doing_vegas_now := 1, beg_snd_nxt := snd_nxt tp, cntRTT := 0,
     minRTT := 0x7fffffff\<rparr>) tp"

definition vegas_disable :: "'z vegas_scheme tcp_sock \<Rightarrow> 'z vegas_scheme tcp_sock" where
  "vegas_disable tp = upd_priv (\<lambda>v. v\<lparr>doing_vegas_now := 0\<rparr>) tp"

definition tcp_vegas_init :: "kernel_env \<Rightarrow> 'z vegas_scheme tcp_sock \<Rightarrow> 'z vegas_scheme tcp_sock exec" where
  "tcp_vegas_init e sk = Some (vegas_enable (upd_priv (\<lambda>v. v\<lparr>baseRTT := 0x7fffffff\<rparr>) sk))"

definition tcp_vegas_pkts_acked ::
  "kernel_env \<Rightarrow> 'z vegas_scheme tcp_sock \<Rightarrow> u32 \<Rightarrow> s64 \<Rightarrow> 'z vegas_scheme tcp_sock exec" where
  "tcp_vegas_pkts_acked e sk cnt last_ackt =
     Some (if ktime_equal last_ackt net_invalid_timestamp then sk
           else let vrtt = ack_age_us e last_ackt + 1;
                    v = icsk_ca_priv sk;
                    v = (if vrtt < baseRTT v then v\<lparr>baseRTT := vrtt\<rparr> else v);
                    v = v\<lparr>minRTT := min (minRTT v) vrtt, cntRTT := cntRTT v + 1\<rparr>
                in sk\<lparr>icsk_ca_priv := v\<rparr>)"

definition tcp_vegas_state :: "kernel_env \<Rightarrow> 'z vegas_scheme tcp_sock \<Rightarrow> u8 \<Rightarrow> 'z vegas_scheme tcp_sock exec" where
  "tcp_vegas_state e sk ca_state =
     Some (if ca_state = TCP_CA_Open then vegas_enable sk else vegas_disable sk)"

definition tcp_vegas_cwnd_event ::
  "kernel_env \<Rightarrow> 'z vegas_scheme tcp_sock \<Rightarrow> tcp_ca_event \<Rightarrow> 'z vegas_scheme tcp_sock exec" where
  "tcp_vegas_cwnd_event e sk event =
     (if event = CA_EVENT_CWND_RESTART \<or> event = CA_EVENT_TX_START then tcp_vegas_init e sk else Some sk)"

text \<open>
  The once-per-round-trip adjustment with enough samples: \<open>old_wnd\<close> is the data sent in the last
  round trip, \<open>old_snd_cwnd\<close> the window at its start.
\<close>

definition vegas_clamp :: "'ca tcp_sock \<Rightarrow> 'ca tcp_sock" where
  "vegas_clamp tp =
     (if snd_cwnd tp < 2 then tp\<lparr>snd_cwnd := 2\<rparr>
      else if snd_cwnd tp > snd_cwnd_clamp tp then tp\<lparr>snd_cwnd := snd_cwnd_clamp tp\<rparr>
      else tp)"

definition vegas_target :: "u32 \<Rightarrow> u32 \<Rightarrow> u32 \<Rightarrow> u32 exec" where
  "vegas_target wnd base rtt = c_div (push_bit 1 (wnd * base)) rtt"

definition vegas_diff :: "u32 \<Rightarrow> u32 \<Rightarrow> u32" where
  "vegas_diff old_wnd target_cwnd = push_bit 1 old_wnd - target_cwnd"

definition vegas_move ::
  "vegas_params \<Rightarrow> kernel_env \<Rightarrow> u32 \<Rightarrow> u32 \<Rightarrow> u32 \<Rightarrow> 'ca tcp_sock \<Rightarrow> 'ca tcp_sock exec" where
  "vegas_move m e target_cwnd diff old_snd_cwnd tp =
     (if snd_cwnd tp \<le> snd_ssthresh tp then
        tcp_slow_start e
          (if diff > vegas_gamma m
           then tp\<lparr>snd_ssthresh := 2, snd_cwnd := min (snd_cwnd tp) (drop_bit 1 target_cwnd + 1)\<rparr>
           else tp)
      else
        let next_snd_cwnd = (if diff > vegas_beta m then old_snd_cwnd - 1
                             else if diff < vegas_alpha m then old_snd_cwnd + 1
                             else old_snd_cwnd)
        in Some (if next_snd_cwnd > snd_cwnd tp then tp\<lparr>snd_cwnd := snd_cwnd tp + 1\<rparr>
                 else if next_snd_cwnd < snd_cwnd tp then tp\<lparr>snd_cwnd := snd_cwnd tp - 1\<rparr>
                 else tp))"

definition vegas_adjust ::
  "vegas_params \<Rightarrow> kernel_env \<Rightarrow> u32 \<Rightarrow> u32 \<Rightarrow> 'z vegas_scheme tcp_sock \<Rightarrow> 'z vegas_scheme tcp_sock exec" where
  "vegas_adjust m e old_wnd old_snd_cwnd tp = do {
     let v = icsk_ca_priv tp;
     target_cwnd \<leftarrow> vegas_target old_wnd (baseRTT v) (minRTT v);
     let diff = vegas_diff old_wnd target_cwnd;
     tp \<leftarrow> vegas_move m e target_cwnd diff old_snd_cwnd tp;
     Some (vegas_clamp tp)
   }"

definition tcp_vegas_cong_avoid ::
  "vegas_params \<Rightarrow> kernel_env \<Rightarrow> 'z vegas_scheme tcp_sock \<Rightarrow> u32 \<Rightarrow> u32 \<Rightarrow> u32 \<Rightarrow> c_int \<Rightarrow>
   'z vegas_scheme tcp_sock exec" where
  "tcp_vegas_cong_avoid m e tp ack seq_rtt in_flight flag =
     (let v = icsk_ca_priv tp in
      if doing_vegas_now v = 0 then tcp_reno_cong_avoid e tp ack seq_rtt in_flight flag
      else if after ack (beg_snd_nxt v) then do {
        old_wnd \<leftarrow> c_div (beg_snd_nxt v - beg_snd_una v) (mss_cache tp);
        let old_snd_cwnd = beg_snd_cwnd v;
        let tp = tp\<lparr>icsk_ca_priv := v\<lparr>beg_snd_una := beg_snd_nxt v, beg_snd_nxt := snd_nxt tp,
                                        beg_snd_cwnd := snd_cwnd tp\<rparr>\<rparr>;
        tp \<leftarrow> (if cntRTT v \<le> 2 then tcp_reno_cong_avoid e tp ack seq_rtt in_flight flag
               else vegas_adjust m e old_wnd old_snd_cwnd tp);
        Some (upd_priv (\<lambda>v. v\<lparr>cntRTT := 0, minRTT := 0x7fffffff\<rparr>) tp)
      }
      else if snd_cwnd tp \<le> snd_ssthresh tp then tcp_slow_start e tp
      else Some tp)"

definition tcp_vegas :: "vegas_params \<Rightarrow> vegas tcp_congestion_ops" where
  "tcp_vegas m = (null_ops ''vegas'')\<lparr>ca_flags := TCP_CONG_RTT_STAMP, ca_init := Some tcp_vegas_init,
     ca_ssthresh := Some tcp_reno_ssthresh, ca_cong_avoid := Some (tcp_vegas_cong_avoid m),
     ca_min_cwnd := Some tcp_reno_min_cwnd, ca_pkts_acked := Some tcp_vegas_pkts_acked,
     ca_set_state := Some tcp_vegas_state, ca_cwnd_event := Some tcp_vegas_cwnd_event\<rparr>"

section \<open>Lemmas\<close>

abbreviation vegas_ok :: "'z vegas_scheme \<Rightarrow> bool" where
  "vegas_ok v \<equiv> minRTT v \<noteq> 0"

text \<open>A sample is never zero, so the filter keeps the divisor positive.\<close>

lemma ack_age_us_pos:
  assumes "ackt_ok e last_ackt" "last_ackt \<noteq> net_invalid_timestamp"
  shows "ack_age_us e last_ackt + 1 \<noteq> 0"
proof -
  have "unat (ack_age_us e last_ackt + 1) = unat (ack_age_us e last_ackt) + 1"
    using ack_age_us_bound(1) [OF assms] by (subst unat_add_bounded) simp_all
  then show ?thesis by auto
qed

lemma tcp_vegas_pkts_acked_ok:
  assumes "ackt_ok e last_ackt" "vegas_ok (icsk_ca_priv s)"
  shows "\<exists>t. tcp_vegas_pkts_acked e s cnt last_ackt = Some t \<and> priv_only s t \<and> vegas_ok (icsk_ca_priv t)"
  using assms ack_age_us_pos [OF assms(1)]
  by (auto simp: tcp_vegas_pkts_acked_def ktime_equal_def Let_def min_def)

text \<open>The clamp restores the window bounds whatever the adjustment computed.\<close>

lemma vegas_clamp_step:
  assumes "1 < snd_cwnd_clamp s" "same_control s t" "2 \<le> snd_ssthresh s \<longrightarrow> 2 \<le> snd_ssthresh t"
  shows "window_step s (vegas_clamp t)"
proof -
  have "2 \<le> snd_cwnd_clamp s" "snd_cwnd_clamp t = snd_cwnd_clamp s"
    using assms(1,2) by (simp_all add: unat_simps same_control_def)
  then have "0 < snd_cwnd (vegas_clamp t)" "snd_cwnd (vegas_clamp t) \<le> snd_cwnd_clamp s"
    by (auto simp: vegas_clamp_def unat_simps)
  moreover have "same_control s (vegas_clamp t)" "snd_ssthresh (vegas_clamp t) = snd_ssthresh t"
    using assms(2) by (simp_all add: vegas_clamp_def)
  ultimately show ?thesis using assms(3) by (simp add: window_step_def le_max_iff_disj)
qed

lemma vegas_clamp_priv [simp]: "icsk_ca_priv (vegas_clamp t) = icsk_ca_priv t"
  by (simp add: vegas_clamp_def)

lemma half_inc_pos: "0 < drop_bit 1 x + (1 :: u32)"
proof -
  have "unat x div 2 + 1 < 4294967296" using u32_bound [of x] by linarith
  then have "unat (drop_bit 1 x + 1) = unat x div 2 + 1" by (subst unat_add_bounded) (simp_all add: unat_drop_bit)
  then show ?thesis by (simp add: word_less_nat_alt)
qed

lemma vegas_move_ok:
  assumes "0 < snd_cwnd s"
  shows "\<exists>t. vegas_move m e target diff oc s = Some t \<and> same_control s t \<and>
    (2 \<le> snd_ssthresh s \<longrightarrow> 2 \<le> snd_ssthresh t)"
proof -
  define s1 where "s1 = (if diff > vegas_gamma m
     then s\<lparr>snd_ssthresh := 2, snd_cwnd := min (snd_cwnd s) (drop_bit 1 target + 1)\<rparr> else s)"
  have "0 < snd_cwnd s1" using assms half_inc_pos [of target] by (simp add: s1_def)
  then obtain t where t: "tcp_slow_start e s1 = Some t" "window_step s1 t"
    using tcp_slow_start_step by blast
  have "same_control s s1" "2 \<le> snd_ssthresh s \<longrightarrow> 2 \<le> snd_ssthresh s1" by (simp_all add: s1_def)
  then have "same_control s t" "2 \<le> snd_ssthresh s \<longrightarrow> 2 \<le> snd_ssthresh t"
    using t(2) by (auto simp: window_step_def intro: same_control_trans)
  then show ?thesis using t(1) by (simp add: vegas_move_def Let_def s1_def)
qed

lemma vegas_adjust_ok:
  fixes s :: "'z vegas_scheme tcp_sock"
  assumes "vegas_ok (icsk_ca_priv s)" "0 < snd_cwnd s" "1 < snd_cwnd_clamp s"
  shows "\<exists>t. vegas_adjust m e ow oc s = Some t \<and> window_step s t"
proof -
  obtain target where target: "vegas_target ow (baseRTT (icsk_ca_priv s)) (minRTT (icsk_ca_priv s)) = Some target"
    using assms(1) by (simp add: vegas_target_def)
  obtain t where t: "vegas_move m e target (vegas_diff ow target) oc s = Some t" "same_control s t"
      "2 \<le> snd_ssthresh s \<longrightarrow> 2 \<le> snd_ssthresh t"
    using vegas_move_ok [OF assms(2)] by blast
  then show ?thesis
    using target vegas_clamp_step [OF assms(3) t(2,3)] unfolding vegas_adjust_def by (simp add: Let_def)
qed

lemma tcp_vegas_cong_avoid_ok:
  fixes s :: "'z vegas_scheme tcp_sock"
  assumes "vegas_ok (icsk_ca_priv s)" "wf_sock lim s"
  shows "\<exists>t. tcp_vegas_cong_avoid m e s ack rtt in_flight flag = Some t \<and> window_step s t \<and>
    vegas_ok (icsk_ca_priv t)"
proof -
  let ?v = "icsk_ca_priv s"
  let ?p = "?v\<lparr>beg_snd_una := beg_snd_nxt ?v, beg_snd_nxt := snd_nxt s, beg_snd_cwnd := snd_cwnd s\<rparr>"
  define s1 where "s1 = s\<lparr>icsk_ca_priv := ?p\<rparr>"
  have pos: "0 < snd_cwnd s" "1 < snd_cwnd_clamp s" "mss_cache s \<noteq> 0"
    using assms(2) by (auto simp: wf_sock_def)
  have s1: "0 < snd_cwnd s1" "1 < snd_cwnd_clamp s1" "vegas_ok (icsk_ca_priv s1)"
    and step: "\<And>t. window_step s1 t = window_step s t"
    using pos assms(1) by (simp_all add: s1_def)
  obtain t where t: "tcp_reno_cong_avoid e s ack rtt in_flight flag = Some t" "window_step s t"
      "icsk_ca_priv t = ?v"
    using tcp_reno_cong_avoid_step [OF pos(1)] by blast
  obtain u where u: "tcp_slow_start e s = Some u" "window_step s u" "icsk_ca_priv u = ?v"
    using tcp_slow_start_step [OF pos(1)] by blast
  obtain t1 where t1: "tcp_reno_cong_avoid e s1 ack rtt in_flight flag = Some t1" "window_step s t1"
    using tcp_reno_cong_avoid_step [OF s1(1)] step by blast
  obtain t2 where t2: "vegas_adjust m e ((beg_snd_nxt ?v - beg_snd_una ?v) div mss_cache s) (beg_snd_cwnd ?v) s1 = Some t2"
      "window_step s t2"
    using vegas_adjust_ok [OF s1(3,1,2)] step by blast
  show ?thesis
    using t u t1 t2 pos assms(1) window_step_refl [OF pos(1)]
    unfolding tcp_vegas_cong_avoid_def by (simp add: Let_def flip: s1_def)
qed

text \<open>
  The adjustment in congestion avoidance, in a steady state whose window was not changed since
  the last adjustment: one segment down, up or none, by the backlog \<open>diff\<close> of the last round trip.
\<close>

lemma vegas_move_avoidance:
  assumes "snd_ssthresh s < snd_cwnd s" and w: "2 < snd_cwnd s" "snd_cwnd s < snd_cwnd_clamp s"
  shows "map_option vegas_clamp (vegas_move m e target diff (snd_cwnd s) s) =
    Some (if diff > vegas_beta m then s\<lparr>snd_cwnd := snd_cwnd s - 1\<rparr>
          else if diff < vegas_alpha m then s\<lparr>snd_cwnd := snd_cwnd s + 1\<rparr> else s)"
proof -
  let ?w = "snd_cwnd s"
  have "1 \<le> ?w" using w(1) by (simp add: word_le_nat_alt word_less_nat_alt)
  then have m: "unat (?w - 1) = unat ?w - 1" by (simp add: unat_sub)
  have p: "unat (?w + 1) = unat ?w + 1" using unat_Suc_bounded [OF w(2)] by simp
  have wn: "2 < unat ?w" "unat ?w < unat (snd_cwnd_clamp s)" using w by (simp_all add: word_less_nat_alt)
  have c: "?w - 1 < ?w" "?w < ?w + 1" "\<not> ?w - 1 < 2" "\<not> ?w - 1 > snd_cwnd_clamp s" "\<not> ?w - 1 > ?w"
      "\<not> ?w + 1 > snd_cwnd_clamp s" "\<not> ?w + 1 < 2" "\<not> ?w < 2" "\<not> ?w > snd_cwnd_clamp s"
    using wn by (simp_all add: word_less_nat_alt m p)
  have ca: "\<not> ?w \<le> snd_ssthresh s" using assms(1) by simp
  show ?thesis using ca c by (simp add: vegas_move_def Let_def vegas_clamp_def)
qed

text \<open>Without overflow the backlog is the scaled excess of the window over the bandwidth-delay product.\<close>

lemma vegas_diff_exact:
  assumes "2 * (unat ow * unat b) < 4294967296" "2 * unat ow < 4294967296" "b \<le> r" "r \<noteq> 0"
  shows "\<exists>target. vegas_target ow b r = Some target \<and>
    unat (vegas_diff ow target) = 2 * unat ow - 2 * (unat ow * unat b) div unat r"
proof -
  let ?p = "unat ow * unat b"
  have "?p < 2 ^ LENGTH(32)" using assms(1) by (simp add: mult.commute)
  then have "unat (ow * b) = ?p" by (rule unat_mult_bounded)
  then have "unat (push_bit 1 (ow * b)) = 2 * ?p"
    using assms(1) by (subst unat_push_bit_bounded) (simp_all add: mult.commute)
  then have t: "unat (push_bit 1 (ow * b) div r) = 2 * ?p div unat r" by (simp add: unat_div_word)
  have o2: "unat (push_bit 1 ow) = 2 * unat ow" using assms(2) by (subst unat_push_bit_bounded) simp_all
  have "0 < unat r" using assms(4) by (simp add: unat_gt_0)
  moreover have "2 * ?p \<le> 2 * unat ow * unat r" using assms(3) by (simp add: word_le_nat_alt)
  ultimately have "2 * ?p div unat r \<le> 2 * unat ow"
    by (metis div_le_mono nonzero_mult_div_cancel_right not_gr_zero)
  then have "push_bit 1 (ow * b) div r \<le> push_bit 1 ow" unfolding word_le_nat_alt t o2 .
  then have "unat (vegas_diff ow (push_bit 1 (ow * b) div r)) = 2 * unat ow - 2 * ?p div unat r"
    unfolding vegas_diff_def by (simp only: unat_sub t o2)
  moreover have "vegas_target ow b r = Some (push_bit 1 (ow * b) div r)"
    unfolding vegas_target_def using assms(4) by (rule c_div_Some)
  ultimately show ?thesis by blast
qed

interpretation vegas: cong_control "tcp_vegas m" vegas_ok "\<lambda>_ _. True" 4294967296 "\<lambda>_ _. True" for m
proof (unfold_locales, goal_cases)
  case (4 ini s e)
  then show ?case by (auto simp: tcp_vegas_def null_ops_def tcp_vegas_init_def vegas_enable_def)
next
  case (7 ca s e ack rtt in_flight flag)
  then show ?case
    using tcp_vegas_cong_avoid_ok [of s 4294967296 m e ack rtt in_flight flag]
    by (auto simp: tcp_vegas_def null_ops_def)
next
  case (8 sth s e)
  then show ?case by (auto simp: tcp_vegas_def null_ops_def tcp_reno_ssthresh_def)
next
  case (9 mc s)
  then show ?case using reno.min_cwnd_ok [of tcp_reno_min_cwnd s]
    by (auto simp: tcp_vegas_def null_ops_def tcp_reno_def)
next
  case (10 ss s e st)
  then show ?case
    by (auto simp: tcp_vegas_def null_ops_def tcp_vegas_state_def vegas_enable_def vegas_disable_def)
next
  case (11 ce s e ev)
  then show ?case by (auto simp: tcp_vegas_def null_ops_def tcp_vegas_cwnd_event_def)
next
  case (12 pa s e n last_ackt)
  then show ?case
    using tcp_vegas_pkts_acked_ok [of e last_ackt s n]
    by (auto simp: tcp_vegas_def null_ops_def wf_sock_def elim!: priv_onlyE)
qed (auto simp: tcp_vegas_def null_ops_def)

section \<open>Properties\<close>

text \<open>
  In every run of Vegas, for every value of its parameters, whatever the order of acknowledgments, losses and timeouts, each
  call the simulator can make returns, the window and the threshold keep their bounds and the smallest round trip time, a divisor, is never zero.
\<close>

theorem vegas_run_safe:
  assumes "cc_reach (tcp_vegas m) (\<lambda>_ _. True) 4294967296 (\<lambda>_ _. True) s"
  shows "run_safe (tcp_vegas m) e (\<lambda>_ _. True) s \<and>
    minRTT (icsk_ca_priv s) \<noteq> 0"
  using vegas.reach_run_safe [OF assms(1), of e] vegas.reach_priv_ok [OF assms(1)] by (simp)

theorem vegas_run_safe_witness:
  "\<forall>(q :: vegas) m. \<exists>s. tcp_vegas_init sample_env (sample_sock q) = Some s \<and> run_safe (tcp_vegas m) sample_env (\<lambda>_ _. True) s"
proof (intro allI)
  fix q :: vegas and m
  let ?s = "the (tcp_vegas_init sample_env (sample_sock q))"
  have "cc_reach (tcp_vegas m) (\<lambda>_ _. True) 4294967296 (\<lambda>_ _. True) ?s"
    by (rule sample_init [where f = "tcp_vegas_init" and q = q]) (simp_all add: tcp_vegas_def null_ops_def tcp_vegas_init_def vegas_enable_def sample_sock_def wf_sock_def)
  then show "\<exists>s. tcp_vegas_init sample_env (sample_sock q) = Some s \<and> run_safe (tcp_vegas m) sample_env (\<lambda>_ _. True) s"
    using vegas_run_safe [of m ?s sample_env] by (intro exI [of _ ?s]) (simp add: tcp_vegas_def null_ops_def tcp_vegas_init_def vegas_enable_def sample_sock_def)
qed

text \<open>
  Vegas congestion avoidance: with the extra packets in the network above \<open>beta\<close> the window
  shrinks by one, below \<open>alpha\<close> it grows by one, and in between it stays, the clamping included.
\<close>

theorem vegas_avoidance:
  assumes "snd_ssthresh s < snd_cwnd s" and "2 < snd_cwnd s" "snd_cwnd s < snd_cwnd_clamp s"
  shows "map_option vegas_clamp (vegas_move m e target diff (snd_cwnd s) s) =
    Some (if diff > vegas_beta m then s\<lparr>snd_cwnd := snd_cwnd s - 1\<rparr>
          else if diff < vegas_alpha m then s\<lparr>snd_cwnd := snd_cwnd s + 1\<rparr> else s)"
  by (rule vegas_move_avoidance [OF assms])

theorem vegas_avoidance_witness:
  "map_option vegas_clamp (vegas_move vegas_defaults sample_env 5 1 10 ((sample_sock ())\<lparr>snd_ssthresh := 5\<rparr>)) =
    Some ((sample_sock ())\<lparr>snd_ssthresh := 5, snd_cwnd := 11\<rparr>)"
  using vegas_avoidance [of "(sample_sock ())\<lparr>snd_ssthresh := 5\<rparr>" vegas_defaults sample_env 5 1]
  by (simp add: sample_sock_def vegas_defaults_def)

text \<open>
  The estimate of the extra packets (scaled by two) is exactly twice the window less the rounded
  down rate at the base round trip time, as long as the products fit 32 bits.
\<close>

theorem vegas_diff_estimate:
  assumes "2 * (unat ow * unat b) < 4294967296" and "2 * unat ow < 4294967296" and "b \<le> r" and "r \<noteq> 0"
  shows "\<exists>target. vegas_target ow b r = Some target \<and>
    unat (vegas_diff ow target) = 2 * unat ow - 2 * (unat ow * unat b) div unat r"
  by (rule vegas_diff_exact [OF assms])

theorem vegas_diff_estimate_witness:
  "\<exists>target. vegas_target 20 100000 125000 = Some target \<and> unat (vegas_diff 20 target) = 8"
  using vegas_diff_estimate [of 20 100000 125000] by simp

end
