(* ===== verification/Tcp_Veno.thy ===== *)
theory Tcp_Veno
  imports Tcp_Vegas
begin

text \<open>
  \<^verbatim>\<open>src/ns-2.34/tcp/linux/src/tcp_veno.c\<close>: TCP Veno, which uses the Vegas backlog to tell random from
  congestive losses. The invariant is the one of Vegas: the minimum round trip time is not zero.
\<close>

section \<open>Data\<close>

record veno =
  doing_veno_now :: u8
  cntrtt :: u16
  minrtt :: u32
  basertt :: u32
  veno_inc :: u32
  veno_diff :: u32

abbreviation (input) VENO_BETA :: c_int where "VENO_BETA \<equiv> 6"

section \<open>Operations\<close>

definition veno_enable :: "veno tcp_sock \<Rightarrow> veno tcp_sock" where
  "veno_enable sk = upd_priv (\<lambda>v. v\<lparr>doing_veno_now := 1, minrtt := 0x7fffffff\<rparr>) sk"

definition veno_disable :: "veno tcp_sock \<Rightarrow> veno tcp_sock" where
  "veno_disable sk = upd_priv (\<lambda>v. v\<lparr>doing_veno_now := 0\<rparr>) sk"

definition tcp_veno_init :: "kernel_env \<Rightarrow> veno tcp_sock \<Rightarrow> veno tcp_sock exec" where
  "tcp_veno_init e sk = Some (veno_enable (upd_priv (\<lambda>v. v\<lparr>basertt := 0x7fffffff, veno_inc := 1\<rparr>) sk))"

definition tcp_veno_pkts_acked :: "kernel_env \<Rightarrow> veno tcp_sock \<Rightarrow> u32 \<Rightarrow> s64 \<Rightarrow> veno tcp_sock exec" where
  "tcp_veno_pkts_acked e sk cnt last_ackt =
     Some (if ktime_equal last_ackt net_invalid_timestamp then sk
           else let vrtt = ack_age_us e last_ackt + 1;
                    v = icsk_ca_priv sk;
                    v = (if vrtt < basertt v then v\<lparr>basertt := vrtt\<rparr> else v);
                    v = v\<lparr>minrtt := min (minrtt v) vrtt, cntrtt := cntrtt v + 1\<rparr>
                in sk\<lparr>icsk_ca_priv := v\<rparr>)"

definition tcp_veno_state :: "kernel_env \<Rightarrow> veno tcp_sock \<Rightarrow> u8 \<Rightarrow> veno tcp_sock exec" where
  "tcp_veno_state e sk ca_state =
     Some (if ca_state = TCP_CA_Open then veno_enable sk else veno_disable sk)"

definition tcp_veno_cwnd_event :: "kernel_env \<Rightarrow> veno tcp_sock \<Rightarrow> tcp_ca_event \<Rightarrow> veno tcp_sock exec" where
  "tcp_veno_cwnd_event e sk event =
     (if event = CA_EVENT_CWND_RESTART \<or> event = CA_EVENT_TX_START then tcp_veno_init e sk else Some sk)"

text \<open>The congestion avoidance branch: every round trip below the backlog, every other one above it.\<close>

definition veno_avoid :: "veno tcp_sock \<Rightarrow> veno tcp_sock" where
  "veno_avoid tp =
     (let v = icsk_ca_priv tp in
      if veno_diff v < VENO_BETA then
        if snd_cwnd_cnt tp \<ge> snd_cwnd tp
        then tp\<lparr>snd_cwnd := (if snd_cwnd tp < snd_cwnd_clamp tp then snd_cwnd tp + 1 else snd_cwnd tp),
                snd_cwnd_cnt := 0\<rparr>
        else tp\<lparr>snd_cwnd_cnt := snd_cwnd_cnt tp + 1\<rparr>
      else
        if snd_cwnd_cnt tp \<ge> snd_cwnd tp
        then (if veno_inc v \<noteq> 0 \<and> snd_cwnd tp < snd_cwnd_clamp tp
              then tp\<lparr>snd_cwnd := snd_cwnd tp + 1, icsk_ca_priv := v\<lparr>veno_inc := 0\<rparr>, snd_cwnd_cnt := 0\<rparr>
              else tp\<lparr>icsk_ca_priv := v\<lparr>veno_inc := 1\<rparr>, snd_cwnd_cnt := 0\<rparr>)
        else tp\<lparr>snd_cwnd_cnt := snd_cwnd_cnt tp + 1\<rparr>)"

definition tcp_veno_cong_avoid ::
  "kernel_env \<Rightarrow> veno tcp_sock \<Rightarrow> u32 \<Rightarrow> u32 \<Rightarrow> u32 \<Rightarrow> c_int \<Rightarrow> veno tcp_sock exec" where
  "tcp_veno_cong_avoid e tp ack seq_rtt in_flight flag =
     (let v = icsk_ca_priv tp in
      if doing_veno_now v = 0 then tcp_reno_cong_avoid e tp ack seq_rtt in_flight flag
      else if \<not> tcp_is_cwnd_limited tp in_flight then Some tp
      else do {
        tp \<leftarrow> (if cntrtt v \<le> 2 then tcp_reno_cong_avoid e tp ack seq_rtt in_flight flag
               else do {
                 target_cwnd \<leftarrow> vegas_target (snd_cwnd tp) (basertt v) (minrtt v);
                 let tp = tp\<lparr>icsk_ca_priv := v\<lparr>veno_diff := vegas_diff (snd_cwnd tp) target_cwnd\<rparr>\<rparr>;
                 tp \<leftarrow> (if snd_cwnd tp \<le> snd_ssthresh tp then tcp_slow_start e tp else Some (veno_avoid tp));
                 Some (vegas_clamp tp)
               });
        Some (upd_priv (\<lambda>v. v\<lparr>minrtt := 0x7fffffff\<rparr>) tp)
      })"

definition tcp_veno_ssthresh :: "kernel_env \<Rightarrow> veno tcp_sock \<Rightarrow> (u32 \<times> veno tcp_sock) exec" where
  "tcp_veno_ssthresh e tp =
     Some (if veno_diff (icsk_ca_priv tp) < VENO_BETA then max (snd_cwnd tp * 4 div 5) 2
           else max (drop_bit 1 (snd_cwnd tp)) 2, tp)"

definition tcp_veno :: "veno tcp_congestion_ops" where
  "tcp_veno = (null_ops ''veno'')\<lparr>ca_flags := TCP_CONG_RTT_STAMP, ca_init := Some tcp_veno_init,
     ca_ssthresh := Some tcp_veno_ssthresh, ca_cong_avoid := Some tcp_veno_cong_avoid,
     ca_pkts_acked := Some tcp_veno_pkts_acked, ca_set_state := Some tcp_veno_state,
     ca_cwnd_event := Some tcp_veno_cwnd_event\<rparr>"

section \<open>Lemmas\<close>

abbreviation veno_ok :: "veno \<Rightarrow> bool" where
  "veno_ok v \<equiv> minrtt v \<noteq> 0"

lemma veno_avoid_frame:
  "same_control s (veno_avoid s)" "snd_ssthresh (veno_avoid s) = snd_ssthresh s"
  by (simp_all add: veno_avoid_def Let_def)

lemma tcp_veno_cong_avoid_ok:
  assumes "veno_ok (icsk_ca_priv s)" "0 < snd_cwnd s" "1 < snd_cwnd_clamp s"
  shows "\<exists>t. tcp_veno_cong_avoid e s ack rtt in_flight flag = Some t \<and> window_step s t \<and> veno_ok (icsk_ca_priv t)"
proof -
  let ?v = "icsk_ca_priv s"
  obtain target where target: "vegas_target (snd_cwnd s) (basertt ?v) (minrtt ?v) = Some target"
    using assms(1) by (simp add: vegas_target_def)
  define s1 where "s1 = s\<lparr>icsk_ca_priv := ?v\<lparr>veno_diff := vegas_diff (snd_cwnd s) target\<rparr>\<rparr>"
  have s1: "0 < snd_cwnd s1" "\<And>t. window_step s1 t = window_step s t" "same_control s s1"
    "snd_ssthresh s1 = snd_ssthresh s"
    using assms(2) by (simp_all add: s1_def)
  obtain t where t: "tcp_reno_cong_avoid e s ack rtt in_flight flag = Some t" "window_step s t"
      "icsk_ca_priv t = ?v"
    using tcp_reno_cong_avoid_step [OF assms(2)] by blast
  obtain u where u: "tcp_slow_start e s1 = Some u" "window_step s u"
    using tcp_slow_start_step [OF s1(1)] s1(2) by blast
  have cu: "window_step s (vegas_clamp u)"
    using u(2) assms(3) by (intro vegas_clamp_step) (simp_all add: window_step_def)
  have cv: "window_step s (vegas_clamp (veno_avoid s1))"
    using assms(3) s1(3,4) veno_avoid_frame [of s1]
    by (intro vegas_clamp_step) (auto intro: same_control_trans)
  have "window_step s s" by (rule window_step_refl [OF assms(2)])
  then show ?thesis
    using target t u(1) cu cv assms(1) unfolding tcp_veno_cong_avoid_def
    by (simp add: Let_def flip: s1_def)
qed

text \<open>A loss cuts the window by a fifth below the backlog threshold and by half above it.\<close>

lemma tcp_veno_ssthresh_exact:
  assumes "unat (snd_cwnd s) < 1073741824" "tcp_veno_ssthresh e s = Some (v, t)"
  shows "unat v = max (if veno_diff (icsk_ca_priv s) < VENO_BETA then unat (snd_cwnd s) * 4 div 5
                       else unat (snd_cwnd s) div 2) 2"
proof -
  have "unat (snd_cwnd s * 4) = unat (snd_cwnd s) * 4" using assms(1) by (subst unat_mult_bounded) simp_all
  then show ?thesis using assms(2) by (auto simp: tcp_veno_ssthresh_def unat_simps split: if_splits)
qed

interpretation veno: cong_control tcp_veno veno_ok "\<lambda>_ _. True" 1073741824 "\<lambda>_ _. True"
proof (unfold_locales, goal_cases)
  case (4 ini s e)
  then show ?case by (auto simp: tcp_veno_def null_ops_def tcp_veno_init_def veno_enable_def)
next
  case (7 ca s e ack rtt in_flight flag)
  then show ?case
    using tcp_veno_cong_avoid_ok [of s e ack rtt in_flight flag]
    by (auto simp: tcp_veno_def null_ops_def wf_sock_def)
next
  case (8 sth s e)
  then have w: "unat (snd_cwnd s) < 1073741824" by (simp add: wf_sock_def)
  obtain v where v: "tcp_veno_ssthresh e s = Some (v, s)" by (simp add: tcp_veno_ssthresh_def)
  have "2 \<le> v" "unat v < 1073741824"
    using tcp_veno_ssthresh_exact [OF w v] w by (auto simp: word_le_nat_alt split: if_splits)
  with 8 v show ?case by (auto simp: tcp_veno_def null_ops_def)
next
  case (10 ss s e st)
  then show ?case by (auto simp: tcp_veno_def null_ops_def tcp_veno_state_def veno_enable_def veno_disable_def)
next
  case (11 ce s e ev)
  then show ?case by (auto simp: tcp_veno_def null_ops_def tcp_veno_cwnd_event_def)
next
  case (12 pa s e n last_ackt)
  then show ?case
    using ack_age_us_pos [of e last_ackt]
    by (auto simp: tcp_veno_def null_ops_def wf_sock_def tcp_veno_pkts_acked_def ktime_equal_def Let_def min_def)
qed (auto simp: tcp_veno_def null_ops_def)

section \<open>Properties\<close>

text \<open>
  In every run of Veno, with windows below \<open>2 ^ 30\<close>, whatever the order of acknowledgments, losses and timeouts, each
  call the simulator can make returns, the window and the threshold keep their bounds and the smallest round trip time, a divisor, is never zero.
\<close>

theorem veno_run_safe:
  assumes "cc_reach tcp_veno (\<lambda>_ _. True) 1073741824 (\<lambda>_ _. True) s"
  shows "run_safe tcp_veno e (\<lambda>_ _. True) s \<and>
    minrtt (icsk_ca_priv s) \<noteq> 0"
  using veno.reach_run_safe [OF assms(1), of e] veno.reach_priv_ok [OF assms(1)] by (simp)

theorem veno_run_safe_witness:
  "\<forall>(q :: veno). \<exists>s. tcp_veno_init sample_env (sample_sock q) = Some s \<and> run_safe tcp_veno sample_env (\<lambda>_ _. True) s"
proof (intro allI)
  fix q :: veno
  let ?s = "the (tcp_veno_init sample_env (sample_sock q))"
  have "cc_reach tcp_veno (\<lambda>_ _. True) 1073741824 (\<lambda>_ _. True) ?s"
    by (rule sample_init [where f = "tcp_veno_init" and q = q]) (simp_all add: tcp_veno_def null_ops_def tcp_veno_init_def veno_enable_def sample_sock_def wf_sock_def)
  then show "\<exists>s. tcp_veno_init sample_env (sample_sock q) = Some s \<and> run_safe tcp_veno sample_env (\<lambda>_ _. True) s"
    using veno_run_safe [of ?s sample_env] by (intro exI [of _ ?s]) (simp add: tcp_veno_def null_ops_def tcp_veno_init_def veno_enable_def sample_sock_def)
qed

text \<open>
  Veno's reaction to a loss: a random loss (few packets queued) costs a fifth of the window, a
  congestive one half of it; the threshold is at least two and the state is not changed.
\<close>

theorem veno_cut:
  assumes "unat (snd_cwnd s) < 1073741824"
  shows "\<exists>v. tcp_veno_ssthresh e s = Some (v, s) \<and>
    unat v = max (if veno_diff (icsk_ca_priv s) < VENO_BETA then unat (snd_cwnd s) * 4 div 5
                  else unat (snd_cwnd s) div 2) 2"
proof -
  obtain v where v: "tcp_veno_ssthresh e s = Some (v, s)" by (auto simp: tcp_veno_ssthresh_def)
  then show ?thesis using tcp_veno_ssthresh_exact [OF assms v] by blast
qed

theorem veno_cut_witness:
  "\<forall>q. \<exists>v. tcp_veno_ssthresh sample_env (sample_sock (q\<lparr>veno_diff := 1\<rparr>)) = Some (v, sample_sock (q\<lparr>veno_diff := 1\<rparr>)) \<and> unat v = 8"
proof
  fix q :: veno
  show "\<exists>v. tcp_veno_ssthresh sample_env (sample_sock (q\<lparr>veno_diff := 1\<rparr>)) = Some (v, sample_sock (q\<lparr>veno_diff := 1\<rparr>)) \<and> unat v = 8"
    using veno_cut [of "sample_sock (q\<lparr>veno_diff := 1\<rparr>)" sample_env] by (simp add: sample_sock_def)
qed

end
