(* ===== verification/Tcp_Yeah.thy ===== *)
theory Tcp_Yeah
  imports Tcp_Vegas
begin

text \<open>
  \<^verbatim>\<open>src/ns-2.34/tcp/linux/src/tcp_yeah.c\<close>: YeAH TCP. Its struct starts with a \<^verbatim>\<open>struct vegas\<close>, so that
  the Vegas callbacks can be installed on it unchanged: the record extends \<open>vegas\<close> and the
  polymorphic Vegas operations apply. YeAH does not meet the contract of \<open>Cong_Control\<close>: its Reno
  branch ignores the clamp, and \<open>tcp_yeah_ssthresh\<close> subtracts up to two segments from a window that
  may be one. The lemmas state what it does keep, and the wrap-around.
\<close>

section \<open>Data\<close>

record yeah = vegas +
  lastQ :: u32
  doing_reno_now :: u32
  reno_count :: u32
  fast_count :: u32
  yeah_pkts_acked :: u32

abbreviation (input) TCP_YEAH_ALPHA :: u32 where "TCP_YEAH_ALPHA \<equiv> 80"
abbreviation (input) TCP_YEAH_PHY :: u32 where "TCP_YEAH_PHY \<equiv> 8"
abbreviation (input) TCP_YEAH_RHO :: u32 where "TCP_YEAH_RHO \<equiv> 16"
abbreviation (input) TCP_YEAH_ZETA :: u32 where "TCP_YEAH_ZETA \<equiv> 50"

section \<open>Operations\<close>

definition tcp_yeah_init :: "kernel_env \<Rightarrow> yeah tcp_sock \<Rightarrow> yeah tcp_sock exec" where
  "tcp_yeah_init e sk = do {
     tp \<leftarrow> tcp_vegas_init e sk;
     Some (upd_priv (\<lambda>y. y\<lparr>doing_reno_now := 0, lastQ := 0, reno_count := 2\<rparr>) tp
             \<lparr>snd_cwnd_clamp := min (snd_cwnd_clamp tp) (0xffffffff div 128)\<rparr>)
   }"

definition tcp_yeah_pkts_acked :: "kernel_env \<Rightarrow> yeah tcp_sock \<Rightarrow> u32 \<Rightarrow> s64 \<Rightarrow> yeah tcp_sock exec" where
  "tcp_yeah_pkts_acked e sk pkts_acked last_ackt =
     tcp_vegas_pkts_acked e
       (if icsk_ca_state sk = TCP_CA_Open then upd_priv (\<lambda>y. y\<lparr>yeah_pkts_acked := pkts_acked\<rparr>) sk else sk)
       pkts_acked last_ackt"

text \<open>The window increase: Scalable while the queue is short, Reno while it is not.\<close>

definition yeah_increase :: "kernel_env \<Rightarrow> yeah tcp_sock \<Rightarrow> yeah tcp_sock exec" where
  "yeah_increase e tp =
     (let y = icsk_ca_priv tp in
      if snd_cwnd tp \<le> snd_ssthresh tp then tcp_slow_start e tp
      else if doing_reno_now y = 0 then
        let cnt = snd_cwnd_cnt tp + yeah_pkts_acked y;
            tp = (if cnt > min (snd_cwnd tp) 100
                  then tp\<lparr>snd_cwnd := (if snd_cwnd tp < snd_cwnd_clamp tp then snd_cwnd tp + 1 else snd_cwnd tp),
                          snd_cwnd_cnt := 0\<rparr>
                  else tp\<lparr>snd_cwnd_cnt := cnt\<rparr>)
        in Some (upd_priv (\<lambda>y. y\<lparr>yeah_pkts_acked := 1\<rparr>) tp)
      else
        let cnt = (if snd_cwnd_cnt tp < snd_cwnd tp then snd_cwnd_cnt tp + 1 else snd_cwnd_cnt tp)
        in Some (if cnt \<ge> snd_cwnd tp then tp\<lparr>snd_cwnd := snd_cwnd tp + 1, snd_cwnd_cnt := 0\<rparr>
                 else tp\<lparr>snd_cwnd_cnt := cnt\<rparr>))"

definition yeah_queue :: "u32 \<Rightarrow> u32 \<Rightarrow> u32 \<Rightarrow> u32 exec" where
  "yeah_queue cwnd rtt base =
     do { (bw, _) \<leftarrow> do_div (ucast cwnd * ucast (rtt - base)) rtt; Some (ucast bw) }"

text \<open>The early decongestion: remove the estimated queue, at most half of the window.\<close>

definition yeah_decongest :: "u32 \<Rightarrow> yeah tcp_sock \<Rightarrow> yeah tcp_sock" where
  "yeah_decongest queue tp =
     (let y = icsk_ca_priv tp in
      if queue > TCP_YEAH_ALPHA \<and> snd_cwnd tp > reno_count y then
        let reduction = min (queue div 1) (drop_bit 1 (snd_cwnd tp));
            w = max (snd_cwnd tp - reduction) (reno_count y)
        in tp\<lparr>snd_cwnd := w, snd_ssthresh := w\<rparr>
      else tp)"

definition yeah_round :: "yeah tcp_sock \<Rightarrow> yeah tcp_sock exec" where
  "yeah_round tp =
     (if cntRTT (icsk_ca_priv tp) > 2 then do {
        let rtt = minRTT (icsk_ca_priv tp);
        let base = baseRTT (icsk_ca_priv tp);
        queue \<leftarrow> yeah_queue (snd_cwnd tp) rtt base;
        let tp = (if queue > TCP_YEAH_ALPHA \<or> rtt - base > base div TCP_YEAH_PHY then
                    let tp = yeah_decongest queue tp;
                        y = icsk_ca_priv tp
                    in tp\<lparr>icsk_ca_priv := y\<lparr>
                         reno_count := (if reno_count y \<le> 2 then max (drop_bit 1 (snd_cwnd tp)) 2
                                        else reno_count y + 1),
                         doing_reno_now := min (doing_reno_now y + 1) 0xffffff\<rparr>\<rparr>
                  else
                    let y = (icsk_ca_priv tp)\<lparr>fast_count := fast_count (icsk_ca_priv tp) + 1\<rparr>;
                        y = (if fast_count y > TCP_YEAH_ZETA then y\<lparr>reno_count := 2, fast_count := 0\<rparr> else y)
                    in tp\<lparr>icsk_ca_priv := y\<lparr>doing_reno_now := 0\<rparr>\<rparr>);
        Some (upd_priv (\<lambda>y. y\<lparr>lastQ := queue\<rparr>) tp)
      }
      else Some tp)"

definition tcp_yeah_cong_avoid ::
  "kernel_env \<Rightarrow> yeah tcp_sock \<Rightarrow> u32 \<Rightarrow> u32 \<Rightarrow> u32 \<Rightarrow> c_int \<Rightarrow> yeah tcp_sock exec" where
  "tcp_yeah_cong_avoid e tp ack seq_rtt in_flight flag =
     (if \<not> tcp_is_cwnd_limited tp in_flight then Some tp
      else do {
        tp \<leftarrow> yeah_increase e tp;
        if after ack (beg_snd_nxt (icsk_ca_priv tp)) then do {
          tp \<leftarrow> yeah_round tp;
          Some (upd_priv (\<lambda>y. y\<lparr>beg_snd_una := beg_snd_nxt y, beg_snd_nxt := snd_nxt tp,
                               beg_snd_cwnd := snd_cwnd tp, cntRTT := 0, minRTT := 0x7fffffff\<rparr>) tp)
        }
        else Some tp
      })"

definition yeah_reduction :: "yeah \<Rightarrow> u32 \<Rightarrow> u32" where
  "yeah_reduction y cwnd =
     (if doing_reno_now y < TCP_YEAH_RHO
      then max (min (lastQ y) (max (drop_bit 1 cwnd) 2)) (drop_bit 3 cwnd)
      else max (drop_bit 1 cwnd) 2)"

definition tcp_yeah_ssthresh :: "kernel_env \<Rightarrow> yeah tcp_sock \<Rightarrow> (u32 \<times> yeah tcp_sock) exec" where
  "tcp_yeah_ssthresh e tp =
     Some (snd_cwnd tp - yeah_reduction (icsk_ca_priv tp) (snd_cwnd tp),
           upd_priv (\<lambda>y. y\<lparr>fast_count := 0, reno_count := max (drop_bit 1 (reno_count y)) 2\<rparr>) tp)"

definition tcp_yeah :: "yeah tcp_congestion_ops" where
  "tcp_yeah = (null_ops ''yeah'')\<lparr>ca_flags := TCP_CONG_RTT_STAMP, ca_init := Some tcp_yeah_init,
     ca_ssthresh := Some tcp_yeah_ssthresh, ca_cong_avoid := Some tcp_yeah_cong_avoid,
     ca_min_cwnd := Some tcp_reno_min_cwnd, ca_set_state := Some tcp_vegas_state,
     ca_cwnd_event := Some tcp_vegas_cwnd_event, ca_pkts_acked := Some tcp_yeah_pkts_acked\<rparr>"

section \<open>Lemmas\<close>

text \<open>
  The decrease on loss: from four segments on, between an eighth (rounded down) and a half of the
  window goes. Below four segments the subtraction can reach zero or wrap around.
\<close>

lemma yeah_reduction_bounds:
  assumes "4 \<le> cwnd"
  shows "drop_bit 3 cwnd \<le> yeah_reduction y cwnd" "yeah_reduction y cwnd \<le> drop_bit 1 cwnd"
proof -
  have "4 \<le> unat cwnd" using assms by (simp add: unat_simps)
  then have "2 \<le> unat cwnd div 2" "unat cwnd div 8 \<le> unat cwnd div 2" by linarith+
  then have "2 \<le> drop_bit 1 cwnd" "drop_bit 3 cwnd \<le> drop_bit 1 cwnd" by (simp_all add: unat_simps)
  then show "drop_bit 3 cwnd \<le> yeah_reduction y cwnd" "yeah_reduction y cwnd \<le> drop_bit 1 cwnd"
    by (auto simp: yeah_reduction_def max_def min_def)
qed

lemma tcp_yeah_ssthresh_bounds:
  assumes "4 \<le> snd_cwnd s" "tcp_yeah_ssthresh e s = Some (v, t)"
  shows "unat (snd_cwnd s) - unat (snd_cwnd s) div 2 \<le> unat v"
    and "unat v \<le> unat (snd_cwnd s) - unat (snd_cwnd s) div 8" and "2 \<le> v"
proof -
  let ?w = "snd_cwnd s" and ?r = "yeah_reduction (icsk_ca_priv s) (snd_cwnd s)"
  note b = yeah_reduction_bounds [OF assms(1), of "icsk_ca_priv s"]
  have r: "unat ?w div 8 \<le> unat ?r" "unat ?r \<le> unat ?w div 2" using b by (simp_all add: unat_simps)
  then have "?r \<le> ?w" by (simp add: word_le_nat_alt)
  then have v: "unat v = unat ?w - unat ?r" using assms(2) by (auto simp: tcp_yeah_ssthresh_def unat_sub)
  show "unat ?w - unat ?w div 2 \<le> unat v" "unat v \<le> unat ?w - unat ?w div 8"
    using r unfolding v by linarith+
  then show "2 \<le> v" using assms(1) by (simp add: word_le_nat_alt)
qed

lemma yeah_reduction_one:
  "yeah_reduction y 1 = (if TCP_YEAH_RHO \<le> doing_reno_now y \<or> 2 \<le> lastQ y then 2 else lastQ y)"
  by (auto simp: yeah_reduction_def min_def max_def)

lemma word_less_2: "\<not> 2 \<le> (x :: u32) \<Longrightarrow> x = 0 \<or> x = 1"
  unfolding word_le_nat_alt word_unat_eq_iff by auto

text \<open>The queue estimate is the share of the window above the base round trip time.\<close>

lemma yeah_queue_exact:
  assumes "base \<le> rtt" "rtt \<noteq> 0"
  shows "\<exists>q. yeah_queue cwnd rtt base = Some q \<and> unat q = unat cwnd * (unat rtt - unat base) div unat rtt \<and> q \<le> cwnd"
proof -
  let ?n = "(ucast cwnd :: u64) * ucast (rtt - base)"
  have d: "unat (rtt - base) = unat rtt - unat base" using assms(1) by (rule unat_sub)
  have "unat cwnd * (unat rtt - unat base) \<le> 4294967295 * 4294967295"
    using u32_bound [of cwnd] u32_bound [of rtt] by (intro mult_le_mono) linarith+
  then have n: "unat ?n = unat cwnd * (unat rtt - unat base)"
    by (subst unat_mult_bounded) (simp_all add: unat_ucast_32_64 d)
  have r: "0 < unat rtt" using assms(2) by (simp add: unat_gt_0)
  have "unat cwnd * (unat rtt - unat base) div unat rtt \<le> unat cwnd * unat rtt div unat rtt"
    by (intro div_le_mono mult_le_mono) simp_all
  then have le: "unat cwnd * (unat rtt - unat base) div unat rtt \<le> unat cwnd" using r by simp
  then have "unat cwnd * (unat rtt - unat base) div unat rtt < 4294967296"
    using u32_bound [of cwnd] by linarith
  then have "unat (ucast (?n div ucast rtt) :: u32) = unat cwnd * (unat rtt - unat base) div unat rtt"
    by (simp add: unat_ucast_64_32 unat_div_word unat_ucast_32_64 n)
  then show ?thesis
    using le assms(2) by (simp add: yeah_queue_def do_div_Some word_le_nat_alt)
qed

text \<open>
  The struct invariant of YeAH: a sample is never below the base, and the window floor is at
  least two. Every callback keeps it, no callback stops, and the window stays positive.
\<close>

definition yeah_ok :: "yeah \<Rightarrow> bool" where
  "yeah_ok y \<longleftrightarrow> minRTT y \<noteq> 0 \<and> 2 \<le> reno_count y"

lemma yeah_round_ok:
  assumes "yeah_ok (icsk_ca_priv s)" "0 < snd_cwnd s" "unat (reno_count (icsk_ca_priv s)) < 4294967295"
  shows "\<exists>t. yeah_round s = Some t \<and> same_control s t \<and> yeah_ok (icsk_ca_priv t) \<and> 0 < snd_cwnd t \<and>
    snd_cwnd t \<le> snd_cwnd s"
proof -
  let ?y = "icsk_ca_priv s"
  have y: "minRTT ?y \<noteq> 0" "2 \<le> reno_count ?y" using assms(1) by (simp_all add: yeah_ok_def)
  then obtain q where q: "yeah_queue (snd_cwnd s) (minRTT ?y) (baseRTT ?y) = Some q"
    by (simp add: yeah_queue_def do_div_Some)
  define d where "d = yeah_decongest q s"
  have le: "drop_bit 1 (snd_cwnd s) \<le> snd_cwnd s" by (rule drop_bit_word_le)
  have sub: "x - r \<le> x" if "r \<le> x" for x r :: u32
    using that by (simp add: word_le_nat_alt unat_sub)
  have d: "same_control s d" "icsk_ca_priv d = ?y" "0 < snd_cwnd d" "snd_cwnd d \<le> snd_cwnd s"
  proof -
    show "same_control s d" "icsk_ca_priv d = ?y" by (simp_all add: d_def yeah_decongest_def Let_def)
    have "min q (drop_bit 1 (snd_cwnd s)) \<le> snd_cwnd s" using le by (simp add: min.coboundedI2)
    moreover have "0 < reno_count ?y" using y(2) by (auto simp: unat_simps)
    ultimately show "0 < snd_cwnd d" "snd_cwnd d \<le> snd_cwnd s"
      using assms(2) by (auto simp: d_def yeah_decongest_def Let_def sub less_max_iff_disj)
  qed
  have "unat (reno_count ?y + 1) = unat (reno_count ?y) + 1"
    using assms(3) by (subst unat_add_bounded) simp_all
  then have "2 \<le> reno_count ?y + 1" using y(2) by (simp add: word_le_nat_alt)
  then show ?thesis
    using q y d assms(2) by (simp add: yeah_round_def Let_def yeah_ok_def flip: d_def)
qed

lemma yeah_increase_ok:
  assumes "0 < snd_cwnd s" "unat (snd_cwnd s) < 4294967295"
  shows "\<exists>t. yeah_increase e s = Some t \<and> same_control s t \<and> 0 < snd_cwnd t \<and>
    snd_cwnd t \<le> max (snd_cwnd s + 1) (snd_cwnd_clamp s) \<and>
    minRTT (icsk_ca_priv t) = minRTT (icsk_ca_priv s) \<and> reno_count (icsk_ca_priv t) = reno_count (icsk_ca_priv s)"
proof -
  obtain u where u: "tcp_slow_start e s = Some u" "window_step s u" "icsk_ca_priv u = icsk_ca_priv s"
    using tcp_slow_start_step [OF assms(1)] by blast
  have inc: "snd_cwnd s \<le> snd_cwnd s + 1" "0 < snd_cwnd s + 1"
    using assms by (simp_all add: unat_simps unat_add_bounded)
  then have "snd_cwnd u \<le> max (snd_cwnd s + 1) (snd_cwnd_clamp s)"
    using u(2) by (auto simp: window_step_def le_max_iff_disj intro: order.trans)
  then show ?thesis
    using u inc assms(1) by (simp add: yeah_increase_def Let_def window_step_def le_max_iff_disj)
qed

lemma tcp_yeah_cong_avoid_ok:
  assumes "yeah_ok (icsk_ca_priv s)" "0 < snd_cwnd s" "unat (snd_cwnd s) < 4294967295"
    "unat (reno_count (icsk_ca_priv s)) < 4294967295"
  shows "\<exists>t. tcp_yeah_cong_avoid e s ack rtt in_flight flag = Some t \<and> same_control s t \<and>
    yeah_ok (icsk_ca_priv t) \<and> 0 < snd_cwnd t \<and> snd_cwnd t \<le> max (snd_cwnd s + 1) (snd_cwnd_clamp s)"
proof -
  obtain u where u: "yeah_increase e s = Some u" "same_control s u" "0 < snd_cwnd u"
      "snd_cwnd u \<le> max (snd_cwnd s + 1) (snd_cwnd_clamp s)" "yeah_ok (icsk_ca_priv u)"
      "unat (reno_count (icsk_ca_priv u)) < 4294967295"
    using yeah_increase_ok [OF assms(2,3), of e] assms(1,4) by (auto simp: yeah_ok_def)
  obtain t where t: "yeah_round u = Some t" "same_control u t" "yeah_ok (icsk_ca_priv t)" "0 < snd_cwnd t"
      "snd_cwnd t \<le> snd_cwnd u"
    using yeah_round_ok [OF u(5,3,6)] by blast
  have "snd_cwnd s \<le> snd_cwnd s + 1" using assms(3) by (simp add: unat_simps unat_add_bounded)
  moreover have "same_control s t" using u(2) t(2) by (rule same_control_trans)
  moreover have "snd_cwnd t \<le> max (snd_cwnd s + 1) (snd_cwnd_clamp s)" using t(5) u(4) by (rule order.trans)
  ultimately show ?thesis
    using u t assms(1,2) by (simp add: tcp_yeah_cong_avoid_def yeah_ok_def le_max_iff_disj)
qed

text \<open>The Reno branch grows the window past the clamp.\<close>

lemma yeah_increase_ignores_clamp:
  assumes "snd_ssthresh s < snd_cwnd s" "doing_reno_now (icsk_ca_priv s) \<noteq> 0" "snd_cwnd s \<le> snd_cwnd_cnt s"
  shows "yeah_increase e s = Some (s\<lparr>snd_cwnd := snd_cwnd s + 1, snd_cwnd_cnt := 0\<rparr>)"
  using assms by (auto simp: yeah_increase_def Let_def)

section \<open>Properties\<close>

text \<open>
  YeAH's reaction to a loss with a window of at least four: the threshold lies between one half
  and seven eighths of the window, rounded up, and is at least two.
\<close>

theorem yeah_cut:
  assumes "4 \<le> snd_cwnd s"
  shows "\<exists>v t. tcp_yeah_ssthresh e s = Some (v, t) \<and> 2 \<le> v \<and>
    unat (snd_cwnd s) - unat (snd_cwnd s) div 2 \<le> unat v \<and> unat v \<le> unat (snd_cwnd s) - unat (snd_cwnd s) div 8"
proof -
  obtain v t where vt: "tcp_yeah_ssthresh e s = Some (v, t)" by (auto simp: tcp_yeah_ssthresh_def Let_def)
  show ?thesis using vt tcp_yeah_ssthresh_bounds [OF assms vt] by blast
qed

theorem yeah_cut_witness:
  "\<forall>q. \<exists>v t. tcp_yeah_ssthresh sample_env (sample_sock q) = Some (v, t) \<and> 5 \<le> unat v \<and> unat v \<le> 9"
proof
  fix q :: yeah
  have c: "snd_cwnd (sample_sock q) = 10" by (simp add: sample_sock_def)
  have "4 \<le> snd_cwnd (sample_sock q)" unfolding c by simp
  from yeah_cut [OF this, of sample_env]
  show "\<exists>v t. tcp_yeah_ssthresh sample_env (sample_sock q) = Some (v, t) \<and> 5 \<le> unat v \<and> unat v \<le> 9"
    unfolding c by auto
qed

text \<open>
  \<^bold>\<open>C38\<close> With a window of one segment, which is what a timeout leaves, the reduction is two segments when YeAH has been in its
  Reno mode for at least \<open>TCP_YEAH_RHO\<close> rounds or its last queue estimate is two segments or more. Exactly then it is larger than the window,
  and the threshold wraps around to \<open>2 ^ 32 - 1\<close>; otherwise the threshold is the window less the estimate, zero or one.
\<close>

theorem yeah_cut_wraps:
  assumes "snd_cwnd s = 1"
  shows "\<exists>v t. tcp_yeah_ssthresh e s = Some (v, t) \<and>
    (if TCP_YEAH_RHO \<le> doing_reno_now (icsk_ca_priv s) \<or> 2 \<le> lastQ (icsk_ca_priv s) then v = 0xffffffff
     else v = 1 - lastQ (icsk_ca_priv s) \<and> v \<le> 1)"
  using assms word_less_2 [of "lastQ (icsk_ca_priv s)"] by (auto simp: tcp_yeah_ssthresh_def yeah_reduction_one)

theorem yeah_cut_wraps_witness:
  "\<forall>q. \<exists>t. tcp_yeah_ssthresh sample_env ((sample_sock (q\<lparr>lastQ := 3\<rparr>))\<lparr>snd_cwnd := 1\<rparr>) = Some (0xffffffff, t)"
proof
  fix q :: yeah
  show "\<exists>t. tcp_yeah_ssthresh sample_env ((sample_sock (q\<lparr>lastQ := 3\<rparr>))\<lparr>snd_cwnd := 1\<rparr>) = Some (0xffffffff, t)"
    using yeah_cut_wraps [of "(sample_sock (q\<lparr>lastQ := 3\<rparr>))\<lparr>snd_cwnd := 1\<rparr>" sample_env] by (simp add: sample_sock_def)
qed

end
