(* ===== verification/Tcp_Htcp.thy ===== *)
theory Tcp_Htcp
  imports Tcp_Reno
begin

text \<open>
  \<^verbatim>\<open>src/ns-2.34/tcp/linux/src/tcp_htcp.c\<close>: H-TCP. The invariant of the struct bounds the decrease factor
  \<^verbatim>\<open>beta\<close> between one half and 0.8 (fixed point, shifted by 7) and the minimum round trip time below
  \<open>2 ^ 29\<close>, which together keep every division defined.
\<close>

section \<open>Data\<close>

abbreviation (input) ALPHA_BASE :: u32 where "ALPHA_BASE \<equiv> 128"
abbreviation (input) BETA_MIN :: u8 where "BETA_MIN \<equiv> 64"
abbreviation (input) BETA_MAX :: u8 where "BETA_MAX \<equiv> 102"

record htcp_params =
  use_rtt_scaling :: c_int
  use_bandwidth_switch :: c_int

definition htcp_defaults :: htcp_params where
  "htcp_defaults = \<lparr>use_rtt_scaling = 1, use_bandwidth_switch = 1\<rparr>"

record htcp =
  ht_alpha :: u32
  ht_beta :: u8
  ht_modeswitch :: u8
  ht_pkts_acked :: u16
  ht_packetcount :: u32
  ht_minRTT :: u32
  ht_maxRTT :: u32
  ht_last_cong :: u32
  ht_undo_last_cong :: u32
  ht_undo_maxRTT :: u32
  ht_undo_old_maxB :: u32
  ht_minB :: u32
  ht_maxB :: u32
  ht_old_maxB :: u32
  ht_Bi :: u32
  ht_lasttime :: u32

section \<open>Operations\<close>

definition htcp_cong_time :: "kernel_env \<Rightarrow> htcp \<Rightarrow> u32" where
  "htcp_cong_time e ca = tcp_time_stamp e - ht_last_cong ca"

definition htcp_ccount :: "kernel_env \<Rightarrow> htcp \<Rightarrow> u32 exec" where
  "htcp_ccount e ca = c_div (htcp_cong_time e ca) (ht_minRTT ca)"

definition htcp_reset :: "kernel_env \<Rightarrow> htcp \<Rightarrow> htcp" where
  "htcp_reset e ca = ca\<lparr>ht_undo_last_cong := ht_last_cong ca, ht_undo_maxRTT := ht_maxRTT ca,
     ht_undo_old_maxB := ht_old_maxB ca, ht_last_cong := tcp_time_stamp e\<rparr>"

definition htcp_cwnd_undo :: "kernel_env \<Rightarrow> htcp tcp_sock \<Rightarrow> (u32 \<times> htcp tcp_sock) exec" where
  "htcp_cwnd_undo e sk =
     (let ca = icsk_ca_priv sk;
          ca = ca\<lparr>ht_last_cong := ht_undo_last_cong ca, ht_maxRTT := ht_undo_maxRTT ca,
                  ht_old_maxB := ht_undo_old_maxB ca\<rparr>
      in do { w \<leftarrow> c_div (push_bit 7 (snd_ssthresh sk)) (ucast (ht_beta ca));
              Some (max (snd_cwnd sk) w, sk\<lparr>icsk_ca_priv := ca\<rparr>) })"

text \<open>The condition of the maximum: the C \<^verbatim>\<open>&&\<close> divides only when its first two operands hold.\<close>

definition measure_rtt :: "kernel_env \<Rightarrow> htcp tcp_sock \<Rightarrow> htcp tcp_sock exec" where
  "measure_rtt e tp =
     (let ca = icsk_ca_priv tp;
          rtt = drop_bit 3 (srtt tp);
          ca = (if ht_minRTT ca > rtt \<or> ht_minRTT ca = 0 then ca\<lparr>ht_minRTT := rtt\<rparr> else ca)
      in do {
        go \<leftarrow> (if icsk_ca_state tp = TCP_CA_Open \<and> snd_ssthresh tp < 0xFFFF
               then map_option (\<lambda>c. c > 3) (htcp_ccount e ca) else Some False);
        let ca = (if go then
                    let ca = (if ht_maxRTT ca < ht_minRTT ca then ca\<lparr>ht_maxRTT := ht_minRTT ca\<rparr> else ca)
                    in if ht_maxRTT ca < rtt \<and> rtt \<le> ht_maxRTT ca + msecs_to_jiffies 20
                       then ca\<lparr>ht_maxRTT := rtt\<rparr> else ca
                  else ca);
        Some (tp\<lparr>icsk_ca_priv := ca\<rparr>)
      })"

text \<open>The achieved throughput, once per round trip; \<^verbatim>\<open>minRTT > 0\<close> guards both divisions.\<close>

definition htcp_bandwidth :: "u32 \<Rightarrow> u32 \<Rightarrow> htcp \<Rightarrow> htcp" where
  "htcp_bandwidth ccount cur_Bi ca =
     (if ccount \<le> 3 then ca\<lparr>ht_minB := cur_Bi, ht_maxB := cur_Bi, ht_Bi := cur_Bi\<rparr>
      else let ca = ca\<lparr>ht_Bi := (3 * ht_Bi ca + cur_Bi) div 4\<rparr>;
               ca = (if ht_Bi ca > ht_maxB ca then ca\<lparr>ht_maxB := ht_Bi ca\<rparr> else ca)
           in if ht_minB ca > ht_maxB ca then ca\<lparr>ht_minB := ht_maxB ca\<rparr> else ca)"

definition htcp_throughput :: "kernel_env \<Rightarrow> u32 \<Rightarrow> htcp \<Rightarrow> htcp exec" where
  "htcp_throughput e cwnd ca =
     (let now = tcp_time_stamp e;
          a = drop_bit 7 (ht_alpha ca)
      in if ht_packetcount ca \<ge> cwnd - (if a \<noteq> 0 then a else 1)
            \<and> now - ht_lasttime ca \<ge> ht_minRTT ca \<and> ht_minRTT ca > 0
         then do {
           cur_Bi \<leftarrow> c_div (ht_packetcount ca * HZ) (now - ht_lasttime ca);
           c \<leftarrow> htcp_ccount e ca;
           let ca = htcp_bandwidth c cur_Bi ca;
           Some (ca\<lparr>ht_packetcount := 0, ht_lasttime := now\<rparr>)
         }
         else Some ca)"

definition measure_achieved_throughput ::
  "htcp_params \<Rightarrow> kernel_env \<Rightarrow> htcp tcp_sock \<Rightarrow> u32 \<Rightarrow> s64 \<Rightarrow> htcp tcp_sock exec" where
  "measure_achieved_throughput m e sk pkts_acked last_ackt =
     (let now = tcp_time_stamp e;
          ca = icsk_ca_priv sk;
          ca = (if icsk_ca_state sk = TCP_CA_Open then ca\<lparr>ht_pkts_acked := pkts_acked\<rparr> else ca)
      in if use_bandwidth_switch m = 0 then Some (sk\<lparr>icsk_ca_priv := ca\<rparr>)
         else if icsk_ca_state sk \<noteq> TCP_CA_Open \<and> icsk_ca_state sk \<noteq> TCP_CA_Disorder
         then Some (sk\<lparr>icsk_ca_priv := ca\<lparr>ht_packetcount := 0, ht_lasttime := now\<rparr>\<rparr>)
         else do {
           ca \<leftarrow> htcp_throughput e (snd_cwnd sk) (ca\<lparr>ht_packetcount := ht_packetcount ca + pkts_acked\<rparr>);
           Some (sk\<lparr>icsk_ca_priv := ca\<rparr>)
         })"

definition htcp_beta_update :: "htcp_params \<Rightarrow> u32 \<Rightarrow> u32 \<Rightarrow> htcp \<Rightarrow> htcp exec" where
  "htcp_beta_update m minRTT maxRTT ca =
     (let maxB = ht_maxB ca; old_maxB = ht_old_maxB ca;
          ca = (if use_bandwidth_switch m \<noteq> 0 then ca\<lparr>ht_old_maxB := ht_maxB ca\<rparr> else ca)
      in if use_bandwidth_switch m \<noteq> 0 \<and> \<not> between (5 * maxB) (4 * old_maxB) (6 * old_maxB)
         then Some (ca\<lparr>ht_beta := BETA_MIN, ht_modeswitch := 0\<rparr>)
         else if ht_modeswitch ca \<noteq> 0 \<and> minRTT > msecs_to_jiffies 10 \<and> maxRTT \<noteq> 0
         then do {
           q \<leftarrow> c_div (push_bit 7 minRTT) maxRTT;
           let b = (ucast q :: u8);
           Some (ca\<lparr>ht_beta := (if b < BETA_MIN then BETA_MIN else if b > BETA_MAX then BETA_MAX else b)\<rparr>)
         }
         else Some (ca\<lparr>ht_beta := BETA_MIN, ht_modeswitch := 1\<rparr>))"

text \<open>The blocks of \<^verbatim>\<open>htcp_alpha_update\<close>: the growth with time, then the scaling by the round trip time.\<close>

definition htcp_factor :: "u32 \<Rightarrow> u32" where
  "htcp_factor diff =
     (if diff > HZ
      then let diff = diff - HZ in 1 + (10 * diff + ((diff div 2) * (diff div 2) div HZ)) div HZ
      else 1)"

definition htcp_rtt_scale :: "htcp_params \<Rightarrow> u32 \<Rightarrow> u32 \<Rightarrow> u32 exec" where
  "htcp_rtt_scale m minRTT factor =
     (if use_rtt_scaling m \<noteq> 0 \<and> minRTT \<noteq> 0 then do {
        scale \<leftarrow> c_div (push_bit 3 HZ) (10 * minRTT);
        let scale = min (max scale 4) 80;
        f \<leftarrow> c_div (push_bit 3 factor) scale;
        Some (if f = 0 then 1 else f)
      }
      else Some factor)"

definition htcp_alpha_update :: "htcp_params \<Rightarrow> kernel_env \<Rightarrow> htcp \<Rightarrow> htcp exec" where
  "htcp_alpha_update m e ca = do {
     factor \<leftarrow> htcp_rtt_scale m (ht_minRTT ca) (htcp_factor (htcp_cong_time e ca));
     let alpha = 2 * factor * (push_bit 7 1 - ucast (ht_beta ca));
     Some (ca\<lparr>ht_alpha := (if alpha = 0 then ALPHA_BASE else alpha)\<rparr>)
   }"

definition htcp_param_update :: "htcp_params \<Rightarrow> kernel_env \<Rightarrow> htcp \<Rightarrow> htcp exec" where
  "htcp_param_update m e ca = do {
     let minRTT = ht_minRTT ca;
     let maxRTT = ht_maxRTT ca;
     ca \<leftarrow> htcp_beta_update m minRTT maxRTT ca;
     ca \<leftarrow> htcp_alpha_update m e ca;
     Some (if minRTT > 0 \<and> maxRTT > minRTT
           then ca\<lparr>ht_maxRTT := minRTT + ((maxRTT - minRTT) * 95) div 100\<rparr> else ca)
   }"

definition htcp_recalc_ssthresh :: "htcp_params \<Rightarrow> kernel_env \<Rightarrow> htcp tcp_sock \<Rightarrow> (u32 \<times> htcp tcp_sock) exec" where
  "htcp_recalc_ssthresh m e tp = do {
     ca \<leftarrow> htcp_param_update m e (icsk_ca_priv tp);
     Some (max (drop_bit 7 (snd_cwnd tp * ucast (ht_beta ca))) 2, tp\<lparr>icsk_ca_priv := ca\<rparr>)
   }"

definition htcp_cong_avoid ::
  "htcp_params \<Rightarrow> kernel_env \<Rightarrow> htcp tcp_sock \<Rightarrow> u32 \<Rightarrow> u32 \<Rightarrow> u32 \<Rightarrow> c_int \<Rightarrow> htcp tcp_sock exec" where
  "htcp_cong_avoid m e tp ack rtt in_flight data_acked =
     (if \<not> tcp_is_cwnd_limited tp in_flight then Some tp
      else if snd_cwnd tp \<le> snd_ssthresh tp then tcp_slow_start e tp
      else do {
        tp \<leftarrow> measure_rtt e tp;
        tp \<leftarrow> (if drop_bit 7 (snd_cwnd_cnt tp * ht_alpha (icsk_ca_priv tp)) \<ge> snd_cwnd tp
               then do {
                 ca \<leftarrow> htcp_alpha_update m e (icsk_ca_priv tp);
                 Some (tp\<lparr>snd_cwnd := (if snd_cwnd tp < snd_cwnd_clamp tp then snd_cwnd tp + 1 else snd_cwnd tp),
                          snd_cwnd_cnt := 0, icsk_ca_priv := ca\<rparr>)
               }
               else Some (tp\<lparr>snd_cwnd_cnt := snd_cwnd_cnt tp + ht_pkts_acked (icsk_ca_priv tp)\<rparr>));
        Some (upd_priv (\<lambda>ca. ca\<lparr>ht_pkts_acked := 1\<rparr>) tp)
      })"

definition htcp_init :: "kernel_env \<Rightarrow> htcp tcp_sock \<Rightarrow> htcp tcp_sock exec" where
  "htcp_init e sk = Some (sk\<lparr>icsk_ca_priv := \<lparr>ht_alpha = ALPHA_BASE, ht_beta = BETA_MIN, ht_modeswitch = 0,
     ht_pkts_acked = 1, ht_packetcount = 0, ht_minRTT = 0, ht_maxRTT = 0, ht_last_cong = tcp_time_stamp e,
     ht_undo_last_cong = 0, ht_undo_maxRTT = 0, ht_undo_old_maxB = 0, ht_minB = 0, ht_maxB = 0,
     ht_old_maxB = 0, ht_Bi = 0, ht_lasttime = 0\<rparr>\<rparr>)"

definition htcp_state :: "kernel_env \<Rightarrow> htcp tcp_sock \<Rightarrow> u8 \<Rightarrow> htcp tcp_sock exec" where
  "htcp_state e sk new_state =
     Some (if new_state = TCP_CA_Open then upd_priv (\<lambda>ca. ca\<lparr>ht_last_cong := tcp_time_stamp e\<rparr>) sk
           else if new_state = TCP_CA_CWR \<or> new_state = TCP_CA_Recovery \<or> new_state = TCP_CA_Loss
           then upd_priv (htcp_reset e) sk
           else sk)"

definition htcp_ops :: "htcp_params \<Rightarrow> htcp tcp_congestion_ops" where
  "htcp_ops m = (null_ops ''htcp'')\<lparr>ca_init := Some htcp_init, ca_ssthresh := Some (htcp_recalc_ssthresh m),
     ca_cong_avoid := Some (htcp_cong_avoid m), ca_set_state := Some htcp_state,
     ca_undo_cwnd := Some htcp_cwnd_undo, ca_pkts_acked := Some (measure_achieved_throughput m)\<rparr>"

section \<open>The contract\<close>

definition htcp_ok :: "htcp \<Rightarrow> bool" where
  "htcp_ok ca \<longleftrightarrow> BETA_MIN \<le> ht_beta ca \<and> ht_beta ca \<le> BETA_MAX \<and> unat (ht_minRTT ca) < 536870912"

text \<open>Both updates of the decrease factor keep it in its range, whatever the estimates are.\<close>

lemma htcp_beta_update_ok:
  assumes "unat (ht_minRTT ca) < 536870912"
  shows "\<exists>ca'. htcp_beta_update m minRTT maxRTT ca = Some ca' \<and> htcp_ok ca' \<and> ht_minRTT ca' = ht_minRTT ca"
  using assms by (simp add: htcp_beta_update_def Let_def htcp_ok_def not_less)

text \<open>
  The increase factor is defined for every minimum round trip time of the invariant (the product
  with 10 wraps to zero at \<open>2 ^ 31\<close> only), and it is never zero.
\<close>

lemma ten_times_nonzero:
  fixes r :: u32
  assumes "r \<noteq> 0" "unat r < 536870912"
  shows "10 * r \<noteq> 0"
proof
  assume "10 * r = 0"
  then have "unat (10 * r) = 0" by simp
  then have "(10 * unat r) mod 4294967296 = 0" by (simp add: unat_word_ariths)
  then have "4294967296 dvd 10 * unat r" by (simp add: mod_eq_0_iff_dvd)
  then obtain k where k: "10 * unat r = 4294967296 * k" by (rule dvdE)
  have "0 < unat r" using assms(1) by (simp add: unat_gt_0)
  then have "k = 1" using k assms(2) by linarith
  then show False using k by presburger
qed

lemma htcp_rtt_scale_ok:
  assumes "unat minRTT < 536870912"
  shows "\<exists>f. htcp_rtt_scale m minRTT factor = Some f"
proof -
  have nz: "min (max x 4) 80 \<noteq> 0" for x :: u32 by (auto simp: min_def max_def)
  have "minRTT \<noteq> 0 \<Longrightarrow> 10 * minRTT \<noteq> 0" using assms by (intro ten_times_nonzero)
  then show ?thesis using nz by (simp add: htcp_rtt_scale_def Let_def)
qed

lemma htcp_alpha_update_ok:
  assumes "htcp_ok ca"
  shows "\<exists>ca'. htcp_alpha_update m e ca = Some ca' \<and> ht_alpha ca' \<noteq> 0 \<and> htcp_ok ca' \<and>
    ht_beta ca' = ht_beta ca"
proof -
  obtain f where "htcp_rtt_scale m (ht_minRTT ca) (htcp_factor (htcp_cong_time e ca)) = Some f"
    using htcp_rtt_scale_ok [of "ht_minRTT ca" m] assms unfolding htcp_ok_def by blast
  then show ?thesis using assms by (simp add: htcp_alpha_update_def Let_def htcp_ok_def)
qed

lemma htcp_param_update_ok:
  assumes "htcp_ok ca"
  shows "\<exists>ca'. htcp_param_update m e ca = Some ca' \<and> htcp_ok ca'"
proof -
  obtain ca1 where ca1: "htcp_beta_update m (ht_minRTT ca) (ht_maxRTT ca) ca = Some ca1" "htcp_ok ca1"
    using htcp_beta_update_ok [of ca] assms unfolding htcp_ok_def by blast
  obtain ca2 where "htcp_alpha_update m e ca1 = Some ca2" "htcp_ok ca2"
    using htcp_alpha_update_ok [OF ca1(2)] by blast
  then show ?thesis using ca1 by (simp add: htcp_param_update_def Let_def htcp_ok_def)
qed

lemma measure_rtt_ok:
  assumes "htcp_ok (icsk_ca_priv s)" "8 \<le> srtt s"
  shows "\<exists>t. measure_rtt e s = Some t \<and> priv_only s t \<and> htcp_ok (icsk_ca_priv t)"
proof -
  define rtt where "rtt = drop_bit 3 (srtt s)"
  have "unat rtt = unat (srtt s) div 8" by (simp add: rtt_def unat_drop_bit)
  moreover have "8 \<le> unat (srtt s)" "unat (srtt s) < 4294967296"
    using assms(2) by (simp_all add: word_le_nat_alt)
  ultimately have "0 < unat rtt" "unat rtt < 536870912" by linarith+
  then have rtt: "rtt \<noteq> 0" "unat rtt < 536870912" by auto
  show ?thesis
    using assms(1) rtt unfolding measure_rtt_def
    by (simp add: Let_def htcp_ok_def htcp_ccount_def flip: rtt_def)
qed

lemma htcp_throughput_ok:
  assumes "htcp_ok ca"
  shows "\<exists>ca'. htcp_throughput e cwnd ca = Some ca' \<and> htcp_ok ca'"
proof -
  have "htcp_ok (htcp_bandwidth c b ca\<lparr>ht_packetcount := n, ht_lasttime := l\<rparr>)" for c b n l
    using assms by (simp add: htcp_ok_def htcp_bandwidth_def Let_def)
  moreover have "\<lbrakk>d \<ge> r; r > 0\<rbrakk> \<Longrightarrow> d \<noteq> 0 \<and> r \<noteq> 0" for d r :: u32 by auto
  ultimately show ?thesis
    using assms by (auto simp: htcp_throughput_def Let_def htcp_ccount_def c_div_def)
qed

lemma measure_achieved_throughput_ok:
  assumes "htcp_ok (icsk_ca_priv s)"
  shows "\<exists>t. measure_achieved_throughput m e s n last_ackt = Some t \<and> priv_only s t \<and> htcp_ok (icsk_ca_priv t)"
proof -
  define ca where "ca = (if icsk_ca_state s = TCP_CA_Open then (icsk_ca_priv s)\<lparr>ht_pkts_acked := n\<rparr> else icsk_ca_priv s)"
  let ?ca1 = "ca\<lparr>ht_packetcount := ht_packetcount ca + n\<rparr>"
  have ok: "htcp_ok ca" "htcp_ok ?ca1" "htcp_ok ((icsk_ca_priv s)\<lparr>ht_packetcount := 0, ht_lasttime := l\<rparr>)"
    "htcp_ok (ca\<lparr>ht_packetcount := 0, ht_lasttime := l\<rparr>)" for l
    using assms by (simp_all add: ca_def htcp_ok_def)
  obtain ca' where "htcp_throughput e (snd_cwnd s) ?ca1 = Some ca'" "htcp_ok ca'"
    using htcp_throughput_ok [OF ok(2)] by blast
  then show ?thesis
    using ok unfolding measure_achieved_throughput_def by (simp add: Let_def flip: ca_def)
qed

lemma htcp_cong_avoid_ok:
  assumes "htcp_ok (icsk_ca_priv s)" "0 < snd_cwnd s" "8 \<le> srtt s"
  shows "\<exists>t. htcp_cong_avoid m e s ack rtt in_flight flag = Some t \<and> window_step s t \<and> htcp_ok (icsk_ca_priv t)"
proof -
  obtain u where u: "tcp_slow_start e s = Some u" "window_step s u" "icsk_ca_priv u = icsk_ca_priv s"
    using tcp_slow_start_step [OF assms(2)] by blast
  obtain t where t: "measure_rtt e s = Some t" "priv_only s t" "htcp_ok (icsk_ca_priv t)"
    using measure_rtt_ok [OF assms(1,3)] by blast
  from t(2) obtain p where p: "t = s\<lparr>icsk_ca_priv := p\<rparr>" by (rule priv_onlyE)
  obtain ca where ca: "htcp_alpha_update m e p = Some ca" "htcp_ok ca"
    using htcp_alpha_update_ok [of p] t(3) by (auto simp: p)
  have "window_step s (s\<lparr>snd_cwnd := if snd_cwnd s < snd_cwnd_clamp s then snd_cwnd s + 1 else snd_cwnd s\<rparr>)"
    using window_step_refl [OF assms(2)] by simp
  then show ?thesis
    using u t(1,3) p ca assms(1) window_step_refl [OF assms(2)]
    by (simp add: htcp_cong_avoid_def htcp_ok_def)
qed

text \<open>The threshold after a loss is the window times \<open>beta / 128\<close>, so a fifth to a half of it goes.\<close>

lemma htcp_recalc_ssthresh_ok:
  assumes "htcp_ok (icsk_ca_priv s)" "unat (snd_cwnd s) < 33554432"
  shows "\<exists>v t. htcp_recalc_ssthresh m e s = Some (v, t) \<and> priv_only s t \<and> htcp_ok (icsk_ca_priv t) \<and>
    unat v = max (unat (snd_cwnd s) * unat (ht_beta (icsk_ca_priv t)) div 128) 2"
proof -
  obtain ca where ca: "htcp_param_update m e (icsk_ca_priv s) = Some ca" "htcp_ok ca"
    using htcp_param_update_ok [OF assms(1)] by blast
  have "unat (ht_beta ca) \<le> 102" using ca(2) by (simp add: htcp_ok_def word_le_nat_alt)
  then have "unat (snd_cwnd s) * unat (ht_beta ca) \<le> 33554431 * 102"
    using assms(2) by (intro mult_le_mono) simp_all
  then have "unat (snd_cwnd s * ucast (ht_beta ca)) = unat (snd_cwnd s) * unat (ht_beta ca)"
    by (subst unat_mult_bounded) (simp_all add: unat_ucast_8_32)
  then show ?thesis using ca by (simp add: htcp_recalc_ssthresh_def unat_simps)
qed

interpretation htcp: cong_control "htcp_ops m" htcp_ok "\<lambda>_ _. True" 33554432 "\<lambda>_ _. True" for m
proof (unfold_locales, goal_cases)
  case (4 ini s e)
  then show ?case by (auto simp: htcp_ops_def null_ops_def htcp_init_def htcp_ok_def)
next
  case (7 ca s e ack rtt in_flight flag)
  then show ?case
    using htcp_cong_avoid_ok [of s m e ack rtt in_flight flag]
    by (auto simp: htcp_ops_def null_ops_def wf_sock_def)
next
  case (8 sth s e)
  then have s: "htcp_ok (icsk_ca_priv s)" "unat (snd_cwnd s) < 33554432" by (simp_all add: wf_sock_def)
  from htcp_recalc_ssthresh_ok [OF this, of m e] obtain v t where
    v: "htcp_recalc_ssthresh m e s = Some (v, t)" "priv_only s t" "htcp_ok (icsk_ca_priv t)"
      "unat v = max (unat (snd_cwnd s) * unat (ht_beta (icsk_ca_priv t)) div 128) 2"
    by blast
  have "unat (ht_beta (icsk_ca_priv t)) \<le> 128" using v(3) by (simp add: htcp_ok_def word_le_nat_alt)
  then have "unat (snd_cwnd s) * unat (ht_beta (icsk_ca_priv t)) div 128 \<le> unat (snd_cwnd s) * 128 div 128"
    by (intro div_le_mono mult_le_mono) simp_all
  then have "2 \<le> v" "unat v < 33554432" using v(4) s(2) by (simp_all add: word_le_nat_alt)
  with 8 v show ?case by (auto simp: htcp_ops_def null_ops_def)
next
  case (10 ss s e st)
  then show ?case by (auto simp: htcp_ops_def null_ops_def htcp_state_def htcp_reset_def htcp_ok_def)
next
  case (12 pa s e n last_ackt)
  then have "htcp_ok (icsk_ca_priv s)" "pa = measure_achieved_throughput m" "0 < snd_cwnd s"
    by (simp_all add: htcp_ops_def null_ops_def wf_sock_def)
  with measure_achieved_throughput_ok [of s m e n last_ackt] show ?case by (auto elim!: priv_onlyE)
qed (auto simp: htcp_ops_def null_ops_def)

section \<open>Properties\<close>

text \<open>
  In every run of H-TCP, for every value of its parameters, whatever the order of acknowledgments, losses and timeouts, each
  call the simulator can make returns, the window and the threshold keep their bounds and the decrease factor stays between \<open>BETA_MIN\<close> and \<open>BETA_MAX\<close>.
\<close>

theorem htcp_run_safe:
  assumes "cc_reach (htcp_ops m) (\<lambda>_ _. True) 33554432 (\<lambda>_ _. True) s"
  shows "run_safe (htcp_ops m) e (\<lambda>_ _. True) s \<and>
    BETA_MIN \<le> ht_beta (icsk_ca_priv s) \<and> ht_beta (icsk_ca_priv s) \<le> BETA_MAX"
  using htcp.reach_run_safe [OF assms(1), of e] htcp.reach_priv_ok [OF assms(1)] by (simp add: htcp_ok_def)

theorem htcp_run_safe_witness:
  "\<forall>(q :: htcp) m. \<exists>s. htcp_init sample_env (sample_sock q) = Some s \<and> run_safe (htcp_ops m) sample_env (\<lambda>_ _. True) s"
proof (intro allI)
  fix q :: htcp and m
  let ?s = "the (htcp_init sample_env (sample_sock q))"
  have "cc_reach (htcp_ops m) (\<lambda>_ _. True) 33554432 (\<lambda>_ _. True) ?s"
    by (rule sample_init [where f = "htcp_init" and q = q]) (simp_all add: htcp_ops_def null_ops_def htcp_init_def sample_sock_def wf_sock_def)
  then show "\<exists>s. htcp_init sample_env (sample_sock q) = Some s \<and> run_safe (htcp_ops m) sample_env (\<lambda>_ _. True) s"
    using htcp_run_safe [of m ?s sample_env] by (intro exI [of _ ?s]) (simp add: htcp_ops_def null_ops_def htcp_init_def sample_sock_def)
qed

text \<open>
  H-TCP's reaction to a loss: the threshold is the window times the new decrease factor, in
  128ths and computed without overflow, so between one half and four fifths of the window (and at
  least two).
\<close>

theorem htcp_cut:
  assumes "cc_reach (htcp_ops m) (\<lambda>_ _. True) 33554432 (\<lambda>_ _. True) s"
  shows "\<exists>v t. htcp_recalc_ssthresh m e s = Some (v, t) \<and> priv_only s t \<and>
    unat v = max (unat (snd_cwnd s) * unat (ht_beta (icsk_ca_priv t)) div 128) 2 \<and>
    64 \<le> unat (ht_beta (icsk_ca_priv t)) \<and> unat (ht_beta (icsk_ca_priv t)) \<le> 102"
proof -
  have "htcp_ok (icsk_ca_priv s)" "unat (snd_cwnd s) < 33554432"
    using htcp.reach_safe [OF assms] by (simp_all add: cc_safe_def wf_sock_def)
  from htcp_recalc_ssthresh_ok [OF this, of m e] obtain v t where
    "htcp_recalc_ssthresh m e s = Some (v, t)" "priv_only s t" "htcp_ok (icsk_ca_priv t)"
    "unat v = max (unat (snd_cwnd s) * unat (ht_beta (icsk_ca_priv t)) div 128) 2" by blast
  then show ?thesis by (auto simp: htcp_ok_def word_le_nat_alt)
qed

theorem htcp_cut_witness:
  "\<forall>(q :: htcp) m. \<exists>s v t. htcp_init sample_env (sample_sock q) = Some s \<and>
     htcp_recalc_ssthresh m sample_env s = Some (v, t) \<and> 64 \<le> unat (ht_beta (icsk_ca_priv t))"
proof (intro allI)
  fix q :: htcp and m
  let ?s = "the (htcp_init sample_env (sample_sock q))"
  have "cc_reach (htcp_ops m) (\<lambda>_ _. True) 33554432 (\<lambda>_ _. True) ?s"
    by (rule sample_init [where f = htcp_init and q = q])
      (simp_all add: htcp_ops_def null_ops_def htcp_init_def sample_sock_def wf_sock_def)
  then have "\<exists>v t. htcp_recalc_ssthresh m sample_env ?s = Some (v, t) \<and> 64 \<le> unat (ht_beta (icsk_ca_priv t))"
    using htcp_cut by blast
  moreover have "htcp_init sample_env (sample_sock q) = Some ?s" by (simp add: htcp_init_def)
  ultimately show "\<exists>s v t. htcp_init sample_env (sample_sock q) = Some s \<and>
     htcp_recalc_ssthresh m sample_env s = Some (v, t) \<and> 64 \<le> unat (ht_beta (icsk_ca_priv t))" by blast
qed

end
