(* ===== verification/Tcp_Hybla.thy ===== *)
theory Tcp_Hybla
  imports Tcp_Reno
begin

text \<open>
  \<^verbatim>\<open>src/ns-2.34/tcp/linux/src/tcp_hybla.c\<close>: TCP Hybla. The slow start increment shifts by the integer
  part of the round trip time ratio \<^verbatim>\<open>rho\<close>; the invariant bounds it below 32, which holds for smoothed
  round trip times below 800 ms (with the default reference of 25 ms).
\<close>

section \<open>Data\<close>

record hybla =
  hybla_en :: u8
  snd_cwnd_cents :: u32
  hy_rho :: u32
  hy_rho2 :: u32
  hy_rho_3ls :: u32
  hy_rho2_7ls :: u32
  hy_minrtt :: u32

text \<open>The module parameter \<^verbatim>\<open>rtt0\<close>.\<close>

abbreviation (input) hybla_rtt0_default :: c_int where "hybla_rtt0_default \<equiv> 25"

section \<open>Operations\<close>

definition hybla_recalc_param :: "c_int \<Rightarrow> hybla tcp_sock \<Rightarrow> hybla tcp_sock exec" where
  "hybla_recalc_param rtt0 sk = do {
     q \<leftarrow> c_div (srtt sk) (msecs_to_jiffies rtt0);
     let r = max q 8;
     let r2 = push_bit 1 (r * r);
     Some (upd_priv (\<lambda>ca. ca\<lparr>hy_rho_3ls := r, hy_rho := drop_bit 3 r, hy_rho2_7ls := r2,
                           hy_rho2 := drop_bit 7 r2\<rparr>) sk)
   }"

definition hybla_init :: "c_int \<Rightarrow> kernel_env \<Rightarrow> hybla tcp_sock \<Rightarrow> hybla tcp_sock exec" where
  "hybla_init rtt0 e sk = do {
     let sk = upd_priv (\<lambda>ca. ca\<lparr>hy_rho := 0, hy_rho2 := 0, hy_rho_3ls := 0, hy_rho2_7ls := 0,
                               snd_cwnd_cents := 0, hybla_en := 1\<rparr>) sk;
     let sk = sk\<lparr>snd_cwnd := 2, snd_cwnd_clamp := 65535\<rparr>;
     sk \<leftarrow> hybla_recalc_param rtt0 sk;
     let sk = upd_priv (\<lambda>ca. ca\<lparr>hy_minrtt := srtt sk\<rparr>) sk;
     Some (sk\<lparr>snd_cwnd := hy_rho (icsk_ca_priv sk)\<rparr>)
   }"

definition hybla_state :: "kernel_env \<Rightarrow> hybla tcp_sock \<Rightarrow> u8 \<Rightarrow> hybla tcp_sock exec" where
  "hybla_state e sk ca_state =
     Some (upd_priv (\<lambda>ca. ca\<lparr>hybla_en := (if ca_state = TCP_CA_Open then 1 else 0)\<rparr>) sk)"

definition hybla_fractions :: "u32 list" where
  "hybla_fractions = [128, 139, 152, 165, 181, 197, 215, 234]"

definition hybla_fraction :: "u32 \<Rightarrow> u32 exec" where
  "hybla_fraction odds = (if unat odds < 8 then c_index hybla_fractions odds else Some 128)"

text \<open>The loop that turns 128 hundredths into a segment, over the window, its counter and the hundredths.\<close>

function hybla_carry :: "u32 \<Rightarrow> u16 \<Rightarrow> u32 \<Rightarrow> u32 \<times> u16 \<times> u32" where
  "hybla_carry cwnd cnt cents =
     (if cents \<ge> 128 then hybla_carry (cwnd + 1) 0 (cents - 128) else (cwnd, cnt, cents))"
  by pat_completeness auto
termination
  by (relation "measure (\<lambda>(_, _, cents). unat cents)") (auto simp: unat_sub unat_simps)

declare hybla_carry.simps [simp del]

text \<open>The increment (scaled by 128): exponential in \<^verbatim>\<open>rho\<close> in slow start, quadratic over the window after.\<close>

definition hybla_increment :: "hybla \<Rightarrow> hybla tcp_sock \<Rightarrow> (bool \<times> u32) exec" where
  "hybla_increment ca tp =
     (if snd_cwnd tp < snd_ssthresh tp then do {
        let rho_fractions = hy_rho_3ls ca - push_bit 3 (hy_rho ca);
        p \<leftarrow> c_shl (1 :: c_int) (hy_rho ca);
        f \<leftarrow> hybla_fraction rho_fractions;
        Some (True, p * f - 128)
      }
      else do {
        q \<leftarrow> c_div (hy_rho2_7ls ca) (snd_cwnd tp);
        Some (False, q)
      })"

definition hybla_apply :: "bool \<Rightarrow> u32 \<Rightarrow> hybla tcp_sock \<Rightarrow> hybla tcp_sock" where
  "hybla_apply is_slowstart increment tp =
     (let cnt = (if \<not> is_slowstart \<and> increment < 128 then snd_cwnd_cnt tp + 1 else snd_cwnd_cnt tp);
          (w, cnt, cents) = hybla_carry (snd_cwnd tp + drop_bit 7 increment) cnt
                              (snd_cwnd_cents (icsk_ca_priv tp) + increment mod 128);
          w = (if is_slowstart then min w (snd_ssthresh tp) else w)
      in upd_priv (\<lambda>ca. ca\<lparr>snd_cwnd_cents := cents\<rparr>)
           (tp\<lparr>snd_cwnd := min w (snd_cwnd_clamp tp), snd_cwnd_cnt := cnt\<rparr>))"

definition hybla_cong_avoid ::
  "c_int \<Rightarrow> kernel_env \<Rightarrow> hybla tcp_sock \<Rightarrow> u32 \<Rightarrow> u32 \<Rightarrow> u32 \<Rightarrow> c_int \<Rightarrow> hybla tcp_sock exec" where
  "hybla_cong_avoid rtt0 e tp ack rtt in_flight flag = do {
     tp \<leftarrow> (if srtt tp < hy_minrtt (icsk_ca_priv tp)
            then map_option (upd_priv (\<lambda>ca. ca\<lparr>hy_minrtt := srtt tp\<rparr>)) (hybla_recalc_param rtt0 tp)
            else Some tp);
     if \<not> tcp_is_cwnd_limited tp in_flight then Some tp
     else if hybla_en (icsk_ca_priv tp) = 0 then tcp_reno_cong_avoid e tp ack rtt in_flight flag
     else do {
       tp \<leftarrow> (if hy_rho (icsk_ca_priv tp) = 0 then hybla_recalc_param rtt0 tp else Some tp);
       (is_slowstart, increment) \<leftarrow> hybla_increment (icsk_ca_priv tp) tp;
       Some (hybla_apply is_slowstart increment tp)
     }
   }"

definition tcp_hybla :: "c_int \<Rightarrow> hybla tcp_congestion_ops" where
  "tcp_hybla rtt0 = (null_ops ''hybla'')\<lparr>ca_init := Some (hybla_init rtt0), ca_ssthresh := Some tcp_reno_ssthresh,
     ca_min_cwnd := Some tcp_reno_min_cwnd, ca_cong_avoid := Some (hybla_cong_avoid rtt0),
     ca_set_state := Some hybla_state\<rparr>"

section \<open>Lemmas\<close>

text \<open>The loop runs \<open>cents div 128\<close> times.\<close>

lemma hybla_carry_eq:
  "hybla_carry w c x = (w + of_nat (unat x div 128), if 128 \<le> x then 0 else c, x mod 128)"
proof (induction w c x rule: hybla_carry.induct)
  case (1 w c x)
  show ?case
  proof (cases "128 \<le> x")
    case False
    then have "unat x < 128" by (simp add: unat_simps)
    moreover from this have "x mod 128 = x" by (simp add: word_unat_eq_iff unat_mod_distrib)
    ultimately show ?thesis using False by (simp add: hybla_carry.simps [of w c x])
  next
    case True
    have sub: "unat (x - 128) = unat x - 128" and ge: "128 \<le> unat x"
      using True by (simp_all add: unat_sub unat_simps)
    have q: "unat x div 128 = Suc ((unat x - 128) div 128)" using ge by (simp add: le_div_geq)
    have r: "(x - 128) mod 128 = x mod 128"
      using ge by (simp add: word_unat_eq_iff unat_mod_distrib sub le_mod_geq)
    show ?thesis
      using True "1.IH" [OF True] by (simp add: hybla_carry.simps [of w c x] sub q r)
  qed
qed

abbreviation (input) HYBLA_LIM :: nat where "HYBLA_LIM \<equiv> 2147483648"

definition hybla_ok :: "hybla \<Rightarrow> bool" where
  "hybla_ok ca \<longleftrightarrow> unat (hy_rho ca) < 32 \<and> unat (snd_cwnd_cents ca) < 128"

text \<open>The smoothed round trip time is stored scaled by eight: below 800 ticks.\<close>

definition hybla_env :: "kernel_env \<Rightarrow> 'ca tcp_sock \<Rightarrow> bool" where
  "hybla_env e s \<longleftrightarrow> unat (srtt s) < 6400"

lemma hybla_recalc_param_ok:
  assumes "unat (srtt s) < 6400"
  shows "\<exists>t. hybla_recalc_param hybla_rtt0_default s = Some t \<and> priv_only s t \<and> unat (hy_rho (icsk_ca_priv t)) < 32 \<and>
    snd_cwnd_cents (icsk_ca_priv t) = snd_cwnd_cents (icsk_ca_priv s)"
proof -
  have "unat (srtt s) div 25 < 256" using assms by (simp add: div_less_iff_less_mult)
  then show ?thesis
    by (simp add: hybla_recalc_param_def msecs_to_jiffies_def Let_def unat_simps)
qed

lemma hybla_apply_ok:
  assumes "unat (snd_cwnd_cents (icsk_ca_priv s)) < 128" "wf_sock HYBLA_LIM s"
    and "slow \<Longrightarrow> snd_cwnd s < snd_ssthresh s"
  shows "window_step s (hybla_apply slow inc s)"
    and "unat (snd_cwnd_cents (icsk_ca_priv (hybla_apply slow inc s))) < 128"
    and "hy_rho (icsk_ca_priv (hybla_apply slow inc s)) = hy_rho (icsk_ca_priv s)"
proof -
  have s: "0 < unat (snd_cwnd s)" "unat (snd_cwnd s) < HYBLA_LIM" "1 < unat (snd_cwnd_clamp s)"
    using assms(2) by (simp_all add: wf_sock_def word_less_nat_alt)
  let ?c = "snd_cwnd_cents (icsk_ca_priv s) + inc mod 128"
  define w where "w = snd_cwnd s + drop_bit 7 inc + of_nat (unat ?c div 128)"
  have m: "unat (inc mod 128) < 128" by (simp add: unat_mod_distrib)
  then have "unat ?c < 256" using assms(1) by (subst unat_add_bounded) simp_all
  then have k: "unat ?c div 128 \<le> 1" by linarith
  have "unat inc div 128 \<le> 33554431" using u32_bound [of inc] by linarith
  then have i: "unat (drop_bit 7 inc) \<le> 33554431" by (simp add: unat_drop_bit)
  have "unat (snd_cwnd s + drop_bit 7 inc) = unat (snd_cwnd s) + unat (drop_bit 7 inc)"
    using s(2) i by (intro unat_add_bounded) simp
  moreover from this have "unat w = unat (snd_cwnd s + drop_bit 7 inc) + unat ?c div 128"
    unfolding w_def using k s(2) i by (subst unat_add_bounded) (simp_all add: unat_of_nat)
  ultimately have w: "unat (snd_cwnd s) \<le> unat w" by linarith
  have pos: "0 < w" "0 < snd_cwnd_clamp s" "slow \<Longrightarrow> 0 < snd_ssthresh s"
    using w s assms(3) by (auto simp: word_less_nat_alt)
  have carry: "hybla_carry (snd_cwnd s + drop_bit 7 inc) c ?c = (w, if 128 \<le> ?c then 0 else c, ?c mod 128)" for c
    by (simp add: hybla_carry_eq w_def)
  show "window_step s (hybla_apply slow inc s)"
    using pos by (simp add: hybla_apply_def carry window_step_def le_max_iff_disj)
  show "unat (snd_cwnd_cents (icsk_ca_priv (hybla_apply slow inc s))) < 128"
    by (simp add: hybla_apply_def carry unat_mod_distrib)
  show "hy_rho (icsk_ca_priv (hybla_apply slow inc s)) = hy_rho (icsk_ca_priv s)"
    by (simp add: hybla_apply_def carry)
qed

lemma hybla_increment_ok:
  assumes "unat (hy_rho ca) < 32" "0 < snd_cwnd s"
  shows "\<exists>slow inc. hybla_increment ca s = Some (slow, inc) \<and> (slow \<longrightarrow> snd_cwnd s < snd_ssthresh s)"
proof -
  have "\<exists>f. hybla_fraction x = Some f" for x
    by (simp add: hybla_fraction_def hybla_fractions_def c_index_def)
  then obtain f where "hybla_fraction (hy_rho_3ls ca - push_bit 3 (hy_rho ca)) = Some f" by blast
  moreover have "snd_cwnd s \<noteq> 0" using assms(2) by auto
  ultimately show ?thesis using assms(1) by (auto simp: hybla_increment_def Let_def)
qed

lemma hybla_cong_avoid_ok:
  assumes "hybla_ok (icsk_ca_priv s)" "wf_sock HYBLA_LIM s" "hybla_env e s"
  shows "\<exists>t. hybla_cong_avoid hybla_rtt0_default e s ack rtt in_flight flag = Some t \<and> window_step s t \<and>
    hybla_ok (icsk_ca_priv t)"
proof -
  have srtt: "unat (srtt s) < 6400" using assms(3) by (simp add: hybla_env_def)
  obtain r where r: "hybla_recalc_param hybla_rtt0_default s = Some r" "priv_only s r"
      "unat (hy_rho (icsk_ca_priv r)) < 32" "unat (snd_cwnd_cents (icsk_ca_priv r)) < 128"
    using hybla_recalc_param_ok [OF srtt] assms(1) unfolding hybla_ok_def by auto
  then have "priv_only s (upd_priv f r)" for f by (auto elim!: priv_onlyE)
  then obtain s1 where s1: "(if srtt s < hy_minrtt (icsk_ca_priv s)
        then map_option (upd_priv (\<lambda>ca. ca\<lparr>hy_minrtt := srtt s\<rparr>)) (hybla_recalc_param hybla_rtt0_default s)
        else Some s) = Some s1" "priv_only s s1" "hybla_ok (icsk_ca_priv s1)"
    using r assms(1) by (cases "srtt s < hy_minrtt (icsk_ca_priv s)") (auto simp: hybla_ok_def)
  from s1(2) obtain p where p: "s1 = s\<lparr>icsk_ca_priv := p\<rparr>" by (rule priv_onlyE)
  have pos: "0 < snd_cwnd s1" "wf_sock HYBLA_LIM s1" "unat (srtt s1) < 6400"
    using assms(2) srtt by (simp_all add: p wf_sock_def)
  obtain t where t: "tcp_reno_cong_avoid e s1 ack rtt in_flight flag = Some t" "window_step s1 t"
      "icsk_ca_priv t = icsk_ca_priv s1"
    using tcp_reno_cong_avoid_step [OF pos(1)] by blast
  obtain s2 where s2: "(if hy_rho (icsk_ca_priv s1) = 0 then hybla_recalc_param hybla_rtt0_default s1 else Some s1) = Some s2"
      "priv_only s1 s2" "hybla_ok (icsk_ca_priv s2)"
    using hybla_recalc_param_ok [OF pos(3)] s1(3)
    by (cases "hy_rho (icsk_ca_priv s1) = 0") (auto simp: hybla_ok_def)
  from s2(2) obtain q where q: "s2 = s1\<lparr>icsk_ca_priv := q\<rparr>" by (rule priv_onlyE)
  have w2: "wf_sock HYBLA_LIM s2" "0 < snd_cwnd s2" using pos by (simp_all add: q)
  obtain slow inc where inc: "hybla_increment (icsk_ca_priv s2) s2 = Some (slow, inc)"
      "slow \<longrightarrow> snd_cwnd s2 < snd_ssthresh s2"
    using hybla_increment_ok [of "icsk_ca_priv s2" s2] s2(3) w2(2) by (auto simp: hybla_ok_def)
  have apply_ok: "window_step s (hybla_apply slow inc s2)" "hybla_ok (icsk_ca_priv (hybla_apply slow inc s2))"
    using hybla_apply_ok [OF _ w2(1), of slow inc] s2(3) inc(2) by (simp_all add: hybla_ok_def q p)
  have "window_step s s1" "window_step s t" using pos(1) t(2) by (simp_all add: p window_step_refl)
  then show ?thesis
    unfolding hybla_cong_avoid_def s1(1) Option.bind_lunit s2(1) using s1(3) t inc(1) apply_ok by simp
qed

interpretation hybla: cong_control "tcp_hybla hybla_rtt0_default" hybla_ok hybla_env HYBLA_LIM "\<lambda>_ _. True"
proof (unfold_locales, goal_cases)
  case (4 ini s e)
  let ?s = "upd_priv (\<lambda>ca. ca\<lparr>hy_rho := 0, hy_rho2 := 0, hy_rho_3ls := 0, hy_rho2_7ls := 0,
    snd_cwnd_cents := 0, hybla_en := 1\<rparr>) s\<lparr>snd_cwnd := 2, snd_cwnd_clamp := 65535\<rparr>"
  from 4 have "unat (srtt ?s) < 6400" by (simp add: hybla_env_def)
  from hybla_recalc_param_ok [OF this] 4 show ?case
    by (auto simp: tcp_hybla_def null_ops_def hybla_init_def hybla_ok_def Let_def)
next
  case (7 ca s e ack rtt in_flight flag)
  then show ?case
    using hybla_cong_avoid_ok [of s e ack rtt in_flight flag] by (auto simp: tcp_hybla_def null_ops_def)
next
  case (8 sth s e)
  then have "unat (snd_cwnd s) div 2 < 2147483648" unfolding wf_sock_def by linarith
  with 8 show ?case by (auto simp: tcp_hybla_def null_ops_def tcp_reno_ssthresh_def unat_simps)
next
  case (9 mc s)
  then have "mc = tcp_reno_min_cwnd" by (simp add: tcp_hybla_def null_ops_def)
  with 9 show ?case by (auto simp: tcp_reno_min_cwnd_def unat_simps)
next
  case (10 ss s e st)
  then show ?case by (auto simp: tcp_hybla_def null_ops_def hybla_state_def hybla_ok_def)
qed (auto simp: tcp_hybla_def null_ops_def hybla_env_def same_control_def touch_cwnd_def)

section \<open>Properties\<close>

text \<open>
  In every run of Hybla with its default reference time, given a smoothed round trip time below 800 ticks, whatever the order of acknowledgments, losses and timeouts, each
  call the simulator can make returns, the window and the threshold keep their bounds, the exponent of the shift stays below the width and the fraction of a segment below one segment (128).
\<close>

theorem hybla_run_safe:
  assumes "cc_reach (tcp_hybla hybla_rtt0_default) hybla_env HYBLA_LIM (\<lambda>_ _. True) s" and "hybla_env e s"
  shows "run_safe (tcp_hybla hybla_rtt0_default) e (\<lambda>_ _. True) s \<and>
    unat (hy_rho (icsk_ca_priv s)) < 32 \<and> unat (snd_cwnd_cents (icsk_ca_priv s)) < 128"
  using hybla.reach_run_safe [OF assms(1), of e] hybla.reach_priv_ok [OF assms(1)] assms(2) by (simp add: hybla_ok_def)

theorem hybla_run_safe_witness:
  "\<forall>(q :: hybla). \<exists>s. hybla_init hybla_rtt0_default sample_env (sample_sock q) = Some s \<and> run_safe (tcp_hybla hybla_rtt0_default) sample_env (\<lambda>_ _. True) s"
proof (intro allI)
  fix q :: hybla
  let ?s = "the (hybla_init hybla_rtt0_default sample_env (sample_sock q))"
  have "cc_reach (tcp_hybla hybla_rtt0_default) hybla_env HYBLA_LIM (\<lambda>_ _. True) ?s"
    by (rule sample_init [where f = "hybla_init hybla_rtt0_default" and q = q]) (simp_all add: tcp_hybla_def null_ops_def hybla_init_def hybla_recalc_param_def Let_def msecs_to_jiffies_def hybla_env_def unat_simps sample_sock_def wf_sock_def)
  then show "\<exists>s. hybla_init hybla_rtt0_default sample_env (sample_sock q) = Some s \<and> run_safe (tcp_hybla hybla_rtt0_default) sample_env (\<lambda>_ _. True) s"
    using hybla_run_safe [of ?s sample_env] by (intro exI [of _ ?s]) (simp add: tcp_hybla_def null_ops_def hybla_init_def hybla_recalc_param_def Let_def msecs_to_jiffies_def hybla_env_def unat_simps sample_sock_def)
qed

text \<open>
  The loop that carries whole segments out of the fraction, one per round, ends and equals a
  division by 128: the quotient is added to the window and the remainder is kept.
\<close>

theorem hybla_carry_division:
  "hybla_carry w c x = (w + of_nat (unat x div 128), if 128 \<le> x then 0 else c, x mod 128)"
  by (rule hybla_carry_eq)

text \<open>
  From a smoothed round trip time of 800 ticks on (800 ms, as the module takes them), with the default reference time of 25 ms, Hybla's \<^verbatim>\<open>rho\<close> is at least 32 and the
  shift \<^verbatim>\<open>1 << ca->rho\<close> is undefined: the first window update of a connection that is limited by its window and in slow start stops. The
  default threshold is far above the window of \<^verbatim>\<open>rho\<close> segments that \<^verbatim>\<open>init\<close> sets.
\<close>

theorem hybla_shift_overflows:
  assumes "6400 \<le> unat (srtt s)" "unat (srtt s) div 25 div 8 < unat (snd_ssthresh s)"
  shows "\<exists>t. hybla_init hybla_rtt0_default e s = Some t \<and> unat (hy_rho (icsk_ca_priv t)) = unat (srtt s) div 25 div 8 \<and>
    hybla_cong_avoid hybla_rtt0_default e t ack rtt (snd_cwnd t) flag = None"
proof -
  define r where "r = srtt s div 25"
  have ur: "unat r = unat (srtt s) div 25" by (simp add: r_def unat_div_word)
  then have "256 \<le> unat r" using assms(1) by linarith
  then have m: "max r 8 = r" by (simp add: max_def word_le_nat_alt)
  have rho: "unat (drop_bit 3 r) = unat (srtt s) div 25 div 8" by (simp add: unat_simps ur)
  then have big: "32 \<le> unat (drop_bit 3 r)" using \<open>256 \<le> unat r\<close> ur by linarith
  have lt: "drop_bit 3 r < snd_ssthresh s" using assms(2) rho by (simp add: word_less_nat_alt)
  have nz: "drop_bit 3 r \<noteq> 0" using big by auto
  obtain t where i: "hybla_init hybla_rtt0_default e s = Some t"
    and t: "hy_rho (icsk_ca_priv t) = drop_bit 3 r" "snd_cwnd t = drop_bit 3 r" "hy_minrtt (icsk_ca_priv t) = srtt t"
      "hybla_en (icsk_ca_priv t) = 1" "snd_ssthresh t = snd_ssthresh s"
    using m by (simp add: hybla_init_def hybla_recalc_param_def msecs_to_jiffies_def c_div_def Let_def flip: r_def)
  have "hybla_increment (icsk_ca_priv t) t = None"
    using lt big by (simp add: hybla_increment_def t c_shl_def)
  then have "hybla_cong_avoid hybla_rtt0_default e t ack rtt (snd_cwnd t) flag = None"
    using nz by (simp add: hybla_cong_avoid_def t tcp_is_cwnd_limited_def)
  then show ?thesis using i t(1) rho by (intro exI [of _ t]) simp
qed

theorem hybla_shift_overflows_witness:
  "\<forall>(q :: hybla). \<exists>t. hybla_init hybla_rtt0_default sample_env ((sample_sock q)\<lparr>srtt := 6400, snd_ssthresh := 50\<rparr>) = Some t \<and>
     hybla_cong_avoid hybla_rtt0_default sample_env t 0 0 (snd_cwnd t) 0 = None"
proof
  fix q :: hybla
  show "\<exists>t. hybla_init hybla_rtt0_default sample_env ((sample_sock q)\<lparr>srtt := 6400, snd_ssthresh := 50\<rparr>) = Some t \<and>
     hybla_cong_avoid hybla_rtt0_default sample_env t 0 0 (snd_cwnd t) 0 = None"
    using hybla_shift_overflows [of "(sample_sock q)\<lparr>srtt := 6400, snd_ssthresh := 50\<rparr>" sample_env 0 0 0] by auto
qed

end
