(* ===== verification/Tcp_Westwood.thy ===== *)
theory Tcp_Westwood
  imports Tcp_Reno
begin

text \<open>
  \<^verbatim>\<open>src/ns-2.34/tcp/linux/src/tcp_westwood.c\<close>: TCP Westwood+, which probes like Reno and sets the window
  after a loss from a bandwidth estimate. The filters and the accounting of acknowledged bytes are
  described by their bounds.
\<close>

section \<open>Data\<close>

record westwood =
  bw_ns_est :: u32
  bw_est :: u32
  rtt_win_sx :: u32
  ww_bk :: u32
  ww_snd_una :: u32
  cumul_ack :: u32
  accounted :: u32
  ww_rtt :: u32
  ww_rtt_min :: u32
  first_ack :: u8
  reset_rtt_min :: u8

abbreviation (input) TCP_WESTWOOD_RTT_MIN :: u32 where "TCP_WESTWOOD_RTT_MIN \<equiv> 50"
abbreviation (input) TCP_WESTWOOD_INIT_RTT :: u32 where "TCP_WESTWOOD_INIT_RTT \<equiv> 20000"

section \<open>Operations\<close>

definition tcp_westwood_init :: "kernel_env \<Rightarrow> westwood tcp_sock \<Rightarrow> westwood tcp_sock exec" where
  "tcp_westwood_init e sk = Some (upd_priv (\<lambda>w. w\<lparr>ww_bk := 0, bw_ns_est := 0, bw_est := 0, accounted := 0,
     cumul_ack := 0, reset_rtt_min := 1, ww_rtt_min := TCP_WESTWOOD_INIT_RTT, ww_rtt := TCP_WESTWOOD_INIT_RTT,
     rtt_win_sx := tcp_time_stamp e, ww_snd_una := snd_una sk, first_ack := 1\<rparr>) sk)"

definition westwood_do_filter :: "u32 \<Rightarrow> u32 \<Rightarrow> u32" where
  "westwood_do_filter a b = drop_bit 3 ((7 * a) + b)"

definition westwood_filter :: "westwood \<Rightarrow> u32 \<Rightarrow> westwood exec" where
  "westwood_filter w delta = do {
     s \<leftarrow> c_div (ww_bk w) delta;
     Some (if bw_ns_est w = 0 \<and> bw_est w = 0 then w\<lparr>bw_ns_est := s, bw_est := s\<rparr>
           else let ns = westwood_do_filter (bw_ns_est w) s
                in w\<lparr>bw_ns_est := ns, bw_est := westwood_do_filter (bw_est w) ns\<rparr>)
   }"

definition tcp_westwood_pkts_acked :: "kernel_env \<Rightarrow> westwood tcp_sock \<Rightarrow> u32 \<Rightarrow> s64 \<Rightarrow> westwood tcp_sock exec" where
  "tcp_westwood_pkts_acked e sk cnt last_ackt =
     Some (if cnt > 0 then upd_priv (\<lambda>w. w\<lparr>ww_rtt := drop_bit 3 (srtt sk)\<rparr>) sk else sk)"

text \<open>\<^verbatim>\<open>delta\<close> is signed, but the comparison with the unsigned maximum converts it.\<close>

definition westwood_update_window :: "kernel_env \<Rightarrow> westwood tcp_sock \<Rightarrow> westwood tcp_sock exec" where
  "westwood_update_window e sk =
     (let w = icsk_ca_priv sk;
          delta = tcp_time_stamp e - rtt_win_sx w;
          w = (if first_ack w \<noteq> 0 then w\<lparr>ww_snd_una := snd_una sk, first_ack := 0\<rparr> else w)
      in if ww_rtt w \<noteq> 0 \<and> delta > max (ww_rtt w) TCP_WESTWOOD_RTT_MIN then do {
           w \<leftarrow> westwood_filter w delta;
           Some (sk\<lparr>icsk_ca_priv := w\<lparr>ww_bk := 0, rtt_win_sx := tcp_time_stamp e\<rparr>\<rparr>)
         }
         else Some (sk\<lparr>icsk_ca_priv := w\<rparr>))"

definition update_rtt_min :: "westwood \<Rightarrow> westwood" where
  "update_rtt_min w =
     (if reset_rtt_min w \<noteq> 0 then w\<lparr>ww_rtt_min := ww_rtt w, reset_rtt_min := 0\<rparr>
      else w\<lparr>ww_rtt_min := min (ww_rtt w) (ww_rtt_min w)\<rparr>)"

definition westwood_fast_bw :: "kernel_env \<Rightarrow> westwood tcp_sock \<Rightarrow> westwood tcp_sock exec" where
  "westwood_fast_bw e sk = do {
     sk \<leftarrow> westwood_update_window e sk;
     let w = icsk_ca_priv sk;
     let w = w\<lparr>ww_bk := ww_bk w + (snd_una sk - ww_snd_una w), ww_snd_una := snd_una sk\<rparr>;
     Some (sk\<lparr>icsk_ca_priv := update_rtt_min w\<rparr>)
   }"

definition westwood_acked_count :: "westwood tcp_sock \<Rightarrow> u32 \<times> westwood" where
  "westwood_acked_count tp =
     (let w = icsk_ca_priv tp;
          w = w\<lparr>cumul_ack := snd_una tp - ww_snd_una w\<rparr>;
          w = (if cumul_ack w = 0
               then w\<lparr>accounted := accounted w + mss_cache tp, cumul_ack := mss_cache tp\<rparr> else w);
          w = (if cumul_ack w > mss_cache tp then
                 if accounted w \<ge> cumul_ack w
                 then w\<lparr>accounted := accounted w - cumul_ack w, cumul_ack := mss_cache tp\<rparr>
                 else w\<lparr>cumul_ack := cumul_ack w - accounted w, accounted := 0\<rparr>
               else w);
          w = w\<lparr>ww_snd_una := snd_una tp\<rparr>
      in (cumul_ack w, w))"

definition tcp_westwood_bw_rttmin :: "westwood tcp_sock \<Rightarrow> u32 exec" where
  "tcp_westwood_bw_rttmin sk = do {
     q \<leftarrow> c_div (bw_est (icsk_ca_priv sk) * ww_rtt_min (icsk_ca_priv sk)) (mss_cache sk);
     Some (max q 2)
   }"

definition tcp_westwood_event :: "kernel_env \<Rightarrow> westwood tcp_sock \<Rightarrow> tcp_ca_event \<Rightarrow> westwood tcp_sock exec" where
  "tcp_westwood_event e sk event =
     (case event of
        CA_EVENT_FAST_ACK \<Rightarrow> westwood_fast_bw e sk
      | CA_EVENT_COMPLETE_CWR \<Rightarrow> do {
          v \<leftarrow> tcp_westwood_bw_rttmin sk;
          Some (sk\<lparr>snd_cwnd := v, snd_ssthresh := v\<rparr>)
        }
      | CA_EVENT_FRTO \<Rightarrow> do {
          v \<leftarrow> tcp_westwood_bw_rttmin sk;
          Some (upd_priv (\<lambda>w. w\<lparr>reset_rtt_min := 1\<rparr>) (sk\<lparr>snd_ssthresh := v\<rparr>))
        }
      | CA_EVENT_SLOW_ACK \<Rightarrow> do {
          sk \<leftarrow> westwood_update_window e sk;
          let (n, w) = westwood_acked_count sk;
          Some (sk\<lparr>icsk_ca_priv := update_rtt_min (w\<lparr>ww_bk := ww_bk w + n\<rparr>)\<rparr>)
        }
      | _ \<Rightarrow> Some sk)"

definition tcp_westwood :: "westwood tcp_congestion_ops" where
  "tcp_westwood = (null_ops ''westwood'')\<lparr>ca_init := Some tcp_westwood_init, ca_ssthresh := Some tcp_reno_ssthresh,
     ca_cong_avoid := Some tcp_reno_cong_avoid, ca_min_cwnd := Some tcp_westwood_bw_rttmin,
     ca_cwnd_event := Some tcp_westwood_event, ca_pkts_acked := Some tcp_westwood_pkts_acked\<rparr>"

section \<open>Lemmas\<close>

text \<open>Without overflow the filter moves towards the sample and never past it.\<close>

lemma westwood_do_filter_between:
  assumes "7 * unat a + unat b < 4294967296"
  shows "unat (westwood_do_filter a b) = (7 * unat a + unat b) div 8"
    and "min a b \<le> westwood_do_filter a b" and "westwood_do_filter a b \<le> max a b"
proof -
  have "unat (7 * a) = 7 * unat a" using assms by (subst unat_mult_bounded) simp_all
  then have "unat (7 * a + b) = 7 * unat a + unat b" using assms by (subst unat_add_bounded) simp_all
  then show eq: "unat (westwood_do_filter a b) = (7 * unat a + unat b) div 8"
    by (simp add: westwood_do_filter_def unat_drop_bit)
  show "min a b \<le> westwood_do_filter a b" "westwood_do_filter a b \<le> max a b"
    unfolding word_le_nat_alt unat_max unat_min eq by linarith+
qed

text \<open>
  The window passed more than 50 ticks when a sample is taken, so the division by its length is
  defined on every event.
\<close>

lemma westwood_update_window_ok:
  "\<exists>t. westwood_update_window e s = Some t \<and> priv_only s t"
proof -
  have "delta > max r TCP_WESTWOOD_RTT_MIN \<Longrightarrow> delta \<noteq> 0" for delta r :: u32 by auto
  then show ?thesis
    by (auto simp: westwood_update_window_def westwood_filter_def Let_def c_div_def)
qed

text \<open>
  The bytes counted for one acknowledgment that moves by \<open>d\<close> bytes: a duplicate counts one segment
  and is remembered, a larger step gives back the segments already counted, and no step counts
  more than it covers.
\<close>

lemma westwood_acked_count_bound:
  assumes "westwood_acked_count s = (n, w)"
  defines "d \<equiv> snd_una s - ww_snd_una (icsk_ca_priv s)"
  shows "n \<le> max d (mss_cache s)"
    and "d \<noteq> 0 \<Longrightarrow> accounted w \<le> accounted (icsk_ca_priv s)"
    and "mss_cache s < d \<Longrightarrow>
      unat n + (unat (accounted (icsk_ca_priv s)) - unat (accounted w)) =
        (if d \<le> accounted (icsk_ca_priv s) then unat d + unat (mss_cache s) else unat d)"
  using assms(1) unfolding westwood_acked_count_def Let_def d_def [symmetric]
  by (auto simp: unat_simps unat_sub split: if_splits)

interpretation westwood: cong_control tcp_westwood "\<lambda>_. True" "\<lambda>_ _. True" 4294967296 "\<lambda>_ _. True"
proof (unfold_locales, goal_cases)
  case (4 ini s e)
  then show ?case by (auto simp: tcp_westwood_def null_ops_def tcp_westwood_init_def)
next
  case (7 ca s e ack rtt in_flight flag)
  then show ?case
    using tcp_reno_cong_avoid_step [of s e ack rtt in_flight flag]
    by (auto simp: tcp_westwood_def null_ops_def wf_sock_def)
next
  case (8 sth s e)
  then show ?case by (auto simp: tcp_westwood_def null_ops_def tcp_reno_ssthresh_def)
next
  case (9 mc s)
  then have "mc = tcp_westwood_bw_rttmin" "mss_cache s \<noteq> 0"
    by (auto simp: tcp_westwood_def null_ops_def wf_sock_def)
  then show ?case by (auto simp: tcp_westwood_bw_rttmin_def less_max_iff_disj)
next
  case (11 ce s e ev)
  then show ?case
    using westwood_update_window_ok [of e s]
    by (auto simp: tcp_westwood_def null_ops_def tcp_westwood_event_def westwood_fast_bw_def Let_def
        split: prod.splits elim!: priv_onlyE)
next
  case (12 pa s e n last_ackt)
  then show ?case by (auto simp: tcp_westwood_def null_ops_def tcp_westwood_pkts_acked_def wf_sock_def)
qed (auto simp: tcp_westwood_def null_ops_def)

section \<open>Properties\<close>

text \<open>
  In every run of Westwood+ whatever the order of acknowledgments, losses and timeouts, each
  call the simulator can make returns, the window and the threshold keep their bounds.
\<close>

theorem westwood_run_safe:
  assumes "cc_reach tcp_westwood (\<lambda>_ _. True) 4294967296 (\<lambda>_ _. True) s"
  shows "run_safe tcp_westwood e (\<lambda>_ _. True) s"
  using westwood.reach_run_safe [OF assms(1), of e] by simp

theorem westwood_run_safe_witness:
  "\<forall>(q :: westwood). \<exists>s. tcp_westwood_init sample_env (sample_sock q) = Some s \<and> run_safe tcp_westwood sample_env (\<lambda>_ _. True) s"
proof (intro allI)
  fix q :: westwood
  let ?s = "the (tcp_westwood_init sample_env (sample_sock q))"
  have "cc_reach tcp_westwood (\<lambda>_ _. True) 4294967296 (\<lambda>_ _. True) ?s"
    by (rule sample_init [where f = "tcp_westwood_init" and q = q]) (simp_all add: tcp_westwood_def null_ops_def tcp_westwood_init_def sample_sock_def wf_sock_def)
  then show "\<exists>s. tcp_westwood_init sample_env (sample_sock q) = Some s \<and> run_safe tcp_westwood sample_env (\<lambda>_ _. True) s"
    using westwood_run_safe [of ?s sample_env] by (intro exI [of _ ?s]) (simp add: tcp_westwood_def null_ops_def tcp_westwood_init_def sample_sock_def)
qed

text \<open>
  Westwood's low-pass filter: where the sum fits 32 bits the result is the rounded down weighted
  mean and lies between the old estimate and the sample.
\<close>

theorem westwood_filter_mean:
  assumes "7 * unat a + unat b < 4294967296"
  shows "unat (westwood_do_filter a b) = (7 * unat a + unat b) div 8 \<and>
    min a b \<le> westwood_do_filter a b \<and> westwood_do_filter a b \<le> max a b"
  using westwood_do_filter_between [OF assms] by blast

theorem westwood_filter_mean_witness: "unat (westwood_do_filter 800 1600) = 900"
  using westwood_filter_mean [of 800 1600] by simp

end
