(* ===== verification/Tcp_Illinois.thy ===== *)
theory Tcp_Illinois
  imports Tcp_Reno
begin

text \<open>
  \<^verbatim>\<open>src/ns-2.34/tcp/linux/src/tcp_illinois.c\<close>: TCP-Illinois, which adapts the increase factor \<^verbatim>\<open>alpha\<close> and the
  decrease factor \<^verbatim>\<open>beta\<close> to the queueing delay. The invariant relates the sums of the current round
  trip to the extremes seen so far; it implies that the average delay is at most the maximum
  delay, that no product in \<open>alpha\<close> or \<open>beta\<close> overflows, and that both factors stay within the
  ranges the macros of the source declare.
\<close>

section \<open>Data\<close>

abbreviation (input) IL_ALPHA_MIN :: u32 where "IL_ALPHA_MIN \<equiv> 38"
abbreviation (input) IL_ALPHA_MAX :: u32 where "IL_ALPHA_MAX \<equiv> 1280"
abbreviation (input) IL_ALPHA_BASE :: u32 where "IL_ALPHA_BASE \<equiv> 128"
abbreviation (input) IL_RTT_MAX :: u32 where "IL_RTT_MAX \<equiv> 3355443"
abbreviation (input) IL_BETA_MIN :: u32 where "IL_BETA_MIN \<equiv> 8"
abbreviation (input) IL_BETA_MAX :: u32 where "IL_BETA_MAX \<equiv> 32"
abbreviation (input) IL_BETA_BASE :: u32 where "IL_BETA_BASE \<equiv> 32"

record illinois_params =
  win_thresh :: c_int
  theta :: c_int

definition illinois_defaults :: illinois_params where
  "illinois_defaults = \<lparr>win_thresh = 15, theta = 5\<rparr>"

record illinois =
  il_sum_rtt :: u64
  il_cnt_rtt :: u16
  il_base_rtt :: u32
  il_max_rtt :: u32
  il_end_seq :: u32
  il_alpha :: u32
  il_beta :: u32
  il_acked :: u16
  il_rtt_above :: u8
  il_rtt_low :: u8

section \<open>Operations\<close>

definition rtt_reset :: "illinois tcp_sock \<Rightarrow> illinois tcp_sock" where
  "rtt_reset tp = upd_priv (\<lambda>ca. ca\<lparr>il_end_seq := snd_nxt tp, il_cnt_rtt := 0, il_sum_rtt := 0\<rparr>) tp"

definition tcp_illinois_init :: "kernel_env \<Rightarrow> illinois tcp_sock \<Rightarrow> illinois tcp_sock exec" where
  "tcp_illinois_init e sk = Some (rtt_reset (upd_priv (\<lambda>ca. ca\<lparr>il_alpha := IL_ALPHA_MAX, il_beta := IL_BETA_BASE,
     il_base_rtt := 0x7fffffff, il_max_rtt := 0, il_acked := 0, il_rtt_low := 0, il_rtt_above := 0\<rparr>) sk))"

definition tcp_illinois_acked :: "kernel_env \<Rightarrow> illinois tcp_sock \<Rightarrow> u32 \<Rightarrow> s64 \<Rightarrow> illinois tcp_sock exec" where
  "tcp_illinois_acked e sk pkts_acked last_ackt =
     (let ca = (icsk_ca_priv sk)\<lparr>il_acked := pkts_acked\<rparr> in
      if ktime_equal last_ackt net_invalid_timestamp then Some (sk\<lparr>icsk_ca_priv := ca\<rparr>)
      else
        let rtt = ack_age_us e last_ackt;
            rtt = (if rtt > IL_RTT_MAX then IL_RTT_MAX else rtt);
            ca = (if il_base_rtt ca > rtt then ca\<lparr>il_base_rtt := rtt\<rparr> else ca);
            ca = (if il_max_rtt ca < rtt then ca\<lparr>il_max_rtt := rtt\<rparr> else ca);
            ca = ca\<lparr>il_cnt_rtt := il_cnt_rtt ca + 1, il_sum_rtt := il_sum_rtt ca + ucast rtt\<rparr>
        in Some (sk\<lparr>icsk_ca_priv := ca\<rparr>))"

definition max_delay :: "illinois \<Rightarrow> u32" where
  "max_delay ca = il_max_rtt ca - il_base_rtt ca"

definition avg_delay :: "illinois \<Rightarrow> u32 exec" where
  "avg_delay ca = do { (t, _) \<leftarrow> do_div (il_sum_rtt ca) (il_cnt_rtt ca);
                       Some (ucast (t - ucast (il_base_rtt ca))) }"

definition illinois_alpha :: "illinois_params \<Rightarrow> illinois \<Rightarrow> u32 \<Rightarrow> u32 \<Rightarrow> (u32 \<times> illinois) exec" where
  "illinois_alpha m ca da dm =
     (let d1 = dm div 100 in
      if da \<le> d1 then
        if il_rtt_above ca = 0 then Some (IL_ALPHA_MAX, ca)
        else let ca = ca\<lparr>il_rtt_low := il_rtt_low ca + 1\<rparr> in
             if uint (il_rtt_low ca) < sint (theta m) then Some (il_alpha ca, ca)
             else Some (IL_ALPHA_MAX, ca\<lparr>il_rtt_low := 0, il_rtt_above := 0\<rparr>)
      else do {
        let ca = ca\<lparr>il_rtt_above := 1\<rparr>;
        let dm = dm - d1;
        let da = da - d1;
        q \<leftarrow> c_div (dm * IL_ALPHA_MAX) (dm + (da * (IL_ALPHA_MAX - IL_ALPHA_MIN)) div IL_ALPHA_MIN);
        Some (q, ca)
      })"

definition illinois_beta :: "u32 \<Rightarrow> u32 \<Rightarrow> u32 exec" where
  "illinois_beta da dm =
     (let d2 = dm div 10 in
      if da \<le> d2 then Some IL_BETA_MIN
      else let d3 = (8 * dm) div 10 in
           if da \<ge> d3 \<or> d3 \<le> d2 then Some IL_BETA_MAX
           else c_div (IL_BETA_MIN * d3 - IL_BETA_MAX * d2 + (IL_BETA_MAX - IL_BETA_MIN) * da) (d3 - d2))"

definition update_params :: "illinois_params \<Rightarrow> illinois tcp_sock \<Rightarrow> illinois tcp_sock exec" where
  "update_params m tp =
     (let ca = icsk_ca_priv tp in do {
        ca \<leftarrow> (if snd_cwnd tp < win_thresh m then Some (ca\<lparr>il_alpha := IL_ALPHA_BASE, il_beta := IL_BETA_BASE\<rparr>)
               else if il_cnt_rtt ca > 0 then do {
                 let dm = max_delay ca;
                 da \<leftarrow> avg_delay ca;
                 (a, ca) \<leftarrow> illinois_alpha m ca da dm;
                 b \<leftarrow> illinois_beta da dm;
                 Some (ca\<lparr>il_alpha := a, il_beta := b\<rparr>)
               }
               else Some ca);
        Some (rtt_reset (tp\<lparr>icsk_ca_priv := ca\<rparr>))
      })"

definition tcp_illinois_state :: "kernel_env \<Rightarrow> illinois tcp_sock \<Rightarrow> u8 \<Rightarrow> illinois tcp_sock exec" where
  "tcp_illinois_state e sk new_state =
     Some (if new_state = TCP_CA_Loss
           then rtt_reset (upd_priv (\<lambda>ca. ca\<lparr>il_alpha := IL_ALPHA_BASE, il_beta := IL_BETA_BASE,
                                           il_rtt_low := 0, il_rtt_above := 0\<rparr>) sk)
           else sk)"

definition illinois_increase :: "kernel_env \<Rightarrow> illinois tcp_sock \<Rightarrow> illinois tcp_sock exec" where
  "illinois_increase e tp =
     (if snd_cwnd tp \<le> snd_ssthresh tp then tcp_slow_start e tp
      else do {
        let ca = icsk_ca_priv tp;
        let cnt = snd_cwnd_cnt tp + il_acked ca;
        let tp = tp\<lparr>snd_cwnd_cnt := cnt, icsk_ca_priv := ca\<lparr>il_acked := 1\<rparr>\<rparr>;
        let delta = drop_bit 7 (cnt * il_alpha ca);
        if delta \<ge> snd_cwnd tp then do {
          q \<leftarrow> c_div delta (snd_cwnd tp);
          Some (tp\<lparr>snd_cwnd := min (snd_cwnd tp + q) (snd_cwnd_clamp tp), snd_cwnd_cnt := 0\<rparr>)
        }
        else Some tp
      })"

definition tcp_illinois_cong_avoid ::
  "illinois_params \<Rightarrow> kernel_env \<Rightarrow> illinois tcp_sock \<Rightarrow> u32 \<Rightarrow> u32 \<Rightarrow> u32 \<Rightarrow> c_int \<Rightarrow> illinois tcp_sock exec" where
  "tcp_illinois_cong_avoid m e tp ack rtt in_flight flag = do {
     tp \<leftarrow> (if after ack (il_end_seq (icsk_ca_priv tp)) then update_params m tp else Some tp);
     if \<not> tcp_is_cwnd_limited tp in_flight then Some tp else illinois_increase e tp
   }"

definition tcp_illinois_ssthresh :: "kernel_env \<Rightarrow> illinois tcp_sock \<Rightarrow> (u32 \<times> illinois tcp_sock) exec" where
  "tcp_illinois_ssthresh e tp =
     Some (max (drop_bit 6 (snd_cwnd tp * il_beta (icsk_ca_priv tp))) 2, tp)"

definition tcp_illinois :: "illinois_params \<Rightarrow> illinois tcp_congestion_ops" where
  "tcp_illinois m = (null_ops ''illinois'')\<lparr>ca_flags := TCP_CONG_RTT_STAMP, ca_init := Some tcp_illinois_init,
     ca_ssthresh := Some tcp_illinois_ssthresh, ca_min_cwnd := Some tcp_reno_min_cwnd,
     ca_cong_avoid := Some (tcp_illinois_cong_avoid m), ca_set_state := Some tcp_illinois_state,
     ca_pkts_acked := Some tcp_illinois_acked\<rparr>"

section \<open>The factors\<close>

text \<open>The increase factor: with delays within the bound no product overflows, and the result is in range.\<close>

lemma alpha_quotient:
  fixes da dm :: nat
  assumes "0 < da" "da \<le> dm"
  shows "38 \<le> dm * 1280 div (dm + da * 1242 div 38)" "dm * 1280 div (dm + da * 1242 div 38) \<le> 1280"
proof -
  define q where "q = da * 1242 div 38"
  have q: "38 * q \<le> da * 1242" unfolding q_def by (rule times_div_less_eq_dividend)
  have pos: "0 < dm + q" using assms by simp
  have "38 * (dm + q) = 38 * dm + 38 * q" by (rule distrib_left)
  also have "\<dots> \<le> 38 * dm + da * 1242" using q by (rule add_left_mono)
  also have "\<dots> \<le> 38 * dm + dm * 1242" using assms(2) by simp
  finally have "38 * (dm + q) \<le> dm * 1280" by simp
  then show "38 \<le> dm * 1280 div (dm + da * 1242 div 38)"
    using pos by (simp add: less_eq_div_iff_mult_less_eq flip: q_def)
  have "dm * 1280 < 1281 * (dm + q)" using pos by simp
  then have "dm * 1280 div (dm + q) < 1281" by (rule less_mult_imp_div_less)
  then show "dm * 1280 div (dm + da * 1242 div 38) \<le> 1280" by (simp flip: q_def)
qed

lemma alpha_word:
  fixes da dm :: u32
  assumes "0 < unat da" "unat da \<le> unat dm" "unat dm \<le> 3355443"
  shows "\<exists>a. c_div (dm * 1280) (dm + (da * 1242) div 38) = Some a \<and> IL_ALPHA_MIN \<le> a \<and> a \<le> IL_ALPHA_MAX"
proof -
  have p1: "unat (dm * 1280) = unat dm * 1280" using assms by (subst unat_mult_bounded) simp_all
  have p2: "unat (da * 1242) = unat da * 1242" using assms by (subst unat_mult_bounded) simp_all
  have "unat dm + unat da * 1242 div 38 < 4294967296" using assms by linarith
  then have den: "unat (dm + (da * 1242) div 38) = unat dm + unat da * 1242 div 38"
    by (subst unat_add_bounded) (simp_all add: unat_div_word p2)
  then have nz: "dm + (da * 1242) div 38 \<noteq> 0" using assms by auto
  show ?thesis
    using alpha_quotient [OF assms(1,2)] nz by (simp add: word_le_nat_alt unat_div_word p1 den)
qed

lemma illinois_alpha_range:
  assumes "da \<le> dm" "dm \<le> IL_RTT_MAX" "IL_ALPHA_MIN \<le> il_alpha ca" "il_alpha ca \<le> IL_ALPHA_MAX"
  shows "\<exists>a ca'. illinois_alpha m ca da dm = Some (a, ca') \<and> il_max_rtt ca' = il_max_rtt ca \<and>
    IL_ALPHA_MIN \<le> a \<and> a \<le> IL_ALPHA_MAX"
proof (cases "da \<le> dm div 100")
  case True
  then show ?thesis using assms(3,4) by (simp add: illinois_alpha_def Let_def)
next
  case False
  have n: "unat da \<le> unat dm" "unat dm \<le> 3355443" "unat dm div 100 < unat da" "unat dm div 100 \<le> unat dm"
    using assms False by (simp_all add: unat_simps)
  have da: "unat (da - dm div 100) = unat da - unat dm div 100"
    and dm: "unat (dm - dm div 100) = unat dm - unat dm div 100"
    using n by (simp_all add: unat_sub unat_simps)
  have "0 < unat (da - dm div 100)" "unat (da - dm div 100) \<le> unat (dm - dm div 100)"
    "unat (dm - dm div 100) \<le> 3355443"
    using n unfolding da dm by linarith+
  from alpha_word [OF this] obtain a where
    a: "c_div ((dm - dm div 100) * 1280) ((dm - dm div 100) + ((da - dm div 100) * 1242) div 38) = Some a"
      "IL_ALPHA_MIN \<le> a" "a \<le> IL_ALPHA_MAX"
    by blast
  have "illinois_alpha m ca da dm = Some (a, ca\<lparr>il_rtt_above := 1\<rparr>)"
    using False a(1) unfolding illinois_alpha_def Let_def by simp
  then show ?thesis using a(2,3) by simp
qed

text \<open>The decrease factor: the intermediate difference may wrap, the sum does not.\<close>

lemma beta_word:
  fixes d2 da d3 :: u32
  assumes "unat d2 < unat da" "unat da < unat d3" "unat d3 \<le> 2684354"
  shows "\<exists>b. c_div (8 * d3 - 32 * d2 + 24 * da) (d3 - d2) = Some b \<and> IL_BETA_MIN \<le> b \<and> b \<le> IL_BETA_MAX"
proof -
  let ?x = "unat d2" and ?y = "unat da" and ?z = "unat d3"
  have z8: "unat (8 * d3) = 8 * ?z" using assms by (subst unat_mult_bounded) simp_all
  have y24: "unat (24 * da) = 24 * ?y" using assms by (subst unat_mult_bounded) simp_all
  have x32: "unat (32 * d2) = 32 * ?x" using assms by (subst unat_mult_bounded) simp_all
  have s: "unat (8 * d3 + 24 * da) = 8 * ?z + 24 * ?y"
    using assms by (subst unat_add_bounded) (simp_all add: z8 y24)
  have le: "32 * d2 \<le> 8 * d3 + 24 * da" using assms by (simp add: word_le_nat_alt x32 s)
  have num: "unat (8 * d3 - 32 * d2 + 24 * da) = 8 * ?z + 24 * ?y - 32 * ?x"
  proof -
    have "8 * d3 - 32 * d2 + 24 * da = 8 * d3 + 24 * da - 32 * d2" by simp
    then show ?thesis using unat_sub [OF le] by (simp only: x32 s)
  qed
  have den: "unat (d3 - d2) = ?z - ?x" using assms by (simp add: unat_sub word_le_nat_alt)
  then have nz: "d3 - d2 \<noteq> 0" using assms by auto
  have "8 \<le> (8 * ?z + 24 * ?y - 32 * ?x) div (?z - ?x)"
    using assms by (simp add: less_eq_div_iff_mult_less_eq)
  moreover have "(8 * ?z + 24 * ?y - 32 * ?x) div (?z - ?x) \<le> 32 * (?z - ?x) div (?z - ?x)"
    using assms by (intro div_le_mono) simp
  ultimately show ?thesis
    using nz assms by (simp add: word_le_nat_alt unat_div_word num den)
qed

lemma illinois_beta_range:
  assumes "dm \<le> IL_RTT_MAX"
  shows "\<exists>b. illinois_beta da dm = Some b \<and> IL_BETA_MIN \<le> b \<and> b \<le> IL_BETA_MAX"
proof (cases "da \<le> dm div 10 \<or> da \<ge> (8 * dm) div 10 \<or> (8 * dm) div 10 \<le> dm div 10")
  case True
  then show ?thesis by (auto simp: illinois_beta_def Let_def)
next
  case False
  have m: "unat dm \<le> 3355443" using assms by (simp add: word_le_nat_alt)
  have "unat (8 * dm) = 8 * unat dm" using m by (subst unat_mult_bounded) simp_all
  then have d3: "unat ((8 * dm) div 10) \<le> 2684354" using m by (simp add: unat_div_word)
  from beta_word [OF _ _ d3, of "dm div 10" da] False obtain b where
    "c_div (8 * ((8 * dm) div 10) - 32 * (dm div 10) + 24 * da) ((8 * dm) div 10 - dm div 10) = Some b"
    "IL_BETA_MIN \<le> b" "b \<le> IL_BETA_MAX"
    by (auto simp: word_less_nat_alt word_le_nat_alt not_le)
  then show ?thesis using False unfolding illinois_beta_def Let_def by simp
qed

section \<open>The contract\<close>

text \<open>
  The sums of the current round trip lie between the extremes; an acknowledgment may only be
  counted while the counter has room.
\<close>

definition illinois_ok :: "illinois \<Rightarrow> bool" where
  "illinois_ok ca \<longleftrightarrow>
     unat (il_cnt_rtt ca) * unat (il_base_rtt ca) \<le> unat (il_sum_rtt ca) \<and>
     unat (il_sum_rtt ca) \<le> unat (il_cnt_rtt ca) * unat (il_max_rtt ca) \<and>
     il_max_rtt ca \<le> IL_RTT_MAX \<and>
     IL_ALPHA_MIN \<le> il_alpha ca \<and> il_alpha ca \<le> IL_ALPHA_MAX \<and>
     IL_BETA_MIN \<le> il_beta ca \<and> il_beta ca \<le> IL_BETA_MAX"

definition illinois_ack :: "illinois \<Rightarrow> u32 \<Rightarrow> bool" where
  "illinois_ack ca n \<longleftrightarrow> il_cnt_rtt ca + 1 \<noteq> 0"

lemma illinois_ok_reset [simp]:
  "illinois_ok (ca\<lparr>il_cnt_rtt := 0, il_sum_rtt := 0\<rparr>) \<longleftrightarrow> il_max_rtt ca \<le> IL_RTT_MAX \<and>
     IL_ALPHA_MIN \<le> il_alpha ca \<and> il_alpha ca \<le> IL_ALPHA_MAX \<and>
     IL_BETA_MIN \<le> il_beta ca \<and> il_beta ca \<le> IL_BETA_MAX"
  by (simp add: illinois_ok_def)

lemma avg_delay_le_max:
  assumes "illinois_ok ca" "0 < il_cnt_rtt ca"
  shows "\<exists>da. avg_delay ca = Some da \<and> da \<le> max_delay ca \<and> max_delay ca \<le> IL_RTT_MAX"
proof -
  let ?c = "unat (il_cnt_rtt ca)" and ?b = "unat (il_base_rtt ca)" and ?m = "unat (il_max_rtt ca)"
    and ?s = "unat (il_sum_rtt ca)"
  have c: "0 < ?c" using assms(2) by (simp add: word_less_nat_alt)
  have s: "?c * ?b \<le> ?s" "?s \<le> ?c * ?m" "?m \<le> 3355443"
    using assms(1) by (simp_all add: illinois_ok_def word_le_nat_alt)
  have lo: "?b \<le> ?s div ?c" using s(1) c by (simp add: less_eq_div_iff_mult_less_eq mult.commute)
  have "?s div ?c \<le> ?c * ?m div ?c" using s(2) by (rule div_le_mono)
  then have hi: "?s div ?c \<le> ?m" using c by simp
  have "il_cnt_rtt ca \<noteq> 0" using assms(2) by auto
  then obtain t r where t: "do_div (il_sum_rtt ca) (il_cnt_rtt ca) = Some (t, r)"
    by (simp add: do_div_Some)
  then have ut: "unat t = ?s div ?c" by (rule unat_fst_do_div)
  have "unat (t - ucast (il_base_rtt ca)) = ?s div ?c - ?b"
    using lo by (subst unat_sub) (simp_all add: word_le_nat_alt unat_ucast_32_64 ut)
  then have "unat (ucast (t - ucast (il_base_rtt ca)) :: u32) = ?s div ?c - ?b"
    using hi s(3) by (simp add: unat_ucast_64_32)
  moreover have "unat (max_delay ca) = ?m - ?b"
    using lo hi by (simp add: max_delay_def unat_sub word_le_nat_alt)
  moreover have "?s div ?c - ?b \<le> ?m - ?b" "?m - ?b \<le> 3355443" using hi s(3) by linarith+
  ultimately show ?thesis using t by (simp add: avg_delay_def word_le_nat_alt)
qed

lemma update_params_ok:
  assumes "illinois_ok (icsk_ca_priv s)"
  shows "\<exists>t. update_params m s = Some t \<and> priv_only s t \<and> illinois_ok (icsk_ca_priv t)"
proof -
  let ?ca = "icsk_ca_priv s"
  have r: "il_max_rtt ?ca \<le> IL_RTT_MAX" "IL_ALPHA_MIN \<le> il_alpha ?ca" "il_alpha ?ca \<le> IL_ALPHA_MAX"
    "IL_BETA_MIN \<le> il_beta ?ca" "il_beta ?ca \<le> IL_BETA_MAX"
    using assms by (simp_all add: illinois_ok_def)
  have base: "(38 :: u32) \<le> 128" "(128 :: u32) \<le> 1280" by simp_all
  show ?thesis
  proof (cases "\<not> snd_cwnd s < win_thresh m \<and> 0 < il_cnt_rtt ?ca")
    case True
    then obtain da where da: "avg_delay ?ca = Some da" "da \<le> max_delay ?ca" "max_delay ?ca \<le> IL_RTT_MAX"
      using avg_delay_le_max [OF assms] by blast
    obtain a ca' where a: "illinois_alpha m ?ca da (max_delay ?ca) = Some (a, ca')" "il_max_rtt ca' = il_max_rtt ?ca"
        "IL_ALPHA_MIN \<le> a" "a \<le> IL_ALPHA_MAX"
      using illinois_alpha_range [OF da(2,3) r(2,3)] by blast
    obtain b where b: "illinois_beta da (max_delay ?ca) = Some b" "IL_BETA_MIN \<le> b" "b \<le> IL_BETA_MAX"
      using illinois_beta_range [OF da(3)] by blast
    show ?thesis
      using True da(1) a b r(1) by (simp add: update_params_def rtt_reset_def Let_def illinois_ok_def)
  next
    case False
    then show ?thesis
      using r base by (auto simp: update_params_def rtt_reset_def Let_def illinois_ok_def)
  qed
qed

lemma illinois_increase_ok:
  assumes "illinois_ok (icsk_ca_priv s)" "0 < snd_cwnd s" "1 < snd_cwnd_clamp s"
  shows "\<exists>t. illinois_increase e s = Some t \<and> window_step s t \<and> illinois_ok (icsk_ca_priv t)"
proof -
  obtain u where u: "tcp_slow_start e s = Some u" "window_step s u" "icsk_ca_priv u = icsk_ca_priv s"
    using tcp_slow_start_step [OF assms(2)] by blast
  have w: "snd_cwnd s \<noteq> 0" "0 < snd_cwnd_clamp s" using assms(2,3) by (auto simp: unat_simps)
  define delta where "delta = drop_bit 7 ((snd_cwnd_cnt s + il_acked (icsk_ca_priv s)) * il_alpha (icsk_ca_priv s))"
  have "0 < snd_cwnd s + delta div snd_cwnd s" if le: "snd_cwnd s \<le> delta"
  proof -
    have "unat delta div unat (snd_cwnd s) \<le> unat delta" by (rule div_le_dividend)
    moreover have "unat delta < 33554432"
      by (simp add: delta_def unat_drop_bit div_less_iff_less_mult)
    ultimately have "unat (snd_cwnd s) + unat delta div unat (snd_cwnd s) < 4294967296"
      using le unfolding word_le_nat_alt by linarith
    then have "unat (snd_cwnd s + delta div snd_cwnd s) = unat (snd_cwnd s) + unat delta div unat (snd_cwnd s)"
      by (subst unat_add_bounded) (simp_all add: unat_div_word)
    then show ?thesis using assms(2) by (simp add: word_less_nat_alt)
  qed
  then have "window_step s (s\<lparr>snd_cwnd := min (snd_cwnd s + delta div snd_cwnd s) (snd_cwnd_clamp s)\<rparr>)"
    if "snd_cwnd s \<le> delta"
    using that w by (simp add: window_step_def le_max_iff_disj)
  moreover have "illinois_ok (icsk_ca_priv s\<lparr>il_acked := 1\<rparr>)" using assms(1) by (simp add: illinois_ok_def)
  ultimately show ?thesis
    using u w(1) assms(1) window_step_refl [OF assms(2)] unfolding illinois_increase_def
    by (simp add: Let_def flip: delta_def)
qed

lemma tcp_illinois_acked_ok:
  assumes "illinois_ok (icsk_ca_priv s)" "illinois_ack (icsk_ca_priv s) n"
  shows "\<exists>t. tcp_illinois_acked e s n last_ackt = Some t \<and> priv_only s t \<and> illinois_ok (icsk_ca_priv t)"
proof -
  let ?ca = "icsk_ca_priv s"
  define r where "r = (if ack_age_us e last_ackt > IL_RTT_MAX then IL_RTT_MAX else ack_age_us e last_ackt)"
  have r: "unat r \<le> 3355443" by (simp add: r_def word_le_nat_alt word_less_nat_alt)
  define b where "b = (if il_base_rtt ?ca > r then r else il_base_rtt ?ca)"
  define x where "x = (if il_max_rtt ?ca < r then r else il_max_rtt ?ca)"
  have bx: "unat b \<le> unat r" "unat b \<le> unat (il_base_rtt ?ca)" "unat r \<le> unat x"
      "unat (il_max_rtt ?ca) \<le> unat x" "unat x \<le> 3355443"
    using r assms(1) by (auto simp: b_def x_def word_less_nat_alt illinois_ok_def word_le_nat_alt)
  let ?c = "unat (il_cnt_rtt ?ca)" and ?s = "unat (il_sum_rtt ?ca)"
  have cnt: "unat (il_cnt_rtt ?ca + 1) = ?c + 1"
    using assms(2) by (simp add: illinois_ack_def unatSuc add.commute)
  have s: "?c * unat (il_base_rtt ?ca) \<le> ?s" "?s \<le> ?c * unat (il_max_rtt ?ca)" "unat (il_max_rtt ?ca) \<le> 3355443"
    using assms(1) by (simp_all add: illinois_ok_def word_le_nat_alt)
  have "?c * unat (il_max_rtt ?ca) \<le> 4294967295 * 3355443"
    using s(3) u32_bound [of "il_cnt_rtt ?ca"] by (intro mult_le_mono) linarith+
  then have sum: "unat (il_sum_rtt ?ca + ucast r) = ?s + unat r"
    using s(2) r by (subst unat_add_bounded) (simp_all add: unat_ucast_32_64)
  have "(?c + 1) * unat b = ?c * unat b + unat b" by simp
  also have "\<dots> \<le> ?c * unat (il_base_rtt ?ca) + unat r" using bx(1,2) by (intro add_mono mult_le_mono) simp_all
  finally have "(?c + 1) * unat b \<le> ?c * unat (il_base_rtt ?ca) + unat r" .
  then have lo: "(?c + 1) * unat b \<le> ?s + unat r" using s(1) by linarith
  have "?c * unat (il_max_rtt ?ca) + unat r \<le> ?c * unat x + unat x"
    using bx(3,4) by (intro add_mono mult_le_mono) simp_all
  also have "\<dots> = (?c + 1) * unat x" by simp
  finally have hi: "?s + unat r \<le> (?c + 1) * unat x" using s(2) by linarith
  let ?p = "?ca\<lparr>il_acked := n, il_base_rtt := b, il_max_rtt := x, il_cnt_rtt := il_cnt_rtt ?ca + 1,
      il_sum_rtt := il_sum_rtt ?ca + ucast r\<rparr>"
  have ok: "illinois_ok ?p" "illinois_ok (?ca\<lparr>il_acked := n\<rparr>)"
    using assms(1) lo hi bx(5) by (simp_all add: illinois_ok_def cnt sum word_le_nat_alt)
  have "tcp_illinois_acked e s n last_ackt =
      Some (s\<lparr>icsk_ca_priv := if ktime_equal last_ackt net_invalid_timestamp then ?ca\<lparr>il_acked := n\<rparr> else ?p\<rparr>)"
    unfolding tcp_illinois_acked_def r_def [symmetric] Let_def by (simp add: b_def x_def)
  then show ?thesis using ok by simp
qed

lemma tcp_illinois_ssthresh_exact:
  assumes "illinois_ok (icsk_ca_priv s)" "unat (snd_cwnd s) < 134217728"
  shows "\<exists>v. tcp_illinois_ssthresh e s = Some (v, s) \<and>
    unat v = max (unat (snd_cwnd s) * unat (il_beta (icsk_ca_priv s)) div 64) 2"
proof -
  have "unat (il_beta (icsk_ca_priv s)) \<le> 32" using assms(1) by (simp add: illinois_ok_def word_le_nat_alt)
  then have "unat (snd_cwnd s) * unat (il_beta (icsk_ca_priv s)) \<le> 134217727 * 32"
    using assms(2) by (intro mult_le_mono) simp_all
  then have "unat (snd_cwnd s * il_beta (icsk_ca_priv s)) = unat (snd_cwnd s) * unat (il_beta (icsk_ca_priv s))"
    by (subst unat_mult_bounded) simp_all
  then show ?thesis by (simp add: tcp_illinois_ssthresh_def unat_simps)
qed

lemma tcp_illinois_cong_avoid_ok:
  assumes "illinois_ok (icsk_ca_priv s)" "0 < snd_cwnd s" "1 < snd_cwnd_clamp s"
  shows "\<exists>t. tcp_illinois_cong_avoid m e s ack rtt in_flight flag = Some t \<and> window_step s t \<and>
    illinois_ok (icsk_ca_priv t)"
proof -
  obtain p where p: "(if after ack (il_end_seq (icsk_ca_priv s)) then update_params m s else Some s) =
      Some (s\<lparr>icsk_ca_priv := p\<rparr>)" "illinois_ok p"
  proof (cases "after ack (il_end_seq (icsk_ca_priv s))")
    case True
    obtain t where "update_params m s = Some t" "priv_only s t" "illinois_ok (icsk_ca_priv t)"
      using update_params_ok [OF assms(1)] by blast
    then show ?thesis using True that by (auto elim!: priv_onlyE)
  next
    case False
    then show ?thesis using assms(1) that [of "icsk_ca_priv s"] by simp
  qed
  obtain t where t: "illinois_increase e (s\<lparr>icsk_ca_priv := p\<rparr>) = Some t" "window_step s t" "illinois_ok (icsk_ca_priv t)"
    using illinois_increase_ok [of "s\<lparr>icsk_ca_priv := p\<rparr>" e] p(2) assms(2,3) by auto
  show ?thesis
    unfolding tcp_illinois_cong_avoid_def p(1) Option.bind_lunit
    using t p(2) window_step_refl [OF assms(2)] by simp
qed

interpretation illinois: cong_control "tcp_illinois m" illinois_ok "\<lambda>_ _. True" 134217728 illinois_ack for m
proof (unfold_locales, goal_cases)
  case (4 ini s e)
  then show ?case by (auto simp: tcp_illinois_def null_ops_def tcp_illinois_init_def rtt_reset_def illinois_ok_def)
next
  case (7 ca s e ack rtt in_flight flag)
  then show ?case
    using tcp_illinois_cong_avoid_ok [of s m e ack rtt in_flight flag]
    by (auto simp: tcp_illinois_def null_ops_def wf_sock_def)
next
  case (8 sth s e)
  then have s: "illinois_ok (icsk_ca_priv s)" "unat (snd_cwnd s) < 134217728" by (simp_all add: wf_sock_def)
  from tcp_illinois_ssthresh_exact [OF this, of e] obtain v where
    v: "tcp_illinois_ssthresh e s = Some (v, s)"
      "unat v = max (unat (snd_cwnd s) * unat (il_beta (icsk_ca_priv s)) div 64) 2" by blast
  have "unat (il_beta (icsk_ca_priv s)) \<le> 64" using s(1) by (simp add: illinois_ok_def word_le_nat_alt)
  then have "unat (snd_cwnd s) * unat (il_beta (icsk_ca_priv s)) div 64 \<le> unat (snd_cwnd s) * 64 div 64"
    by (intro div_le_mono mult_le_mono) simp_all
  then have "2 \<le> v" "unat v < 134217728" using v(2) s(2) by (simp_all add: word_le_nat_alt)
  with 8 v(1) show ?case by (auto simp: tcp_illinois_def null_ops_def)
next
  case (9 mc s)
  then have "mc = tcp_reno_min_cwnd" by (simp add: tcp_illinois_def null_ops_def)
  with 9 show ?case by (auto simp: tcp_reno_min_cwnd_def unat_simps)
next
  case (10 ss s e st)
  then show ?case
    by (auto simp: tcp_illinois_def null_ops_def tcp_illinois_state_def rtt_reset_def illinois_ok_def)
next
  case (12 pa s e n last_ackt)
  then have "pa = tcp_illinois_acked" "0 < snd_cwnd s" by (simp_all add: tcp_illinois_def null_ops_def wf_sock_def)
  with 12 tcp_illinois_acked_ok [of s n e last_ackt] show ?case by (auto elim!: priv_onlyE)
qed (auto simp: tcp_illinois_def null_ops_def)

section \<open>Properties\<close>

text \<open>
  In every run of Illinois, for every value of its parameters, whatever the order of acknowledgments, losses and timeouts, each
  call the simulator can make returns, the window and the threshold keep their bounds and both parameters stay in their declared ranges.
\<close>

theorem illinois_run_safe:
  assumes "cc_reach (tcp_illinois m) (\<lambda>_ _. True) 134217728 illinois_ack s"
  shows "run_safe (tcp_illinois m) e illinois_ack s \<and>
    IL_ALPHA_MIN \<le> il_alpha (icsk_ca_priv s) \<and> il_alpha (icsk_ca_priv s) \<le> IL_ALPHA_MAX \<and>
    IL_BETA_MIN \<le> il_beta (icsk_ca_priv s) \<and> il_beta (icsk_ca_priv s) \<le> IL_BETA_MAX"
  using illinois.reach_run_safe [OF assms(1), of e] illinois.reach_priv_ok [OF assms(1)] by (simp add: illinois_ok_def)

theorem illinois_run_safe_witness:
  "\<forall>(q :: illinois) m. \<exists>s. tcp_illinois_init sample_env (sample_sock q) = Some s \<and> run_safe (tcp_illinois m) sample_env illinois_ack s"
proof (intro allI)
  fix q :: illinois and m
  let ?s = "the (tcp_illinois_init sample_env (sample_sock q))"
  have "cc_reach (tcp_illinois m) (\<lambda>_ _. True) 134217728 illinois_ack ?s"
    by (rule sample_init [where f = "tcp_illinois_init" and q = q]) (simp_all add: tcp_illinois_def null_ops_def tcp_illinois_init_def rtt_reset_def sample_sock_def wf_sock_def)
  then show "\<exists>s. tcp_illinois_init sample_env (sample_sock q) = Some s \<and> run_safe (tcp_illinois m) sample_env illinois_ack s"
    using illinois_run_safe [of m ?s sample_env] by (intro exI [of _ ?s]) (simp add: tcp_illinois_def null_ops_def tcp_illinois_init_def rtt_reset_def sample_sock_def)
qed

text \<open>
  Illinois' reaction to a loss: the threshold is the window times \<open>beta\<close> in 64ths, computed
  without overflow, with \<open>beta\<close> between 8 and 32: what is left of the window is between an eighth and
  one half of it (and at least two). The smaller \<open>beta\<close> of a short queue so cuts deeper.
\<close>

theorem illinois_cut:
  assumes "cc_reach (tcp_illinois m) (\<lambda>_ _. True) 134217728 illinois_ack s"
  shows "\<exists>v. tcp_illinois_ssthresh e s = Some (v, s) \<and>
    unat v = max (unat (snd_cwnd s) * unat (il_beta (icsk_ca_priv s)) div 64) 2 \<and>
    8 \<le> unat (il_beta (icsk_ca_priv s)) \<and> unat (il_beta (icsk_ca_priv s)) \<le> 32"
proof -
  have ok: "illinois_ok (icsk_ca_priv s)" and "unat (snd_cwnd s) < 134217728"
    using illinois.reach_safe [OF assms] by (simp_all add: cc_safe_def wf_sock_def)
  from tcp_illinois_ssthresh_exact [OF this, of e] obtain v where
    "tcp_illinois_ssthresh e s = Some (v, s)"
    "unat v = max (unat (snd_cwnd s) * unat (il_beta (icsk_ca_priv s)) div 64) 2" by blast
  moreover have "8 \<le> unat (il_beta (icsk_ca_priv s)) \<and> unat (il_beta (icsk_ca_priv s)) \<le> 32"
    using ok by (simp add: illinois_ok_def word_le_nat_alt)
  ultimately show ?thesis by blast
qed

theorem illinois_cut_witness:
  "\<forall>q. \<exists>s v. tcp_illinois_init sample_env (sample_sock q) = Some s \<and>
     tcp_illinois_ssthresh sample_env s = Some (v, s) \<and> unat v = 5"
proof (intro allI)
  fix q :: illinois
  let ?s = "the (tcp_illinois_init sample_env (sample_sock q))"
  have "cc_reach (tcp_illinois illinois_defaults) (\<lambda>_ _. True) 134217728 illinois_ack ?s"
    by (rule sample_init [where f = tcp_illinois_init and q = q])
      (simp_all add: tcp_illinois_def null_ops_def tcp_illinois_init_def rtt_reset_def sample_sock_def wf_sock_def)
  from illinois_cut [OF this, of sample_env] obtain v where v: "tcp_illinois_ssthresh sample_env ?s = Some (v, ?s)"
    "unat v = max (unat (snd_cwnd ?s) * unat (il_beta (icsk_ca_priv ?s)) div 64) 2" by blast
  have "snd_cwnd ?s = 10" "il_beta (icsk_ca_priv ?s) = 32" 
    by (simp_all add: tcp_illinois_init_def rtt_reset_def sample_sock_def)
  then have "unat v = 5" using v(2) by simp
  moreover have "tcp_illinois_init sample_env (sample_sock q) = Some ?s" by (simp add: tcp_illinois_init_def)
  ultimately show "\<exists>s v. tcp_illinois_init sample_env (sample_sock q) = Some s \<and>
     tcp_illinois_ssthresh sample_env s = Some (v, s) \<and> unat v = 5" using v(1) by blast
qed

end
