(* ===== verification/Tcp_Lp.thy ===== *)
theory Tcp_Lp
  imports Tcp_Reno
begin

text \<open>
  \<^verbatim>\<open>src/ns-2.34/tcp/linux/src/tcp_lp.c\<close>: TCP Low Priority. The one-way delay is estimated from the
  timestamps of both ends; the estimate of the remote clock rate is a divisor, protected by a
  flag that the estimator sets. The lemmas show that the flag does protect it, that the early
  congestion indication only shrinks the window, and that the module meets the contract without
  any assumption on the timestamps the peer sends.
\<close>

section \<open>Data\<close>

abbreviation (input) LP_VALID_RHZ :: u32 where "LP_VALID_RHZ \<equiv> 1"
abbreviation (input) LP_VALID_OWD :: u32 where "LP_VALID_OWD \<equiv> 2"
abbreviation (input) LP_WITHIN_THR :: u32 where "LP_WITHIN_THR \<equiv> 8"
abbreviation (input) LP_WITHIN_INF :: u32 where "LP_WITHIN_INF \<equiv> 16"
abbreviation (input) LP_RESOL :: u32 where "LP_RESOL \<equiv> 1000"

record lp =
  lp_flag :: u32
  sowd :: u32
  owd_min :: u32
  owd_max :: u32
  owd_max_rsv :: u32
  remote_hz :: u32
  remote_ref_time :: u32
  local_ref_time :: u32
  last_drop :: u32
  inference :: u32

text \<open>\<^verbatim>\<open>flag |= bit\<close> and \<^verbatim>\<open>flag &= ~bit\<close>, by a condition.\<close>

definition lp_set :: "u32 \<Rightarrow> bool \<Rightarrow> lp \<Rightarrow> lp" where
  "lp_set msk on lp = lp\<lparr>lp_flag := (if on then lp_flag lp OR msk else lp_flag lp AND NOT msk)\<rparr>"

section \<open>Operations\<close>

definition tcp_lp_init :: "kernel_env \<Rightarrow> lp tcp_sock \<Rightarrow> lp tcp_sock exec" where
  "tcp_lp_init e sk = Some (sk\<lparr>icsk_ca_priv := \<lparr>lp_flag = 0, sowd = 0, owd_min = 0xffffffff, owd_max = 0,
     owd_max_rsv = 0, remote_hz = 0, remote_ref_time = 0, local_ref_time = 0, last_drop = 0, inference = 0\<rparr>\<rparr>)"

definition tcp_lp_cong_avoid :: "kernel_env \<Rightarrow> lp tcp_sock \<Rightarrow> u32 \<Rightarrow> u32 \<Rightarrow> u32 \<Rightarrow> c_int \<Rightarrow> lp tcp_sock exec" where
  "tcp_lp_cong_avoid e sk ack rtt in_flight flag =
     (if lp_flag (icsk_ca_priv sk) AND LP_WITHIN_INF = 0
      then tcp_reno_cong_avoid e sk ack rtt in_flight flag else Some sk)"

text \<open>
  The new estimate, scaled by 64. The product and the quotient are unsigned 32-bit values, the
  rest is signed 64-bit arithmetic.
\<close>

definition lp_rhz :: "tcp_options_received \<Rightarrow> lp \<Rightarrow> s64 exec" where
  "lp_rhz rx lp =
     (let rhz = (ucast (push_bit 6 (remote_hz lp)) :: s64) in
      if remote_ref_time lp = 0 \<or> local_ref_time lp = 0 then Some rhz
      else if rcv_tsval rx = remote_ref_time lp \<or> rcv_tsecr rx = local_ref_time lp then Some rhz
      else do {
        q \<leftarrow> c_div (HZ * (rcv_tsval rx - remote_ref_time lp)) (rcv_tsecr rx - local_ref_time lp);
        let m = (ucast q :: s64);
        let m = (if sint m < 0 then - m else m);
        Some (if sint rhz > 0 then rhz + (m - signed_drop_bit 6 rhz) else push_bit 6 m)
      })"

definition tcp_lp_remote_hz_estimator :: "tcp_options_received \<Rightarrow> lp \<Rightarrow> (u32 \<times> lp) exec" where
  "tcp_lp_remote_hz_estimator rx lp = do {
     rhz \<leftarrow> lp_rhz rx lp;
     let lp = lp_set LP_VALID_RHZ (sint (signed_drop_bit 6 rhz) > 0) lp;
     let lp = lp\<lparr>remote_ref_time := rcv_tsval rx, local_ref_time := rcv_tsecr rx\<rparr>;
     Some (ucast (signed_drop_bit 6 rhz), lp)
   }"

definition tcp_lp_owd_calculator :: "tcp_options_received \<Rightarrow> lp \<Rightarrow> (u32 \<times> lp) exec" where
  "tcp_lp_owd_calculator rx lp = do {
     (hz, lp) \<leftarrow> tcp_lp_remote_hz_estimator rx lp;
     let lp = lp\<lparr>remote_hz := hz\<rparr>;
     owd \<leftarrow> (if lp_flag lp AND LP_VALID_RHZ \<noteq> 0 then do {
               k \<leftarrow> c_div LP_RESOL (remote_hz lp);
               let owd = (ucast (rcv_tsval rx * k - rcv_tsecr rx * (1000 div 1000)) :: s64);
               Some (if sint owd < 0 then - owd else owd)
             }
             else Some 0);
     Some (ucast owd, lp_set LP_VALID_OWD (sint owd > 0) lp)
   }"

text \<open>The extremes, forgetting the maximum of the maxima, and the smoothed delay.\<close>

definition lp_record :: "s64 \<Rightarrow> lp \<Rightarrow> lp" where
  "lp_record mowd lp =
     (let lp = (if sint mowd < uint (owd_min lp) then lp\<lparr>owd_min := ucast mowd\<rparr> else lp);
          lp = (if sint mowd > uint (owd_max lp) then
                  if sint mowd > uint (owd_max_rsv lp)
                  then lp\<lparr>owd_max := (if owd_max_rsv lp = 0 then ucast mowd else owd_max_rsv lp),
                          owd_max_rsv := ucast mowd\<rparr>
                  else lp\<lparr>owd_max := ucast mowd\<rparr>
                else lp)
      in if sowd lp \<noteq> 0
         then lp\<lparr>sowd := ucast (ucast (sowd lp) + (mowd - ucast (drop_bit 3 (sowd lp))))\<rparr>
         else lp\<lparr>sowd := ucast (push_bit 3 mowd)\<rparr>)"

definition tcp_lp_rtt_sample :: "tcp_options_received \<Rightarrow> lp \<Rightarrow> lp exec" where
  "tcp_lp_rtt_sample rx lp = do {
     (owd, lp) \<leftarrow> tcp_lp_owd_calculator rx lp;
     let mowd = (ucast owd :: s64);
     Some (if lp_flag lp AND LP_VALID_RHZ = 0 \<or> lp_flag lp AND LP_VALID_OWD = 0 then lp
           else lp_record mowd lp)
   }"

definition lp_within_thr :: "lp \<Rightarrow> bool" where
  "lp_within_thr lp \<longleftrightarrow>
     drop_bit 3 (sowd lp) < owd_min lp + 15 * (owd_max lp - owd_min lp) div 100"

definition tcp_lp_pkts_acked :: "kernel_env \<Rightarrow> lp tcp_sock \<Rightarrow> u32 \<Rightarrow> s64 \<Rightarrow> lp tcp_sock exec" where
  "tcp_lp_pkts_acked e tp num_acked last_ackt = do {
     lp \<leftarrow> (if \<not> ktime_equal last_ackt net_invalid_timestamp
            then tcp_lp_rtt_sample (rx_opt tp) (icsk_ca_priv tp) else Some (icsk_ca_priv tp));
     let lp = (if tcp_time_stamp e > rcv_tsecr (rx_opt tp)
               then lp\<lparr>inference := 3 * (tcp_time_stamp e - rcv_tsecr (rx_opt tp))\<rparr> else lp);
     let lp = lp_set LP_WITHIN_INF (last_drop lp \<noteq> 0 \<and> tcp_time_stamp e - last_drop lp < inference lp) lp;
     let lp = lp_set LP_WITHIN_THR (lp_within_thr lp) lp;
     if lp_flag lp AND LP_WITHIN_THR \<noteq> 0 then Some (tp\<lparr>icsk_ca_priv := lp\<rparr>)
     else
       let w = (if lp_flag lp AND LP_WITHIN_INF \<noteq> 0 then 1 else max (drop_bit 1 (snd_cwnd tp)) 1);
           lp = lp\<lparr>owd_min := drop_bit 3 (sowd lp), owd_max := drop_bit 2 (sowd lp),
                   owd_max_rsv := drop_bit 2 (sowd lp), last_drop := tcp_time_stamp e\<rparr>
       in Some (tp\<lparr>snd_cwnd := w, icsk_ca_priv := lp\<rparr>)
   }"

definition tcp_lp :: "lp tcp_congestion_ops" where
  "tcp_lp = (null_ops ''lp'')\<lparr>ca_flags := TCP_CONG_RTT_STAMP, ca_init := Some tcp_lp_init,
     ca_ssthresh := Some tcp_reno_ssthresh, ca_cong_avoid := Some tcp_lp_cong_avoid,
     ca_min_cwnd := Some tcp_reno_min_cwnd, ca_pkts_acked := Some tcp_lp_pkts_acked\<rparr>"

section \<open>The flags\<close>

lemma lp_set_same: "msk \<noteq> 0 \<Longrightarrow> lp_flag (lp_set msk on lp) AND msk = (if on then msk else 0)"
  by (simp add: lp_set_def and.assoc bit.conj_disj_distrib2)

lemma lp_set_other: "msk AND msk' = 0 \<Longrightarrow> lp_flag (lp_set msk on lp) AND msk' = lp_flag lp AND msk'"
proof -
  assume a: "msk AND msk' = 0"
  have "NOT msk AND msk' = msk'"
  proof (rule bit_eqI)
    fix n
    assume "possible_bit TYPE(32 word) n"
    from a have "\<not> bit (msk AND msk') n" by simp
    then show "bit (NOT msk AND msk') n \<longleftrightarrow> bit msk' n"
      by (auto simp: bit_simps dest: bit_imp_le_length)
  qed
  then show ?thesis using a by (simp add: lp_set_def and.assoc bit.conj_disj_distrib2)
qed

lemma lp_set_frame [simp]:
  "remote_hz (lp_set msk on lp) = remote_hz lp" "sowd (lp_set msk on lp) = sowd lp"
  "owd_min (lp_set msk on lp) = owd_min lp" "owd_max (lp_set msk on lp) = owd_max lp"
  "last_drop (lp_set msk on lp) = last_drop lp" "inference (lp_set msk on lp) = inference lp"
  by (simp_all add: lp_set_def)

section \<open>The remote clock rate\<close>

lemma sint_ucast_32_64: "sint (ucast (x :: u32) :: s64) = uint x"
proof -
  have b: "0 \<le> uint x" "uint x < 4294967296" using uint_lt2p [of x] by simp_all
  have "uint (ucast x :: s64) = uint x" using b by (simp add: unsigned_ucast_eq take_bit_int_eq_self)
  moreover have "signed_take_bit 63 (uint x) = uint x"
  proof (rule signed_take_bit_int_eq_self)
    show "- (2 ^ 63) \<le> uint x" by (rule order.trans [OF _ b(1)]) simp
    show "uint x < 2 ^ 63" by (rule less_trans [OF b(2)]) simp
  qed
  ultimately show ?thesis by (simp add: sint_uint)
qed

text \<open>The scaled estimate fits 38 bits, so that the estimate fits the 32 bits it is stored in.\<close>

lemma lp_rhz_bound:
  "\<exists>rhz. lp_rhz rx lp = Some rhz \<and> sint rhz < 274877906944"
proof -
  define rhz where "rhz = (ucast (push_bit 6 (remote_hz lp)) :: s64)"
  have r: "0 \<le> sint rhz" "sint rhz < 4294967296"
    using uint_lt2p [of "push_bit 6 (remote_hz lp)"] by (simp_all add: rhz_def sint_ucast_32_64)
  define q where "q = HZ * (rcv_tsval rx - remote_ref_time lp) div (rcv_tsecr rx - local_ref_time lp)"
  define m where "m = (ucast q :: s64)"
  have m: "0 \<le> sint m" "sint m < 4294967296"
    using uint_lt2p [of q] by (simp_all add: m_def sint_ucast_32_64)
  have d: "sint (signed_drop_bit 6 rhz) = sint rhz div 64"
    by (simp add: sint_signed_drop_bit_eq drop_bit_eq_div)
  have b: "0 \<le> sint rhz div 64" "sint rhz div 64 < 67108864" using r by linarith+
  have "sint (m - signed_drop_bit 6 rhz) = sint m - sint rhz div 64"
    using b m by (simp add: sint_word_ariths d signed_take_bit_int_eq_self)
  then have "sint (rhz + (m - signed_drop_bit 6 rhz)) = sint rhz + (sint m - sint rhz div 64)"
    using b m r by (simp add: sint_word_ariths signed_take_bit_int_eq_self)
  then have s1: "sint (rhz + (m - signed_drop_bit 6 rhz)) < 274877906944" using b m r by linarith
  have "sint (push_bit 6 m) = sint m * 64"
    using m by (simp add: push_bit_eq_mult sint_word_ariths signed_take_bit_int_eq_self)
  then have s2: "sint (push_bit 6 m) < 274877906944" using m by linarith
  have nm: "\<not> sint m < 0" using m by simp
  have c: "rcv_tsecr rx \<noteq> local_ref_time lp \<Longrightarrow> c_div (HZ * (rcv_tsval rx - remote_ref_time lp))
      (rcv_tsecr rx - local_ref_time lp) = Some q"
    by (simp add: q_def)
  show ?thesis
    using r s1 s2 nm c unfolding lp_rhz_def by (simp add: Let_def flip: rhz_def m_def)
qed

lemma ucast_pos_nonzero:
  fixes w :: s64
  assumes "0 < sint w" "sint w < 4294967296"
  shows "(ucast w :: u32) \<noteq> 0"
proof -
  have "uint w = take_bit 64 (sint w)" by (simp add: uint_sint)
  also have "\<dots> = sint w" using assms by (intro take_bit_int_eq_self) simp_all
  finally have "uint w = sint w" .
  then have "uint (ucast w :: u32) = sint w"
    using assms by (simp add: unsigned_ucast_eq take_bit_int_eq_self)
  then show ?thesis using assms(1) by auto
qed

text \<open>The flag protects the division: when it is set the stored rate is not zero.\<close>

lemma tcp_lp_remote_hz_estimator_ok:
  "\<exists>hz lp'. tcp_lp_remote_hz_estimator rx lp = Some (hz, lp') \<and>
     (lp_flag lp' AND LP_VALID_RHZ \<noteq> 0 \<longrightarrow> hz \<noteq> 0)"
proof -
  obtain rhz where rhz: "lp_rhz rx lp = Some rhz" "sint rhz < 274877906944" using lp_rhz_bound by blast
  have "sint (signed_drop_bit 6 rhz) = sint rhz div 64"
    by (simp add: sint_signed_drop_bit_eq drop_bit_eq_div)
  then have "sint (signed_drop_bit 6 rhz) < 4294967296" using rhz(2) by linarith
  then have "sint (signed_drop_bit 6 rhz) > 0 \<Longrightarrow> (ucast (signed_drop_bit 6 rhz) :: u32) \<noteq> 0"
    by (intro ucast_pos_nonzero)
  then show ?thesis using rhz(1) by (simp add: tcp_lp_remote_hz_estimator_def Let_def lp_set_same)
qed

lemma tcp_lp_rtt_sample_ok: "\<exists>lp'. tcp_lp_rtt_sample rx lp = Some lp'"
proof -
  obtain hz lp1 where h: "tcp_lp_remote_hz_estimator rx lp = Some (hz, lp1)"
      "lp_flag lp1 AND LP_VALID_RHZ \<noteq> 0 \<longrightarrow> hz \<noteq> 0"
    using tcp_lp_remote_hz_estimator_ok by blast
  have "\<exists>owd lp2. tcp_lp_owd_calculator rx lp = Some (owd, lp2)"
    using h by (cases "lp_flag lp1 AND LP_VALID_RHZ = 0") (simp_all add: tcp_lp_owd_calculator_def Let_def)
  then show ?thesis by (auto simp: tcp_lp_rtt_sample_def Let_def)
qed

text \<open>
  The early congestion indication: the window is kept within the threshold, halved at the first
  indication, and reduced to one segment while the inference phase of the last drop lasts.
\<close>

lemma tcp_lp_pkts_acked_window:
  shows "\<exists>t. tcp_lp_pkts_acked e s n last_ackt = Some t \<and> same_control s t \<and> snd_ssthresh t = snd_ssthresh s \<and>
    (if lp_flag (icsk_ca_priv t) AND LP_WITHIN_THR \<noteq> 0 then snd_cwnd t = snd_cwnd s
     else last_drop (icsk_ca_priv t) = tcp_time_stamp e \<and>
       (if lp_flag (icsk_ca_priv t) AND LP_WITHIN_INF \<noteq> 0 then snd_cwnd t = 1
        else snd_cwnd t = max (drop_bit 1 (snd_cwnd s)) 1))"
proof -
  obtain lp where lp: "(if \<not> ktime_equal last_ackt net_invalid_timestamp
      then tcp_lp_rtt_sample (rx_opt s) (icsk_ca_priv s) else Some (icsk_ca_priv s)) = Some lp"
    using tcp_lp_rtt_sample_ok [of "rx_opt s" "icsk_ca_priv s"]
    by (cases "ktime_equal last_ackt net_invalid_timestamp") auto
  show ?thesis
    unfolding tcp_lp_pkts_acked_def lp Option.bind_lunit
    by (simp add: Let_def)
qed

lemma half_window:
  fixes w :: u32
  assumes "0 < w"
  shows "0 < max (drop_bit 1 w) 1" "max (drop_bit 1 w) 1 \<le> w"
  using assms by (auto simp: unat_simps less_max_iff_disj)

interpretation lp: cong_control tcp_lp "\<lambda>_. True" "\<lambda>_ _. True" 4294967296 "\<lambda>_ _. True"
proof (unfold_locales, goal_cases)
  case (4 ini s e)
  then show ?case by (auto simp: tcp_lp_def null_ops_def tcp_lp_init_def)
next
  case (7 ca s e ack rtt in_flight flag)
  then have "0 < snd_cwnd s" by (simp add: wf_sock_def)
  with 7 show ?case
    using tcp_reno_cong_avoid_step [of s e ack rtt in_flight flag] window_step_refl [of s]
    by (auto simp: tcp_lp_def null_ops_def tcp_lp_cong_avoid_def)
next
  case (8 sth s e)
  then show ?case by (auto simp: tcp_lp_def null_ops_def tcp_reno_ssthresh_def)
next
  case (9 mc s)
  then show ?case using reno.min_cwnd_ok [of tcp_reno_min_cwnd s]
    by (auto simp: tcp_lp_def null_ops_def tcp_reno_def)
next
  case (12 pa s e n last_ackt)
  then have "pa = tcp_lp_pkts_acked" "0 < snd_cwnd s" by (simp_all add: tcp_lp_def null_ops_def wf_sock_def)
  moreover have "0 < (1::u32)" "1 \<le> snd_cwnd s"
    using \<open>0 < snd_cwnd s\<close> by (simp_all add: unat_simps)
  ultimately show ?case
    using tcp_lp_pkts_acked_window [where s = s and e = e and n = n and last_ackt = last_ackt] half_window [of "snd_cwnd s"]
    by (auto split: if_splits)
qed (auto simp: tcp_lp_def null_ops_def)

section \<open>Properties\<close>

text \<open>
  In every run of TCP-LP whatever the order of acknowledgments, losses and timeouts, each
  call the simulator can make returns, the window and the threshold keep their bounds.
\<close>

theorem lp_run_safe:
  assumes "cc_reach tcp_lp (\<lambda>_ _. True) 4294967296 (\<lambda>_ _. True) s"
  shows "run_safe tcp_lp e (\<lambda>_ _. True) s"
  using lp.reach_run_safe [OF assms(1), of e] by simp

theorem lp_run_safe_witness:
  "\<forall>(q :: lp). \<exists>s. tcp_lp_init sample_env (sample_sock q) = Some s \<and> run_safe tcp_lp sample_env (\<lambda>_ _. True) s"
proof (intro allI)
  fix q :: lp
  let ?s = "the (tcp_lp_init sample_env (sample_sock q))"
  have "cc_reach tcp_lp (\<lambda>_ _. True) 4294967296 (\<lambda>_ _. True) ?s"
    by (rule sample_init [where f = "tcp_lp_init" and q = q]) (simp_all add: tcp_lp_def null_ops_def tcp_lp_init_def sample_sock_def wf_sock_def)
  then show "\<exists>s. tcp_lp_init sample_env (sample_sock q) = Some s \<and> run_safe tcp_lp sample_env (\<lambda>_ _. True) s"
    using lp_run_safe [of ?s sample_env] by (intro exI [of _ ?s]) (simp add: tcp_lp_def null_ops_def tcp_lp_init_def sample_sock_def)
qed

text \<open>
  One acknowledgment in TCP-LP returns in every state, and its effect on the window is one of
  three: within the delay threshold nothing; outside it, inside the inference period, a window of one
  segment; outside both, half the window (at least one), which starts a new inference period.
\<close>

theorem lp_ack_window:
  "\<exists>t. tcp_lp_pkts_acked e s n last_ackt = Some t \<and> same_control s t \<and> snd_ssthresh t = snd_ssthresh s \<and>
    (if lp_flag (icsk_ca_priv t) AND LP_WITHIN_THR \<noteq> 0 then snd_cwnd t = snd_cwnd s
     else last_drop (icsk_ca_priv t) = tcp_time_stamp e \<and>
       (if lp_flag (icsk_ca_priv t) AND LP_WITHIN_INF \<noteq> 0 then snd_cwnd t = 1
        else snd_cwnd t = max (drop_bit 1 (snd_cwnd s)) 1))"
  by (rule tcp_lp_pkts_acked_window)

end
