(* ===== verification/Tcp_Compound.thy ===== *)
theory Tcp_Compound
  imports Tcp_Vegas
begin

text \<open>
  \<^verbatim>\<open>src/ns-2.34/tcp/linux/src/tcp_compound.c\<close>: Compound TCP, a loss-based window \<^verbatim>\<open>cwnd\<close> plus a delay-based
  window \<^verbatim>\<open>dwnd\<close> whose growth uses a fourth root computed by Newton's iteration. The lemmas show that
  \<open>cdiv64_64\<close> computes the same value as \<open>div64_64\<close>, that the iteration of \<open>qroot\<close> ends for every
  64-bit argument, and that its result is the integer fourth root, exceeded by at most two.
\<close>

section \<open>Data\<close>

record compound =
  cv_beg_snd_nxt :: u32
  cv_beg_snd_una :: u32
  cv_beg_snd_cwnd :: u32
  cv_doing_vegas_now :: u8
  cv_cntRTT :: u16
  cv_minRTT :: u32
  cv_baseRTT :: u32
  cv_cwnd :: u32
  cv_dwnd :: u32

section \<open>Operations\<close>

definition cvegas_enable :: "compound tcp_sock \<Rightarrow> compound tcp_sock" where
  "cvegas_enable tp = upd_priv (\<lambda>v. v\<lparr>cv_doing_vegas_now := 1, cv_beg_snd_nxt := snd_nxt tp, cv_cntRTT := 0,
     cv_minRTT := 0x7fffffff\<rparr>) tp"

definition cvegas_disable :: "compound tcp_sock \<Rightarrow> compound tcp_sock" where
  "cvegas_disable tp = upd_priv (\<lambda>v. v\<lparr>cv_doing_vegas_now := 0\<rparr>) tp"

definition tcp_compound_init :: "kernel_env \<Rightarrow> compound tcp_sock \<Rightarrow> compound tcp_sock exec" where
  "tcp_compound_init e sk =
     Some (upd_priv (\<lambda>v. v\<lparr>cv_dwnd := 0, cv_cwnd := snd_cwnd sk\<rparr>)
             (cvegas_enable (upd_priv (\<lambda>v. v\<lparr>cv_baseRTT := 0x7fffffff\<rparr>) sk)))"

definition tcp_compound_rtt_calc :: "kernel_env \<Rightarrow> compound tcp_sock \<Rightarrow> u32 \<Rightarrow> compound tcp_sock exec" where
  "tcp_compound_rtt_calc e sk usrtt =
     (let vrtt = usrtt + 1;
          v = icsk_ca_priv sk;
          v = (if vrtt < cv_baseRTT v then v\<lparr>cv_baseRTT := vrtt\<rparr> else v);
          v = v\<lparr>cv_minRTT := min (cv_minRTT v) vrtt, cv_cntRTT := cv_cntRTT v + 1\<rparr>
      in Some (sk\<lparr>icsk_ca_priv := v\<rparr>))"

definition tcp_compound_state :: "kernel_env \<Rightarrow> compound tcp_sock \<Rightarrow> u8 \<Rightarrow> compound tcp_sock exec" where
  "tcp_compound_state e sk ca_state =
     Some (if ca_state = TCP_CA_Open then cvegas_enable sk else cvegas_disable sk)"

definition cdiv64_64 :: "u64 \<Rightarrow> u64 \<Rightarrow> u64 exec" where
  "cdiv64_64 dividend divisor =
     (let (d, dividend) =
        (if divisor > 0xffffffff
         then let shift = fls (ucast (drop_bit 32 divisor))
              in ((ucast (drop_bit (unat shift) divisor) :: u32), drop_bit (unat shift) dividend)
         else (ucast divisor, dividend))
      in if drop_bit 32 dividend \<noteq> 0 then map_option fst (do_div dividend d)
         else map_option ucast (c_div (ucast dividend :: u32) d))"

text \<open>\<^verbatim>\<open>abs\<close> takes an \<^verbatim>\<open>int\<close>: the unsigned difference is converted first.\<close>

definition c_abs :: "c_int \<Rightarrow> c_int" where
  "c_abs d = (if sint d < 0 then - d else d)"

definition qroot_step :: "u64 \<Rightarrow> u32 \<Rightarrow> u32 exec" where
  "qroot_step a x = do {
     q \<leftarrow> cdiv64_64 a (ucast x * ucast x * ucast x);
     c_div (3 * x + (ucast q :: u32)) 4
   }"

partial_function (option) qroot_loop :: "u64 \<Rightarrow> u32 \<Rightarrow> u32 option" where
  "qroot_loop a x1 =
     Option.bind (qroot_step a x1) (\<lambda>x. if sint (c_abs (x1 - x)) > 1 then qroot_loop a x else Some x)"

definition qroot :: "u64 \<Rightarrow> u32 exec" where
  "qroot a = Option.bind (c_shl (1 :: u32) (drop_bit 2 (fls64 a))) (qroot_loop a)"

definition tcp_compound_cwnd_event :: "kernel_env \<Rightarrow> compound tcp_sock \<Rightarrow> tcp_ca_event \<Rightarrow> compound tcp_sock exec" where
  "tcp_compound_cwnd_event e sk event =
     (if event = CA_EVENT_CWND_RESTART \<or> event = CA_EVENT_TX_START then tcp_compound_init e sk else Some sk)"

text \<open>The blocks of \<^verbatim>\<open>tcp_compound_cong_avoid\<close>: splitting the window, growing the loss-based part.\<close>

definition compound_split :: "compound tcp_sock \<Rightarrow> compound tcp_sock" where
  "compound_split tp =
     (let v = icsk_ca_priv tp in
      if cv_cwnd v + cv_dwnd v > snd_cwnd tp then
        if cv_cwnd v > snd_cwnd tp \<or> cv_dwnd v > snd_cwnd tp
        then tp\<lparr>icsk_ca_priv := v\<lparr>cv_cwnd := snd_cwnd tp, cv_dwnd := 0\<rparr>\<rparr>
        else tp\<lparr>icsk_ca_priv := v\<lparr>cv_cwnd := snd_cwnd tp - cv_dwnd v\<rparr>\<rparr>
      else tp)"

definition compound_grow :: "compound tcp_sock \<Rightarrow> compound tcp_sock" where
  "compound_grow tp =
     (let v = icsk_ca_priv tp;
          slow = (cv_cwnd v \<le> snd_ssthresh tp);
          cnt = (if \<not> slow \<and> snd_cwnd_cnt tp < snd_cwnd tp then snd_cwnd_cnt tp + 1 else snd_cwnd_cnt tp);
          full = (cnt \<ge> snd_cwnd tp);
          inc = (slow \<or> full)
      in tp\<lparr>snd_cwnd_cnt := (if full then 0 else cnt),
            icsk_ca_priv := (if inc \<and> snd_cwnd tp < snd_cwnd_clamp tp then v\<lparr>cv_cwnd := cv_cwnd v + 1\<rparr> else v)\<rparr>)"

definition compound_dwnd :: "u32 \<Rightarrow> u32 \<Rightarrow> u32 \<Rightarrow> u32 exec" where
  "compound_dwnd old_wnd diff dwnd =
     (if diff < push_bit 1 30 then do {
        let win3 = (ucast old_wnd :: u64) * ucast old_wnd * ucast old_wnd;
        r \<leftarrow> qroot win3;
        let x = drop_bit 3 r;
        Some ((if x > 1 then x - 1 else 0) + dwnd)
      }
      else if push_bit 1 dwnd < diff * 1 then Some 0
      else Some (drop_bit 1 (push_bit 1 dwnd - diff * 1)))"

text \<open>
  The once-per-round-trip part. The two early returns leave the function without writing
  \<^verbatim>\<open>snd_cwnd\<close>: the flag of the result says whether the code after the block runs.
\<close>

definition compound_round :: "compound tcp_sock \<Rightarrow> (bool \<times> compound tcp_sock) exec" where
  "compound_round tp =
     (let v = icsk_ca_priv tp in
      if mss_cache tp = 0 then Some (False, tp)
      else do {
        old_wnd \<leftarrow> c_div (cv_beg_snd_nxt v - cv_beg_snd_una v) (mss_cache tp);
        let v = v\<lparr>cv_beg_snd_una := cv_beg_snd_nxt v, cv_beg_snd_nxt := snd_nxt tp, cv_beg_snd_cwnd := snd_cwnd tp\<rparr>;
        if cv_cntRTT v > 2 \<and> cv_minRTT v = 0 then Some (False, tp\<lparr>icsk_ca_priv := v\<rparr>)
        else do {
          v \<leftarrow> (if cv_cntRTT v > 2 then do {
                  target_cwnd \<leftarrow> vegas_target old_wnd (cv_baseRTT v) (cv_minRTT v);
                  d \<leftarrow> compound_dwnd old_wnd (vegas_diff old_wnd target_cwnd) (cv_dwnd v);
                  Some (v\<lparr>cv_dwnd := d\<rparr>)
                }
                else Some v);
          Some (True, tp\<lparr>icsk_ca_priv := v\<lparr>cv_cntRTT := 0, cv_minRTT := 0x7fffffff\<rparr>\<rparr>)
        }
      })"

definition tcp_compound_cong_avoid ::
  "kernel_env \<Rightarrow> compound tcp_sock \<Rightarrow> u32 \<Rightarrow> u32 \<Rightarrow> u32 \<Rightarrow> c_int \<Rightarrow> compound tcp_sock exec" where
  "tcp_compound_cong_avoid e tp ack seq_rtt in_flight flag =
     (let tp = compound_split tp in
      if \<not> tcp_is_cwnd_limited tp in_flight then Some tp
      else do {
        let tp = compound_grow tp;
        (go, tp) \<leftarrow> (if after ack (cv_beg_snd_nxt (icsk_ca_priv tp)) then compound_round tp else Some (True, tp));
        Some (if go then tp\<lparr>snd_cwnd := cv_cwnd (icsk_ca_priv tp) + cv_dwnd (icsk_ca_priv tp)\<rparr> else tp)
      })"

definition tcp_compound :: "compound tcp_congestion_ops" where
  "tcp_compound = (null_ops ''compound'')\<lparr>ca_flags := TCP_CONG_RTT_STAMP, ca_init := Some tcp_compound_init,
     ca_ssthresh := Some tcp_reno_ssthresh, ca_cong_avoid := Some tcp_compound_cong_avoid,
     ca_min_cwnd := Some tcp_reno_min_cwnd, ca_rtt_sample := Some tcp_compound_rtt_calc,
     ca_set_state := Some tcp_compound_state, ca_cwnd_event := Some tcp_compound_cwnd_event\<rparr>"

section \<open>The division\<close>

text \<open>The short path divides 32-bit values; it computes the same quotient as the general division.\<close>

lemma do_div_short:
  assumes "drop_bit 32 n = (0 :: u64)"
  shows "map_option ucast (c_div (ucast n :: u32) d) = map_option fst (do_div n d)"
proof (cases "d = 0")
  case False
  have "unat (drop_bit 32 n) = 0" using assms by simp
  then have "unat n div 4294967296 = 0" by (simp add: unat_drop_bit)
  then have "unat n < 4294967296" by (simp add: div_eq_0_iff)
  then have "unat (ucast n :: u32) = unat n" by (simp add: unat_ucast_64_32)
  then have "(ucast ((ucast n :: u32) div d) :: u64) = n div ucast d"
    by (simp add: word_unat_eq_iff unat_ucast_32_64 unat_div_word)
  then show ?thesis using False by (simp add: do_div_Some)
qed simp

lemma cdiv64_64_eq: "cdiv64_64 dividend divisor = div64_64 dividend divisor"
proof -
  have "divisor > 0xffffffff \<longleftrightarrow> (ucast (drop_bit 32 divisor) :: u32) \<noteq> 0"
  proof -
    have "unat divisor div 4294967296 < 4294967296"
      using u64_bound [of divisor] by (simp add: div_less_iff_less_mult del: u64_bound)
    then have "unat (ucast (drop_bit 32 divisor) :: u32) = unat divisor div 4294967296"
      by (simp add: unat_ucast_64_32 unat_drop_bit)
    moreover have "unat divisor div 4294967296 \<noteq> 0 \<longleftrightarrow> 4294967295 < unat divisor"
      by (auto simp: div_eq_0_iff)
    ultimately show ?thesis by (simp add: word_less_nat_alt unat_eq_0 [symmetric])
  qed
  then show ?thesis
    using do_div_short unfolding cdiv64_64_def div64_64_def by (simp add: Let_def)
qed

section \<open>Newton's iteration for the fourth root\<close>

text \<open>
  One step on naturals, where the quotient may be overestimated by one: it never falls below the
  root, it does not grow above the root, and when two values in a row are close the last is within
  two of the root.
\<close>

lemma quartic_am_gm: "4 * r * x ^ 3 \<le> r ^ 4 + 3 * x ^ 4" for r x :: nat
proof -
  have "int (r ^ 4 + 3 * x ^ 4) - int (4 * r * x ^ 3) =
      (int r - int x) ^ 2 * ((int r + int x) ^ 2 + 2 * int x ^ 2)"
    by (simp add: algebra_simps power_numeral_reduce)
  also have "\<dots> \<ge> 0" by simp
  finally show ?thesis by linarith
qed

lemma newton_ge_root:
  fixes x r N q :: nat
  assumes "0 < x" "r ^ 4 \<le> N" "N div x ^ 3 \<le> q"
  shows "r \<le> (3 * x + q) div 4"
proof (cases "3 * x \<le> 4 * r")
  case True
  have "(4 * r - 3 * x) * x ^ 3 = 4 * r * x ^ 3 - 3 * x ^ 4"
    by (simp add: diff_mult_distrib power_numeral_reduce)
  also have "\<dots> \<le> N" using quartic_am_gm [of r x] assms(2) by linarith
  finally have "4 * r - 3 * x \<le> N div x ^ 3" using assms(1) by (simp add: less_eq_div_iff_mult_less_eq)
  then have "4 * r \<le> 3 * x + q" using assms(3) by linarith
  then show ?thesis by simp
next
  case False
  then show ?thesis by simp
qed

lemma newton_le:
  fixes x N q :: nat
  assumes "N < x ^ 4" "q \<le> N div x ^ 3 + 1"
  shows "(3 * x + q) div 4 \<le> x"
proof -
  have "x ^ 4 = x * x ^ 3" by (simp add: power_numeral_reduce)
  then have "N div x ^ 3 < x" using assms(1) by (simp add: less_mult_imp_div_less)
  then show ?thesis using assms(2) by linarith
qed

lemma cube_dominates: "3 \<le> x \<Longrightarrow> 6 * x ^ 2 + 4 * x + 1 \<le> 3 * x ^ 3" for x :: nat
proof -
  assume "3 \<le> x"
  then obtain k where x: "x = k + 3" using le_Suc_ex by (metis add.commute)
  show ?thesis by (simp add: x algebra_simps power_numeral_reduce)
qed

lemma newton_at_root:
  fixes x N q :: nat
  assumes "3 \<le> x" "N < (x + 1) ^ 4" "q \<le> N div x ^ 3 + 1"
  shows "(3 * x + q) div 4 \<le> x + 1"
proof -
  have "(x + 1) ^ 4 = x ^ 4 + 4 * x ^ 3 + (6 * x ^ 2 + 4 * x + 1)"
    by (simp add: algebra_simps power_numeral_reduce)
  also have "\<dots> \<le> x ^ 4 + 4 * x ^ 3 + 3 * x ^ 3" using cube_dominates [OF assms(1)] by simp
  also have "\<dots> = (x + 7) * x ^ 3" by (simp add: algebra_simps power_numeral_reduce)
  finally have "N < (x + 7) * x ^ 3" using assms(2) by simp
  then have "N div x ^ 3 < x + 7" by (rule less_mult_imp_div_less)
  then show ?thesis using assms(3) by linarith
qed

lemma newton_stop_large:
  fixes x r N q :: nat
  assumes "7 \<le> x" "N < (r + 1) ^ 4" "q \<le> N div x ^ 3 + 1" "x \<le> (3 * x + q) div 4 + 1"
  shows "x \<le> r + 2"
proof (rule ccontr)
  assume "\<not> x \<le> r + 2"
  then have rx: "r + 1 \<le> x - 2" by simp
  obtain k where x: "x = k + 7" using assms(1) by (metis add.commute le_Suc_ex)
  have "(k + 5) ^ 4 \<le> (k + 2) * (k + 7) ^ 3"
    by (simp add: algebra_simps power_numeral_reduce)
  moreover have "(r + 1) ^ 4 \<le> (k + 5) ^ 4" using rx by (intro power_mono) (simp_all add: x)
  ultimately have "N < (k + 2) * (k + 7) ^ 3" using assms(2) by linarith
  then have "N div x ^ 3 < k + 2" unfolding x by (rule less_mult_imp_div_less)
  then show False using assms(3,4) by (simp add: x)
qed

lemma newton_stop_small:
  fixes x r N q :: nat
  assumes "x < 7" "0 < r" "N < (r + 1) ^ 4" "q = N div x ^ 3" "x \<le> (3 * x + q) div 4 + 1" "r < x" "N < x ^ 4"
  shows "(3 * x + q) div 4 \<le> r + 2"
proof (cases "x \<le> r + 2")
  case True
  then show ?thesis using newton_le [OF assms(7), of q] assms(4) by simp
next
  case False
  then have r: "r \<le> 3" "4 \<le> x" using assms(1,2) by simp_all
  then have "(r + 1) ^ 4 \<le> 4 ^ 4" by (intro power_mono) simp_all
  then have N: "N < 256" using assms(3) by simp
  consider "x = 4" "r = 1" | "x = 5" "r \<le> 2" | "x = 6" using False r assms(1,2) by linarith
  then show ?thesis
  proof cases
    case 1
    then have "N < 16" "q = N div 64" using assms(3,4) by (simp_all flip: numeral_2_eq_2)
    then have "q = 0" by simp
    then show ?thesis using 1 by simp
  next
    case 2
    then have "(r + 1) ^ 4 \<le> 3 ^ 4" by (intro power_mono) simp_all
    then have "N < 81" "q = N div 125" using assms(3,4) 2 by simp_all
    then have "q = 0" by simp
    then show ?thesis using assms(5) 2 by simp
  next
    case 3
    then have "q = N div 216" using assms(4) by simp
    then have "q \<le> 1" using N by linarith
    then show ?thesis using assms(5) 3 by linarith
  qed
qed

lemma newton_stop:
  fixes x r N q y :: nat
  assumes "0 < r" "0 < x" "N < (r + 1) ^ 4" "q \<le> N div x ^ 3 + 1" "x < 7 \<longrightarrow> q = N div x ^ 3"
    and y: "y = (3 * x + q) div 4" "x \<le> y + 1" "y \<le> x + 1"
  shows "y \<le> r + 2"
proof (cases "x \<le> r")
  case False
  then have "(r + 1) ^ 4 \<le> x ^ 4" by (intro power_mono) simp_all
  then have lt: "N < x ^ 4" using assms(3) by linarith
  show ?thesis
  proof (cases "x < 7")
    case True
    then show ?thesis using newton_stop_small [OF _ assms(1,3)] assms(5) y lt False by simp
  next
    case large: False
    then have "x \<le> r + 2" using newton_stop_large [OF _ assms(3,4)] y by simp
    then show ?thesis using newton_le [OF lt assms(4)] y(1) by simp
  qed
qed (use y in simp)

text \<open>The step on machine words, while the iterate and the quotient are small enough.\<close>

lemma qroot_step_nat:
  assumes x: "0 < unat x" "unat x \<le> 262144" and b: "unat a div unat x ^ 3 < 16777216"
  shows "\<exists>y q. qroot_step a x = Some y \<and> unat y = (3 * unat x + q) div 4 \<and>
    unat a div unat x ^ 3 \<le> q \<and> q \<le> unat a div unat x ^ 3 + 1 \<and> (unat x < 7 \<longrightarrow> q = unat a div unat x ^ 3)"
proof -
  let ?x3 = "(ucast x :: u64) * ucast x * ucast x"
  have c: "unat x ^ 3 = unat x * unat x * unat x" by (simp add: power_numeral_reduce)
  have b2: "unat x * unat x \<le> 262144 * 262144" using x(2) by (intro mult_le_mono) simp_all
  have b3: "unat x * unat x * unat x \<le> 262144 * 262144 * 262144" using b2 x(2) by (intro mult_le_mono) simp_all
  have "unat ((ucast x :: u64) * ucast x) = unat x * unat x"
    using b2 by (subst unat_mult_bounded) (simp_all add: unat_ucast_32_64)
  then have x3: "unat ?x3 = unat x ^ 3"
    using b3 by (subst unat_mult_bounded) (simp_all add: unat_ucast_32_64 c)
  have "\<exists>q. div64_64 a ?x3 = Some q \<and> unat a div unat x ^ 3 \<le> unat q \<and> unat q \<le> unat a div unat x ^ 3 + 1 \<and>
      (unat x < 7 \<longrightarrow> unat q = unat a div unat x ^ 3)"
  proof (cases "unat ?x3 < 2 ^ 32")
    case True
    have "0 < unat ?x3" using x(1) by (simp add: x3)
    then have "?x3 \<noteq> 0" by auto
    then show ?thesis by (simp add: div64_64_small [OF True] unat_div_word x3)
  next
    case False
    then have big: "2 ^ 32 \<le> unat ?x3" by simp
    have "\<not> unat x < 7"
    proof
      assume "unat x < 7"
      then have "unat x ^ 3 \<le> 6 ^ 3" by (intro power_mono) simp_all
      then show False using big by (simp add: x3)
    qed
    then show ?thesis using div64_64_big [OF big, of a] by (metis x3)
  qed
  then obtain q where q: "div64_64 a ?x3 = Some q" "unat a div unat x ^ 3 \<le> unat q"
      "unat q \<le> unat a div unat x ^ 3 + 1" "unat x < 7 \<longrightarrow> unat q = unat a div unat x ^ 3"
    by blast
  have uq: "unat (ucast q :: u32) = unat q" using q(3) b by (simp add: unat_ucast_64_32)
  have "unat (3 * x) = 3 * unat x" using x(2) by (subst unat_mult_bounded) simp_all
  then have "unat (3 * x + ucast q) = 3 * unat x + unat q"
    using x(2) q(3) b by (subst unat_add_bounded) (simp_all add: uq)
  then show ?thesis
    using q by (simp add: qroot_step_def cdiv64_64_eq unat_div_word) blast
qed

lemma close_iff:
  fixes x y :: u32
  assumes "unat x < 1073741824" "unat y < 1073741824"
  shows "sint (c_abs (x - y)) > 1 \<longleftrightarrow> \<not> (unat x \<le> unat y + 1 \<and> unat y \<le> unat x + 1)"
proof -
  have s: "sint z = int (unat z)" if "unat z < 1073741824" for z :: u32
  proof -
    have "int (unat z) < 1073741824" using that by linarith
    moreover have "- (2 ^ 31) \<le> int (unat z)" by (rule order.trans [of _ 0]) simp_all
    ultimately have "signed_take_bit 31 (int (unat z)) = int (unat z)"
      by (intro signed_take_bit_int_eq_self) simp_all
    then show ?thesis by (simp add: sint_uint)
  qed
  have b: "- 1073741824 < int (unat x) - int (unat y)" "int (unat x) - int (unat y) < 1073741824"
    using assms by linarith+
  have stb: "signed_take_bit 31 k = k" if "- 1073741824 < k" "k < 1073741824" for k :: int
    using that by (intro signed_take_bit_int_eq_self) simp_all
  have d: "sint (x - y) = int (unat x) - int (unat y)"
    using stb [OF b] by (simp add: sint_word_ariths s assms)
  have neg: "sint (- z) = signed_take_bit 31 (- sint z)" for z :: u32 by (simp add: sint_word_ariths)
  have e: "sint (- (x - y)) = - (int (unat x) - int (unat y))"
    unfolding neg [of "x - y"] d by (rule stb) (use b in linarith)+
  show ?thesis
  proof (cases "sint (x - y) < 0")
    case True
    then have "c_abs (x - y) = - (x - y)" unfolding c_abs_def by (rule if_P)
    then have "sint (c_abs (x - y)) = - (int (unat x) - int (unat y))" using e by (simp only:)
    then show ?thesis using True d by presburger
  next
    case False
    then have "c_abs (x - y) = x - y" unfolding c_abs_def by (rule if_not_P)
    then have "sint (c_abs (x - y)) = int (unat x) - int (unat y)" using d by (simp only:)
    then show ?thesis using False d by presburger
  qed
qed

text \<open>
  From an iterate at or above the root the loop returns: above it the iterates decrease until two
  are close, and at the root the next iterate is close, except for roots below three, where it can
  jump to four once.
\<close>

definition is_root4 :: "nat \<Rightarrow> nat \<Rightarrow> bool" where
  "is_root4 r N \<longleftrightarrow> 0 < r \<and> r ^ 4 \<le> N \<and> N < (r + 1) ^ 4"

lemma root4_quotient:
  fixes N r x :: nat
  assumes "is_root4 r N" "r \<le> x"
  shows "N div x ^ 3 < 16 * x"
proof -
  have "(r + 1) ^ 4 \<le> (2 * x) ^ 4" using assms by (intro power_mono) (simp_all add: is_root4_def)
  also have "\<dots> = 16 * x * x ^ 3" by (simp add: power_numeral_reduce)
  finally have "N < 16 * x * x ^ 3" using assms(1) by (simp add: is_root4_def)
  then show ?thesis by (rule less_mult_imp_div_less)
qed

text \<open>One round of the loop from a positive iterate: it stops within two of the root, or goes on.\<close>

lemma qroot_loop_round:
  assumes r: "is_root4 r (unat a)" and x: "0 < unat x" "unat x \<le> 262144"
    and q: "unat a div unat x ^ 3 < 8 * unat x \<or> r \<le> unat x"
  obtains (stop) y where "qroot_loop a x = Some y" "r \<le> unat y" "unat y \<le> r + 2"
  | (continue) y q where "qroot_loop a x = qroot_loop a y" "r \<le> unat y"
      "unat y = (3 * unat x + q) div 4" "q \<le> unat a div unat x ^ 3 + 1" "unat x < 7 \<longrightarrow> q = unat a div unat x ^ 3"
      "\<not> (unat x \<le> unat y + 1 \<and> unat y \<le> unat x + 1)"
proof -
  have "unat a div unat x ^ 3 < 16 * unat x" using q root4_quotient [OF r] by auto
  then have b: "unat a div unat x ^ 3 < 16777216" using x(2) by linarith
  obtain y q where y: "qroot_step a x = Some y" "unat y = (3 * unat x + q) div 4"
      "unat a div unat x ^ 3 \<le> q" "q \<le> unat a div unat x ^ 3 + 1" "unat x < 7 \<longrightarrow> q = unat a div unat x ^ 3"
    using qroot_step_nat [OF x b] by blast
  have ry: "r \<le> unat y" unfolding y(2) using r x(1) y(3) by (intro newton_ge_root) (simp_all add: is_root4_def)
  have small: "unat x < 1073741824" "unat y < 1073741824" using x(2) y(2,4) b by linarith+
  have loop: "qroot_loop a x = (if sint (c_abs (x - y)) > 1 then qroot_loop a y else Some y)"
    by (subst qroot_loop.simps) (simp add: y(1))
  show thesis
  proof (cases "unat x \<le> unat y + 1 \<and> unat y \<le> unat x + 1")
    case True
    then have "unat y \<le> r + 2"
      using r x(1) y by (intro newton_stop [of r "unat x" "unat a" q]) (simp_all add: is_root4_def)
    then show thesis using stop [of y] loop ry True close_iff [OF small] by simp
  next
    case False
    then show thesis using continue [of y q] loop ry y(2,4,5) close_iff [OF small] by simp
  qed
qed

lemma root4_bound: "is_root4 r (unat (a :: u64)) \<Longrightarrow> r < 65536"
proof (rule ccontr)
  assume r: "is_root4 r (unat a)" "\<not> r < 65536"
  then have "(65536 :: nat) ^ 4 \<le> r ^ 4" by (intro power_mono) simp_all
  moreover have "r ^ 4 \<le> unat a" using r(1) by (simp add: is_root4_def)
  ultimately have "(65536 :: nat) ^ 4 \<le> unat a" by (rule order.trans)
  then show False using u64_bound [of a] by simp
qed

lemma qroot_loop_at_root:
  assumes r: "is_root4 r (unat a)" and x: "unat x = r"
  shows "\<exists>y. qroot_loop a x = Some y \<and> r \<le> unat y \<and> unat y \<le> r + 2"
proof -
  have xb: "0 < unat x" "unat x \<le> 262144" using r root4_bound [OF r] x by (simp_all add: is_root4_def)
  have "unat a div unat x ^ 3 < 8 * unat x \<or> r \<le> unat x" using x by simp
  with r xb show ?thesis
  proof (cases rule: qroot_loop_round)
    case (stop y)
    then show ?thesis by blast
  next
    case (continue y q)
    have lt: "unat a < (r + 1) ^ 4" using r by (simp add: is_root4_def)
    show ?thesis
    proof (cases "3 \<le> r")
      case True
      then have "unat y \<le> r + 1" using newton_at_root [OF True lt] continue x by simp
      then show ?thesis using continue x by simp
    next
      case False
      have N: "r = 1 \<Longrightarrow> unat a < 16" "r = 2 \<Longrightarrow> unat a < 81" using lt by (simp_all flip: numeral_2_eq_2)
      have r12: "r = 1 \<or> r = 2" using False r by (auto simp: is_root4_def)
      then have "q = (if r = 1 then unat a else unat a div 8)" using continue(5) x by auto
      then have "unat y \<le> 4" using N r12 continue(3) x by auto
      then have y: "unat y = 3 \<or> unat y = 4" using r12 continue(2,6) x by auto
      then have yb: "0 < unat y" "unat y \<le> 262144" "unat a div unat y ^ 3 < 8 * unat y \<or> r \<le> unat y"
        using r12 by auto
      from r yb have "\<exists>z. qroot_loop a y = Some z \<and> r \<le> unat z \<and> unat z \<le> r + 2"
      proof (cases rule: qroot_loop_round)
        case (continue z p)
        have "p = (if unat y = 3 then unat a div 27 else unat a div 64)" using continue(5) y by auto
        then have "p \<le> 2" "unat y = 4 \<Longrightarrow> p \<le> 1" using N r12 by auto
        then have "unat y \<le> unat z + 1" "unat z \<le> unat y" using continue(3) y by auto
        then show ?thesis using continue(6) by simp
      qed blast
      then show ?thesis using continue(1) by simp
    qed
  qed
qed

lemma qroot_loop_above:
  "\<lbrakk>is_root4 r (unat a); r \<le> unat x; unat x \<le> 262144\<rbrakk> \<Longrightarrow>
   \<exists>y. qroot_loop a x = Some y \<and> r \<le> unat y \<and> unat y \<le> r + 2"
proof (induction "unat x" arbitrary: x rule: less_induct)
  case less
  show ?case
  proof (cases "unat x = r")
    case True
    then show ?thesis using qroot_loop_at_root less.prems by blast
  next
    case False
    then have rx: "r + 1 \<le> unat x" using less.prems(2) by simp
    have pos: "0 < unat x" using rx by simp
    have "unat a div unat x ^ 3 < 8 * unat x \<or> r \<le> unat x" using less.prems(2) by simp
    with less.prems(1) pos less.prems(3) show ?thesis
    proof (cases rule: qroot_loop_round)
      case (continue y q)
      have "unat a < (r + 1) ^ 4" using less.prems(1) by (simp add: is_root4_def)
      also have "\<dots> \<le> unat x ^ 4" using rx by (intro power_mono) simp_all
      finally have "unat y \<le> unat x" using newton_le continue(3,4) by simp
      then have "unat y < unat x" using continue(6) by linarith
      then show ?thesis using less.hyps [of y] less.prems continue(1,2) by simp
    qed blast
  qed
qed

text \<open>The start value is below the root or within a factor of two above it.\<close>

theorem qroot_root4:
  assumes "is_root4 r (unat a)"
  shows "\<exists>y. qroot a = Some y \<and> r \<le> unat y \<and> unat y \<le> r + 2"
proof -
  have nz: "a \<noteq> 0" using assms by (auto simp: is_root4_def)
  define k where "k = unat (fls64 a) div 4"
  note f = fls64_bounds [OF nz]
  have k: "k \<le> 16" "unat (fls64 a) \<le> 4 * k + 3" using f(2) unfolding k_def by linarith+
  define x where "x = (push_bit k 1 :: u32)"
  have "(2::nat) ^ k \<le> 2 ^ 16" using k(1) by (intro power_increasing) simp_all
  then have x: "unat x = 2 ^ k" "unat x \<le> 65536"
    using unat_push_bit_bounded [of "1 :: u32" k] by (simp_all add: x_def)
  have "unat a < 2 ^ unat (fls64 a)" by (rule f(4))
  also have "\<dots> \<le> (2::nat) ^ (4 * k + 3)" using k(2) by (intro power_increasing) simp_all
  also have "\<dots> = 8 * (2 ^ k) ^ 4" by (simp add: power_add mult.commute [of 4 k] power_mult)
  also have "\<dots> = 8 * unat x * unat x ^ 3" unfolding x(1) by (simp add: power_numeral_reduce)
  finally have q8: "unat a div unat x ^ 3 < 8 * unat x" by (rule less_mult_imp_div_less)
  have start: "qroot a = qroot_loop a x"
    using k(1) by (simp add: qroot_def x_def k_def unat_drop_bit)
  have xb: "0 < unat x" "unat x \<le> 262144" using x by simp_all
  have "unat a div unat x ^ 3 < 8 * unat x \<or> r \<le> unat x" using q8 by simp
  with assms xb show ?thesis
  proof (cases rule: qroot_loop_round)
    case (continue y q)
    have "unat y \<le> 262144" using continue(3,4) q8 x(2) by linarith
    then show ?thesis using qroot_loop_above [OF assms continue(2)] start continue(1) by simp
  qed (use start in auto)
qed

lemma qroot_0: "qroot 0 = Some 0"
  by (simp add: qroot_def qroot_loop.simps qroot_step_def cdiv64_64_eq div64_64_small c_abs_def)

lemma root4_exists: "0 < N \<Longrightarrow> \<exists>r. is_root4 r N"
proof (induction N rule: nat_induct_non_zero)
  case 1
  have "is_root4 1 1" by (simp add: is_root4_def flip: numeral_2_eq_2)
  then show ?case by blast
next
  case (Suc N)
  then obtain r where r: "0 < r" "r ^ 4 \<le> N" "N < (r + 1) ^ 4" by (auto simp: is_root4_def)
  have "is_root4 (if (r + 1) ^ 4 \<le> Suc N then r + 1 else r) (Suc N)"
  proof (cases "(r + 1) ^ 4 \<le> Suc N")
    case True
    have "Suc N < (r + 1) ^ 4 + 1" using r(3) by linarith
    also have "\<dots> \<le> (r + 1 + 1) ^ 4" by (simp add: algebra_simps power_numeral_reduce)
    finally show ?thesis using True by (simp add: is_root4_def del: power_Suc)
  next
    case False
    then show ?thesis using r by (simp add: is_root4_def)
  qed
  then show ?case by blast
qed

lemma qroot_defined: "\<exists>y. qroot a = Some y"
proof (cases "a = 0")
  case False
  then obtain r where "is_root4 r (unat a)" using root4_exists [of "unat a"] by (auto simp: unat_gt_0)
  then show ?thesis using qroot_root4 by blast
qed (simp add: qroot_0)

section \<open>The window\<close>

text \<open>The update returns for every socket, whatever the estimates hold.\<close>

lemma compound_dwnd_defined: "\<exists>d. compound_dwnd ow diff dw = Some d"
  using qroot_defined [of "(ucast ow :: u64) * ucast ow * ucast ow"]
  by (auto simp: compound_dwnd_def Let_def)

lemma compound_round_defined: "\<exists>t. compound_round s = Some t"
proof (cases "mss_cache s = 0")
  case False
  let ?v = "icsk_ca_priv s"
  let ?ow = "(cv_beg_snd_nxt ?v - cv_beg_snd_una ?v) div mss_cache s"
  show ?thesis
  proof (cases "cv_minRTT ?v = 0")
    case nz: False
    then obtain tgt where tgt: "vegas_target ?ow (cv_baseRTT ?v) (cv_minRTT ?v) = Some tgt"
      by (simp add: vegas_target_def)
    obtain d where "compound_dwnd ?ow (vegas_diff ?ow tgt) (cv_dwnd ?v) = Some d"
      using compound_dwnd_defined by blast
    then show ?thesis using False nz tgt by (simp add: compound_round_def Let_def ex_bool_eq)
  qed (use False in \<open>simp add: compound_round_def Let_def ex_bool_eq\<close>)
qed (simp add: compound_round_def Let_def ex_bool_eq)

lemma tcp_compound_cong_avoid_defined:
  "\<exists>t. tcp_compound_cong_avoid e s ack rtt in_flight flag = Some t"
proof -
  obtain t where "compound_round (compound_grow (compound_split s)) = Some t"
    using compound_round_defined by blast
  then show ?thesis by (simp add: tcp_compound_cong_avoid_def Let_def split: prod.splits)
qed

text \<open>After the split the two parts do not exceed the window, unless their sum wrapped around.\<close>

lemma compound_split_le:
  assumes "unat (cv_cwnd (icsk_ca_priv s)) + unat (cv_dwnd (icsk_ca_priv s)) < 4294967296"
  shows "unat (cv_cwnd (icsk_ca_priv (compound_split s))) + unat (cv_dwnd (icsk_ca_priv (compound_split s)))
    \<le> unat (snd_cwnd s)"
proof -
  have "unat (cv_cwnd (icsk_ca_priv s) + cv_dwnd (icsk_ca_priv s)) =
      unat (cv_cwnd (icsk_ca_priv s)) + unat (cv_dwnd (icsk_ca_priv s))"
    using assms by (subst unat_add_bounded) simp_all
  then show ?thesis by (auto simp: compound_split_def Let_def word_less_nat_alt unat_sub word_le_nat_alt)
qed

section \<open>Properties\<close>

text \<open>
  The hand-optimised 64-bit division of the module, which takes a 32-bit short cut, returns the
  same value as the division of \<^verbatim>\<open>ns-linux-c.c\<close> on every input, the trap on zero included.
\<close>

theorem cdiv64_64_is_div64_64: "cdiv64_64 dividend divisor = div64_64 dividend divisor"
  by (rule cdiv64_64_eq)

text \<open>
  \<^bold>\<open>C36\<close> The Newton iteration for the fourth root ends for every 64-bit argument, and its result is the
  integer root or exceeds it by at most two.
\<close>

theorem qroot_accuracy:
  "\<exists>y. qroot a = Some y \<and> unat a < (unat y + 1) ^ 4 \<and> (unat y - 2) ^ 4 \<le> unat a"
proof (cases "a = 0")
  case True
  then show ?thesis using qroot_0 by simp
next
  case False
  then obtain r where r: "is_root4 r (unat a)" using root4_exists [of "unat a"] by (auto simp: unat_gt_0)
  from qroot_root4 [OF r] obtain y where y: "qroot a = Some y" "r \<le> unat y" "unat y \<le> r + 2" by blast
  have "unat a < (r + 1) ^ 4" "r ^ 4 \<le> unat a" using r by (simp_all add: is_root4_def)
  moreover have "(r + 1) ^ 4 \<le> (unat y + 1) ^ 4" "(unat y - 2) ^ 4 \<le> r ^ 4"
    using y by (auto intro: power_mono)
  ultimately have "unat a < (unat y + 1) ^ 4" "(unat y - 2) ^ 4 \<le> unat a" by linarith+
  then show ?thesis using y(1) by blast
qed

text \<open>
  The window update of Compound TCP returns in every state: none of its divisors is zero where
  it divides, and the root it takes ends.
\<close>

theorem compound_update_total: "\<exists>t. tcp_compound_cong_avoid e s ack rtt in_flight flag = Some t"
  by (rule tcp_compound_cong_avoid_defined)

end
