(* ===== verification/Cong_List.thy ===== *)
theory Cong_List
  imports Linux_Sock
begin

text \<open>
  The list of registered modules: the intrusive doubly linked list of \<^verbatim>\<open>ns-linux-util.h\<close> (macros
  \<open>list_add_rcu\<close>, \<open>list_add_tail_rcu\<close>, \<open>list_del_rcu\<close>, \<open>list_move\<close>) and the registry half of
  \<^verbatim>\<open>src/ns-2.34/tcp/linux/src/tcp_cong.c\<close>. The pointers are explicit: \<open>lh_next\<close> and \<open>lh_prev\<close> map the
  address of a node to the addresses in its two fields, and the macros update them in the order
  of the source. What the registry relies on is the locale \<open>intrusive_list\<close>, whose laws speak
  about the abstract list of modules; the interpretation shows that the pointer operations
  implement them.
\<close>

section \<open>Data\<close>

text \<open>The part of \<^verbatim>\<open>struct tcp_congestion_ops\<close> the registry reads.\<close>

record ops_info =
  oi_name :: string
  oi_flags :: u32
  oi_has_ssthresh :: bool
  oi_has_cong_avoid :: bool

record cong_globals =
  lh_prev :: "ops_ptr \<Rightarrow> ops_ptr"
  lh_next :: "ops_ptr \<Rightarrow> ops_ptr"
  lh_file_name :: "ops_ptr \<Rightarrow> string option"
  last_added :: ops_ptr
  cc_list_changed :: u8
  ops_at :: "ops_ptr \<Rightarrow> ops_info"

text \<open>The address of the list head; the module nodes have other non-null addresses.\<close>

abbreviation (input) ns_tcp_cong_list :: ops_ptr where "ns_tcp_cong_list \<equiv> 1"

datatype cong_error = EINVAL | EEXIST | ENOENT | EBUSY | ENOMEM | EPERM

section \<open>The list macros\<close>

definition list_add_rcu :: "ops_ptr \<Rightarrow> cong_globals \<Rightarrow> cong_globals" where
  "list_add_rcu a g =
     (let g = g\<lparr>lh_next := (lh_next g)(a := lh_next g ns_tcp_cong_list)\<rparr>;
          g = g\<lparr>lh_prev := (lh_prev g)(a := ns_tcp_cong_list)\<rparr>;
          g = g\<lparr>lh_prev := (lh_prev g)(lh_next g ns_tcp_cong_list := a)\<rparr>;
          g = g\<lparr>lh_next := (lh_next g)(ns_tcp_cong_list := a)\<rparr>
      in g\<lparr>last_added := a, cc_list_changed := 1\<rparr>)"

definition list_add_tail_rcu :: "ops_ptr \<Rightarrow> cong_globals \<Rightarrow> cong_globals" where
  "list_add_tail_rcu a g =
     (let g = g\<lparr>lh_prev := (lh_prev g)(a := lh_prev g ns_tcp_cong_list)\<rparr>;
          g = g\<lparr>lh_next := (lh_next g)(a := ns_tcp_cong_list)\<rparr>;
          g = g\<lparr>lh_next := (lh_next g)(lh_prev g ns_tcp_cong_list := a)\<rparr>;
          g = g\<lparr>lh_prev := (lh_prev g)(ns_tcp_cong_list := a)\<rparr>
      in g\<lparr>last_added := a, cc_list_changed := 1\<rparr>)"

definition list_del_rcu :: "ops_ptr \<Rightarrow> cong_globals \<Rightarrow> cong_globals" where
  "list_del_rcu a g =
     (let g = g\<lparr>lh_next := (lh_next g)(lh_prev g a := lh_next g a)\<rparr>;
          g = g\<lparr>lh_prev := (lh_prev g)(lh_next g a := lh_prev g a)\<rparr>
      in g\<lparr>cc_list_changed := 1\<rparr>)"

definition list_move :: "ops_ptr \<Rightarrow> cong_globals \<Rightarrow> cong_globals" where
  "list_move a g = list_add_rcu a (list_del_rcu a g)"

text \<open>\<open>list_for_each_entry_rcu\<close>: the addresses from a node to the head; a broken list may not end.\<close>

partial_function (option) cong_walk :: "(ops_ptr \<Rightarrow> ops_ptr) \<Rightarrow> ops_ptr \<Rightarrow> ops_ptr list option" where
  "cong_walk nxt p =
     (if p = ns_tcp_cong_list then Some []
      else Option.bind (cong_walk nxt (nxt p)) (\<lambda>ps. Some (p # ps)))"

definition set_linux_file_name :: "string \<Rightarrow> cong_globals \<Rightarrow> cong_globals" where
  "set_linux_file_name nm g =
     (if last_added g \<noteq> ns_tcp_cong_list
      then g\<lparr>lh_file_name := (lh_file_name g)(last_added g \<mapsto> nm)\<rparr> else g)"

text \<open>The start of the program: an empty circular list.\<close>

definition cong_globals_init :: "(ops_ptr \<Rightarrow> ops_info) \<Rightarrow> cong_globals" where
  "cong_globals_init ops = \<lparr>lh_prev = (\<lambda>_. ns_tcp_cong_list), lh_next = (\<lambda>_. ns_tcp_cong_list),
     lh_file_name = (\<lambda>_. None), last_added = ns_tcp_cong_list, cc_list_changed = 0, ops_at = ops\<rparr>"

section \<open>The registry\<close>

text \<open>A null result is address 0; \<^const>\<open>None\<close> stands for a walk that does not end.\<close>

partial_function (option) tcp_ca_find_from :: "cong_globals \<Rightarrow> string \<Rightarrow> ops_ptr \<Rightarrow> ops_ptr option" where
  "tcp_ca_find_from g nm p =
     (if p = ns_tcp_cong_list then Some 0
      else if oi_name (ops_at g p) = nm then Some p
      else tcp_ca_find_from g nm (lh_next g p))"

definition tcp_ca_find :: "cong_globals \<Rightarrow> string \<Rightarrow> ops_ptr exec" where
  "tcp_ca_find g nm = tcp_ca_find_from g nm (lh_next g ns_tcp_cong_list)"

definition tcp_register_congestion_control :: "ops_ptr \<Rightarrow> cong_globals \<Rightarrow> (cong_error + cong_globals) exec" where
  "tcp_register_congestion_control ca g =
     (if \<not> oi_has_ssthresh (ops_at g ca) \<or> \<not> oi_has_cong_avoid (ops_at g ca) then Some (Inl EINVAL)
      else do {
        p \<leftarrow> tcp_ca_find g (oi_name (ops_at g ca));
        Some (if p \<noteq> 0 then Inl EEXIST else Inr (list_add_tail_rcu ca g))
      })"

definition tcp_unregister_congestion_control :: "ops_ptr \<Rightarrow> cong_globals \<Rightarrow> cong_globals" where
  "tcp_unregister_congestion_control ca g = list_del_rcu ca g"

text \<open>The constructor of a module: it registers and names its file, whether or not it was added.\<close>

definition module_register :: "ops_ptr \<Rightarrow> string \<Rightarrow> cong_globals \<Rightarrow> cong_globals exec" where
  "module_register ca file g = do {
     r \<leftarrow> tcp_register_congestion_control ca g;
     Some (set_linux_file_name file (case r of Inl _ \<Rightarrow> g | Inr g' \<Rightarrow> g'))
   }"

definition set_flags :: "ops_ptr \<Rightarrow> (u32 \<Rightarrow> u32) \<Rightarrow> cong_globals \<Rightarrow> cong_globals" where
  "set_flags p f g = g\<lparr>ops_at := (ops_at g)(p := (ops_at g p)\<lparr>oi_flags := f (oi_flags (ops_at g p))\<rparr>)\<rparr>"

definition tcp_set_default_congestion_control :: "string \<Rightarrow> cong_globals \<Rightarrow> (cong_error + cong_globals) exec" where
  "tcp_set_default_congestion_control nm g = do {
     ca \<leftarrow> tcp_ca_find g nm;
     Some (if ca \<noteq> 0 then Inr (list_move ca (set_flags ca (\<lambda>f. f OR TCP_CONG_NON_RESTRICTED) g)) else Inl ENOENT)
   }"

text \<open>On an empty list the code would read the head as a module: no result.\<close>

definition tcp_get_default_congestion_control :: "cong_globals \<Rightarrow> string exec" where
  "tcp_get_default_congestion_control g =
     (if lh_next g ns_tcp_cong_list = ns_tcp_cong_list then None
      else Some (take 16 (oi_name (ops_at g (lh_next g ns_tcp_cong_list)))))"

text \<open>
  \<^verbatim>\<open>snprintf(buf + offs, maxlen - offs, ...)\<close>: it returns the length it would need, and writes at
  most \<open>maxlen - offs\<close> bytes with the final null. An offset past the buffer makes the unsigned
  difference wrap, so that nothing bounds the write: no result. The state is the offset and the
  string the buffer holds; on an empty list \<open>tcp_get_available_congestion_control\<close> leaves the
  buffer as it was, while \<open>tcp_get_allowed_congestion_control\<close> empties it first.
\<close>

definition sn_append :: "nat \<Rightarrow> nat \<times> string \<Rightarrow> string \<Rightarrow> (nat \<times> string) exec" where
  "sn_append maxlen = (\<lambda>(offs, buf) txt.
     if offs > maxlen then None
     else Some (offs + length txt, if offs = maxlen then buf else take (maxlen - 1) (take offs buf @ txt)))"

fun get_names :: "nat \<Rightarrow> cong_globals \<Rightarrow> ops_ptr list \<Rightarrow> nat \<times> string \<Rightarrow> (nat \<times> string) exec" where
  "get_names maxlen g [] st = Some st"
| "get_names maxlen g (p # ps) st =
     Option.bind (sn_append maxlen st ((if fst st = 0 then '''' else '' '') @ oi_name (ops_at g p))) (get_names maxlen g ps)"

definition tcp_get_available_congestion_control :: "string \<Rightarrow> nat \<Rightarrow> cong_globals \<Rightarrow> string exec" where
  "tcp_get_available_congestion_control buf maxlen g = do {
     ps \<leftarrow> cong_walk (lh_next g) (lh_next g ns_tcp_cong_list);
     (_, buf) \<leftarrow> get_names maxlen g ps (0, buf);
     Some buf
   }"

definition non_restricted :: "cong_globals \<Rightarrow> ops_ptr \<Rightarrow> bool" where
  "non_restricted g p \<longleftrightarrow> oi_flags (ops_at g p) AND TCP_CONG_NON_RESTRICTED \<noteq> 0"

definition tcp_get_allowed_congestion_control :: "nat \<Rightarrow> cong_globals \<Rightarrow> string exec" where
  "tcp_get_allowed_congestion_control maxlen g = do {
     ps \<leftarrow> cong_walk (lh_next g) (lh_next g ns_tcp_cong_list);
     (_, buf) \<leftarrow> get_names maxlen g (filter (non_restricted g) ps) (0, '''');
     Some buf
   }"

text \<open>\<^verbatim>\<open>strsep(&s, " ")\<close> in a loop that ends at the first empty token.\<close>

fun strsep_tokens :: "string \<Rightarrow> string \<Rightarrow> string list" where
  "strsep_tokens acc [] = (if acc = [] then [] else [rev acc])"
| "strsep_tokens acc (c # cs) =
     (if c = CHR '' '' then (if acc = [] then [] else rev acc # strsep_tokens [] cs)
      else strsep_tokens (c # acc) cs)"

fun all_found :: "cong_globals \<Rightarrow> string list \<Rightarrow> bool exec" where
  "all_found g [] = Some True"
| "all_found g (nm # nms) = Option.bind (tcp_ca_find g nm) (\<lambda>p. if p = 0 then Some False else all_found g nms)"

fun clear_allowed :: "ops_ptr list \<Rightarrow> cong_globals \<Rightarrow> cong_globals" where
  "clear_allowed [] g = g"
| "clear_allowed (p # ps) g = clear_allowed ps (set_flags p (\<lambda>f. f AND NOT TCP_CONG_NON_RESTRICTED) g)"

fun mark_allowed :: "string list \<Rightarrow> cong_globals \<Rightarrow> cong_globals exec" where
  "mark_allowed [] g = Some g"
| "mark_allowed (nm # nms) g = Option.bind (tcp_ca_find g nm) (\<lambda>p.
     mark_allowed nms (if p \<noteq> 0 then set_flags p (\<lambda>f. f OR TCP_CONG_NON_RESTRICTED) g else g))"

text \<open>
  \<open>cloned\<close> says whether \<^verbatim>\<open>strdup\<close> found memory. The caller's string, which pass 3 cuts into tokens,
  is not used afterwards.
\<close>

definition tcp_set_allowed_congestion_control ::
  "bool \<Rightarrow> string \<Rightarrow> cong_globals \<Rightarrow> (cong_error + cong_globals) exec" where
  "tcp_set_allowed_congestion_control cloned val g =
     (if \<not> cloned then Some (Inl ENOMEM)
      else do {
        ok \<leftarrow> all_found g (strsep_tokens [] val);
        if \<not> ok then Some (Inl ENOENT)
        else do {
          ps \<leftarrow> cong_walk (lh_next g) (lh_next g ns_tcp_cong_list);
          g \<leftarrow> mark_allowed (strsep_tokens [] val) (clear_allowed ps g);
          Some (Inr g)
        }
      })"

text \<open>\<open>try_module_get\<close> is defined as 0 and \<open>capable\<close> as 1 by \<^verbatim>\<open>ns-linux-c.h\<close>.\<close>

definition try_module_get :: bool where "try_module_get = False"
definition capable :: bool where "capable = True"

text \<open>
  The choice of a socket: \<open>init_of\<close> and \<open>release_of\<close> are the callbacks of the modules, by address,
  \<open>init_ops\<close> the address of \<^verbatim>\<open>tcp_init_congestion_ops\<close>, which is not on the list.
\<close>

definition tcp_init_congestion_control ::
  "(ops_ptr \<Rightarrow> ('ca tcp_sock \<Rightarrow> 'ca tcp_sock exec) option) \<Rightarrow> ops_ptr \<Rightarrow> cong_globals \<Rightarrow> 'ca tcp_sock \<Rightarrow>
   'ca tcp_sock exec" where
  "tcp_init_congestion_control init_of init_ops g sk = do {
     sk \<leftarrow> (if icsk_ca_ops sk = init_ops then do {
              ps \<leftarrow> cong_walk (lh_next g) (lh_next g ns_tcp_cong_list);
              Some (case filter (\<lambda>_. try_module_get) ps of [] \<Rightarrow> sk | p # _ \<Rightarrow> sk\<lparr>icsk_ca_ops := p\<rparr>)
            }
            else Some sk);
     (case init_of (icsk_ca_ops sk) of None \<Rightarrow> Some sk | Some f \<Rightarrow> f sk)
   }"

definition tcp_cleanup_congestion_control ::
  "(ops_ptr \<Rightarrow> ('ca tcp_sock \<Rightarrow> 'ca tcp_sock exec) option) \<Rightarrow> 'ca tcp_sock \<Rightarrow> 'ca tcp_sock exec" where
  "tcp_cleanup_congestion_control release_of sk =
     (case release_of (icsk_ca_ops sk) of None \<Rightarrow> Some sk | Some f \<Rightarrow> f sk)"

abbreviation (input) TCP_CLOSE :: c_int where "TCP_CLOSE \<equiv> 0"

definition tcp_set_congestion_control ::
  "(ops_ptr \<Rightarrow> ('ca tcp_sock \<Rightarrow> 'ca tcp_sock exec) option) \<Rightarrow>
   (ops_ptr \<Rightarrow> ('ca tcp_sock \<Rightarrow> 'ca tcp_sock exec) option) \<Rightarrow> string \<Rightarrow> cong_globals \<Rightarrow> 'ca tcp_sock \<Rightarrow>
   (cong_error + 'ca tcp_sock) exec" where
  "tcp_set_congestion_control init_of release_of nm g sk = do {
     ca \<leftarrow> tcp_ca_find g nm;
     if ca = icsk_ca_ops sk then Some (Inr sk)
     else if ca = 0 then Some (Inl ENOENT)
     else if \<not> (non_restricted g ca \<or> capable) then Some (Inl EPERM)
     else if \<not> try_module_get then Some (Inl EBUSY)
     else do {
       sk \<leftarrow> tcp_cleanup_congestion_control release_of sk;
       let sk = sk\<lparr>icsk_ca_ops := ca\<rparr>;
       if sk_state sk \<noteq> TCP_CLOSE
       then map_option Inr (case init_of ca of None \<Rightarrow> Some sk | Some f \<Rightarrow> f sk)
       else Some (Inr sk)
     }
   }"

section \<open>The abstract list\<close>

text \<open>
  \<open>chain f p xs q\<close>: following the field \<open>f\<close> from \<open>p\<close> visits the nodes \<open>xs\<close> and then \<open>q\<close>. A pair of
  pointer functions is a doubly linked list of \<open>ps\<close> when one is a chain through \<open>ps\<close> and the
  other a chain through its reverse.
\<close>

fun chain :: "(ops_ptr \<Rightarrow> ops_ptr) \<Rightarrow> ops_ptr \<Rightarrow> ops_ptr list \<Rightarrow> ops_ptr \<Rightarrow> bool" where
  "chain f p [] q \<longleftrightarrow> f p = q"
| "chain f p (x # xs) q \<longleftrightarrow> f p = x \<and> chain f x xs q"

definition is_node :: "ops_ptr \<Rightarrow> bool" where
  "is_node p \<longleftrightarrow> p \<noteq> 0 \<and> p \<noteq> ns_tcp_cong_list"

definition dll :: "(ops_ptr \<Rightarrow> ops_ptr) \<Rightarrow> (ops_ptr \<Rightarrow> ops_ptr) \<Rightarrow> ops_ptr list \<Rightarrow> bool" where
  "dll n p ps \<longleftrightarrow> distinct ps \<and> (\<forall>x\<in>set ps. is_node x) \<and>
     chain n ns_tcp_cong_list ps ns_tcp_cong_list \<and> chain p ns_tcp_cong_list (rev ps) ns_tcp_cong_list"

definition cong_rep :: "ops_ptr list \<Rightarrow> cong_globals \<Rightarrow> bool" where
  "cong_rep ps g \<longleftrightarrow> dll (lh_next g) (lh_prev g) ps"

lemma dll_sym: "dll p n (rev ps) \<longleftrightarrow> dll n p ps"
  by (auto simp: dll_def)

lemma chain_append: "chain f p (xs @ y # ys) q \<longleftrightarrow> chain f p xs y \<and> chain f y ys q"
  by (induction xs arbitrary: p) auto

lemma chain_source:
  "chain f p xs q \<Longrightarrow> f' p' = f p \<Longrightarrow> (\<And>x. x \<in> set xs \<Longrightarrow> f' x = f x) \<Longrightarrow> chain f' p' xs q"
  by (induction xs arbitrary: p p') auto

lemma chain_last: "chain f p xs q \<Longrightarrow> f (last (p # xs)) = q"
  by (induction xs arbitrary: p) auto

lemma chain_first: "chain f p xs q \<Longrightarrow> f p = hd (xs @ [q])"
  by (cases xs) auto

lemma chain_retarget:
  "distinct (p # xs) \<Longrightarrow> chain f p xs q \<Longrightarrow> chain (f(last (p # xs) := r)) p xs r"
proof (induction xs arbitrary: p)
  case (Cons x xs)
  then have "last (x # xs) \<noteq> p" by (metis distinct.simps(2) last_in_set list.distinct(1))
  with Cons show ?case by auto
qed simp

lemma chain_splice: "chain f p xs (f a) \<Longrightarrow> chain f a ys q \<Longrightarrow> chain f p (xs @ ys) q"
  by (cases ys) (auto simp: chain_append)

lemma last_rev_hd: "hd (rev xs @ [p]) = last (p # xs)"
  by (induction xs rule: rev_induct) auto

lemma dll_prev_head: "dll n p ps \<Longrightarrow> p ns_tcp_cong_list = last (ns_tcp_cong_list # ps)"
  using chain_first last_rev_hd unfolding dll_def by metis

lemma dll_add_tail:
  assumes "dll n p ps" and a: "is_node a" "a \<notin> set ps"
  shows "dll (n(a := 1, p 1 := a)) (p(a := p 1, 1 := a)) (ps @ [a])"
proof -
  have d: "distinct ps" "\<forall>x\<in>set ps. is_node x" "chain n 1 ps 1" "chain p 1 (rev ps) 1"
    using assms by (auto simp: dll_def)
  have l: "p 1 = last (1 # ps)" using dll_prev_head assms(1) by simp
  have h: "1 \<notin> set ps" "a \<noteq> 1" using d a by (auto simp: is_node_def)
  then have "chain (n(a := 1)) 1 ps 1" using d a by (intro chain_source [OF d(3)]) auto
  then have "chain (n(a := 1, p 1 := a)) 1 ps a"
    unfolding l using d h by (intro chain_retarget) auto
  moreover have "last (1 # ps) \<noteq> a" using h a by (metis last_in_set list.distinct(1) set_ConsD)
  ultimately have "chain (n(a := 1, p 1 := a)) 1 (ps @ [a]) 1" using l by (simp add: chain_append)
  moreover have "chain (p(a := p 1, 1 := a)) a (rev ps) 1"
    using h a by (intro chain_source [OF d(4)]) auto
  ultimately show ?thesis using d a by (auto simp: dll_def)
qed

lemma dll_add_front:
  assumes "dll n p ps" and "is_node a" "a \<notin> set ps"
  shows "dll (n(a := n 1, 1 := a)) (p(a := 1, n 1 := a)) (a # ps)"
proof -
  have "dll p n (rev ps)" using assms dll_sym by simp
  from dll_add_tail [OF this] assms have "dll (p(a := 1, n 1 := a)) (n(a := n 1, 1 := a)) (rev (a # ps))"
    by simp
  then show ?thesis by (simp only: dll_sym)
qed

lemma dll_neighbours:
  assumes "dll n p (xs @ a # ys)"
  shows "p a = last (1 # xs)" and "n a = hd (ys @ [1])" and "p a \<noteq> a" and "n a \<noteq> a"
    and "p a \<notin> set ys" and "n a \<notin> set xs"
proof -
  have c: "chain n a ys 1" "chain p a (rev xs) 1" and d: "distinct (1 # xs @ a # ys)"
    using assms by (auto simp: dll_def chain_append is_node_def)
  show p: "p a = last (1 # xs)" using chain_first [OF c(2)] last_rev_hd [of xs 1] by (rule trans)
  show n: "n a = hd (ys @ [1])" using chain_first [OF c(1)] .
  have "last (1 # xs) \<in> set (1 # xs)" "hd (ys @ [1]) \<in> set (1 # ys)" by (auto simp: hd_append)
  then show "p a \<noteq> a" "n a \<noteq> a" "p a \<notin> set ys" "n a \<notin> set xs" unfolding p n using d by auto
qed

text \<open>Unlinking repairs one direction; the other is the same fact on the reversed list.\<close>

lemma chain_unlink:
  assumes "dll n p (xs @ a # ys)"
  shows "chain (n(p a := n a)) 1 (xs @ ys) 1"
proof -
  have c: "chain n 1 xs a" "chain n a ys 1" and d: "distinct (1 # xs @ a # ys)"
    using assms by (auto simp: dll_def chain_append is_node_def)
  note nb = dll_neighbours [OF assms]
  have "chain (n(p a := n a)) 1 xs (n a)" unfolding nb(1) using d c by (intro chain_retarget) auto
  moreover have "chain (n(p a := n a)) a ys 1"
    using nb(3,5) by (intro chain_source [OF c(2)]) auto
  ultimately show ?thesis using nb(3) by (intro chain_splice [where a = a]) auto
qed

lemma dll_del:
  assumes "dll n p ps" and "a \<in> set ps"
  shows "dll (n(p a := n a)) (p(n a := p a)) (remove1 a ps)"
proof -
  obtain xs ys where ps: "ps = xs @ a # ys" using assms(2) split_list by fast
  have d: "dll n p (xs @ a # ys)" using assms ps by simp
  then have rd: "dll p n (rev ys @ a # rev xs)" using dll_sym [of p n "xs @ a # ys"] by simp
  have "remove1 a ps = xs @ ys" using d unfolding ps dll_def by (simp add: remove1_append)
  then show ?thesis using d chain_unlink [OF d] chain_unlink [OF rd] by (auto simp: dll_def)
qed

section \<open>The interface of the list\<close>

text \<open>
  What the registry needs of a list: a representation relation to the sequence of modules, the
  walk that enumerates it, and insertion at either end and removal as operations on the sequence.
\<close>

locale intrusive_list =
  fixes rep :: "ops_ptr list \<Rightarrow> 'g \<Rightarrow> bool"
    and node :: "ops_ptr \<Rightarrow> bool"
    and walk :: "'g \<Rightarrow> ops_ptr list option"
    and add_front add_tail del :: "ops_ptr \<Rightarrow> 'g \<Rightarrow> 'g"
  assumes rep_walk: "rep ps g \<Longrightarrow> walk g = Some ps"
    and rep_distinct: "rep ps g \<Longrightarrow> distinct ps"
    and rep_node: "rep ps g \<Longrightarrow> p \<in> set ps \<Longrightarrow> node p"
    and rep_add_front: "rep ps g \<Longrightarrow> node a \<Longrightarrow> a \<notin> set ps \<Longrightarrow> rep (a # ps) (add_front a g)"
    and rep_add_tail: "rep ps g \<Longrightarrow> node a \<Longrightarrow> a \<notin> set ps \<Longrightarrow> rep (ps @ [a]) (add_tail a g)"
    and rep_del: "rep ps g \<Longrightarrow> a \<in> set ps \<Longrightarrow> rep (remove1 a ps) (del a g)"
begin

lemma rep_unique: "rep ps g \<Longrightarrow> rep qs g \<Longrightarrow> ps = qs"
  by (metis rep_walk option.inject)

lemma rep_move: 
  assumes "rep ps g" and "a \<in> set ps"
  shows "rep (a # remove1 a ps) (add_front a (del a g))"
  using rep_add_front [OF rep_del [OF assms]] rep_node [OF assms] rep_distinct [OF assms(1)] by simp

lemma add_tail_del:
  assumes "rep ps g" and "node a" and "a \<notin> set ps"
  shows "rep ps (del a (add_tail a g))"
  using rep_del [OF rep_add_tail [OF assms], of a] assms(3) by (simp add: remove1_append)

end

lemma cong_walk_chain: "chain f p ps 1 \<Longrightarrow> 1 \<notin> set ps \<Longrightarrow> cong_walk f (f p) = Some ps"
proof (induction ps arbitrary: p)
  case Nil
  then show ?case by (subst cong_walk.simps) simp
next
  case (Cons x xs)
  then have "cong_walk f (f x) = Some xs" "f p = x" "x \<noteq> 1" by auto
  then show ?case by (subst cong_walk.simps) simp
qed

lemma cong_rep_add_front:
  "cong_rep ps g \<Longrightarrow> is_node a \<Longrightarrow> a \<notin> set ps \<Longrightarrow> cong_rep (a # ps) (list_add_rcu a g)"
  using dll_add_front [of "lh_next g" "lh_prev g" ps a]
  by (simp add: cong_rep_def list_add_rcu_def is_node_def)

lemma cong_rep_add_tail:
  "cong_rep ps g \<Longrightarrow> is_node a \<Longrightarrow> a \<notin> set ps \<Longrightarrow> cong_rep (ps @ [a]) (list_add_tail_rcu a g)"
  using dll_add_tail [of "lh_next g" "lh_prev g" ps a]
  by (simp add: cong_rep_def list_add_tail_rcu_def is_node_def)

lemma cong_rep_del:
  assumes "cong_rep ps g" and "a \<in> set ps"
  shows "cong_rep (remove1 a ps) (list_del_rcu a g)"
proof -
  have d: "dll (lh_next g) (lh_prev g) ps" using assms by (simp add: cong_rep_def)
  obtain xs ys where "ps = xs @ a # ys" using assms(2) split_list by fast
  then have "lh_prev g a \<noteq> a" using dll_neighbours(3) d by metis
  with dll_del [OF d assms(2)] show ?thesis by (simp add: cong_rep_def list_del_rcu_def)
qed

interpretation cl: intrusive_list cong_rep is_node "\<lambda>g. cong_walk (lh_next g) (lh_next g ns_tcp_cong_list)"
  list_add_rcu list_add_tail_rcu list_del_rcu
proof unfold_locales
  show "cong_walk (lh_next g) (lh_next g 1) = Some ps" if "cong_rep ps g" for ps g
    using that by (intro cong_walk_chain) (auto simp: cong_rep_def dll_def is_node_def)
qed (simp_all add: cong_rep_add_front cong_rep_add_tail cong_rep_del, simp_all add: cong_rep_def dll_def)

lemma cong_rep_init: "cong_rep [] (cong_globals_init ops)"
  by (simp add: cong_rep_def dll_def cong_globals_init_def)

section \<open>The registry refines a list of modules\<close>

abbreviation oname :: "cong_globals \<Rightarrow> ops_ptr \<Rightarrow> string" where
  "oname g p \<equiv> oi_name (ops_at g p)"

definition find_name :: "(ops_ptr \<Rightarrow> string) \<Rightarrow> string \<Rightarrow> ops_ptr list \<Rightarrow> ops_ptr" where
  "find_name nm_of nm ps = (case find (\<lambda>p. nm_of p = nm) ps of None \<Rightarrow> 0 | Some p \<Rightarrow> p)"

text \<open>The invariant of the registry: a well-formed list of modules with distinct names.\<close>

definition reg_ok :: "ops_ptr list \<Rightarrow> cong_globals \<Rightarrow> bool" where
  "reg_ok ps g \<longleftrightarrow> cong_rep ps g \<and> distinct (map (oname g) ps)"

lemma find_name_simps [simp]:
  "find_name f nm [] = 0"
  "find_name f nm (p # ps) = (if f p = nm then p else find_name f nm ps)"
  by (simp_all add: find_name_def)

lemma find_name_mem: "find_name f nm ps \<noteq> 0 \<Longrightarrow> find_name f nm ps \<in> set ps \<and> f (find_name f nm ps) = nm"
  by (induction ps) auto

lemma find_name_none: "(\<forall>p\<in>set ps. is_node p) \<Longrightarrow> find_name f nm ps = 0 \<longleftrightarrow> nm \<notin> f ` set ps"
  by (induction ps) (auto simp: is_node_def)

lemma find_name_unique:
  "distinct (map f ps) \<Longrightarrow> p \<in> set ps \<Longrightarrow> find_name f (f p) ps = p"
  by (induction ps) auto

lemma tcp_ca_find_chain:
  "chain (lh_next g) p ps 1 \<Longrightarrow> 1 \<notin> set ps \<Longrightarrow>
   tcp_ca_find_from g nm (lh_next g p) = Some (find_name (oname g) nm ps)"
proof (induction ps arbitrary: p)
  case Nil
  then show ?case by (subst tcp_ca_find_from.simps) simp
next
  case (Cons x xs)
  then have "tcp_ca_find_from g nm (lh_next g x) = Some (find_name (oname g) nm xs)"
    "lh_next g p = x" "x \<noteq> 1" by auto
  then show ?case by (subst tcp_ca_find_from.simps) simp
qed

lemma tcp_ca_find_rep: "cong_rep ps g \<Longrightarrow> tcp_ca_find g nm = Some (find_name (oname g) nm ps)"
  unfolding tcp_ca_find_def by (intro tcp_ca_find_chain) (auto simp: cong_rep_def dll_def is_node_def)

lemma ops_at_list [simp]:
  "ops_at (list_add_rcu a g) = ops_at g" "ops_at (list_add_tail_rcu a g) = ops_at g"
  "ops_at (list_del_rcu a g) = ops_at g" "ops_at (list_move a g) = ops_at g"
  by (simp_all add: list_add_rcu_def list_add_tail_rcu_def list_del_rcu_def list_move_def Let_def)

lemma set_flags_simps [simp]:
  "oname (set_flags p f g) q = oname g q" "cong_rep ps (set_flags p f g) = cong_rep ps g"
  "oi_has_ssthresh (ops_at (set_flags p f g) q) = oi_has_ssthresh (ops_at g q)"
  "oi_has_cong_avoid (ops_at (set_flags p f g) q) = oi_has_cong_avoid (ops_at g q)"
  "lh_next (set_flags p f g) = lh_next g" "lh_prev (set_flags p f g) = lh_prev g"
  by (simp_all add: set_flags_def cong_rep_def)

lemma reg_ok_set_flags [simp]: "reg_ok ps (set_flags p f g) = reg_ok ps g"
  by (simp add: reg_ok_def)

lemma set_linux_file_name_simps [simp]:
  "ops_at (set_linux_file_name nm g) = ops_at g" "cong_rep ps (set_linux_file_name nm g) = cong_rep ps g"
  by (simp_all add: set_linux_file_name_def cong_rep_def)

lemma reg_ok_node: "reg_ok ps g \<Longrightarrow> \<forall>p\<in>set ps. is_node p"
  using cl.rep_node by (auto simp: reg_ok_def)

lemma reg_ok_find: "reg_ok ps g \<Longrightarrow> tcp_ca_find g nm = Some (find_name (oname g) nm ps)"
  by (simp add: reg_ok_def tcp_ca_find_rep)

lemma reg_ok_add_tail:
  assumes "reg_ok ps g" and "is_node ca" and "oname g ca \<notin> oname g ` set ps"
  shows "reg_ok (ps @ [ca]) (list_add_tail_rcu ca g)"
  using assms cl.rep_add_tail [of ps g ca] by (auto simp: reg_ok_def)

lemma reg_ok_move:
  assumes "reg_ok ps g" and "ca \<in> set ps"
  shows "reg_ok (ca # remove1 ca ps) (list_move ca g)"
proof -
  have c: "cong_rep (ca # remove1 ca ps) (list_move ca g)" using cl.rep_move assms by (simp add: reg_ok_def list_move_def)
  have "inj_on (oname g) (set ps)" using assms(1) by (simp add: reg_ok_def distinct_map)
  moreover have "set (ca # remove1 ca ps) = set ps"
    using assms cl.rep_distinct by (auto simp: reg_ok_def)
  ultimately show ?thesis using c cl.rep_distinct [OF c] by (simp only: reg_ok_def distinct_map ops_at_list)
qed

lemma reg_ok_del:
  assumes "reg_ok ps g" and "ca \<in> set ps"
  shows "reg_ok (remove1 ca ps) (list_del_rcu ca g)"
proof -
  have "distinct (map (oname g) (remove1 ca ps))" if "distinct (map (oname g) ps)"
    using that by (auto simp: distinct_map intro: inj_on_diff)
  then show ?thesis using assms cl.rep_del by (simp add: reg_ok_def)
qed

text \<open>
  The commands that change the registry, their effect on the sequence of modules, and when the
  code may be called: a module is unregistered only while it is registered.
\<close>

datatype reg_cmd = Register ops_ptr string | Unregister ops_ptr | Set_default string

definition reg_exec :: "reg_cmd \<Rightarrow> cong_globals \<Rightarrow> cong_globals exec" where
  "reg_exec c g = (case c of
       Register ca file \<Rightarrow> module_register ca file g
     | Unregister ca \<Rightarrow> Some (tcp_unregister_congestion_control ca g)
     | Set_default nm \<Rightarrow>
         map_option (\<lambda>r. case r of Inl _ \<Rightarrow> g | Inr g' \<Rightarrow> g') (tcp_set_default_congestion_control nm g))"

definition reg_spec :: "(ops_ptr \<Rightarrow> ops_info) \<Rightarrow> reg_cmd \<Rightarrow> ops_ptr list \<Rightarrow> ops_ptr list" where
  "reg_spec ops c ps = (case c of
       Register ca _ \<Rightarrow>
         if oi_has_ssthresh (ops ca) \<and> oi_has_cong_avoid (ops ca) \<and>
            oi_name (ops ca) \<notin> oi_name ` ops ` set ps then ps @ [ca] else ps
     | Unregister ca \<Rightarrow> remove1 ca ps
     | Set_default nm \<Rightarrow>
         (case find (\<lambda>p. oi_name (ops p) = nm) ps of None \<Rightarrow> ps | Some p \<Rightarrow> p # remove1 p ps))"

definition reg_pre :: "reg_cmd \<Rightarrow> ops_ptr list \<Rightarrow> bool" where
  "reg_pre c ps \<longleftrightarrow> (case c of Register ca _ \<Rightarrow> is_node ca | Unregister ca \<Rightarrow> ca \<in> set ps | Set_default _ \<Rightarrow> True)"

fun reg_run :: "reg_cmd list \<Rightarrow> cong_globals \<Rightarrow> cong_globals exec" where
  "reg_run [] g = Some g"
| "reg_run (c # cs) g = Option.bind (reg_exec c g) (reg_run cs)"

fun reg_spec_run :: "(ops_ptr \<Rightarrow> ops_info) \<Rightarrow> reg_cmd list \<Rightarrow> ops_ptr list \<Rightarrow> ops_ptr list" where
  "reg_spec_run ops [] ps = ps"
| "reg_spec_run ops (c # cs) ps = reg_spec_run ops cs (reg_spec ops c ps)"

fun reg_run_pre :: "(ops_ptr \<Rightarrow> ops_info) \<Rightarrow> reg_cmd list \<Rightarrow> ops_ptr list \<Rightarrow> bool" where
  "reg_run_pre ops [] ps \<longleftrightarrow> True"
| "reg_run_pre ops (c # cs) ps \<longleftrightarrow> reg_pre c ps \<and> reg_run_pre ops cs (reg_spec ops c ps)"

text \<open>The code changes only the flags of a module.\<close>

definition same_modules :: "(ops_ptr \<Rightarrow> ops_info) \<Rightarrow> cong_globals \<Rightarrow> bool" where
  "same_modules ops g \<longleftrightarrow> (\<forall>p. oname g p = oi_name (ops p) \<and>
     oi_has_ssthresh (ops_at g p) = oi_has_ssthresh (ops p) \<and>
     oi_has_cong_avoid (ops_at g p) = oi_has_cong_avoid (ops p))"

lemma same_modulesD:
  assumes "same_modules ops g"
  shows "oname g p = oi_name (ops p)" "oi_has_ssthresh (ops_at g p) = oi_has_ssthresh (ops p)"
    "oi_has_cong_avoid (ops_at g p) = oi_has_cong_avoid (ops p)"
  using assms by (simp_all add: same_modules_def)

lemma same_modules_simps [simp]:
  "same_modules ops (list_add_tail_rcu a g) = same_modules ops g"
  "same_modules ops (list_del_rcu a g) = same_modules ops g"
  "same_modules ops (list_move a g) = same_modules ops g"
  "same_modules ops (set_linux_file_name nm g) = same_modules ops g"
  "same_modules ops (set_flags p f g) = same_modules ops g"
  by (simp_all add: same_modules_def)

lemma tcp_register_rep:
  assumes "reg_ok ps g"
  shows "tcp_register_congestion_control ca g = Some
    (if \<not> oi_has_ssthresh (ops_at g ca) \<or> \<not> oi_has_cong_avoid (ops_at g ca) then Inl EINVAL
     else if oname g ca \<in> oname g ` set ps then Inl EEXIST
     else Inr (list_add_tail_rcu ca g))"
  using reg_ok_find [OF assms] find_name_none [OF reg_ok_node [OF assms]]
  by (auto simp: tcp_register_congestion_control_def simp del: neq0_conv)

lemma tcp_set_default_rep:
  assumes "reg_ok ps g"
  shows "tcp_set_default_congestion_control nm g = Some
    (case find (\<lambda>p. oname g p = nm) ps of None \<Rightarrow> Inl ENOENT
     | Some p \<Rightarrow> Inr (list_move p (set_flags p (\<lambda>f. f OR TCP_CONG_NON_RESTRICTED) g)))"
proof -
  have "p \<noteq> 0" if "find (\<lambda>p. oname g p = nm) ps = Some p" for p
    using that reg_ok_node [OF assms] by (auto simp: find_Some_iff is_node_def)
  then show ?thesis
    by (auto simp: tcp_set_default_congestion_control_def reg_ok_find [OF assms] find_name_def split: option.split)
qed

lemma reg_exec_refines:
  assumes "reg_ok ps g" and "same_modules ops g" and "reg_pre c ps"
  shows "\<exists>g'. reg_exec c g = Some g' \<and> reg_ok (reg_spec ops c ps) g' \<and> same_modules ops g'"
proof (cases c)
  case (Register ca fname)
  have img: "oi_name ` ops ` set ps = oname g ` set ps"
    by (simp add: image_image same_modulesD [OF assms(2)])
  have rl: "reg_ok qs (set_linux_file_name fname h) = reg_ok qs h" for qs h by (simp add: reg_ok_def)
  show ?thesis using assms Register reg_ok_add_tail [OF assms(1), of ca] img
    by (simp add: reg_exec_def reg_spec_def reg_pre_def module_register_def tcp_register_rep [OF assms(1)]
        rl same_modulesD [OF assms(2)])
next
  case (Unregister ca)
  then show ?thesis using assms reg_ok_del
    by (simp add: reg_exec_def reg_spec_def reg_pre_def tcp_unregister_congestion_control_def)
next
  case (Set_default nm)
  have "p \<in> set ps" if "find (\<lambda>p. oname g p = nm) ps = Some p" for p
    using that by (auto simp: find_Some_iff)
  then show ?thesis using assms Set_default
    by (auto simp: reg_exec_def reg_spec_def tcp_set_default_rep [OF assms(1)] same_modulesD [OF assms(2)]
        reg_ok_move split: option.splits)
qed

lemma reg_run_refines_from:
  "reg_ok ps g \<Longrightarrow> same_modules ops g \<Longrightarrow> reg_run_pre ops cs ps \<Longrightarrow>
   \<exists>g'. reg_run cs g = Some g' \<and> reg_ok (reg_spec_run ops cs ps) g' \<and> same_modules ops g'"
proof (induction cs arbitrary: ps g)
  case (Cons c cs)
  then obtain g1 where "reg_exec c g = Some g1" "reg_ok (reg_spec ops c ps) g1" "same_modules ops g1"
    using reg_exec_refines [of ps g ops c] by auto
  then show ?case using Cons.IH [of "reg_spec ops c ps" g1] Cons.prems by simp
qed simp

lemma reg_init: "reg_ok [] (cong_globals_init ops)" "same_modules ops (cong_globals_init ops)"
  using cong_rep_init by (simp_all add: reg_ok_def same_modules_def cong_globals_init_def)

lemma reg_run_ok:
  "reg_run_pre ops cs [] \<Longrightarrow> \<exists>g. reg_run cs (cong_globals_init ops) = Some g \<and> 
   reg_ok (reg_spec_run ops cs []) g \<and> same_modules ops g"
  using reg_run_refines_from reg_init by blast

section \<open>The list of allowed modules\<close>

lemma non_restricted_odd: "non_restricted g p \<longleftrightarrow> odd (oi_flags (ops_at g p))"
  by (simp add: non_restricted_def and_one_eq odd_iff_mod_2_eq_one)

lemma non_restricted_set_flags:
  "non_restricted (set_flags p (\<lambda>f. f OR TCP_CONG_NON_RESTRICTED) g) q \<longleftrightarrow> q = p \<or> non_restricted g q"
  "non_restricted (set_flags p (\<lambda>f. f AND NOT TCP_CONG_NON_RESTRICTED) g) q \<longleftrightarrow> q \<noteq> p \<and> non_restricted g q"
  by (auto simp: non_restricted_odd set_flags_def even_or_iff even_and_iff)

lemma all_found_rep:
  "reg_ok ps g \<Longrightarrow> all_found g nms = Some (set nms \<subseteq> oname g ` set ps)"
  by (induction nms) (simp_all add: reg_ok_find find_name_none [OF reg_ok_node] del: neq0_conv)

lemma clear_allowed_rep:
  "reg_ok ps (clear_allowed qs g) = reg_ok ps g"
  "oname (clear_allowed qs g) p = oname g p"
  "non_restricted (clear_allowed qs g) p \<longleftrightarrow> p \<notin> set qs \<and> non_restricted g p"
  by (induction qs arbitrary: g) (auto simp: non_restricted_set_flags [simplified])

lemma mark_allowed_rep:
  "reg_ok ps g \<Longrightarrow> \<exists>g'. mark_allowed nms g = Some g' \<and> reg_ok ps g' \<and> (\<forall>p. oname g' p = oname g p) \<and>
     (\<forall>p\<in>set ps. non_restricted g' p \<longleftrightarrow> oname g p \<in> set nms \<or> non_restricted g p)"
proof (induction nms arbitrary: g)
  case (Cons nm nms)
  let ?p = "find_name (oname g) nm ps"
  let ?h = "if ?p \<noteq> 0 then set_flags ?p (\<lambda>f. f OR TCP_CONG_NON_RESTRICTED) g else g"
  have "reg_ok ps ?h" "oname ?h p = oname g p" for p using Cons.prems by simp_all
  with Cons.IH [of ?h] obtain g' where g': "mark_allowed nms ?h = Some g'" "reg_ok ps g'"
    "\<forall>p. oname g' p = oname g p"
    "\<forall>p\<in>set ps. non_restricted g' p \<longleftrightarrow> oname g p \<in> set nms \<or> non_restricted ?h p" by auto
  have "non_restricted ?h p \<longleftrightarrow> oname g p = nm \<or> non_restricted g p" if "p \<in> set ps" for p
  proof (cases "?p = 0")
    case True
    then have "oname g p \<noteq> nm" using that find_name_none [OF reg_ok_node [OF Cons.prems]] by auto
    then show ?thesis using True by simp
  next
    case False
    then have "p = ?p \<longleftrightarrow> oname g p = nm"
      using find_name_mem find_name_unique [of "oname g" ps p] that Cons.prems by (auto simp: reg_ok_def)
    then show ?thesis using False by (simp add: non_restricted_set_flags)
  qed
  then show ?case using g' Cons.prems by (auto simp: reg_ok_find)
qed simp

section \<open>The names of the modules\<close>

fun join_names :: "string list \<Rightarrow> string" where
  "join_names [] = ''''"
| "join_names [x] = x"
| "join_names (x # y # xs) = x @ '' '' @ join_names (y # xs)"

lemma join_names_concat: "join_names (x # xs) = x @ concat (map (\<lambda>y. '' '' @ y) xs)"
  by (induction xs arbitrary: x) auto

lemma get_names_rest:
  assumes "offs = length buf" and "0 < offs"
    and "length (buf @ concat (map (\<lambda>p. '' '' @ oname g p) ps)) < maxlen"
  shows "\<exists>n. get_names maxlen g ps (offs, buf) = Some (n, buf @ concat (map (\<lambda>p. '' '' @ oname g p) ps))"
  using assms
proof (induction ps arbitrary: offs buf)
  case (Cons p ps)
  then show ?case using Cons.IH [of "length (buf @ '' '' @ oname g p)" "buf @ '' '' @ oname g p"]
    by (simp add: sn_append_def)
qed simp

lemma get_names_join:
  assumes "ps \<noteq> []" and "\<forall>p\<in>set ps. oname g p \<noteq> ''''" and "length (join_names (map (oname g) ps)) < maxlen"
  shows "\<exists>n. get_names maxlen g ps (0, buf) = Some (n, join_names (map (oname g) ps))"
proof -
  obtain p qs where ps: "ps = p # qs" using assms(1) by (cases ps) auto
  have j: "join_names (map (oname g) ps) = oname g p @ concat (map (\<lambda>p. '' '' @ oname g p) qs)"
    using join_names_concat [of "oname g p" "map (oname g) qs"] by (simp add: ps comp_def)
  then show ?thesis
    using get_names_rest [of "length (oname g p)" "oname g p" g qs maxlen] assms(2,3) 
    by (simp add: ps sn_append_def)
qed

section \<open>Properties\<close>

text \<open>A module with both required callbacks, and one without, to exercise the registry.\<close>

definition sample_ops :: "ops_ptr \<Rightarrow> ops_info" where
  "sample_ops p = \<lparr>oi_name = (if p = 2 then ''reno'' else if p = 3 then ''bic'' else ''cubic''), oi_flags = (if p = 2 then 1 else 0),
     oi_has_ssthresh = True, oi_has_cong_avoid = (p \<noteq> 9)\<rparr>"

lemma sample_registry:
  obtains g where "reg_run [Register 2 ''tcp_cong.c'', Register 3 ''tcp_bic.c''] (cong_globals_init sample_ops) = Some g"
    and "reg_ok [2, 3] g" and "same_modules sample_ops g"
  using reg_run_ok [of sample_ops "[Register 2 ''tcp_cong.c'', Register 3 ''tcp_bic.c'']"]
  by (auto simp: reg_pre_def reg_spec_def is_node_def sample_ops_def)

text \<open>
  \<^bold>\<open>C4\<close> From an empty list, every sequence of registrations, removals of registered modules and
  choices of a default returns, and the doubly linked list it leaves holds exactly the sequence of
  modules of the abstract registry: in order of registration, the chosen default in front, each
  name once.
\<close>

theorem registry_refines:
  assumes "reg_run_pre ops cs []"
  shows "\<exists>g. reg_run cs (cong_globals_init ops) = Some g \<and> cong_rep (reg_spec_run ops cs []) g \<and>
    cong_walk (lh_next g) (lh_next g ns_tcp_cong_list) = Some (reg_spec_run ops cs []) \<and>
    distinct (map (oi_name \<circ> ops) (reg_spec_run ops cs []))"
proof -
  obtain g where g: "reg_run cs (cong_globals_init ops) = Some g" "reg_ok (reg_spec_run ops cs []) g" "same_modules ops g"
    using reg_run_ok [OF assms] by blast
  have "oname g = oi_name \<circ> ops" using same_modulesD(1) [OF g(3)] by auto
  then show ?thesis using g cl.rep_walk by (auto simp: reg_ok_def)
qed

theorem registry_refines_witness:
  "\<exists>g. reg_run [Register 2 ''a'', Register 3 ''b'', Register 4 ''c'', Set_default ''bic'', Unregister 2, Register 7 ''d'']
     (cong_globals_init sample_ops) = Some g \<and> cong_rep [3, 4] g"
  using registry_refines [of sample_ops
      "[Register 2 ''a'', Register 3 ''b'', Register 4 ''c'', Set_default ''bic'', Unregister 2, Register 7 ''d'']"]
  by (auto simp: reg_pre_def reg_spec_def is_node_def sample_ops_def)

text \<open>
  Registering a module: \<open>EINVAL\<close> when a required callback is missing, else \<open>EEXIST\<close> when the name
  is taken, else the module is the new last one and nothing but the list has changed.
\<close>

theorem register_outcome:
  assumes "reg_ok ps g" and "is_node ca"
  shows "case tcp_register_congestion_control ca g of
      None \<Rightarrow> False
    | Some (Inl err) \<Rightarrow> err = (if oi_has_ssthresh (ops_at g ca) \<and> oi_has_cong_avoid (ops_at g ca) then EEXIST else EINVAL) \<and>
        (err = EEXIST \<longrightarrow> oname g ca \<in> oname g ` set ps)
    | Some (Inr g') \<Rightarrow> oname g ca \<notin> oname g ` set ps \<and> reg_ok (ps @ [ca]) g' \<and> ops_at g' = ops_at g"
  using reg_ok_add_tail [OF assms] by (auto simp: tcp_register_rep [OF assms(1)])

theorem register_outcome_witness:
  "\<exists>g g'. reg_ok [2, 3] g \<and> tcp_register_congestion_control 4 g = Some (Inr g') \<and> reg_ok [2, 3, 4] g'"
proof -
  obtain g where g: "reg_ok [2, 3] g" "same_modules sample_ops g" by (rule sample_registry)
  have "tcp_register_congestion_control 4 g = Some (Inr (list_add_tail_rcu 4 g))"
    by (simp add: tcp_register_rep [OF g(1)] same_modulesD [OF g(2)] sample_ops_def)
  then show ?thesis using register_outcome [OF g(1), of 4] g by (auto simp: is_node_def)
qed

text \<open>
  After a default has been chosen, it is the one reported (its first 16 characters), it is
  allowed for everybody, and the other modules keep their order behind it; an unknown name is
  \<open>ENOENT\<close>.
\<close>

theorem set_default_outcome:
  assumes "reg_ok ps g"
  shows "case tcp_set_default_congestion_control nm g of
      None \<Rightarrow> False
    | Some (Inl err) \<Rightarrow> err = ENOENT \<and> nm \<notin> oname g ` set ps
    | Some (Inr g') \<Rightarrow> tcp_get_default_congestion_control g' = Some (take 16 nm) \<and>
        (\<exists>p\<in>set ps. oname g p = nm \<and> non_restricted g' p \<and> reg_ok (p # remove1 p ps) g')"
proof (cases "find (\<lambda>p. oname g p = nm) ps")
  case None
  then have "nm \<notin> oname g ` set ps" by (auto simp: find_None_iff)
  with None show ?thesis by (simp add: tcp_set_default_rep [OF assms])
next
  case (Some p)
  let ?g = "list_move p (set_flags p (\<lambda>f. f OR TCP_CONG_NON_RESTRICTED) g)"
  have p: "p \<in> set ps" "oname g p = nm" using Some by (auto simp: find_Some_iff)
  have r: "reg_ok (p # remove1 p ps) ?g" using assms p by (simp add: reg_ok_move)
  then have "lh_next ?g 1 = p" "p \<noteq> 1" by (auto simp: reg_ok_def cong_rep_def dll_def is_node_def)
  then have "tcp_get_default_congestion_control ?g = Some (take 16 nm)"
    using p by (simp add: tcp_get_default_congestion_control_def)
  moreover have "non_restricted ?g p"
    using non_restricted_set_flags(1) [of p g p] by (simp add: non_restricted_def)
  ultimately show ?thesis using Some p r by (auto simp: tcp_set_default_rep [OF assms])
qed

theorem set_default_outcome_witness:
  "\<exists>g g'. reg_ok [2, 3] g \<and> tcp_set_default_congestion_control ''bic'' g = Some (Inr g') \<and>
     tcp_get_default_congestion_control g' = Some ''bic''"
proof -
  obtain g where g: "reg_ok [2, 3] g" "same_modules sample_ops g" by (rule sample_registry)
  have "\<exists>g'. tcp_set_default_congestion_control ''bic'' g = Some (Inr g')"
    by (simp add: tcp_set_default_rep [OF g(1)] same_modulesD [OF g(2)] sample_ops_def)
  then show ?thesis using set_default_outcome [OF g(1), of "''bic''"] g by auto
qed

text \<open>
  Setting the allowed list: when one of its names is unknown the answer is \<open>ENOENT\<close>; otherwise
  the modules that unprivileged users may choose are afterwards exactly the named ones, and the
  list of modules is the same.
\<close>

theorem set_allowed_outcome:
  assumes "reg_ok ps g"
  shows "case tcp_set_allowed_congestion_control True val g of
      None \<Rightarrow> False
    | Some (Inl err) \<Rightarrow> err = ENOENT \<and> \<not> set (strsep_tokens [] val) \<subseteq> oname g ` set ps
    | Some (Inr g') \<Rightarrow> set (strsep_tokens [] val) \<subseteq> oname g ` set ps \<and> reg_ok ps g' \<and>
        (\<forall>p\<in>set ps. non_restricted g' p \<longleftrightarrow> oname g p \<in> set (strsep_tokens [] val))"
proof (cases "set (strsep_tokens [] val) \<subseteq> oname g ` set ps")
  case True
  have ok: "reg_ok ps (clear_allowed ps g)" using assms by (simp add: clear_allowed_rep)
  obtain g' where "mark_allowed (strsep_tokens [] val) (clear_allowed ps g) = Some g'" "reg_ok ps g'"
    "\<forall>p\<in>set ps. non_restricted g' p \<longleftrightarrow> oname g p \<in> set (strsep_tokens [] val)"
    using mark_allowed_rep [OF ok, of "strsep_tokens [] val"] by (auto simp: clear_allowed_rep)
  moreover have "cong_walk (lh_next g) (lh_next g 1) = Some ps" using assms cl.rep_walk by (auto simp: reg_ok_def)
  ultimately show ?thesis using True
    by (simp add: tcp_set_allowed_congestion_control_def all_found_rep [OF assms])
next
  case False
  then show ?thesis by (simp add: tcp_set_allowed_congestion_control_def all_found_rep [OF assms])
qed

theorem set_allowed_outcome_witness:
  "\<exists>g g'. reg_ok [2, 3] g \<and> tcp_set_allowed_congestion_control True ''bic'' g = Some (Inr g') \<and>
     \<not> non_restricted g' 2 \<and> non_restricted g' 3"
proof -
  obtain g where g: "reg_ok [2, 3] g" "same_modules sample_ops g" by (rule sample_registry)
  have nms: "oname g ` set [2, 3] = {''reno'', ''bic''}" by (auto simp: same_modulesD [OF g(2)] sample_ops_def)
  have tk: "strsep_tokens [] ''bic'' = [''bic'']" by simp
  have n: "oname g 2 = ''reno''" "oname g 3 = ''bic''" by (simp_all add: same_modulesD [OF g(2)] sample_ops_def)
  show ?thesis using set_allowed_outcome [OF g(1), of "''bic''"] g(1) n unfolding tk nms
    by (auto split: option.splits sum.splits)
qed

text \<open>
  The list of available modules: when it fits the buffer with its final null, the buffer
  holds the names in the order of the list, separated by single spaces.
\<close>

theorem available_names:
  assumes "reg_ok ps g" and "ps \<noteq> []" and "\<forall>p\<in>set ps. oname g p \<noteq> ''''"
    and "length (join_names (map (oname g) ps)) < maxlen"
  shows "tcp_get_available_congestion_control buf maxlen g = Some (join_names (map (oname g) ps))"
proof -
  have "cong_walk (lh_next g) (lh_next g 1) = Some ps" using assms(1) cl.rep_walk by (auto simp: reg_ok_def)
  then show ?thesis using get_names_join [OF assms(2-4), of buf]
    by (auto simp: tcp_get_available_congestion_control_def)
qed

theorem available_names_witness:
  "\<exists>g. reg_ok [2, 3] g \<and> tcp_get_available_congestion_control ''?'' 9 g = Some ''reno bic''"
proof -
  obtain g where g: "reg_ok [2, 3] g" "same_modules sample_ops g" by (rule sample_registry)
  then show ?thesis using available_names [OF g(1), of 9 "''?''"]
    by (auto simp: same_modulesD [OF g(2)] sample_ops_def)
qed

text \<open>
  Changing the module of a socket never succeeds: the answer is success without a change when
  the named module is already installed, \<open>ENOENT\<close> for an unknown name, and \<open>EBUSY\<close> for every other
  module, since the simulator defines \<^verbatim>\<open>try_module_get\<close> as 0.
\<close>

theorem set_congestion_control_refused:
  assumes "reg_ok ps g" and "is_node (icsk_ca_ops sk)"
  shows "tcp_set_congestion_control init_of release_of nm g sk = Some
    (if nm \<notin> oname g ` set ps then Inl ENOENT
     else if find_name (oname g) nm ps = icsk_ca_ops sk then Inr sk else Inl EBUSY)"
  using find_name_none [OF reg_ok_node [OF assms(1)], of "oname g" nm] assms(2)
  by (auto simp: tcp_set_congestion_control_def reg_ok_find [OF assms(1)] try_module_get_def capable_def
      is_node_def)

theorem set_congestion_control_refused_witness:
  "\<exists>g. reg_ok [2, 3] g \<and> tcp_set_congestion_control (\<lambda>_. None) (\<lambda>_. None) ''bic'' g
     \<lparr>sk_state = 1, snd_nxt = 0, snd_una = 0, mss_cache = 1460, srtt = 800,
      rx_opt = \<lparr>rcv_tsval = 0, rcv_tsecr = 0, saw_tstamp = False\<rparr>, snd_ssthresh = 50, snd_cwnd = 10,
      snd_cwnd_cnt = 0, snd_cwnd_clamp = 100, snd_cwnd_stamp = 0, bytes_acked = 0, icsk_ca_ops = 2,
      icsk_ca_state = TCP_CA_Open, icsk_ca_priv = ()\<rparr> = Some (Inl EBUSY)"
proof -
  obtain g where g: "reg_ok [2, 3] g" "same_modules sample_ops g" by (rule sample_registry)
  show ?thesis
    by (rule exI [of _ g], subst set_congestion_control_refused [OF g(1)])
      (simp_all add: is_node_def same_modulesD [OF g(2)] sample_ops_def g(1))
qed

text \<open>
  The constructor of a module whose registration is refused still records its file name: on
  the module that was added last, whose own name is lost.
\<close>

theorem failed_registration_renames_last:
  assumes "reg_ok ps g" and "oname g ca \<in> oname g ` set ps" and "last_added g \<noteq> ns_tcp_cong_list"
  shows "module_register ca fname g = Some (g\<lparr>lh_file_name := (lh_file_name g)(last_added g \<mapsto> fname)\<rparr>)"
  using assms by (simp add: module_register_def tcp_register_rep [OF assms(1)] set_linux_file_name_def)

theorem failed_registration_renames_last_witness:
  "\<exists>g. reg_ok [2, 3] g \<and> last_added g = 3 \<and>
     map_option (\<lambda>g'. lh_file_name g' 3) (module_register 2 ''tcp_reno2.c'' g) = Some (Some ''tcp_reno2.c'')"
proof -
  define g0 where "g0 = list_add_tail_rcu 2 (cong_globals_init sample_ops)"
  define g where "g = list_add_tail_rcu 3 g0"
  have nm: "ops_at g0 = sample_ops" by (simp add: g0_def cong_globals_init_def)
  have "reg_ok ([] @ [2]) g0" unfolding g0_def
    by (rule reg_ok_add_tail [OF reg_init(1)]) (simp_all add: is_node_def)
  then have ok: "reg_ok [2, 3] g" unfolding g_def
    using reg_ok_add_tail [of "[2]" g0 3] nm by (simp add: is_node_def sample_ops_def)
  have "last_added g = 3" by (simp add: g_def list_add_tail_rcu_def Let_def)
  then show ?thesis using failed_registration_renames_last [OF ok, of 2 "''tcp_reno2.c''"] ok
    by (intro exI [of _ g]) simp
qed

end
