(* ===== verification/Cc_Params.thy ===== *)
theory Cc_Params
  imports Linux_Prelude
begin

text \<open>
  The table of module parameters, \<^verbatim>\<open>src/ns-2.34/tcp/linux/ns-linux-c.c\<close> (\<open>find_cc_by_proto\<close> to
  \<open>record_linux_param_description\<close>) and the structs \<^verbatim>\<open>cc_list\<close>, \<^verbatim>\<open>cc_param_list\<close> of
  \<^verbatim>\<open>ns-linux-util.h\<close>. The macros \<^verbatim>\<open>module_param\<close> and \<^verbatim>\<open>MODULE_PARM_DESC\<close> fill it from
  constructors, which the linker runs in an order the sources do not fix.

  The two singly linked lists are HOL lists in the order of their \<^verbatim>\<open>next\<close> pointers; a pointer to a
  node is its position. The locale \<open>param_table\<close> states the contract as a map from protocol
  and name to the entry, and shows that the order of the constructors does not matter.
\<close>

section \<open>Data\<close>

record cc_param =
  cp_name :: string
  cp_type :: "string option"
  cp_description :: "string option"
  cp_ptr :: nat

record cc_node =
  cc_proto :: string
  cc_params :: "cc_param list"

type_synonym cc_table = "cc_node list"

section \<open>Operations\<close>

text \<open>The while loops: how many nodes are passed before one with the wanted name, or all of them.\<close>

fun skip_until :: "('a \<Rightarrow> bool) \<Rightarrow> 'a list \<Rightarrow> nat" where
  "skip_until P [] = 0"
| "skip_until P (x # xs) = (if P x then 0 else Suc (skip_until P xs))"

text \<open>A search that, when it runs off the list, allocates a node and puts it in front.\<close>

definition find_or_prepend :: "('a \<Rightarrow> string) \<Rightarrow> string \<Rightarrow> 'a \<Rightarrow> 'a list \<Rightarrow> nat \<times> 'a list" where
  "find_or_prepend key k fresh xs =
     (let p = skip_until (\<lambda>x. key x = k) xs in if p = length xs then (0, fresh # xs) else (p, xs))"

definition cc_fresh :: "string \<Rightarrow> cc_param" where
  "cc_fresh nm = \<lparr>cp_name = nm, cp_type = None, cp_description = None, cp_ptr = 0\<rparr>"

definition find_cc_by_proto :: "string \<Rightarrow> cc_table \<Rightarrow> nat \<times> cc_table" where
  "find_cc_by_proto proto tbl = find_or_prepend cc_proto proto \<lparr>cc_proto = proto, cc_params = []\<rparr> tbl"

definition find_param_by_proto_name :: "string \<Rightarrow> string \<Rightarrow> cc_table \<Rightarrow> (nat \<times> nat) \<times> cc_table" where
  "find_param_by_proto_name proto nm tbl =
     (let (p, tbl) = find_cc_by_proto proto tbl;
          (q, ps) = find_or_prepend cp_name nm (cc_fresh nm) (cc_params (tbl ! p))
      in ((p, q), tbl[p := (tbl ! p)\<lparr>cc_params := ps\<rparr>]))"

definition upd_param :: "nat \<times> nat \<Rightarrow> (cc_param \<Rightarrow> cc_param) \<Rightarrow> cc_table \<Rightarrow> cc_table" where
  "upd_param = (\<lambda>(p, q) f tbl. tbl[p := (tbl ! p)\<lparr>cc_params := (cc_params (tbl ! p))[q := f (cc_params (tbl ! p) ! q)]\<rparr>])"

definition record_linux_param :: "string \<Rightarrow> string \<Rightarrow> string \<Rightarrow> nat \<Rightarrow> cc_table \<Rightarrow> cc_table" where
  "record_linux_param proto nm ty ptr tbl =
     (let (pq, tbl) = find_param_by_proto_name proto nm tbl in
      upd_param pq (\<lambda>c. c\<lparr>cp_type := Some ty, cp_ptr := ptr\<rparr>) tbl)"

definition record_linux_param_description :: "string \<Rightarrow> string \<Rightarrow> string \<Rightarrow> cc_table \<Rightarrow> cc_table" where
  "record_linux_param_description proto nm ex tbl =
     (let (pq, tbl) = find_param_by_proto_name proto nm tbl in
      upd_param pq (\<lambda>c. c\<lparr>cp_description := Some ex\<rparr>) tbl)"

text \<open>
  \<^verbatim>\<open>ns-linux-param.c\<close>: the global parameters, each an \<^verbatim>\<open>unsigned char\<close> that is registered with
  the type name \<open>int\<close>; \<open>addr\<close> gives the addresses of the three variables.
\<close>

definition ns_linux_param :: "(string \<Rightarrow> nat) \<Rightarrow> cc_table \<Rightarrow> cc_table" where
  "ns_linux_param addr tbl =
     (let f = ''tcp_linux.c'';
          reg = (\<lambda>nm ex tbl. record_linux_param_description f nm ex (record_linux_param f nm ''int'' (addr nm) tbl));
          tbl = reg ''sysctl_tcp_abc'' ''whether we needs ABC or not'' tbl;
          tbl = reg ''tcp_max_burst'' ''the maximum burst size of a TCP'' tbl
      in reg ''debug_level'' ''The debug level: 0: INFO; <=1: NOTICE; <=2: ERROR'' tbl)"

section \<open>The map the table represents\<close>

definition cc_lookup :: "cc_table \<Rightarrow> string \<Rightarrow> string \<Rightarrow> cc_param option" where
  "cc_lookup tbl proto nm =
     Option.bind (find (\<lambda>c. cc_proto c = proto) tbl) (\<lambda>c. find (\<lambda>q. cp_name q = nm) (cc_params c))"

definition cc_entry :: "cc_table \<Rightarrow> string \<Rightarrow> string \<Rightarrow> cc_param" where
  "cc_entry tbl proto nm = (case cc_lookup tbl proto nm of None \<Rightarrow> cc_fresh nm | Some c \<Rightarrow> c)"

definition cc_table_ok :: "cc_table \<Rightarrow> bool" where
  "cc_table_ok tbl \<longleftrightarrow> distinct (map cc_proto tbl) \<and> (\<forall>c\<in>set tbl. distinct (map cp_name (cc_params c)))"

lemma skip_until_hit:
  "skip_until P xs \<noteq> length xs \<Longrightarrow> skip_until P xs < length xs \<and> P (xs ! skip_until P xs)"
  by (induction xs) (auto split: if_splits)

lemma find_skip_until:
  "find P xs = (if skip_until P xs = length xs then None else Some (xs ! skip_until P xs))"
  by (induction xs) auto

lemma find_key_update:
  assumes "i < length xs" and "key (xs ! i) = k" and "key y = k" and "i = skip_until (\<lambda>x. key x = k) xs"
  shows "find (\<lambda>x. key x = k') (xs[i := y]) = (if k' = k then Some y else find (\<lambda>x. key x = k') xs)"
  using assms by (induction xs arbitrary: i) (auto split: if_splits)

text \<open>What the search returns, and what a write through the returned pointer does to later searches.\<close>

lemma find_or_prepend_entry:
  assumes "find_or_prepend key k fresh xs = (i, ys)" and "key fresh = k"
  shows "i < length ys" and "key (ys ! i) = k"
    and "ys ! i = (case find (\<lambda>x. key x = k) xs of None \<Rightarrow> fresh | Some x \<Rightarrow> x)"
    and "distinct (map key xs) \<Longrightarrow> distinct (map key ys)"
    and "i = skip_until (\<lambda>x. key x = k) ys"
    and "k' \<noteq> k \<Longrightarrow> find (\<lambda>x. key x = k') ys = find (\<lambda>x. key x = k') xs"
proof -
  let ?P = "\<lambda>x. key x = k"
  have "key ` set xs \<inter> {k} = {}" if "find ?P xs = None" using that by (auto simp: find_None_iff)
  then show "i < length ys" "key (ys ! i) = k" "ys ! i = (case find ?P xs of None \<Rightarrow> fresh | Some x \<Rightarrow> x)"
    "distinct (map key xs) \<Longrightarrow> distinct (map key ys)" "i = skip_until ?P ys"
    "k' \<noteq> k \<Longrightarrow> find (\<lambda>x. key x = k') ys = find (\<lambda>x. key x = k') xs"
    using assms skip_until_hit [of ?P xs]
    by (auto simp: find_or_prepend_def Let_def find_skip_until [of ?P] split: if_splits)
qed

lemma find_or_prepend_write:
  assumes "find_or_prepend key k fresh xs = (i, ys)" and "key fresh = k" and "key y = k"
  shows "find (\<lambda>x. key x = k') (ys[i := y]) = (if k' = k then Some y else find (\<lambda>x. key x = k') xs)"
    and "distinct (map key xs) \<Longrightarrow> distinct (map key (ys[i := y]))"
proof -
  note e = find_or_prepend_entry [OF assms(1,2)]
  show "find (\<lambda>x. key x = k') (ys[i := y]) = (if k' = k then Some y else find (\<lambda>x. key x = k') xs)"
    using find_key_update [of i ys key k y k', OF e(1,2) assms(3) e(5)] e(6) [of k'] by auto
  have "map key (ys[i := y]) = map key ys" using e(1,2) assms(3) by (simp add: map_update list_update_same_conv)
  then show "distinct (map key xs) \<Longrightarrow> distinct (map key (ys[i := y]))" using e(4) by simp
qed

text \<open>Both recorders are one write through the pointer that the search returns.\<close>

definition cc_modify :: "string \<Rightarrow> string \<Rightarrow> (cc_param \<Rightarrow> cc_param) \<Rightarrow> cc_table \<Rightarrow> cc_table" where
  "cc_modify proto nm f tbl = (let (pq, tbl) = find_param_by_proto_name proto nm tbl in upd_param pq f tbl)"

lemma cc_modify_cases:
  obtains p t q ps where "find_cc_by_proto proto tbl = (p, t)" and "p < length t"
    and "find_or_prepend cp_name nm (cc_fresh nm) (cc_params (t ! p)) = (q, ps)"
    and "cc_modify proto nm f tbl = t[p := (t ! p)\<lparr>cc_params := ps[q := f (ps ! q)]\<rparr>]"
proof -
  obtain p t where pt: "find_cc_by_proto proto tbl = (p, t)" by force
  obtain q ps where qp: "find_or_prepend cp_name nm (cc_fresh nm) (cc_params (t ! p)) = (q, ps)" by force
  have "p < length t" using find_or_prepend_entry(1) [OF pt [unfolded find_cc_by_proto_def]] by simp
  with pt qp show thesis
    by (intro that [of p t q ps]) (simp_all add: cc_modify_def find_param_by_proto_name_def upd_param_def)
qed

lemma cc_modify_lookup:
  assumes f: "\<And>c. cp_name (f c) = cp_name c"
  shows "cc_lookup (cc_modify proto nm f tbl) proto' nm' =
    (if proto' = proto \<and> nm' = nm then Some (f (cc_entry tbl proto nm)) else cc_lookup tbl proto' nm')"
proof -
  obtain p t q ps where
    pt: "find_or_prepend cc_proto proto \<lparr>cc_proto = proto, cc_params = []\<rparr> tbl = (p, t)" and
    qp: "find_or_prepend cp_name nm (cc_fresh nm) (cc_params (t ! p)) = (q, ps)" and
    m: "cc_modify proto nm f tbl = t[p := (t ! p)\<lparr>cc_params := ps[q := f (ps ! q)]\<rparr>]"
    by (rule cc_modify_cases [of proto tbl nm f, unfolded find_cc_by_proto_def]) blast
  note e1 = find_or_prepend_entry [OF pt, simplified]
  have fresh: "cp_name (cc_fresh nm) = nm" by (simp add: cc_fresh_def)
  note e2 = find_or_prepend_entry [OF qp fresh]
  have y: "cp_name (f (ps ! q)) = nm" using f e2(2) by simp
  have old: "find (\<lambda>c. cp_name c = n) (cc_params (t ! p)) = cc_lookup tbl proto n" for n
    using e1(3) by (simp add: cc_lookup_def split: option.splits)
  have psq: "ps ! q = cc_entry tbl proto nm" unfolding e2(3) old cc_entry_def ..
  have "find (\<lambda>c. cc_proto c = proto') (cc_modify proto nm f tbl) =
      (if proto' = proto then Some ((t ! p)\<lparr>cc_params := ps[q := f (ps ! q)]\<rparr>) else find (\<lambda>c. cc_proto c = proto') tbl)"
    unfolding m using e1(2) by (intro find_or_prepend_write(1) [OF pt]) simp_all
  moreover have "find (\<lambda>c. cp_name c = nm') (ps[q := f (ps ! q)]) =
      (if nm' = nm then Some (f (cc_entry tbl proto nm)) else cc_lookup tbl proto nm')"
    using find_or_prepend_write(1) [OF qp fresh y, of nm'] old [of nm'] psq by simp
  ultimately show ?thesis by (cases "nm' = nm") (auto simp: cc_lookup_def)
qed

lemma cc_modify_ok:
  assumes f: "\<And>c. cp_name (f c) = cp_name c" and ok: "cc_table_ok tbl"
  shows "cc_table_ok (cc_modify proto nm f tbl)"
proof -
  obtain p t q ps where
    pt: "find_or_prepend cc_proto proto \<lparr>cc_proto = proto, cc_params = []\<rparr> tbl = (p, t)" and
    qp: "find_or_prepend cp_name nm (cc_fresh nm) (cc_params (t ! p)) = (q, ps)" and
    m: "cc_modify proto nm f tbl = t[p := (t ! p)\<lparr>cc_params := ps[q := f (ps ! q)]\<rparr>]"
    by (rule cc_modify_cases [of proto tbl nm f, unfolded find_cc_by_proto_def]) blast
  note e1 = find_or_prepend_entry [OF pt, simplified]
  have fresh: "cp_name (cc_fresh nm) = nm" by (simp add: cc_fresh_def)
  have y: "cp_name (f (ps ! q)) = nm" using f find_or_prepend_entry(2) [OF qp fresh] by simp
  have sub: "\<forall>c\<in>set t. distinct (map cp_name (cc_params c))"
    using pt ok by (auto simp: find_or_prepend_def Let_def cc_table_ok_def split: if_splits)
  then have "distinct (map cp_name (cc_params (t ! p)))" using e1(1) by simp
  then have "distinct (map cp_name (ps[q := f (ps ! q)]))" by (rule find_or_prepend_write(2) [OF qp fresh y])
  moreover have "distinct (map cc_proto (cc_modify proto nm f tbl))"
    unfolding m using e1(2) ok by (intro find_or_prepend_write(2) [OF pt]) (simp_all add: cc_table_ok_def)
  ultimately show ?thesis unfolding cc_table_ok_def m using sub by (auto dest!: subsetD [OF set_update_subset_insert])
qed

section \<open>The contract\<close>

locale param_table =
  fixes lookup :: "'t \<Rightarrow> string \<Rightarrow> string \<Rightarrow> cc_param option"
    and ok :: "'t \<Rightarrow> bool"
    and record_param :: "string \<Rightarrow> string \<Rightarrow> string \<Rightarrow> nat \<Rightarrow> 't \<Rightarrow> 't"
    and record_desc :: "string \<Rightarrow> string \<Rightarrow> string \<Rightarrow> 't \<Rightarrow> 't"
    and entry :: "'t \<Rightarrow> string \<Rightarrow> string \<Rightarrow> cc_param"
  assumes entry_eq: "entry t p n = (case lookup t p n of None \<Rightarrow> cc_fresh n | Some c \<Rightarrow> c)"
    and lookup_param: "lookup (record_param p n ty a t) p' n' =
      (if p' = p \<and> n' = n then Some ((entry t p n)\<lparr>cp_type := Some ty, cp_ptr := a\<rparr>) else lookup t p' n')"
    and lookup_desc: "lookup (record_desc p n d t) p' n' =
      (if p' = p \<and> n' = n then Some ((entry t p n)\<lparr>cp_description := Some d\<rparr>) else lookup t p' n')"
    and ok_param: "ok t \<Longrightarrow> ok (record_param p n ty a t)"
    and ok_desc: "ok t \<Longrightarrow> ok (record_desc p n d t)"
begin

lemma param_desc_commute:
  "lookup (record_desc p n d (record_param p' n' ty a t)) = lookup (record_param p' n' ty a (record_desc p n d t))"
  by (intro ext) (auto simp: lookup_param lookup_desc entry_eq)

lemma param_param_commute:
  "(p, n) \<noteq> (p', n') \<Longrightarrow>
   lookup (record_param p n ty a (record_param p' n' ty' a' t)) = lookup (record_param p' n' ty' a' (record_param p n ty a t))"
  by (intro ext) (auto simp: lookup_param entry_eq)

lemma full_entry:
  "lookup (record_desc p n d (record_param p n ty a t)) p n =
   Some ((entry t p n)\<lparr>cp_type := Some ty, cp_description := Some d, cp_ptr := a\<rparr>)"
  by (simp add: lookup_param lookup_desc entry_eq)

end

lemma record_linux_param_modify:
  "record_linux_param proto nm ty ptr tbl = cc_modify proto nm (\<lambda>c. c\<lparr>cp_type := Some ty, cp_ptr := ptr\<rparr>) tbl"
  "record_linux_param_description proto nm ex tbl = cc_modify proto nm (\<lambda>c. c\<lparr>cp_description := Some ex\<rparr>) tbl"
  by (simp_all add: record_linux_param_def record_linux_param_description_def cc_modify_def)

interpretation pt: param_table cc_lookup cc_table_ok record_linux_param record_linux_param_description cc_entry
  by unfold_locales (simp_all add: cc_entry_def record_linux_param_modify cc_modify_lookup cc_modify_ok)

section \<open>Properties\<close>

text \<open>
  Recording a parameter or a description changes the entry of that protocol and name, creating
  it when it is missing, and no other entry; protocols and names stay unique.
\<close>

theorem param_record_lookup:
  "cc_lookup (record_linux_param p n ty a tbl) p' n' =
     (if p' = p \<and> n' = n then Some ((cc_entry tbl p n)\<lparr>cp_type := Some ty, cp_ptr := a\<rparr>) else cc_lookup tbl p' n') \<and>
   cc_lookup (record_linux_param_description p n d tbl) p' n' =
     (if p' = p \<and> n' = n then Some ((cc_entry tbl p n)\<lparr>cp_description := Some d\<rparr>) else cc_lookup tbl p' n') \<and>
   (\<not> cc_table_ok tbl \<or>
     cc_table_ok (record_linux_param p n ty a tbl) \<and> cc_table_ok (record_linux_param_description p n d tbl))"
  using pt.lookup_param pt.lookup_desc pt.ok_param pt.ok_desc by simp

theorem param_record_lookup_witness:
  "cc_lookup (record_linux_param_description ''tcp_bic.c'' ''beta'' ''b'' (record_linux_param ''tcp_bic.c'' ''beta'' ''int'' 9 []))
     ''tcp_bic.c'' ''beta'' =
   Some \<lparr>cp_name = ''beta'', cp_type = Some ''int'', cp_description = Some ''b'', cp_ptr = 9\<rparr> \<and>
   cc_table_ok (record_linux_param ''tcp_bic.c'' ''beta'' ''int'' 9 [])"
  using param_record_lookup [of "''tcp_bic.c''" "''beta''" "''int''" 9 "[]" "''tcp_bic.c''" "''beta''" "''b''"]
    param_record_lookup [of "''tcp_bic.c''" "''beta''" "''int''" 9
      "record_linux_param ''tcp_bic.c'' ''beta'' ''int'' 9 []" "''tcp_bic.c''" "''beta''" "''b''"]
  by (simp add: cc_entry_def cc_lookup_def cc_fresh_def cc_table_ok_def)

text \<open>
  The constructors of a module run in an unspecified order; declaring a parameter and describing
  it (the same or another one) gives the same table, read by lookups, in either order.
\<close>

theorem param_order_irrelevant:
  "cc_lookup (record_linux_param_description p n d (record_linux_param p' n' ty a tbl)) =
   cc_lookup (record_linux_param p' n' ty a (record_linux_param_description p n d tbl))"
  by (rule pt.param_desc_commute)

lemma ns_linux_param_lookup:
  "cc_lookup (ns_linux_param addr tbl) ''tcp_linux.c'' nm =
   (if nm = ''debug_level'' then Some ((cc_entry tbl ''tcp_linux.c'' nm)\<lparr>cp_type := Some ''int'', cp_ptr := addr nm,
      cp_description := Some ''The debug level: 0: INFO; <=1: NOTICE; <=2: ERROR''\<rparr>)
    else if nm = ''tcp_max_burst'' then Some ((cc_entry tbl ''tcp_linux.c'' nm)\<lparr>cp_type := Some ''int'', cp_ptr := addr nm,
      cp_description := Some ''the maximum burst size of a TCP''\<rparr>)
    else if nm = ''sysctl_tcp_abc'' then Some ((cc_entry tbl ''tcp_linux.c'' nm)\<lparr>cp_type := Some ''int'', cp_ptr := addr nm,
      cp_description := Some ''whether we needs ABC or not''\<rparr>)
    else cc_lookup tbl ''tcp_linux.c'' nm)"
  by (simp add: ns_linux_param_def Let_def pt.lookup_param pt.lookup_desc cc_entry_def)

text \<open>
  Whatever was registered before, the three global variables of \<^verbatim>\<open>ns-linux-param.c\<close>, which the
  source declares as single bytes, end up in the table with their own addresses and the type
  name \<open>int\<close>.
\<close>

theorem ns_linux_param_types:
  "map (\<lambda>nm. map_option (\<lambda>c. (cp_type c, cp_ptr c)) (cc_lookup (ns_linux_param addr tbl) ''tcp_linux.c'' nm))
     [''sysctl_tcp_abc'', ''tcp_max_burst'', ''debug_level''] =
   map (\<lambda>nm. Some (Some ''int'', addr nm)) [''sysctl_tcp_abc'', ''tcp_max_burst'', ''debug_level'']"
  by (simp add: ns_linux_param_lookup)

end
