(* ===== verification/Scoreboard1.thy ===== *)
theory Scoreboard1
  imports Linux_Prelude
begin

text \<open>
  \<^verbatim>\<open>src/ns-2.34/tcp/scoreboard1.cc\<close> and \<^verbatim>\<open>scoreboard1.h\<close>: the SACK scoreboard of TCP-Linux, a linked list of
  blocks of consecutive segments with the same state (in flight, sacked, lost, retransmitted), with
  counters of the sacked and the lost segments and a pointer to the next segment to retransmit.

  The list owns its nodes, so it is a HOL list in the order of \<^verbatim>\<open>next_in_queue_\<close>; the only other pointer,
  \<^verbatim>\<open>nxt_to_retrx_\<close>, is a position in it. The traversals of the source keep a pointer to the node before
  the current one; here the visited prefix and the rest of the list are the arguments of a
  recursive function. Segment numbers are ideal integers. A result \<^const>\<open>None\<close> is a failed assertion
  (the program exits), the deletion of the node that \<^verbatim>\<open>nxt_to_retrx_\<close> points at, a write past the arrays of SACK blocks, or a traversal
  that does not end; the lemmas show that none of these occurs on a well-formed scoreboard.
\<close>

section \<open>Data\<close>

datatype skb_flag = SKB_FLAG_INFLIGHT | SKB_FLAG_SACKED | SKB_FLAG_LOST | SKB_FLAG_RETRANSMITTED

record sb_node =
  sb_flag :: skb_flag
  sb_seq :: int
  sb_nxt :: int
  sb_retran :: int

record scoreboard =
  sb_nodes :: "sb_node list"
  nxt_to_retrx :: "nat option"
  acked_rtx_id :: int
  rtx_id :: int
  sb_fack :: int
  fack_out :: int
  sack_out :: int
  last_rtx_seq :: int

abbreviation (input) FLAG_ECE :: u8 where "FLAG_ECE \<equiv> 1"
abbreviation (input) FLAG_DATA_SACKED :: u8 where "FLAG_DATA_SACKED \<equiv> 2"
abbreviation (input) FLAG_DATA_ACKED :: u8 where "FLAG_DATA_ACKED \<equiv> 4"
abbreviation (input) FLAG_DATA_LOST :: u8 where "FLAG_DATA_LOST \<equiv> 8"
abbreviation (input) FLAG_UNSURE_TSTAMP :: u8 where "FLAG_UNSURE_TSTAMP \<equiv> 16"
abbreviation (input) NSA :: nat where "NSA \<equiv> 3"

section \<open>Nodes\<close>

text \<open>The constructor leaves \<^verbatim>\<open>retran_\<close> unset; it is read only of retransmitted nodes, which set it.\<close>

definition new_node :: "int \<Rightarrow> int \<Rightarrow> skb_flag \<Rightarrow> sb_node" where
  "new_node start en flag = \<lparr>sb_flag = flag, sb_seq = start, sb_nxt = en, sb_retran = 0\<rparr>"

definition GetEnd :: "sb_node \<Rightarrow> int" where
  "GetEnd n = (if sb_flag n = SKB_FLAG_RETRANSMITTED then sb_seq n else sb_nxt n)"

definition GetLength :: "sb_node \<Rightarrow> int" where
  "GetLength n = (if sb_flag n = SKB_FLAG_RETRANSMITTED then 1 else sb_nxt n + 1 - sb_seq n)"

definition SetFlag :: "skb_flag \<Rightarrow> sb_node \<Rightarrow> sb_node" where
  "SetFlag flag n = (if sb_flag n = SKB_FLAG_RETRANSMITTED then n\<lparr>sb_nxt := sb_seq n\<rparr> else n)\<lparr>sb_flag := flag\<rparr>"

definition Inside :: "int \<Rightarrow> sb_node \<Rightarrow> bool" where
  "Inside seq n \<longleftrightarrow> (if sb_flag n = SKB_FLAG_RETRANSMITTED then seq = sb_seq n else sb_seq n \<le> seq \<and> seq \<le> sb_nxt n)"

definition ShouldClean :: "int \<Rightarrow> sb_node \<Rightarrow> int" where
  "ShouldClean ackseq n =
     (if ackseq < sb_seq n then 0
      else if sb_flag n = SKB_FLAG_RETRANSMITTED \<or> ackseq \<ge> sb_nxt n then - 1
      else ackseq + 1 - sb_seq n)"

text \<open>Whether \<open>next\<close>, the node after \<open>n\<close>, can be merged into it, and the merged node.\<close>

definition Mergable :: "sb_node \<Rightarrow> sb_node \<Rightarrow> bool" where
  "Mergable n nxt \<longleftrightarrow> sb_flag nxt \<noteq> SKB_FLAG_RETRANSMITTED \<and> sb_flag nxt = sb_flag n"

definition Merge :: "sb_node \<Rightarrow> sb_node \<Rightarrow> sb_node" where
  "Merge n nxt = n\<lparr>sb_nxt := sb_nxt nxt\<rparr>"

definition Split :: "int \<Rightarrow> sb_node \<Rightarrow> sb_node \<times> sb_node" where
  "Split seq n = (n\<lparr>sb_nxt := seq - 1\<rparr>, new_node seq (sb_nxt n) (sb_flag n))"

definition node_MarkRetran :: "int \<Rightarrow> int \<Rightarrow> sb_node \<Rightarrow> sb_node list" where
  "node_MarkRetran sndnxt retrans_id n =
     (let (n, ex) = (if sb_nxt n > sb_seq n then (case Split (sb_seq n + 1) n of (a, b) \<Rightarrow> (a, [b])) else (n, []))
      in n\<lparr>sb_flag := SKB_FLAG_RETRANSMITTED, sb_nxt := sndnxt, sb_retran := retrans_id\<rparr> # ex)"

section \<open>Clearing and cleaning\<close>

definition ClearScoreBoard :: "scoreboard \<Rightarrow> scoreboard" where
  "ClearScoreBoard sb = sb\<lparr>rtx_id := 0, acked_rtx_id := - 1, fack_out := 0, sack_out := 0, sb_fack := 0,
     nxt_to_retrx := None, sb_nodes := []\<rparr>"

definition new_scoreboard :: scoreboard where
  "new_scoreboard = ClearScoreBoard \<lparr>sb_nodes = [], nxt_to_retrx = None, acked_rtx_id = 0, rtx_id = 0, sb_fack = 0,
     fack_out = 0, sack_out = 0, last_rtx_seq = - 1\<rparr>"

definition IsEmpty :: "scoreboard \<Rightarrow> bool" where
  "IsEmpty sb \<longleftrightarrow> sb_nodes sb = []"

definition sb_packets_in_flight :: "int \<Rightarrow> int \<Rightarrow> scoreboard \<Rightarrow> int" where
  "sb_packets_in_flight snduna sndnxt sb = sndnxt - snduna - fack_out sb - sack_out sb"

text \<open>The pointer to the next retransmission when the head is deleted: it moves to the new head.\<close>

definition drop_head_ptr :: "sb_node list \<Rightarrow> nat option \<Rightarrow> nat option" where
  "drop_head_ptr rest p = (case p of None \<Rightarrow> None | Some 0 \<Rightarrow> (if rest = [] then None else Some 0) | Some (Suc i) \<Rightarrow> Some i)"

fun CleanRtxQueue :: "int \<Rightarrow> sb_node list \<Rightarrow> scoreboard \<Rightarrow> u8 \<Rightarrow> bool \<Rightarrow> (scoreboard \<times> u8 \<times> bool) exec" where
  "CleanRtxQueue last_ack [] sb flag changed = Some (sb\<lparr>sb_nodes := []\<rparr>, flag, changed)"
| "CleanRtxQueue last_ack (h # rest) sb flag changed =
     (let cmp = ShouldClean last_ack h in
      if cmp = 0 then Some (sb\<lparr>sb_nodes := h # rest\<rparr>, flag, changed)
      else
        let pkt_num = (if cmp < 0 then GetLength h else cmp);
            sb = (if sb_flag h = SKB_FLAG_SACKED then sb\<lparr>sack_out := sack_out sb - pkt_num\<rparr>
                  else if sb_flag h = SKB_FLAG_LOST then sb\<lparr>fack_out := fack_out sb - pkt_num\<rparr> else sb)
        in if sb_flag h = SKB_FLAG_SACKED \<and> sack_out sb < 0 \<or> sb_flag h = SKB_FLAG_LOST \<and> fack_out sb < 0 then None
           else if cmp < 0 then
             let retr = (sb_flag h = SKB_FLAG_RETRANSMITTED);
                 newer = (retr \<and> sb_retran h > acked_rtx_id sb);
                 sb = (if newer then sb\<lparr>acked_rtx_id := sb_retran h\<rparr> else sb);
                 sb = sb\<lparr>nxt_to_retrx := drop_head_ptr rest (nxt_to_retrx sb)\<rparr>
             in CleanRtxQueue last_ack rest sb (if retr then flag OR FLAG_UNSURE_TSTAMP else flag) (changed \<or> newer)
           else Some (sb\<lparr>sb_nodes := h\<lparr>sb_seq := last_ack + 1\<rparr> # rest\<rparr>, flag, changed))"

section \<open>The update\<close>

text \<open>The arrays \<^verbatim>\<open>left\<close> and \<^verbatim>\<open>right\<close>: D-SACK blocks are dropped, the others inserted by their left edge.\<close>

fun sack_insert :: "int \<times> int \<Rightarrow> (int \<times> int) list \<Rightarrow> (int \<times> int) list" where
  "sack_insert x [] = [x]"
| "sack_insert x (y # ys) = (if fst y > fst x then x # y # ys else y # sack_insert x ys)"

fun sack_sort :: "int \<Rightarrow> (int \<times> int) list \<Rightarrow> (int \<times> int) list \<Rightarrow> (int \<times> int) list exec" where
  "sack_sort last_ack [] acc = Some acc"
| "sack_sort last_ack (x # xs) acc =
     (if fst x \<ge> last_ack
      then (if length acc \<ge> NSA + 1 then None else sack_sort last_ack xs (sack_insert x acc))
      else sack_sort last_ack xs acc)"

text \<open>The variables of the traversal: the counters, the flags to return, and the SACK blocks not yet passed.\<close>

record sb_upd =
  u_sb :: scoreboard
  u_flag :: u8
  u_thorough :: bool
  u_sacks :: "(int \<times> int) list"

abbreviation upd_sb :: "(scoreboard \<Rightarrow> scoreboard) \<Rightarrow> sb_upd \<Rightarrow> sb_upd" where
  "upd_sb f u \<equiv> u\<lparr>u_sb := f (u_sb u)\<rparr>"

text \<open>The comparison of the current block with the SACK block that follows: split it or mark it.\<close>

definition sack_now :: "sb_node \<Rightarrow> sb_upd \<Rightarrow> sb_node \<times> sb_node list \<times> sb_upd" where
  "sack_now now u =
     (case u_sacks u of [] \<Rightarrow> (now, [], u)
      | (l, r) # _ \<Rightarrow>
          if l \<le> GetEnd now then
            if l > sb_seq now then (case Split l now of (a, b) \<Rightarrow> (a, [b], u))
            else
              let (now, ex) = (if r \<le> GetEnd now then (case Split r now of (a, b) \<Rightarrow> (a, [b])) else (now, []));
                  pktnum = GetLength now;
                  u = (case sb_flag now of
                         SKB_FLAG_LOST \<Rightarrow> upd_sb (\<lambda>sb. sb\<lparr>fack_out := fack_out sb - pktnum\<rparr>) u
                       | SKB_FLAG_RETRANSMITTED \<Rightarrow> (upd_sb (\<lambda>sb. sb\<lparr>acked_rtx_id := sb_retran now\<rparr>) u)
                           \<lparr>u_flag := u_flag u OR FLAG_UNSURE_TSTAMP, u_thorough := True\<rparr>
                       | _ \<Rightarrow> u);
                  u = (upd_sb (\<lambda>sb. sb\<lparr>sack_out := sack_out sb + pktnum\<rparr>) u)\<lparr>u_flag := u_flag u OR FLAG_DATA_SACKED\<rparr>
              in (SetFlag SKB_FLAG_SACKED now, ex, u)
          else (now, [], u))"

definition set_nxt :: "nat \<Rightarrow> scoreboard \<Rightarrow> scoreboard" where
  "set_nxt i sb = (if nxt_to_retrx sb = None then sb\<lparr>nxt_to_retrx := Some i\<rparr> else sb)"

text \<open>The loss detection on a block that is not sacked; \<open>i\<close> is its position.\<close>

definition check_now :: "int \<Rightarrow> nat \<Rightarrow> sb_node \<Rightarrow> sb_upd \<Rightarrow> sb_node \<times> sb_node list \<times> sb_upd" where
  "check_now dupack_threshold i now u =
     (let fk = sb_fack (u_sb u); thr = fk - (dupack_threshold + 1) in
      case sb_flag now of
        SKB_FLAG_RETRANSMITTED \<Rightarrow>
          if sb_nxt now \<le> fk \<or> sb_retran now + dupack_threshold + 1 < acked_rtx_id (u_sb u)
          then (SetFlag SKB_FLAG_LOST now, [],
                (upd_sb (\<lambda>sb. set_nxt i (sb\<lparr>fack_out := fack_out sb + 1\<rparr>)) u)\<lparr>u_flag := u_flag u OR FLAG_DATA_LOST\<rparr>)
          else (now, [], u)
      | SKB_FLAG_INFLIGHT \<Rightarrow>
          if sb_seq now \<le> thr then
            let (now, ex) = (if thr < GetEnd now then (case Split (thr + 1) now of (a, b) \<Rightarrow> (a, [b])) else (now, []));
                now = SetFlag SKB_FLAG_LOST now
            in (now, ex, (upd_sb (\<lambda>sb. set_nxt i (sb\<lparr>fack_out := fack_out sb + GetLength now\<rparr>)) u)
                           \<lparr>u_flag := u_flag u OR FLAG_DATA_LOST\<rparr>)
          else (now, [], u)
      | SKB_FLAG_LOST \<Rightarrow> (now, [], upd_sb (set_nxt i) u)
      | SKB_FLAG_SACKED \<Rightarrow> (now, [], u))"

definition visit_now :: "int \<Rightarrow> nat \<Rightarrow> sb_node \<Rightarrow> sb_upd \<Rightarrow> sb_node \<times> sb_node list \<times> sb_upd" where
  "visit_now dupack_threshold i now u =
     (if sb_flag now = SKB_FLAG_SACKED then (now, [], u)
      else
        let u = u\<lparr>u_sacks := dropWhile (\<lambda>(l, r). r \<le> sb_seq now) (u_sacks u)\<rparr>;
            (now, ex, u) = sack_now now u
        in if u_sacks u = [] \<or> fst (hd (u_sacks u)) > GetEnd now
           then (case check_now dupack_threshold i now u of (now, ex', u) \<Rightarrow> (now, ex' @ ex, u))
           else (now, ex, u))"

definition push_node :: "sb_node list \<Rightarrow> sb_node \<Rightarrow> sb_node list" where
  "push_node pre now = (if pre \<noteq> [] \<and> Mergable (last pre) now then butlast pre @ [Merge (last pre) now] else pre @ [now])"

text \<open>
  The traversal: \<open>pre\<close> are the visited nodes, whose last one is \<^verbatim>\<open>prev\<close>. Merging the current node into
  \<^verbatim>\<open>prev\<close> deletes it, and a pointer to it would dangle.
\<close>

partial_function (option) update_loop ::
  "int \<Rightarrow> sb_node list \<Rightarrow> sb_node list \<Rightarrow> sb_upd \<Rightarrow> (sb_node list \<times> sb_upd) option" where
  "update_loop dupack_threshold pre cur u =
     (case cur of [] \<Rightarrow> Some (pre, u)
      | now # rest \<Rightarrow>
          if u_sacks u = [] \<and> \<not> u_thorough u then Some (pre @ cur, u)
          else (case visit_now dupack_threshold (length pre) now u of (now, ex, u) \<Rightarrow>
            if pre \<noteq> [] \<and> Mergable (last pre) now \<and> nxt_to_retrx (u_sb u) = Some (length pre) then None
            else
              (let pre = push_node pre now;
                   rest = ex @ rest;
                   rest = (if rest = [] \<and> GetEnd (last pre) < sb_fack (u_sb u)
                           then [new_node (GetEnd (last pre) + 1) (sb_fack (u_sb u)) SKB_FLAG_INFLIGHT] else rest)
               in update_loop dupack_threshold pre rest u)))"

definition traverse :: "int \<Rightarrow> (int \<times> int) list \<Rightarrow> int \<Rightarrow> u8 \<Rightarrow> bool \<Rightarrow> scoreboard \<Rightarrow> (u8 \<times> scoreboard) exec" where
  "traverse last_ack ss dupack_threshold flag thorough sb =
     (let adv = (ss \<noteq> [] \<and> sb_fack sb < snd (last ss) - 1);
          sb = (if adv then sb\<lparr>sb_fack := snd (last ss) - 1\<rparr> else sb);
          nodes = (if sb_nodes sb = [] then [new_node (last_ack + 1) (sb_fack sb) SKB_FLAG_INFLIGHT] else sb_nodes sb)
      in case update_loop dupack_threshold [] nodes
           \<lparr>u_sb = sb\<lparr>nxt_to_retrx := None\<rparr>, u_flag = flag, u_thorough = thorough \<or> adv, u_sacks = ss\<rparr> of
           None \<Rightarrow> None
         | Some (nodes, u) \<Rightarrow> Some (u_flag u, (u_sb u)\<lparr>sb_nodes := nodes\<rparr>))"

definition UpdateScoreBoard ::
  "int \<Rightarrow> (int \<times> int) list \<Rightarrow> int \<Rightarrow> scoreboard \<Rightarrow> (u8 \<times> scoreboard) exec" where
  "UpdateScoreBoard last_ack sacks dupack_threshold sb = do {
     (sb, flag, thorough) \<leftarrow> CleanRtxQueue last_ack (sb_nodes sb) sb 0 False;
     let (sb, thorough) = (if sb_nodes sb = [] then (ClearScoreBoard sb, False) else (sb, thorough));
     if \<not> thorough \<and> sacks = [] then Some (flag, sb)
     else do {
       ss \<leftarrow> sack_sort last_ack sacks [];
       if \<not> thorough \<and> ss = [] then Some (flag, sb)
       else traverse last_ack ss dupack_threshold flag thorough sb
     }
   }"

section \<open>Timeouts and retransmissions\<close>

definition mark_step :: "sb_node list \<times> bool \<times> scoreboard \<Rightarrow> sb_node \<Rightarrow> sb_node list \<times> bool \<times> scoreboard" where
  "mark_step = (\<lambda>(pre, last_lost, sb) now.
     if sb_flag now \<noteq> SKB_FLAG_SACKED then
       let sb = (if sb_flag now \<noteq> SKB_FLAG_LOST then sb\<lparr>fack_out := fack_out sb + (GetEnd now - sb_seq now + 1)\<rparr> else sb);
           now = SetFlag SKB_FLAG_LOST now
       in if last_lost then (butlast pre @ [Merge (last pre) now], True, sb)
          else (pre @ [now], True, set_nxt (length pre) sb)
     else (pre @ [now], False, sb))"

definition MarkLoss :: "int \<Rightarrow> int \<Rightarrow> scoreboard \<Rightarrow> scoreboard" where
  "MarkLoss snduna sndnxt sb =
     (let sb = sb\<lparr>nxt_to_retrx := None\<rparr>;
          (pre, last_lost, sb) = foldl mark_step ([], False, sb) (sb_nodes sb);
          (pre, last_lost, sb) =
            (if pre \<noteq> [] \<and> GetEnd (last pre) + 1 < sndnxt
             then mark_step (pre, last_lost, sb) (new_node (GetEnd (last pre) + 1) (sndnxt - 1) SKB_FLAG_INFLIGHT)
             else (pre, last_lost, sb));
          sb = sb\<lparr>sb_nodes := pre\<rparr>;
          sb = (if pre = [] \<and> snduna < sndnxt
                then sb\<lparr>sb_nodes := [new_node snduna (sndnxt - 1) SKB_FLAG_LOST], nxt_to_retrx := Some 0,
                        fack_out := fack_out sb + (sndnxt - snduna)\<rparr>
                else sb)
      in sb\<lparr>rtx_id := 0, acked_rtx_id := - 1\<rparr>)"

fun next_lost :: "nat \<Rightarrow> sb_node list \<Rightarrow> nat option" where
  "next_lost i [] = None"
| "next_lost i (n # ns) = (if sb_flag n = SKB_FLAG_LOST then Some i else next_lost (Suc i) ns)"

definition GetNextRetran :: "scoreboard \<Rightarrow> int \<times> scoreboard" where
  "GetNextRetran sb =
     (let sb = sb\<lparr>nxt_to_retrx := (case nxt_to_retrx sb of None \<Rightarrow> None | Some i \<Rightarrow> next_lost i (drop i (sb_nodes sb)))\<rparr>
      in (case nxt_to_retrx sb of None \<Rightarrow> - 1 | Some i \<Rightarrow> sb_seq (sb_nodes sb ! i), sb))"

definition MarkRetran :: "int \<Rightarrow> int \<Rightarrow> scoreboard \<Rightarrow> scoreboard exec" where
  "MarkRetran retran_seqno sndnxt sb =
     (case nxt_to_retrx sb of None \<Rightarrow> None
      | Some i \<Rightarrow>
          if \<not> Inside retran_seqno (sb_nodes sb ! i) \<or> fack_out sb - 1 < 0 then None
          else Some (sb\<lparr>fack_out := fack_out sb - 1,
                        sb_nodes := take i (sb_nodes sb) @ node_MarkRetran sndnxt (rtx_id sb) (sb_nodes sb ! i) @
                                    drop (Suc i) (sb_nodes sb),
                        rtx_id := rtx_id sb + 1, last_rtx_seq := retran_seqno\<rparr>))"

section \<open>Well-formed scoreboards\<close>

text \<open>\<open>blocks s ns e\<close>: the nodes are non-empty blocks that cover the segments from \<open>s\<close> to \<open>e - 1\<close> without a gap.\<close>

fun blocks :: "int \<Rightarrow> sb_node list \<Rightarrow> int \<Rightarrow> bool" where
  "blocks s [] e \<longleftrightarrow> s = e"
| "blocks s (n # ns) e \<longleftrightarrow> sb_seq n = s \<and> s \<le> GetEnd n \<and> blocks (GetEnd n + 1) ns e"

text \<open>The segments with a state, and how many they are by the lengths of the blocks.\<close>

definition segs :: "skb_flag \<Rightarrow> sb_node list \<Rightarrow> int set" where
  "segs f ns = {q. \<exists>n \<in> set ns. sb_flag n = f \<and> Inside q n}"

definition seg_count :: "skb_flag \<Rightarrow> sb_node list \<Rightarrow> int" where
  "seg_count f ns = sum_list (map GetLength (filter (\<lambda>n. sb_flag n = f) ns))"

definition ptr_ok :: "sb_node list \<Rightarrow> nat option \<Rightarrow> bool" where
  "ptr_ok ns p \<longleftrightarrow> (case p of None \<Rightarrow> True | Some i \<Rightarrow> i < length ns \<and> (\<forall>n \<in> set (take i ns). sb_flag n \<noteq> SKB_FLAG_LOST))"

definition sb_ok :: "int \<Rightarrow> scoreboard \<Rightarrow> bool" where
  "sb_ok s sb \<longleftrightarrow>
     (sb_nodes sb = [] \<or> (\<exists>e. blocks s (sb_nodes sb) e)) \<and>
     sack_out sb = seg_count SKB_FLAG_SACKED (sb_nodes sb) \<and>
     fack_out sb = seg_count SKB_FLAG_LOST (sb_nodes sb) \<and>
     ptr_ok (sb_nodes sb) (nxt_to_retrx sb)"

lemma blocks_append: "blocks s (xs @ ys) e \<longleftrightarrow> (\<exists>m. blocks s xs m \<and> blocks m ys e)"
  by (induction xs arbitrary: s) auto

lemma blocks_le: "blocks s ns e \<Longrightarrow> s \<le> e"
  by (induction ns arbitrary: s) fastforce+

lemma blocks_less: "blocks s ns e \<Longrightarrow> ns \<noteq> [] \<Longrightarrow> s < e"
  by (cases ns) (auto dest: blocks_le)

lemma blocks_end: "blocks s ns e \<Longrightarrow> ns \<noteq> [] \<Longrightarrow> GetEnd (last ns) = e - 1"
  by (induction ns arbitrary: s) (auto split: if_splits)

lemma blocks_snoc: "blocks s (xs @ [n]) e \<longleftrightarrow> blocks s xs (sb_seq n) \<and> sb_seq n \<le> GetEnd n \<and> e = GetEnd n + 1"
  by (auto simp: blocks_append)

lemma segs_simps [simp]:
  "segs f [] = {}"
  "segs f (n # ns) = (if sb_flag n = f then {sb_seq n .. GetEnd n} else {}) \<union> segs f ns"
  "segs f (xs @ ys) = segs f xs \<union> segs f ys"
  by (auto simp: segs_def Inside_def GetEnd_def)

lemma seg_count_simps [simp]:
  "seg_count f [] = 0"
  "seg_count f (n # ns) = (if sb_flag n = f then GetLength n else 0) + seg_count f ns"
  "seg_count f (xs @ ys) = seg_count f xs + seg_count f ys"
  by (auto simp: seg_count_def)

lemma GetLength_eq: "GetLength n = GetEnd n + 1 - sb_seq n"
  by (simp add: GetLength_def GetEnd_def)

lemma segs_bounds: "blocks s ns e \<Longrightarrow> segs f ns \<subseteq> {s ..< e}"
proof (induction ns arbitrary: s)
  case (Cons n ns)
  then have "segs f ns \<subseteq> {GetEnd n + 1 ..< e}" "GetEnd n + 1 \<le> e" by (auto dest: blocks_le)
  moreover have "{sb_seq n .. GetEnd n} \<subseteq> {s ..< e}" "{GetEnd n + 1 ..< e} \<subseteq> {s ..< e}"
    using Cons.prems calculation by auto
  ultimately show ?case by auto
qed simp

lemma segs_disjoint: "blocks s ns e \<Longrightarrow> f \<noteq> g \<Longrightarrow> segs f ns \<inter> segs g ns = {}"
proof (induction ns arbitrary: s)
  case (Cons n ns)
  then have "segs h ns \<subseteq> {GetEnd n + 1 ..< e}" for h by (simp add: segs_bounds)
  with Cons show ?case by (auto split: if_splits) fastforce+
qed simp

lemma seg_count_card: "blocks s ns e \<Longrightarrow> seg_count f ns = int (card (segs f ns)) \<and> finite (segs f ns)"
proof (induction ns arbitrary: s)
  case (Cons n ns)
  then have sub: "segs f ns \<subseteq> {GetEnd n + 1 ..< e}" and IH: "seg_count f ns = int (card (segs f ns))" "finite (segs f ns)"
    and n: "sb_seq n \<le> GetEnd n" by (auto simp: segs_bounds)
  from sub have "{sb_seq n .. GetEnd n} \<inter> segs f ns = {}" by fastforce
  with IH n show ?case by (simp add: GetLength_eq card_Un_disjoint)
qed simp

lemma seg_count_nonneg: "blocks s ns e \<Longrightarrow> 0 \<le> seg_count f ns"
  by (simp add: seg_count_card)

lemma segs_cover: "blocks s ns e \<Longrightarrow> (\<Union>f. segs f ns) = {s ..< e}"
proof (induction ns arbitrary: s)
  case (Cons n ns)
  then have "(\<Union>f. segs f ns) = {GetEnd n + 1 ..< e}" "GetEnd n + 1 \<le> e" by (auto dest: blocks_le)
  moreover have "(\<Union>f. segs f (n # ns)) = {sb_seq n .. GetEnd n} \<union> (\<Union>f. segs f ns)" by (auto split: if_splits)
  ultimately show ?case using Cons.prems by auto
qed simp

lemmas node_defs = GetEnd_def GetLength_def SetFlag_def Split_def Merge_def new_node_def

lemma new_node_simps [simp]:
  "sb_flag (new_node s e f) = f" "sb_seq (new_node s e f) = s" "sb_nxt (new_node s e f) = e"
  "f \<noteq> SKB_FLAG_RETRANSMITTED \<Longrightarrow> GetEnd (new_node s e f) = e"
  by (simp_all add: new_node_def GetEnd_def)

lemma SetFlag_simps [simp]:
  "sb_flag (SetFlag f n) = f" "sb_seq (SetFlag f n) = sb_seq n"
  "f \<noteq> SKB_FLAG_RETRANSMITTED \<Longrightarrow> GetEnd (SetFlag f n) = GetEnd n"
  by (simp_all add: SetFlag_def GetEnd_def)

lemma Merge_simps [simp]:
  "sb_flag (Merge n m) = sb_flag n" "sb_seq (Merge n m) = sb_seq n"
  "Mergable n m \<Longrightarrow> GetEnd (Merge n m) = GetEnd m"
  by (auto simp: Merge_def Mergable_def GetEnd_def)

lemma ptr_ok_simps [simp]:
  "ptr_ok ns None"
  "ptr_ok ns (Some i) \<longleftrightarrow> i < length ns \<and> (\<forall>n \<in> set (take i ns). sb_flag n \<noteq> SKB_FLAG_LOST)"
  by (simp_all add: ptr_ok_def)

text \<open>Merging the last visited node with the current one changes neither the states nor the counts.\<close>

lemma push_node_ok:
  assumes "blocks s pre (sb_seq now)" "sb_seq now \<le> GetEnd now"
  shows "blocks s (push_node pre now) (GetEnd now + 1)"
    and "segs f (push_node pre now) = segs f pre \<union> segs f [now]"
    and "seg_count f (push_node pre now) = seg_count f pre + seg_count f [now]"
    and "push_node pre now \<noteq> []" and "GetEnd (last (push_node pre now)) = GetEnd now"
proof -
  show "push_node pre now \<noteq> []" by (simp add: push_node_def)
  consider "\<not> (pre \<noteq> [] \<and> Mergable (last pre) now)" | ps p where "pre = ps @ [p]" "Mergable p now"
    by (cases pre rule: rev_cases) auto
  then have "blocks s (push_node pre now) (GetEnd now + 1) \<and> segs f (push_node pre now) = segs f pre \<union> segs f [now] \<and>
     seg_count f (push_node pre now) = seg_count f pre + seg_count f [now]"
  proof cases
    case 1
    then show ?thesis using assms by (auto simp: push_node_def blocks_append)
  next
    case 2
    then have "GetEnd (Merge p now) = GetEnd now" "sb_flag now = sb_flag p" by (auto simp: Mergable_def)
    with 2 assms show ?thesis by (auto simp: push_node_def blocks_snoc GetLength_eq)
  qed
  then show "blocks s (push_node pre now) (GetEnd now + 1)" "segs f (push_node pre now) = segs f pre \<union> segs f [now]"
    "seg_count f (push_node pre now) = seg_count f pre + seg_count f [now]" by auto
  show "GetEnd (last (push_node pre now)) = GetEnd now" by (simp add: push_node_def)
qed

section \<open>The traversal\<close>

text \<open>
  What a visit of the block \<open>now\<close> keeps: it is cut into blocks, of which all but the first keep their state, and the
  counters follow the states.
\<close>

definition visit_ok :: "sb_node \<Rightarrow> sb_upd \<Rightarrow> sb_node \<Rightarrow> sb_node list \<Rightarrow> sb_upd \<Rightarrow> bool" where
  "visit_ok now u now' ex u' \<longleftrightarrow>
     blocks (sb_seq now) (now' # ex) (GetEnd now + 1) \<and> (\<forall>n \<in> set ex. sb_flag n = sb_flag now) \<and>
     sb_fack (u_sb u') = sb_fack (u_sb u) \<and> (u_thorough u \<longrightarrow> u_thorough u') \<and>
     sack_out (u_sb u') = sack_out (u_sb u) + seg_count SKB_FLAG_SACKED (now' # ex) - seg_count SKB_FLAG_SACKED [now] \<and>
     fack_out (u_sb u') = fack_out (u_sb u) + seg_count SKB_FLAG_LOST (now' # ex) - seg_count SKB_FLAG_LOST [now]"

lemmas visit_facts = Split_def new_node_def GetEnd_def GetLength_def SetFlag_def Let_def set_nxt_def visit_ok_def

text \<open>The comparison with a SACK block: the first part is now sacked, by that block, or no SACK block reaches it.\<close>

lemma sack_now_ok:
  assumes "sack_now now u = (now', ex, u')" "sb_seq now \<le> GetEnd now" "sb_flag now \<noteq> SKB_FLAG_SACKED"
    and "u_sacks u \<noteq> [] \<Longrightarrow> sb_seq now < snd (hd (u_sacks u))"
  shows "visit_ok now u now' ex u' \<and> u_sacks u' = u_sacks u \<and> nxt_to_retrx (u_sb u') = nxt_to_retrx (u_sb u) \<and>
    (if sb_flag now' = SKB_FLAG_SACKED
     then u_sacks u \<noteq> [] \<and> fst (hd (u_sacks u)) \<le> sb_seq now \<and> GetEnd now' < snd (hd (u_sacks u))
     else sb_flag now' = sb_flag now \<and> (u_sacks u = [] \<or> GetEnd now' < fst (hd (u_sacks u))))"
proof (cases "u_sacks u")
  case Nil
  with assms show ?thesis by (auto simp: sack_now_def visit_ok_def)
next
  case (Cons x ss)
  with assms show ?thesis
    by (cases x; cases "sb_flag now") (auto simp: sack_now_def visit_facts split: if_splits)
qed

definition next_ptr :: "nat \<Rightarrow> sb_node \<Rightarrow> nat option \<Rightarrow> nat option" where
  "next_ptr i now' p = (if sb_flag now' = SKB_FLAG_LOST \<and> p = None then Some i else p)"

text \<open>The loss detection: a block left in flight starts behind the threshold.\<close>

lemma check_now_ok:
  assumes "check_now d i now u = (now', ex, u')" "sb_seq now \<le> GetEnd now"
  shows "visit_ok now u now' ex u' \<and> u_sacks u' = u_sacks u \<and>
    nxt_to_retrx (u_sb u') = next_ptr i now' (nxt_to_retrx (u_sb u)) \<and>
    (sb_flag now' = SKB_FLAG_SACKED \<longleftrightarrow> sb_flag now = SKB_FLAG_SACKED) \<and>
    (sb_flag now' = SKB_FLAG_INFLIGHT \<longrightarrow> sb_fack (u_sb u) - (d + 1) < sb_seq now)"
  using assms
  by (cases "sb_flag now") (auto simp: check_now_def next_ptr_def visit_facts split: if_splits)

text \<open>The SACK blocks of the traversal are sorted by their left edges; \<open>in_sacks\<close> are the segments they cover.\<close>

definition sacks_sorted :: "(int \<times> int) list \<Rightarrow> bool" where
  "sacks_sorted ss \<longleftrightarrow> sorted (map fst ss)"

definition in_sacks :: "(int \<times> int) list \<Rightarrow> int set" where
  "in_sacks ss = {q. \<exists>(l, r) \<in> set ss. l \<le> q \<and> q < r}"

lemma in_sacks_simps [simp]: "in_sacks [] = {}" "in_sacks ((l, r) # ss) = {l ..< r} \<union> in_sacks ss"
  by (auto simp: in_sacks_def)

lemma in_sacks_dropWhile: "x \<in> in_sacks ss \<Longrightarrow> s \<le> x \<Longrightarrow> x \<in> in_sacks (dropWhile (\<lambda>(l, r). r \<le> s) ss)"
  by (induction ss) auto

lemma in_sacks_dropWhile_sub: "in_sacks (dropWhile P ss) \<subseteq> in_sacks ss"
  using set_dropWhileD by (fastforce simp: in_sacks_def)

lemma sacks_sorted_dropWhile: "sacks_sorted ss \<Longrightarrow> sacks_sorted (dropWhile P ss)"
  by (induction ss) (auto simp: sacks_sorted_def)

lemma sacks_sorted_left: "sacks_sorted ss \<Longrightarrow> ss \<noteq> [] \<Longrightarrow> x \<in> in_sacks ss \<Longrightarrow> fst (hd ss) \<le> x"
  by (cases ss) (fastforce simp: sacks_sorted_def in_sacks_def)+

lemma visit_ok_trans:
  assumes "visit_ok now u n1 ex1 u1" "visit_ok n1 u1 n2 ex2 u2" "sb_flag n1 = sb_flag now"
  shows "visit_ok now u n2 (ex2 @ ex1) u2"
  using assms by (auto simp: visit_ok_def blocks_append GetLength_eq)

definition visit_step :: "int \<Rightarrow> nat \<Rightarrow> sb_node \<Rightarrow> sb_upd \<Rightarrow> sb_node \<Rightarrow> sb_node list \<Rightarrow> sb_upd \<Rightarrow> bool" where
  "visit_step d i now u now' ex u' \<longleftrightarrow>
     visit_ok now u now' ex u' \<and> sacks_sorted (u_sacks u') \<and>
     in_sacks (u_sacks u') \<subseteq> in_sacks (u_sacks u) \<and> in_sacks (u_sacks u) \<inter> {sb_seq now..} \<subseteq> in_sacks (u_sacks u') \<and>
     nxt_to_retrx (u_sb u') = next_ptr i now' (nxt_to_retrx (u_sb u)) \<and>
     (if sb_flag now' = SKB_FLAG_SACKED then sb_flag now = SKB_FLAG_SACKED \<or> {sb_seq now .. GetEnd now'} \<subseteq> in_sacks (u_sacks u)
      else sb_flag now \<noteq> SKB_FLAG_SACKED \<and> in_sacks (u_sacks u') \<inter> {.. GetEnd now'} = {}) \<and>
     (sb_flag now' = SKB_FLAG_INFLIGHT \<longrightarrow> sb_fack (u_sb u) - (d + 1) < sb_seq now)"

lemma visit_now_ok:
  assumes v: "visit_now d i now u = (now', ex, u')" and ne: "sb_seq now \<le> GetEnd now" and srt: "sacks_sorted (u_sacks u)"
  shows "visit_step d i now u now' ex u'"
proof (cases "sb_flag now = SKB_FLAG_SACKED")
  case True
  with v ne srt show ?thesis by (auto simp: visit_now_def visit_step_def visit_ok_def next_ptr_def)
next
  case False
  define ss where "ss = dropWhile (\<lambda>(l, r). r \<le> sb_seq now) (u_sacks u)"
  let ?u = "u\<lparr>u_sacks := ss\<rparr>"
  obtain n1 ex1 u1 where s: "sack_now now ?u = (n1, ex1, u1)" by (metis prod_cases3)
  have hd: "sb_seq now < snd (hd ss)" if "ss \<noteq> []"
    using that hd_dropWhile [of "\<lambda>(l, r). r \<le> sb_seq now" "u_sacks u"] by (auto simp: ss_def split: prod.splits)
  have srt': "sacks_sorted ss" using srt by (simp add: ss_def sacks_sorted_dropWhile)
  have sub: "in_sacks ss \<subseteq> in_sacks (u_sacks u)" by (simp add: ss_def in_sacks_dropWhile_sub)
  have keep: "in_sacks (u_sacks u) \<inter> {sb_seq now..} \<subseteq> in_sacks ss"
    by (auto simp: ss_def intro: in_sacks_dropWhile)
  from sack_now_ok [OF s ne False] hd
  have 1: "visit_ok now ?u n1 ex1 u1" "u_sacks u1 = ss" "nxt_to_retrx (u_sb u1) = nxt_to_retrx (u_sb u)"
    and split: "if sb_flag n1 = SKB_FLAG_SACKED then ss \<noteq> [] \<and> fst (hd ss) \<le> sb_seq now \<and> GetEnd n1 < snd (hd ss)
      else sb_flag n1 = sb_flag now \<and> (ss = [] \<or> GetEnd n1 < fst (hd ss))" by auto
  then have 2: "visit_ok now u n1 ex1 u1" and n1: "sb_seq n1 = sb_seq now" "sb_seq n1 \<le> GetEnd n1"
    by (auto simp: visit_ok_def)
  show ?thesis
  proof (cases "sb_flag n1 = SKB_FLAG_SACKED")
    case True
    with split n1 1(2) have "\<not> (u_sacks u1 = [] \<or> fst (hd (u_sacks u1)) > GetEnd n1)" by auto
    with v s False have "now' = n1" "ex = ex1" "u' = u1" by (auto simp: visit_now_def ss_def Let_def)
    moreover have "{sb_seq now .. GetEnd n1} \<subseteq> in_sacks ss" using True split by (cases ss) auto
    ultimately show ?thesis using True 1 2 sub keep srt' by (auto simp: visit_step_def next_ptr_def)
  next
    case unsacked: False
    obtain n2 ex2 u2 where c: "check_now d i n1 u1 = (n2, ex2, u2)" by (metis prod_cases3)
    from unsacked split 1(2) have fl: "sb_flag n1 = sb_flag now" and le: "ss = [] \<or> GetEnd n1 < fst (hd ss)" by auto
    with v s c False 1(2) have eq: "now' = n2" "ex = ex2 @ ex1" "u' = u2" by (auto simp: visit_now_def ss_def Let_def)
    from check_now_ok [OF c n1(2)] have 3: "visit_ok n1 u1 n2 ex2 u2" "u_sacks u2 = ss"
      "nxt_to_retrx (u_sb u2) = next_ptr i n2 (nxt_to_retrx (u_sb u1))" "sb_flag n2 \<noteq> SKB_FLAG_SACKED"
      "sb_flag n2 = SKB_FLAG_INFLIGHT \<longrightarrow> sb_fack (u_sb u1) - (d + 1) < sb_seq n1"
      using 1(2) unsacked by auto
    have end_le: "GetEnd n2 \<le> GetEnd n1" using 3(1) blocks_le [of "GetEnd n2 + 1" ex2 "GetEnd n1 + 1"] by (simp add: visit_ok_def)
    have "in_sacks ss \<inter> {.. GetEnd n2} = {}"
      using le end_le sacks_sorted_left [OF srt'] by (cases "ss = []") force+
    moreover have "sb_fack (u_sb u1) = sb_fack (u_sb u)" using 2 by (simp add: visit_ok_def)
    ultimately show ?thesis
      using visit_ok_trans [OF 2 3(1) fl] 3 1 n1 False srt' sub keep by (simp add: visit_step_def eq)
  qed
qed

text \<open>The pointer of the traversal is at the first lost block that was visited.\<close>

definition ptr_first :: "sb_node list \<Rightarrow> nat option \<Rightarrow> bool" where
  "ptr_first pre p \<longleftrightarrow> (case p of None \<Rightarrow> SKB_FLAG_LOST \<notin> sb_flag ` set pre
     | Some i \<Rightarrow> i < length pre \<and> sb_flag (pre ! i) = SKB_FLAG_LOST \<and> SKB_FLAG_LOST \<notin> sb_flag ` set (take i pre))"

lemma ptr_first_push:
  assumes "ptr_first pre p"
  shows "ptr_first (push_node pre now) (next_ptr (length pre) now p)"
    and "\<not> (pre \<noteq> [] \<and> Mergable (last pre) now \<and> next_ptr (length pre) now p = Some (length pre))"
proof -
  show "\<not> (pre \<noteq> [] \<and> Mergable (last pre) now \<and> next_ptr (length pre) now p = Some (length pre))"
    using assms by (auto simp: next_ptr_def ptr_first_def Mergable_def split: if_splits) (metis image_eqI last_in_set)
  consider "\<not> (pre \<noteq> [] \<and> Mergable (last pre) now)" | ps q where "pre = ps @ [q]" "Mergable q now"
    by (cases pre rule: rev_cases) auto
  then show "ptr_first (push_node pre now) (next_ptr (length pre) now p)"
  proof cases
    case 1
    then show ?thesis using assms
      by (auto simp: push_node_def ptr_first_def next_ptr_def nth_append split: option.splits)
  next
    case 2
    then show ?thesis using assms
      by (auto simp: push_node_def ptr_first_def next_ptr_def nth_append Mergable_def less_Suc_eq split: option.splits if_splits)
  qed
qed

lemma segs_other: "\<forall>n \<in> set ns. sb_flag n \<noteq> f \<Longrightarrow> segs f ns = {}"
  by (auto simp: segs_def)

lemma segs_uniform: "blocks s ns e \<Longrightarrow> \<forall>n \<in> set ns. sb_flag n = f \<Longrightarrow> segs f ns = {s ..< e}"
proof -
  assume b: "blocks s ns e" and f: "\<forall>n \<in> set ns. sb_flag n = f"
  have "segs g ns \<subseteq> segs f ns" for g using f by (auto simp: segs_def)
  then have "(\<Union>g. segs g ns) = segs f ns" by blast
  then show ?thesis using segs_cover [OF b] by simp
qed

lemma visit_step_sacked:
  assumes v: "visit_step d i now u now' ex u'" and M: "GetEnd now \<le> M"
  shows "segs SKB_FLAG_SACKED (now' # ex) \<union> (in_sacks (u_sacks u') \<inter> {GetEnd now' + 1 .. M}) =
         segs SKB_FLAG_SACKED [now] \<union> (in_sacks (u_sacks u) \<inter> {sb_seq now .. M})"
proof -
  from v have b: "sb_seq now' = sb_seq now" "sb_seq now \<le> GetEnd now'" "blocks (GetEnd now' + 1) ex (GetEnd now + 1)"
    and ex: "\<forall>n \<in> set ex. sb_flag n = sb_flag now" by (auto simp: visit_step_def visit_ok_def)
  from v have sub: "in_sacks (u_sacks u') \<subseteq> in_sacks (u_sacks u)"
    and keep: "in_sacks (u_sacks u) \<inter> {sb_seq now..} \<subseteq> in_sacks (u_sacks u')" by (auto simp: visit_step_def)
  then have S: "in_sacks (u_sacks u) \<inter> {sb_seq now .. M} = in_sacks (u_sacks u') \<inter> {sb_seq now .. M}" by auto
  from b(3) have le: "GetEnd now' \<le> GetEnd now" by (auto dest: blocks_le)
  consider (old) "sb_flag now' = SKB_FLAG_SACKED" "sb_flag now = SKB_FLAG_SACKED"
    | (new) "sb_flag now' = SKB_FLAG_SACKED" "sb_flag now \<noteq> SKB_FLAG_SACKED" "{sb_seq now .. GetEnd now'} \<subseteq> in_sacks (u_sacks u)"
    | (un) "sb_flag now' \<noteq> SKB_FLAG_SACKED" "sb_flag now \<noteq> SKB_FLAG_SACKED" "in_sacks (u_sacks u') \<inter> {.. GetEnd now'} = {}"
    using v by (auto simp: visit_step_def split: if_splits)
  then show ?thesis
  proof cases
    case old
    then have "segs SKB_FLAG_SACKED ex = {GetEnd now' + 1 ..< GetEnd now + 1}" using b(3) ex by (simp add: segs_uniform)
    then show ?thesis using old b le by (simp add: S) auto
  next
    case new
    then have "segs SKB_FLAG_SACKED ex = {}" using ex by (intro segs_other) auto
    then show ?thesis using new b le M keep by (simp add: S) auto
  next
    case un
    then have "segs SKB_FLAG_SACKED ex = {}" using ex by (intro segs_other) auto
    moreover have "in_sacks (u_sacks u') \<inter> {sb_seq now .. M} = in_sacks (u_sacks u') \<inter> {GetEnd now' + 1 .. M}"
      using un b(2) by force
    ultimately show ?thesis using un by (simp add: S)
  qed
qed

text \<open>
  The whole traversal, from any position: it returns; the nodes are blocks without a gap; the counters are right; the
  sacked segments are those of before and those of the SACK blocks; and, when it is thorough, it reaches the end and no
  segment that the loss threshold has passed is left in flight.
\<close>

definition loop_inv :: "int \<Rightarrow> int \<Rightarrow> sb_node list \<Rightarrow> int \<Rightarrow> sb_node list \<Rightarrow> int \<Rightarrow> sb_upd \<Rightarrow> bool" where
  "loop_inv d s pre m cur e u \<longleftrightarrow>
     blocks s pre m \<and> blocks m cur e \<and> (cur = [] \<longrightarrow> sb_fack (u_sb u) < m) \<and> sacks_sorted (u_sacks u) \<and>
     sack_out (u_sb u) = seg_count SKB_FLAG_SACKED (pre @ cur) \<and> fack_out (u_sb u) = seg_count SKB_FLAG_LOST (pre @ cur) \<and>
     ptr_first pre (nxt_to_retrx (u_sb u)) \<and> segs SKB_FLAG_INFLIGHT pre \<subseteq> {sb_fack (u_sb u) - (d + 1) <..}"

definition loop_post :: "int \<Rightarrow> int \<Rightarrow> sb_node list \<Rightarrow> int \<Rightarrow> int \<Rightarrow> sb_upd \<Rightarrow> sb_node list \<Rightarrow> sb_upd \<Rightarrow> bool" where
  "loop_post d s nodes m e u ns u' \<longleftrightarrow>
     (\<exists>e'. blocks s ns e' \<and> e \<le> e' \<and> e' \<le> max e (sb_fack (u_sb u) + 1) \<and> (u_thorough u \<longrightarrow> e' = max e (sb_fack (u_sb u) + 1))) \<and>
     sack_out (u_sb u') = seg_count SKB_FLAG_SACKED ns \<and> fack_out (u_sb u') = seg_count SKB_FLAG_LOST ns \<and>
     sb_fack (u_sb u') = sb_fack (u_sb u) \<and> ptr_ok ns (nxt_to_retrx (u_sb u')) \<and>
     segs SKB_FLAG_SACKED ns = segs SKB_FLAG_SACKED nodes \<union> (in_sacks (u_sacks u) \<inter> {m .. max (e - 1) (sb_fack (u_sb u))}) \<and>
     (u_thorough u \<longrightarrow> ptr_first ns (nxt_to_retrx (u_sb u')) \<and> segs SKB_FLAG_INFLIGHT ns \<subseteq> {sb_fack (u_sb u) - (d + 1) <..})"

lemma ptr_first_ptr_ok: "ptr_first pre p \<Longrightarrow> ptr_ok (pre @ cur) p"
  by (cases p) (auto simp: ptr_first_def image_iff)

lemma loop_inv_stop:
  assumes "loop_inv d s pre m cur e u" "cur = [] \<or> u_sacks u = [] \<and> \<not> u_thorough u"
  shows "loop_post d s (pre @ cur) m e u (pre @ cur) u"
  using assms by (auto simp: loop_inv_def loop_post_def blocks_append ptr_first_ptr_ok)

lemma loop_inv_step:
  assumes inv: "loop_inv d s pre m (now # rest) e u" and v: "visit_now d (length pre) now u = (now', ex, u')"
  defines "rest' \<equiv> (if ex @ rest = [] \<and> GetEnd now' < sb_fack (u_sb u')
                    then [new_node (GetEnd now' + 1) (sb_fack (u_sb u')) SKB_FLAG_INFLIGHT] else ex @ rest)"
  obtains e' where "loop_inv d s (push_node pre now') (GetEnd now' + 1) rest' e' u'" "m < GetEnd now' + 1" "m < e"
    "max e' (sb_fack (u_sb u') + 1) = max e (sb_fack (u_sb u) + 1)" "e \<le> e'"
    "segs SKB_FLAG_SACKED rest' = segs SKB_FLAG_SACKED (ex @ rest)"
proof -
  from inv have b: "blocks s pre m" "sb_seq now = m" "m \<le> GetEnd now" "blocks (GetEnd now + 1) rest e"
    by (auto simp: loop_inv_def)
  from inv v b have st: "visit_step d (length pre) now u now' ex u'" by (auto simp: loop_inv_def intro: visit_now_ok)
  then have vo: "visit_ok now u now' ex u'" by (simp add: visit_step_def)
  then have b': "sb_seq now' = m" "m \<le> GetEnd now'" "blocks (GetEnd now' + 1) (ex @ rest) e" and
    fk: "sb_fack (u_sb u') = sb_fack (u_sb u)"
    using b by (auto simp: visit_ok_def blocks_append)
  from b' have me: "GetEnd now' + 1 \<le> e" by (auto dest: blocks_le)
  note push = push_node_ok [of s pre now', unfolded b', OF b(1) b'(2)]
  let ?e' = "if ex @ rest = [] \<and> GetEnd now' < sb_fack (u_sb u') then sb_fack (u_sb u') + 1 else e"
  from b'(3) have br: "blocks (GetEnd now' + 1) rest' ?e'" by (auto simp: rest'_def)
  have cnt: "seg_count f rest' = seg_count f (ex @ rest)" "segs f rest' = segs f (ex @ rest)" if "f \<noteq> SKB_FLAG_INFLIGHT" for f
    using that by (auto simp: rest'_def)
  have "loop_inv d s (push_node pre now') (GetEnd now' + 1) rest' ?e' u'"
    unfolding loop_inv_def
  proof (intro conjI impI)
    show "sb_fack (u_sb u') < GetEnd now' + 1" if "rest' = []" using that by (auto simp: rest'_def split: if_splits)
    show "sacks_sorted (u_sacks u')" using st by (simp add: visit_step_def)
    show "sack_out (u_sb u') = seg_count SKB_FLAG_SACKED (push_node pre now' @ rest')"
      "fack_out (u_sb u') = seg_count SKB_FLAG_LOST (push_node pre now' @ rest')"
      using inv vo by (simp_all add: push cnt loop_inv_def visit_ok_def)
    show "ptr_first (push_node pre now') (nxt_to_retrx (u_sb u'))"
      using st inv ptr_first_push(1) by (simp add: visit_step_def loop_inv_def)
    show "segs SKB_FLAG_INFLIGHT (push_node pre now') \<subseteq> {sb_fack (u_sb u') - (d + 1) <..}"
      using st inv b b' by (auto simp: push visit_step_def loop_inv_def fk)
  qed (use push br in auto)
  moreover have "max ?e' (sb_fack (u_sb u') + 1) = max e (sb_fack (u_sb u) + 1)" "e \<le> ?e'" using me b'(3) by (auto simp: fk)
  ultimately show thesis using that me b' cnt by force
qed

lemma update_loop_ok:
  assumes "loop_inv d s pre m cur e u"
  shows "\<exists>ns u'. update_loop d pre cur u = Some (ns, u') \<and> loop_post d s (pre @ cur) m e u ns u'"
  using assms
proof (induction "nat (max e (sb_fack (u_sb u) + 1) - m)" arbitrary: pre m cur e u rule: less_induct)
  case less
  show ?case
  proof (cases "cur = [] \<or> u_sacks u = [] \<and> \<not> u_thorough u")
    case True
    with loop_inv_stop [OF less.prems] show ?thesis
      by (subst update_loop.simps) (auto split: list.splits)
  next
    case False
    then obtain now rest where cur: "cur = now # rest" by (cases cur) auto
    obtain now' ex u' where v: "visit_now d (length pre) now u = (now', ex, u')" by (metis prod_cases3)
    let ?rest = "if ex @ rest = [] \<and> GetEnd now' < sb_fack (u_sb u')
                 then [new_node (GetEnd now' + 1) (sb_fack (u_sb u')) SKB_FLAG_INFLIGHT] else ex @ rest"
    let ?fk = "sb_fack (u_sb u)"
    obtain e' where e': "loop_inv d s (push_node pre now') (GetEnd now' + 1) ?rest e' u'" "m < GetEnd now' + 1" "m < e"
      "max e' (sb_fack (u_sb u') + 1) = max e (?fk + 1)" "e \<le> e'"
      "segs SKB_FLAG_SACKED ?rest = segs SKB_FLAG_SACKED (ex @ rest)"
      using loop_inv_step [OF less.prems [unfolded cur] v] by blast
    have inv: "blocks s pre m" "sb_seq now = m" "m \<le> GetEnd now" "blocks (GetEnd now + 1) rest e"
      "ptr_first pre (nxt_to_retrx (u_sb u))" "sacks_sorted (u_sacks u)"
      using less.prems by (auto simp: loop_inv_def cur)
    have st: "visit_step d (length pre) now u now' ex u'" using v inv by (auto intro: visit_now_ok)
    then have vo: "sb_seq now' = m" "m \<le> GetEnd now'" "sb_fack (u_sb u') = ?fk" "u_thorough u \<Longrightarrow> u_thorough u'"
      "nxt_to_retrx (u_sb u') = next_ptr (length pre) now' (nxt_to_retrx (u_sb u))"
      using inv by (auto simp: visit_step_def visit_ok_def)
    note push = push_node_ok [of s pre now', unfolded vo(1), OF inv(1) vo(2)]
    have "nat (max e' (sb_fack (u_sb u') + 1) - (GetEnd now' + 1)) < nat (max e (?fk + 1) - m)"
      using e' by simp
    from less.hyps [OF this e'(1)] obtain ns u'' where r: "update_loop d (push_node pre now') ?rest u' = Some (ns, u'')"
      and post: "loop_post d s (push_node pre now' @ ?rest) (GetEnd now' + 1) e' u' ns u''" by blast
    have "update_loop d pre cur u = Some (ns, u'')"
      using False ptr_first_push(2) [OF inv(5), of now'] r push(4,5)
      by (subst update_loop.simps) (auto simp: cur v vo(5) Let_def)
    moreover have M: "max (e' - 1) ?fk = max (e - 1) ?fk" "GetEnd now \<le> max (e - 1) ?fk"
      using e'(4) vo(3) inv(4) by (auto dest: blocks_le)
    moreover have "segs SKB_FLAG_SACKED (push_node pre now' @ ?rest) \<union> (in_sacks (u_sacks u') \<inter> {GetEnd now' + 1 .. max (e' - 1) ?fk}) =
      segs SKB_FLAG_SACKED (pre @ cur) \<union> (in_sacks (u_sacks u) \<inter> {m .. max (e - 1) ?fk})" (is "?lhs = ?rhs")
    proof -
      have "?lhs = segs SKB_FLAG_SACKED pre \<union> (segs SKB_FLAG_SACKED (now' # ex) \<union>
          (in_sacks (u_sacks u') \<inter> {GetEnd now' + 1 .. max (e - 1) ?fk})) \<union> segs SKB_FLAG_SACKED rest"
        by (simp add: e'(6) push M(1) Un_ac)
      also have "\<dots> = segs SKB_FLAG_SACKED pre \<union> (segs SKB_FLAG_SACKED [now] \<union>
          (in_sacks (u_sacks u) \<inter> {m .. max (e - 1) ?fk})) \<union> segs SKB_FLAG_SACKED rest"
        using visit_step_sacked [OF st M(2)] by (simp only: inv(2))
      finally show ?thesis by (simp add: cur Un_ac)
    qed
    ultimately show ?thesis using post e' vo by (auto simp: loop_post_def)
  qed
qed

section \<open>Cleaning\<close>

lemma ptr_ok_drop_head: "ptr_ok (h # rest) p \<Longrightarrow> ptr_ok rest (drop_head_ptr rest p)"
  by (auto simp: drop_head_ptr_def ptr_ok_def split: option.splits nat.splits)

lemma drop_head_ptr_simps [simp]:
  "drop_head_ptr rest None = None" "drop_head_ptr rest (Some (Suc i)) = Some i"
  by (simp_all add: drop_head_ptr_def)

lemma blocks_segs_ge: "blocks s ns e \<Longrightarrow> a \<le> s \<Longrightarrow> segs f ns \<inter> {a..} = segs f ns"
  using segs_bounds [of s ns e f] by auto

definition board_ok :: "int \<Rightarrow> int \<Rightarrow> sb_node list \<Rightarrow> scoreboard \<Rightarrow> bool" where
  "board_ok s e ns sb \<longleftrightarrow> blocks s ns e \<and> sack_out sb = seg_count SKB_FLAG_SACKED ns \<and>
     fack_out sb = seg_count SKB_FLAG_LOST ns \<and> ptr_ok ns (nxt_to_retrx sb)"

lemma CleanRtxQueue_ok:
  assumes "board_ok s e ns sb"
  shows "\<exists>sb' flag' ch'. CleanRtxQueue la ns sb flag ch = Some (sb', flag', ch') \<and>
    board_ok (if sb_nodes sb' = [] then e else max s (la + 1)) e (sb_nodes sb') sb' \<and> (sb_nodes sb' = [] \<longrightarrow> ns = [] \<or> e \<le> la + 1) \<and>
    (\<forall>f. segs f (sb_nodes sb') = segs f ns \<inter> {la + 1 ..}) \<and> sb_fack sb' = sb_fack sb"
  using assms
proof (induction ns arbitrary: s sb flag ch)
  case Nil
  then show ?case by (auto simp: board_ok_def)
next
  case (Cons h rest)
  then have b: "sb_seq h = s" "s \<le> GetEnd h" "blocks (GetEnd h + 1) rest e" by (auto simp: board_ok_def)
  then have pos: "0 \<le> seg_count f rest" for f by (simp add: seg_count_nonneg)
  define sb1 where "sb1 = (let k = (if ShouldClean la h < 0 then GetLength h else ShouldClean la h) in
    if sb_flag h = SKB_FLAG_SACKED then sb\<lparr>sack_out := sack_out sb - k\<rparr>
    else if sb_flag h = SKB_FLAG_LOST then sb\<lparr>fack_out := fack_out sb - k\<rparr> else sb)"
  consider (keep) "la < s" | (part) "s \<le> la" "la < GetEnd h" | (drop) "GetEnd h \<le> la" "s \<le> la" using b(2) by linarith
  then show ?case
  proof cases
    case keep
    with Cons.prems b have "segs f (h # rest) \<inter> {la + 1 ..} = segs f (h # rest)" for f
      by (intro blocks_segs_ge [of s _ e]) (auto simp: board_ok_def)
    moreover have "ShouldClean la h = 0" using keep b by (simp add: ShouldClean_def)
    ultimately show ?thesis using keep Cons.prems by (simp add: board_ok_def max_def)
  next
    case part
    then have fl: "sb_flag h \<noteq> SKB_FLAG_RETRANSMITTED" "ShouldClean la h = la + 1 - s" and E: "GetEnd (h\<lparr>sb_seq := la + 1\<rparr>) = GetEnd h"
      using b by (auto simp: ShouldClean_def GetEnd_def split: if_splits)
    with part b have cmp: "ShouldClean la h \<noteq> 0" "\<not> ShouldClean la h < 0" by auto
    have "segs f rest \<inter> {la + 1 ..} = segs f rest" for f using b part by (intro blocks_segs_ge [OF b(3)]) auto
    then have "segs f (h\<lparr>sb_seq := la + 1\<rparr> # rest) = segs f (h # rest) \<inter> {la + 1 ..}" for f
      using part b by (auto simp: E)
    moreover have "ptr_ok (h\<lparr>sb_seq := la + 1\<rparr> # rest) (nxt_to_retrx sb)"
      using Cons.prems by (auto simp: board_ok_def ptr_ok_def take_Cons' split: option.splits if_splits)
    moreover have "GetLength h = la + 1 - s + (GetEnd h - la)" "GetLength (h\<lparr>sb_seq := la + 1\<rparr>) = GetEnd h - la"
      using b by (simp_all add: GetLength_eq E)
    ultimately show ?thesis using Cons.prems cmp part b pos [of SKB_FLAG_SACKED] pos [of SKB_FLAG_LOST] fl
      by (auto simp: board_ok_def Let_def E max_def)
  next
    case drop
    then have cmp: "ShouldClean la h = - 1" using b by (auto simp: ShouldClean_def GetEnd_def split: if_splits)
    let ?retr = "sb_flag h = SKB_FLAG_RETRANSMITTED"
    let ?newer = "?retr \<and> sb_retran h > acked_rtx_id sb1"
    define sb2 where "sb2 = (if ?newer then sb1\<lparr>acked_rtx_id := sb_retran h\<rparr> else sb1)
      \<lparr>nxt_to_retrx := drop_head_ptr rest (nxt_to_retrx sb1)\<rparr>"
    have "board_ok (GetEnd h + 1) e rest sb2" "sb_fack sb2 = sb_fack sb"
      using Cons.prems b ptr_ok_drop_head by (auto simp: board_ok_def sb2_def sb1_def cmp Let_def)
    moreover from Cons.IH [OF this(1)] obtain sb' flag' ch' where
      r: "CleanRtxQueue la rest sb2 (if ?retr then flag OR FLAG_UNSURE_TSTAMP else flag) (ch \<or> ?newer) = Some (sb', flag', ch')" and
      p: "board_ok (if sb_nodes sb' = [] then e else max (GetEnd h + 1) (la + 1)) e (sb_nodes sb') sb'"
        "sb_nodes sb' = [] \<longrightarrow> rest = [] \<or> e \<le> la + 1"
        "\<forall>f. segs f (sb_nodes sb') = segs f rest \<inter> {la + 1 ..}" "sb_fack sb' = sb_fack sb2" by blast
    moreover have "\<not> (sb_flag h = SKB_FLAG_SACKED \<and> sack_out sb1 < 0 \<or> sb_flag h = SKB_FLAG_LOST \<and> fack_out sb1 < 0)"
      using Cons.prems pos [of SKB_FLAG_SACKED] pos [of SKB_FLAG_LOST] by (auto simp: board_ok_def sb1_def cmp Let_def)
    then have "CleanRtxQueue la (h # rest) sb flag ch = Some (sb', flag', ch')"
      using r by (cases "sb_flag h") (auto simp: cmp Let_def sb1_def sb2_def split: if_splits)
    moreover have "max (GetEnd h + 1) (la + 1) = max s (la + 1)" using drop b by auto
    moreover have "rest = [] \<Longrightarrow> e \<le> la + 1" using b drop by simp
    moreover have "segs f (h # rest) \<inter> {la + 1 ..} = segs f rest \<inter> {la + 1 ..}" for f using drop b by auto
    ultimately show ?thesis by auto
  qed
qed

lemma sb_ok_board: "sb_ok s sb \<longleftrightarrow> (\<exists>s' e. board_ok s' e (sb_nodes sb) sb \<and> (sb_nodes sb = [] \<or> s' = s))"
  by (auto simp: sb_ok_def board_ok_def)

lemma sb_ok_clear: "sb_ok s (ClearScoreBoard sb)"
  by (simp add: sb_ok_def ClearScoreBoard_def)

lemma sb_ok_CleanRtxQueue:
  assumes "sb_ok s sb" "s \<le> la + 1"
  obtains sb' flag' ch' where "CleanRtxQueue la (sb_nodes sb) sb flag ch = Some (sb', flag', ch')"
    "sb_ok (la + 1) sb'" "\<And>f. segs f (sb_nodes sb') = segs f (sb_nodes sb) \<inter> {la + 1 ..}" "sb_fack sb' = sb_fack sb"
proof -
  from assms obtain s' e where b: "board_ok s' e (sb_nodes sb) sb" "sb_nodes sb = [] \<or> s' = s" by (auto simp: sb_ok_board)
  from CleanRtxQueue_ok [OF b(1)] obtain sb' flag' ch' where
    "CleanRtxQueue la (sb_nodes sb) sb flag ch = Some (sb', flag', ch')"
    and 1: "board_ok (if sb_nodes sb' = [] then e else max s' (la + 1)) e (sb_nodes sb') sb'"
    and 2: "\<forall>f. segs f (sb_nodes sb') = segs f (sb_nodes sb) \<inter> {la + 1 ..}" "sb_fack sb' = sb_fack sb" by blast
  moreover have "sb_ok (la + 1) sb'"
  proof (cases "sb_nodes sb = []")
    case True
    with 2(1) have "segs f (sb_nodes sb') = {}" for f by simp
    moreover have "sb_nodes sb' = []" if "blocks x (sb_nodes sb') y" "\<And>f. segs f (sb_nodes sb') = {}" for x y
      using segs_cover [OF that(1)] that blocks_less [OF that(1)] by fastforce
    ultimately have "sb_nodes sb' = []" using 1 by (auto simp: board_ok_def)
    with 1 show ?thesis by (auto simp: sb_ok_board)
  next
    case False
    with 1 b(2) assms(2) show ?thesis by (auto simp: sb_ok_board max_def split: if_splits)
  qed
  ultimately show thesis using that by blast
qed

section \<open>The SACK blocks\<close>

lemma sack_insert_set [simp]: "set (sack_insert x ys) = insert x (set ys)"
  by (induction ys) auto

lemma sack_insert_length [simp]: "length (sack_insert x ys) = Suc (length ys)"
  by (induction ys) auto

lemma sack_insert_sorted: "sacks_sorted ys \<Longrightarrow> sacks_sorted (sack_insert x ys)"
  by (induction ys) (auto simp: sacks_sorted_def)

lemma sack_sort_ok:
  assumes "length acc + length sacks \<le> NSA + 1" "sacks_sorted acc"
  shows "\<exists>ss. sack_sort la sacks acc = Some ss \<and> sacks_sorted ss \<and> set ss = set acc \<union> {x \<in> set sacks. la \<le> fst x}"
  using assms
proof (induction sacks arbitrary: acc)
  case (Cons x xs)
  show ?case
  proof (cases "la \<le> fst x")
    case True
    then show ?thesis using Cons.prems Cons.IH [of "sack_insert x acc"] by (auto simp: sack_insert_sorted)
  next
    case False
    then show ?thesis using Cons.prems Cons.IH [of acc] by auto
  qed
qed simp

lemma in_sacks_set: "set ss = set ts \<Longrightarrow> in_sacks ss = in_sacks ts"
  by (simp add: in_sacks_def)

text \<open>
  The SACK blocks of an acknowledgement, as a receiver sends them: non-empty, the ones behind the cumulative
  acknowledgement (D-SACK) end there, and the right edges are in the order of the left edges.
\<close>

definition sacks_sane :: "int \<Rightarrow> (int \<times> int) list \<Rightarrow> bool" where
  "sacks_sane la sacks \<longleftrightarrow> length sacks \<le> NSA + 1 \<and> (\<forall>(l, r) \<in> set sacks. l < r \<and> l \<noteq> la) \<and>
     (\<forall>x \<in> set sacks. \<forall>y \<in> set sacks. fst x \<le> fst y \<longrightarrow> snd x \<le> snd y)"

definition kept_sacks :: "int \<Rightarrow> (int \<times> int) list \<Rightarrow> (int \<times> int) list" where
  "kept_sacks la sacks = filter (\<lambda>(l, r). la < l) sacks"

lemma sane_kept:
  assumes "sacks_sane la sacks" "sack_sort la sacks [] = Some ss"
  shows "sacks_sorted ss" "in_sacks ss = in_sacks (kept_sacks la sacks)"
    and "\<And>x. x \<in> set ss \<Longrightarrow> la < fst x \<and> fst x < snd x"
    and "\<And>q. q \<in> in_sacks ss \<Longrightarrow> la < q \<and> q < snd (last ss)" and "ss \<noteq> [] \<Longrightarrow> last ss \<in> set sacks"
proof -
  from assms sack_sort_ok [of "[]" sacks la] have 1: "sacks_sorted ss" "set ss = {x \<in> set sacks. la \<le> fst x}"
    by (auto simp: sacks_sane_def sacks_sorted_def)
  have sane: "fst x < snd x" "fst x \<noteq> la" if "x \<in> set sacks" for x
    using that assms(1) by (auto simp: sacks_sane_def)
  have 2: "la < fst x \<and> fst x < snd x" if "x \<in> set ss" for x
    using that sane [of x] by (simp add: 1(2))
  have eq: "set ss = set (kept_sacks la sacks)"
    using sane by (auto simp: kept_sacks_def 1(2) le_less)
  have 3: "snd x \<le> snd (last ss)" if "x \<in> set ss" for x
  proof -
    from that have "ss \<noteq> []" by auto
    then have "last ss \<in> set ss" by simp
    moreover have "fst x \<le> fst (last ss)"
      using 1(1) that \<open>ss \<noteq> []\<close> by (auto simp: sacks_sorted_def in_set_conv_nth last_conv_nth sorted_iff_nth_mono)
    ultimately show ?thesis using that 1(2) assms(1) by (auto simp: sacks_sane_def)
  qed
  show "sacks_sorted ss" by fact
  show "ss \<noteq> [] \<Longrightarrow> last ss \<in> set sacks" using 1(2) last_in_set [of ss] by auto
  show "in_sacks ss = in_sacks (kept_sacks la sacks)" using eq by (rule in_sacks_set)
  show "la < fst x \<and> fst x < snd x" if "x \<in> set ss" for x using that by (rule 2)
  show "la < q \<and> q < snd (last ss)" if "q \<in> in_sacks ss" for q
    using that 2 3 by (fastforce simp: in_sacks_def)
qed

definition update_post :: "int \<Rightarrow> (int \<times> int) list \<Rightarrow> int \<Rightarrow> scoreboard \<Rightarrow> scoreboard \<Rightarrow> bool" where
  "update_post la sacks d sb sb' \<longleftrightarrow> sb_ok (la + 1) sb' \<and>
     segs SKB_FLAG_SACKED (sb_nodes sb') =
       (segs SKB_FLAG_SACKED (sb_nodes sb) \<inter> {la + 1 ..}) \<union> in_sacks (kept_sacks la sacks) \<and>
     (\<Union>f. segs f (sb_nodes sb')) \<subseteq> (\<Union>f. segs f (sb_nodes sb)) \<union> {la + 1 .. sb_fack sb'} \<and>
     sb_fack sb' \<in> {sb_fack sb, 0} \<union> (\<lambda>x. snd x - 1) ` set sacks \<and>
     (0 \<le> sb_fack sb \<and> sb_fack sb < sb_fack sb' \<longrightarrow>
       ptr_first (sb_nodes sb') (nxt_to_retrx sb') \<and> {la + 1 .. sb_fack sb'} \<subseteq> (\<Union>f. segs f (sb_nodes sb')) \<and>
       segs SKB_FLAG_INFLIGHT (sb_nodes sb') \<subseteq> {sb_fack sb' - (d + 1) <..})"

lemma traversal_ok:
  assumes "sb_ok s sb" "sb_nodes sb = [] \<Longrightarrow> s \<le> sb_fack sb" "sacks_sorted ss"
    and "in_sacks ss \<subseteq> {s .. sb_fack sb}"
  shows "\<exists>ns u. update_loop d [] (if sb_nodes sb = [] then [new_node s (sb_fack sb) SKB_FLAG_INFLIGHT] else sb_nodes sb)
            \<lparr>u_sb = sb\<lparr>nxt_to_retrx := None\<rparr>, u_flag = flag, u_thorough = th, u_sacks = ss\<rparr> = Some (ns, u) \<and>
         sb_ok s ((u_sb u)\<lparr>sb_nodes := ns\<rparr>) \<and> sb_fack (u_sb u) = sb_fack sb \<and>
         segs SKB_FLAG_SACKED ns = segs SKB_FLAG_SACKED (sb_nodes sb) \<union> in_sacks ss \<and>
         (\<Union>f. segs f ns) \<subseteq> (\<Union>f. segs f (sb_nodes sb)) \<union> {s .. sb_fack sb} \<and>
         (th \<longrightarrow> ptr_first ns (nxt_to_retrx (u_sb u)) \<and> {s .. sb_fack sb} \<subseteq> (\<Union>f. segs f ns) \<and>
                segs SKB_FLAG_INFLIGHT ns \<subseteq> {sb_fack sb - (d + 1) <..})"
proof -
  let ?ns = "if sb_nodes sb = [] then [new_node s (sb_fack sb) SKB_FLAG_INFLIGHT] else sb_nodes sb"
  let ?u = "\<lparr>u_sb = sb\<lparr>nxt_to_retrx := None\<rparr>, u_flag = flag, u_thorough = th, u_sacks = ss\<rparr>"
  obtain e where e: "blocks s ?ns e" using assms(1,2) by (cases "sb_nodes sb = []") (auto simp: sb_ok_def)
  have seg: "segs SKB_FLAG_SACKED ?ns = segs SKB_FLAG_SACKED (sb_nodes sb)" by simp
  from e have "loop_inv d s [] s ?ns e ?u"
    using assms(1,3) by (auto simp: loop_inv_def sb_ok_def ptr_first_def)
  from update_loop_ok [OF this] obtain ns u where r: "update_loop d [] ?ns ?u = Some (ns, u)"
    and p: "loop_post d s ?ns s e ?u ns u" by auto
  have "in_sacks ss \<inter> {s .. max (e - 1) (sb_fack sb)} = in_sacks ss" using assms(4) by fastforce
  with p seg have "segs SKB_FLAG_SACKED ns = segs SKB_FLAG_SACKED (sb_nodes sb) \<union> in_sacks ss"
    by (simp add: loop_post_def)
  moreover have "sb_ok s ((u_sb u)\<lparr>sb_nodes := ns\<rparr>)" using p by (auto simp: loop_post_def sb_ok_def)
  moreover have "{s .. sb_fack sb} \<subseteq> (\<Union>f. segs f ns)" if th
  proof -
    from p that obtain e' where "blocks s ns e'" "sb_fack sb + 1 \<le> e'" by (auto simp: loop_post_def)
    then show ?thesis using segs_cover by auto
  qed
  moreover have "(\<Union>f. segs f ns) \<subseteq> (\<Union>f. segs f (sb_nodes sb)) \<union> {s .. sb_fack sb}"
  proof -
    from p obtain e' where e': "blocks s ns e'" "e' \<le> max e (sb_fack sb + 1)" by (auto simp: loop_post_def)
    have "{s ..< e'} \<subseteq> {s ..< e} \<union> {s .. sb_fack sb}" using e'(2) by auto
    moreover have "{s ..< e} \<subseteq> (\<Union>f. segs f (sb_nodes sb)) \<union> {s .. sb_fack sb}"
      using segs_cover [OF e] e by (cases "sb_nodes sb = []") auto
    ultimately show ?thesis using segs_cover [OF e'(1)] by blast
  qed
  ultimately show ?thesis using r p by (simp add: loop_post_def)
qed

lemma UpdateScoreBoard_ok:
  assumes ok: "sb_ok s sb" "s \<le> la + 1" and sane: "sacks_sane la sacks"
  shows "\<exists>flag sb'. UpdateScoreBoard la sacks d sb = Some (flag, sb') \<and> update_post la sacks d sb sb'"
proof -
  from ok obtain sb1 flag th where c: "CleanRtxQueue la (sb_nodes sb) sb 0 False = Some (sb1, flag, th)"
    and ok1: "sb_ok (la + 1) sb1" and seg1: "\<And>f. segs f (sb_nodes sb1) = segs f (sb_nodes sb) \<inter> {la + 1 ..}"
    and fk1: "sb_fack sb1 = sb_fack sb" using sb_ok_CleanRtxQueue [of s sb la 0 False thesis] by blast
  define sb2 where "sb2 = (if sb_nodes sb1 = [] then ClearScoreBoard sb1 else sb1)"
  define th2 where "th2 = (if sb_nodes sb1 = [] then False else th)"
  have seg2: "segs f (sb_nodes sb2) = segs f (sb_nodes sb) \<inter> {la + 1 ..}" for f
    by (simp add: sb2_def ClearScoreBoard_def flip: seg1)
  have ok2: "sb_ok (la + 1) sb2" "sb_nodes sb2 = [] \<Longrightarrow> \<not> th2" "0 \<le> sb_fack sb \<Longrightarrow> sb_fack sb2 \<le> sb_fack sb"
    using ok1 sb_ok_clear fk1 by (auto simp: sb2_def th2_def ClearScoreBoard_def)
  have fk2: "sb_fack sb2 \<in> {sb_fack sb, 0}" using fk1 by (auto simp: sb2_def ClearScoreBoard_def)
  from sane obtain ss where ss: "sack_sort la sacks [] = Some ss"
    using sack_sort_ok [of "[]" sacks la] by (auto simp: sacks_sane_def sacks_sorted_def)
  note kept = sane_kept [OF sane ss]
  define adv where "adv \<longleftrightarrow> ss \<noteq> [] \<and> sb_fack sb2 < snd (last ss) - 1"
  define sb3 where "sb3 = (if adv then sb2\<lparr>sb_fack := snd (last ss) - 1\<rparr> else sb2)"
  show ?thesis
  proof (cases "\<not> th2 \<and> ss = []")
    case True
    then have "UpdateScoreBoard la sacks d sb = Some (flag, sb2)"
      using c ss by (auto simp: UpdateScoreBoard_def sb2_def th2_def Let_def)
    then show ?thesis using ok2 seg2 kept(2) True fk2 by (auto simp: update_post_def)
  next
    case False
    then have ne: "sacks \<noteq> [] \<or> th2" using ss by auto
    have ok3: "sb_ok (la + 1) sb3" "sb_nodes sb3 = sb_nodes sb2" using ok2(1) by (auto simp: sb3_def sb_ok_def)
    have last: "ss \<noteq> [] \<Longrightarrow> snd (last ss) - 1 \<le> sb_fack sb3" by (auto simp: sb3_def adv_def)
    have new: "la + 1 \<le> sb_fack sb3" if "sb_nodes sb3 = []"
    proof -
      from that False ok2(2) ok3(2) have "ss \<noteq> []" by auto
      then show ?thesis using last kept(3) [of "last ss"] by auto
    qed
    have sub: "in_sacks ss \<subseteq> {la + 1 .. sb_fack sb3}"
    proof
      fix q assume q: "q \<in> in_sacks ss"
      then have "ss \<noteq> []" by auto
      then show "q \<in> {la + 1 .. sb_fack sb3}" using last kept(4) [OF q] by simp
    qed
    from traversal_ok [OF ok3(1) new kept(1) sub, of d flag "th2 \<or> adv"] obtain ns u where
      r: "update_loop d [] (if sb_nodes sb3 = [] then [new_node (la + 1) (sb_fack sb3) SKB_FLAG_INFLIGHT] else sb_nodes sb3)
            \<lparr>u_sb = sb3\<lparr>nxt_to_retrx := None\<rparr>, u_flag = flag, u_thorough = th2 \<or> adv, u_sacks = ss\<rparr> = Some (ns, u)"
      and p: "sb_ok (la + 1) ((u_sb u)\<lparr>sb_nodes := ns\<rparr>)" "sb_fack (u_sb u) = sb_fack sb3"
        "segs SKB_FLAG_SACKED ns = segs SKB_FLAG_SACKED (sb_nodes sb3) \<union> in_sacks ss"
        "(\<Union>f. segs f ns) \<subseteq> (\<Union>f. segs f (sb_nodes sb3)) \<union> {la + 1 .. sb_fack sb3}"
        "th2 \<or> adv \<longrightarrow> ptr_first ns (nxt_to_retrx (u_sb u)) \<and> {la + 1 .. sb_fack sb3} \<subseteq> (\<Union>f. segs f ns) \<and>
                segs SKB_FLAG_INFLIGHT ns \<subseteq> {sb_fack sb3 - (d + 1) <..}" by blast
    have "UpdateScoreBoard la sacks d sb = Some (u_flag u, (u_sb u)\<lparr>sb_nodes := ns\<rparr>)"
    proof -
      have "UpdateScoreBoard la sacks d sb = traverse la ss d flag th2 sb2"
        using c ss False ne by (auto simp: UpdateScoreBoard_def sb2_def th2_def)
      also have "\<dots> = Some (u_flag u, (u_sb u)\<lparr>sb_nodes := ns\<rparr>)"
        using r by (simp only: traverse_def Let_def flip: adv_def sb3_def) simp
      finally show ?thesis .
    qed
    moreover have "adv" if "0 \<le> sb_fack sb" "sb_fack sb < sb_fack sb3"
      using that ok2(3) by (auto simp: sb3_def split: if_splits)
    moreover have "sb_fack sb3 \<in> {sb_fack sb, 0} \<union> (\<lambda>x. snd x - 1) ` set sacks"
      using fk2 kept(5) by (auto simp: sb3_def adv_def)
    moreover have "(\<Union>f. segs f ns) \<subseteq> (\<Union>f. segs f (sb_nodes sb)) \<union> {la + 1 .. sb_fack sb3}"
    proof -
      have "segs f (sb_nodes sb3) \<subseteq> segs f (sb_nodes sb)" for f using seg2 [of f] ok3(2) by simp
      then have "(\<Union>f. segs f (sb_nodes sb3)) \<subseteq> (\<Union>f. segs f (sb_nodes sb))" by (intro UN_mono) auto
      then show ?thesis using p(4) by (meson Un_mono order.trans subset_refl)
    qed
    ultimately show ?thesis using p seg2 ok3(2) kept(2) by (simp add: update_post_def)
  qed
qed

section \<open>Timeouts and retransmissions\<close>

text \<open>
  After \<open>seen\<close> of the nodes: every visited block is sacked or lost, the sacked ones are the old ones, and the counter of
  the lost segments is \<open>k\<close> more than those of the visited blocks, \<open>k\<close> being the lost segments ahead.
\<close>

definition mark_inv :: "int \<Rightarrow> int \<Rightarrow> int \<Rightarrow> int \<Rightarrow> sb_node list \<Rightarrow> sb_node list \<times> bool \<times> scoreboard \<Rightarrow> bool" where
  "mark_inv s m c k seen = (\<lambda>(pre, last_lost, sb).
     blocks s pre m \<and> (last_lost \<longleftrightarrow> pre \<noteq> [] \<and> sb_flag (last pre) = SKB_FLAG_LOST) \<and> (pre = [] \<longleftrightarrow> seen = []) \<and>
     sb_flag ` set pre \<subseteq> {SKB_FLAG_SACKED, SKB_FLAG_LOST} \<and> ptr_first pre (nxt_to_retrx sb) \<and>
     segs SKB_FLAG_SACKED pre = segs SKB_FLAG_SACKED seen \<and> seg_count SKB_FLAG_SACKED pre = seg_count SKB_FLAG_SACKED seen \<and>
     sack_out sb = c \<and> fack_out sb = seg_count SKB_FLAG_LOST pre + k)"

lemma mark_step_ok:
  assumes inv: "mark_inv s m c (k + seg_count SKB_FLAG_LOST [now]) seen st" and now: "sb_seq now = m" "m \<le> GetEnd now"
  shows "mark_inv s (GetEnd now + 1) c k (seen @ [now]) (mark_step st now)"
proof -
  obtain pre ll sb where st: "st = (pre, ll, sb)" by (metis prod_cases3)
  from inv have b: "blocks s pre m" and ll: "ll \<longleftrightarrow> pre \<noteq> [] \<and> sb_flag (last pre) = SKB_FLAG_LOST"
    and p: "ptr_first pre (nxt_to_retrx sb)" by (auto simp: mark_inv_def st)
  show ?thesis
  proof (cases "sb_flag now = SKB_FLAG_SACKED")
    case True
    then show ?thesis using inv now ptr_first_push(1) [OF p]
      by (auto simp: mark_inv_def st mark_step_def blocks_snoc ptr_first_def nth_append split: option.splits)
  next
    case False
    define now' where "now' = SetFlag SKB_FLAG_LOST now"
    have n': "sb_seq now' = m" "GetEnd now' = GetEnd now" "sb_flag now' = SKB_FLAG_LOST" using now by (auto simp: now'_def)
    have mrg: "Mergable (last pre) now' \<longleftrightarrow> sb_flag (last pre) = SKB_FLAG_LOST" using n' by (auto simp: Mergable_def)
    have ptr: "next_ptr (length pre) now' (nxt_to_retrx sb) = (if ll then nxt_to_retrx sb else nxt_to_retrx (set_nxt (length pre) sb))"
      using p ll n' by (auto simp: next_ptr_def set_nxt_def ptr_first_def) (metis image_eqI last_in_set)
    note push = push_node_ok [of s pre now', unfolded n', OF b now(2)]
    have fl: "sb_flag ` set (push_node pre now') \<subseteq> {SKB_FLAG_SACKED, SKB_FLAG_LOST}"
      using inv n' mrg by (auto simp: mark_inv_def st push_node_def dest: in_set_butlastD)
    have last: "sb_flag (last (push_node pre now')) = SKB_FLAG_LOST" using n' mrg by (auto simp: push_node_def)
    define fo where "fo = (if sb_flag now \<noteq> SKB_FLAG_LOST then fack_out sb + GetLength now else fack_out sb)"
    have "mark_step st now = (push_node pre now', True,
       sb\<lparr>fack_out := fo, nxt_to_retrx := next_ptr (length pre) now' (nxt_to_retrx sb)\<rparr>)"
      using False n' mrg ll unfolding ptr
      by (auto simp: mark_step_def st Let_def push_node_def now'_def [symmetric] fo_def set_nxt_def GetLength_eq)
    then show ?thesis
      using inv fl last ptr_first_push(1) [OF p, of now'] False n' now
      by (auto simp: mark_inv_def st push fo_def GetLength_eq)
  qed
qed

lemma mark_fold_ok:
  assumes "mark_inv s m c (k + seg_count SKB_FLAG_LOST ns) seen st" "blocks m ns e"
  shows "mark_inv s e c k (seen @ ns) (foldl mark_step st ns)"
  using assms
proof (induction ns arbitrary: m seen st)
  case (Cons n ns)
  then have "mark_inv s (GetEnd n + 1) c (k + seg_count SKB_FLAG_LOST ns) (seen @ [n]) (mark_step st n)"
    by (intro mark_step_ok) (auto simp: ac_simps)
  from Cons.IH [OF this] Cons.prems show ?case by simp
qed simp

lemma mark_inv_final:
  assumes "mark_inv s e c 0 seen (pre, ll, sb)" "c = seg_count SKB_FLAG_SACKED seen"
  shows "sb_ok s (sb\<lparr>sb_nodes := pre, rtx_id := 0, acked_rtx_id := - 1\<rparr>)" "segs SKB_FLAG_SACKED pre = segs SKB_FLAG_SACKED seen"
    "segs SKB_FLAG_INFLIGHT pre = {}" "segs SKB_FLAG_RETRANSMITTED pre = {}" "(\<Union>f. segs f pre) = {s ..< e}"
    "ptr_first pre (nxt_to_retrx sb)"
proof -
  from assms(1) have b: "blocks s pre e" and p: "ptr_first pre (nxt_to_retrx sb)" by (auto simp: mark_inv_def)
  then show "sb_ok s (sb\<lparr>sb_nodes := pre, rtx_id := 0, acked_rtx_id := - 1\<rparr>)" "ptr_first pre (nxt_to_retrx sb)"
    using assms ptr_first_ptr_ok [OF p, of "[]"] by (auto simp: sb_ok_def mark_inv_def)
  from segs_cover [OF b] show "(\<Union>f. segs f pre) = {s ..< e}" .
  show "segs SKB_FLAG_INFLIGHT pre = {}" "segs SKB_FLAG_RETRANSMITTED pre = {}" "segs SKB_FLAG_SACKED pre = segs SKB_FLAG_SACKED seen"
    using assms(1) by (auto simp: mark_inv_def intro!: segs_other)
qed

lemma MarkLoss_ok:
  fixes s nx :: int and sb :: scoreboard
  assumes "sb_ok s sb"
  defines "sb' \<equiv> MarkLoss s nx sb"
  shows "sb_ok s sb' \<and> segs SKB_FLAG_SACKED (sb_nodes sb') = segs SKB_FLAG_SACKED (sb_nodes sb) \<and>
    segs SKB_FLAG_INFLIGHT (sb_nodes sb') = {} \<and> segs SKB_FLAG_RETRANSMITTED (sb_nodes sb') = {} \<and>
    (\<Union>f. segs f (sb_nodes sb')) = (\<Union>f. segs f (sb_nodes sb)) \<union> {s ..< nx} \<and>
    ptr_first (sb_nodes sb') (nxt_to_retrx sb')"
proof (cases "sb_nodes sb = []")
  case True
  with assms show ?thesis
    by (cases "s < nx") (auto simp: MarkLoss_def Let_def sb_ok_def ptr_first_def GetLength_eq split: if_splits)
next
  case False
  with assms(1) obtain e where b: "blocks s (sb_nodes sb) e" by (auto simp: sb_ok_def)
  let ?c = "seg_count SKB_FLAG_SACKED (sb_nodes sb)"
  obtain pre ll sb1 where f: "foldl mark_step ([], False, sb\<lparr>nxt_to_retrx := None\<rparr>) (sb_nodes sb) = (pre, ll, sb1)" by (metis prod_cases3)
  have "mark_inv s s ?c (0 + seg_count SKB_FLAG_LOST (sb_nodes sb)) [] ([], False, sb\<lparr>nxt_to_retrx := None\<rparr>)"
    using assms(1) by (auto simp: mark_inv_def sb_ok_def ptr_first_def)
  from mark_fold_ok [OF this b] have inv: "mark_inv s e ?c 0 (sb_nodes sb) (pre, ll, sb1)" by (simp add: f)
  then have pre: "pre \<noteq> []" "GetEnd (last pre) = e - 1" using False blocks_end by (auto simp: mark_inv_def)
  have cov: "(\<Union>f. segs f (sb_nodes sb)) = {s ..< e}" "s < e" using segs_cover [OF b] blocks_less [OF b False] by auto
  show ?thesis
  proof (cases "e < nx")
    case True
    let ?n = "new_node e (nx - 1) SKB_FLAG_INFLIGHT"
    have "mark_inv s nx ?c 0 (sb_nodes sb @ [?n]) (mark_step (pre, ll, sb1) ?n)"
      using mark_step_ok [of s e ?c 0 ?n "sb_nodes sb" "(pre, ll, sb1)"] inv True by simp
    moreover obtain pre2 ll2 sb2 where st: "mark_step (pre, ll, sb1) ?n = (pre2, ll2, sb2)" by (metis prod_cases3)
    ultimately have inv2: "mark_inv s nx ?c 0 (sb_nodes sb @ [?n]) (pre2, ll2, sb2)" by simp
    then have "sb' = sb2\<lparr>sb_nodes := pre2, rtx_id := 0, acked_rtx_id := - 1\<rparr>"
      using f pre True st by (auto simp: sb'_def MarkLoss_def Let_def mark_inv_def)
    with mark_inv_final [OF inv2] cov True show ?thesis by (auto simp: ivl_disj_un)
  next
    case no: False
    then have "sb' = sb1\<lparr>sb_nodes := pre, rtx_id := 0, acked_rtx_id := - 1\<rparr>"
      using f pre by (simp add: sb'_def MarkLoss_def Let_def)
    with mark_inv_final [OF inv] cov no show ?thesis by auto
  qed
qed

lemma next_lost_Some:
  "next_lost i ns = Some j \<Longrightarrow> \<exists>k. j = i + k \<and> k < length ns \<and> sb_flag (ns ! k) = SKB_FLAG_LOST \<and>
     (\<forall>n \<in> set (take k ns). sb_flag n \<noteq> SKB_FLAG_LOST)"
proof (induction ns arbitrary: i)
  case (Cons n ns)
  show ?case
  proof (cases "sb_flag n = SKB_FLAG_LOST")
    case True
    with Cons.prems show ?thesis by (intro exI [of _ 0]) auto
  next
    case False
    with Cons.prems Cons.IH [of "Suc i"] obtain k where "j = Suc i + k" "k < length ns" "sb_flag (ns ! k) = SKB_FLAG_LOST"
      "\<forall>n \<in> set (take k ns). sb_flag n \<noteq> SKB_FLAG_LOST" by auto
    with False show ?thesis by (intro exI [of _ "Suc k"]) auto
  qed
qed simp

lemma next_lost_None: "next_lost i ns = None \<longleftrightarrow> SKB_FLAG_LOST \<notin> sb_flag ` set ns"
  by (induction ns arbitrary: i) auto

lemma blocks_nth:
  assumes "blocks s ns e" "i < length ns"
  obtains m where "blocks s (take i ns) m" "sb_seq (ns ! i) = m" "m \<le> GetEnd (ns ! i)" "blocks (GetEnd (ns ! i) + 1) (drop (Suc i) ns) e"
proof -
  from assms have "blocks s (take i ns @ ns ! i # drop (Suc i) ns) e" by (simp add: id_take_nth_drop [symmetric])
  then show thesis using that by (auto simp: blocks_append)
qed

text \<open>The pointer after the search: at a lost block, before which nothing is lost.\<close>

lemma GetNextRetran_ok:
  assumes "sb_ok s sb" "GetNextRetran sb = (q, sb')" "q \<noteq> - 1"
  obtains i where "sb' = sb\<lparr>nxt_to_retrx := Some i\<rparr>" "i < length (sb_nodes sb)" "sb_flag (sb_nodes sb ! i) = SKB_FLAG_LOST"
    "q = sb_seq (sb_nodes sb ! i)" "\<forall>n \<in> set (take i (sb_nodes sb)). sb_flag n \<noteq> SKB_FLAG_LOST"
proof -
  from assms obtain j where j: "nxt_to_retrx sb = Some j" by (cases "nxt_to_retrx sb") (auto simp: GetNextRetran_def)
  with assms obtain i where i: "next_lost j (drop j (sb_nodes sb)) = Some i" by (cases "next_lost j (drop j (sb_nodes sb))") (auto simp: GetNextRetran_def)
  from next_lost_Some [OF i] obtain k where k: "i = j + k" "k < length (sb_nodes sb) - j" "sb_flag (sb_nodes sb ! i) = SKB_FLAG_LOST"
    "\<forall>n \<in> set (take k (drop j (sb_nodes sb))). sb_flag n \<noteq> SKB_FLAG_LOST" by auto
  have "take i (sb_nodes sb) = take j (sb_nodes sb) @ take k (drop j (sb_nodes sb))" using k by (simp add: take_add)
  with k assms(1) j have "\<forall>n \<in> set (take i (sb_nodes sb)). sb_flag n \<noteq> SKB_FLAG_LOST" by (auto simp: sb_ok_def)
  with that k assms(2) i j show thesis by (auto simp: GetNextRetran_def)
qed

lemma GetNextRetran_none:
  assumes "ptr_first (sb_nodes sb) (nxt_to_retrx sb)" "SKB_FLAG_LOST \<in> sb_flag ` set (sb_nodes sb)"
  shows "nxt_to_retrx (snd (GetNextRetran sb)) \<noteq> None"
proof -
  from assms obtain i where i: "nxt_to_retrx sb = Some i" "i < length (sb_nodes sb)" "sb_flag (sb_nodes sb ! i) = SKB_FLAG_LOST"
    by (auto simp: ptr_first_def split: option.splits)
  then have "drop i (sb_nodes sb) = sb_nodes sb ! i # drop (Suc i) (sb_nodes sb)" by (simp add: Cons_nth_drop_Suc)
  with i show ?thesis by (simp add: GetNextRetran_def)
qed

lemma first_lost_Min:
  assumes "blocks s ns e" "i < length ns" "sb_flag (ns ! i) = SKB_FLAG_LOST" "\<forall>n \<in> set (take i ns). sb_flag n \<noteq> SKB_FLAG_LOST"
  shows "sb_seq (ns ! i) \<in> segs SKB_FLAG_LOST ns" "q \<in> segs SKB_FLAG_LOST ns \<Longrightarrow> sb_seq (ns ! i) \<le> q"
proof -
  obtain m where m: "blocks s (take i ns) m" "sb_seq (ns ! i) = m" "m \<le> GetEnd (ns ! i)" "blocks (GetEnd (ns ! i) + 1) (drop (Suc i) ns) e"
    using blocks_nth [OF assms(1,2)] .
  have "segs SKB_FLAG_LOST ns = segs SKB_FLAG_LOST (take i ns @ ns ! i # drop (Suc i) ns)"
    using assms(2) by (simp add: id_take_nth_drop [symmetric])
  also have "\<dots> = {m .. GetEnd (ns ! i)} \<union> segs SKB_FLAG_LOST (drop (Suc i) ns)"
    using assms(3,4) m by (simp add: segs_other)
  finally have eq: "segs SKB_FLAG_LOST ns = {m .. GetEnd (ns ! i)} \<union> segs SKB_FLAG_LOST (drop (Suc i) ns)" .
  show "sb_seq (ns ! i) \<in> segs SKB_FLAG_LOST ns" using eq m by auto
  show "sb_seq (ns ! i) \<le> q" if "q \<in> segs SKB_FLAG_LOST ns"
    using that segs_bounds [OF m(4), of SKB_FLAG_LOST] m(2,3) unfolding eq by auto
qed

lemma MarkRetran_ok:
  assumes ok: "sb_ok s sb" and p: "nxt_to_retrx sb = Some i" "i < length (sb_nodes sb)" "sb_flag (sb_nodes sb ! i) = SKB_FLAG_LOST"
  defines "q \<equiv> sb_seq (sb_nodes sb ! i)"
  shows "\<exists>sb'. MarkRetran q nx sb = Some sb' \<and> sb_ok s sb' \<and>
    segs SKB_FLAG_LOST (sb_nodes sb') = segs SKB_FLAG_LOST (sb_nodes sb) - {q} \<and>
    segs SKB_FLAG_RETRANSMITTED (sb_nodes sb') = insert q (segs SKB_FLAG_RETRANSMITTED (sb_nodes sb)) \<and>
    segs SKB_FLAG_SACKED (sb_nodes sb') = segs SKB_FLAG_SACKED (sb_nodes sb) \<and>
    (\<Union>f. segs f (sb_nodes sb')) = (\<Union>f. segs f (sb_nodes sb)) \<and> sb_fack sb' = sb_fack sb \<and> fack_out sb' = fack_out sb - 1 \<and>
    sack_out sb' = sack_out sb"
proof -
  let ?ns = "sb_nodes sb" and ?n = "sb_nodes sb ! i"
  let ?ns' = "take i ?ns @ node_MarkRetran nx (rtx_id sb) ?n @ drop (Suc i) ?ns"
  obtain e where be: "blocks s ?ns e" using ok p by (auto simp: sb_ok_def)
  from blocks_nth [OF be p(2)] have b: "blocks s (take i ?ns) q" "q \<le> GetEnd ?n" "blocks (GetEnd ?n + 1) (drop (Suc i) ?ns) e"
    by (auto simp: q_def)
  have ns: "?ns = take i ?ns @ ?n # drop (Suc i) ?ns" using p(2) by (rule id_take_nth_drop)
  have end_n: "GetEnd ?n = sb_nxt ?n" using p(3) by (simp add: GetEnd_def)
  have mr: "blocks q (node_MarkRetran nx (rtx_id sb) ?n) (GetEnd ?n + 1)"
    "segs SKB_FLAG_LOST (node_MarkRetran nx (rtx_id sb) ?n) = {q <.. GetEnd ?n}"
    "segs SKB_FLAG_RETRANSMITTED (node_MarkRetran nx (rtx_id sb) ?n) = {q}"
    "segs SKB_FLAG_SACKED (node_MarkRetran nx (rtx_id sb) ?n) = {}"
    "seg_count SKB_FLAG_LOST (node_MarkRetran nx (rtx_id sb) ?n) = GetLength ?n - 1"
    "seg_count SKB_FLAG_SACKED (node_MarkRetran nx (rtx_id sb) ?n) = 0"
    "Suc 0 \<le> length (node_MarkRetran nx (rtx_id sb) ?n)"
    using p(3) b(2) by (auto simp: node_MarkRetran_def Split_def new_node_def GetEnd_def GetLength_def q_def split: if_splits)
  have pos: "0 \<le> seg_count SKB_FLAG_LOST (take i ?ns)" "0 \<le> seg_count SKB_FLAG_LOST (drop (Suc i) ?ns)"
    using b by (auto intro: seg_count_nonneg)
  have cnt: "seg_count f ?ns = seg_count f (take i ?ns) + seg_count f [?n] + seg_count f (drop (Suc i) ?ns)"
    and seg: "segs f ?ns = segs f (take i ?ns) \<union> segs f [?n] \<union> segs f (drop (Suc i) ?ns)" for f
    using arg_cong [OF ns, of "seg_count f"] arg_cong [OF ns, of "segs f"] by (simp_all add: Un_assoc)
  have fo: "fack_out sb = seg_count SKB_FLAG_LOST (take i ?ns) + GetLength ?n + seg_count SKB_FLAG_LOST (drop (Suc i) ?ns)"
    "1 \<le> GetLength ?n" using ok cnt [of SKB_FLAG_LOST] p(3) b(2) by (auto simp: sb_ok_def GetLength_eq q_def)
  have b': "blocks s ?ns' e" using b mr(1) by (auto simp: blocks_append)
  have "Inside q ?n" using p(3) b(2) by (simp add: Inside_def q_def GetEnd_def)
  then have "MarkRetran q nx sb = Some (sb\<lparr>fack_out := fack_out sb - 1, sb_nodes := ?ns', rtx_id := rtx_id sb + 1, last_rtx_seq := q\<rparr>)"
    using p(1) fo pos by (simp add: MarkRetran_def)
  moreover have "sb_ok s (sb\<lparr>fack_out := fack_out sb - 1, sb_nodes := ?ns', rtx_id := rtx_id sb + 1, last_rtx_seq := q\<rparr>)"
    using ok p b' mr fo cnt [of SKB_FLAG_SACKED] by (auto simp: sb_ok_def)
  moreover have "q \<notin> segs f (take i ?ns)" "q \<notin> segs f (drop (Suc i) ?ns)" for f
    using segs_bounds [OF b(1), of f] segs_bounds [OF b(3), of f] b(2) by auto
  moreover have "(\<Union>f. segs f ?ns') = (\<Union>f. segs f ?ns)" using segs_cover [OF b'] segs_cover [OF be] by simp
  ultimately show ?thesis using p(3) b(2) mr
    by (intro exI [of _ "sb\<lparr>fack_out := fack_out sb - 1, sb_nodes := ?ns', rtx_id := rtx_id sb + 1, last_rtx_seq := q\<rparr>"])
      (auto simp: seg [of SKB_FLAG_LOST] seg [of SKB_FLAG_RETRANSMITTED] seg [of SKB_FLAG_SACKED] q_def)
qed

section \<open>The scoreboard in use\<close>

text \<open>
  The scoreboards of a connection, \<open>s\<close> being the first segment that is not acknowledged: a new or a cleared one, and
  those that the calls of \<^verbatim>\<open>tcp-linux.cc\<close> give: the update on an acknowledgement that does not go back, the marking of
  all segments on a timeout, the query for the segment to retransmit, and the marking of that segment.
\<close>

inductive sb_reach :: "int \<Rightarrow> scoreboard \<Rightarrow> bool" where
  new: "sb_reach s new_scoreboard"
| clear: "sb_reach s sb \<Longrightarrow> sb_reach s' (ClearScoreBoard sb)"
| update: "sb_reach s sb \<Longrightarrow> s \<le> la + 1 \<Longrightarrow> sacks_sane la sacks \<Longrightarrow>
           UpdateScoreBoard la sacks d sb = Some (flag, sb') \<Longrightarrow> sb_reach (la + 1) sb'"
| loss: "sb_reach s sb \<Longrightarrow> sb_reach s (MarkLoss s nx sb)"
| query: "sb_reach s sb \<Longrightarrow> sb_reach s (snd (GetNextRetran sb))"
| retran: "sb_reach s sb \<Longrightarrow> GetNextRetran sb = (q, sb') \<Longrightarrow> q \<noteq> - 1 \<Longrightarrow> MarkRetran q nx sb' = Some sb'' \<Longrightarrow> sb_reach s sb''"

lemma sb_ok_GetNextRetran: "sb_ok s sb \<Longrightarrow> sb_ok s (snd (GetNextRetran sb))"
proof -
  assume ok: "sb_ok s sb"
  obtain q sb' where g: "GetNextRetran sb = (q, sb')" by fastforce
  show ?thesis
  proof (cases "nxt_to_retrx sb'")
    case None
    with g have "sb' = sb\<lparr>nxt_to_retrx := None\<rparr>" by (auto simp: GetNextRetran_def Let_def)
    with g ok show ?thesis by (simp add: sb_ok_def)
  next
    case (Some i)
    with g obtain j where j: "nxt_to_retrx sb = Some j" "next_lost j (drop j (sb_nodes sb)) = Some i" "sb' = sb\<lparr>nxt_to_retrx := Some i\<rparr>"
      by (auto simp: GetNextRetran_def Let_def split: option.splits)
    from next_lost_Some [OF j(2)] obtain k where k: "i = j + k" "k < length (sb_nodes sb) - j"
      "\<forall>n \<in> set (take k (drop j (sb_nodes sb))). sb_flag n \<noteq> SKB_FLAG_LOST" by auto
    have "take i (sb_nodes sb) = take j (sb_nodes sb) @ take k (drop j (sb_nodes sb))" by (simp add: k take_add)
    then show ?thesis using g ok j k by (auto simp: sb_ok_def)
  qed
qed

lemma retransmit_ok:
  assumes "sb_ok s sb" "GetNextRetran sb = (q, sb')" "q \<noteq> - 1"
  shows "\<exists>sb''. MarkRetran q nx sb' = Some sb'' \<and> sb_ok s sb'' \<and>
    segs SKB_FLAG_LOST (sb_nodes sb'') = segs SKB_FLAG_LOST (sb_nodes sb) - {q} \<and>
    segs SKB_FLAG_RETRANSMITTED (sb_nodes sb'') = insert q (segs SKB_FLAG_RETRANSMITTED (sb_nodes sb)) \<and>
    segs SKB_FLAG_SACKED (sb_nodes sb'') = segs SKB_FLAG_SACKED (sb_nodes sb) \<and>
    (\<Union>f. segs f (sb_nodes sb'')) = (\<Union>f. segs f (sb_nodes sb)) \<and> sb_fack sb'' = sb_fack sb \<and> fack_out sb'' = fack_out sb - 1 \<and>
    sack_out sb'' = sack_out sb"
proof -
  from GetNextRetran_ok [OF assms] obtain i where i: "sb' = sb\<lparr>nxt_to_retrx := Some i\<rparr>" "i < length (sb_nodes sb)"
    "sb_flag (sb_nodes sb ! i) = SKB_FLAG_LOST" "q = sb_seq (sb_nodes sb ! i)" by blast
  have "sb_ok s sb'" using sb_ok_GetNextRetran [OF assms(1)] assms(2) by simp
  from MarkRetran_ok [OF this, of i nx] i show ?thesis by simp
qed

lemma sb_reach_ok: "sb_reach s sb \<Longrightarrow> sb_ok s sb"
proof (induction rule: sb_reach.induct)
  case (new s)
  show ?case by (simp add: new_scoreboard_def sb_ok_clear)
next
  case (update s sb la sacks d flag sb')
  with UpdateScoreBoard_ok [of s sb la sacks d] show ?case by (auto simp: update_post_def)
next
  case (loss s sb nx)
  with MarkLoss_ok show ?case by blast
next
  case (retran s sb q sb' nx sb'')
  with retransmit_ok [of s sb q sb' nx] show ?case by auto
qed (auto intro: sb_ok_clear sb_ok_GetNextRetran)

lemma GetNextRetran_least:
  assumes "sb_ok s sb" "fst (GetNextRetran sb) \<noteq> - 1"
  shows "fst (GetNextRetran sb) \<in> segs SKB_FLAG_LOST (sb_nodes sb)"
    "q \<in> segs SKB_FLAG_LOST (sb_nodes sb) \<Longrightarrow> fst (GetNextRetran sb) \<le> q"
proof -
  obtain p sb' where g: "GetNextRetran sb = (p, sb')" by fastforce
  with GetNextRetran_ok [OF assms(1) g] assms(2) obtain i where i: "i < length (sb_nodes sb)" "sb_flag (sb_nodes sb ! i) = SKB_FLAG_LOST"
    "p = sb_seq (sb_nodes sb ! i)" "\<forall>n \<in> set (take i (sb_nodes sb)). sb_flag n \<noteq> SKB_FLAG_LOST" by auto
  obtain e where "blocks s (sb_nodes sb) e" using assms(1) i(1) by (auto simp: sb_ok_def)
  note min = first_lost_Min [OF this i(1,2,4)]
  show "fst (GetNextRetran sb) \<in> segs SKB_FLAG_LOST (sb_nodes sb)" using min(1) g i(3) by simp
  show "fst (GetNextRetran sb) \<le> q" if "q \<in> segs SKB_FLAG_LOST (sb_nodes sb)" using min(2) [OF that] g i(3) by simp
qed

text \<open>When the pointer is at the first lost block, the query finds the first lost segment or there is none.\<close>

lemma GetNextRetran_Min:
  assumes "sb_ok s sb" "0 \<le> s" "ptr_first (sb_nodes sb) (nxt_to_retrx sb)"
  shows "fst (GetNextRetran sb) = (if segs SKB_FLAG_LOST (sb_nodes sb) = {} then - 1 else Min (segs SKB_FLAG_LOST (sb_nodes sb)))"
proof (cases "segs SKB_FLAG_LOST (sb_nodes sb) = {}")
  case True
  then show ?thesis using GetNextRetran_least(1) [OF assms(1)] by auto
next
  case False
  then obtain n where n: "n \<in> set (sb_nodes sb)" "sb_flag n = SKB_FLAG_LOST" by (auto simp: segs_def)
  with assms(1) obtain e where b: "blocks s (sb_nodes sb) e" by (auto simp: sb_ok_def)
  obtain q sb' where g: "GetNextRetran sb = (q, sb')" by fastforce
  from n have "SKB_FLAG_LOST \<in> sb_flag ` set (sb_nodes sb)" by force
  from GetNextRetran_none [OF assms(3) this] g obtain i where i: "nxt_to_retrx sb' = Some i" by auto
  with g have "q = sb_seq (sb_nodes sb ! i)" "sb_nodes sb' = sb_nodes sb" by (auto simp: GetNextRetran_def Let_def)
  moreover have "i < length (sb_nodes sb)" using sb_ok_GetNextRetran [OF assms(1)] g i calculation by (simp add: sb_ok_def)
  ultimately have "s \<le> q" using blocks_nth [OF b] blocks_le by metis
  with assms(2) g GetNextRetran_least [OF assms(1)] seg_count_card [OF b, of SKB_FLAG_LOST] False show ?thesis
    by (auto intro!: Min_eqI [symmetric])
qed

lemma sb_ok_disjoint: "sb_ok s sb \<Longrightarrow> f \<noteq> g \<Longrightarrow> segs f (sb_nodes sb) \<inter> segs g (sb_nodes sb) = {}"
  by (cases "sb_nodes sb = []") (auto simp: sb_ok_def dest: segs_disjoint)

lemma sb_ok_card:
  assumes "sb_ok s sb"
  shows "finite (segs f (sb_nodes sb))" "sack_out sb = int (card (segs SKB_FLAG_SACKED (sb_nodes sb)))"
    "fack_out sb = int (card (segs SKB_FLAG_LOST (sb_nodes sb)))"
  using assms by (cases "sb_nodes sb = []"; auto simp: sb_ok_def seg_count_card dest: seg_count_card)+

lemma sb_ok_in_flight:
  assumes ok: "sb_ok s sb" and "s \<le> nx" "(\<Union>f. segs f (sb_nodes sb)) \<subseteq> {s ..< nx}"
  shows "sb_packets_in_flight s nx sb =
    int (card ({s ..< nx} - segs SKB_FLAG_SACKED (sb_nodes sb) - segs SKB_FLAG_LOST (sb_nodes sb)))"
proof -
  let ?S = "segs SKB_FLAG_SACKED (sb_nodes sb)" and ?L = "segs SKB_FLAG_LOST (sb_nodes sb)"
  have sub: "?S \<union> ?L \<subseteq> {s ..< nx}" using assms(3) by blast
  have fin: "finite (?S \<union> ?L)" using sb_ok_card(1) [OF ok] by simp
  have "card (?S \<union> ?L) = card ?S + card ?L"
    using ok by (intro card_Un_disjoint sb_ok_card(1) sb_ok_disjoint) auto
  moreover have "{s ..< nx} - ?S - ?L = {s ..< nx} - (?S \<union> ?L)" by blast
  ultimately show ?thesis
    using assms(2) sb_ok_card(2,3) [OF ok] card_Diff_subset [OF fin sub] card_mono [OF _ sub]
    by (simp add: sb_packets_in_flight_def)
qed

section \<open>Properties\<close>

text \<open>
  \<^bold>\<open>C6\<close> The update of the scoreboard of a connection, on any acknowledgement that does not go back and with the SACK
  blocks of a receiver, returns (no assertion fails and the traversal ends), gives again a scoreboard of the connection,
  and its sacked segments are those above the acknowledgement that were sacked before and those of the SACK blocks.
\<close>

theorem scoreboard_update:
  assumes "sb_reach s sb" "s \<le> la + 1" "sacks_sane la sacks"
  shows "\<exists>flag sb'. UpdateScoreBoard la sacks d sb = Some (flag, sb') \<and> sb_reach (la + 1) sb' \<and>
    segs SKB_FLAG_SACKED (sb_nodes sb') =
      (segs SKB_FLAG_SACKED (sb_nodes sb) \<inter> {la + 1 ..}) \<union> in_sacks (kept_sacks la sacks)"
proof -
  from UpdateScoreBoard_ok [OF sb_reach_ok [OF assms(1)] assms(2,3), of d] obtain flag sb'
    where "UpdateScoreBoard la sacks d sb = Some (flag, sb')" "update_post la sacks d sb sb'" by blast
  with sb_reach.update [OF assms] show ?thesis by (auto simp: update_post_def)
qed

theorem scoreboard_update_witness:
  "\<exists>flag sb'. UpdateScoreBoard 1 [(9, 12), (4, 6)] 3 new_scoreboard = Some (flag, sb') \<and> sb_reach 2 sb' \<and>
    segs SKB_FLAG_SACKED (sb_nodes sb') = {4, 5, 9, 10, 11}"
proof -
  have "sacks_sane 1 [(9, 12), (4, 6)]" by (simp add: sacks_sane_def)
  moreover have "in_sacks (kept_sacks 1 [(9, 12), (4, 6)]) = {4, 5, 9, 10, 11}" by (auto simp: kept_sacks_def)
  moreover have "sb_nodes new_scoreboard = []" by (simp add: new_scoreboard_def ClearScoreBoard_def)
  ultimately show ?thesis
    using scoreboard_update [OF sb_reach.new [of 2], of 1 "[(9, 12), (4, 6)]" 3] by simp
qed

text \<open>
  \<^bold>\<open>C7\<close> When an acknowledgement advances the furthest sacked segment, every segment that is \<open>d + 1\<close> or more behind it,
  \<open>d\<close> being the threshold of duplicate acknowledgements, is sacked, lost or retransmitted after the update, and the next
  segment to retransmit is the lowest lost one, if any is lost.
\<close>

theorem scoreboard_loss_detection:
  assumes "sb_reach s sb" "s \<le> la + 1" "sacks_sane la sacks" "UpdateScoreBoard la sacks d sb = Some (flag, sb')"
    and "- 1 \<le> la" "0 \<le> d" "0 \<le> sb_fack sb" "sb_fack sb < sb_fack sb'"
  shows "{la + 1 .. sb_fack sb' - (d + 1)} \<subseteq> segs SKB_FLAG_SACKED (sb_nodes sb') \<union> segs SKB_FLAG_LOST (sb_nodes sb') \<union>
      segs SKB_FLAG_RETRANSMITTED (sb_nodes sb') \<and>
    fst (GetNextRetran sb') =
      (if segs SKB_FLAG_LOST (sb_nodes sb') = {} then - 1 else Min (segs SKB_FLAG_LOST (sb_nodes sb')))"
proof (intro conjI subsetI)
  from UpdateScoreBoard_ok [OF sb_reach_ok [OF assms(1)] assms(2,3), of d] assms(4)
  have p: "update_post la sacks d sb sb'" by auto
  show "fst (GetNextRetran sb') = (if segs SKB_FLAG_LOST (sb_nodes sb') = {} then - 1 else Min (segs SKB_FLAG_LOST (sb_nodes sb')))"
    using p assms(5-8) by (intro GetNextRetran_Min [of "la + 1"]) (auto simp: update_post_def)
  fix q assume q: "q \<in> {la + 1 .. sb_fack sb' - (d + 1)}"
  have "{la + 1 .. sb_fack sb'} \<subseteq> (\<Union>f. segs f (sb_nodes sb'))" using p assms(7,8) by (simp add: update_post_def)
  moreover have "q \<in> {la + 1 .. sb_fack sb'}" using q assms(6) by simp
  ultimately have "q \<in> (\<Union>f. segs f (sb_nodes sb'))" by (rule subsetD)
  then obtain f where f: "q \<in> segs f (sb_nodes sb')" by blast
  moreover have "f \<noteq> SKB_FLAG_INFLIGHT" using p assms(7,8) q f by (auto simp: update_post_def)
  ultimately show "q \<in> segs SKB_FLAG_SACKED (sb_nodes sb') \<union> segs SKB_FLAG_LOST (sb_nodes sb') \<union>
      segs SKB_FLAG_RETRANSMITTED (sb_nodes sb')" by (cases f) auto
qed

definition sample_board :: scoreboard where
  "sample_board = \<lparr>sb_nodes = [new_node 2 7 SKB_FLAG_LOST, new_node 8 8 SKB_FLAG_INFLIGHT, new_node 9 11 SKB_FLAG_SACKED],
     nxt_to_retrx = Some 0, acked_rtx_id = - 1, rtx_id = 0, sb_fack = 11, fack_out = 6, sack_out = 3, last_rtx_seq = - 1\<rparr>"

declare update_loop.simps [code]

lemma sample_board_update: "UpdateScoreBoard 1 [(9, 12)] 3 new_scoreboard = Some (10, sample_board)"
  by code_simp

lemma sample_board_reach: "sb_reach 2 sample_board"
  using sb_reach.update [OF sb_reach.new [of 2] _ _ sample_board_update] by (simp add: sacks_sane_def)

theorem scoreboard_loss_detection_witness:
  "{2 .. 7} \<subseteq> segs SKB_FLAG_SACKED (sb_nodes sample_board) \<union> segs SKB_FLAG_LOST (sb_nodes sample_board) \<union>
     segs SKB_FLAG_RETRANSMITTED (sb_nodes sample_board)"
  using scoreboard_loss_detection [OF sb_reach.new [of 2] _ _ sample_board_update]
  by (auto simp: sacks_sane_def new_scoreboard_def ClearScoreBoard_def sample_board_def)

text \<open>
  A timeout marks lost exactly the segments, on the scoreboard or sent, that are not sacked, and the next segment to
  retransmit is the first of them.
\<close>

theorem scoreboard_timeout:
  fixes s nx :: int and sb :: scoreboard
  assumes "sb_reach s sb" "0 \<le> s"
  defines "sb' \<equiv> MarkLoss s nx sb"
  shows "segs SKB_FLAG_LOST (sb_nodes sb') =
      ((\<Union>f. segs f (sb_nodes sb)) \<union> {s ..< nx}) - segs SKB_FLAG_SACKED (sb_nodes sb) \<and>
    segs SKB_FLAG_SACKED (sb_nodes sb') = segs SKB_FLAG_SACKED (sb_nodes sb) \<and>
    fack_out sb' = int (card (segs SKB_FLAG_LOST (sb_nodes sb'))) \<and>
    fst (GetNextRetran sb') =
      (if segs SKB_FLAG_LOST (sb_nodes sb') = {} then - 1 else Min (segs SKB_FLAG_LOST (sb_nodes sb')))"
proof -
  note ok = sb_reach_ok [OF assms(1)]
  note m = MarkLoss_ok [OF ok, of nx, folded sb'_def]
  have lost: "segs SKB_FLAG_LOST (sb_nodes sb') = (\<Union>f. segs f (sb_nodes sb')) - segs SKB_FLAG_SACKED (sb_nodes sb')"
  proof -
    have "segs f (sb_nodes sb') \<subseteq> segs SKB_FLAG_LOST (sb_nodes sb') \<union> segs SKB_FLAG_SACKED (sb_nodes sb')" for f
      using m by (cases f) auto
    moreover have "segs SKB_FLAG_LOST (sb_nodes sb') \<inter> segs SKB_FLAG_SACKED (sb_nodes sb') = {}"
      using m by (intro sb_ok_disjoint [of s]) auto
    ultimately show ?thesis by blast
  qed
  moreover have "fack_out sb' = int (card (segs SKB_FLAG_LOST (sb_nodes sb')))"
    by (rule sb_ok_card(3) [of s]) (use m in simp)
  moreover have "fst (GetNextRetran sb') =
      (if segs SKB_FLAG_LOST (sb_nodes sb') = {} then - 1 else Min (segs SKB_FLAG_LOST (sb_nodes sb')))"
    using m assms(2) by (intro GetNextRetran_Min) auto
  ultimately show ?thesis using m by simp
qed

theorem scoreboard_timeout_witness:
  "segs SKB_FLAG_LOST (sb_nodes (MarkLoss 2 15 sample_board)) = {2 .. 8} \<union> {12, 13, 14} \<and>
   fst (GetNextRetran (MarkLoss 2 15 sample_board)) = 2"
proof -
  let ?b = "MarkLoss 2 15 sample_board"
  have old: "(\<Union>f. segs f (sb_nodes sample_board)) \<union> {2 ..< 15} = {2 ..< 15}" "segs SKB_FLAG_SACKED (sb_nodes sample_board) = {9 .. 11}"
    by (auto simp: sample_board_def split: if_splits)
  from scoreboard_timeout [OF sample_board_reach, of 15]
  have "segs SKB_FLAG_LOST (sb_nodes ?b) = {2 ..< 15} - {9 .. 11}"
    and "fst (GetNextRetran ?b) = (if segs SKB_FLAG_LOST (sb_nodes ?b) = {} then - 1 else Min (segs SKB_FLAG_LOST (sb_nodes ?b)))"
    unfolding old by simp_all
  moreover have "{2 ..< 15} - {9 .. 11} = {2 .. 8} \<union> {12, 13, 14 :: int}" by auto
  moreover have "Min ({2 .. 8} \<union> {12, 13, 14 :: int}) = 2" by (rule Min_eqI) auto
  ultimately show ?thesis by simp
qed

text \<open>
  \<^bold>\<open>C22\<close> A segment that the query gives is the lowest lost one; marking it retransmitted fails no assertion and moves exactly
  this segment from the lost to the retransmitted ones.
\<close>

theorem scoreboard_retransmit:
  assumes "sb_reach s sb" "GetNextRetran sb = (q, sb')" "q \<noteq> - 1"
  shows "q \<in> segs SKB_FLAG_LOST (sb_nodes sb) \<and> (\<forall>x \<in> segs SKB_FLAG_LOST (sb_nodes sb). q \<le> x) \<and>
    (\<exists>sb''. MarkRetran q nx sb' = Some sb'' \<and> sb_reach s sb'' \<and>
      segs SKB_FLAG_LOST (sb_nodes sb'') = segs SKB_FLAG_LOST (sb_nodes sb) - {q} \<and>
      segs SKB_FLAG_RETRANSMITTED (sb_nodes sb'') = insert q (segs SKB_FLAG_RETRANSMITTED (sb_nodes sb)) \<and>
      segs SKB_FLAG_SACKED (sb_nodes sb'') = segs SKB_FLAG_SACKED (sb_nodes sb))"
  using retransmit_ok [OF sb_reach_ok [OF assms(1)] assms(2,3), of nx] GetNextRetran_least [OF sb_reach_ok [OF assms(1)]]
    sb_reach.retran [OF assms] assms(2,3) by fastforce

theorem scoreboard_retransmit_witness:
  "\<exists>sb''. MarkRetran 2 12 sample_board = Some sb'' \<and> sb_reach 2 sb'' \<and> segs SKB_FLAG_LOST (sb_nodes sb'') = {3 .. 7}"
proof -
  have "GetNextRetran sample_board = (2, sample_board)" by code_simp
  moreover have "segs SKB_FLAG_LOST (sb_nodes sample_board) - {2} = {3 .. 7}" by (auto simp: sample_board_def)
  ultimately show ?thesis using scoreboard_retransmit [OF sample_board_reach, of 2 sample_board 12] by auto
qed

text \<open>
  The number of packets in flight that the agent computes from the counters is the number of outstanding segments
  that are neither sacked nor lost.
\<close>

theorem scoreboard_in_flight:
  assumes "sb_reach s sb" "s \<le> nx" "(\<Union>f. segs f (sb_nodes sb)) \<subseteq> {s ..< nx}"
  shows "sb_packets_in_flight s nx sb =
    int (card ({s ..< nx} - segs SKB_FLAG_SACKED (sb_nodes sb) - segs SKB_FLAG_LOST (sb_nodes sb)))"
  using sb_ok_in_flight [OF sb_reach_ok [OF assms(1)] assms(2,3)] .

theorem scoreboard_in_flight_witness: "sb_packets_in_flight 2 15 sample_board = 4"
proof -
  have "(\<Union>f. segs f (sb_nodes sample_board)) \<subseteq> {2 ..< 15}" by (auto simp: sample_board_def split: if_splits)
  moreover have "{2 ..< 15} - segs SKB_FLAG_SACKED (sb_nodes sample_board) - segs SKB_FLAG_LOST (sb_nodes sample_board) = {8, 12, 13, 14}"
    by (auto simp: sample_board_def)
  ultimately show ?thesis using scoreboard_in_flight [OF sample_board_reach, of 15] by simp
qed

definition stalled_board :: scoreboard where
  "stalled_board = \<lparr>sb_nodes = [new_node 2 2 SKB_FLAG_SACKED, \<lparr>sb_flag = SKB_FLAG_RETRANSMITTED, sb_seq = 3, sb_nxt = 12, sb_retran = 0\<rparr>,
       new_node 4 7 SKB_FLAG_LOST, new_node 8 8 SKB_FLAG_INFLIGHT, new_node 9 11 SKB_FLAG_SACKED],
     nxt_to_retrx = Some 1, acked_rtx_id = - 1, rtx_id = 1, sb_fack = 11, fack_out = 4, sack_out = 4, last_rtx_seq = 3\<rparr>"

lemma stalled_board_reach: "sb_reach 2 stalled_board"
proof -
  define b where "b = snd (the (UpdateScoreBoard 1 [(2, 3)] 3 sample_board))"
  have 1: "UpdateScoreBoard 1 [(2, 3)] 3 sample_board = Some (2, b)" unfolding b_def by code_simp
  have 2: "GetNextRetran b = (3, b)" "MarkRetran 3 12 b = Some stalled_board" unfolding b_def by code_simp+
  have "sb_reach (1 + 1) b" by (rule sb_reach.update [OF sample_board_reach _ _ 1]) (simp_all add: sacks_sane_def)
  then show ?thesis using sb_reach.retran [OF _ 2(1) _ 2(2)] by simp
qed

text \<open>
  \<^bold>\<open>C33\<close> An update that is not thorough resets the pointer to the next retransmission and stops behind the last SACK block,
  so an acknowledgement that repeats an old block makes the sender forget its losses. There is a scoreboard, reached by
  updates and retransmissions, on which segments are lost and the first of them is the one offered next; an acknowledgement
  of the same segment with one SACK block, all of which is sacked already, is processed; the lost segments are the same, but
  none of them is offered any more.
\<close>

theorem scoreboard_stalls:
  "\<exists>sb la l r flag sb'. sb_reach (la + 1) sb \<and> la < l \<and> l < r \<and> {l ..< r} \<subseteq> segs SKB_FLAG_SACKED (sb_nodes sb) \<and>
     segs SKB_FLAG_LOST (sb_nodes sb) \<noteq> {} \<and> segs SKB_FLAG_LOST (sb_nodes sb) \<subseteq> {0 ..} \<and>
     fst (GetNextRetran sb) = Min (segs SKB_FLAG_LOST (sb_nodes sb)) \<and>
     UpdateScoreBoard la [(l, r)] 3 sb = Some (flag, sb') \<and>
     segs SKB_FLAG_LOST (sb_nodes sb') = segs SKB_FLAG_LOST (sb_nodes sb) \<and> fst (GetNextRetran sb') = - 1"
proof -
  let ?b = "stalled_board\<lparr>nxt_to_retrx := None\<rparr>"
  have "UpdateScoreBoard 1 [(2, 3)] 3 stalled_board = Some (0, ?b)" by code_simp
  moreover have "{2 ..< 3} \<subseteq> segs SKB_FLAG_SACKED (sb_nodes stalled_board)" by (auto simp: stalled_board_def)
  moreover have "segs SKB_FLAG_LOST (sb_nodes stalled_board) = {4 .. 7}" by (auto simp: stalled_board_def)
  moreover have "Min {4 .. 7 :: int} = 4" by (rule Min_eqI) auto
  moreover have "fst (GetNextRetran stalled_board) = 4" by code_simp
  moreover have "sb_nodes ?b = sb_nodes stalled_board" "fst (GetNextRetran ?b) = - 1" by (simp_all add: GetNextRetran_def)
  ultimately show ?thesis using stalled_board_reach
    by (intro exI [of _ stalled_board] exI [of _ 1] exI [of _ 2] exI [of _ 3] exI [of _ 0] exI [of _ ?b]) auto
qed

text \<open>
  The filter of D-SACK blocks lets a block through that starts at the acknowledged segment itself. On a new
  scoreboard it leaves an empty node, so that the scoreboard is not well formed; when a timeout then marks it lost with
  nothing outstanding, the empty node is offered for retransmission and an assertion fails. The condition \<open>sacks_sane\<close> of the
  other properties leaves such a block out.
\<close>

theorem dsack_aborts:
  assumes "0 \<le> la"
  shows "\<exists>sb sb'. UpdateScoreBoard la [(la, la + 1)] 3 new_scoreboard = Some (0, sb) \<and> \<not> sb_ok (la + 1) sb \<and>
    GetNextRetran (MarkLoss (la + 1) (la + 1) sb) = (la + 1, sb') \<and> MarkRetran (la + 1) (la + 1) sb' = None"
proof -
  define sb where "sb = new_scoreboard\<lparr>sb_nodes := [new_node (la + 1) la SKB_FLAG_INFLIGHT], sb_fack := la\<rparr>"
  have "update_loop 3 [] [new_node (la + 1) la SKB_FLAG_INFLIGHT]
      \<lparr>u_sb = new_scoreboard\<lparr>sb_fack := la\<rparr>, u_flag = 0, u_thorough = t, u_sacks = [(la, la + 1)]\<rparr> =
      Some ([new_node (la + 1) la SKB_FLAG_INFLIGHT], \<lparr>u_sb = new_scoreboard\<lparr>sb_fack := la\<rparr>, u_flag = 0, u_thorough = t, u_sacks = []\<rparr>)" for t
  proof -
    let ?n = "new_node (la + 1) la SKB_FLAG_INFLIGHT" and ?sb = "new_scoreboard\<lparr>sb_fack := la\<rparr>"
    have "visit_now 3 0 ?n \<lparr>u_sb = ?sb, u_flag = 0, u_thorough = t, u_sacks = [(la, la + 1)]\<rparr> =
        (?n, [], \<lparr>u_sb = ?sb, u_flag = 0, u_thorough = t, u_sacks = []\<rparr>)"
      by (simp add: visit_now_def sack_now_def check_now_def Let_def new_node_def GetEnd_def)
    moreover have "update_loop 3 [?n] [] u = Some ([?n], u)" for u by (subst update_loop.simps) simp
    ultimately show ?thesis by (subst update_loop.simps) (simp add: push_node_def new_node_def GetEnd_def)
  qed
  then have "UpdateScoreBoard la [(la, la + 1)] 3 new_scoreboard = Some (0, sb)"
    using assms by (auto simp: UpdateScoreBoard_def traverse_def sb_def new_scoreboard_def ClearScoreBoard_def Let_def)
  moreover have "\<not> sb_ok (la + 1) sb" by (auto simp: sb_ok_def sb_def)
  moreover have "MarkLoss (la + 1) (la + 1) sb = sb\<lparr>sb_nodes := [new_node (la + 1) la SKB_FLAG_LOST], nxt_to_retrx := Some 0\<rparr>"
    by (simp add: MarkLoss_def mark_step_def set_nxt_def sb_def new_scoreboard_def ClearScoreBoard_def SetFlag_def new_node_def GetEnd_def)
  ultimately show ?thesis
    by (auto simp: GetNextRetran_def MarkRetran_def Inside_def new_node_def GetEnd_def)
qed

theorem dsack_aborts_witness:
  "\<exists>sb. UpdateScoreBoard 0 [(0, 1)] 3 new_scoreboard = Some (0, sb) \<and> \<not> sb_ok 1 sb"
  using dsack_aborts [of 0] by auto

end
