(* ===== verification/Linux_Agent.thy ===== *)
theory Linux_Agent
  imports Cong_Control Scoreboard1
begin

text \<open>
  \<^verbatim>\<open>src/ns-2.34/tcp/tcp-linux.cc\<close>: the agent \<^verbatim>\<open>LinuxTcpAgent\<close> with a module installed, on the scoreboard of
  \<open>Scoreboard1\<close> and the module calls of \<open>Cong_Control\<close>: reception of an acknowledgement (\<open>recv\<close>), the reaction to loss
  (\<open>tcp_fastretrans_alert\<close>, \<open>enter_loss\<close>), the timers (\<open>timeout\<close>) and sending (\<open>send_much\<close>), with the parts of \<^verbatim>\<open>tcp.cc\<close>
  they call that change this state (\<open>output\<close>, \<open>reset_rtx_timer\<close>, \<open>rtt_backoff\<close>, \<open>slowdown\<close> with \<^verbatim>\<open>CLOSE_CWND_INIT\<close>).

  Sequence numbers and the tick counts of the round trip estimator are ideal integers, the fields of the socket machine
  words; \<^verbatim>\<open>short\<close> conversions are written out. The simulator's clock is a \<^verbatim>\<open>double\<close>: what the code computes from it and
  rounds to an integer (the measured round trip times, the time stamps) arrives with the acknowledgement. Timers,
  packet contents, statistics counters and the branches for an agent without a module (which use the floating-point
  window of \<^verbatim>\<open>tcp.cc\<close>) are not part of the model. A packet handed to \<open>output\<close> is recorded in \<open>sent\<close>, the last one first.
\<close>

section \<open>Data\<close>

text \<open>The bound variables that do not change while a connection runs.\<close>

record agent_conf =
  c_ecn :: bool
  c_ect :: bool
  c_ts_option :: bool
  c_ts_resetRTO :: bool
  c_bugfix_ts :: bool
  c_overhead :: bool
  c_maxburst :: int
  c_tcp_max_burst :: int
  c_slow_start_restart :: bool
  c_restart_bugfix :: bool
  c_syn :: bool
  c_max_connects :: int
  c_wnd_init :: int
  c_wnd :: int
  c_size :: int
  c_rfc2988 :: bool
  c_srtt_bits :: nat
  c_rttvar_bits :: nat

text \<open>
  An acknowledgement with what is measured at its arrival: the round trip time against the echoed time stamp (in ticks,
  in microseconds for the module, in jiffies) and against the timed segment, and the time stamps as jiffies.
\<close>

record ack_info =
  ai_seqno :: int
  ai_sacks :: "(int \<times> int) list"
  ai_ecnecho :: bool
  ai_no_ts :: bool
  ai_rtt_tick :: int
  ai_rtt_us :: u32
  ai_seq_rtt :: u32
  ai_tsecr :: u32
  ai_tsval :: u32
  ai_timed_tick :: int
  ai_timed_us :: u32
  ai_last_ackt :: s64

record 'ca agent =
  scb :: scoreboard
  linux_sk :: "'ca tcp_sock"
  initialized :: bool
  next_pkts_in_flight :: int
  t_seqno :: int
  highest_ack :: int
  maxseq :: int
  recover :: int
  curseq :: int
  prev_highest_ack :: int
  last_ack :: int
  ns_cwnd :: int
  ns_ssthresh :: int
  t_rtt :: int
  t_srtt :: int
  t_rttvar :: int
  t_backoff :: int
  ecn_backoff :: bool
  rtt_active :: bool
  rtt_seq :: int
  closed :: bool
  delsnd_pending :: bool
  syn_connects :: int
  sent :: "int list"

abbreviation upd_sk :: "('ca tcp_sock \<Rightarrow> 'ca tcp_sock) \<Rightarrow> 'ca agent \<Rightarrow> 'ca agent" where
  "upd_sk f a \<equiv> a\<lparr>linux_sk := f (linux_sk a)\<rparr>"

definition has_flag :: "u8 \<Rightarrow> u8 \<Rightarrow> bool" where
  "has_flag flag m \<longleftrightarrow> flag AND m \<noteq> 0"

abbreviation (input) FLAG_CA_ALERT :: u8 where "FLAG_CA_ALERT \<equiv> 3"

section \<open>Sequence numbers and round trip times\<close>

definition packets_in_flight :: "'ca agent \<Rightarrow> int" where
  "packets_in_flight a = sb_packets_in_flight (highest_ack a + 1) (t_seqno a) (scb a)"

definition window :: "'ca agent \<Rightarrow> int" where
  "window a = sint (snd_cwnd (linux_sk a))"

definition ack_processing :: "ack_info \<Rightarrow> u8 \<Rightarrow> 'ca agent \<Rightarrow> u8 \<times> 'ca agent" where
  "ack_processing p flag a =
     (if has_flag flag FLAG_DATA_ACKED then
        let a = upd_sk (\<lambda>sk. sk\<lparr>snd_una := word_of_int (ai_seqno p + 1) * mss_cache sk\<rparr>) (a\<lparr>highest_ack := ai_seqno p\<rparr>);
            a = a\<lparr>maxseq := max (maxseq a) (highest_ack a)\<rparr>
        in (flag, if t_seqno a < highest_ack a + 1
                  then upd_sk (\<lambda>sk. sk\<lparr>snd_nxt := word_of_int (highest_ack a + 1) * mss_cache sk\<rparr>) (a\<lparr>t_seqno := highest_ack a + 1\<rparr>)
                  else a)
      else (flag OR FLAG_UNSURE_TSTAMP, a))"

text \<open>A value stored in a \<^verbatim>\<open>short\<close>.\<close>

definition to_short :: "int \<Rightarrow> int" where
  "to_short i = signed_take_bit 15 i"

definition rtt_smooth :: "agent_conf \<Rightarrow> int \<Rightarrow> int \<Rightarrow> int \<Rightarrow> int \<times> int" where
  "rtt_smooth c m s v =
     (if s \<noteq> 0 then
        let delta = to_short (m - s div 2 ^ c_srtt_bits c);
            s' = (if s + delta \<le> 0 then 1 else s + delta);
            delta' = (if delta < 0
                      then let d = to_short (to_short (- delta) - v div 2 ^ c_rttvar_bits c)
                           in (if d > 0 then d div 2 ^ c_srtt_bits c else d)
                      else to_short (delta - v div 2 ^ c_rttvar_bits c))
        in (s', v + delta')
      else (m * 2 ^ c_srtt_bits c, m * 2 ^ (c_rttvar_bits c - 1)))"

definition rtt_update ::
  "agent_conf \<Rightarrow> 'ca tcp_congestion_ops \<Rightarrow> kernel_env \<Rightarrow> int \<Rightarrow> u32 \<Rightarrow> 'ca agent \<Rightarrow> 'ca agent exec" where
  "rtt_update c ops e tick us a = do {
     sk \<leftarrow> rtt_sample_call ops e us (linux_sk a);
     let m = max 1 tick;
     let (s, v) = rtt_smooth c m (t_srtt a) (t_rttvar a);
     Some (a\<lparr>t_rtt := m, t_srtt := s, t_rttvar := v, linux_sk := sk\<lparr>srtt := word_of_int s\<rparr>\<rparr>)
   }"

definition backoff_ends :: "agent_conf \<Rightarrow> ack_info \<Rightarrow> 'ca agent \<Rightarrow> bool" where
  "backoff_ends c p a \<longleftrightarrow> \<not> c_ect c \<or> \<not> ecn_backoff a \<or> \<not> ai_ecnecho p"

definition uses_ts :: "agent_conf \<Rightarrow> ack_info \<Rightarrow> bool" where
  "uses_ts c p \<longleftrightarrow> \<not> ai_no_ts p \<and> c_ts_option c"

definition ts_processing ::
  "agent_conf \<Rightarrow> 'ca tcp_congestion_ops \<Rightarrow> kernel_env \<Rightarrow> ack_info \<Rightarrow> 'ca agent \<Rightarrow> 'ca agent exec" where
  "ts_processing c ops e p a =
     (if uses_ts c p then do {
        a \<leftarrow> rtt_update c ops e (ai_rtt_tick p) (ai_rtt_us p)
          (upd_sk (\<lambda>sk. sk\<lparr>rx_opt := \<lparr>rcv_tsval = ai_tsval p, rcv_tsecr = ai_tsecr p, saw_tstamp = True\<rparr>\<rparr>) a);
        Some (if c_ts_resetRTO c then a\<lparr>t_backoff := 1, ecn_backoff := ecn_backoff a \<and> \<not> backoff_ends c p a\<rparr> else a)
      }
      else Some (upd_sk (\<lambda>sk. sk\<lparr>rx_opt := (rx_opt sk)\<lparr>saw_tstamp := False\<rparr>\<rparr>) a))"

definition timed_processing ::
  "agent_conf \<Rightarrow> 'ca tcp_congestion_ops \<Rightarrow> kernel_env \<Rightarrow> ack_info \<Rightarrow> 'ca agent \<Rightarrow> 'ca agent exec" where
  "timed_processing c ops e p a =
     (if rtt_active a \<and> ai_seqno p \<ge> rtt_seq a then
        let a = (if backoff_ends c p a then a\<lparr>t_backoff := 1, ecn_backoff := False\<rparr> else a)\<lparr>rtt_active := False\<rparr>
        in (if \<not> saw_tstamp (rx_opt (linux_sk a)) then rtt_update c ops e (ai_timed_tick p) (ai_timed_us p) a else Some a)
      else Some a)"

definition time_processing ::
  "agent_conf \<Rightarrow> 'ca tcp_congestion_ops \<Rightarrow> kernel_env \<Rightarrow> ack_info \<Rightarrow> 'ca agent \<Rightarrow> 'ca agent exec" where
  "time_processing c ops e p a = do {
     a \<leftarrow> ts_processing c ops e p a;
     a \<leftarrow> timed_processing c ops e p a;
     Some (if highest_ack a \<ge> curseq a - 1 \<and> \<not> closed a then a\<lparr>closed := True\<rparr> else a)
   }"

section \<open>Sending\<close>

definition tcp_output :: "agent_conf \<Rightarrow> int \<Rightarrow> 'ca agent \<Rightarrow> 'ca agent" where
  "tcp_output c seqno a =
     (let a = (if seqno = 0 \<and> c_syn c then a\<lparr>curseq := curseq a + 1, syn_connects := syn_connects a + 1\<rparr> else a) in
      if seqno = 0 \<and> c_syn c \<and> c_max_connects c > 0 \<and> syn_connects a > c_max_connects c then a\<lparr>curseq := 0\<rparr>
      else
        let a = a\<lparr>sent := seqno # sent a\<rparr> in
        if seqno > maxseq a then
          let a = a\<lparr>maxseq := seqno\<rparr> in
          if \<not> rtt_active a then a\<lparr>rtt_active := True, rtt_seq := max (rtt_seq a) seqno\<rparr> else a
        else a)"

text \<open>What follows the choice of a segment: \<open>output\<close>, the bound of the rate halving, the next sequence number.\<close>

definition send_segment :: "agent_conf \<Rightarrow> int \<Rightarrow> 'ca agent \<Rightarrow> 'ca agent" where
  "send_segment c xmit_seqno a =
     (let a = tcp_output c xmit_seqno a;
          a = a\<lparr>next_pkts_in_flight := min (next_pkts_in_flight a) (max (packets_in_flight a - 1) 1)\<rparr>;
          a = (if t_seqno a \<le> xmit_seqno then a\<lparr>t_seqno := xmit_seqno + 1\<rparr> else a)
      in upd_sk (\<lambda>sk. sk\<lparr>snd_nxt := word_of_int (t_seqno a) * mss_cache sk\<rparr>) a)"

text \<open>
  One round of the loop: \<open>Inl\<close> when it returns, \<open>Inr\<close> when a segment was sent; no result when an assertion of the
  scoreboard fails, or when a delayed send is pending already (the loop of the code would not end).
\<close>

definition send_round :: "agent_conf \<Rightarrow> bool \<Rightarrow> 'ca agent \<Rightarrow> ('ca agent + 'ca agent) exec" where
  "send_round c force a =
     (if \<not> c_overhead c \<or> force then
        case GetNextRetran (scb a) of (xmit_seqno, sb) \<Rightarrow>
          if xmit_seqno = - 1 then
            if t_seqno a \<ge> curseq a then Some (Inl (a\<lparr>scb := sb\<rparr>))
            else Some (Inr (send_segment c (t_seqno a) (a\<lparr>scb := sb, t_seqno := t_seqno a + 1\<rparr>)))
          else do {
            sb \<leftarrow> MarkRetran xmit_seqno (t_seqno a) sb;
            Some (Inr (send_segment c xmit_seqno (a\<lparr>scb := sb\<rparr>)))
          }
      else if \<not> delsnd_pending a then Some (Inl (a\<lparr>delsnd_pending := True\<rparr>))
      else None)"

lemma tcp_output_fields [simp]:
  "scb (tcp_output c q a) = scb a" "linux_sk (tcp_output c q a) = linux_sk a" "t_seqno (tcp_output c q a) = t_seqno a"
  "highest_ack (tcp_output c q a) = highest_ack a" "next_pkts_in_flight (tcp_output c q a) = next_pkts_in_flight a"
  "initialized (tcp_output c q a) = initialized a" "delsnd_pending (tcp_output c q a) = delsnd_pending a"
  "t_srtt (tcp_output c q a) = t_srtt a" "ns_ssthresh (tcp_output c q a) = ns_ssthresh a" "recover (tcp_output c q a) = recover a"
  by (simp_all add: tcp_output_def Let_def)

lemma send_segment_fields [simp]:
  "scb (send_segment c q a) = scb a" "t_seqno (send_segment c q a) = (if t_seqno a \<le> q then q + 1 else t_seqno a)"
  "highest_ack (send_segment c q a) = highest_ack a"
  "linux_sk (send_segment c q a) = (linux_sk a)\<lparr>snd_nxt := word_of_int (if t_seqno a \<le> q then q + 1 else t_seqno a) * mss_cache (linux_sk a)\<rparr>"
  "next_pkts_in_flight (send_segment c q a) = min (next_pkts_in_flight a) (max (packets_in_flight a - 1) 1)"
  "initialized (send_segment c q a) = initialized a" "delsnd_pending (send_segment c q a) = delsnd_pending a"
  "t_srtt (send_segment c q a) = t_srtt a" "ns_ssthresh (send_segment c q a) = ns_ssthresh a" "recover (send_segment c q a) = recover a"
  by (simp_all add: send_segment_def packets_in_flight_def Let_def)

lemma send_round_in_flight:
  assumes "send_round c force a = Some (Inr b)"
  shows "packets_in_flight b \<ge> packets_in_flight a + 1" "window b = window a" "next_pkts_in_flight b \<le> next_pkts_in_flight a"
proof -
  obtain q sb where g: "GetNextRetran (scb a) = (q, sb)" by fastforce
  then have out: "fack_out sb = fack_out (scb a)" "sack_out sb = sack_out (scb a)" by (auto simp: GetNextRetran_def Let_def)
  consider (new) "b = send_segment c (t_seqno a) (a\<lparr>scb := sb, t_seqno := t_seqno a + 1\<rparr>)"
    | (old) sb' where "MarkRetran q (t_seqno a) sb = Some sb'" "b = send_segment c q (a\<lparr>scb := sb'\<rparr>)"
    using assms g by (auto simp: send_round_def split: if_splits Option.bind_splits)
  then have "packets_in_flight b \<ge> packets_in_flight a + 1 \<and> window b = window a \<and> next_pkts_in_flight b \<le> next_pkts_in_flight a"
  proof cases
    case new
    then show ?thesis using out by (simp add: packets_in_flight_def sb_packets_in_flight_def window_def)
  next
    case old
    then have "fack_out sb' = fack_out sb - 1" "sack_out sb' = sack_out sb"
      by (auto simp: MarkRetran_def split: option.splits if_splits)
    with old out show ?thesis by (simp add: packets_in_flight_def sb_packets_in_flight_def window_def)
  qed
  then show "packets_in_flight b \<ge> packets_in_flight a + 1" "window b = window a" "next_pkts_in_flight b \<le> next_pkts_in_flight a" by auto
qed

function send_loop :: "agent_conf \<Rightarrow> bool \<Rightarrow> int \<Rightarrow> int \<Rightarrow> 'ca agent \<Rightarrow> 'ca agent exec" where
  "send_loop c force maxburst npacket a =
     (if packets_in_flight a < max (window a) (next_pkts_in_flight a) then
        case send_round c force a of
          None \<Rightarrow> None
        | Some (Inl b) \<Rightarrow> Some b
        | Some (Inr b) \<Rightarrow> (if maxburst \<noteq> 0 \<and> npacket + 1 \<ge> maxburst then Some b else send_loop c force maxburst (npacket + 1) b)
      else Some a)"
  by pat_completeness auto
termination
proof (relation "measure (\<lambda>(c, force, maxburst, npacket, a). nat (max (window a) (next_pkts_in_flight a) - packets_in_flight a))", goal_cases)
  case (2 c force maxburst npacket a r b)
  then show ?case using send_round_in_flight [of c force a b] by auto
qed simp

declare send_loop.simps [simp del]

definition send_much :: "agent_conf \<Rightarrow> bool \<Rightarrow> int \<Rightarrow> 'ca agent \<Rightarrow> 'ca agent exec" where
  "send_much c force maxburst a =
     (if \<not> force \<and> delsnd_pending a then Some a
      else send_loop c force maxburst 0 (a\<lparr>next_pkts_in_flight := min (next_pkts_in_flight a) (packets_in_flight a + 1)\<rparr>))"

section \<open>The Linux side and the agent's own window\<close>

definition load_to_linux :: "agent_conf \<Rightarrow> 'ca agent \<Rightarrow> 'ca agent" where
  "load_to_linux c a =
     (let a = upd_sk (\<lambda>sk. sk\<lparr>snd_ssthresh := word_of_int (ns_ssthresh a)\<rparr>) a;
          a = (if next_pkts_in_flight a > window a \<and> ns_cwnd a \<ge> window a
               then a\<lparr>next_pkts_in_flight := ns_cwnd a\<rparr>
               else upd_sk (\<lambda>sk. sk\<lparr>snd_cwnd := word_of_int (ns_cwnd a)\<rparr>) a)
      in upd_sk (\<lambda>sk. sk\<lparr>snd_cwnd_clamp := word_of_int (c_wnd c)\<rparr>) a)"

definition save_from_linux :: "'ca agent \<Rightarrow> 'ca agent" where
  "save_from_linux a =
     a\<lparr>ns_cwnd := (if next_pkts_in_flight a > window a then next_pkts_in_flight a else uint (snd_cwnd (linux_sk a))),
       ns_ssthresh := sint (snd_ssthresh (linux_sk a)), last_ack := highest_ack a\<rparr>"

definition load_to_linux_once :: "agent_conf \<Rightarrow> 'ca agent \<Rightarrow> 'ca agent" where
  "load_to_linux_once c = upd_sk (\<lambda>sk. sk\<lparr>snd_cwnd_clamp := word_of_int (c_wnd c), snd_ssthresh := word_of_int (c_wnd c),
     mss_cache := word_of_int (c_size c)\<rparr>)"

section \<open>Reaction to loss\<close>

definition tcp_moderate_cwnd :: "agent_conf \<Rightarrow> kernel_env \<Rightarrow> 'ca agent \<Rightarrow> 'ca agent" where
  "tcp_moderate_cwnd c e a =
     upd_sk (\<lambda>sk. touch_cwnd e (sk\<lparr>snd_cwnd := word_of_int (min (window a) (packets_in_flight a + c_tcp_max_burst c))\<rparr>)) a"

text \<open>The exit from a state, when everything that was outstanding at its start is acknowledged.\<close>

definition raise_to_ssthresh :: "agent_conf \<Rightarrow> kernel_env \<Rightarrow> 'ca agent \<Rightarrow> 'ca agent" where
  "raise_to_ssthresh c e a =
     (if snd_cwnd (linux_sk a) < snd_ssthresh (linux_sk a)
      then tcp_moderate_cwnd c e (upd_sk (\<lambda>sk. sk\<lparr>snd_cwnd := snd_ssthresh sk\<rparr>) a) else a)"

definition exit_state :: "agent_conf \<Rightarrow> 'ca tcp_congestion_ops \<Rightarrow> kernel_env \<Rightarrow> 'ca agent \<Rightarrow> 'ca agent exec" where
  "exit_state c ops e a = do {
     let a = raise_to_ssthresh c e (a\<lparr>scb := ClearScoreBoard (scb a)\<rparr>);
     sk \<leftarrow> tcp_set_ca_state ops e TCP_CA_Open (linux_sk a);
     Some (a\<lparr>linux_sk := sk, next_pkts_in_flight := 0\<rparr>)
   }"

definition tcp_fastretrans_alert ::
  "agent_conf \<Rightarrow> 'ca tcp_congestion_ops \<Rightarrow> kernel_env \<Rightarrow> u8 \<Rightarrow> 'ca agent \<Rightarrow> 'ca agent exec" where
  "tcp_fastretrans_alert c ops e flag a =
     (if icsk_ca_state (linux_sk a) \<noteq> TCP_CA_Open \<and> highest_ack a \<ge> recover a then exit_state c ops e a
      else if icsk_ca_state (linux_sk a) \<noteq> TCP_CA_Recovery \<and> (has_flag flag FLAG_DATA_LOST \<or> has_flag flag FLAG_ECE) then do {
        sk \<leftarrow> enter_recovery ops e (linux_sk a);
        Some (a\<lparr>recover := maxseq a, next_pkts_in_flight := window a, linux_sk := sk\<rparr>)
      }
      else Some a)"

definition agent_enter_loss :: "'ca tcp_congestion_ops \<Rightarrow> kernel_env \<Rightarrow> 'ca agent \<Rightarrow> 'ca agent exec" where
  "agent_enter_loss ops e a = do {
     sk \<leftarrow> enter_loss ops e (linux_sk a);
     Some (a\<lparr>linux_sk := sk, recover := maxseq a, scb := MarkLoss (highest_ack a + 1) (t_seqno a) (scb a)\<rparr>)
   }"

section \<open>Reception of an acknowledgement\<close>

definition tcp_may_raise_cwnd :: "u8 \<Rightarrow> 'ca tcp_sock \<Rightarrow> bool" where
  "tcp_may_raise_cwnd flag sk \<longleftrightarrow>
     (\<not> has_flag flag FLAG_ECE \<or> snd_cwnd sk < snd_ssthresh sk) \<and> icsk_ca_state sk \<notin> {TCP_CA_Recovery, TCP_CA_CWR}"

definition first_init :: "'ca tcp_congestion_ops \<Rightarrow> kernel_env \<Rightarrow> 'ca agent \<Rightarrow> 'ca agent exec" where
  "first_init ops e a =
     (if initialized a then Some a
      else do {
        sk \<leftarrow> (case ca_init ops of None \<Rightarrow> Some (linux_sk a) | Some f \<Rightarrow> f e (linux_sk a));
        Some (a\<lparr>linux_sk := sk, initialized := True\<rparr>)
      })"

text \<open>The first half: the sequence numbers and the scoreboard.\<close>

definition recv_update :: "agent_conf \<Rightarrow> ack_info \<Rightarrow> 'ca agent \<Rightarrow> (u8 \<times> 'ca agent) exec" where
  "recv_update c p a = do {
     let prior_snd_una = highest_ack a + 1;
     let ack = ai_seqno p + 1;
     let flag = (if ai_ecnecho p \<and> c_ecn c \<and> ack > 1 then FLAG_ECE else 0);
     let (flag, a) = (if ack > prior_snd_una
                      then (flag OR FLAG_DATA_ACKED,
                            upd_sk (\<lambda>sk. sk\<lparr>bytes_acked := bytes_acked sk + word_of_int (ack - prior_snd_una) * mss_cache sk\<rparr>) a)
                      else (flag, a));
     let (f, a) = ack_processing p flag a;
     let flag = flag OR f;
     if ai_sacks p \<noteq> [] \<or> \<not> IsEmpty (scb a)
     then do { (f, sb) \<leftarrow> UpdateScoreBoard (highest_ack a) (ai_sacks p) 3 (scb a); Some (flag OR f, a\<lparr>scb := sb\<rparr>) }
     else Some (flag, a)
   }"

text \<open>The macro \<open>tcp_cong_avoid\<close> of \<open>recv\<close>, on the agent.\<close>

definition agent_cong_avoid ::
  "'ca tcp_congestion_ops \<Rightarrow> kernel_env \<Rightarrow> ack_info \<Rightarrow> int \<Rightarrow> c_int \<Rightarrow> 'ca agent \<Rightarrow> 'ca agent exec" where
  "agent_cong_avoid ops e p prior_in_flight good a = do {
     sk \<leftarrow> tcp_cong_avoid ops e (word_of_int (ai_seqno p + 1)) (ai_seq_rtt p) (word_of_int prior_in_flight) good (linux_sk a);
     Some (a\<lparr>linux_sk := sk\<rparr>)
   }"

text \<open>The second half: the window and the state, \<open>n\<close> segments being newly acknowledged.\<close>

definition recv_window ::
  "agent_conf \<Rightarrow> 'ca tcp_congestion_ops \<Rightarrow> kernel_env \<Rightarrow> ack_info \<Rightarrow> int \<Rightarrow> int \<Rightarrow> u8 \<Rightarrow> 'ca agent \<Rightarrow> 'ca agent exec" where
  "recv_window c ops e p n prior_in_flight flag a = do {
     let not_dup = has_flag flag FLAG_DATA_ACKED;
     let alert = has_flag flag FLAG_CA_ALERT;
     let last_ackt = (if has_flag flag FLAG_UNSURE_TSTAMP \<or> \<not> c_bugfix_ts c then 0 else ai_last_ackt p);
     sk \<leftarrow> ack_callbacks ops e not_dup (icsk_ca_state (linux_sk a) = TCP_CA_Open \<and> \<not> alert \<and> not_dup) (word_of_int n) last_ackt (linux_sk a);
     let a = a\<lparr>linux_sk := sk\<rparr>;
     if \<not> not_dup \<or> alert \<or> icsk_ca_state sk \<noteq> TCP_CA_Open then do {
       a \<leftarrow> (if not_dup \<and> tcp_may_raise_cwnd flag sk then agent_cong_avoid ops e p prior_in_flight 0 a else Some a);
       tcp_fastretrans_alert c ops e flag a
     }
     else agent_cong_avoid ops e p prior_in_flight 1 (a\<lparr>prev_highest_ack := highest_ack a\<rparr>)
   }"

definition recv :: "agent_conf \<Rightarrow> 'ca tcp_congestion_ops \<Rightarrow> kernel_env \<Rightarrow> ack_info \<Rightarrow> 'ca agent \<Rightarrow> 'ca agent exec" where
  "recv c ops e p a =
     (if ai_seqno p + 1 > t_seqno a then Some a
      else if ai_seqno p + 1 < highest_ack a + 1 then Some a
      else do {
        let prior_in_flight = packets_in_flight a;
        let n = ai_seqno p - highest_ack a;
        (flag, a) \<leftarrow> recv_update c p a;
        a \<leftarrow> time_processing c ops e p a;
        a \<leftarrow> first_init ops e a;
        a \<leftarrow> recv_window c ops e p n prior_in_flight flag a;
        send_much c False (c_maxburst c) (save_from_linux a)
      })"

section \<open>Timers\<close>

text \<open>
  \<open>t_backoff\<close> is an \<^verbatim>\<open>int\<close> that is shifted left by one; with \<^verbatim>\<open>rfc2988_\<close> nothing stops the doubling, and after 31 timeouts
  in a row the bit moves into the sign and then out. The shift is taken as the 32-bit machine does it.
\<close>

definition rtt_backoff :: "agent_conf \<Rightarrow> 'ca agent \<Rightarrow> 'ca agent" where
  "rtt_backoff c a =
     (let a = (if t_backoff a < 64 \<or> c_rfc2988 c then a\<lparr>t_backoff := signed_take_bit 31 (2 * t_backoff a)\<rparr> else a) in
      if t_backoff a > 8 then a\<lparr>t_rttvar := t_rttvar a + t_srtt a div 2 ^ c_srtt_bits c, t_srtt := 0\<rparr> else a)"

text \<open>\<^verbatim>\<open>slowdown(CLOSE_CWND_INIT)\<close>: of the floating-point computations of \<^verbatim>\<open>tcp.cc\<close>, none is used in this case.\<close>

definition slowdown_init :: "agent_conf \<Rightarrow> 'ca agent \<Rightarrow> 'ca agent" where
  "slowdown_init c a = a\<lparr>ns_cwnd := c_wnd_init c, ns_ssthresh := max 2 (ns_ssthresh a)\<rparr>"

definition timeout_rtx :: "agent_conf \<Rightarrow> 'ca tcp_congestion_ops \<Rightarrow> kernel_env \<Rightarrow> 'ca agent \<Rightarrow> 'ca agent exec" where
  "timeout_rtx c ops e a =
     (if highest_ack a = maxseq a \<and> \<not> c_slow_start_restart c then Some a
      else do {
        a \<leftarrow> (if highest_ack a = maxseq a \<and> c_restart_bugfix c then Some (load_to_linux c (slowdown_init c (save_from_linux a)))
              else agent_enter_loss ops e a);
        let a = (if highest_ack a = maxseq a then a else rtt_backoff c a)\<lparr>rtt_active := False, next_pkts_in_flight := 0\<rparr>;
        let a = upd_sk (\<lambda>sk. sk\<lparr>bytes_acked := 0\<rparr>) a;
        send_much c False 0 (save_from_linux a)
      })"

text \<open>The delayed-send timer, which is no longer pending when it expires.\<close>

definition timeout_delsnd :: "agent_conf \<Rightarrow> 'ca agent \<Rightarrow> 'ca agent exec" where
  "timeout_delsnd c a = do {
     a \<leftarrow> send_much c True (c_maxburst c) (save_from_linux (a\<lparr>delsnd_pending := False\<rparr>));
     Some (load_to_linux c a)
   }"

section \<open>Start and reset\<close>

text \<open>\<open>cwnd0\<close>, \<open>ssth0\<close>, \<open>srtt0\<close> and \<open>rttvar0\<close> are the values that \<open>TcpAgent::reset\<close> gives the window, the threshold and the round
  trip estimator from bound variables.\<close>

definition agent_reset :: "agent_conf \<Rightarrow> int \<Rightarrow> int \<Rightarrow> int \<Rightarrow> int \<Rightarrow> 'ca agent \<Rightarrow> 'ca agent" where
  "agent_reset c cwnd0 ssth0 srtt0 rttvar0 a =
     (let a = upd_sk (\<lambda>sk. sk\<lparr>icsk_ca_state := TCP_CA_Open, snd_cwnd_stamp := 0, snd_cwnd := 2, bytes_acked := 0\<rparr>)
                (a\<lparr>scb := ClearScoreBoard (scb a), initialized := False\<rparr>);
          a = a\<lparr>t_rtt := 0, t_srtt := srtt0, t_rttvar := rttvar0, t_backoff := 1, rtt_seq := - 1, curseq := 0, ns_cwnd := cwnd0,
                t_seqno := 0, maxseq := - 1, last_ack := - 1, highest_ack := - 1, ns_ssthresh := ssth0, recover := 0, closed := False,
                delsnd_pending := False\<rparr>
      in load_to_linux c (load_to_linux_once c a))"

section \<open>Installing a module\<close>

definition remove_congestion_control :: "'ca tcp_congestion_ops \<Rightarrow> kernel_env \<Rightarrow> 'ca agent \<Rightarrow> 'ca agent exec" where
  "remove_congestion_control ops e a = do {
     sk \<leftarrow> (case ca_release ops of None \<Rightarrow> Some (linux_sk a) | Some f \<Rightarrow> f e (linux_sk a));
     let a = save_from_linux (a\<lparr>linux_sk := sk\<rparr>);
     Some (upd_sk (\<lambda>sk. sk\<lparr>icsk_ca_ops := 0\<rparr>) a)
   }"

text \<open>
  \<open>install_congestion_control\<close> for an agent that has no module or this one; \<open>ptr\<close> is the address the manager found. Modules
  that measure round trip times turn the sender's time stamps on.
\<close>

definition install_congestion_control ::
  "ops_ptr \<Rightarrow> 'ca tcp_congestion_ops \<Rightarrow> kernel_env \<Rightarrow> agent_conf \<Rightarrow> 'ca agent \<Rightarrow> (agent_conf \<times> 'ca agent) exec" where
  "install_congestion_control ptr ops e c a =
     (if icsk_ca_ops (linux_sk a) = ptr then Some (c, a)
      else do {
        let a = load_to_linux c (load_to_linux_once c a);
        let a = upd_sk (\<lambda>sk. sk\<lparr>icsk_ca_ops := ptr\<rparr>) a;
        sk \<leftarrow> (case ca_init ops of Some f \<Rightarrow> (if initialized a then f e (linux_sk a) else Some (linux_sk a)) | None \<Rightarrow> Some (linux_sk a));
        let c = (if ca_flags ops AND TCP_CONG_RTT_STAMP \<noteq> 0 \<or> ca_rtt_sample ops \<noteq> None then c\<lparr>c_bugfix_ts := True\<rparr> else c);
        Some (c, save_from_linux (a\<lparr>linux_sk := sk\<rparr>))
      })"

section \<open>The scoreboard of the agent\<close>

text \<open>No segment of the scoreboard is beyond the last one sent.\<close>

definition sb_within :: "int \<Rightarrow> scoreboard \<Rightarrow> bool" where
  "sb_within n sb \<longleftrightarrow> (\<Union>f. segs f (sb_nodes sb)) \<subseteq> {..< n} \<and> sb_fack sb < max n 1"

lemma sb_within_mono: "sb_within n sb \<Longrightarrow> n \<le> m \<Longrightarrow> sb_within m sb"
  by (auto simp: sb_within_def)

lemma sb_within_clear [simp]: "sb_within n (ClearScoreBoard sb)"
  by (simp add: sb_within_def ClearScoreBoard_def)

lemma sb_within_update:
  assumes "update_post la sacks d sb sb'" "sb_within n sb" "\<And>x. x \<in> set sacks \<Longrightarrow> snd x \<le> n" "0 < n"
  shows "sb_within n sb'"
proof -
  have "sb_fack sb' \<in> {sb_fack sb, 0} \<union> (\<lambda>x. snd x - 1) ` set sacks" using assms(1) by (simp add: update_post_def)
  then consider "sb_fack sb' = sb_fack sb" | "sb_fack sb' = 0" | x where "x \<in> set sacks" "sb_fack sb' = snd x - 1" by blast
  then have fk: "sb_fack sb' < n"
  proof cases
    case 3
    then show ?thesis using assms(3) [of x] by simp
  qed (use assms(2,4) in \<open>auto simp: sb_within_def\<close>)
  have "(\<Union>f. segs f (sb_nodes sb')) \<subseteq> (\<Union>f. segs f (sb_nodes sb)) \<union> {la + 1 .. sb_fack sb'}"
    using assms(1) by (simp add: update_post_def)
  also have "\<dots> \<subseteq> {..< n}" using assms(2) fk by (auto simp: sb_within_def)
  finally show ?thesis using fk by (simp add: sb_within_def)
qed

lemma sb_within_MarkLoss:
  assumes "sb_ok s sb" "sb_within n sb"
  shows "sb_within n (MarkLoss s n sb)"
proof -
  have "sb_fack (MarkLoss s n sb) = sb_fack sb"
  proof -
    have "sb_fack (snd (snd (mark_step (pre, ll, b) now))) = sb_fack b" for pre ll b now
      by (simp add: mark_step_def set_nxt_def Let_def)
    then have step: "sb_fack (snd (snd (mark_step st now))) = sb_fack (snd (snd st))" for st now
      by (cases st) auto
    have fold: "sb_fack (snd (snd (foldl mark_step st ns))) = sb_fack (snd (snd st))" for st ns
      by (induction ns arbitrary: st) (simp_all add: step)
    obtain pre ll b where f: "foldl mark_step ([], False, sb\<lparr>nxt_to_retrx := None\<rparr>) (sb_nodes sb) = (pre, ll, b)" by (metis prod_cases3)
    obtain pre2 ll2 b2 where st: "mark_step (pre, ll, b) (new_node (GetEnd (last pre) + 1) (n - 1) SKB_FLAG_INFLIGHT) = (pre2, ll2, b2)"
      by (metis prod_cases3)
    have "sb_fack b = sb_fack sb" "sb_fack b2 = sb_fack sb"
      using fold [of "([], False, sb\<lparr>nxt_to_retrx := None\<rparr>)" "sb_nodes sb"] step [of "(pre, ll, b)"] f st by (auto, metis snd_conv)
    then show ?thesis by (simp add: MarkLoss_def f st Let_def)
  qed
  then show ?thesis using MarkLoss_ok [OF assms(1), of n] assms(2) by (auto simp: sb_within_def)
qed

lemma GetNextRetran_frame:
  assumes "GetNextRetran sb = (q, sb')"
  shows "sb_nodes sb' = sb_nodes sb" "sb_fack sb' = sb_fack sb" "fack_out sb' = fack_out sb" "sack_out sb' = sack_out sb"
  using assms by (auto simp: GetNextRetran_def Let_def)

lemma GetNextRetran_idem: "GetNextRetran sb = (q, sb') \<Longrightarrow> GetNextRetran sb' = (q, sb')"
proof -
  assume g: "GetNextRetran sb = (q, sb')"
  show ?thesis
  proof (cases "nxt_to_retrx sb'")
    case None
    then show ?thesis using g by (auto simp: GetNextRetran_def Let_def)
  next
    case (Some i)
    with g obtain j where j: "next_lost j (drop j (sb_nodes sb)) = Some i" "sb' = sb\<lparr>nxt_to_retrx := Some i\<rparr>" "q = sb_seq (sb_nodes sb ! i)"
      by (auto simp: GetNextRetran_def Let_def split: option.splits)
    from next_lost_Some [OF j(1)] have i: "i < length (sb_nodes sb)" "sb_flag (sb_nodes sb ! i) = SKB_FLAG_LOST" by auto
    then have "drop i (sb_nodes sb) = sb_nodes sb ! i # drop (Suc i) (sb_nodes sb)" by (simp add: Cons_nth_drop_Suc)
    then show ?thesis using i j by (simp add: GetNextRetran_def)
  qed
qed

section \<open>The round trip estimator\<close>

lemma to_short_id: "- 32768 \<le> i \<Longrightarrow> i < 32768 \<Longrightarrow> to_short i = i"
  by (simp add: to_short_def signed_take_bit_int_eq_self)

definition srtt_ok :: "int \<Rightarrow> bool" where
  "srtt_ok s \<longleftrightarrow> s = 0 \<or> 8 \<le> s \<and> s \<le> 262136"

text \<open>With the default gains a smoothed round trip time of at least one tick stays so, for measurements of less than 32768 ticks.\<close>

lemma rtt_smooth_ok:
  assumes "c_srtt_bits c = 3" "srtt_ok s" "1 \<le> m" "m \<le> 32767"
  shows "8 \<le> fst (rtt_smooth c m s v) \<and> fst (rtt_smooth c m s v) \<le> 262136"
proof (cases "s = 0")
  case True
  then show ?thesis using assms by (simp add: rtt_smooth_def)
next
  case False
  with assms(2) have s: "8 \<le> s" "s \<le> 262136" by (auto simp: srtt_ok_def)
  then have "0 \<le> s div 8" "s div 8 \<le> 32767" "8 * (s div 8) \<le> s" "s < 8 * (s div 8) + 8" by auto
  moreover have "to_short (m - s div 8) = m - s div 8" using assms(3,4) calculation by (intro to_short_id) auto
  ultimately show ?thesis using False assms(1,3,4) s by (simp add: rtt_smooth_def Let_def)
qed

section \<open>The invariant\<close>

text \<open>
  The sequence numbers, the scoreboard and the socket agree: what is outstanding starts at \<open>highest_ack + 1\<close>, ends before
  \<open>t_seqno\<close>, and the two byte counters of the socket are these numbers times the segment size.
\<close>

definition seq_inv :: "'ca agent \<Rightarrow> bool" where
  "seq_inv a \<longleftrightarrow> - 1 \<le> highest_ack a \<and> highest_ack a < t_seqno a \<and> maxseq a = t_seqno a - 1 \<and>
     sb_ok (highest_ack a + 1) (scb a) \<and> sb_within (t_seqno a) (scb a) \<and>
     snd_una (linux_sk a) = word_of_int (highest_ack a + 1) * mss_cache (linux_sk a) \<and>
     snd_nxt (linux_sk a) = word_of_int (t_seqno a) * mss_cache (linux_sk a)"

definition conf_ok :: "agent_conf \<Rightarrow> bool" where
  "conf_ok c \<longleftrightarrow> c_srtt_bits c = 3 \<and> 1 \<le> c_tcp_max_burst c \<and> c_max_connects c \<le> 0 \<and>
     0 < c_wnd_init c \<and> c_wnd_init c < 2147483648 \<and> 1 < c_wnd c \<and> c_wnd c < 2147483648"

text \<open>The socket apart from the private area, without and with a round trip time.\<close>

definition sock_ok :: "'ca tcp_sock \<Rightarrow> bool" where
  "sock_ok s \<longleftrightarrow> 0 < snd_cwnd s \<and> 1 < snd_cwnd_clamp s \<and> 0 < mss_cache s \<and> 2 \<le> snd_ssthresh s"

definition sock_inv :: "('ca \<Rightarrow> bool) \<Rightarrow> 'ca agent \<Rightarrow> bool" where
  "sock_inv priv_ok a \<longleftrightarrow> sock_ok (linux_sk a) \<and> srtt_ok (t_srtt a) \<and>
     (initialized a \<longrightarrow> priv_ok (icsk_ca_priv (linux_sk a)) \<and> 8 \<le> srtt (linux_sk a))"

definition agent_inv :: "('ca \<Rightarrow> bool) \<Rightarrow> 'ca agent \<Rightarrow> bool" where
  "agent_inv priv_ok a \<longleftrightarrow> seq_inv a \<and> sock_inv priv_ok a"

lemma cc_safe_sock: "cc_safe 4294967296 priv_ok s \<longleftrightarrow> sock_ok s \<and> priv_ok (icsk_ca_priv s) \<and> 8 \<le> srtt s"
  using unsigned_less [of "snd_cwnd s", where 'a = nat] unsigned_less [of "snd_cwnd_clamp s", where 'a = nat] by (auto simp: cc_safe_def wf_sock_def sock_ok_def)

text \<open>Sending changes only the scoreboard, the next sequence number and what depends on it.\<close>

definition send_frame :: "'ca agent \<Rightarrow> 'ca agent \<Rightarrow> bool" where
  "send_frame a b \<longleftrightarrow> highest_ack b = highest_ack a \<and> initialized b = initialized a \<and> t_srtt b = t_srtt a \<and>
     recover b = recover a \<and> ns_ssthresh b = ns_ssthresh a \<and> next_pkts_in_flight b \<le> next_pkts_in_flight a \<and>
     (linux_sk b)\<lparr>snd_nxt := 0\<rparr> = (linux_sk a)\<lparr>snd_nxt := 0\<rparr>"

lemma send_frame_trans: "send_frame a b \<Longrightarrow> send_frame b d \<Longrightarrow> send_frame a d"
  by (auto simp: send_frame_def)

lemma send_frame_sk:
  assumes "send_frame a b"
  shows "snd_una (linux_sk b) = snd_una (linux_sk a)" "mss_cache (linux_sk b) = mss_cache (linux_sk a)" "srtt (linux_sk b) = srtt (linux_sk a)"
    "snd_ssthresh (linux_sk b) = snd_ssthresh (linux_sk a)" "snd_cwnd (linux_sk b) = snd_cwnd (linux_sk a)"
    "snd_cwnd_clamp (linux_sk b) = snd_cwnd_clamp (linux_sk a)" "icsk_ca_state (linux_sk b) = icsk_ca_state (linux_sk a)"
    "icsk_ca_priv (linux_sk b) = icsk_ca_priv (linux_sk a)"
proof -
  have eq: "(linux_sk b)\<lparr>snd_nxt := 0\<rparr> = (linux_sk a)\<lparr>snd_nxt := 0\<rparr>" using assms by (simp add: send_frame_def)
  show "snd_una (linux_sk b) = snd_una (linux_sk a)" using arg_cong [OF eq, of snd_una] by simp
  show "mss_cache (linux_sk b) = mss_cache (linux_sk a)" using arg_cong [OF eq, of mss_cache] by simp
  show "srtt (linux_sk b) = srtt (linux_sk a)" using arg_cong [OF eq, of srtt] by simp
  show "snd_ssthresh (linux_sk b) = snd_ssthresh (linux_sk a)" using arg_cong [OF eq, of snd_ssthresh] by simp
  show "snd_cwnd (linux_sk b) = snd_cwnd (linux_sk a)" using arg_cong [OF eq, of snd_cwnd] by simp
  show "snd_cwnd_clamp (linux_sk b) = snd_cwnd_clamp (linux_sk a)" using arg_cong [OF eq, of snd_cwnd_clamp] by simp
  show "icsk_ca_state (linux_sk b) = icsk_ca_state (linux_sk a)" using arg_cong [OF eq, of icsk_ca_state] by simp
  show "icsk_ca_priv (linux_sk b) = icsk_ca_priv (linux_sk a)" using arg_cong [OF eq, of icsk_ca_priv] by simp
qed

lemma tcp_output_maxseq: "c_max_connects c \<le> 0 \<Longrightarrow> maxseq (tcp_output c q a) = max (maxseq a) q"
  by (simp add: tcp_output_def Let_def)

lemma tcp_output_sent: "c_max_connects c \<le> 0 \<Longrightarrow> sent (tcp_output c q a) = q # sent a"
  by (simp add: tcp_output_def Let_def)

lemma send_segment_maxseq: "c_max_connects c \<le> 0 \<Longrightarrow> maxseq (send_segment c q a) = max (maxseq a) q"
  by (simp add: send_segment_def Let_def tcp_output_maxseq)

lemma send_segment_sent: "c_max_connects c \<le> 0 \<Longrightarrow> sent (send_segment c q a) = q # sent a"
  by (simp add: send_segment_def Let_def tcp_output_sent)

lemma send_round_ok:
  assumes inv: "seq_inv a" and conf: "c_max_connects c \<le> 0" and pend: "c_overhead c \<and> \<not> force \<longrightarrow> \<not> delsnd_pending a"
  obtains b where "send_round c force a = Some (Inl b)" "seq_inv b" "send_frame a b" "t_seqno b = t_seqno a" "sent b = sent a"
    "packets_in_flight b = packets_in_flight a"
    "\<not> c_overhead c \<or> force \<longrightarrow> fst (GetNextRetran (scb b)) = - 1 \<and> curseq b \<le> t_seqno b"
    "\<not> (\<not> c_overhead c \<or> force) \<longrightarrow> delsnd_pending b"
  | b where "send_round c force a = Some (Inr b)" "seq_inv b" "send_frame a b" "delsnd_pending b = delsnd_pending a"
    "packets_in_flight b = packets_in_flight a + 1"
    "sent b = (if fst (GetNextRetran (scb a)) = - 1 then t_seqno a else fst (GetNextRetran (scb a))) # sent a"
proof (cases "\<not> c_overhead c \<or> force")
  case True
  obtain q sb where g: "GetNextRetran (scb a) = (q, sb)" by fastforce
  have ok: "sb_ok (highest_ack a + 1) (scb a)" "sb_within (t_seqno a) (scb a)" using inv by (auto simp: seq_inv_def)
  have sb: "sb_ok (highest_ack a + 1) sb" "sb_within (t_seqno a) sb" "fack_out sb = fack_out (scb a)" "sack_out sb = sack_out (scb a)"
    using sb_ok_GetNextRetran [OF ok(1)] GetNextRetran_frame [OF g] ok(2) g by (auto simp: sb_within_def)
  show thesis
  proof (cases "q = - 1")
    case none: True
    show thesis
    proof (cases "t_seqno a \<ge> curseq a")
      case True
      let ?b = "a\<lparr>scb := sb\<rparr>"
      have "send_round c force a = Some (Inl ?b)" using \<open>\<not> c_overhead c \<or> force\<close> g none True by (simp add: send_round_def)
      moreover have "seq_inv ?b" "send_frame a ?b" using inv sb by (auto simp: seq_inv_def send_frame_def)
      moreover have "packets_in_flight ?b = packets_in_flight a" using sb by (simp add: packets_in_flight_def sb_packets_in_flight_def)
      ultimately show thesis using that(1) [of ?b] GetNextRetran_idem [OF g] none True \<open>\<not> c_overhead c \<or> force\<close> by auto
    next
      case False
      let ?b = "send_segment c (t_seqno a) (a\<lparr>scb := sb, t_seqno := t_seqno a + 1\<rparr>)"
      have "send_round c force a = Some (Inr ?b)" using \<open>\<not> c_overhead c \<or> force\<close> g none False by (simp add: send_round_def)
      moreover have "seq_inv ?b" using inv sb sb_within_mono [OF sb(2)] by (simp add: seq_inv_def send_segment_maxseq [OF conf])
      moreover have "send_frame a ?b" "delsnd_pending ?b = delsnd_pending a" by (simp_all add: send_frame_def)
      moreover have "packets_in_flight ?b = packets_in_flight a + 1" using sb by (simp add: packets_in_flight_def sb_packets_in_flight_def)
      ultimately show thesis using that(2) [of ?b] g none by (simp add: send_segment_sent [OF conf])
    qed
  next
    case some: False
    from retransmit_ok [OF ok(1) g some, of "t_seqno a"] obtain sb' where
      m: "MarkRetran q (t_seqno a) sb = Some sb'" "sb_ok (highest_ack a + 1) sb'" "(\<Union>f. segs f (sb_nodes sb')) = (\<Union>f. segs f (sb_nodes (scb a)))"
        "sb_fack sb' = sb_fack (scb a)" "fack_out sb' = fack_out (scb a) - 1" "sack_out sb' = sack_out (scb a)" by blast
    have "q \<in> segs SKB_FLAG_LOST (sb_nodes (scb a))" using GetNextRetran_least(1) [OF ok(1)] g some by simp
    then have q: "q < t_seqno a" using ok(2) by (auto simp: sb_within_def)
    have w: "sb_within (t_seqno a) sb'" using m ok(2) by (simp add: sb_within_def)
    let ?b = "send_segment c q (a\<lparr>scb := sb'\<rparr>)"
    have "send_round c force a = Some (Inr ?b)" using True g some m(1) by (simp add: send_round_def)
    moreover have "seq_inv ?b" using inv m(2) w q by (simp add: seq_inv_def send_segment_maxseq [OF conf])
    moreover have "send_frame a ?b" "delsnd_pending ?b = delsnd_pending a" by (simp_all add: send_frame_def)
    moreover have "packets_in_flight ?b = packets_in_flight a + 1" using m q by (simp add: packets_in_flight_def sb_packets_in_flight_def)
    ultimately show thesis using that(2) [of ?b] g some by (simp add: send_segment_sent [OF conf])
  qed
next
  case False
  let ?b = "a\<lparr>delsnd_pending := True\<rparr>"
  have "send_round c force a = Some (Inl ?b)" "seq_inv ?b" "send_frame a ?b"
    using False pend inv by (auto simp: send_round_def seq_inv_def send_frame_def)
  then show thesis using that(1) [of ?b] False by (simp add: packets_in_flight_def)
qed

text \<open>
  The loop ends with the window full, with nothing left to send, after a full burst (of at least one segment, when there is
  a limit) or with a delayed send; what it sends is what is added in flight.
\<close>

definition send_done :: "agent_conf \<Rightarrow> bool \<Rightarrow> int \<Rightarrow> int \<Rightarrow> 'ca agent \<Rightarrow> bool" where
  "send_done c force maxburst k b \<longleftrightarrow> max (window b) (next_pkts_in_flight b) \<le> packets_in_flight b \<or>
     (\<not> c_overhead c \<or> force) \<and> fst (GetNextRetran (scb b)) = - 1 \<and> curseq b \<le> t_seqno b \<or>
     maxburst \<noteq> 0 \<and> k = max 1 maxburst \<or> c_overhead c \<and> \<not> force \<and> delsnd_pending b"

lemma send_loop_ok:
  assumes "seq_inv a" "c_max_connects c \<le> 0" "c_overhead c \<and> \<not> force \<longrightarrow> \<not> delsnd_pending a" "maxburst \<noteq> 0 \<longrightarrow> n < max 1 maxburst"
    "0 \<le> n"
  shows "\<exists>b k. send_loop c force maxburst n a = Some b \<and> seq_inv b \<and> send_frame a b \<and> send_done c force maxburst (n + int k) b \<and>
    length (sent b) = length (sent a) + k \<and> packets_in_flight b = packets_in_flight a + int k \<and> (maxburst \<noteq> 0 \<longrightarrow> n + int k \<le> max 1 maxburst) \<and>
    (c_overhead c \<and> \<not> force \<longrightarrow> k = 0) \<and>
    packets_in_flight b \<le> max (packets_in_flight a) (max (window a) (next_pkts_in_flight a))"
  using assms
proof (induction c force maxburst n a rule: send_loop.induct)
  case (1 c force maxburst n a)
  show ?case
  proof (cases "packets_in_flight a < max (window a) (next_pkts_in_flight a)")
    case False
    then show ?thesis using "1.prems" by (subst send_loop.simps) (auto simp: send_done_def send_frame_def intro!: exI [of _ "0 :: nat"])
  next
    case True
    from "1.prems"(1-3) show ?thesis
    proof (cases rule: send_round_ok)
      case (1 b)
      have "send_loop c force maxburst n a = Some b" using True 1(1) by (subst send_loop.simps) auto
      moreover have "send_done c force maxburst (n + int 0) b" using 1(7,8) by (auto simp: send_done_def)
      ultimately show ?thesis using "1.prems"(4) 1(2-6) by (intro exI [of _ b] exI [of _ "0 :: nat"]) auto
    next
      case (2 b)
      note win = send_round_in_flight [OF 2(1)]
      have ov: "\<not> c_overhead c \<or> force" using 2(1) by (auto simp: send_round_def split: if_splits)
      show ?thesis
      proof (cases "maxburst \<noteq> 0 \<and> n + 1 \<ge> maxburst")
        case burst: True
        have "send_loop c force maxburst n a = Some b" using True 2(1) burst by (subst send_loop.simps) auto
        moreover have "send_done c force maxburst (n + int 1) b" using burst "1.prems"(4,5) by (auto simp: send_done_def)
        ultimately show ?thesis using burst "1.prems"(4,5) True ov 2(2-6) by (intro exI [of _ b] exI [of _ "1 :: nat"]) auto
      next
        case more: False
        have "c_overhead c \<and> \<not> force \<longrightarrow> \<not> delsnd_pending b" using "1.prems"(3) 2(4) by simp
        from "1.IH" [OF True 2(1) refl more 2(2) "1.prems"(2) this] more "1.prems"(5) obtain d k where
          d: "send_loop c force maxburst (n + 1) b = Some d" "seq_inv d" "send_frame b d" "send_done c force maxburst (n + 1 + int k) d"
            "length (sent d) = length (sent b) + k" "packets_in_flight d = packets_in_flight b + int k"
            "maxburst \<noteq> 0 \<longrightarrow> n + 1 + int k \<le> max 1 maxburst"
            "packets_in_flight d \<le> max (packets_in_flight b) (max (window b) (next_pkts_in_flight b))" by force
        have "send_loop c force maxburst n a = Some d" using True 2(1) more d(1) by (subst send_loop.simps) auto
        moreover have "send_done c force maxburst (n + int (Suc k)) d" using d(4) by (simp add: algebra_simps)
        ultimately show ?thesis using d send_frame_trans [OF 2(3) d(3)] True win ov 2(5,6)
          by (intro exI [of _ d] exI [of _ "Suc k"]) auto
      qed
    qed
  qed
qed

lemma send_much_ok:
  assumes "seq_inv a" "c_max_connects c \<le> 0"
  shows "\<exists>b. send_much c force maxburst a = Some b \<and> seq_inv b \<and> send_frame a b"
proof (cases "\<not> force \<and> delsnd_pending a")
  case True
  then show ?thesis using assms by (simp add: send_much_def send_frame_def)
next
  case False
  let ?a = "a\<lparr>next_pkts_in_flight := min (next_pkts_in_flight a) (packets_in_flight a + 1)\<rparr>"
  have a: "seq_inv ?a" "send_frame a ?a" "c_overhead c \<and> \<not> force \<longrightarrow> \<not> delsnd_pending ?a"
    using assms False by (auto simp: seq_inv_def send_frame_def)
  have "maxburst \<noteq> 0 \<longrightarrow> 0 < max 1 maxburst" by (simp add: max_def)
  from send_loop_ok [OF a(1) assms(2) a(3) this order_refl] obtain b where
    b: "send_loop c force maxburst 0 ?a = Some b" "seq_inv b" "send_frame ?a b" by blast
  show ?thesis using b(1,2) send_frame_trans [OF a(2) b(3)] False by (auto simp: send_much_def)
qed

section \<open>Acknowledgements\<close>

definition seq_frame :: "'ca agent \<Rightarrow> 'ca agent \<Rightarrow> bool" where
  "seq_frame a b \<longleftrightarrow> highest_ack b = highest_ack a \<and> t_seqno b = t_seqno a \<and> maxseq b = maxseq a \<and>
     snd_una (linux_sk b) = snd_una (linux_sk a) \<and> snd_nxt (linux_sk b) = snd_nxt (linux_sk a) \<and>
     mss_cache (linux_sk b) = mss_cache (linux_sk a)"

lemma seq_inv_frame:
  assumes "seq_inv a" "seq_frame a b" "scb b = scb a \<or> scb b = ClearScoreBoard (scb a)"
  shows "seq_inv b"
  using assms sb_ok_clear by (auto simp: seq_inv_def seq_frame_def)

text \<open>
  An acknowledgement as a receiver sends it for the segments that were sent: its SACK blocks are in order and end at what
  was sent, and the measured times are below 32768 ticks; the one that initialises the module carries a time stamp.
\<close>

definition ack_ok_for :: "agent_conf \<Rightarrow> kernel_env \<Rightarrow> ack_info \<Rightarrow> 'ca agent \<Rightarrow> bool" where
  "ack_ok_for c e p a \<longleftrightarrow> 0 < t_seqno a \<and> sacks_sane (ai_seqno p) (ai_sacks p) \<and> (\<forall>x \<in> set (ai_sacks p). snd x \<le> t_seqno a) \<and>
     ai_rtt_tick p \<le> 32767 \<and> ai_timed_tick p \<le> 32767 \<and> ackt_ok e (ai_last_ackt p) \<and>
     (initialized a \<or> uses_ts c p)"

lemma has_flag_or [simp]: "has_flag (f OR g) m \<longleftrightarrow> has_flag f m \<or> has_flag g m"
  by (auto simp: has_flag_def bit_eq_iff bit_simps)

lemma recv_update_ok:
  assumes inv: "seq_inv a" and acc: "highest_ack a \<le> ai_seqno p" "ai_seqno p < t_seqno a"
    and p: "sacks_sane (ai_seqno p) (ai_sacks p)" "\<forall>x \<in> set (ai_sacks p). snd x \<le> t_seqno a" and n: "0 < t_seqno a"
  shows "\<exists>flag b. recv_update c p a = Some (flag, b) \<and> seq_inv b \<and> highest_ack b = ai_seqno p \<and> t_seqno b = t_seqno a \<and>
    initialized b = initialized a \<and> t_srtt b = t_srtt a \<and> recover b = recover a \<and> next_pkts_in_flight b = next_pkts_in_flight a \<and>
    (linux_sk b)\<lparr>snd_una := 0, bytes_acked := 0\<rparr> = (linux_sk a)\<lparr>snd_una := 0, bytes_acked := 0\<rparr> \<and>
    (highest_ack a < ai_seqno p \<longrightarrow> has_flag flag FLAG_DATA_ACKED)"
proof -
  define flag1 :: u8 where "flag1 = (if ai_ecnecho p \<and> c_ecn c \<and> ai_seqno p + 1 > 1 then FLAG_ECE else 0)"
  have f1: "\<not> has_flag flag1 FLAG_DATA_ACKED" by (simp add: flag1_def has_flag_def)
  define a1 where "a1 = (if highest_ack a < ai_seqno p then
      (upd_sk (\<lambda>sk. sk\<lparr>bytes_acked := bytes_acked sk + word_of_int (ai_seqno p - highest_ack a) * mss_cache sk,
        snd_una := word_of_int (ai_seqno p + 1) * mss_cache sk\<rparr>) (a\<lparr>highest_ack := ai_seqno p\<rparr>))\<lparr>maxseq := max (maxseq a) (ai_seqno p)\<rparr>
      else a)"
  have mx: "max (maxseq a) (ai_seqno p) = maxseq a" using inv acc by (simp add: seq_inv_def)
  define flag2 where "flag2 = (if highest_ack a < ai_seqno p then flag1 OR FLAG_DATA_ACKED else flag1 OR (flag1 OR FLAG_UNSURE_TSTAMP))"
  have f2: "highest_ack a < ai_seqno p \<longrightarrow> has_flag flag2 FLAG_DATA_ACKED" by (simp add: flag2_def has_flag_def bit.conj_disj_distrib2)
  have eq: "recv_update c p a = (if ai_sacks p \<noteq> [] \<or> \<not> IsEmpty (scb a1)
     then do { (f, sb) \<leftarrow> UpdateScoreBoard (highest_ack a1) (ai_sacks p) 3 (scb a1); Some (flag2 OR f, a1\<lparr>scb := sb\<rparr>) }
     else Some (flag2, a1))"
    using acc f1 by (simp add: recv_update_def ack_processing_def Let_def has_flag_def a1_def flag2_def flag1_def bit.conj_disj_distrib2)
  have a1: "highest_ack a1 = ai_seqno p" "t_seqno a1 = t_seqno a" "scb a1 = scb a" "maxseq a1 = t_seqno a - 1"
    "initialized a1 = initialized a" "t_srtt a1 = t_srtt a" "recover a1 = recover a" "next_pkts_in_flight a1 = next_pkts_in_flight a"
    "(linux_sk a1)\<lparr>snd_una := 0, bytes_acked := 0\<rparr> = (linux_sk a)\<lparr>snd_una := 0, bytes_acked := 0\<rparr>"
    "snd_una (linux_sk a1) = word_of_int (ai_seqno p + 1) * mss_cache (linux_sk a1)"
    "snd_nxt (linux_sk a1) = word_of_int (t_seqno a) * mss_cache (linux_sk a1)"
    using inv acc mx by (auto simp: a1_def seq_inv_def)
  have sb: "sb_ok (highest_ack a + 1) (scb a)" "sb_within (t_seqno a) (scb a)" using inv by (auto simp: seq_inv_def)
  show ?thesis
  proof (cases "ai_sacks p \<noteq> [] \<or> \<not> IsEmpty (scb a1)")
    case True
    from UpdateScoreBoard_ok [OF sb(1), of "ai_seqno p" "ai_sacks p" 3] acc(1) p(1) obtain f sb' where
      u: "UpdateScoreBoard (ai_seqno p) (ai_sacks p) 3 (scb a) = Some (f, sb')" "update_post (ai_seqno p) (ai_sacks p) 3 (scb a) sb'" by auto
    then have "sb_within (t_seqno a) sb'" "sb_ok (ai_seqno p + 1) sb'"
      using sb_within_update [OF u(2) sb(2)] p(2) n by (auto simp: update_post_def)
    then have "seq_inv (a1\<lparr>scb := sb'\<rparr>)" using inv acc a1 by (simp add: seq_inv_def)
    then show ?thesis using True u(1) a1 f2 by (auto simp: eq)
  next
    case False
    then have "sb_nodes (scb a) = []" using a1(3) by (simp add: IsEmpty_def)
    then have "sb_ok (ai_seqno p + 1) (scb a)" using sb(1) by (simp add: sb_ok_def)
    then have "seq_inv a1" using inv acc a1 sb(2) by (simp add: seq_inv_def)
    then show ?thesis using False a1 f2 by (simp add: eq)
  qed
qed

text \<open>The processing of the times leaves the sequence numbers, the scoreboard and the state alone.\<close>

definition time_frame :: "'ca agent \<Rightarrow> 'ca agent \<Rightarrow> bool" where
  "time_frame a b \<longleftrightarrow> seq_frame a b \<and> scb b = scb a \<and> initialized b = initialized a \<and> recover b = recover a \<and>
     next_pkts_in_flight b = next_pkts_in_flight a \<and> icsk_ca_state (linux_sk b) = icsk_ca_state (linux_sk a)"

lemma time_frame_trans: "time_frame a b \<Longrightarrow> time_frame b d \<Longrightarrow> time_frame a d"
  by (simp add: time_frame_def seq_frame_def)

section \<open>Runs of the agent\<close>

text \<open>A new agent, and the runs of an agent: new data of the application, acknowledgements, retransmission timeouts.\<close>

definition agent_start :: "'ca agent \<Rightarrow> bool" where
  "agent_start a \<longleftrightarrow> t_seqno a = 0 \<and> highest_ack a = - 1 \<and> maxseq a = - 1 \<and> scb a = new_scoreboard \<and> \<not> initialized a \<and>
     sock_ok (linux_sk a) \<and> srtt_ok (t_srtt a) \<and> snd_una (linux_sk a) = 0 \<and> snd_nxt (linux_sk a) = 0"

inductive agent_reach :: "agent_conf \<Rightarrow> 'ca tcp_congestion_ops \<Rightarrow> 'ca agent \<Rightarrow> bool" for c ops where
  start: "agent_start a \<Longrightarrow> agent_reach c ops a"
| data: "agent_reach c ops a \<Longrightarrow> send_much c False (c_maxburst c) (a\<lparr>curseq := n\<rparr>) = Some b \<Longrightarrow> agent_reach c ops b"
| ack: "agent_reach c ops a \<Longrightarrow> ack_ok_for c e p a \<Longrightarrow> recv c ops e p a = Some b \<Longrightarrow> agent_reach c ops b"
| rtx: "agent_reach c ops a \<Longrightarrow> timeout_rtx c ops e a = Some b \<Longrightarrow> agent_reach c ops b"

text \<open>Every event that can come next is processed to the end, and leaves the invariant.\<close>

definition agent_safe :: "agent_conf \<Rightarrow> 'ca tcp_congestion_ops \<Rightarrow> ('ca \<Rightarrow> bool) \<Rightarrow> 'ca agent \<Rightarrow> bool" where
  "agent_safe c ops priv_ok a \<longleftrightarrow> agent_inv priv_ok a \<and>
     (\<forall>n. \<exists>b. send_much c False (c_maxburst c) (a\<lparr>curseq := n\<rparr>) = Some b \<and> agent_inv priv_ok b) \<and>
     (\<forall>e p. ack_ok_for c e p a \<longrightarrow> (\<exists>b. recv c ops e p a = Some b \<and> agent_inv priv_ok b)) \<and>
     (\<forall>e. \<exists>b. timeout_rtx c ops e a = Some b \<and> agent_inv priv_ok b)"

text \<open>
  What the agent needs of a module beside the contract: it works for any window and clock, its initialisation leaves the
  socket usable and the state alone, and a timeout is survived before the module is initialised too, as it is when the
  timer expires before the first acknowledgement.
\<close>

lemma moderate_pos:
  fixes w :: u32
  assumes "0 < w" "0 \<le> n" "1 \<le> k"
  shows "0 < (word_of_int (min (sint w) (n + k)) :: u32)"
proof (cases "sint w \<le> n + k")
  case True
  then show ?thesis using assms(1) by (simp add: min_def)
next
  case False
  have "sint w < 2 ^ 31" using sint_lt [of w] by simp
  define z where "z = n + k"
  have z: "0 < z" "z < 2 ^ 31" using False \<open>sint w < 2 ^ 31\<close> assms(2,3) by (auto simp: z_def)
  then have "uint (word_of_int z :: u32) = z" by (simp add: uint_word_of_int take_bit_int_eq_self)
  then have "0 < (word_of_int z :: u32)" using z by (simp add: word_less_def)
  then show ?thesis using False by (simp add: min_def z_def)
qed

locale agent_module = cong_control ops priv_ok env_ok 4294967296 ack_ok
  for ops :: "'ca tcp_congestion_ops" and priv_ok :: "'ca \<Rightarrow> bool" and env_ok :: "kernel_env \<Rightarrow> 'ca tcp_sock \<Rightarrow> bool"
    and ack_ok :: "'ca \<Rightarrow> u32 \<Rightarrow> bool" +
  assumes env_any: "env_ok e s" and ack_any: "ack_ok q n"
    and rtt_sample_any: "ca_rtt_sample ops = Some rs \<Longrightarrow>
      \<exists>q. rs e s us = Some (s\<lparr>icsk_ca_priv := q\<rparr>) \<and> (priv_ok (icsk_ca_priv s) \<longrightarrow> priv_ok q)"
    and init_frame: "ca_init ops = Some ini \<Longrightarrow> sock_ok s \<Longrightarrow> ini e s = Some t \<Longrightarrow>
      sock_ok t \<and> same_seq s t \<and> icsk_ca_state t = icsk_ca_state s"
    and loss_any: "sock_ok s \<Longrightarrow> \<exists>t. enter_loss ops e s = Some t \<and> sock_ok t \<and> snd_cwnd t = 1 \<and>
      icsk_ca_state t = TCP_CA_Loss \<and> same_seq s t"
begin

lemma rtt_update_inv:
  assumes "sock_inv priv_ok a" "c_srtt_bits c = 3" "tick \<le> 32767"
  shows "\<exists>b. rtt_update c ops e tick us a = Some b \<and> sock_inv priv_ok b \<and> 8 \<le> srtt (linux_sk b) \<and> time_frame a b"
proof -
  obtain q where q: "rtt_sample_call ops e us (linux_sk a) = Some ((linux_sk a)\<lparr>icsk_ca_priv := q\<rparr>)"
    "priv_ok (icsk_ca_priv (linux_sk a)) \<longrightarrow> priv_ok q"
  proof (cases "ca_rtt_sample ops")
    case None
    then show thesis using that [of "icsk_ca_priv (linux_sk a)"] by (simp add: rtt_sample_call_def)
  next
    case (Some rs)
    from rtt_sample_any [OF this, of e "linux_sk a" us] Some that show thesis by (auto simp: rtt_sample_call_def)
  qed
  obtain s v where s: "rtt_smooth c (max 1 tick) (t_srtt a) (t_rttvar a) = (s, v)" by fastforce
  with rtt_smooth_ok [OF assms(2), of "t_srtt a" "max 1 tick" "t_rttvar a"] assms
  have b: "8 \<le> s" "s \<le> 262136" by (auto simp: sock_inv_def)
  then have w: "8 \<le> (word_of_int s :: u32)" by (simp add: word_le_def take_bit_int_eq_self uint_word_of_int)
  let ?b = "a\<lparr>t_rtt := max 1 tick, t_srtt := s, t_rttvar := v, linux_sk := (linux_sk a)\<lparr>icsk_ca_priv := q, srtt := word_of_int s\<rparr>\<rparr>"
  have "rtt_update c ops e tick us a = Some ?b" using q(1) s by (simp add: rtt_update_def)
  moreover have "sock_inv priv_ok ?b" using assms(1) q(2) b w by (auto simp: sock_inv_def sock_ok_def srtt_ok_def)
  ultimately show ?thesis using w by (simp add: seq_frame_def time_frame_def)
qed

lemma ts_processing_inv:
  assumes "sock_inv priv_ok a" "c_srtt_bits c = 3" "ai_rtt_tick p \<le> 32767"
  shows "\<exists>b. ts_processing c ops e p a = Some b \<and> sock_inv priv_ok b \<and> time_frame a b \<and> (uses_ts c p \<longrightarrow> 8 \<le> srtt (linux_sk b))"
proof (cases "uses_ts c p")
  case True
  let ?a = "upd_sk (\<lambda>sk. sk\<lparr>rx_opt := \<lparr>rcv_tsval = ai_tsval p, rcv_tsecr = ai_tsecr p, saw_tstamp = True\<rparr>\<rparr>) a"
  have a: "sock_inv priv_ok ?a" "time_frame a ?a"
    using assms(1) by (auto simp: sock_inv_def sock_ok_def time_frame_def seq_frame_def)
  with rtt_update_inv [OF a(1) assms(2,3), of e "ai_rtt_us p"] obtain b where
    b: "rtt_update c ops e (ai_rtt_tick p) (ai_rtt_us p) ?a = Some b" "sock_inv priv_ok b" "8 \<le> srtt (linux_sk b)" "time_frame a b"
    by (blast intro: time_frame_trans)
  let ?b = "if c_ts_resetRTO c then b\<lparr>t_backoff := 1, ecn_backoff := ecn_backoff b \<and> \<not> backoff_ends c p b\<rparr> else b"
  have "ts_processing c ops e p a = Some ?b" using True b(1) by (simp add: ts_processing_def)
  moreover have "sock_inv priv_ok ?b" "time_frame a ?b" "8 \<le> srtt (linux_sk ?b)"
    using b(2-4) by (simp_all add: sock_inv_def time_frame_def seq_frame_def)
  ultimately show ?thesis by blast
next
  case False
  then show ?thesis using assms(1) by (auto simp: ts_processing_def sock_inv_def sock_ok_def time_frame_def seq_frame_def)
qed

lemma timed_processing_inv:
  assumes "sock_inv priv_ok a" "c_srtt_bits c = 3" "ai_timed_tick p \<le> 32767"
  shows "\<exists>b. timed_processing c ops e p a = Some b \<and> sock_inv priv_ok b \<and> time_frame a b \<and> (8 \<le> srtt (linux_sk a) \<longrightarrow> 8 \<le> srtt (linux_sk b))"
proof (cases "rtt_active a \<and> ai_seqno p \<ge> rtt_seq a")
  case True
  define d where "d = (if backoff_ends c p a then a\<lparr>t_backoff := 1, ecn_backoff := False\<rparr> else a)\<lparr>rtt_active := False\<rparr>"
  have d: "sock_inv priv_ok d" "time_frame a d" "linux_sk d = linux_sk a"
    using assms(1) by (simp_all add: d_def sock_inv_def time_frame_def seq_frame_def)
  have eq: "timed_processing c ops e p a =
      (if \<not> saw_tstamp (rx_opt (linux_sk d)) then rtt_update c ops e (ai_timed_tick p) (ai_timed_us p) d else Some d)"
    unfolding timed_processing_def Let_def using True by (simp only: d_def if_True simp_thms)
  from rtt_update_inv [OF d(1) assms(2,3), of e "ai_timed_us p"] obtain b where
    "rtt_update c ops e (ai_timed_tick p) (ai_timed_us p) d = Some b" "sock_inv priv_ok b" "8 \<le> srtt (linux_sk b)" "time_frame a b"
    using time_frame_trans [OF d(2)] by blast
  then show ?thesis using d by (cases "saw_tstamp (rx_opt (linux_sk d))") (simp_all add: eq)
next
  case False
  then have "timed_processing c ops e p a = Some a" unfolding timed_processing_def by (simp only: if_False)
  then show ?thesis using assms(1) by (simp add: time_frame_def seq_frame_def)
qed

lemma time_processing_inv:
  assumes "sock_inv priv_ok a" "c_srtt_bits c = 3" "ai_rtt_tick p \<le> 32767" "ai_timed_tick p \<le> 32767"
  shows "\<exists>b. time_processing c ops e p a = Some b \<and> sock_inv priv_ok b \<and> time_frame a b \<and> (uses_ts c p \<longrightarrow> 8 \<le> srtt (linux_sk b))"
proof -
  from ts_processing_inv [OF assms(1-3), of e] obtain b where b: "ts_processing c ops e p a = Some b" "sock_inv priv_ok b"
    "time_frame a b" "uses_ts c p \<longrightarrow> 8 \<le> srtt (linux_sk b)" by blast
  from timed_processing_inv [OF b(2) assms(2,4), of e] obtain d where d: "timed_processing c ops e p b = Some d" "sock_inv priv_ok d"
    "time_frame b d" "8 \<le> srtt (linux_sk b) \<longrightarrow> 8 \<le> srtt (linux_sk d)" by blast
  let ?d = "if highest_ack d \<ge> curseq d - 1 \<and> \<not> closed d then d\<lparr>closed := True\<rparr> else d"
  have "time_processing c ops e p a = Some ?d" using b(1) d(1) by (simp add: time_processing_def)
  moreover have "sock_inv priv_ok ?d" "time_frame a ?d" "uses_ts c p \<longrightarrow> 8 \<le> srtt (linux_sk ?d)"
    using d(2,4) b(4) time_frame_trans [OF b(3) d(3)] by (auto simp: sock_inv_def time_frame_def seq_frame_def)
  ultimately show ?thesis by blast
qed

lemma first_init_inv:
  assumes "sock_inv priv_ok a" "initialized a \<or> 8 \<le> srtt (linux_sk a)"
  shows "\<exists>b. first_init ops e a = Some b \<and> initialized b \<and> safe (linux_sk b) \<and> seq_frame a b \<and> scb b = scb a \<and> t_srtt b = t_srtt a \<and>
    recover b = recover a \<and> next_pkts_in_flight b = next_pkts_in_flight a \<and>
    icsk_ca_state (linux_sk b) = icsk_ca_state (linux_sk a)"
proof (cases "initialized a")
  case True
  then show ?thesis using assms(1) by (simp add: first_init_def sock_inv_def cc_safe_sock seq_frame_def)
next
  case False
  with assms have s: "sock_ok (linux_sk a)" "8 \<le> srtt (linux_sk a)" by (auto simp: sock_inv_def)
  then have wf: "wf_sock 4294967296 (linux_sk a)" using cc_safe_sock [of "\<lambda>_. True" "linux_sk a"] by (simp add: cc_safe_def)
  have "\<exists>t. (case ca_init ops of None \<Rightarrow> Some (linux_sk a) | Some f \<Rightarrow> f e (linux_sk a)) = Some t \<and> sock_ok t \<and> same_seq (linux_sk a) t \<and>
      icsk_ca_state t = icsk_ca_state (linux_sk a) \<and> priv_ok (icsk_ca_priv t)"
  proof (cases "ca_init ops")
    case None
    then show ?thesis using s no_init by (simp add: same_seq_def)
  next
    case (Some ini)
    from init_ok [OF Some wf env_any] obtain t where "ini e (linux_sk a) = Some t" "priv_ok (icsk_ca_priv t)" by blast
    then show ?thesis using Some init_frame [OF Some s(1)] by auto
  qed
  then obtain t where t: "(case ca_init ops of None \<Rightarrow> Some (linux_sk a) | Some f \<Rightarrow> f e (linux_sk a)) = Some t"
    "sock_ok t" "same_seq (linux_sk a) t" "icsk_ca_state t = icsk_ca_state (linux_sk a)" "priv_ok (icsk_ca_priv t)" by blast
  let ?b = "a\<lparr>linux_sk := t, initialized := True\<rparr>"
  have "first_init ops e a = Some ?b" using False t(1) by (simp add: first_init_def)
  then show ?thesis using t(2-5) s False by (simp add: cc_safe_sock same_seq_def seq_frame_def)
qed

lemma raise_to_ssthresh_inv:
  fixes e :: kernel_env
  assumes "safe (linux_sk a)" "0 \<le> packets_in_flight a" "1 \<le> c_tcp_max_burst c"
  defines "b \<equiv> raise_to_ssthresh c e a"
  shows "safe (linux_sk b)" "seq_frame a b" "scb b = scb a" "initialized b = initialized a" "t_srtt b = t_srtt a"
proof -
  have "0 < snd_ssthresh (linux_sk a)" using assms(1) by (auto simp: cc_safe_def word_le_nat_alt word_less_nat_alt)
  from moderate_pos [OF this assms(2,3)] assms(1) show "safe (linux_sk b)"
    by (auto simp: cc_safe_sock sock_ok_def b_def raise_to_ssthresh_def tcp_moderate_cwnd_def touch_cwnd_def window_def packets_in_flight_def)
  show "seq_frame a b" "scb b = scb a" "initialized b = initialized a" "t_srtt b = t_srtt a"
    by (simp_all add: b_def raise_to_ssthresh_def tcp_moderate_cwnd_def touch_cwnd_def seq_frame_def)
qed

lemma exit_state_inv:
  assumes inv: "seq_inv a" "safe (linux_sk a)" and c: "1 \<le> c_tcp_max_burst c"
  shows "\<exists>b. exit_state c ops e a = Some b \<and> seq_inv b \<and> safe (linux_sk b) \<and> initialized b = initialized a \<and>
    t_srtt b = t_srtt a \<and> highest_ack b = highest_ack a \<and> icsk_ca_state (linux_sk b) = TCP_CA_Open \<and> IsEmpty (scb b) \<and> next_pkts_in_flight b = 0"
proof -
  define a1 where "a1 = a\<lparr>scb := ClearScoreBoard (scb a)\<rparr>"
  have a1: "seq_inv a1" "safe (linux_sk a1)" "highest_ack a1 = highest_ack a" "initialized a1 = initialized a" "t_srtt a1 = t_srtt a"
    using inv seq_inv_frame [of a a1] by (simp_all add: a1_def seq_frame_def)
  have pif: "0 \<le> packets_in_flight a1"
    using inv(1) by (simp add: a1_def seq_inv_def packets_in_flight_def sb_packets_in_flight_def ClearScoreBoard_def)
  define a2 where "a2 = raise_to_ssthresh c e a1"
  note a2 = raise_to_ssthresh_inv [OF a1(2) pif c, of e, folded a2_def]
  obtain q where q: "tcp_set_ca_state ops e TCP_CA_Open (linux_sk a2) = Some ((linux_sk a2)\<lparr>icsk_ca_priv := q, icsk_ca_state := TCP_CA_Open\<rparr>)" "priv_ok q"
    using tcp_set_ca_state_safe [OF a2(1) env_any] by blast
  let ?b = "a2\<lparr>linux_sk := (linux_sk a2)\<lparr>icsk_ca_priv := q, icsk_ca_state := TCP_CA_Open\<rparr>, next_pkts_in_flight := 0\<rparr>"
  have "exit_state c ops e a = Some ?b" using q(1) by (simp add: exit_state_def flip: a1_def a2_def)
  moreover have "seq_inv ?b" by (rule seq_inv_frame [OF a1(1)]) (use a2(2,3) in \<open>simp_all add: seq_frame_def\<close>)
  moreover have "safe (linux_sk ?b)" using a2(1) q(2) by (simp add: cc_safe_def)
  moreover have "IsEmpty (scb ?b)" using a2(3) by (simp add: a1_def IsEmpty_def ClearScoreBoard_def)
  ultimately show ?thesis using a2 a1 by (simp add: seq_frame_def)
qed

lemma fastretrans_inv:
  assumes inv: "seq_inv a" "safe (linux_sk a)" and c: "1 \<le> c_tcp_max_burst c"
  shows "\<exists>b. tcp_fastretrans_alert c ops e flag a = Some b \<and> seq_inv b \<and> safe (linux_sk b) \<and> initialized b = initialized a \<and>
    t_srtt b = t_srtt a \<and> highest_ack b = highest_ack a \<and>
    (icsk_ca_state (linux_sk a) \<noteq> TCP_CA_Open \<and> highest_ack a \<ge> recover a \<longrightarrow>
       icsk_ca_state (linux_sk b) = TCP_CA_Open \<and> IsEmpty (scb b) \<and> next_pkts_in_flight b = 0) \<and>
    (icsk_ca_state (linux_sk a) \<noteq> TCP_CA_Open \<and> highest_ack a < recover a \<longrightarrow> icsk_ca_state (linux_sk b) \<noteq> TCP_CA_Open)"
proof -
  consider (exit) "icsk_ca_state (linux_sk a) \<noteq> TCP_CA_Open" "highest_ack a \<ge> recover a"
    | (enter) "\<not> (icsk_ca_state (linux_sk a) \<noteq> TCP_CA_Open \<and> highest_ack a \<ge> recover a)" "icsk_ca_state (linux_sk a) \<noteq> TCP_CA_Recovery"
      "has_flag flag FLAG_DATA_LOST \<or> has_flag flag FLAG_ECE"
    | (stay) "\<not> (icsk_ca_state (linux_sk a) \<noteq> TCP_CA_Open \<and> highest_ack a \<ge> recover a)"
      "\<not> (icsk_ca_state (linux_sk a) \<noteq> TCP_CA_Recovery \<and> (has_flag flag FLAG_DATA_LOST \<or> has_flag flag FLAG_ECE))" by blast
  then show ?thesis
  proof cases
    case exit
    then show ?thesis using exit_state_inv [OF inv c, of e] by (auto simp: tcp_fastretrans_alert_def)
  next
    case enter
    from enter_recovery_safe [OF inv(2) env_any, of e] obtain t where t: "enter_recovery ops e (linux_sk a) = Some t" "safe t"
      "same_seq (linux_sk a) t" "icsk_ca_state t = TCP_CA_Recovery" by blast
    let ?b = "a\<lparr>recover := maxseq a, next_pkts_in_flight := window a, linux_sk := t\<rparr>"
    have "tcp_fastretrans_alert c ops e flag a = Some ?b" using enter t(1) by (auto simp: tcp_fastretrans_alert_def)
    moreover have "seq_inv ?b" by (rule seq_inv_frame [OF inv(1)]) (use t(3) in \<open>simp_all add: seq_frame_def same_seq_def\<close>)
    ultimately show ?thesis using t(2,4) enter(1) by auto
  next
    case stay
    then have "tcp_fastretrans_alert c ops e flag a = Some a" by (auto simp: tcp_fastretrans_alert_def)
    then show ?thesis using inv stay(1) by auto
  qed
qed

lemma cong_avoid_inv:
  assumes "seq_inv a" "safe (linux_sk a)"
  shows "\<exists>b. agent_cong_avoid ops e p k good a = Some b \<and> seq_inv b \<and> safe (linux_sk b) \<and> initialized b = initialized a \<and>
    t_srtt b = t_srtt a \<and> highest_ack b = highest_ack a \<and> recover b = recover a \<and> icsk_ca_state (linux_sk b) = icsk_ca_state (linux_sk a)"
proof -
  from tcp_cong_avoid_safe [OF assms(2) env_any] obtain t where
    t: "tcp_cong_avoid ops e (word_of_int (ai_seqno p + 1)) (ai_seq_rtt p) (word_of_int k) good (linux_sk a) = Some t" "safe t"
      "same_seq (linux_sk a) t" "icsk_ca_state t = icsk_ca_state (linux_sk a)" by blast
  have "seq_inv (a\<lparr>linux_sk := t\<rparr>)" by (rule seq_inv_frame [OF assms(1)]) (use t(3) in \<open>simp_all add: seq_frame_def same_seq_def\<close>)
  then show ?thesis using t by (simp add: agent_cong_avoid_def)
qed

lemma recv_window_inv:
  assumes inv: "seq_inv a" "safe (linux_sk a)" and c: "1 \<le> c_tcp_max_burst c" and p: "ackt_ok e (ai_last_ackt p)"
  shows "\<exists>b. recv_window c ops e p n k flag a = Some b \<and> seq_inv b \<and> safe (linux_sk b) \<and> initialized b = initialized a \<and>
    t_srtt b = t_srtt a \<and> highest_ack b = highest_ack a \<and>
    (icsk_ca_state (linux_sk a) \<noteq> TCP_CA_Open \<and> highest_ack a \<ge> recover a \<longrightarrow>
       icsk_ca_state (linux_sk b) = TCP_CA_Open \<and> IsEmpty (scb b) \<and> next_pkts_in_flight b = 0) \<and>
    (icsk_ca_state (linux_sk a) \<noteq> TCP_CA_Open \<and> highest_ack a < recover a \<longrightarrow> icsk_ca_state (linux_sk b) \<noteq> TCP_CA_Open)"
proof -
  let ?nd = "has_flag flag FLAG_DATA_ACKED" and ?al = "has_flag flag FLAG_CA_ALERT"
  let ?lt = "if has_flag flag FLAG_UNSURE_TSTAMP \<or> \<not> c_bugfix_ts c then 0 else ai_last_ackt p"
  have "ackt_ok e ?lt" using p by (simp add: ackt_ok_def net_invalid_timestamp_def)
  from ack_callbacks_safe [OF inv(2) env_any ack_any this] obtain t where
    t: "ack_callbacks ops e ?nd (icsk_ca_state (linux_sk a) = TCP_CA_Open \<and> \<not> ?al \<and> ?nd) (word_of_int n) ?lt (linux_sk a) = Some t"
      "safe t" "same_control (linux_sk a) t" by blast
  define a1 where "a1 = a\<lparr>linux_sk := t\<rparr>"
  have a1: "seq_inv a1" "safe (linux_sk a1)" "icsk_ca_state (linux_sk a1) = icsk_ca_state (linux_sk a)" "linux_sk a1 = t"
    "initialized a1 = initialized a" "t_srtt a1 = t_srtt a" "highest_ack a1 = highest_ack a" "recover a1 = recover a"
    using t(2,3) seq_inv_frame [OF inv(1), of a1] by (simp_all add: a1_def seq_frame_def same_control_def)
  show ?thesis
  proof (cases "\<not> ?nd \<or> ?al \<or> icsk_ca_state t \<noteq> TCP_CA_Open")
    case True
    have "\<exists>a2. (if ?nd \<and> tcp_may_raise_cwnd flag t then agent_cong_avoid ops e p k 0 a1 else Some a1) = Some a2 \<and> seq_inv a2 \<and>
        safe (linux_sk a2) \<and> initialized a2 = initialized a \<and> t_srtt a2 = t_srtt a \<and> highest_ack a2 = highest_ack a \<and> recover a2 = recover a \<and>
        icsk_ca_state (linux_sk a2) = icsk_ca_state (linux_sk a)"
      using cong_avoid_inv [OF a1(1,2), of e p k 0] a1 by simp
    then obtain a2 where a2: "(if ?nd \<and> tcp_may_raise_cwnd flag t then agent_cong_avoid ops e p k 0 a1 else Some a1) = Some a2"
      "seq_inv a2" "safe (linux_sk a2)" "initialized a2 = initialized a" "t_srtt a2 = t_srtt a" "highest_ack a2 = highest_ack a"
      "recover a2 = recover a" "icsk_ca_state (linux_sk a2) = icsk_ca_state (linux_sk a)" by blast
    have "recv_window c ops e p n k flag a = tcp_fastretrans_alert c ops e flag a2"
      using t(1) True a2(1) by (auto simp: recv_window_def Let_def simp flip: a1_def split: if_splits)
    then show ?thesis using fastretrans_inv [OF a2(2,3) c, of e flag] a2(4-8) by simp
  next
    case False
    let ?a = "a1\<lparr>prev_highest_ack := highest_ack a1\<rparr>"
    have "seq_inv ?a" "safe (linux_sk ?a)" using a1(1,2) by (simp_all add: seq_inv_def)
    moreover have "recv_window c ops e p n k flag a = agent_cong_avoid ops e p k 1 ?a"
      using t(1) False by (simp add: recv_window_def Let_def a1_def)
    ultimately show ?thesis using cong_avoid_inv [of ?a e p k 1] a1 False by auto
  qed
qed

lemma save_from_linux_inv [simp]:
  "seq_inv (save_from_linux a) = seq_inv a" "sock_inv priv_ok (save_from_linux a) = sock_inv priv_ok a"
  by (simp_all add: save_from_linux_def seq_inv_def sock_inv_def)

lemma send_much_inv:
  assumes "seq_inv a" "sock_inv priv_ok a" "c_max_connects c \<le> 0"
  shows "\<exists>b. send_much c force maxburst a = Some b \<and> agent_inv priv_ok b \<and> send_frame a b"
proof -
  from send_much_ok [OF assms(1,3), of force maxburst] obtain b where
    b: "send_much c force maxburst a = Some b" "seq_inv b" "send_frame a b" by blast
  moreover have "sock_inv priv_ok b"
    using assms(2) send_frame_sk [OF b(3)] b(3) by (simp add: sock_inv_def sock_ok_def send_frame_def)
  ultimately show ?thesis by (auto simp: agent_inv_def)
qed

lemma sk_frame_ack:
  assumes "sk'\<lparr>snd_una := 0, bytes_acked := 0\<rparr> = sk\<lparr>snd_una := 0, bytes_acked := 0\<rparr>"
  shows "sock_ok sk' = sock_ok sk" "srtt sk' = srtt sk" "icsk_ca_priv sk' = icsk_ca_priv sk" "icsk_ca_state sk' = icsk_ca_state sk"
  using arg_cong [OF assms, of snd_cwnd] arg_cong [OF assms, of snd_cwnd_clamp] arg_cong [OF assms, of mss_cache]
    arg_cong [OF assms, of snd_ssthresh] arg_cong [OF assms, of srtt] arg_cong [OF assms, of icsk_ca_priv]
    arg_cong [OF assms, of icsk_ca_state]
  by (simp_all add: sock_ok_def)

lemma recv_inv:
  assumes inv: "agent_inv priv_ok a" and c: "conf_ok c" and p: "ack_ok_for c e p a"
  shows "\<exists>b. recv c ops e p a = Some b \<and> agent_inv priv_ok b \<and>
    (icsk_ca_state (linux_sk a) \<noteq> TCP_CA_Open \<and> highest_ack a \<le> ai_seqno p \<and> ai_seqno p < t_seqno a \<longrightarrow>
       (icsk_ca_state (linux_sk b) = TCP_CA_Open \<longleftrightarrow> recover a \<le> ai_seqno p) \<and> highest_ack b = ai_seqno p)"
proof (cases "highest_ack a \<le> ai_seqno p \<and> ai_seqno p < t_seqno a")
  case True
  have i: "seq_inv a" "sock_inv priv_ok a" using inv by (auto simp: agent_inv_def)
  have p': "sacks_sane (ai_seqno p) (ai_sacks p)" "\<forall>x \<in> set (ai_sacks p). snd x \<le> t_seqno a" "0 < t_seqno a"
    "ai_rtt_tick p \<le> 32767" "ai_timed_tick p \<le> 32767" "ackt_ok e (ai_last_ackt p)" "initialized a \<or> uses_ts c p"
    using p by (auto simp: ack_ok_for_def)
  have c': "c_srtt_bits c = 3" "1 \<le> c_tcp_max_burst c" "c_max_connects c \<le> 0" using c by (auto simp: conf_ok_def)
  from recv_update_ok [OF i(1) _ _ p'(1-3)] True obtain flag a1 where a1: "recv_update c p a = Some (flag, a1)" "seq_inv a1"
    "highest_ack a1 = ai_seqno p" "initialized a1 = initialized a" "t_srtt a1 = t_srtt a" "recover a1 = recover a"
    "(linux_sk a1)\<lparr>snd_una := 0, bytes_acked := 0\<rparr> = (linux_sk a)\<lparr>snd_una := 0, bytes_acked := 0\<rparr>" by blast
  have "sock_inv priv_ok a1" using i(2) a1(4,5) sk_frame_ack [OF a1(7)] by (simp add: sock_inv_def)
  from time_processing_inv [OF this c'(1) p'(4,5), of e] obtain a2 where a2: "time_processing c ops e p a1 = Some a2" "sock_inv priv_ok a2"
    "time_frame a1 a2" "uses_ts c p \<longrightarrow> 8 \<le> srtt (linux_sk a2)" by blast
  have s2: "seq_inv a2" by (rule seq_inv_frame [OF a1(2)]) (use a2(3) in \<open>simp_all add: time_frame_def\<close>)
  have "initialized a2 \<or> 8 \<le> srtt (linux_sk a2)" using a2(3,4) p'(7) a1(4) by (auto simp: time_frame_def)
  from first_init_inv [OF a2(2) this, of e] obtain a3 where a3: "first_init ops e a2 = Some a3" "initialized a3" "safe (linux_sk a3)"
    "seq_frame a2 a3" "scb a3 = scb a2" "t_srtt a3 = t_srtt a2" "recover a3 = recover a2"
    "icsk_ca_state (linux_sk a3) = icsk_ca_state (linux_sk a2)" by blast
  have s3: "seq_inv a3" by (rule seq_inv_frame [OF s2]) (use a3(4,5) in simp_all)
  from recv_window_inv [OF s3 a3(3) c'(2) p'(6), of "ai_seqno p - highest_ack a" "packets_in_flight a" flag] obtain a4 where
    a4: "recv_window c ops e p (ai_seqno p - highest_ack a) (packets_in_flight a) flag a3 = Some a4" "seq_inv a4" "safe (linux_sk a4)"
      "initialized a4 = initialized a3" "t_srtt a4 = t_srtt a3" "highest_ack a4 = highest_ack a3"
      "icsk_ca_state (linux_sk a3) \<noteq> TCP_CA_Open \<and> highest_ack a3 \<ge> recover a3 \<longrightarrow> icsk_ca_state (linux_sk a4) = TCP_CA_Open"
      "icsk_ca_state (linux_sk a3) \<noteq> TCP_CA_Open \<and> highest_ack a3 < recover a3 \<longrightarrow> icsk_ca_state (linux_sk a4) \<noteq> TCP_CA_Open" by blast
  have "sock_inv priv_ok a4" using a4(3-5) a3(2,6) a2(2) by (simp add: sock_inv_def cc_safe_sock)
  then obtain b where b: "send_much c False (c_maxburst c) (save_from_linux a4) = Some b" "agent_inv priv_ok b" "send_frame (save_from_linux a4) b"
    using send_much_inv [of "save_from_linux a4" c False "c_maxburst c"] a4(2) c'(3) by auto
  have "recv c ops e p a = Some b"
    using True a1(1) a2(1) a3(1) a4(1) b(1) by (simp add: recv_def)
  moreover have "(icsk_ca_state (linux_sk b) = TCP_CA_Open \<longleftrightarrow> recover a \<le> ai_seqno p) \<and> highest_ack b = ai_seqno p"
    if "icsk_ca_state (linux_sk a) \<noteq> TCP_CA_Open"
  proof -
    have "icsk_ca_state (linux_sk a2) = icsk_ca_state (linux_sk a)" "highest_ack a2 = ai_seqno p" "recover a2 = recover a"
      using a2(3) a1(3,6) sk_frame_ack(4) [OF a1(7)] by (simp_all add: time_frame_def seq_frame_def)
    then show ?thesis
      using a3(4,7,8) a4(6-8) that b(3) send_frame_sk(7) [OF b(3)] by (auto simp: seq_frame_def send_frame_def save_from_linux_def)
  qed
  ultimately show ?thesis using b(2) by blast
next
  case False
  then have "recv c ops e p a = Some a" by (auto simp: recv_def)
  then show ?thesis using inv False by auto
qed

lemma load_init_inv:
  assumes "seq_inv a" "sock_inv priv_ok a" "conf_ok c"
  defines "b \<equiv> load_to_linux c (slowdown_init c (save_from_linux a))"
  shows "seq_inv b" "sock_inv priv_ok b" "highest_ack b = highest_ack a" "maxseq b = maxseq a"
proof -
  have w: "(0 :: u32) < word_of_int (c_wnd_init c)" "(1 :: u32) < word_of_int (c_wnd c)"
    using assms(3) by (auto simp: conf_ok_def word_less_def uint_word_of_int take_bit_int_eq_self)
  have t: "(2 :: u32) \<le> word_of_int (max 2 (sint (snd_ssthresh (linux_sk a))))"
  proof -
    have "sint (snd_ssthresh (linux_sk a)) < 2 ^ 31" using sint_lt [of "snd_ssthresh (linux_sk a)"] by simp
    then show ?thesis by (simp add: word_le_def uint_word_of_int take_bit_int_eq_self max_def)
  qed
  show "seq_inv b" "highest_ack b = highest_ack a" "maxseq b = maxseq a"
    using assms(1) by (simp_all add: b_def load_to_linux_def slowdown_init_def save_from_linux_def seq_inv_def Let_def)
  show "sock_inv priv_ok b"
    using assms(2) w t by (simp add: b_def load_to_linux_def slowdown_init_def save_from_linux_def sock_inv_def sock_ok_def Let_def)
qed

lemma enter_loss_inv:
  assumes "seq_inv a" "sock_inv priv_ok a"
  shows "\<exists>b. agent_enter_loss ops e a = Some b \<and> seq_inv b \<and> sock_inv priv_ok b \<and> highest_ack b = highest_ack a \<and> maxseq b = maxseq a \<and>
    t_seqno b = t_seqno a \<and> snd_cwnd (linux_sk b) = 1 \<and> scb b = MarkLoss (highest_ack a + 1) (t_seqno a) (scb a) \<and>
    icsk_ca_state (linux_sk b) = TCP_CA_Loss \<and> recover b = maxseq a \<and> sent b = sent a \<and> delsnd_pending b = delsnd_pending a"
proof -
  obtain t where t: "enter_loss ops e (linux_sk a) = Some t" "sock_ok t" "snd_cwnd t = 1"
    "icsk_ca_state t = TCP_CA_Loss" "same_seq (linux_sk a) t" using loss_any [of "linux_sk a" e] assms(2) by (auto simp: sock_inv_def)
  have t': "safe t" if "initialized a"
  proof -
    have "safe (linux_sk a)" using assms(2) that by (simp add: sock_inv_def cc_safe_sock)
    from enter_loss_safe [OF this env_any, of e] t(1) show ?thesis by auto
  qed
  let ?b = "a\<lparr>linux_sk := t, recover := maxseq a, scb := MarkLoss (highest_ack a + 1) (t_seqno a) (scb a)\<rparr>"
  have "agent_enter_loss ops e a = Some ?b" using t(1) by (simp add: agent_enter_loss_def)
  moreover have "seq_inv ?b"
    using assms(1) t(5) MarkLoss_ok [of "highest_ack a + 1" "scb a" "t_seqno a"] sb_within_MarkLoss [of "highest_ack a + 1" "scb a" "t_seqno a"]
    by (simp add: seq_inv_def same_seq_def)
  moreover have "sock_inv priv_ok ?b" using assms(2) t(2) t' by (simp add: sock_inv_def cc_safe_sock)
  ultimately show ?thesis using t by simp
qed

lemma rtt_backoff_inv [simp]:
  "seq_inv (rtt_backoff c a) = seq_inv a" "highest_ack (rtt_backoff c a) = highest_ack a" "maxseq (rtt_backoff c a) = maxseq a"
  "linux_sk (rtt_backoff c a) = linux_sk a" "initialized (rtt_backoff c a) = initialized a"
  by (simp_all add: rtt_backoff_def seq_inv_def Let_def)

lemma rtt_backoff_srtt: "srtt_ok (t_srtt a) \<Longrightarrow> srtt_ok (t_srtt (rtt_backoff c a))"
  by (simp add: rtt_backoff_def srtt_ok_def Let_def)

lemma timeout_inv:
  assumes inv: "agent_inv priv_ok a" and c: "conf_ok c"
  shows "\<exists>b. timeout_rtx c ops e a = Some b \<and> agent_inv priv_ok b"
proof (cases "highest_ack a = maxseq a \<and> \<not> c_slow_start_restart c")
  case True
  then show ?thesis using inv by (simp add: timeout_rtx_def)
next
  case False
  have i: "seq_inv a" "sock_inv priv_ok a" using inv by (auto simp: agent_inv_def)
  have "\<exists>a1. (if highest_ack a = maxseq a \<and> c_restart_bugfix c then Some (load_to_linux c (slowdown_init c (save_from_linux a)))
              else agent_enter_loss ops e a) = Some a1 \<and> seq_inv a1 \<and> sock_inv priv_ok a1"
    using load_init_inv [OF i c] enter_loss_inv [OF i, of e] by auto
  then obtain a1 where a1: "(if highest_ack a = maxseq a \<and> c_restart_bugfix c then Some (load_to_linux c (slowdown_init c (save_from_linux a)))
              else agent_enter_loss ops e a) = Some a1" "seq_inv a1" "sock_inv priv_ok a1" by blast
  define a2 where "a2 = (if highest_ack a1 = maxseq a1 then a1 else rtt_backoff c a1)"
  define a3 where "a3 = upd_sk (\<lambda>sk. sk\<lparr>bytes_acked := 0\<rparr>) (a2\<lparr>rtt_active := False, next_pkts_in_flight := 0\<rparr>)"
  have "seq_inv a2" "sock_inv priv_ok a2" using a1(2,3) rtt_backoff_srtt [of a1 c] by (auto simp: a2_def sock_inv_def)
  then have "seq_inv a3" "sock_inv priv_ok a3" by (auto simp: a3_def seq_inv_def sock_inv_def sock_ok_def)
  then obtain b where b: "send_much c False 0 (save_from_linux a3) = Some b" "agent_inv priv_ok b"
    using send_much_inv [of "save_from_linux a3" c False 0] c by (auto simp: conf_ok_def)
  have "timeout_rtx c ops e a = send_much c False 0 (save_from_linux a3)"
    unfolding timeout_rtx_def if_not_P [OF False] a1(1) by (simp add: a2_def a3_def)
  then show ?thesis using b by auto
qed

lemma data_inv:
  assumes "agent_inv priv_ok a" "conf_ok c"
  shows "\<exists>b. send_much c False (c_maxburst c) (a\<lparr>curseq := n\<rparr>) = Some b \<and> agent_inv priv_ok b"
proof -
  have "seq_inv (a\<lparr>curseq := n\<rparr>)" "sock_inv priv_ok (a\<lparr>curseq := n\<rparr>)"
    using assms(1) by (auto simp: agent_inv_def seq_inv_def sock_inv_def)
  from send_much_inv [OF this, of c False "c_maxburst c"] assms(2) show ?thesis by (auto simp: conf_ok_def)
qed

lemma reach_inv: "agent_reach c ops a \<Longrightarrow> conf_ok c \<Longrightarrow> agent_inv priv_ok a"
proof (induction rule: agent_reach.induct)
  case (start a)
  have "sb_ok 0 new_scoreboard" "sb_within 0 new_scoreboard" by (simp_all add: new_scoreboard_def sb_ok_clear)
  with start show ?case by (auto simp: agent_start_def agent_inv_def seq_inv_def sock_inv_def)
next
  case (data a n b)
  then show ?case using data_inv [of a c n] by auto
next
  case (ack a e p b)
  then show ?case using recv_inv [of a c e p] by auto
next
  case (rtx a e b)
  then show ?case using timeout_inv [of a c e] by auto
qed

lemma reach_agent_safe:
  assumes "agent_reach c ops a" "conf_ok c"
  shows "agent_safe c ops priv_ok a"
proof -
  note inv = reach_inv [OF assms]
  show ?thesis
    unfolding agent_safe_def
  proof (intro conjI allI impI)
    show "\<exists>b. recv c ops e p a = Some b \<and> agent_inv priv_ok b" if "ack_ok_for c e p a" for e p
      using recv_inv [OF inv assms(2) that] by blast
  qed (use inv data_inv [OF inv assms(2)] timeout_inv [OF inv assms(2)] in auto)
qed

end

lemma seq_inv_cover:
  assumes "seq_inv a"
  shows "(\<Union>f. segs f (sb_nodes (scb a))) \<subseteq> {highest_ack a + 1 ..< t_seqno a}"
proof (cases "sb_nodes (scb a) = []")
  case False
  then obtain e where "blocks (highest_ack a + 1) (sb_nodes (scb a)) e" using assms by (auto simp: seq_inv_def sb_ok_def)
  with segs_cover have "(\<Union>f. segs f (sb_nodes (scb a))) \<subseteq> {highest_ack a + 1 ..}" by auto
  moreover have "(\<Union>f. segs f (sb_nodes (scb a))) \<subseteq> {..< t_seqno a}" using assms by (simp add: seq_inv_def sb_within_def)
  ultimately have "(\<Union>f. segs f (sb_nodes (scb a))) \<subseteq> {highest_ack a + 1 ..} \<inter> {..< t_seqno a}" by (rule Int_greatest)
  also have "{highest_ack a + 1 ..} \<inter> {..< t_seqno a} = {highest_ack a + 1 ..< t_seqno a}" by auto
  finally show ?thesis .
qed simp

lemma seq_inv_in_flight:
  assumes "seq_inv a"
  shows "packets_in_flight a = int (card ({highest_ack a + 1 ..< t_seqno a} - segs SKB_FLAG_SACKED (sb_nodes (scb a)) - segs SKB_FLAG_LOST (sb_nodes (scb a))))"
  using assms seq_inv_cover [OF assms] unfolding packets_in_flight_def by (intro sb_ok_in_flight) (auto simp: seq_inv_def)

text \<open>After the marking of a timeout everything that is outstanding is sacked or lost.\<close>

lemma MarkLoss_outstanding:
  assumes "seq_inv a"
  defines "U \<equiv> {highest_ack a + 1 ..< t_seqno a} - segs SKB_FLAG_SACKED (sb_nodes (scb a))"
    and "sb \<equiv> MarkLoss (highest_ack a + 1) (t_seqno a) (scb a)"
  shows "segs SKB_FLAG_LOST (sb_nodes sb) = U" "sb_packets_in_flight (highest_ack a + 1) (t_seqno a) sb = 0"
    "fst (GetNextRetran sb) = (if U = {} then - 1 else Min U)"
proof -
  have ok: "sb_ok (highest_ack a + 1) (scb a)" and h: "- 1 \<le> highest_ack a" "highest_ack a < t_seqno a" using assms(1) by (auto simp: seq_inv_def)
  note m = MarkLoss_ok [OF ok, of "t_seqno a", folded sb_def]
  have cover: "(\<Union>f. segs f (sb_nodes sb)) = {highest_ack a + 1 ..< t_seqno a}" using m seq_inv_cover [OF assms(1)] by auto
  have sub: "segs f (sb_nodes sb) \<subseteq> segs SKB_FLAG_LOST (sb_nodes sb) \<union> segs SKB_FLAG_SACKED (sb_nodes (scb a))" for f
    using m by (cases f) auto
  have "segs SKB_FLAG_LOST (sb_nodes sb) \<inter> segs SKB_FLAG_SACKED (sb_nodes sb) = {}" using m by (intro sb_ok_disjoint) auto
  then have disj: "segs SKB_FLAG_LOST (sb_nodes sb) \<inter> segs SKB_FLAG_SACKED (sb_nodes (scb a)) = {}" using m by simp
  show lost: "segs SKB_FLAG_LOST (sb_nodes sb) = U" using cover sub disj unfolding U_def by blast
  have "sb_packets_in_flight (highest_ack a + 1) (t_seqno a) sb =
      int (card ({highest_ack a + 1 ..< t_seqno a} - segs SKB_FLAG_SACKED (sb_nodes sb) - segs SKB_FLAG_LOST (sb_nodes sb)))"
    using m cover h by (intro sb_ok_in_flight) auto
  also have "{highest_ack a + 1 ..< t_seqno a} - segs SKB_FLAG_SACKED (sb_nodes sb) - segs SKB_FLAG_LOST (sb_nodes sb) = {}"
    using m lost by (simp add: U_def)
  finally show "sb_packets_in_flight (highest_ack a + 1) (t_seqno a) sb = 0" by simp
  have "fst (GetNextRetran sb) = (if segs SKB_FLAG_LOST (sb_nodes sb) = {} then - 1 else Min (segs SKB_FLAG_LOST (sb_nodes sb)))"
    using m h by (intro GetNextRetran_Min [of "highest_ack a + 1"]) auto
  then show "fst (GetNextRetran sb) = (if U = {} then - 1 else Min U)" by (simp add: lost)
qed

text \<open>What \<open>send_much\<close> sends next: the first lost segment, else a new one, if the application has one.\<close>

definition next_segment :: "'ca agent \<Rightarrow> int \<Rightarrow> int list" where
  "next_segment a q = (if q \<noteq> - 1 then [q] else if t_seqno a < curseq a then [t_seqno a] else [])"

lemma send_one:
  assumes inv: "seq_inv a" and c: "c_max_connects c \<le> 0"
    and w: "packets_in_flight a = 0" "window a = 1" "next_pkts_in_flight a = 0" and q: "fst (GetNextRetran (scb a)) = q"
  shows "\<exists>b. send_much c False 0 a = Some b \<and> seq_inv b \<and> send_frame a b \<and>
    (if c_overhead c \<or> delsnd_pending a then sent b = sent a \<and> packets_in_flight b = 0 \<and> delsnd_pending b
     else sent b = next_segment a q @ sent a \<and> packets_in_flight b = int (length (next_segment a q)))"
proof (cases "delsnd_pending a")
  case True
  then show ?thesis using inv w by (simp add: send_much_def send_frame_def)
next
  case nopend: False
  let ?a = "a\<lparr>next_pkts_in_flight := min (next_pkts_in_flight a) (packets_in_flight a + 1)\<rparr>"
  have a: "seq_inv ?a" "packets_in_flight ?a = 0" "window ?a = 1" "next_pkts_in_flight ?a = 0" "scb ?a = scb a" "sent ?a = sent a"
    "t_seqno ?a = t_seqno a" "curseq ?a = curseq a" "send_frame a ?a"
    using inv w by (simp_all add: seq_inv_def packets_in_flight_def window_def send_frame_def)
  have loop: "send_much c False 0 a = send_loop c False 0 0 ?a" using nopend by (simp add: send_much_def)
  obtain sb where g: "GetNextRetran (scb a) = (q, sb)" using q by (cases "GetNextRetran (scb a)") auto
  have pend: "c_overhead c \<and> \<not> False \<longrightarrow> \<not> delsnd_pending ?a" using nopend by simp
  show ?thesis
  proof (cases rule: send_round_ok [OF a(1) c pend])
    case (1 b)
    have "send_loop c False 0 0 ?a = Some b" using a 1(1) by (subst send_loop.simps) simp
    moreover have "q = - 1 \<and> \<not> t_seqno a < curseq a" if "\<not> c_overhead c"
      using 1(1) g that by (auto simp: send_round_def split: if_splits Option.bind_splits)
    ultimately show ?thesis using 1 a loop nopend send_frame_trans [OF a(9) 1(3)] by (auto simp: next_segment_def)
  next
    case (2 b)
    have ov: "\<not> c_overhead c" using 2(1) by (auto simp: send_round_def split: if_splits)
    have "(packets_in_flight b < max (window b) (next_pkts_in_flight b)) = False"
      using send_round_in_flight [OF 2(1)] a 2(5) by auto
    then have "send_loop c False 0 1 b = Some b" by (subst send_loop.simps) (simp only: if_False)
    then have "send_loop c False 0 0 ?a = Some b" using a 2(1) by (subst send_loop.simps) simp
    moreover have "t_seqno a < curseq a" if "q = - 1"
      using 2(1) g that ov by (auto simp: send_round_def split: if_splits)
    ultimately show ?thesis using 2 a ov loop q nopend send_frame_trans [OF a(9) 2(3)] by (auto simp: next_segment_def)
  qed
qed

context agent_module
begin

lemma timeout_first:
  assumes inv: "agent_inv priv_ok a" and c: "conf_ok c" and out: "highest_ack a \<noteq> maxseq a"
  defines "U \<equiv> {highest_ack a + 1 ..< t_seqno a} - segs SKB_FLAG_SACKED (sb_nodes (scb a))"
  shows "\<exists>b. timeout_rtx c ops e a = Some b \<and> icsk_ca_state (linux_sk b) = TCP_CA_Loss \<and> window b = 1 \<and> recover b = maxseq a \<and>
    (if c_overhead c \<or> delsnd_pending a then sent b = sent a \<and> packets_in_flight b = 0 \<and> delsnd_pending b
     else sent b = next_segment a (if U = {} then - 1 else Min U) @ sent a \<and>
       packets_in_flight b = int (length (next_segment a (if U = {} then - 1 else Min U))))"
proof -
  have i: "seq_inv a" "sock_inv priv_ok a" using inv by (auto simp: agent_inv_def)
  have "\<exists>b. agent_enter_loss ops e a = Some b \<and> curseq b = curseq a"
    using enter_loss_inv [OF i, of e] by (auto simp: agent_enter_loss_def split: Option.bind_splits)
  with enter_loss_inv [OF i, of e] obtain a1 where a1: "agent_enter_loss ops e a = Some a1" "seq_inv a1"
    "highest_ack a1 = highest_ack a" "maxseq a1 = maxseq a" "t_seqno a1 = t_seqno a" "snd_cwnd (linux_sk a1) = 1"
    "scb a1 = MarkLoss (highest_ack a + 1) (t_seqno a) (scb a)" "sent a1 = sent a" "delsnd_pending a1 = delsnd_pending a"
    "icsk_ca_state (linux_sk a1) = TCP_CA_Loss" "recover a1 = maxseq a" "curseq a1 = curseq a" by auto
  note m = MarkLoss_outstanding [OF i(1), folded U_def a1(7)]
  define a3 where "a3 = save_from_linux (upd_sk (\<lambda>sk. sk\<lparr>bytes_acked := 0\<rparr>) ((rtt_backoff c a1)\<lparr>rtt_active := False, next_pkts_in_flight := 0\<rparr>))"
  have bo: "scb (rtt_backoff c a1) = scb a1" "t_seqno (rtt_backoff c a1) = t_seqno a1" "sent (rtt_backoff c a1) = sent a1"
    "delsnd_pending (rtt_backoff c a1) = delsnd_pending a1" "recover (rtt_backoff c a1) = recover a1" "curseq (rtt_backoff c a1) = curseq a1"
    by (simp_all add: rtt_backoff_def Let_def)
  have "timeout_rtx c ops e a = send_much c False 0 a3"
    using out a1(1,3,4) by (simp add: timeout_rtx_def a3_def)
  moreover have "seq_inv a3" using a1(2) bo by (simp add: a3_def) (simp add: seq_inv_def)
  moreover have "packets_in_flight a3 = 0" using m(2) a1(3,5,7) bo by (simp add: a3_def save_from_linux_def packets_in_flight_def)
  moreover have a3: "window a3 = 1" "next_pkts_in_flight a3 = 0" "scb a3 = scb a1" "sent a3 = sent a" "delsnd_pending a3 = delsnd_pending a"
    "recover a3 = maxseq a" "icsk_ca_state (linux_sk a3) = TCP_CA_Loss"
    using a1 bo by (simp_all add: a3_def save_from_linux_def window_def)
  moreover have "next_segment a3 q = next_segment a q" for q
    using a1 bo by (simp add: next_segment_def a3_def save_from_linux_def)
  ultimately obtain b where "timeout_rtx c ops e a = Some b" "send_frame a3 b"
    "if c_overhead c \<or> delsnd_pending a then sent b = sent a \<and> packets_in_flight b = 0 \<and> delsnd_pending b
     else sent b = next_segment a (if U = {} then - 1 else Min U) @ sent a \<and>
       packets_in_flight b = int (length (next_segment a (if U = {} then - 1 else Min U)))"
    using send_one [of a3 c "if U = {} then - 1 else Min U"] m(3) c by (auto simp: conf_ok_def)
  then show ?thesis using a3(1,6,7) send_frame_sk(5,7) [of a3 b] by (auto simp: send_frame_def window_def)
qed

end

section \<open>A concrete agent\<close>

text \<open>Thirteen segments out, from 2 to 14, of which 9 to 11 are sacked and 2 to 7 lost, with a window of ten.\<close>

definition sample_conf :: agent_conf where
  "sample_conf = \<lparr>c_ecn = False, c_ect = False, c_ts_option = True, c_ts_resetRTO = False, c_bugfix_ts = True, c_overhead = False,
     c_maxburst = 0, c_tcp_max_burst = 3, c_slow_start_restart = True, c_restart_bugfix = True, c_syn = False, c_max_connects = - 1,
     c_wnd_init = 2, c_wnd = 100, c_size = 1460, c_rfc2988 = True, c_srtt_bits = 3, c_rttvar_bits = 2\<rparr>"

definition sample_agent :: "'ca \<Rightarrow> 'ca agent" where
  "sample_agent p = \<lparr>scb = sample_board, linux_sk = (sample_sock p)\<lparr>snd_una := 2920, snd_nxt := 21900\<rparr>, initialized = True,
     next_pkts_in_flight = 0, t_seqno = 15, highest_ack = 1, maxseq = 14, recover = 14, curseq = 100, prev_highest_ack = 1, last_ack = 1,
     ns_cwnd = 10, ns_ssthresh = 50, t_rtt = 100, t_srtt = 800, t_rttvar = 10, t_backoff = 1, ecn_backoff = False, rtt_active = False,
     rtt_seq = 0, closed = False, delsnd_pending = False, syn_connects = 0, sent = []\<rparr>"

lemma sample_conf_ok: "conf_ok sample_conf"
  by (simp add: conf_ok_def sample_conf_def)

lemma sample_agent_fields [simp]:
  "highest_ack (sample_agent p) = 1" "t_seqno (sample_agent p) = 15" "scb (sample_agent p) = sample_board"
  "window (sample_agent p) = 10" "next_pkts_in_flight (sample_agent p) = 0" "\<not> delsnd_pending (sample_agent p)"
  "initialized (sample_agent p)" "maxseq (sample_agent p) = 14" "sent (sample_agent p) = []"
  by (simp_all add: sample_agent_def window_def sample_sock_def)

lemma sample_agent_seq_inv: "seq_inv (sample_agent p)"
proof -
  have "(\<Union>f. segs f (sb_nodes sample_board)) \<subseteq> {..< 15}" by (auto simp: sample_board_def split: if_splits)
  then have "sb_within 15 sample_board" by (simp add: sb_within_def sample_board_def)
  then show ?thesis using sb_reach_ok [OF sample_board_reach] by (simp add: seq_inv_def sample_agent_def sample_sock_def)
qed

lemma sample_agent_inv: "priv_ok p \<Longrightarrow> agent_inv priv_ok (sample_agent p)"
  using sample_agent_seq_inv [of p]
  by (simp add: agent_inv_def sock_inv_def sock_ok_def srtt_ok_def) (simp add: sample_agent_def sample_sock_def)

section \<open>Properties\<close>

text \<open>
  \<^bold>\<open>C26\<close> \<open>send_much\<close> ends, whatever the window, the burst limit (negative or zero included, zero meaning none), the force
  flag and the state of the delayed-send timer, for an agent whose sequence numbers and scoreboard agree and with no limit on
  connection attempts. It sends \<open>k\<close> segments, which is what it adds in flight; it leaves no more in flight than the window, the
  bound of the rate halving or what was in flight before, and exceeds no burst limit. With a delayed send pending and no
  force it does nothing. Otherwise it stops because the window is full, because there is nothing to send, because the burst
  is complete, or, with overhead and no force, because it has set the delayed-send timer, without having sent anything.
\<close>

theorem send_much_window:
  assumes "seq_inv a" "c_max_connects c \<le> 0"
  shows "\<exists>b k. send_much c force maxburst a = Some b \<and> seq_inv b \<and> length (sent b) = length (sent a) + k \<and>
    packets_in_flight b = packets_in_flight a + int k \<and>
    packets_in_flight b \<le> max (packets_in_flight a) (max (window a) (min (next_pkts_in_flight a) (packets_in_flight a + 1))) \<and>
    (maxburst \<noteq> 0 \<longrightarrow> int k \<le> max 1 maxburst) \<and>
    (if \<not> force \<and> delsnd_pending a then b = a
     else max (window b) (next_pkts_in_flight b) \<le> packets_in_flight b \<or>
       fst (GetNextRetran (scb b)) = - 1 \<and> curseq b \<le> t_seqno b \<or> maxburst \<noteq> 0 \<and> int k = max 1 maxburst \<or>
       c_overhead c \<and> \<not> force \<and> delsnd_pending b \<and> k = 0)"
proof (cases "\<not> force \<and> delsnd_pending a")
  case True
  then show ?thesis using assms(1) by (intro exI [of _ a] exI [of _ "0 :: nat"]) (simp add: send_much_def max_def)
next
  case False
  let ?a = "a\<lparr>next_pkts_in_flight := min (next_pkts_in_flight a) (packets_in_flight a + 1)\<rparr>"
  have a: "seq_inv ?a" "packets_in_flight ?a = packets_in_flight a" "window ?a = window a" "sent ?a = sent a"
    "next_pkts_in_flight ?a = min (next_pkts_in_flight a) (packets_in_flight a + 1)"
    using assms(1) by (simp_all add: seq_inv_def packets_in_flight_def window_def)
  have eq: "send_much c force maxburst a = send_loop c force maxburst 0 ?a" using False by (auto simp: send_much_def)
  have "c_overhead c \<and> \<not> force \<longrightarrow> \<not> delsnd_pending ?a" "maxburst \<noteq> 0 \<longrightarrow> 0 < max 1 maxburst"
    using False by (auto simp: max_def)
  from send_loop_ok [OF a(1) assms(2) this order_refl, unfolded a(2-5) add_0_left] obtain b k where
    "send_loop c force maxburst 0 ?a = Some b" "seq_inv b" "send_done c force maxburst (int k) b" "length (sent b) = length (sent a) + k"
    "packets_in_flight b = packets_in_flight a + int k" "maxburst \<noteq> 0 \<longrightarrow> int k \<le> max 1 maxburst" "c_overhead c \<and> \<not> force \<longrightarrow> k = 0"
    "packets_in_flight b \<le> max (packets_in_flight a) (max (window a) (min (next_pkts_in_flight a) (packets_in_flight a + 1)))"
    by blast
  then show ?thesis unfolding eq using False by (intro exI [of _ b] exI [of _ k]) (auto simp: send_done_def)
qed

theorem send_much_window_witness:
  "\<exists>b k. send_much sample_conf False 2 (sample_agent ()) = Some b \<and> seq_inv b \<and> length (sent b) = k \<and> k \<le> 2 \<and>
    packets_in_flight b = 4 + int k \<and> packets_in_flight b \<le> 10"
proof -
  have "packets_in_flight (sample_agent ()) = 4" by (simp add: packets_in_flight_def sb_packets_in_flight_def sample_board_def)
  moreover have "c_max_connects sample_conf \<le> 0" by (simp add: sample_conf_def)
  ultimately show ?thesis using send_much_window [OF sample_agent_seq_inv [of "()"], of sample_conf False 2] by auto
qed

end
