(* ===== verification/Agent_Run.thy ===== *)
theory Agent_Run
  imports Linux_Agent Tcp_Scalable Tcp_Vegas Tcp_Westwood Tcp_Lp
begin

text \<open>
  The agent of \<open>Linux_Agent\<close> composed with modules: Reno, Scalable, Vegas, Westwood and TCP-LP, which meet the contract
  \<open>cong_control\<close> for every window and every number of acknowledged segments, satisfy the interface \<open>agent_module\<close> of the
  agent. Every run of the agent with one of them goes on: no assertion of the scoreboard fails, no callback traps, every
  loop ends.
\<close>

text \<open>A timeout of the five modules, initialised or not: the threshold is a function of the window alone.\<close>

lemmas loss_defs = enter_loss_def tcp_ca_event_def tcp_set_ca_state_def touch_cwnd_def null_ops_def sock_ok_def same_seq_def

interpretation reno_agent: agent_module tcp_reno "\<lambda>_ :: 'ca. True" "\<lambda>_ _. True" "\<lambda>_ _. True"
proof (unfold_locales, goal_cases)
  case (5 s e)
  then show ?case by (simp add: tcp_reno_def tcp_reno_ssthresh_def loss_defs)
qed (simp_all add: tcp_reno_def null_ops_def)

interpretation scalable_agent: agent_module tcp_scalable "\<lambda>_ :: 'ca. True" "\<lambda>_ _. True" "\<lambda>_ _. True"
proof (unfold_locales, goal_cases)
  case (5 s e)
  then show ?case by (simp add: tcp_scalable_def tcp_scalable_ssthresh_def loss_defs)
qed (simp_all add: tcp_scalable_def null_ops_def)

interpretation vegas_agent: agent_module "tcp_vegas m" vegas_ok "\<lambda>_ _. True" "\<lambda>_ _. True" for m
proof (unfold_locales, goal_cases)
  case (5 s e)
  then show ?case
    by (simp add: tcp_vegas_def tcp_reno_ssthresh_def tcp_vegas_cwnd_event_def tcp_vegas_state_def vegas_disable_def loss_defs)
qed (auto simp: tcp_vegas_def null_ops_def tcp_vegas_init_def vegas_enable_def sock_ok_def same_seq_def)

interpretation westwood_agent: agent_module tcp_westwood "\<lambda>_. True" "\<lambda>_ _. True" "\<lambda>_ _. True"
proof (unfold_locales, goal_cases)
  case (5 s e)
  then show ?case by (simp add: tcp_westwood_def tcp_reno_ssthresh_def tcp_westwood_event_def loss_defs)
qed (auto simp: tcp_westwood_def null_ops_def tcp_westwood_init_def sock_ok_def same_seq_def)

interpretation lp_agent: agent_module tcp_lp "\<lambda>_. True" "\<lambda>_ _. True" "\<lambda>_ _. True"
proof (unfold_locales, goal_cases)
  case (5 s e)
  then show ?case by (simp add: tcp_lp_def tcp_reno_ssthresh_def loss_defs)
qed (auto simp: tcp_lp_def null_ops_def tcp_lp_init_def sock_ok_def same_seq_def)

section \<open>Concrete agents\<close>

definition start_agent :: "'ca \<Rightarrow> 'ca agent" where
  "start_agent p = (sample_agent p)\<lparr>scb := new_scoreboard, linux_sk := (sample_sock p)\<lparr>snd_una := 0, snd_nxt := 0\<rparr>, initialized := False,
     t_seqno := 0, highest_ack := - 1, maxseq := - 1, recover := 0, last_ack := - 1, t_srtt := 0\<rparr>"

lemma start_agent_start: "agent_start (start_agent p)"
  by (simp add: agent_start_def start_agent_def sock_ok_def srtt_ok_def sample_sock_def)

text \<open>An acknowledgement of everything that was sent, which carries a time stamp.\<close>

definition sample_ack :: "int \<Rightarrow> ack_info" where
  "sample_ack q = \<lparr>ai_seqno = q, ai_sacks = [], ai_ecnecho = False, ai_no_ts = False, ai_rtt_tick = 90, ai_rtt_us = 90000, ai_seq_rtt = 90,
     ai_tsecr = 4910, ai_tsval = 4950, ai_timed_tick = 90, ai_timed_us = 90000, ai_last_ackt = 0\<rparr>"

lemma sample_ack_ok: "0 < t_seqno a \<Longrightarrow> ack_ok_for sample_conf sample_env (sample_ack q) a"
  by (simp add: ack_ok_for_def sample_ack_def sacks_sane_def ackt_ok_def net_invalid_timestamp_def uses_ts_def sample_conf_def)

text \<open>An agent that sent its first segment, and the same agent after its timer expired.\<close>

definition one_out :: "unit agent" where
  "one_out = the (send_much sample_conf False (c_maxburst sample_conf) ((start_agent ())\<lparr>curseq := 1\<rparr>))"

definition one_lost :: "unit agent" where
  "one_lost = the (timeout_rtx sample_conf tcp_reno sample_env one_out)"

lemma one_out_reach: "agent_reach sample_conf tcp_reno one_out"
proof -
  have s: "agent_reach sample_conf tcp_reno (start_agent ())" by (rule agent_reach.start [OF start_agent_start])
  have "send_much sample_conf False (c_maxburst sample_conf) ((start_agent ())\<lparr>curseq := 1\<rparr>) = Some one_out"
    using reno_agent.data_inv [OF reno_agent.reach_inv [OF s sample_conf_ok] sample_conf_ok, of 1] by (auto simp: one_out_def)
  with s show ?thesis by (rule agent_reach.data)
qed

lemma one_lost_reach: "agent_reach sample_conf tcp_reno one_lost"
proof -
  have "timeout_rtx sample_conf tcp_reno sample_env one_out = Some one_lost"
    using reno_agent.timeout_inv [OF reno_agent.reach_inv [OF one_out_reach sample_conf_ok] sample_conf_ok, of sample_env]
    by (auto simp: one_lost_def)
  with one_out_reach show ?thesis by (rule agent_reach.rtx)
qed

lemma one_out_fields: "highest_ack one_out = - 1 \<and> maxseq one_out = 0 \<and> t_seqno one_out = 1 \<and> sent one_out = [0] \<and> \<not> delsnd_pending one_out"
  by code_simp

lemma one_out_board: "sb_nodes (scb one_out) = []"
  by code_simp

lemma one_lost_fields: "highest_ack one_lost = - 1 \<and> t_seqno one_lost = 1 \<and> recover one_lost = 0 \<and> icsk_ca_state (linux_sk one_lost) = TCP_CA_Loss"
  by code_simp

section \<open>What an agent does in a run\<close>

text \<open>
  The reaction to an acknowledgement of something outstanding, outside the open state; the reaction to a timeout with
  something outstanding; the count of what is in flight.
\<close>

definition recovery_exact :: "agent_conf \<Rightarrow> 'ca tcp_congestion_ops \<Rightarrow> 'ca agent \<Rightarrow> bool" where
  "recovery_exact c ops a \<longleftrightarrow>
     (\<forall>e p. ack_ok_for c e p a \<and> icsk_ca_state (linux_sk a) \<noteq> TCP_CA_Open \<and> highest_ack a \<le> ai_seqno p \<and> ai_seqno p < t_seqno a \<longrightarrow>
        (\<exists>b. recv c ops e p a = Some b \<and> agent_reach c ops b \<and> highest_ack b = ai_seqno p \<and>
           (icsk_ca_state (linux_sk b) = TCP_CA_Open \<longleftrightarrow> recover a \<le> ai_seqno p)))"

definition unsacked :: "'ca agent \<Rightarrow> int set" where
  "unsacked a = {highest_ack a + 1 ..< t_seqno a} - segs SKB_FLAG_SACKED (sb_nodes (scb a))"

definition first_unsacked :: "'ca agent \<Rightarrow> int" where
  "first_unsacked a = (if unsacked a = {} then - 1 else Min (unsacked a))"

definition retransmits_first :: "agent_conf \<Rightarrow> 'ca tcp_congestion_ops \<Rightarrow> 'ca agent \<Rightarrow> bool" where
  "retransmits_first c ops a \<longleftrightarrow>
     (highest_ack a \<noteq> maxseq a \<longrightarrow>
        (\<forall>e. \<exists>b. timeout_rtx c ops e a = Some b \<and> agent_reach c ops b \<and> icsk_ca_state (linux_sk b) = TCP_CA_Loss \<and>
           window b = 1 \<and> recover b = maxseq a \<and>
           (if c_overhead c \<or> delsnd_pending a then sent b = sent a \<and> packets_in_flight b = 0 \<and> delsnd_pending b
            else sent b = next_segment a (first_unsacked a) @ sent a \<and>
              packets_in_flight b = int (length (next_segment a (first_unsacked a))))))"

definition in_flight_exact :: "'ca agent \<Rightarrow> bool" where
  "in_flight_exact a \<longleftrightarrow> packets_in_flight a = int (card (unsacked a - segs SKB_FLAG_LOST (sb_nodes (scb a))))"

context agent_module
begin

lemma reach_recovery:
  assumes "agent_reach c ops a" "conf_ok c"
  shows "recovery_exact c ops a"
  unfolding recovery_exact_def
proof (intro allI impI, elim conjE)
  fix e p
  assume p: "ack_ok_for c e p a" "icsk_ca_state (linux_sk a) \<noteq> TCP_CA_Open" "highest_ack a \<le> ai_seqno p" "ai_seqno p < t_seqno a"
  from recv_inv [OF reach_inv [OF assms] assms(2) p(1)] p(2-) agent_reach.ack [OF assms(1) p(1)]
  show "\<exists>b. recv c ops e p a = Some b \<and> agent_reach c ops b \<and> highest_ack b = ai_seqno p \<and>
      (icsk_ca_state (linux_sk b) = TCP_CA_Open \<longleftrightarrow> recover a \<le> ai_seqno p)" by blast
qed

lemma reach_retransmits:
  assumes "agent_reach c ops a" "conf_ok c"
  shows "retransmits_first c ops a"
  unfolding retransmits_first_def
proof (intro allI impI)
  fix e
  assume "highest_ack a \<noteq> maxseq a"
  from timeout_first [OF reach_inv [OF assms] assms(2) this, of e, folded unsacked_def, folded first_unsacked_def]
    agent_reach.rtx [OF assms(1)]
  show "\<exists>b. timeout_rtx c ops e a = Some b \<and> agent_reach c ops b \<and> icsk_ca_state (linux_sk b) = TCP_CA_Loss \<and>
      window b = 1 \<and> recover b = maxseq a \<and>
      (if c_overhead c \<or> delsnd_pending a then sent b = sent a \<and> packets_in_flight b = 0 \<and> delsnd_pending b
       else sent b = next_segment a (first_unsacked a) @ sent a \<and>
         packets_in_flight b = int (length (next_segment a (first_unsacked a))))" by blast
qed

lemma reach_in_flight: "agent_reach c ops a \<Longrightarrow> conf_ok c \<Longrightarrow> in_flight_exact a"
  using reach_inv [of c a] seq_inv_in_flight [of a] by (simp add: in_flight_exact_def unsacked_def agent_inv_def)

end

section \<open>Properties\<close>

text \<open>
  \<^bold>\<open>C1\<close> In every run of the agent with Reno, Scalable, Vegas, Westwood or TCP-LP that is made of new data, acknowledgements
  and retransmission timeouts, at any time (before the first acknowledgement too), the processing of each ends without a trap
  or a failed assertion, and the invariant of the agent holds: the scoreboard is well formed and inside what is outstanding,
  the byte counters of the socket agree with the sequence numbers, the window is positive and the threshold at least two.
  The acknowledgements are those of \<open>ack_ok_for\<close>: they arrive after something was sent; of at most four SACK blocks none is
  empty, none ends beyond what was sent, none starts at the acknowledged segment itself (a D-SACK block can, and \<open>Scoreboard1\<close>
  shows what happens then; the sink sends them only when told to), and their right edges are in the order of the left ones; the measured
  times are below 32768 ticks and the age of the newest acknowledged segment is in range; the first one carries a time stamp. The configuration is that of \<open>conf_ok\<close>: the default
  gain of the round trip estimator, a positive burst bound and initial window, windows below 2 to the 31, no limit on
  connection attempts.
\<close>

theorem agent_run_safe:
  assumes "conf_ok c"
  shows "(agent_reach c tcp_reno a \<longrightarrow> agent_safe c tcp_reno (\<lambda>_. True) a) \<and>
    (agent_reach c tcp_scalable s \<longrightarrow> agent_safe c tcp_scalable (\<lambda>_. True) s) \<and>
    (agent_reach c (tcp_vegas m) v \<longrightarrow> agent_safe c (tcp_vegas m) vegas_ok v) \<and>
    (agent_reach c tcp_westwood w \<longrightarrow> agent_safe c tcp_westwood (\<lambda>_. True) w) \<and>
    (agent_reach c tcp_lp l \<longrightarrow> agent_safe c tcp_lp (\<lambda>_. True) l)"
  using assms reno_agent.reach_agent_safe scalable_agent.reach_agent_safe vegas_agent.reach_agent_safe
    westwood_agent.reach_agent_safe lp_agent.reach_agent_safe by blast

theorem agent_run_safe_witness:
  "\<forall>v w l. agent_safe sample_conf tcp_reno (\<lambda>_. True) (start_agent ()) \<and> agent_safe sample_conf tcp_scalable (\<lambda>_. True) (start_agent ()) \<and>
     agent_safe sample_conf (tcp_vegas vegas_defaults) vegas_ok (start_agent v) \<and>
     agent_safe sample_conf tcp_westwood (\<lambda>_. True) (start_agent w) \<and> agent_safe sample_conf tcp_lp (\<lambda>_. True) (start_agent l)"
proof (intro allI)
  fix v w l
  show "agent_safe sample_conf tcp_reno (\<lambda>_. True) (start_agent ()) \<and> agent_safe sample_conf tcp_scalable (\<lambda>_. True) (start_agent ()) \<and>
     agent_safe sample_conf (tcp_vegas vegas_defaults) vegas_ok (start_agent v) \<and>
     agent_safe sample_conf tcp_westwood (\<lambda>_. True) (start_agent w) \<and> agent_safe sample_conf tcp_lp (\<lambda>_. True) (start_agent l)"
    using agent_run_safe [OF sample_conf_ok, of "start_agent ()" "start_agent ()" vegas_defaults "start_agent v" "start_agent w" "start_agent l"]
    by (simp only: agent_reach.start [OF start_agent_start] simp_thms)
qed

text \<open>
  \<^bold>\<open>C15\<close> Recovery ends exactly at the recovery point, in every run of the agent with one of the five modules: outside the open
  state (in recovery or after a timeout), an acceptable acknowledgement of something outstanding, as in \<open>ack_ok_for\<close>, returns the
  agent to the open state if and only if it covers everything that was outstanding when that state was entered; an
  acknowledgement of less does not.
\<close>

theorem recovery_ends:
  assumes "conf_ok c"
  shows "(agent_reach c tcp_reno a \<longrightarrow> recovery_exact c tcp_reno a) \<and> (agent_reach c tcp_scalable s \<longrightarrow> recovery_exact c tcp_scalable s) \<and>
    (agent_reach c (tcp_vegas m) v \<longrightarrow> recovery_exact c (tcp_vegas m) v) \<and>
    (agent_reach c tcp_westwood w \<longrightarrow> recovery_exact c tcp_westwood w) \<and> (agent_reach c tcp_lp l \<longrightarrow> recovery_exact c tcp_lp l)"
  using assms reno_agent.reach_recovery scalable_agent.reach_recovery vegas_agent.reach_recovery westwood_agent.reach_recovery
    lp_agent.reach_recovery by blast

theorem recovery_ends_witness:
  "agent_reach sample_conf tcp_reno one_lost \<and> icsk_ca_state (linux_sk one_lost) = TCP_CA_Loss \<and>
    (\<exists>b. recv sample_conf tcp_reno sample_env (sample_ack 0) one_lost = Some b \<and> icsk_ca_state (linux_sk b) = TCP_CA_Open \<and> highest_ack b = 0)"
proof -
  have r: "recovery_exact sample_conf tcp_reno one_lost" using recovery_ends [OF sample_conf_ok] one_lost_reach by blast
  have "ack_ok_for sample_conf sample_env (sample_ack 0) one_lost" by (rule sample_ack_ok) (simp add: one_lost_fields)
  moreover have "ai_seqno (sample_ack 0) = 0" by (simp add: sample_ack_def)
  ultimately show ?thesis
    using r [unfolded recovery_exact_def, rule_format, of sample_env "sample_ack 0"] one_lost_reach one_lost_fields by auto
qed

text \<open>
  \<^bold>\<open>C16\<close> After a retransmission timeout with something outstanding, in every run of the agent with one of the five modules, the
  agent is in the loss state with a window of one segment and the recovery point at the last segment sent. Without overhead
  and without a delayed send pending it sends exactly one segment: the first one that is outstanding and not sacked, or, if
  all of them are sacked, a new one if the application has one (else none), and this is all that is in flight. With overhead or a delayed
  send pending it sends nothing, and the delayed-send timer is pending.
\<close>

theorem timeout_retransmits_first:
  assumes "conf_ok c"
  shows "(agent_reach c tcp_reno a \<longrightarrow> retransmits_first c tcp_reno a) \<and> (agent_reach c tcp_scalable s \<longrightarrow> retransmits_first c tcp_scalable s) \<and>
    (agent_reach c (tcp_vegas m) v \<longrightarrow> retransmits_first c (tcp_vegas m) v) \<and>
    (agent_reach c tcp_westwood w \<longrightarrow> retransmits_first c tcp_westwood w) \<and> (agent_reach c tcp_lp l \<longrightarrow> retransmits_first c tcp_lp l)"
  using assms reno_agent.reach_retransmits scalable_agent.reach_retransmits vegas_agent.reach_retransmits westwood_agent.reach_retransmits
    lp_agent.reach_retransmits by blast

theorem timeout_retransmits_first_witness:
  "agent_reach sample_conf tcp_reno one_out \<and>
    (\<exists>b. timeout_rtx sample_conf tcp_reno sample_env one_out = Some b \<and> sent b = [0, 0] \<and> packets_in_flight b = 1)"
proof -
  have r: "retransmits_first sample_conf tcp_reno one_out" using timeout_retransmits_first [OF sample_conf_ok] one_out_reach by blast
  have "unsacked one_out = {0}" by (auto simp: unsacked_def one_out_fields one_out_board)
  then have "next_segment one_out (first_unsacked one_out) = [0]" by (simp add: first_unsacked_def next_segment_def)
  moreover have "\<not> c_overhead sample_conf" by (simp add: sample_conf_def)
  ultimately show ?thesis using r one_out_reach one_out_fields by (fastforce simp: retransmits_first_def)
qed

text \<open>
  \<^bold>\<open>C27\<close> In every run of the agent with one of the five modules, what it computes from its counters as in flight is the number
  of outstanding segments that are neither sacked nor lost.
\<close>

theorem agent_in_flight:
  assumes "conf_ok c"
  shows "(agent_reach c tcp_reno a \<longrightarrow> in_flight_exact a) \<and> (agent_reach c tcp_scalable s \<longrightarrow> in_flight_exact s) \<and>
    (agent_reach c (tcp_vegas m) v \<longrightarrow> in_flight_exact v) \<and> (agent_reach c tcp_westwood w \<longrightarrow> in_flight_exact w) \<and>
    (agent_reach c tcp_lp l \<longrightarrow> in_flight_exact l)"
  using assms reno_agent.reach_in_flight scalable_agent.reach_in_flight vegas_agent.reach_in_flight westwood_agent.reach_in_flight
    lp_agent.reach_in_flight by blast

theorem agent_in_flight_witness: "packets_in_flight one_out = 1"
proof -
  have "in_flight_exact one_out" using agent_in_flight [OF sample_conf_ok] one_out_reach by blast
  moreover have "unsacked one_out = {0}" by (auto simp: unsacked_def one_out_fields one_out_board)
  ultimately show ?thesis by (simp add: in_flight_exact_def one_out_board)
qed

end
