(* ===== verification/Event_Queue.thy ===== *)
theory Event_Queue
  imports Linux_Prelude
begin

text \<open>
  \<^verbatim>\<open>src/ns-2.34/common/scheduler.h\<close>: events and the interface of the event queues. An event is known by its address; its
  time, its unique identifier and its handler are in a store. The links between events belong to the queue that uses them.
  Times are compared only, so that any linear order can be the type of times (the \<^verbatim>\<open>double\<close>s of the code, which are
  never NaN there, are one). The virtual methods of the class \<^verbatim>\<open>Scheduler\<close> are a record of functions, the contract that
  every implementation has to meet is the locale \<open>event_queue\<close>.
\<close>

section \<open>Events\<close>

type_synonym event_ptr = nat

record 't event =
  ev_time :: 't
  ev_uid :: int
  ev_handler :: nat

type_synonym 't events = "event_ptr \<Rightarrow> 't event"

text \<open>The order in which events are due: by time, in the order of their scheduling when the times are equal.\<close>

definition before :: "'t::linorder events \<Rightarrow> event_ptr \<Rightarrow> event_ptr \<Rightarrow> bool" where
  "before ev x y \<longleftrightarrow> ev_time (ev x) < ev_time (ev y) \<or> ev_time (ev x) = ev_time (ev y) \<and> ev_uid (ev x) < ev_uid (ev y)"

lemma before_irrefl [simp]: "\<not> before ev x x"
  by (simp add: before_def)

lemma before_trans: "before ev x y \<Longrightarrow> before ev y z \<Longrightarrow> before ev x z"
  by (auto simp: before_def)

lemma before_asym: "before ev x y \<Longrightarrow> \<not> before ev y x"
  by (auto simp: before_def)

lemma before_total: "ev_uid (ev x) \<noteq> ev_uid (ev y) \<Longrightarrow> before ev x y \<or> before ev y x"
  by (auto simp: before_def)

lemma before_cong: "ev' x = ev x \<Longrightarrow> ev' y = ev y \<Longrightarrow> before ev' x y = before ev x y"
  by (simp add: before_def)

section \<open>Agendas\<close>

text \<open>
  The abstract queue: the pending events in the order in which they are due. \<open>n\<close> bounds the identifiers handed out so far.
\<close>

definition agenda :: "'t::linorder events \<Rightarrow> int \<Rightarrow> event_ptr list \<Rightarrow> bool" where
  "agenda ev n xs \<longleftrightarrow> 0 \<notin> set xs \<and> (\<forall>x \<in> set xs. 0 < ev_uid (ev x) \<and> ev_uid (ev x) < n) \<and> inj_on (\<lambda>x. ev_uid (ev x)) (set xs) \<and>
     sorted_wrt (before ev) xs"

definition agenda_insert :: "'t::linorder events \<Rightarrow> event_ptr \<Rightarrow> event_ptr list \<Rightarrow> event_ptr list" where
  "agenda_insert ev e xs =
     takeWhile (\<lambda>x. ev_time (ev x) \<le> ev_time (ev e)) xs @ e # dropWhile (\<lambda>x. ev_time (ev x) \<le> ev_time (ev e)) xs"

definition agenda_find :: "'t events \<Rightarrow> int \<Rightarrow> event_ptr list \<Rightarrow> event_ptr" where
  "agenda_find ev u xs = (case List.find (\<lambda>x. ev_uid (ev x) = u) xs of None \<Rightarrow> 0 | Some x \<Rightarrow> x)"

lemma sorted_before_distinct: "sorted_wrt (before ev) xs \<Longrightarrow> distinct xs"
  by (induction xs) auto

lemma agenda_distinct: "agenda ev n xs \<Longrightarrow> distinct xs"
  unfolding agenda_def by (blast intro: sorted_before_distinct)

lemma agenda_Nil [simp]: "agenda ev n []"
  by (simp add: agenda_def)

lemma agenda_tl: "agenda ev n (x # xs) \<Longrightarrow> agenda ev n xs"
  by (simp add: agenda_def inj_on_def)

lemma sorted_before_cong: "(\<And>x. x \<in> set xs \<Longrightarrow> ev' x = ev x) \<Longrightarrow> sorted_wrt (before ev') xs = sorted_wrt (before ev) xs"
  by (induction xs) (simp_all add: before_def)

lemma agenda_frame: "agenda ev n xs \<Longrightarrow> (\<And>x. x \<in> set xs \<Longrightarrow> ev' x = ev x) \<Longrightarrow> n \<le> m \<Longrightarrow> agenda ev' m xs"
  using sorted_before_cong [of xs ev' ev] inj_on_cong [of "set xs" "\<lambda>x. ev_uid (ev x)" "\<lambda>x. ev_uid (ev' x)"]
  by (force simp: agenda_def)

lemma sorted_wrt_remove1: "sorted_wrt R xs \<Longrightarrow> sorted_wrt R (remove1 x xs)"
  by (induction xs) (auto dest: in_set_takeD notin_set_remove1)

lemma agenda_remove1: "agenda ev n xs \<Longrightarrow> agenda ev n (remove1 x xs)"
  using set_remove1_subset [of x xs] sorted_wrt_remove1 [of "before ev" xs x] inj_on_subset
  by (fastforce simp: agenda_def)

lemma set_agenda_insert [simp]: "set (agenda_insert ev e xs) = insert e (set xs)"
  using set_append [of "takeWhile (\<lambda>x. ev_time (ev x) \<le> ev_time (ev e)) xs" "dropWhile (\<lambda>x. ev_time (ev x) \<le> ev_time (ev e)) xs"]
  by (auto simp: agenda_insert_def)

lemma sorted_before_times: "sorted_wrt (before ev) xs \<Longrightarrow> sorted (map (\<lambda>x. ev_time (ev x)) xs)"
  by (induction xs) (auto simp: before_def)

lemma dropWhile_times:
  assumes "sorted_wrt (before ev) xs" "x \<in> set (dropWhile (\<lambda>x. ev_time (ev x) \<le> t) xs)"
  shows "t < ev_time (ev x)"
  using assms by (induction xs) (auto simp: before_def split: if_splits)

lemma agenda_insert_agenda:
  assumes "agenda ev n xs" "e \<noteq> 0" "n \<le> ev_uid (ev e)" "0 < ev_uid (ev e)"
  shows "agenda ev (ev_uid (ev e) + 1) (agenda_insert ev e xs)"
proof -
  let ?P = "\<lambda>x. ev_time (ev x) \<le> ev_time (ev e)"
  let ?t = "takeWhile ?P xs" and ?d = "dropWhile ?P xs"
  have s: "sorted_wrt (before ev) (?t @ ?d)" and u: "\<forall>x \<in> set xs. 0 < ev_uid (ev x) \<and> ev_uid (ev x) < n" and z: "0 \<notin> set xs"
    using assms(1) by (auto simp: agenda_def)
  have "before ev x e" if "x \<in> set ?t" for x
    using set_takeWhileD [OF that] u assms(3) by (force simp: before_def)
  moreover have "before ev e x" if "x \<in> set ?d" for x
    using dropWhile_times [OF _ that] s by (simp add: before_def)
  ultimately have "sorted_wrt (before ev) (agenda_insert ev e xs)"
    using s unfolding agenda_insert_def by (auto simp: sorted_wrt_append simp del: takeWhile_dropWhile_id intro: before_trans)
  moreover have "inj_on (\<lambda>x. ev_uid (ev x)) (insert e (set xs))"
    using assms(1,3) u by (force simp: agenda_def inj_on_def)
  ultimately show ?thesis using u z assms(2-4) by (fastforce simp: agenda_def)
qed

lemma length_agenda_insert: "length (agenda_insert ev e xs) = length xs + 1"
  by (induction xs) (simp_all add: agenda_insert_def)

text \<open>An agenda is determined by its events.\<close>

lemma agenda_hd: "agenda ev n (x # xs) \<Longrightarrow> y \<in> set (x # xs) \<Longrightarrow> \<not> before ev y x"
  using before_asym by (auto simp: agenda_def)

lemma sorted_before_unique:
  "sorted_wrt (before ev) xs \<Longrightarrow> sorted_wrt (before ev) ys \<Longrightarrow> set xs = set ys \<Longrightarrow> xs = ys"
proof (induction xs arbitrary: ys)
  case (Cons x xs)
  then obtain y ys' where ys: "ys = y # ys'" by (cases ys) auto
  have "x = y"
  proof (rule ccontr)
    assume "x \<noteq> y"
    then have "before ev x y" "before ev y x" using Cons.prems ys by auto
    then show False using before_asym by blast
  qed
  moreover have "set xs = set ys'"
    using Cons.prems ys \<open>x = y\<close> sorted_before_distinct [OF Cons.prems(1)] sorted_before_distinct [OF Cons.prems(2)]
    by (auto simp: insert_ident)
  ultimately show ?case using Cons ys by auto
qed simp

text \<open>Identifiers are unique: the event of the queue that has the identifier is the one found.\<close>

lemma agenda_find_none: "(\<And>x. x \<in> set xs \<Longrightarrow> ev_uid (ev x) \<noteq> u) \<Longrightarrow> agenda_find ev u xs = 0"
  using find_None_iff [of "\<lambda>x. ev_uid (ev x) = u" xs] by (auto simp: agenda_find_def)

lemma agenda_find_some:
  assumes "agenda ev n xs" "x \<in> set xs" "ev_uid (ev x) = u"
  shows "agenda_find ev u xs = x"
proof -
  obtain y where y: "List.find (\<lambda>x. ev_uid (ev x) = u) xs = Some y"
    using assms(2,3) by (cases "List.find (\<lambda>x. ev_uid (ev x) = u) xs") (auto simp: find_None_iff)
  then have "y \<in> set xs" "ev_uid (ev y) = u" by (auto simp: find_Some_iff)
  then have "y = x" using assms by (auto simp: agenda_def inj_on_def)
  then show ?thesis using y by (simp add: agenda_find_def)
qed

abbreviation (input) ev_times :: "'t events \<Rightarrow> event_ptr list \<Rightarrow> 't list" where
  "ev_times ev xs \<equiv> map (\<lambda>x. ev_time (ev x)) xs"

lemma filter_late:
  assumes "sorted (ev_times ev (xs @ y # ys))" "time < ev_time (ev y)"
  shows "filter (\<lambda>x. ev_time (ev x) \<le> time) (xs @ y # ys) = filter (\<lambda>x. ev_time (ev x) \<le> time) xs"
    "filter (\<lambda>x. \<not> ev_time (ev x) \<le> time) (xs @ y # ys) = filter (\<lambda>x. \<not> ev_time (ev x) \<le> time) xs @ y # ys"
proof -
  have "\<not> ev_time (ev z) \<le> time" if "z \<in> set ys" for z using assms that by (force simp: sorted_append)
  then show "filter (\<lambda>x. ev_time (ev x) \<le> time) (xs @ y # ys) = filter (\<lambda>x. ev_time (ev x) \<le> time) xs"
    "filter (\<lambda>x. \<not> ev_time (ev x) \<le> time) (xs @ y # ys) = filter (\<lambda>x. \<not> ev_time (ev x) \<le> time) xs @ y # ys"
    using assms(2) by (auto simp: filter_id_conv filter_empty_conv)
qed

lemma sorted_take_filter: "sorted (ev_times ev xs) \<Longrightarrow> takeWhile (\<lambda>x. ev_time (ev x) \<le> time) xs = filter (\<lambda>x. ev_time (ev x) \<le> time) xs \<and>
    dropWhile (\<lambda>x. ev_time (ev x) \<le> time) xs = filter (\<lambda>x. \<not> ev_time (ev x) \<le> time) xs"
proof (induction xs)
  case (Cons x xs)
  then show ?case using filter_late [of ev "[]" x xs time] by auto
qed simp

section \<open>The interface of the queues\<close>

text \<open>
  The virtual methods of \<^verbatim>\<open>Scheduler\<close> that an event queue implements; \<^const>\<open>None\<close> when the method aborts or does not
  return, the null pointer is \<open>0\<close>. \<open>head\<close> and \<open>lookup\<close> may reorganise the queue.
\<close>

record ('t, 'q) sched_ops =
  sq_insert :: "'t events \<Rightarrow> event_ptr \<Rightarrow> 'q \<Rightarrow> 'q exec"
  sq_cancel :: "event_ptr \<Rightarrow> 't events \<times> 'q \<Rightarrow> ('t events \<times> 'q) exec"
  sq_lookup :: "'t events \<Rightarrow> int \<Rightarrow> 'q \<Rightarrow> (event_ptr \<times> 'q) exec"
  sq_head :: "'t events \<Rightarrow> 'q \<Rightarrow> (event_ptr \<times> 'q) exec"
  sq_deque :: "'t events \<Rightarrow> 'q \<Rightarrow> (event_ptr \<times> 'q) exec"

definition negate_uid :: "event_ptr \<Rightarrow> 't events \<Rightarrow> 't events" where
  "negate_uid e ev = ev(e := (ev e)\<lparr>ev_uid := - ev_uid (ev e)\<rparr>)"

lemma negate_uid_apply: "negate_uid e ev x = (if x = e then (ev e)\<lparr>ev_uid := - ev_uid (ev e)\<rparr> else ev x)"
  by (simp add: negate_uid_def)

lemma agenda_cancel:
  assumes "agenda ev n xs" "e \<in> set xs"
  shows "0 < ev_uid (ev e)" "agenda (negate_uid e ev) n (remove1 e xs)"
proof -
  show "0 < ev_uid (ev e)" using assms by (simp add: agenda_def)
  have "x \<noteq> e" if "x \<in> set (remove1 e xs)" for x using that agenda_distinct [OF assms(1)] by auto
  then show "agenda (negate_uid e ev) n (remove1 e xs)"
    by (intro agenda_frame [OF agenda_remove1 [OF assms(1)]]) (auto simp: negate_uid_apply)
qed

definition agenda_head :: "event_ptr list \<Rightarrow> event_ptr" where
  "agenda_head xs = (case xs of [] \<Rightarrow> 0 | x # _ \<Rightarrow> x)"

lemma agenda_head_simps [simp]: "agenda_head [] = 0" "agenda_head (x # xs) = x"
  by (simp_all add: agenda_head_def)

text \<open>
  The contract. \<open>rep ev n q xs\<close>: the queue \<open>q\<close> holds the events \<open>xs\<close>, in the order in which they are due, all with
  identifiers below \<open>n\<close>. The queue works for identifiers below \<open>lim\<close> and times for which \<open>t_ok\<close> holds.
\<close>

locale event_queue =
  fixes ops :: "('t::linorder, 'q) sched_ops"
    and q_empty :: 'q
    and lim :: int
    and t_ok :: "'t \<Rightarrow> bool"
    and rep :: "'t events \<Rightarrow> int \<Rightarrow> 'q \<Rightarrow> event_ptr list \<Rightarrow> bool"
  assumes rep_empty: "rep ev 1 q_empty []"
    and t_ok_mono: "t_ok t \<Longrightarrow> t \<le> t' \<Longrightarrow> t_ok t'"
    and rep_agenda: "rep ev n q xs \<Longrightarrow> agenda ev n xs"
    and rep_frame: "rep ev n q xs \<Longrightarrow> (\<And>x. x \<in> set xs \<Longrightarrow> ev' x = ev x) \<Longrightarrow> n \<le> m \<Longrightarrow> rep ev' m q xs"
    and insert_law: "rep ev n q xs \<Longrightarrow> 0 < n \<Longrightarrow> e \<noteq> 0 \<Longrightarrow> e \<notin> set xs \<Longrightarrow> n \<le> ev_uid (ev e) \<Longrightarrow> ev_uid (ev e) < lim \<Longrightarrow>
      t_ok (ev_time (ev e)) \<Longrightarrow> \<exists>q'. sq_insert ops ev e q = Some q' \<and> rep ev (ev_uid (ev e) + 1) q' (agenda_insert ev e xs)"
    and cancel_law: "rep ev n q xs \<Longrightarrow> e \<in> set xs \<Longrightarrow>
      \<exists>q'. sq_cancel ops e (ev, q) = Some (negate_uid e ev, q') \<and> rep (negate_uid e ev) n q' (remove1 e xs)"
    and cancel_idle: "ev_uid (ev e) \<le> 0 \<Longrightarrow> sq_cancel ops e (ev, q) = Some (ev, q)"
    and lookup_law: "rep ev n q xs \<Longrightarrow> \<exists>q'. sq_lookup ops ev u q = Some (agenda_find ev u xs, q') \<and> rep ev n q' xs"
    and head_law: "rep ev n q xs \<Longrightarrow> \<exists>q'. sq_head ops ev q = Some (agenda_head xs, q') \<and> rep ev n q' xs"
    and deque_law: "rep ev n q xs \<Longrightarrow> \<exists>q'. sq_deque ops ev q = Some (agenda_head xs, q') \<and> rep ev n q' (tl xs)"

end
