(* ===== verification/Sim_Scheduler.thy ===== *)
theory Sim_Scheduler
  imports Event_Queue
begin

text \<open>
  The class \<^verbatim>\<open>Scheduler\<close> of \<^verbatim>\<open>src/ns-2.34/common/scheduler.cc\<close> on an event queue: \<open>schedule\<close>, \<open>dispatch\<close> and the loop of \<open>run\<close>.
  The methods of the queue are called through the record of \<open>Event_Queue\<close>. The handlers are code of the simulated network:
  a handler is a function that changes a world and makes calls to the scheduler. The floating-point addition of a delay is
  a function \<open>dadd\<close>.
\<close>

section \<open>The simulator\<close>

record ('t, 'q) simulator =
  s_clock :: 't
  s_uid :: int
  s_halted :: bool
  s_events :: "'t events"
  s_queue :: 'q

text \<open>\<^verbatim>\<open>scheduler_uid_t\<close> is a signed 64-bit integer. Null handlers and events that are pending abort; a null event is a null
  dereference.\<close>

definition schedule ::
  "('t, 'q) sched_ops \<Rightarrow> ('t \<Rightarrow> 't \<Rightarrow> 't) \<Rightarrow> nat \<Rightarrow> event_ptr \<Rightarrow> 't \<Rightarrow> ('t, 'q) simulator \<Rightarrow> ('t, 'q) simulator exec" where
  "schedule ops dadd h e delay s =
     (if h = 0 then None
      else if e = 0 then None
      else if ev_uid (s_events s e) > 0 then None
      else if s_uid s < 0 then None
      else do {
        let ev = (s_events s)(e := \<lparr>ev_time = dadd (s_clock s) delay, ev_uid = s_uid s, ev_handler = h\<rparr>);
        q \<leftarrow> sq_insert ops ev e (s_queue s);
        Some (s\<lparr>s_uid := signed_take_bit 63 (s_uid s + 1), s_events := ev, s_queue := q\<rparr>)
      })"

definition cancel :: "('t, 'q) sched_ops \<Rightarrow> event_ptr \<Rightarrow> ('t, 'q) simulator \<Rightarrow> ('t, 'q) simulator exec" where
  "cancel ops e s = do {
     (ev, q) \<leftarrow> sq_cancel ops e (s_events s, s_queue s);
     Some (s\<lparr>s_events := ev, s_queue := q\<rparr>)
   }"

definition next_event :: "('t, 'q) sched_ops \<Rightarrow> ('t, 'q) simulator \<Rightarrow> (event_ptr \<times> ('t, 'q) simulator) exec" where
  "next_event ops s = do { (p, q) \<leftarrow> sq_deque ops (s_events s) (s_queue s); Some (p, s\<lparr>s_queue := q\<rparr>) }"

text \<open>\<open>dispatch\<close> up to the call of the handler.\<close>

definition set_clock :: "event_ptr \<Rightarrow> 't::linorder \<Rightarrow> ('t, 'q) simulator \<Rightarrow> ('t, 'q) simulator exec" where
  "set_clock p t s =
     (if t < s_clock s then None
      else Some (s\<lparr>s_clock := t, s_events := negate_uid p (s_events s)\<rparr>))"

datatype 't sched_call = Schedule nat event_ptr 't | Cancel event_ptr | Halt

fun do_call :: "('t, 'q) sched_ops \<Rightarrow> ('t \<Rightarrow> 't \<Rightarrow> 't) \<Rightarrow> 't sched_call \<Rightarrow> ('t, 'q) simulator \<Rightarrow> ('t, 'q) simulator exec" where
  "do_call ops dadd (Schedule h e delay) s = schedule ops dadd h e delay s"
| "do_call ops dadd (Cancel e) s = cancel ops e s"
| "do_call ops dadd Halt s = Some (s\<lparr>s_halted := True\<rparr>)"

fun do_calls :: "('t, 'q) sched_ops \<Rightarrow> ('t \<Rightarrow> 't \<Rightarrow> 't) \<Rightarrow> 't sched_call list \<Rightarrow> ('t, 'q) simulator \<Rightarrow> ('t, 'q) simulator exec" where
  "do_calls ops dadd [] s = Some s"
| "do_calls ops dadd (c # cs) s = do { s \<leftarrow> do_call ops dadd c s; do_calls ops dadd cs s }"

type_synonym ('t, 'w) handlers = "nat \<Rightarrow> event_ptr \<Rightarrow> 't \<Rightarrow> 'w \<Rightarrow> 'w \<times> 't sched_call list"

definition dispatch ::
  "('t::linorder, 'q) sched_ops \<Rightarrow> ('t \<Rightarrow> 't \<Rightarrow> 't) \<Rightarrow> ('t, 'w) handlers \<Rightarrow> event_ptr \<Rightarrow> 't \<Rightarrow> ('t, 'q) simulator \<times> 'w \<Rightarrow>
   (('t, 'q) simulator \<times> 'w) exec" where
  "dispatch ops dadd handle p t = (\<lambda>(s, w). do {
     s \<leftarrow> set_clock p t s;
     let (w, cs) = handle (ev_handler (s_events s p)) p t w;
     s \<leftarrow> do_calls ops dadd cs s;
     Some (s, w)
   })"

text \<open>
  One round of the loop of \<open>run\<close>: \<^const>\<open>Inl\<close> when the loop ends, \<^const>\<open>Inr\<close> after a dispatch. Then the loop, and its first \<open>n\<close>
  rounds, for simulations that do not end.
\<close>

type_synonym ('t, 'q, 'w) sim_state = "('t, 'q) simulator \<times> 'w"

definition sched_round ::
  "('t::linorder, 'q) sched_ops \<Rightarrow> ('t \<Rightarrow> 't \<Rightarrow> 't) \<Rightarrow> ('t, 'w) handlers \<Rightarrow> ('t, 'q, 'w) sim_state \<Rightarrow>
   (('t, 'q, 'w) sim_state + ('t, 'q, 'w) sim_state) exec" where
  "sched_round ops dadd handle = (\<lambda>(s, w).
     if s_halted s then Some (Inl (s, w))
     else do {
       (p, s) \<leftarrow> next_event ops s;
       if p = 0 then Some (Inl (s, w))
       else do { sw \<leftarrow> dispatch ops dadd handle p (ev_time (s_events s p)) (s, w); Some (Inr sw) }
     })"

partial_function (option) sched_run ::
  "('t::linorder, 'q) sched_ops \<Rightarrow> ('t \<Rightarrow> 't \<Rightarrow> 't) \<Rightarrow> ('t, 'w) handlers \<Rightarrow> ('t, 'q, 'w) sim_state \<Rightarrow> ('t, 'q, 'w) sim_state exec" where
  "sched_run ops dadd handle sw = do {
     r \<leftarrow> sched_round ops dadd handle sw;
     if isl r then Some (projl r) else sched_run ops dadd handle (projr r)
   }"

declare sched_run.simps [code]

primrec sched_rounds ::
  "nat \<Rightarrow> ('t::linorder, 'q) sched_ops \<Rightarrow> ('t \<Rightarrow> 't \<Rightarrow> 't) \<Rightarrow> ('t, 'w) handlers \<Rightarrow> ('t, 'q, 'w) sim_state \<Rightarrow>
   (('t, 'q, 'w) sim_state + ('t, 'q, 'w) sim_state) exec" where
  "sched_rounds 0 ops dadd handle sw = Some (Inr sw)"
| "sched_rounds (Suc n) ops dadd handle sw = do {
     r \<leftarrow> sched_round ops dadd handle sw;
     if isl r then Some r else sched_rounds n ops dadd handle (projr r)
   }"

lemma run_rounds: "sched_run ops dadd handle sw = Some sw' \<longleftrightarrow> (\<exists>n. sched_rounds n ops dadd handle sw = Some (Inl sw'))"
proof
  assume run: "sched_run ops dadd handle sw = Some sw'"
  show "\<exists>n. sched_rounds n ops dadd handle sw = Some (Inl sw')"
  proof (rule sched_run.raw_induct [where P = "\<lambda>ops dadd handle sw sw'. \<exists>n. sched_rounds n ops dadd handle sw = Some (Inl sw')", OF _ run])
    fix f :: "('a, 'b) sched_ops \<Rightarrow> ('a \<Rightarrow> 'a \<Rightarrow> 'a) \<Rightarrow> ('a, 'c) handlers \<Rightarrow> ('a, 'b, 'c) sim_state \<Rightarrow> ('a, 'b, 'c) sim_state option"
      and ops dadd handle sw sw'
    assume IH: "\<And>ops dadd handle sw sw'. f ops dadd handle sw = Some sw' \<Longrightarrow> \<exists>n. sched_rounds n ops dadd handle sw = Some (Inl sw')"
      and eq: "do { r \<leftarrow> sched_round ops dadd handle sw; if isl r then Some (projl r) else f ops dadd handle (projr r) } = Some sw'"
    then obtain r where r: "sched_round ops dadd handle sw = Some r" "if isl r then sw' = projl r else f ops dadd handle (projr r) = Some sw'"
      by (auto split: Option.bind_splits if_splits)
    show "\<exists>n. sched_rounds n ops dadd handle sw = Some (Inl sw')"
    proof (cases "isl r")
      case True
      then have "sched_rounds (Suc 0) ops dadd handle sw = Some (Inl sw')" using r by auto
      then show ?thesis ..
    next
      case False
      then obtain n where "sched_rounds n ops dadd handle (projr r) = Some (Inl sw')" using r(2) IH [of ops dadd handle "projr r" sw'] by (simp only: if_False simp_thms) blast
      then have "sched_rounds (Suc n) ops dadd handle sw = Some (Inl sw')" using r False by simp
      then show ?thesis ..
    qed
  qed
next
  assume "\<exists>n. sched_rounds n ops dadd handle sw = Some (Inl sw')"
  then obtain n where "sched_rounds n ops dadd handle sw = Some (Inl sw')" ..
  then show "sched_run ops dadd handle sw = Some sw'"
  proof (induction n arbitrary: sw)
    case (Suc n)
    then obtain r where r: "sched_round ops dadd handle sw = Some r" "(if isl r then Some r else sched_rounds n ops dadd handle (projr r)) = Some (Inl sw')"
      by (auto split: Option.bind_splits)
    then show ?case using Suc.IH [of "projr r"] by (cases "isl r") (simp_all add: sched_run.simps [of ops dadd handle sw])
  qed simp
qed

section \<open>The abstract scheduler\<close>

text \<open>The agenda itself as a queue: the specification the implementations are compared with.\<close>

definition agenda_scheduler :: "('t::linorder, event_ptr list) sched_ops" where
  "agenda_scheduler =
     \<lparr>sq_insert = (\<lambda>ev e xs. Some (agenda_insert ev e xs)),
      sq_cancel = (\<lambda>e (ev, xs). Some (if ev_uid (ev e) \<le> 0 then (ev, xs) else (negate_uid e ev, remove1 e xs))),
      sq_lookup = (\<lambda>ev u xs. Some (agenda_find ev u xs, xs)),
      sq_head = (\<lambda>ev xs. Some (agenda_head xs, xs)),
      sq_deque = (\<lambda>ev xs. Some (agenda_head xs, tl xs))\<rparr>"

text \<open>An event has a positive identifier exactly while it is pending.\<close>

definition pending :: "'t events \<Rightarrow> event_ptr list \<Rightarrow> bool" where
  "pending ev xs \<longleftrightarrow> (\<forall>e. 0 < ev_uid (ev e) \<longleftrightarrow> e \<in> set xs)"

lemma pending_negate:
  assumes "pending ev xs" "e \<in> set xs" "distinct xs"
  shows "pending (negate_uid e ev) (remove1 e xs)"
proof -
  have "0 < ev_uid (ev e)" using assms(1,2) by (simp add: pending_def)
  then have "\<not> ev_uid (ev e) < 0" by linarith
  moreover have "set (remove1 e xs) = set xs - {e}" using assms(3) by simp
  ultimately show ?thesis using assms(1) by (simp add: pending_def negate_uid_apply)
qed

text \<open>The identifiers only grow; a negative counter means that they are used up.\<close>

definition uid_le :: "('t, 'q) simulator \<Rightarrow> ('t, 'q) simulator \<Rightarrow> bool" where
  "uid_le s s' \<longleftrightarrow> (s_uid s < 2 ^ 63 \<longrightarrow> s_uid s' < 2 ^ 63 \<and> (0 \<le> s_uid s' \<longrightarrow> 0 \<le> s_uid s \<and> s_uid s \<le> s_uid s'))"

lemma uid_le_refl [simp]: "uid_le s s"
  by (simp add: uid_le_def)

lemma uid_le_trans: "uid_le s t \<Longrightarrow> uid_le t u \<Longrightarrow> uid_le s u"
  by (auto simp: uid_le_def)

lemma next_uid: "0 \<le> u \<Longrightarrow> u < 2 ^ 63 \<Longrightarrow> signed_take_bit 63 (u + 1 :: int) = (if u = 2 ^ 63 - 1 then - (2 ^ 63) else u + 1)"
  by (auto simp: signed_take_bit_int_eq_self)

lemma schedule_uid_le: "schedule ops dadd h e delay s = Some s' \<Longrightarrow> uid_le s s'"
  using next_uid [of "s_uid s"] by (auto simp: schedule_def uid_le_def Let_def split: if_splits Option.bind_splits)

lemma cancel_uid_le: "cancel ops e s = Some s' \<Longrightarrow> uid_le s s'"
  by (auto simp: cancel_def uid_le_def split: Option.bind_splits)

lemma do_calls_uid_le: "do_calls ops dadd cs s = Some s' \<Longrightarrow> uid_le s s'"
proof (induction cs arbitrary: s)
  case (Cons c cs)
  then obtain t where t: "do_call ops dadd c s = Some t" "uid_le t s'" by (auto split: Option.bind_splits)
  have "uid_le s t" using t(1) schedule_uid_le cancel_uid_le by (cases c) (force simp: uid_le_def)+
  then show ?case using t(2) by (rule uid_le_trans)
qed simp

lemma dispatch_uid_le: "dispatch ops dadd handle p t (s, w) = Some (s', w') \<Longrightarrow> uid_le s s'"
  by (auto simp: dispatch_def set_clock_def uid_le_def dest!: do_calls_uid_le split: if_splits Option.bind_splits prod.splits)

lemma next_event_uid: "next_event ops s = Some (p, s') \<Longrightarrow> s_uid s' = s_uid s"
  by (auto simp: next_event_def split: Option.bind_splits)

abbreviation (input) round_state :: "'a + 'a \<Rightarrow> 'a" where
  "round_state \<equiv> case_sum (\<lambda>x. x) (\<lambda>x. x)"

lemma round_uid_le: "sched_round ops dadd handle (s, w) = Some r \<Longrightarrow> uid_le s (fst (round_state r))"
proof -
  assume r: "sched_round ops dadd handle (s, w) = Some r"
  show ?thesis
  proof (cases "s_halted s")
    case False
    then obtain p t where p: "next_event ops s = Some (p, t)" using r by (auto simp: sched_round_def split: Option.bind_splits)
    then have "uid_le s t" using next_event_uid [OF p] by (simp add: uid_le_def)
    then show ?thesis using r False p dispatch_uid_le [of ops dadd handle p "ev_time (s_events t p)" t w]
      by (auto simp: sched_round_def split: if_splits Option.bind_splits intro: uid_le_trans)
  qed (use r in \<open>auto simp: sched_round_def\<close>)
qed

lemma set_clock_uid: "set_clock p t s = Some s' \<Longrightarrow> s_uid s' = s_uid s"
  by (auto simp: set_clock_def split: if_splits)

lemma rounds_uid_le: "sched_rounds n ops dadd handle (s, w) = Some r \<Longrightarrow> uid_le s (fst (round_state r))"
proof (induction n arbitrary: s w)
  case (Suc n)
  then obtain r1 where r1: "sched_round ops dadd handle (s, w) = Some r1" "if isl r1 then r = r1 else sched_rounds n ops dadd handle (projr r1) = Some r"
    by (auto split: Option.bind_splits if_splits)
  show ?case
  proof (cases r1)
    case (Inr t)
    then show ?thesis using round_uid_le [OF r1(1)] Suc.IH [of "fst t" "snd t"] r1(2) uid_le_trans by auto
  qed (use round_uid_le [OF r1(1)] r1(2) in auto)
qed auto

section \<open>Simulation\<close>

text \<open>
  Corresponding simulators: the same clock, counter and events, and a queue that holds what the agenda has. \<open>in_range\<close>: the
  counter has not passed the limit of the queue.
\<close>

definition in_range :: "int \<Rightarrow> ('t, 'q) simulator \<Rightarrow> bool" where
  "in_range lim s \<longleftrightarrow> 0 \<le> s_uid s \<and> s_uid s \<le> lim"

lemma in_range_back: "uid_le s s' \<Longrightarrow> in_range lim s' \<Longrightarrow> s_uid s < 2 ^ 63 \<Longrightarrow> in_range lim s"
  by (auto simp: uid_le_def in_range_def)

text \<open>Handlers do not schedule into the past.\<close>

definition calls_ok :: "('t::linorder \<Rightarrow> 't \<Rightarrow> 't) \<Rightarrow> 't \<Rightarrow> 't sched_call list \<Rightarrow> bool" where
  "calls_ok dadd t cs \<longleftrightarrow> (\<forall>c \<in> set cs. case c of Schedule h e d \<Rightarrow> t \<le> dadd t d | _ \<Rightarrow> True)"

definition handlers_ok :: "('t::linorder \<Rightarrow> 't \<Rightarrow> 't) \<Rightarrow> ('t, 'w) handlers \<Rightarrow> bool" where
  "handlers_ok dadd handle \<longleftrightarrow> (\<forall>h p t w. calls_ok dadd t (snd (handle h p t w)))"

lemma do_call_clock: "do_call ops dadd c s = Some s' \<Longrightarrow> s_clock s' = s_clock s"
  by (cases c) (auto simp: schedule_def cancel_def Let_def split: if_splits Option.bind_splits)

lemma call_in_range:
  assumes "do_call ops dadd c s = Some t" "do_calls ops dadd cs t = Some s'" "in_range lim s'" "s_uid s < 2 ^ 63"
  shows "in_range lim t"
  using in_range_back [OF do_calls_uid_le [OF assms(2)] assms(3)] do_calls_uid_le [of ops dadd "[c]" s t] assms(1,4) by (simp add: uid_le_def)

definition same ::
  "('t \<Rightarrow> bool) \<Rightarrow> ('t::linorder events \<Rightarrow> int \<Rightarrow> 'q \<Rightarrow> event_ptr list \<Rightarrow> bool) \<Rightarrow> ('t, 'q) simulator \<Rightarrow> ('t, event_ptr list) simulator \<Rightarrow> bool" where
  "same t_ok rep s a \<longleftrightarrow> s_clock s = s_clock a \<and> s_uid s = s_uid a \<and> s_halted s = s_halted a \<and> s_events s = s_events a \<and>
     t_ok (s_clock a) \<and> pending (s_events a) (s_queue a) \<and> s_uid a < 2 ^ 63 \<and>
     (\<exists>n. 0 < n \<and> (s_uid a = n \<or> s_uid a < 0) \<and> rep (s_events a) n (s_queue s) (s_queue a))"

text \<open>Two computations agree as long as one of them succeeds within the range.\<close>

definition agree :: "('a \<Rightarrow> bool) \<Rightarrow> ('b \<Rightarrow> bool) \<Rightarrow> ('a \<Rightarrow> 'b \<Rightarrow> bool) \<Rightarrow> 'a option \<Rightarrow> 'b option \<Rightarrow> bool" where
  "agree P Q R f g \<longleftrightarrow> ((\<exists>x. f = Some x \<and> P x) \<or> (\<exists>y. g = Some y \<and> Q y) \<longrightarrow> (\<exists>x y. f = Some x \<and> g = Some y \<and> R x y))"

lemma agreeD: "agree P Q R f g \<Longrightarrow> f = Some x \<Longrightarrow> P x \<Longrightarrow> \<exists>y. g = Some y \<and> R x y"
  "agree P Q R f g \<Longrightarrow> g = Some y \<Longrightarrow> Q y \<Longrightarrow> \<exists>x. f = Some x \<and> R x y"
  by (auto simp: agree_def)

lemma agree_Some [intro]: "R x y \<Longrightarrow> agree P Q R (Some x) (Some y)"
  by (simp add: agree_def)

lemma agree_bind:
  assumes fg: "agree P Q R f g" and step: "\<And>x y. R x y \<Longrightarrow> agree P' Q' R' (f' x) (g' y)"
    and backP: "\<And>x x'. f = Some x \<Longrightarrow> f' x = Some x' \<Longrightarrow> P' x' \<Longrightarrow> P x"
    and backQ: "\<And>y y'. g = Some y \<Longrightarrow> g' y = Some y' \<Longrightarrow> Q' y' \<Longrightarrow> Q y"
  shows "agree P' Q' R' (Option.bind f f') (Option.bind g g')"
  unfolding agree_def
proof
  assume ok: "(\<exists>x'. Option.bind f f' = Some x' \<and> P' x') \<or> (\<exists>y'. Option.bind g g' = Some y' \<and> Q' y')"
  then have "(\<exists>x. f = Some x \<and> P x) \<or> (\<exists>y. g = Some y \<and> Q y)"
    using backP backQ by (fastforce simp: bind_eq_Some_conv)
  then obtain x y where xy: "f = Some x" "g = Some y" "R x y" using fg by (auto simp: agree_def)
  then show "\<exists>x' y'. Option.bind f f' = Some x' \<and> Option.bind g g' = Some y' \<and> R' x' y'"
    using step [OF xy(3)] ok unfolding agree_def by auto
qed

abbreviation (input) agree_sim where
  "agree_sim lim t_ok rep \<equiv> agree (in_range lim) (in_range lim) (same t_ok rep)"

context event_queue
begin

lemma same_uid: "same t_ok rep s a \<Longrightarrow> s_uid s < 2 ^ 63 \<and> s_uid a < 2 ^ 63"
  by (simp add: same_def)

lemma schedule_same:
  assumes "same t_ok rep s a" "s_clock a \<le> dadd (s_clock a) delay"
  shows "agree_sim lim t_ok rep (schedule ops dadd h e delay s) (schedule agenda_scheduler dadd h e delay a)"
  unfolding agree_def
proof
  assume ok: "(\<exists>s'. schedule ops dadd h e delay s = Some s' \<and> in_range lim s') \<or>
    (\<exists>a'. schedule agenda_scheduler dadd h e delay a = Some a' \<and> in_range lim a')"
  from assms(1) obtain n where n: "0 < n" "s_uid a = n \<or> s_uid a < 0" "rep (s_events a) n (s_queue s) (s_queue a)"
    and eq: "s_clock s = s_clock a" "s_uid s = s_uid a" "s_halted s = s_halted a" "s_events s = s_events a"
    and pend: "pending (s_events a) (s_queue a)" and lt: "s_uid a < 2 ^ 63" and tc: "t_ok (s_clock a)" by (auto simp: same_def)
  have tk: "t_ok (dadd (s_clock a) delay)" by (rule t_ok_mono [OF tc assms(2)])
  have g: "h \<noteq> 0" "e \<noteq> 0" "ev_uid (s_events a e) \<le> 0" "0 \<le> s_uid a"
    using ok eq by (auto simp: schedule_def split: if_splits)
  let ?u = "signed_take_bit 63 (s_uid a + 1)"
  let ?ev = "(s_events a)(e := \<lparr>ev_time = dadd (s_clock a) delay, ev_uid = s_uid a, ev_handler = h\<rparr>)"
  have "0 \<le> ?u \<and> ?u \<le> lim"
    using ok eq by (auto simp: schedule_def in_range_def Let_def split: if_splits Option.bind_splits)
  then have u: "?u = s_uid a + 1" "s_uid a < lim" "s_uid a + 1 < 2 ^ 63" using next_uid [OF g(4) lt] lt by (auto split: if_splits)
  have fresh: "e \<notin> set (s_queue a)" using pend g(3) by (force simp: pending_def)
  have "rep ?ev n (s_queue s) (s_queue a)" by (rule rep_frame [OF n(3)]) (use fresh in auto)
  from insert_law [OF this n(1) g(2) fresh] n(2) g(4) u(2) tk obtain q where
    q: "sq_insert ops ?ev e (s_queue s) = Some q" "rep ?ev (s_uid a + 1) q (agenda_insert ?ev e (s_queue a))" by auto
  have "pending ?ev (agenda_insert ?ev e (s_queue a))" using pend n(1,2) g(4) by (auto simp: pending_def)
  then have "same t_ok rep (s\<lparr>s_uid := ?u, s_events := ?ev, s_queue := q\<rparr>) (a\<lparr>s_uid := ?u, s_events := ?ev, s_queue := agenda_insert ?ev e (s_queue a)\<rparr>)"
    using q(2) eq u n(1,2) g(4) tc by (auto simp: same_def)
  then show "\<exists>s' a'. schedule ops dadd h e delay s = Some s' \<and> schedule agenda_scheduler dadd h e delay a = Some a' \<and> same t_ok rep s' a'"
    using g q(1) eq by (simp add: schedule_def Let_def agenda_scheduler_def)
qed

lemma cancel_same:
  assumes "same t_ok rep s a"
  shows "\<exists>s' a'. cancel ops e s = Some s' \<and> cancel agenda_scheduler e a = Some a' \<and> same t_ok rep s' a'"
proof (cases "0 < ev_uid (s_events a e)")
  case True
  then have e: "e \<in> set (s_queue a)" using assms by (simp add: same_def pending_def)
  from assms obtain n where n: "0 < n" "s_uid a = n \<or> s_uid a < 0" "rep (s_events a) n (s_queue s) (s_queue a)" by (auto simp: same_def)
  from cancel_law [OF n(3) e] obtain q where
    q: "sq_cancel ops e (s_events a, s_queue s) = Some (negate_uid e (s_events a), q)" "rep (negate_uid e (s_events a)) n q (remove1 e (s_queue a))" by blast
  have "pending (negate_uid e (s_events a)) (remove1 e (s_queue a))"
    using assms e agenda_distinct [OF rep_agenda [OF n(3)]] by (auto simp: same_def intro: pending_negate)
  then show ?thesis using q n(1,2) assms True by (auto simp: cancel_def agenda_scheduler_def same_def)
next
  case False
  then show ?thesis using assms cancel_idle [of "s_events a" e "s_queue s"] by (auto simp: cancel_def agenda_scheduler_def same_def)
qed

text \<open>The next event, up to the call of its handler.\<close>

lemma next_event_same:
  assumes "same t_ok rep s a"
  obtains q where "next_event ops s = Some (agenda_head (s_queue a), s\<lparr>s_queue := q\<rparr>)"
    "next_event agenda_scheduler a = Some (agenda_head (s_queue a), a\<lparr>s_queue := tl (s_queue a)\<rparr>)"
    "s_queue a = [] \<Longrightarrow> same t_ok rep (s\<lparr>s_queue := q\<rparr>) (a\<lparr>s_queue := []\<rparr>)"
    "\<And>x xs t. s_queue a = x # xs \<Longrightarrow> s_clock a \<le> t \<Longrightarrow> same t_ok rep (s\<lparr>s_queue := q, s_clock := t, s_events := negate_uid x (s_events a)\<rparr>)
       (a\<lparr>s_queue := xs, s_clock := t, s_events := negate_uid x (s_events a)\<rparr>)"
proof -
  from assms obtain n where n: "0 < n" "s_uid a = n \<or> s_uid a < 0" "rep (s_events a) n (s_queue s) (s_queue a)" by (auto simp: same_def)
  from deque_law [OF n(3)] obtain q where
    q: "sq_deque ops (s_events a) (s_queue s) = Some (agenda_head (s_queue a), q)" "rep (s_events a) n q (tl (s_queue a))" by blast
  show thesis
  proof (rule that [of q])
    show "next_event ops s = Some (agenda_head (s_queue a), s\<lparr>s_queue := q\<rparr>)" using q(1) assms by (simp add: next_event_def same_def)
    show "next_event agenda_scheduler a = Some (agenda_head (s_queue a), a\<lparr>s_queue := tl (s_queue a)\<rparr>)"
      by (simp add: next_event_def agenda_scheduler_def)
    show "same t_ok rep (s\<lparr>s_queue := q\<rparr>) (a\<lparr>s_queue := []\<rparr>)" if "s_queue a = []"
      using that q(2) n(1,2) assms unfolding same_def by (intro conjI exI [of _ n]) simp_all
    show "same t_ok rep (s\<lparr>s_queue := q, s_clock := t, s_events := negate_uid x (s_events a)\<rparr>)
       (a\<lparr>s_queue := xs, s_clock := t, s_events := negate_uid x (s_events a)\<rparr>)" if xs: "s_queue a = x # xs" and t: "s_clock a \<le> t" for x xs t
    proof -
      have "t_ok t" using t_ok_mono [OF _ t] assms by (simp add: same_def)
      moreover
      note d = agenda_distinct [OF rep_agenda [OF n(3)]]
      have "rep (s_events a) n q xs" using q(2) xs by simp
      then have "rep (negate_uid x (s_events a)) n q xs" by (rule rep_frame) (use d xs in \<open>auto simp: negate_uid_apply\<close>)
      moreover have "pending (negate_uid x (s_events a)) xs"
        using pending_negate [of "s_events a" "x # xs" x] d assms xs by (simp add: same_def)
      ultimately show ?thesis using n(1,2) assms unfolding same_def by (intro conjI exI [of _ n]) simp_all
    qed
  qed
qed

lemma do_calls_same:
  "same t_ok rep s a \<Longrightarrow> calls_ok dadd (s_clock a) cs \<Longrightarrow> agree_sim lim t_ok rep (do_calls ops dadd cs s) (do_calls agenda_scheduler dadd cs a)"
proof (induction cs arbitrary: s a)
  case (Cons c cs)
  have "agree_sim lim t_ok rep (do_call ops dadd c s) (do_call agenda_scheduler dadd c a)"
    using schedule_same [OF Cons.prems(1)] cancel_same [OF Cons.prems(1)] Cons.prems
    by (cases c) (auto simp: agree_def same_def calls_ok_def)
  then have step: "agree (in_range lim) (in_range lim) (\<lambda>s' a'. same t_ok rep s' a' \<and> s_clock a' = s_clock a)
    (do_call ops dadd c s) (do_call agenda_scheduler dadd c a)"
    using do_call_clock [of agenda_scheduler dadd c a] by (fastforce simp: agree_def)
  have cs: "calls_ok dadd (s_clock a) cs" using Cons.prems(2) by (simp add: calls_ok_def)
  note u = same_uid [OF Cons.prems(1)]
  show ?case
    unfolding do_calls.simps
  proof (rule agree_bind [OF step])
    show "agree_sim lim t_ok rep (do_calls ops dadd cs x) (do_calls agenda_scheduler dadd cs y)"
      if "same t_ok rep x y \<and> s_clock y = s_clock a" for x y
      using Cons.IH [of x y] that cs by simp
  qed (erule (2) call_in_range, use u in simp)+
qed auto

abbreviation (input) world_same where
  "world_same \<equiv> \<lambda>sw av. same t_ok rep (fst sw) (fst av) \<and> snd sw = snd av"

abbreviation (input) round_agree where
  "round_agree \<equiv> agree (\<lambda>r. in_range lim (fst (round_state r))) (\<lambda>r. in_range lim (fst (round_state r))) (rel_sum world_same world_same)"

lemma dispatch_same:
  assumes "s_clock s \<le> t \<Longrightarrow> same t_ok rep (s\<lparr>s_clock := t, s_events := negate_uid x (s_events s)\<rparr>) (a\<lparr>s_clock := t, s_events := negate_uid x (s_events s)\<rparr>)"
    and "s_clock s = s_clock a" "s_events s = s_events a" "handlers_ok dadd handle"
  shows "round_agree (do { sw \<leftarrow> dispatch ops dadd handle x t (s, w); Some (Inr sw) }) (do { av \<leftarrow> dispatch agenda_scheduler dadd handle x t (a, w); Some (Inr av) })"
proof -
  let ?ev = "negate_uid x (s_events s)"
  obtain v cs where h: "handle (ev_handler (?ev x)) x t w = (v, cs)" by fastforce
  have eq: "do { sw \<leftarrow> dispatch ops dadd handle x t (s, w); Some (Inr sw) } =
      (if t < s_clock s then None else do { s \<leftarrow> do_calls ops dadd cs (s\<lparr>s_clock := t, s_events := ?ev\<rparr>); Some (Inr (s, v)) })"
    "do { av \<leftarrow> dispatch agenda_scheduler dadd handle x t (a, w); Some (Inr av) } =
      (if t < s_clock s then None else do { a \<leftarrow> do_calls agenda_scheduler dadd cs (a\<lparr>s_clock := t, s_events := ?ev\<rparr>); Some (Inr (a, v)) })"
    using h assms(2,3) by (simp_all add: dispatch_def set_clock_def Option.bind_assoc)
  have "round_agree (do { s \<leftarrow> do_calls ops dadd cs (s\<lparr>s_clock := t, s_events := ?ev\<rparr>); Some (Inr (s, v)) })
    (do { a \<leftarrow> do_calls agenda_scheduler dadd cs (a\<lparr>s_clock := t, s_events := ?ev\<rparr>); Some (Inr (a, v)) })"
    if "s_clock s \<le> t"
  proof (rule agree_bind [OF do_calls_same [OF assms(1) [OF that]]])
    have "calls_ok dadd t (snd (handle (ev_handler (?ev x)) x t w))" using assms(4) unfolding handlers_ok_def by blast
    then show "calls_ok dadd (s_clock (a\<lparr>s_clock := t, s_events := ?ev\<rparr>)) cs" using h by simp
  qed (auto simp: agree_def)
  then show ?thesis unfolding eq by (auto simp: agree_def not_less)
qed

lemma round_same:
  assumes "same t_ok rep s a" "handlers_ok dadd handle"
  shows "round_agree (sched_round ops dadd handle (s, w)) (sched_round agenda_scheduler dadd handle (a, w))"
proof (cases "s_halted a")
  case True
  then have "sched_round ops dadd handle (s, w) = Some (Inl (s, w))" "sched_round agenda_scheduler dadd handle (a, w) = Some (Inl (a, w))"
    using assms by (simp_all add: sched_round_def same_def)
  then show ?thesis using assms(1) by (simp add: agree_Some)
next
  case False
  then have nh: "\<not> s_halted s" and eq: "s_events s = s_events a" "s_clock s = s_clock a" using assms by (auto simp: same_def)
  from next_event_same [OF assms(1)] obtain q where
    q: "next_event ops s = Some (agenda_head (s_queue a), s\<lparr>s_queue := q\<rparr>)"
      "next_event agenda_scheduler a = Some (agenda_head (s_queue a), a\<lparr>s_queue := tl (s_queue a)\<rparr>)"
      "s_queue a = [] \<Longrightarrow> same t_ok rep (s\<lparr>s_queue := q\<rparr>) (a\<lparr>s_queue := []\<rparr>)"
      "\<And>x xs t. s_queue a = x # xs \<Longrightarrow> s_clock a \<le> t \<Longrightarrow> same t_ok rep (s\<lparr>s_queue := q, s_clock := t, s_events := negate_uid x (s_events a)\<rparr>)
         (a\<lparr>s_queue := xs, s_clock := t, s_events := negate_uid x (s_events a)\<rparr>)" by blast
  show ?thesis
  proof (cases "s_queue a")
    case Nil
    then have "sched_round ops dadd handle (s, w) = Some (Inl (s\<lparr>s_queue := q\<rparr>, w))"
      "sched_round agenda_scheduler dadd handle (a, w) = Some (Inl (a\<lparr>s_queue := []\<rparr>, w))"
      using q(1,2) False nh by (simp_all add: sched_round_def)
    then show ?thesis using q(3) [OF Nil] by (simp add: agree_Some)
  next
    case (Cons x xs)
    obtain n where "rep (s_events a) n (s_queue s) (x # xs)" using assms Cons by (auto simp: same_def)
    then have x: "x \<noteq> 0" using rep_agenda [of "s_events a" n "s_queue s" "x # xs"] by (auto simp: agenda_def)
    let ?t = "ev_time (s_events a x)"
    have "sched_round ops dadd handle (s, w) = do { sw \<leftarrow> dispatch ops dadd handle x ?t (s\<lparr>s_queue := q\<rparr>, w); Some (Inr sw) }"
      "sched_round agenda_scheduler dadd handle (a, w) = do { sw \<leftarrow> dispatch agenda_scheduler dadd handle x ?t (a\<lparr>s_queue := xs\<rparr>, w); Some (Inr sw) }"
      using q(1,2) False nh x Cons eq by (simp_all add: sched_round_def)
    then show ?thesis using dispatch_same [where s = "s\<lparr>s_queue := q\<rparr>" and a = "a\<lparr>s_queue := xs\<rparr>" and t = ?t and x = x] q(4) [OF Cons, of ?t] eq assms(2) by simp
  qed
qed

lemma round_in_range:
  assumes "sched_round ops' dadd handle (s, w) = Some r" "(if isl r then Some r else sched_rounds n ops' dadd handle (projr r)) = Some r'"
    and "in_range lim (fst (round_state r'))" "s_uid s < 2 ^ 63"
  shows "in_range lim (fst (round_state r))"
proof (cases r)
  case (Inr t)
  then have "uid_le (fst t) (fst (round_state r'))" using assms(2) rounds_uid_le [of n ops' dadd handle "fst t" "snd t" r'] by simp
  moreover have "s_uid (fst t) < 2 ^ 63" using round_uid_le [OF assms(1)] Inr assms(4) by (simp add: uid_le_def)
  ultimately show ?thesis using in_range_back assms(3) Inr by fastforce
qed (use assms in auto)

lemma rounds_same:
  fixes w :: 'w
  assumes "same t_ok rep s a" "handlers_ok dadd handle"
  shows "round_agree (sched_rounds n ops dadd handle (s, w)) (sched_rounds n agenda_scheduler dadd handle (a, w))"
  using assms(1)
proof (induction n arbitrary: s a w)
  case (Suc n)
  note u = same_uid [OF Suc.prems]
  show ?case
    unfolding sched_rounds.simps
  proof (rule agree_bind [OF round_same [OF Suc.prems assms(2)]])
    fix r :: "('t, 'q, 'w) sim_state + ('t, 'q, 'w) sim_state" and r' :: "('t, event_ptr list, 'w) sim_state + ('t, event_ptr list, 'w) sim_state"
    assume r: "rel_sum world_same world_same r r'"
    show "round_agree (if isl r then Some r else sched_rounds n ops dadd handle (projr r)) (if isl r' then Some r' else sched_rounds n agenda_scheduler dadd handle (projr r'))"
    proof (cases r)
      case (Inl x)
      then show ?thesis using r by (cases r') (auto intro: agree_Some)
    next
      case (Inr x)
      then show ?thesis using r Suc.IH [of "fst x" "fst (projr r')" "snd x"] by (cases r') (auto simp: rel_sum_simps)
    qed
  qed (erule (2) round_in_range, use u in simp)+
qed (simp add: agree_Some)

end

section \<open>The order of the dispatches\<close>

text \<open>A simulator at its start: no event has an identifier.\<close>

definition sim_start :: "'q \<Rightarrow> ('t, 'q) simulator \<Rightarrow> bool" where
  "sim_start q s \<longleftrightarrow> s_uid s = 1 \<and> s_queue s = q \<and> (\<forall>e. ev_uid (s_events s e) \<le> 0)"

text \<open>
  What can happen to a simulator: calls of \<open>schedule\<close> for a time that is not in the past (which is so when the delay is not
  negative), calls of \<open>cancel\<close>, and dispatches. \<open>tr\<close> is the list of the dispatched events, the last one first, \<open>cs\<close> the set of the cancelled identifiers.
\<close>

inductive sim_trace :: "('t::linorder, 'q) sched_ops \<Rightarrow> ('t \<Rightarrow> 't \<Rightarrow> 't) \<Rightarrow> 'q \<Rightarrow> 't \<Rightarrow> ('t \<times> int) list \<Rightarrow> int set \<Rightarrow> ('t, 'q) simulator \<Rightarrow> bool"
  for ops dadd q t0 where
  trace_start: "sim_start q s \<Longrightarrow> s_clock s = t0 \<Longrightarrow> sim_trace ops dadd q t0 [] {} s"
| trace_schedule: "sim_trace ops dadd q t0 tr cs s \<Longrightarrow> s_clock s \<le> dadd (s_clock s) delay \<Longrightarrow> schedule ops dadd h e delay s = Some s' \<Longrightarrow> sim_trace ops dadd q t0 tr cs s'"
| trace_cancel: "sim_trace ops dadd q t0 tr cs s \<Longrightarrow> cancel ops e s = Some s' \<Longrightarrow>
    sim_trace ops dadd q t0 tr (cs \<union> {u. u = ev_uid (s_events s e) \<and> 0 < u}) s'"
| trace_dispatch: "sim_trace ops dadd q t0 tr cs s \<Longrightarrow> next_event ops s = Some (p, s1) \<Longrightarrow> p \<noteq> 0 \<Longrightarrow>
    set_clock p (ev_time (s_events s1 p)) s1 = Some s2 \<Longrightarrow>
    sim_trace ops dadd q t0 ((ev_time (s_events s1 p), ev_uid (s_events s1 p)) # tr) cs s2"

definition earlier :: "'t::linorder \<times> int \<Rightarrow> 't \<times> int \<Rightarrow> bool" where
  "earlier x y \<longleftrightarrow> fst x < fst y \<or> fst x = fst y \<and> snd x < snd y"

text \<open>
  What a queue holds is what \<open>deque\<close> takes out of it, up to the null pointer: \<open>drain n\<close> makes at most \<open>n\<close> calls; \<open>queued xs\<close> says that the
  calls give the events \<open>xs\<close> and then the null pointer.
\<close>

primrec drain :: "nat \<Rightarrow> ('t, 'q) sched_ops \<Rightarrow> 't events \<Rightarrow> 'q \<Rightarrow> event_ptr list exec" where
  "drain 0 ops ev q = Some []"
| "drain (Suc n) ops ev q = do {
     (p, q) \<leftarrow> sq_deque ops ev q;
     if p = 0 then Some [] else do { xs \<leftarrow> drain n ops ev q; Some (p # xs) }
   }"

definition queued :: "('t, 'q) sched_ops \<Rightarrow> ('t, 'q) simulator \<Rightarrow> event_ptr list \<Rightarrow> bool" where
  "queued ops s xs \<longleftrightarrow> drain (Suc (length xs)) ops (s_events s) (s_queue s) = Some xs"

text \<open>
  Every identifier below \<open>n\<close> belongs to exactly one dispatched event, one cancelled event or one event of the queue; \<open>us\<close> are the
  identifiers of the queue.
\<close>

definition accounted :: "('t \<times> int) list \<Rightarrow> int set \<Rightarrow> int set \<Rightarrow> int \<Rightarrow> bool" where
  "accounted tr cs us n \<longleftrightarrow> distinct (map snd tr) \<and> snd ` set tr \<inter> us = {} \<and> snd ` set tr \<inter> cs = {} \<and> cs \<inter> us = {} \<and>
     snd ` set tr \<union> cs \<union> us = {1 ..< n}"

lemma accounted_schedule:
  assumes "accounted tr cs us n" "0 < n"
  shows "accounted tr cs (insert n us) (n + 1)"
proof -
  have u: "snd ` set tr \<union> cs \<union> us = {1 ..< n}" using assms(1) by (simp add: accounted_def)
  then have "n \<notin> snd ` set tr \<union> cs \<union> us" by simp
  moreover have "snd ` set tr \<union> cs \<union> insert n us = {1 ..< n + 1}"
  proof -
    have "snd ` set tr \<union> cs \<union> insert n us = insert n {1 ..< n}" using u by (simp flip: u)
    also have "\<dots> = {1 ..< n + 1}" using assms(2) by auto
    finally show ?thesis .
  qed
  ultimately show ?thesis using assms(1) unfolding accounted_def by blast
qed

lemma accounted_cancel: "accounted tr cs (insert u us) n \<Longrightarrow> u \<notin> us \<Longrightarrow> accounted tr (insert u cs) us n"
  by (auto simp: accounted_def)

lemma accounted_dispatch: "accounted tr cs (insert u us) n \<Longrightarrow> u \<notin> us \<Longrightarrow> accounted ((t, u) # tr) cs us n"
  by (auto simp: accounted_def)

text \<open>
  The dispatches were in the order of time and identifier. The queue holds, in this order, the events that have a positive identifier,
  none of them for a time in the past; the first one is dispatched next. Every identifier handed out is accounted for.
\<close>

definition orderly :: "('t::linorder, 'q) sched_ops \<Rightarrow> ('t \<times> int) list \<Rightarrow> int set \<Rightarrow> ('t, 'q) simulator \<Rightarrow> bool" where
  "orderly ops tr cs s \<longleftrightarrow> sorted_wrt (\<lambda>x y. earlier y x) tr \<and>
     (\<exists>xs. queued ops s xs \<and> sorted_wrt (before (s_events s)) xs \<and> (\<forall>e. 0 < ev_uid (s_events s e) \<longleftrightarrow> e \<in> set xs) \<and>
        (\<forall>e \<in> set xs. s_clock s \<le> ev_time (s_events s e)) \<and> (\<exists>s'. next_event ops s = Some (agenda_head xs, s')) \<and>
        accounted tr cs ((\<lambda>e. ev_uid (s_events s e)) ` set xs) (s_uid s))"

definition due :: "'t events \<Rightarrow> event_ptr \<Rightarrow> 't \<times> int" where
  "due ev x = (ev_time (ev x), ev_uid (ev x))"

lemma earlier_due: "earlier (due ev x) (due ev y) \<longleftrightarrow> before ev x y"
  by (simp add: earlier_def due_def before_def)

lemma earlier_trans: "earlier x y \<Longrightarrow> earlier y z \<Longrightarrow> earlier x z"
  by (auto simp: earlier_def)

definition trace_inv ::
  "('t \<Rightarrow> bool) \<Rightarrow> ('t::linorder events \<Rightarrow> int \<Rightarrow> 'q \<Rightarrow> event_ptr list \<Rightarrow> bool) \<Rightarrow> ('t \<times> int) list \<Rightarrow> int set \<Rightarrow> ('t, 'q) simulator \<Rightarrow> event_ptr list \<Rightarrow> bool" where
  "trace_inv t_ok rep tr cs s xs \<longleftrightarrow> rep (s_events s) (s_uid s) (s_queue s) xs \<and> t_ok (s_clock s) \<and> pending (s_events s) xs \<and> 0 < s_uid s \<and> s_uid s < 2 ^ 63 \<and>
     (\<forall>x \<in> set xs. s_clock s \<le> ev_time (s_events s x)) \<and> sorted_wrt (\<lambda>x y. earlier y x) tr \<and>
     (\<forall>d \<in> set tr. fst d \<le> s_clock s \<and> snd d < s_uid s \<and> (\<forall>x \<in> set xs. earlier d (due (s_events s) x))) \<and>
     accounted tr cs ((\<lambda>e. ev_uid (s_events s e)) ` set xs) (s_uid s)"

context event_queue
begin

lemma trace_inv_start:
  assumes "sim_start q_empty s" "t_ok (s_clock s)"
  shows "trace_inv t_ok rep [] {} s []"
  using assms rep_empty by (auto simp: sim_start_def trace_inv_def pending_def accounted_def not_less)

lemma trace_inv_schedule:
  assumes "trace_inv t_ok rep tr cs s xs" "schedule ops dadd h e delay s = Some s'" "in_range lim s'" "s_clock s \<le> dadd (s_clock s) delay"
  shows "\<exists>ys. trace_inv t_ok rep tr cs s' ys"
proof -
  have inv: "rep (s_events s) (s_uid s) (s_queue s) xs" "pending (s_events s) xs" "0 < s_uid s" "s_uid s < 2 ^ 63"
    using assms(1) by (auto simp: trace_inv_def)
  let ?t = "dadd (s_clock s) delay"
  let ?ev = "(s_events s)(e := \<lparr>ev_time = ?t, ev_uid = s_uid s, ev_handler = h\<rparr>)"
  have g: "e \<noteq> 0" "\<not> 0 < ev_uid (s_events s e)" using assms(2) by (auto simp: schedule_def split: if_splits)
  obtain q where q: "sq_insert ops ?ev e (s_queue s) = Some q" "s' = s\<lparr>s_uid := signed_take_bit 63 (s_uid s + 1), s_events := ?ev, s_queue := q\<rparr>"
    using assms(2) by (auto simp: schedule_def Let_def split: if_splits Option.bind_splits)
  have "0 \<le> signed_take_bit 63 (s_uid s + 1) \<and> signed_take_bit 63 (s_uid s + 1) \<le> lim" using assms(3) q(2) by (simp add: in_range_def)
  then have u: "signed_take_bit 63 (s_uid s + 1) = s_uid s + 1" "s_uid s < lim" "s_uid s + 1 < 2 ^ 63"
    using next_uid [OF _ inv(4)] inv(3,4) by (auto split: if_splits)
  have fresh: "e \<notin> set xs" using inv(2) g(2) by (auto simp: pending_def)
  have "rep ?ev (s_uid s) (s_queue s) xs" by (rule rep_frame [OF inv(1)]) (use fresh in auto)
  moreover have "t_ok ?t" using t_ok_mono [OF _ assms(4)] assms(1) by (simp add: trace_inv_def)
  ultimately have r: "rep ?ev (s_uid s + 1) q (agenda_insert ?ev e xs)"
    using insert_law [of ?ev "s_uid s" "s_queue s" xs e] inv(3) g(1) fresh u(2) q(1) by auto
  have "pending ?ev (agenda_insert ?ev e xs)" using inv(2,3) by (auto simp: pending_def)
  moreover have "\<forall>x \<in> insert e (set xs). s_clock s \<le> ev_time (?ev x)" using assms(1,4) by (auto simp: trace_inv_def)
  moreover have "\<forall>d \<in> set tr. fst d \<le> s_clock s \<and> snd d < s_uid s + 1 \<and> (\<forall>x \<in> insert e (set xs). earlier d (due ?ev x))"
    using assms(1,4) fresh by (fastforce simp: trace_inv_def earlier_def due_def)
  moreover have "accounted tr cs ((\<lambda>x. ev_uid (?ev x)) ` insert e (set xs)) (s_uid s + 1)"
  proof -
    have "(\<lambda>x. ev_uid (?ev x)) ` insert e (set xs) = insert (s_uid s) ((\<lambda>x. ev_uid (s_events s x)) ` set xs)" using fresh by auto
    moreover have "accounted tr cs ((\<lambda>x. ev_uid (s_events s x)) ` set xs) (s_uid s)" using assms(1) by (simp add: trace_inv_def)
    from accounted_schedule [OF this inv(3)] calculation show ?thesis by (simp only:)
  qed
  ultimately have "trace_inv t_ok rep tr cs s' (agenda_insert ?ev e xs)" using r u assms(1) inv(3) unfolding trace_inv_def q(2) by simp
  then show ?thesis ..
qed

lemma trace_inv_cancel:
  assumes "trace_inv t_ok rep tr cs s xs" "cancel ops e s = Some s'"
  shows "\<exists>ys. trace_inv t_ok rep tr (cs \<union> {u. u = ev_uid (s_events s e) \<and> 0 < u}) s' ys"
proof (cases "0 < ev_uid (s_events s e)")
  case True
  have inv: "rep (s_events s) (s_uid s) (s_queue s) xs" "pending (s_events s) xs" using assms(1) by (auto simp: trace_inv_def)
  have e: "e \<in> set xs" using inv(2) True by (simp add: pending_def)
  note d = agenda_distinct [OF rep_agenda [OF inv(1)]]
  from cancel_law [OF inv(1) e] assms(2) obtain q where
    q: "s' = s\<lparr>s_events := negate_uid e (s_events s), s_queue := q\<rparr>" "rep (negate_uid e (s_events s)) (s_uid s) q (remove1 e xs)"
    by (auto simp: cancel_def)
  have eq: "\<forall>x \<in> set (remove1 e xs). negate_uid e (s_events s) x = s_events s x" using d by (auto simp: negate_uid_apply)
  let ?us = "(\<lambda>x. ev_uid (negate_uid e (s_events s) x)) ` set (remove1 e xs)"
  have us: "(\<lambda>x. ev_uid (s_events s x)) ` set xs = insert (ev_uid (s_events s e)) ?us"
    using e d eq by (auto simp: image_iff)
  have "inj_on (\<lambda>x. ev_uid (s_events s x)) (set xs)" using rep_agenda [OF inv(1)] by (simp add: agenda_def)
  then have "ev_uid (s_events s e) \<notin> ?us" using e d eq by (auto simp: inj_on_def)
  moreover have "accounted tr cs (insert (ev_uid (s_events s e)) ?us) (s_uid s)" using assms(1) us by (simp add: trace_inv_def)
  moreover have "cs \<union> {u. u = ev_uid (s_events s e) \<and> 0 < u} = insert (ev_uid (s_events s e)) cs" using True by auto
  ultimately have "accounted tr (cs \<union> {u. u = ev_uid (s_events s e) \<and> 0 < u}) ?us (s_uid s)" using accounted_cancel by simp
  moreover have "pending (negate_uid e (s_events s)) (remove1 e xs)" using pending_negate [OF inv(2) e d] .
  moreover have "\<forall>x \<in> set (remove1 e xs). s_clock s \<le> ev_time (negate_uid e (s_events s) x)"
    using assms(1) eq notin_set_remove1 by (fastforce simp: trace_inv_def)
  moreover have "\<forall>d \<in> set tr. \<forall>x \<in> set (remove1 e xs). earlier d (due (negate_uid e (s_events s)) x)"
    using assms(1) eq notin_set_remove1 by (fastforce simp: trace_inv_def due_def)
  ultimately have "trace_inv t_ok rep tr (cs \<union> {u. u = ev_uid (s_events s e) \<and> 0 < u}) s' (remove1 e xs)"
    using assms(1) q unfolding trace_inv_def by simp
  then show ?thesis ..
next
  case False
  then have "s' = s" "cs \<union> {u. u = ev_uid (s_events s e) \<and> 0 < u} = cs"
    using assms(2) cancel_idle [of "s_events s" e "s_queue s"] by (auto simp: cancel_def not_less)
  then show ?thesis using assms(1) by (simp only:) blast
qed

lemma trace_inv_next:
  assumes "trace_inv t_ok rep tr cs s xs"
  obtains q where "next_event ops s = Some (agenda_head xs, s\<lparr>s_queue := q\<rparr>)" "rep (s_events s) (s_uid s) q (tl xs)"
  using assms deque_law [of "s_events s" "s_uid s" "s_queue s" xs] by (auto simp: trace_inv_def next_event_def)

lemma trace_inv_dispatch:
  assumes "trace_inv t_ok rep tr cs s xs" "next_event ops s = Some (p, s1)" "p \<noteq> 0" "set_clock p (ev_time (s_events s1 p)) s1 = Some s2"
  shows "\<exists>ys. trace_inv t_ok rep ((ev_time (s_events s1 p), ev_uid (s_events s1 p)) # tr) cs s2 ys"
proof -
  from trace_inv_next [OF assms(1)] obtain q where
    n: "next_event ops s = Some (agenda_head xs, s\<lparr>s_queue := q\<rparr>)" "rep (s_events s) (s_uid s) q (tl xs)" .
  obtain ys where xs: "xs = p # ys" using n(1) assms(2,3) by (cases xs) auto
  have s1: "s1 = s\<lparr>s_queue := q\<rparr>" and q: "rep (s_events s) (s_uid s) q ys" using n assms(2) xs by auto
  have inv: "rep (s_events s) (s_uid s) (s_queue s) xs" "pending (s_events s) xs" using assms(1) by (auto simp: trace_inv_def)
  note a = rep_agenda [OF inv(1)] and d = agenda_distinct [OF rep_agenda [OF inv(1)]]
  let ?ev = "negate_uid p (s_events s)"
  have s2: "s2 = s\<lparr>s_queue := q, s_clock := ev_time (s_events s p), s_events := ?ev\<rparr>"
    using assms(4) s1 by (auto simp: set_clock_def split: if_splits)
  have eq: "\<forall>x \<in> set ys. ?ev x = s_events s x" using d xs by (auto simp: negate_uid_apply)
  have bf: "\<forall>x \<in> set ys. before (s_events s) p x" using a xs by (auto simp: agenda_def)
  have "rep ?ev (s_uid s) q ys" by (rule rep_frame [OF q]) (use eq in auto)
  moreover have "pending ?ev ys" using pending_negate [OF inv(2) _ d, of p] xs by simp
  moreover have "\<forall>x \<in> set ys. ev_time (s_events s p) \<le> ev_time (?ev x)" using eq bf by (auto simp: before_def)
  moreover have "\<forall>x \<in> set tr. earlier x (due (s_events s) p)" using assms(1) xs by (auto simp: trace_inv_def)
  moreover have "\<forall>x \<in> set tr. fst x \<le> ev_time (s_events s p)" using calculation(4) by (auto simp: earlier_def due_def)
  moreover have "\<forall>x \<in> set ys. earlier (due (s_events s) p) (due ?ev x)" using bf eq by (auto simp: earlier_due [symmetric] due_def)
  moreover have "\<forall>d \<in> set tr. \<forall>x \<in> set ys. earlier d (due ?ev x)" using assms(1) xs eq by (auto simp: trace_inv_def due_def)
  moreover have "accounted ((ev_time (s_events s p), ev_uid (s_events s p)) # tr) cs ((\<lambda>x. ev_uid (?ev x)) ` set ys) (s_uid s)"
  proof -
    have "(\<lambda>x. ev_uid (?ev x)) ` set ys = (\<lambda>x. ev_uid (s_events s x)) ` set ys" using eq by auto
    moreover have "ev_uid (s_events s p) \<notin> (\<lambda>x. ev_uid (s_events s x)) ` set ys" using a xs d by (auto simp: agenda_def inj_on_def)
    moreover have "accounted tr cs (insert (ev_uid (s_events s p)) ((\<lambda>x. ev_uid (s_events s x)) ` set ys)) (s_uid s)"
      using assms(1) xs by (simp add: trace_inv_def)
    ultimately show ?thesis using accounted_dispatch by simp
  qed
  moreover have "ev_uid (s_events s p) < s_uid s" using a xs by (auto simp: agenda_def)
  moreover have "t_ok (ev_time (s_events s p))"
    using assms(1) t_ok_mono [of "s_clock s" "ev_time (s_events s p)"] xs by (simp add: trace_inv_def)
  ultimately have "trace_inv t_ok rep ((ev_time (s_events s p), ev_uid (s_events s p)) # tr) cs s2 ys"
    using assms(1) xs unfolding trace_inv_def s2 by (auto simp: due_def)
  then show ?thesis using s1 by auto
qed

lemma trace_uid: "sim_trace ops dadd q_empty t0 tr cs s \<Longrightarrow> s_uid s < 2 ^ 63"
proof (induction rule: sim_trace.induct)
  case (trace_schedule tr cs s delay h e s')
  then show ?case using schedule_uid_le [OF trace_schedule.hyps(3)] by (simp add: uid_le_def)
next
  case (trace_cancel tr cs s e s')
  then show ?case using cancel_uid_le [OF trace_cancel.hyps(2)] by (simp add: uid_le_def)
next
  case (trace_dispatch tr cs s p s1 s2)
  then show ?case using next_event_uid [OF trace_dispatch.hyps(2)] set_clock_uid [OF trace_dispatch.hyps(4)] by simp
qed (simp add: sim_start_def)

lemma trace_invariant:
  assumes "sim_trace ops dadd q_empty t0 tr cs s" "t_ok t0"
  shows "in_range lim s \<Longrightarrow> \<exists>xs. trace_inv t_ok rep tr cs s xs"
  using assms(1)
proof (induction rule: sim_trace.induct)
  case (trace_start s)
  then show ?case using trace_inv_start assms(2) by blast
next
  case (trace_schedule tr cs s delay h e s')
  have "in_range lim s"
    by (rule in_range_back [OF schedule_uid_le [OF trace_schedule.hyps(3)] trace_schedule.prems trace_uid [OF trace_schedule.hyps(1)]])
  then obtain xs where "trace_inv t_ok rep tr cs s xs" using trace_schedule.IH by blast
  then show ?case using trace_schedule.hyps(2,3) trace_schedule.prems by (intro trace_inv_schedule)
next
  case (trace_cancel tr cs s e s')
  have "in_range lim s"
    by (rule in_range_back [OF cancel_uid_le [OF trace_cancel.hyps(2)] trace_cancel.prems trace_uid [OF trace_cancel.hyps(1)]])
  then obtain xs where "trace_inv t_ok rep tr cs s xs" using trace_cancel.IH by blast
  then show ?case using trace_cancel.hyps(2) by (rule trace_inv_cancel)
next
  case (trace_dispatch tr cs s p s1 s2)
  have "s_uid s2 = s_uid s" using next_event_uid [OF trace_dispatch.hyps(2)] set_clock_uid [OF trace_dispatch.hyps(4)] by simp
  then have "in_range lim s" using trace_dispatch.prems by (simp add: in_range_def)
  then obtain xs where "trace_inv t_ok rep tr cs s xs" using trace_dispatch.IH by blast
  then show ?case using trace_dispatch.hyps(2-4) by (rule trace_inv_dispatch)
qed

text \<open>A queue that represents an agenda holds its events, in the order of the agenda.\<close>

lemma rep_drain: "rep ev n q xs \<Longrightarrow> drain (Suc (length xs)) ops ev q = Some xs"
proof (induction xs arbitrary: q)
  case Nil
  then show ?case using deque_law [OF Nil] by auto
next
  case (Cons x xs)
  from deque_law [OF Cons.prems] obtain q' where q': "sq_deque ops ev q = Some (x, q')" "rep ev n q' xs" by auto
  have "x \<noteq> 0" using rep_agenda [OF Cons.prems] by (auto simp: agenda_def)
  with q' Cons.IH [OF q'(2)] show ?case unfolding length_Cons by (subst drain.simps(2)) (simp del: drain.simps)
qed

lemma trace_agenda:
  assumes "sim_trace ops dadd q_empty t0 tr cs s" "t_ok t0" "in_range lim s"
  obtains xs q where "trace_inv t_ok rep tr cs s xs" "queued ops s xs" "sorted_wrt (before (s_events s)) xs"
    "\<forall>e. 0 < ev_uid (s_events s e) \<longleftrightarrow> e \<in> set xs" "0 \<notin> set xs" "\<forall>e \<in> set xs. s_clock s \<le> ev_time (s_events s e)"
    "next_event ops s = Some (agenda_head xs, s\<lparr>s_queue := q\<rparr>)"
proof -
  obtain xs where inv: "trace_inv t_ok rep tr cs s xs" using trace_invariant [OF assms] by blast
  obtain q where n: "next_event ops s = Some (agenda_head xs, s\<lparr>s_queue := q\<rparr>)" by (rule trace_inv_next [OF inv])
  have r: "rep (s_events s) (s_uid s) (s_queue s) xs" using inv by (simp add: trace_inv_def)
  show thesis
  proof (rule that [OF inv _ _ _ _ _ n])
    show "queued ops s xs" unfolding queued_def by (rule rep_drain [OF r])
    show "sorted_wrt (before (s_events s)) xs" "0 \<notin> set xs" using rep_agenda [OF r] by (auto simp: agenda_def)
    show "\<forall>e. 0 < ev_uid (s_events s e) \<longleftrightarrow> e \<in> set xs" "\<forall>e \<in> set xs. s_clock s \<le> ev_time (s_events s e)"
      using inv by (auto simp: trace_inv_def pending_def)
  qed
qed

lemma trace_orderly:
  assumes "sim_trace ops dadd q_empty t0 tr cs s" "t_ok t0" "in_range lim s"
  shows "orderly ops tr cs s"
proof -
  obtain xs q where "trace_inv t_ok rep tr cs s xs" "queued ops s xs" "sorted_wrt (before (s_events s)) xs"
    "\<forall>e. 0 < ev_uid (s_events s e) \<longleftrightarrow> e \<in> set xs" "\<forall>e \<in> set xs. s_clock s \<le> ev_time (s_events s e)"
    "next_event ops s = Some (agenda_head xs, s\<lparr>s_queue := q\<rparr>)" using trace_agenda [OF assms] .
  then show ?thesis unfolding orderly_def by (intro conjI exI [of _ xs]) (auto simp: trace_inv_def)
qed

lemma start_same:
  assumes "sim_start q_empty s" "sim_start [] a" "s_clock s = s_clock a" "s_halted s = s_halted a" "s_events s = s_events a" "t_ok (s_clock a)"
  shows "same t_ok rep s a"
  using assms rep_empty [of "s_events a"] by (force simp: same_def sim_start_def pending_def not_less)

end

section \<open>Whole simulations\<close>

text \<open>
  A simulation: the scheduler is created at the time \<open>t0\<close>, the script makes the calls \<open>cs\<close>, and \<open>run\<close> is called. Outside of the
  scheduler the clock, the counter, the flag, the events and the state of the network can be seen; \<open>lim\<close> bounds the counter.
\<close>

definition sim_new :: "'q \<Rightarrow> 't \<Rightarrow> 't events \<Rightarrow> ('t, 'q) simulator" where
  "sim_new q t0 ev = \<lparr>s_clock = t0, s_uid = 1, s_halted = False, s_events = ev, s_queue = q\<rparr>"

definition simulate ::
  "('t::linorder, 'q) sched_ops \<Rightarrow> 'q \<Rightarrow> ('t \<Rightarrow> 't \<Rightarrow> 't) \<Rightarrow> ('t, 'w) handlers \<Rightarrow> 't \<Rightarrow> 't events \<Rightarrow> 't sched_call list \<Rightarrow> 'w \<Rightarrow>
   ('t, 'q, 'w) sim_state exec" where
  "simulate ops q dadd handle t0 ev cs w = do { s \<leftarrow> do_calls ops dadd cs (sim_new q t0 ev); sched_run ops dadd handle (s, w) }"

definition simulate_rounds ::
  "nat \<Rightarrow> ('t::linorder, 'q) sched_ops \<Rightarrow> 'q \<Rightarrow> ('t \<Rightarrow> 't \<Rightarrow> 't) \<Rightarrow> ('t, 'w) handlers \<Rightarrow> 't \<Rightarrow> 't events \<Rightarrow> 't sched_call list \<Rightarrow> 'w \<Rightarrow>
   (('t, 'q, 'w) sim_state + ('t, 'q, 'w) sim_state) exec" where
  "simulate_rounds n ops q dadd handle t0 ev cs w =
     do { s \<leftarrow> do_calls ops dadd cs (sim_new q t0 ev); sched_rounds n ops dadd handle (s, w) }"

definition visible :: "int \<Rightarrow> ('t, 'q, 'w) sim_state \<Rightarrow> ('t \<times> int \<times> bool \<times> 't events \<times> 'w) option" where
  "visible lim = (\<lambda>(s, w). if in_range lim s then Some (s_clock s, s_uid s, s_halted s, s_events s, w) else None)"

definition visible_round :: "int \<Rightarrow> ('t, 'q, 'w) sim_state + ('t, 'q, 'w) sim_state \<Rightarrow>
    (('t \<times> int \<times> bool \<times> 't events \<times> 'w) + ('t \<times> int \<times> bool \<times> 't events \<times> 'w)) option" where
  "visible_round lim r = (case r of Inl sw \<Rightarrow> map_option Inl (visible lim sw) | Inr sw \<Rightarrow> map_option Inr (visible lim sw))"

lemma sim_new_start: "(\<And>e. ev_uid (ev e) \<le> 0) \<Longrightarrow> sim_start q (sim_new q t0 ev)"
  by (simp add: sim_start_def sim_new_def)

lemma simulate_Some: "simulate ops q dadd handle t0 ev cs w = Some sw \<longleftrightarrow> (\<exists>n. simulate_rounds n ops q dadd handle t0 ev cs w = Some (Inl sw))"
  by (cases "do_calls ops dadd cs (sim_new q t0 ev)") (simp_all add: simulate_def simulate_rounds_def run_rounds)

lemma visible_round_Inl: "visible_round lim r = Some (Inl v) \<longleftrightarrow> (\<exists>sw. r = Inl sw \<and> visible lim sw = Some v)"
  by (cases r) (simp_all add: visible_round_def del: split_paired_Ex)

lemma simulate_visible: "Option.bind (simulate ops q dadd handle t0 ev cs w) (visible lim) = Some v \<longleftrightarrow>
    (\<exists>n. Option.bind (simulate_rounds n ops q dadd handle t0 ev cs w) (visible_round lim) = Some (Inl v))"
  unfolding bind_eq_Some_conv simulate_Some visible_round_Inl by blast

lemma agree_visible:
  assumes "agree P Q R f g" "\<And>x y. R x y \<Longrightarrow> h x = h' y" "\<And>x v. h x = Some v \<Longrightarrow> P x" "\<And>y v. h' y = Some v \<Longrightarrow> Q y"
  shows "Option.bind f h = Option.bind g h'"
proof -
  have "Option.bind g h' = Some v" if "Option.bind f h = Some v" for v
    using that agreeD(1) [OF assms(1)] assms(2,3) by (fastforce simp: bind_eq_Some_conv)
  moreover have "Option.bind f h = Some v" if "Option.bind g h' = Some v" for v
    using that agreeD(2) [OF assms(1)] assms(2,4) by (fastforce simp: bind_eq_Some_conv)
  ultimately show ?thesis by (cases "Option.bind f h"; cases "Option.bind g h'") auto
qed

context event_queue
begin

lemma visible_same: "same t_ok rep s a \<Longrightarrow> visible lim' (s, w) = visible lim' (a, w)"
  by (simp add: visible_def same_def in_range_def)

lemma visible_range: "visible lim' sw = Some v \<Longrightarrow> lim' \<le> lim \<Longrightarrow> in_range lim (fst sw)"
  by (auto simp: visible_def in_range_def split: if_splits prod.splits)

lemma simulate_rounds_same:
  assumes "handlers_ok dadd handle" "calls_ok dadd t0 cs" "t_ok t0" "lim' \<le> lim" "\<And>e. ev_uid (ev e) \<le> 0"
  shows "Option.bind (simulate_rounds n ops q_empty dadd handle t0 ev cs w) (visible_round lim') =
    Option.bind (simulate_rounds n agenda_scheduler [] dadd handle t0 ev cs w) (visible_round lim')"
proof (rule agree_visible)
  let ?s = "sim_new q_empty t0 ev" and ?a = "sim_new [] t0 ev"
  have st: "same t_ok rep ?s ?a" using assms(3,5) by (intro start_same sim_new_start) (simp_all add: sim_new_def)
  show "round_agree (simulate_rounds n ops q_empty dadd handle t0 ev cs w) (simulate_rounds n agenda_scheduler [] dadd handle t0 ev cs w)"
    unfolding simulate_rounds_def
  proof (rule agree_bind [OF do_calls_same [OF st]])
    show "calls_ok dadd (s_clock ?a) cs" using assms(2) by (simp add: sim_new_def)
    show "round_agree (sched_rounds n ops dadd handle (x, w)) (sched_rounds n agenda_scheduler dadd handle (y, w))" if "same t_ok rep x y" for x y
      by (rule rounds_same [OF that assms(1)])
    show "in_range lim x" if "do_calls ops dadd cs ?s = Some x" "sched_rounds n ops dadd handle (x, w) = Some x'" "in_range lim (fst (round_state x'))" for x x'
      using in_range_back [OF rounds_uid_le [OF that(2)] that(3)] do_calls_uid_le [OF that(1)] by (simp add: uid_le_def sim_new_def)
    show "in_range lim x" if "do_calls agenda_scheduler dadd cs ?a = Some x" "sched_rounds n agenda_scheduler dadd handle (x, w) = Some x'"
      "in_range lim (fst (round_state x'))" for x x'
      using in_range_back [OF rounds_uid_le [OF that(2)] that(3)] do_calls_uid_le [OF that(1)] by (simp add: uid_le_def sim_new_def)
  qed
qed (auto simp: visible_round_def visible_same split: sum.splits elim!: rel_sum.cases dest: visible_range [OF _ assms(4)])

lemma simulate_same:
  assumes "handlers_ok dadd handle" "calls_ok dadd t0 cs" "t_ok t0" "lim' \<le> lim" "\<And>e. ev_uid (ev e) \<le> 0"
  shows "Option.bind (simulate ops q_empty dadd handle t0 ev cs w) (visible lim') =
    Option.bind (simulate agenda_scheduler [] dadd handle t0 ev cs w) (visible lim')"
proof -
  have "Option.bind (simulate ops q_empty dadd handle t0 ev cs w) (visible lim') = Some v \<longleftrightarrow>
    Option.bind (simulate agenda_scheduler [] dadd handle t0 ev cs w) (visible lim') = Some v" for v
    unfolding simulate_visible simulate_rounds_same [OF assms] ..
  then show ?thesis by (metis not_Some_eq)
qed

end

end
