(* ===== verification/List_Scheduler.thy ===== *)
theory List_Scheduler
  imports Sim_Scheduler
begin

text \<open>
  \<^verbatim>\<open>ListScheduler\<close> of \<^verbatim>\<open>src/ns-2.34/common/scheduler.cc\<close>: the pending events in a singly linked list, with explicit
  pointers. The loops of the code move the address of a link, which is the head \<open>queue_\<close> or the field \<open>next_\<close> of an event.
\<close>

section \<open>The linked list\<close>

record list_sched =
  ls_queue :: event_ptr
  ls_next :: "event_ptr \<Rightarrow> event_ptr"

datatype link = QueueLink | NextLink event_ptr

fun deref :: "list_sched \<Rightarrow> link \<Rightarrow> event_ptr" where
  "deref q QueueLink = ls_queue q"
| "deref q (NextLink a) = ls_next q a"

fun assign :: "link \<Rightarrow> event_ptr \<Rightarrow> list_sched \<Rightarrow> list_sched" where
  "assign QueueLink v q = q\<lparr>ls_queue := v\<rparr>"
| "assign (NextLink a) v q = q\<lparr>ls_next := (ls_next q)(a := v)\<rparr>"

partial_function (option) ls_seek :: "'t::linorder events \<Rightarrow> 't \<Rightarrow> list_sched \<Rightarrow> link \<Rightarrow> link exec" where
  "ls_seek ev t q p =
     (if deref q p = 0 then Some p
      else if t < ev_time (ev (deref q p)) then Some p
      else ls_seek ev t q (NextLink (deref q p)))"

definition ls_insert :: "'t::linorder events \<Rightarrow> event_ptr \<Rightarrow> list_sched \<Rightarrow> list_sched exec" where
  "ls_insert ev e q = do {
     p \<leftarrow> ls_seek ev (ev_time (ev e)) q QueueLink;
     let q = q\<lparr>ls_next := (ls_next q)(e := deref q p)\<rparr>;
     Some (assign p e q)
   }"

partial_function (option) ls_find :: "event_ptr \<Rightarrow> list_sched \<Rightarrow> link \<Rightarrow> link exec" where
  "ls_find e q p =
     (if deref q p = e then Some p
      else if deref q p = 0 then None
      else ls_find e q (NextLink (deref q p)))"

definition ls_cancel :: "event_ptr \<Rightarrow> 't events \<times> list_sched \<Rightarrow> ('t events \<times> list_sched) exec" where
  "ls_cancel e = (\<lambda>(ev, q).
     if ev_uid (ev e) \<le> 0 then Some (ev, q)
     else do {
       p \<leftarrow> ls_find e q QueueLink;
       Some (negate_uid e ev, assign p (ls_next q (deref q p)) q)
     })"

partial_function (option) ls_walk :: "'t events \<Rightarrow> int \<Rightarrow> list_sched \<Rightarrow> event_ptr \<Rightarrow> event_ptr exec" where
  "ls_walk ev u q e =
     (if e = 0 then Some e
      else if ev_uid (ev e) = u then Some e
      else ls_walk ev u q (ls_next q e))"

definition ls_lookup :: "'t events \<Rightarrow> int \<Rightarrow> list_sched \<Rightarrow> (event_ptr \<times> list_sched) exec" where
  "ls_lookup ev u q = do { e \<leftarrow> ls_walk ev u q (ls_queue q); Some (e, q) }"

definition ls_deque :: "'t events \<Rightarrow> list_sched \<Rightarrow> (event_ptr \<times> list_sched) exec" where
  "ls_deque ev q =
     (let e = ls_queue q in Some (e, if e \<noteq> 0 then q\<lparr>ls_queue := ls_next q e\<rparr> else q))"

definition ls_head :: "'t events \<Rightarrow> list_sched \<Rightarrow> (event_ptr \<times> list_sched) exec" where
  "ls_head ev q = Some (ls_queue q, q)"

definition list_scheduler :: "('t::linorder, list_sched) sched_ops" where
  "list_scheduler = \<lparr>sq_insert = ls_insert, sq_cancel = ls_cancel, sq_lookup = ls_lookup, sq_head = ls_head, sq_deque = ls_deque\<rparr>"

definition ls_new :: list_sched where
  "ls_new = \<lparr>ls_queue = 0, ls_next = (\<lambda>_. 0)\<rparr>"

declare ls_seek.simps [code] ls_find.simps [code] ls_walk.simps [code]

section \<open>The events of a list\<close>

fun chain :: "(event_ptr \<Rightarrow> event_ptr) \<Rightarrow> event_ptr \<Rightarrow> event_ptr list \<Rightarrow> bool" where
  "chain nx a [] \<longleftrightarrow> a = 0"
| "chain nx a (x # xs) \<longleftrightarrow> a = x \<and> x \<noteq> 0 \<and> chain nx (nx x) xs"

lemma chain_upd [simp]: "a \<notin> set xs \<Longrightarrow> chain (nx(a := v)) b xs = chain nx b xs"
  by (induction xs arbitrary: b) auto

text \<open>The link behind a prefix of the list.\<close>

definition link_after :: "event_ptr list \<Rightarrow> link" where
  "link_after ps = (if ps = [] then QueueLink else NextLink (last ps))"

definition ls_holds :: "list_sched \<Rightarrow> event_ptr list \<Rightarrow> bool" where
  "ls_holds q xs \<longleftrightarrow> chain (ls_next q) (ls_queue q) xs"

lemma chain_suffix: "chain nx a (ps @ ys) \<Longrightarrow> ps \<noteq> [] \<Longrightarrow> chain nx (nx (last ps)) ys"
  by (induction ps arbitrary: a) (auto split: if_splits)

lemma chain_link: "ls_holds q (ps @ ys) \<Longrightarrow> chain (ls_next q) (deref q (link_after ps)) ys"
  using chain_suffix [of "ls_next q" "ls_queue q" ps ys] by (cases "ps = []") (simp_all add: ls_holds_def link_after_def)

lemma deref_link: "ls_holds q (ps @ ys) \<Longrightarrow> deref q (link_after ps) = agenda_head ys"
  using chain_link [of q ps ys] by (cases ys) auto

lemma chain_replace:
  assumes "chain nx a (ps @ ys)" "chain nx b zs" "ps \<noteq> []" "last ps \<notin> set zs" "distinct ps"
  shows "chain (nx(last ps := b)) a (ps @ zs)"
  using assms by (induction ps arbitrary: a) (auto split: if_splits)

lemma assign_link:
  assumes "ls_holds q (ps @ ys)" "chain (ls_next q) b zs" "distinct ps" "set ps \<inter> set zs = {}"
  shows "ls_holds (assign (link_after ps) b q) (ps @ zs)"
proof (cases "ps = []")
  case False
  then have "last ps \<notin> set zs" using assms(4) last_in_set by blast
  then show ?thesis using chain_replace [OF _ assms(2) False _ assms(3)] assms(1) False by (simp add: ls_holds_def link_after_def)
qed (use assms in \<open>simp add: ls_holds_def link_after_def\<close>)

lemma ls_holds_suffix: "ls_holds q (ps @ y # ys) \<Longrightarrow> chain (ls_next q) (ls_next q y) ys"
  using chain_suffix [of "ls_next q" "ls_queue q" "ps @ [y]" ys] by (simp add: ls_holds_def)

lemma link_after_snoc: "link_after (ps @ [y]) = NextLink y"
  by (simp add: link_after_def)

lemma ls_holds_nonnull: "ls_holds q xs \<Longrightarrow> 0 \<notin> set xs"
proof -
  have "chain nx a xs \<Longrightarrow> 0 \<notin> set xs" for nx a by (induction xs arbitrary: a) auto
  then show "ls_holds q xs \<Longrightarrow> 0 \<notin> set xs" by (auto simp: ls_holds_def)
qed

lemma ls_seek_link:
  assumes "ls_holds q (ps @ ys)"
  shows "ls_seek ev t q (link_after ps) = Some (link_after (ps @ takeWhile (\<lambda>x. ev_time (ev x) \<le> t) ys))"
  using assms
proof (induction ys arbitrary: ps)
  case Nil
  then show ?case using deref_link [OF Nil] by (simp add: ls_seek.simps)
next
  case (Cons y ys)
  have d: "deref q (link_after ps) = y" "y \<noteq> 0" using deref_link [OF Cons.prems] ls_holds_nonnull [OF Cons.prems] by auto
  have "ls_seek ev t q (NextLink y) = Some (link_after ((ps @ [y]) @ takeWhile (\<lambda>x. ev_time (ev x) \<le> t) ys))"
    using Cons.IH [of "ps @ [y]"] Cons.prems by (simp add: link_after_snoc)
  then show ?case using d by (auto simp: ls_seek.simps [of ev t q "link_after ps"] not_less)
qed

lemma ls_insert_holds:
  assumes "ls_holds q xs" "distinct xs" "e \<noteq> 0" "e \<notin> set xs"
  shows "\<exists>q'. ls_insert ev e q = Some q' \<and> ls_holds q' (agenda_insert ev e xs)"
proof -
  let ?P = "\<lambda>x. ev_time (ev x) \<le> ev_time (ev e)"
  let ?ps = "takeWhile ?P xs" and ?ys = "dropWhile ?P xs"
  have h: "ls_holds q (?ps @ ?ys)" using assms(1) by simp
  have seek: "ls_seek ev (ev_time (ev e)) q QueueLink = Some (link_after ?ps)"
    using ls_seek_link [of q "[]" xs ev "ev_time (ev e)"] assms(1) by (simp add: link_after_def)
  let ?q = "q\<lparr>ls_next := (ls_next q)(e := deref q (link_after ?ps))\<rparr>"
  have e: "e \<notin> set ?ps" "e \<notin> set ?ys" using assms(4) by (auto dest: set_takeWhileD set_dropWhileD)
  have "ls_holds ?q (?ps @ ?ys)" using h assms(4) e by (simp add: ls_holds_def)
  moreover have "chain (ls_next ?q) e (e # ?ys)"
    using chain_link [OF h] e assms(3) by simp
  moreover have "distinct ?ps" "set ?ps \<inter> set (e # ?ys) = {}"
    using assms(2) e distinct_append [of ?ps ?ys] by auto
  ultimately have "ls_holds (assign (link_after ?ps) e ?q) (?ps @ e # ?ys)" by (rule assign_link)
  then show ?thesis using seek by (simp add: ls_insert_def agenda_insert_def)
qed

lemma ls_find_link:
  assumes "ls_holds q (ps @ ys @ e # zs)" "e \<notin> set ys" "e \<noteq> 0"
  shows "ls_find e q (link_after ps) = Some (link_after (ps @ ys))"
  using assms
proof (induction ys arbitrary: ps)
  case Nil
  then show ?case using deref_link [of q ps "e # zs"] by (simp add: ls_find.simps)
next
  case (Cons y ys)
  have d: "deref q (link_after ps) = y" "y \<noteq> 0" "y \<noteq> e"
    using deref_link [OF Cons.prems(1)] ls_holds_nonnull [OF Cons.prems(1)] Cons.prems by auto
  have "ls_find e q (NextLink y) = Some (link_after ((ps @ [y]) @ ys))"
    using Cons.IH [of "ps @ [y]"] Cons.prems by (simp add: link_after_snoc)
  then show ?case using d by (simp add: ls_find.simps [of e q "link_after ps"])
qed

lemma ls_cancel_holds:
  assumes "ls_holds q xs" "distinct xs" "e \<in> set xs" "0 < ev_uid (ev e)"
  shows "\<exists>q'. ls_cancel e (ev, q) = Some (negate_uid e ev, q') \<and> ls_holds q' (remove1 e xs)"
proof -
  obtain ps zs where xs: "xs = ps @ e # zs" "e \<notin> set ps" using assms(3) by (meson split_list_first)
  have e: "e \<noteq> 0" using ls_holds_nonnull [OF assms(1)] assms(3) by metis
  have f: "ls_find e q QueueLink = Some (link_after ps)"
    using ls_find_link [of q "[]" ps e zs] assms(1) xs e by (simp add: link_after_def)
  have "deref q (link_after ps) = e" using deref_link [of q ps "e # zs"] assms(1) xs by simp
  moreover have "ls_holds (assign (link_after ps) (ls_next q e) q) (ps @ zs)"
    using assms(1,2) xs ls_holds_suffix [of q ps e zs] by (intro assign_link [of q ps "e # zs"]) auto
  ultimately show ?thesis using f assms(4) xs by (simp add: ls_cancel_def remove1_append)
qed

lemma ls_walk_find: "chain (ls_next q) a xs \<Longrightarrow> ls_walk ev u q a = Some (agenda_find ev u xs)"
  by (induction xs arbitrary: a) (auto simp: ls_walk.simps agenda_find_def)

section \<open>The list implements the interface\<close>

definition ls_rep :: "'t::linorder events \<Rightarrow> int \<Rightarrow> list_sched \<Rightarrow> event_ptr list \<Rightarrow> bool" where
  "ls_rep ev n q xs \<longleftrightarrow> agenda ev n xs \<and> ls_holds q xs"

interpretation list_queue: event_queue "list_scheduler :: ('t::linorder, list_sched) sched_ops" ls_new "2 ^ 63" "\<lambda>_. True" ls_rep
proof (unfold_locales, goal_cases)
  case 1
  then show ?case by (simp add: ls_rep_def ls_holds_def ls_new_def)
next
  case 2
  then show ?case by simp
next
  case 3
  then show ?case by (simp add: ls_rep_def)
next
  case 4
  then show ?case by (auto simp: ls_rep_def intro: agenda_frame)
next
  case (5 ev n q xs e)
  then show ?case using ls_insert_holds [of q xs e ev] agenda_insert_agenda [of ev n xs e] agenda_distinct
    by (force simp: ls_rep_def list_scheduler_def)
next
  case (6 ev n q xs e)
  then show ?case using ls_cancel_holds [of q xs e ev] agenda_distinct [of ev n xs] agenda_cancel [of ev n xs e]
    by (auto simp: ls_rep_def list_scheduler_def)
next
  case 7
  then show ?case by (simp add: list_scheduler_def ls_cancel_def)
next
  case (8 ev n q xs u)
  then show ?case using ls_walk_find [of q "ls_queue q" xs ev u] by (auto simp: ls_rep_def list_scheduler_def ls_lookup_def ls_holds_def)
next
  case (9 ev n q xs)
  then show ?case by (cases xs) (auto simp: ls_rep_def list_scheduler_def ls_head_def ls_holds_def)
next
  case (10 ev n q xs)
  then show ?case by (cases xs) (auto simp: ls_rep_def list_scheduler_def ls_deque_def ls_holds_def agenda_tl)
qed

end
