(* ===== verification/Heap_Scheduler.thy ===== *)
theory Heap_Scheduler
  imports Sim_Scheduler "HOL-Library.Multiset"
begin

text \<open>
  \<^verbatim>\<open>Heap\<close> and \<^verbatim>\<open>HeapScheduler\<close> of \<^verbatim>\<open>src/ns-2.34/common/heap.h\<close> and \<^verbatim>\<open>scheduler.cc\<close>: the pending events in an implicit binary
  heap, ordered by time and by a secondary key that counts the insertions in an \<^verbatim>\<open>unsigned int\<close>. The array is a list of
  \<open>h_maxsize\<close> elements, accesses outside give no result; sizes and indices are natural numbers.
\<close>

section \<open>The heap\<close>

record 't heap_elem =
  he_key :: 't
  he_s_key :: u32
  he_elem :: event_ptr

record 't heap =
  h_elems :: "'t heap_elem list"
  h_s_key :: u32
  h_size :: nat
  h_maxsize :: nat
  h_iter :: nat

definition parent :: "nat \<Rightarrow> nat" where "parent i = (i - 1) div 2"
definition left :: "nat \<Rightarrow> nat" where "left i = i * 2 + 1"
definition right :: "nat \<Rightarrow> nat" where "right i = (i + 1) * 2"

definition h_get :: "'a list \<Rightarrow> nat \<Rightarrow> 'a exec" where
  "h_get es i = (if i < length es then Some (es ! i) else None)"

definition h_put :: "'a list \<Rightarrow> nat \<Rightarrow> 'a \<Rightarrow> 'a list exec" where
  "h_put es i v = (if i < length es then Some (es[i := v]) else None)"

definition h_swap :: "'a list \<Rightarrow> nat \<Rightarrow> nat \<Rightarrow> 'a list exec" where
  "h_swap es i j = do { a \<leftarrow> h_get es i; b \<leftarrow> h_get es j; es \<leftarrow> h_put es i b; h_put es j a }"

definition KEY_LESS_THAN :: "'t::linorder heap_elem \<Rightarrow> 't heap_elem \<Rightarrow> bool" where
  "KEY_LESS_THAN a b \<longleftrightarrow> he_key a < he_key b \<or> he_key a = he_key b \<and> he_s_key a < he_s_key b"

text \<open>\<open>blank\<close> is the content of a cleared cell.\<close>

definition Heap :: "nat \<Rightarrow> 't heap_elem \<Rightarrow> 't heap" where
  "Heap n blank = \<lparr>h_elems = replicate n blank, h_s_key = 0, h_size = 0, h_maxsize = n, h_iter = 0\<rparr>"

text \<open>
  The code leaves the second half of the new array uninitialised; here it has some content. What the heap holds depends on
  the first \<open>h_size\<close> cells only.
\<close>

definition heap_grow :: "'t heap \<Rightarrow> 't heap" where
  "heap_grow h =
     (if h_maxsize h = h_size h
      then h\<lparr>h_maxsize := h_maxsize h * 2, h_elems := h_elems h @ h_elems h\<rparr>
      else h)"

function sift_up :: "'t::linorder heap_elem \<Rightarrow> 't heap_elem list \<Rightarrow> nat \<Rightarrow> (nat \<times> 't heap_elem list) exec" where
  "sift_up new es i =
     (if i > 0 then do {
        p \<leftarrow> h_get es (parent i);
        if KEY_LESS_THAN new p then do { es \<leftarrow> h_put es i p; sift_up new es (parent i) } else Some (i, es)
      }
      else Some (i, es))"
  by pat_completeness auto
termination by (relation "measure (\<lambda>(new, es, i). i)") (auto simp: parent_def)

definition heap_insert :: "'t::linorder \<Rightarrow> event_ptr \<Rightarrow> 't heap \<Rightarrow> 't heap exec" where
  "heap_insert key e h = do {
     let h = heap_grow h;
     let new = \<lparr>he_key = key, he_s_key = h_s_key h, he_elem = e\<rparr>;
     (i, es) \<leftarrow> sift_up new (h_elems h) (h_size h);
     es \<leftarrow> h_put es i new;
     Some (h\<lparr>h_elems := es, h_size := h_size h + 1, h_s_key := h_s_key h + 1\<rparr>)
   }"

definition heap_child :: "nat \<Rightarrow> 't::linorder heap_elem list \<Rightarrow> nat \<Rightarrow> nat exec" where
  "heap_child n es i =
     (if right i < n then do {
        a \<leftarrow> h_get es (left i);
        b \<leftarrow> h_get es (right i);
        Some (if KEY_LESS_THAN a b then left i else right i)
      }
      else Some (if left i < n then left i else i))"

lemma heap_child_greater: "heap_child n es i = Some x \<Longrightarrow> x \<noteq> i \<Longrightarrow> i < x \<and> x < n"
  by (auto simp: heap_child_def left_def right_def split: if_splits Option.bind_splits)

function sift_down :: "nat \<Rightarrow> 't::linorder heap_elem list \<Rightarrow> nat \<Rightarrow> 't heap_elem list exec" where
  "sift_down n es i =
     (if i < n then
        case heap_child n es i of
          None \<Rightarrow> None
        | Some x \<Rightarrow>
            if x \<noteq> i then do {
              a \<leftarrow> h_get es x;
              b \<leftarrow> h_get es i;
              if KEY_LESS_THAN a b then do { es \<leftarrow> h_swap es i x; sift_down n es x } else Some es
            }
            else Some es
      else Some es)"
  by pat_completeness auto
termination
  by (relation "measure (\<lambda>(n, es, i). n - i)") (auto dest!: heap_child_greater)

definition heap_extract_min :: "'t::linorder heap \<Rightarrow> (event_ptr \<times> 't heap) exec" where
  "heap_extract_min h =
     (if h_size h = 0 then Some (0, h)
      else do {
        mn \<leftarrow> h_get (h_elems h) 0;
        lst \<leftarrow> h_get (h_elems h) (h_size h - 1);
        es \<leftarrow> h_put (h_elems h) 0 lst;
        es \<leftarrow> sift_down (h_size h - 1) es 0;
        Some (he_elem mn, h\<lparr>h_elems := es, h_size := h_size h - 1\<rparr>)
      })"

function heap_member_from :: "'t heap_elem list \<Rightarrow> nat \<Rightarrow> event_ptr \<Rightarrow> nat \<Rightarrow> nat exec" where
  "heap_member_from es n e i =
     (if i < n then do {
        a \<leftarrow> h_get es i;
        if he_elem a = e then Some (i + 1) else heap_member_from es n e (i + 1)
      }
      else Some 0)"
  by pat_completeness auto
termination by (relation "measure (\<lambda>(es, n, e, i). n - i)") auto

definition heap_member :: "event_ptr \<Rightarrow> 't heap \<Rightarrow> nat exec" where
  "heap_member e h = heap_member_from (h_elems h) (h_size h) e 0"

function lift_to_root :: "'t heap_elem list \<Rightarrow> nat \<Rightarrow> 't heap_elem list exec" where
  "lift_to_root es i = (if i > 0 then do { es \<leftarrow> h_swap es i (parent i); lift_to_root es (parent i) } else Some es)"
  by pat_completeness auto
termination by (relation "measure snd") (auto simp: parent_def)

definition heap_delete :: "event_ptr \<Rightarrow> 't::linorder heap \<Rightarrow> (nat \<times> 't heap) exec" where
  "heap_delete e h = do {
     i \<leftarrow> heap_member e h;
     if i = 0 then Some (0, h)
     else do {
       es \<leftarrow> lift_to_root (h_elems h) (i - 1);
       (_, h) \<leftarrow> heap_extract_min (h\<lparr>h_elems := es\<rparr>);
       Some (1, h)
     }
   }"

definition heap_min :: "'t heap \<Rightarrow> event_ptr exec" where
  "heap_min h = (if h_size h > 0 then do { a \<leftarrow> h_get (h_elems h) 0; Some (he_elem a) } else Some 0)"

definition heap_iter_init :: "'t heap \<Rightarrow> (event_ptr \<times> 't heap) exec" where
  "heap_iter_init h = do { let h = h\<lparr>h_iter := 1\<rparr>; e \<leftarrow> heap_min h; Some (e, h) }"

definition heap_iter :: "'t heap \<Rightarrow> (event_ptr \<times> 't heap) exec" where
  "heap_iter h =
     (if h_iter h \<ge> h_size h then Some (0, h\<lparr>h_iter := 0\<rparr>)
      else do { a \<leftarrow> h_get (h_elems h) (h_iter h); Some (he_elem a, h\<lparr>h_iter := h_iter h + 1\<rparr>) })"

declare sift_up.simps [simp del] sift_down.simps [simp del] heap_member_from.simps [simp del] lift_to_root.simps [simp del]

section \<open>The scheduler\<close>

definition hs_insert :: "'t::linorder events \<Rightarrow> event_ptr \<Rightarrow> 't heap \<Rightarrow> 't heap exec" where
  "hs_insert ev e h = heap_insert (ev_time (ev e)) e h"

definition hs_cancel :: "event_ptr \<Rightarrow> 't::linorder events \<times> 't heap \<Rightarrow> ('t events \<times> 't heap) exec" where
  "hs_cancel e = (\<lambda>(ev, h).
     if ev_uid (ev e) \<le> 0 then Some (ev, h)
     else do { (_, h) \<leftarrow> heap_delete e h; Some (negate_uid e ev, h) })"

partial_function (option) hs_search :: "'t events \<Rightarrow> int \<Rightarrow> event_ptr \<Rightarrow> 't heap \<Rightarrow> (event_ptr \<times> 't heap) exec" where
  "hs_search ev u e h =
     (if e = 0 then Some (e, h)
      else if ev_uid (ev e) = u then Some (e, h)
      else do { (e, h) \<leftarrow> heap_iter h; hs_search ev u e h })"

declare hs_search.simps [code]

definition hs_lookup :: "'t events \<Rightarrow> int \<Rightarrow> 't heap \<Rightarrow> (event_ptr \<times> 't heap) exec" where
  "hs_lookup ev u h = do { (e, h) \<leftarrow> heap_iter_init h; hs_search ev u e h }"

definition hs_deque :: "'t::linorder events \<Rightarrow> 't heap \<Rightarrow> (event_ptr \<times> 't heap) exec" where
  "hs_deque ev h = heap_extract_min h"

definition hs_head :: "'t events \<Rightarrow> 't heap \<Rightarrow> (event_ptr \<times> 't heap) exec" where
  "hs_head ev h = do { e \<leftarrow> heap_min h; Some (e, h) }"

definition heap_scheduler :: "('t::linorder, 't heap) sched_ops" where
  "heap_scheduler = \<lparr>sq_insert = hs_insert, sq_cancel = hs_cancel, sq_lookup = hs_lookup, sq_head = hs_head, sq_deque = hs_deque\<rparr>"


section \<open>The order of the keys\<close>

definition kle :: "'t::linorder heap_elem \<Rightarrow> 't heap_elem \<Rightarrow> bool" where
  "kle a b \<longleftrightarrow> \<not> KEY_LESS_THAN b a"

lemma kle_refl [simp]: "kle a a"
  by (simp add: kle_def KEY_LESS_THAN_def)

lemma kle_trans: "kle a b \<Longrightarrow> kle b c \<Longrightarrow> kle a c"
  by (auto simp: kle_def KEY_LESS_THAN_def)

lemma less_kle: "KEY_LESS_THAN a b \<Longrightarrow> kle a b"
  by (auto simp: kle_def KEY_LESS_THAN_def)

lemma h_get_in [simp]: "i < length es \<Longrightarrow> h_get es i = Some (es ! i)"
  by (simp add: h_get_def)

lemma h_put_in [simp]: "i < length es \<Longrightarrow> h_put es i v = Some (es[i := v])"
  by (simp add: h_put_def)

lemma h_swap_in [simp]: "i < length es \<Longrightarrow> j < length es \<Longrightarrow> h_swap es i j = Some (es[i := es ! j, j := es ! i])"
  by (simp add: h_swap_def)

lemma parent_less: "0 < i \<Longrightarrow> parent i < i"
  by (auto simp: parent_def)

lemma parent_below [simp]: "0 < i \<Longrightarrow> i < n \<Longrightarrow> parent i < n" "0 < i \<Longrightarrow> parent i \<noteq> i"
  using parent_less [of i] by auto

lemma parent_children: "0 < j \<Longrightarrow> parent j = i \<longleftrightarrow> j = left i \<or> j = right i"
  by (auto simp: parent_def left_def right_def)

lemma parent_simps [simp]: "parent (left i) = i" "parent (right i) = i" "0 < left i" "0 < right i" "left i \<noteq> i" "right i \<noteq> i" "left i < right i"
  by (auto simp: parent_def left_def right_def)

section \<open>The heap property\<close>

text \<open>The heap property of the first \<open>n\<close> cells, and the same but for the pairs that the cell \<open>i\<close> belongs to.\<close>

definition heap_ordered :: "nat \<Rightarrow> 't::linorder heap_elem list \<Rightarrow> bool" where
  "heap_ordered n es \<longleftrightarrow> (\<forall>j. 0 < j \<and> j < n \<longrightarrow> kle (es ! parent j) (es ! j))"

definition heap_but :: "nat \<Rightarrow> 't::linorder heap_elem list \<Rightarrow> nat \<Rightarrow> bool" where
  "heap_but n es i \<longleftrightarrow> (\<forall>j. 0 < j \<and> j < n \<and> parent j \<noteq> i \<and> j \<noteq> i \<longrightarrow> kle (es ! parent j) (es ! j)) \<and>
     (0 < i \<longrightarrow> (\<forall>j. 0 < j \<and> j < n \<and> parent j = i \<longrightarrow> kle (es ! parent i) (es ! j)))"

lemma heap_butD:
  assumes "heap_but n es i" "0 < j" "j < n"
  shows "parent j \<noteq> i \<Longrightarrow> j \<noteq> i \<Longrightarrow> kle (es ! parent j) (es ! j)" "parent j = i \<Longrightarrow> 0 < i \<Longrightarrow> kle (es ! parent i) (es ! j)"
  using assms by (auto simp: heap_but_def)

lemma heap_ordered_but: "heap_ordered n es \<Longrightarrow> heap_but n es i"
proof -
  assume h: "heap_ordered n es"
  have "kle (es ! parent i) (es ! j)" if "0 < i" "0 < j" "j < n" "parent j = i" for j
  proof -
    have "i < n" using that parent_less [of j] by simp
    then show ?thesis using that h kle_trans [of "es ! parent i" "es ! i" "es ! j"] by (auto simp: heap_ordered_def)
  qed
  then show ?thesis using h by (auto simp: heap_but_def heap_ordered_def)
qed

lemma root_least: "heap_ordered n es \<Longrightarrow> i < n \<Longrightarrow> kle (es ! 0) (es ! i)"
proof (induction i rule: less_induct)
  case (less i)
  show ?case
  proof (cases "i = 0")
    case False
    then have "parent i < i" using parent_less [of i] by simp
    then have "kle (es ! 0) (es ! parent i)" using less by simp
    moreover have "kle (es ! parent i) (es ! i)" using less.prems False by (simp add: heap_ordered_def)
    ultimately show ?thesis by (rule kle_trans)
  qed simp
qed

text \<open>Exchanging a cell with its parent moves the exception to the parent, exchanging it with its least child to the child.\<close>

lemma heap_but_up:
  assumes "heap_but n es i" "0 < i" "i < n" "n \<le> length es"
  shows "heap_but n (es[i := es ! parent i, parent i := v]) (parent i)"
proof -
  let ?p = "parent i" and ?es = "es[i := es ! parent i, parent i := v]"
  have p: "?p < i" "?p < length es" "i < length es" using assms parent_less [OF assms(2)] by linarith+
  have "kle (?es ! parent j) (?es ! j)" if j: "0 < j" "j < n" "parent j \<noteq> ?p" "j \<noteq> ?p" for j
  proof (cases "parent j = i")
    case True
    then show ?thesis using heap_butD(2) [OF assms(1) j(1,2)] assms p j parent_less [of j] by (auto simp: nth_list_update)
  next
    case False
    then show ?thesis using heap_butD(1) [OF assms(1) j(1,2)] assms p j by (auto simp: nth_list_update)
  qed
  moreover have "kle (?es ! parent ?p) (?es ! j)" if j: "0 < ?p" "0 < j" "j < n" "parent j = ?p" for j
  proof -
    have pp: "parent ?p < ?p" "?p < n" using j p assms parent_less [of ?p] by auto
    have a: "kle (es ! parent ?p) (es ! ?p)" using heap_butD(1) [OF assms(1), of ?p] j p pp by auto
    have "kle (es ! ?p) (es ! j)" if "j \<noteq> i" using heap_butD(1) [OF assms(1) j(2,3)] that j p by auto
    then have b: "j \<noteq> i \<Longrightarrow> kle (es ! parent ?p) (es ! j)" using a kle_trans by blast
    have "j \<noteq> ?p" using parent_less [OF j(2)] j(4) by simp
    then have "?es ! parent ?p = es ! parent ?p" "?es ! j = (if j = i then es ! ?p else es ! j)" using p pp j by simp_all
    then show ?thesis using a b by simp
  qed
  ultimately show ?thesis by (simp add: heap_but_def)
qed

lemma take_put: "i < n \<Longrightarrow> take n (es[i := v]) = (take n es)[i := v]"
  by (simp add: take_update_swap)

lemma mset_take_swap:
  assumes "i < n" "j < n" "n \<le> length es"
  shows "mset (take n (es[i := es ! j, j := es ! i])) = mset (take n es)"
  using mset_swap [of j "take n es" i] assms by (simp add: take_update_swap)

lemma sift_up_ok:
  assumes "i < n" "n \<le> length es" "heap_but n (es[i := new]) i" "\<forall>j. 0 < j \<and> j < n \<and> parent j = i \<longrightarrow> kle new (es ! j)"
  shows "\<exists>k es'. sift_up new es i = Some (k, es') \<and> k < n \<and> length es' = length es \<and> heap_ordered n (es'[k := new]) \<and>
    mset (take n (es'[k := new])) = mset (take n (es[i := new]))"
  using assms
proof (induction i arbitrary: es rule: less_induct)
  case (less i)
  let ?p = "parent i" and ?e = "es[i := new]"
  have stop: "heap_ordered n ?e" if "0 < i \<Longrightarrow> kle (es ! ?p) new"
    unfolding heap_ordered_def
  proof (intro allI impI)
    fix j assume j: "0 < j \<and> j < n"
    then have "parent j \<noteq> j" by simp
    then show "kle (?e ! parent j) (?e ! j)"
      using that less.prems j heap_butD(1) [OF less.prems(3), of j] by (cases "j = i"; cases "parent j = i") (auto simp: nth_list_update)
  qed
  show ?case
  proof (cases "0 < i \<and> KEY_LESS_THAN new (es ! ?p)")
    case True
    let ?es = "es[i := es ! ?p]"
    have p: "?p < i" "?p < length es" "i < length es" using less.prems True parent_less [of i] by linarith+
    have "?es[?p := new] = ?e[i := ?e ! ?p, ?p := new]" using p by simp
    then have 1: "heap_but n (?es[?p := new]) ?p"
      using heap_but_up [OF less.prems(3), of new] True less.prems by simp
    have 2: "\<forall>j. 0 < j \<and> j < n \<and> parent j = ?p \<longrightarrow> kle new (?es ! j)"
    proof (intro allI impI)
      fix j assume j: "0 < j \<and> j < n \<and> parent j = ?p"
      have "kle (?e ! ?p) (?e ! j)" if "j \<noteq> i" using heap_butD(1) [OF less.prems(3), of j] j p that by auto
      then show "kle new (?es ! j)"
        using p True kle_trans [OF less_kle [of new "es ! ?p"], of "es ! j"] less_kle [of new "es ! ?p"] by (cases "j = i") auto
    qed
    have "\<exists>k es'. sift_up new ?es ?p = Some (k, es') \<and> k < n \<and> length es' = length ?es \<and> heap_ordered n (es'[k := new]) \<and>
      mset (take n (es'[k := new])) = mset (take n (?es[?p := new]))"
      using less.IH [OF p(1), of ?es] 1 2 p less.prems by simp
    moreover have "mset (take n (?es[?p := new])) = mset (take n ?e)"
      using mset_take_swap [of i n ?p ?e] p less.prems by simp
    ultimately show ?thesis using True p by (simp add: sift_up.simps [of new es i])
  next
    case False
    have "sift_up new es i = Some (i, es)"
      using False less.prems parent_less [of i] by (cases "i = 0") (simp_all add: sift_up.simps)
    moreover have "heap_ordered n ?e" using False by (intro stop) (simp add: kle_def)
    ultimately show ?thesis using less.prems by simp
  qed
qed

lemma heap_child_ok:
  assumes "i < n" "n \<le> length es"
  obtains "heap_child n es i = Some i" "\<And>j. 0 < j \<Longrightarrow> j < n \<Longrightarrow> parent j \<noteq> i"
  | x where "heap_child n es i = Some x" "x < n" "parent x = i" "x \<noteq> i" "0 < x" "\<And>j. 0 < j \<Longrightarrow> j < n \<Longrightarrow> parent j = i \<Longrightarrow> kle (es ! x) (es ! j)"
proof (cases "left i < n")
  case True
  show thesis
  proof (cases "right i < n")
    case r: True
    let ?x = "if KEY_LESS_THAN (es ! left i) (es ! right i) then left i else right i"
    have "heap_child n es i = Some ?x" using r True assms by (simp add: heap_child_def)
    moreover have "kle (es ! ?x) (es ! j)" if "0 < j" "parent j = i" for j
    proof -
      have "kle (es ! ?x) (es ! left i)" "kle (es ! ?x) (es ! right i)"
        using less_kle [of "es ! left i" "es ! right i"] by (simp_all add: kle_def [of "es ! right i" "es ! left i"])
      then show ?thesis using that parent_children [of j i] by metis
    qed
    ultimately show thesis using that(2) [of ?x] r True by (auto split: if_splits)
  next
    case False
    have "heap_child n es i = Some (left i)" using False True assms by (simp add: heap_child_def)
    moreover have "kle (es ! left i) (es ! j)" if "0 < j" "j < n" "parent j = i" for j
      using that parent_children [of j i] False by (metis kle_refl)
    ultimately show thesis using True by (intro that(2) [of "left i"]) simp_all
  qed
next
  case False
  then have "\<not> right i < n" using parent_simps(7) [of i] by linarith
  then have "heap_child n es i = Some i" using False by (simp add: heap_child_def)
  moreover have "parent j \<noteq> i" if "0 < j" "j < n" for j using that False \<open>\<not> right i < n\<close> parent_children [of j i] by auto
  ultimately show thesis using that(1) by blast
qed

lemma sift_down_ok:
  assumes "n \<le> length es" "heap_but n es i" "0 < i \<longrightarrow> i < n \<longrightarrow> kle (es ! parent i) (es ! i)"
  shows "\<exists>es'. sift_down n es i = Some es' \<and> length es' = length es \<and> heap_ordered n es' \<and> mset (take n es') = mset (take n es)"
  using assms
proof (induction "n - i" arbitrary: es i rule: less_induct)
  case less
  have stop: "heap_ordered n es" if "\<And>j. 0 < j \<Longrightarrow> j < n \<Longrightarrow> parent j = i \<Longrightarrow> kle (es ! i) (es ! j)"
    unfolding heap_ordered_def using that less.prems(3) heap_butD(1) [OF less.prems(2)] by metis
  show ?case
  proof (cases "i < n")
    case True
    then show ?thesis using less.prems(1)
    proof (cases rule: heap_child_ok)
      case 1
      then show ?thesis using stop True by (simp add: sift_down.simps [of n es i])
    next
      case (2 x)
      have len: "x < length es" "i < length es" using 2 True less.prems(1) by auto
      show ?thesis
      proof (cases "KEY_LESS_THAN (es ! x) (es ! i)")
        case False
        then have "heap_ordered n es" using stop 2 kle_trans [of "es ! i" "es ! x"] by (simp add: kle_def)
        then show ?thesis using False 2 len True by (simp add: sift_down.simps [of n es i])
      next
        case k: True
        let ?es = "es[i := es ! x, x := es ! i]"
        have ix: "i < x" using 2 parent_less [of x] by simp
        have "heap_but n ?es x"
          unfolding heap_but_def
        proof (intro conjI allI impI)
          fix j assume j: "0 < j \<and> j < n \<and> parent j \<noteq> x \<and> j \<noteq> x"
          have pj: "parent j < length es" "j < length es" "parent j \<noteq> j" using j parent_less [of j] less.prems(1) by auto
          have "kle (es ! parent i) (es ! x)" if "0 < i" using heap_butD(2) [OF less.prems(2), of x] 2 that by auto
          moreover have "kle (es ! x) (es ! j)" if "parent j = i" using 2 j that by blast
          moreover have "kle (es ! parent j) (es ! j)" if "parent j \<noteq> i" "j \<noteq> i" using heap_butD(1) [OF less.prems(2), of j] j that by auto
          ultimately show "kle (?es ! parent j) (?es ! j)" using j pj ix len by (auto simp: nth_list_update)
        next
          fix j assume j: "0 < j \<and> j < n \<and> parent j = x"
          have pj: "j < length es" "j \<noteq> x" "j \<noteq> i" using j parent_less [of j] less.prems(1) ix by auto
          have "kle (es ! x) (es ! j)" using heap_butD(1) [OF less.prems(2), of j] j pj ix by auto
          then show "kle (?es ! parent x) (?es ! j)" using pj len 2(3,4) by (simp add: nth_list_update)
        qed
        moreover have "0 < x \<longrightarrow> x < n \<longrightarrow> kle (?es ! parent x) (?es ! x)"
          using less_kle [OF k] 2(3,4) len by (simp add: nth_list_update)
        moreover have "n - x < n - i" using ix 2 by simp
        ultimately have "\<exists>es'. sift_down n ?es x = Some es' \<and> length es' = length ?es \<and> heap_ordered n es' \<and> mset (take n es') = mset (take n ?es)"
          using less.hyps [of x ?es] less.prems(1) by simp
        then show ?thesis
          using mset_take_swap [of i n x es] k 2 len True less.prems(1) by (simp add: sift_down.simps [of n es i])
      qed
    qed
  next
    case False
    have "parent j \<noteq> i" if "0 < j" "j < n" for j using that False parent_less [of j] by auto
    then show ?thesis using stop False by (simp add: sift_down.simps [of n es i])
  qed
qed

lemma lift_to_root_ok:
  assumes "n \<le> length es" "i < n" "heap_but n es i"
  shows "\<exists>es'. lift_to_root es i = Some es' \<and> length es' = length es \<and> heap_but n es' 0 \<and> es' ! 0 = es ! i \<and>
    mset (take n es') = mset (take n es)"
  using assms
proof (induction i arbitrary: es rule: less_induct)
  case (less i)
  show ?case
  proof (cases "i = 0")
    case False
    let ?es = "es[i := es ! parent i, parent i := es ! i]"
    have p: "parent i < i" "parent i < length es" "i < length es" using less.prems False parent_less [of i] by linarith+
    have "heap_but n ?es (parent i)" using heap_but_up [OF less.prems(3)] False less.prems by simp
    then have "\<exists>es'. lift_to_root ?es (parent i) = Some es' \<and> length es' = length ?es \<and> heap_but n es' 0 \<and> es' ! 0 = ?es ! parent i \<and>
      mset (take n es') = mset (take n ?es)"
      using less.IH [OF p(1), of ?es] p less.prems by simp
    then show ?thesis using mset_take_swap [of i n "parent i" es] p less.prems False by (simp add: lift_to_root.simps [of es i])
  qed (use less.prems in \<open>simp add: lift_to_root.simps\<close>)
qed

section \<open>What the heap holds\<close>

text \<open>
  The live cells hold the events of the agenda; the secondary keys are in the order of the identifiers, and their counter
  has not wrapped around.
\<close>

definition hp_rep :: "'t::linorder events \<Rightarrow> int \<Rightarrow> 't heap \<Rightarrow> event_ptr list \<Rightarrow> bool" where
  "hp_rep ev n h xs \<longleftrightarrow> agenda ev n xs \<and> h_size h \<le> length (h_elems h) \<and> length (h_elems h) = h_maxsize h \<and> 0 < h_maxsize h \<and>
     heap_ordered (h_size h) (h_elems h) \<and> mset (map he_elem (take (h_size h) (h_elems h))) = mset xs \<and>
     (\<forall>a \<in> set (take (h_size h) (h_elems h)). he_key a = ev_time (ev (he_elem a)) \<and> he_s_key a < h_s_key h) \<and>
     (\<forall>a \<in> set (take (h_size h) (h_elems h)). \<forall>b \<in> set (take (h_size h) (h_elems h)).
        he_s_key a < he_s_key b \<longleftrightarrow> ev_uid (ev (he_elem a)) < ev_uid (ev (he_elem b))) \<and>
     int (unat (h_s_key h)) < n"

lemma hp_rep_set: "hp_rep ev n h xs \<Longrightarrow> he_elem ` set (take (h_size h) (h_elems h)) = set xs"
  by (metis hp_rep_def mset_eq_setD set_map)

lemma hp_rep_size: "hp_rep ev n h xs \<Longrightarrow> length xs = h_size h"
  by (metis hp_rep_def length_map length_take min.absorb2 mset_eq_length)

text \<open>Removing the root.\<close>

lemma mset_take_root:
  assumes "0 < n" "n \<le> length es"
  shows "add_mset (es ! 0) (mset (take (n - 1) (es[0 := es ! (n - 1)]))) = mset (take n es)"
proof -
  obtain m where n: "n = Suc m" using assms(1) by (cases n) auto
  show ?thesis
  proof (cases "m = 0")
    case True
    then show ?thesis using assms n by (cases es) auto
  next
    case False
    have l: "take n es = take m es @ [es ! m]" using assms n by (simp add: take_Suc_conv_app_nth)
    have "take m es = es ! 0 # tl (take m es)" using False assms n by (cases es; cases m) auto
    then show ?thesis using False l n by (cases es; cases m) auto
  qed
qed

lemma extract_ok:
  assumes "0 < h_size h" "h_size h \<le> length (h_elems h)" "heap_but (h_size h) (h_elems h) 0"
  shows "\<exists>es. heap_extract_min h = Some (he_elem (h_elems h ! 0), h\<lparr>h_elems := es, h_size := h_size h - 1\<rparr>) \<and>
    length es = length (h_elems h) \<and> heap_ordered (h_size h - 1) es \<and>
    add_mset (h_elems h ! 0) (mset (take (h_size h - 1) es)) = mset (take (h_size h) (h_elems h))"
proof -
  let ?n = "h_size h" and ?es = "h_elems h"
  have "heap_but (?n - 1) (?es[0 := ?es ! (?n - 1)]) 0"
    using assms by (auto simp: heap_but_def nth_list_update)
  then have "\<exists>es. sift_down (?n - 1) (?es[0 := ?es ! (?n - 1)]) 0 = Some es \<and> length es = length ?es \<and> heap_ordered (?n - 1) es \<and>
    mset (take (?n - 1) es) = mset (take (?n - 1) (?es[0 := ?es ! (?n - 1)]))"
    using sift_down_ok [of "?n - 1" "?es[0 := ?es ! (?n - 1)]" 0] assms by auto
  then show ?thesis using mset_take_root [of ?n ?es] assms by (auto simp: heap_extract_min_def h_get_def h_put_def)
qed

text \<open>The rest of a heap after the removal of a live cell.\<close>

lemma hp_rep_remove:
  assumes "hp_rep ev n h xs" "agenda ev' n xs'" "length es = length (h_elems h)" "0 < h_size h" "heap_ordered (h_size h - 1) es"
    and "add_mset a (mset (take (h_size h - 1) es)) = mset (take (h_size h) (h_elems h))"
    and "add_mset (he_elem a) (mset xs') = mset xs" "\<And>x. x \<in> set xs' \<Longrightarrow> ev' x = ev x"
  shows "hp_rep ev' n (h\<lparr>h_elems := es, h_size := h_size h - 1\<rparr>) xs'"
proof -
  let ?L = "set (take (h_size h - 1) es)"
  have sub: "?L \<subseteq> set (take (h_size h) (h_elems h))" using arg_cong [OF assms(6), of set_mset] by auto
  have "add_mset (he_elem a) (mset (map he_elem (take (h_size h - 1) es))) = add_mset (he_elem a) (mset xs')"
    using assms(1,7) arg_cong [OF assms(6), of "image_mset he_elem"] by (simp add: hp_rep_def)
  then have m: "mset (map he_elem (take (h_size h - 1) es)) = mset xs'" by simp
  then have ev: "ev' (he_elem b) = ev (he_elem b)" if "b \<in> ?L" for b
    using assms(8) that mset_eq_setD [OF m] by auto
  show ?thesis using assms(1-5) m sub ev by (auto simp: hp_rep_def subset_iff)
qed

lemma hp_before:
  assumes "hp_rep ev n h xs" "a \<in> set (take (h_size h) (h_elems h))" "b \<in> set (take (h_size h) (h_elems h))"
  shows "KEY_LESS_THAN a b \<longleftrightarrow> before ev (he_elem a) (he_elem b)"
  using assms by (simp add: hp_rep_def KEY_LESS_THAN_def before_def)

lemma hp_root:
  assumes "hp_rep ev n h (x # xs)"
  shows "he_elem (h_elems h ! 0) = x" "0 < h_size h"
proof -
  have sz: "0 < h_size h" "h_size h \<le> length (h_elems h)" using hp_rep_size [OF assms] assms by (auto simp: hp_rep_def)
  let ?L = "set (take (h_size h) (h_elems h))"
  have r: "h_elems h ! 0 \<in> ?L" using sz by (force simp: in_set_conv_nth)
  have "x \<in> he_elem ` ?L" using hp_rep_set [OF assms] by simp
  then obtain a where a: "a \<in> ?L" "x = he_elem a" by blast
  then obtain i where "i < h_size h" "a = h_elems h ! i" by (auto simp: in_set_conv_nth)
  then have "kle (h_elems h ! 0) a" using root_least [of "h_size h" "h_elems h" i] assms by (simp add: hp_rep_def)
  then have "\<not> before ev x (he_elem (h_elems h ! 0))" using hp_before [OF assms a(1) r] a(2) by (simp add: kle_def)
  moreover have "he_elem (h_elems h ! 0) \<in> set (x # xs)" using r hp_rep_set [OF assms] by blast
  ultimately show "he_elem (h_elems h ! 0) = x" using assms by (auto simp: hp_rep_def agenda_def)
  show "0 < h_size h" by (rule sz)
qed

lemma hs_deque_ok:
  assumes "hp_rep ev n h xs"
  shows "\<exists>h'. hs_deque ev h = Some (agenda_head xs, h') \<and> hp_rep ev n h' (tl xs)"
proof (cases xs)
  case Nil
  then show ?thesis using assms hp_rep_size [OF assms] by (simp add: hs_deque_def heap_extract_min_def)
next
  case (Cons x ys)
  note r = hp_root [OF assms [unfolded Cons]]
  from extract_ok [of h] obtain es where
    es: "heap_extract_min h = Some (he_elem (h_elems h ! 0), h\<lparr>h_elems := es, h_size := h_size h - 1\<rparr>)" "length es = length (h_elems h)"
      "heap_ordered (h_size h - 1) es" "add_mset (h_elems h ! 0) (mset (take (h_size h - 1) es)) = mset (take (h_size h) (h_elems h))"
    using r assms heap_ordered_but by (auto simp: hp_rep_def)
  have "agenda ev n ys" using assms Cons agenda_tl by (auto simp: hp_rep_def)
  then have "hp_rep ev n (h\<lparr>h_elems := es, h_size := h_size h - 1\<rparr>) ys"
    using r Cons es by (intro hp_rep_remove [OF assms]) auto
  then show ?thesis using es(1) r(1) Cons by (simp add: hs_deque_def)
qed

lemma heap_member_ok:
  assumes "n \<le> length es" "e \<in> he_elem ` set (drop i (take n es))"
  shows "\<exists>k. heap_member_from es n e i = Some (k + 1) \<and> k < n \<and> he_elem (es ! k) = e"
  using assms
proof (induction "n - i" arbitrary: i rule: less_induct)
  case less
  have i: "i < n" using less.prems(2) by (cases "i < n") auto
  show ?case
  proof (cases "he_elem (es ! i) = e")
    case True
    then show ?thesis using i less.prems(1) by (auto simp: heap_member_from.simps [of es n e i])
  next
    case False
    have "drop i (take n es) = es ! i # drop (Suc i) (take n es)"
      using i less.prems(1) by (simp add: Cons_nth_drop_Suc [symmetric])
    then have "e \<in> he_elem ` set (drop (i + 1) (take n es))" using less.prems(2) False by auto
    then show ?thesis using less.hyps [of "i + 1"] i less.prems(1) False by (simp add: heap_member_from.simps [of es n e i])
  qed
qed

lemma hs_cancel_ok:
  assumes "hp_rep ev n h xs" "e \<in> set xs"
  shows "\<exists>h'. hs_cancel e (ev, h) = Some (negate_uid e ev, h') \<and> hp_rep (negate_uid e ev) n h' (remove1 e xs)"
proof -
  let ?n = "h_size h"
  have a: "agenda ev n xs" "?n \<le> length (h_elems h)" "heap_ordered ?n (h_elems h)" using assms by (auto simp: hp_rep_def)
  have "e \<in> he_elem ` set (drop 0 (take ?n (h_elems h)))" using hp_rep_set [OF assms(1)] assms(2) by simp
  from heap_member_ok [OF a(2) this] obtain k where
    k: "heap_member e h = Some (k + 1)" "k < ?n" "he_elem (h_elems h ! k) = e" by (auto simp: heap_member_def)
  from lift_to_root_ok [OF a(2) k(2) heap_ordered_but [OF a(3)]] obtain es1 where
    l: "lift_to_root (h_elems h) k = Some es1" "length es1 = length (h_elems h)" "heap_but ?n es1 0" "es1 ! 0 = h_elems h ! k"
      "mset (take ?n es1) = mset (take ?n (h_elems h))" by blast
  from extract_ok [of "h\<lparr>h_elems := es1\<rparr>"] l a(2) k(2) obtain es where
    es: "heap_extract_min (h\<lparr>h_elems := es1\<rparr>) = Some (he_elem (es1 ! 0), h\<lparr>h_elems := es, h_size := ?n - 1\<rparr>)" "length es = length (h_elems h)"
      "heap_ordered (?n - 1) es" "add_mset (h_elems h ! k) (mset (take (?n - 1) es)) = mset (take ?n (h_elems h))"
    by auto
  have "hp_rep (negate_uid e ev) n (h\<lparr>h_elems := es, h_size := ?n - 1\<rparr>) (remove1 e xs)"
    using agenda_cancel(2) [OF a(1) assms(2)] es k assms(2) agenda_distinct [OF a(1)]
    by (intro hp_rep_remove [OF assms(1)]) (auto simp: negate_uid_apply)
  moreover have "0 < ev_uid (ev e)" by (rule agenda_cancel(1) [OF a(1) assms(2)])
  ultimately show ?thesis using k(1) l(1) es(1) by (simp add: hs_cancel_def heap_delete_def)
qed

lemma hs_search_ok:
  assumes "h_size h \<le> length (h_elems h)" "0 < h_iter h"
    and "u \<notin> (\<lambda>a. ev_uid (ev (he_elem a))) ` set (take (h_iter h - 1) (take (h_size h) (h_elems h)))"
    and "e = (if h_iter h \<le> h_size h then he_elem (h_elems h ! (h_iter h - 1)) else 0)"
    and "0 \<notin> he_elem ` set (take (h_size h) (h_elems h))"
  shows "\<exists>x i. hs_search ev u e h = Some (x, h\<lparr>h_iter := i\<rparr>) \<and>
    (x = 0 \<and> u \<notin> (\<lambda>a. ev_uid (ev (he_elem a))) ` set (take (h_size h) (h_elems h)) \<or>
     x \<in> he_elem ` set (take (h_size h) (h_elems h)) \<and> ev_uid (ev x) = u)"
  using assms
proof (induction "h_size h + 1 - h_iter h" arbitrary: h e rule: less_induct)
  case less
  let ?L = "take (h_size h) (h_elems h)" and ?i = "h_iter h - 1"
  show ?case
  proof (cases "h_iter h \<le> h_size h")
    case False
    then have "hs_search ev u e h = Some (0, h\<lparr>h_iter := h_iter h\<rparr>)" using less.prems(4) by (simp add: hs_search.simps)
    moreover have "take ?i ?L = ?L" using False by simp
    ultimately show ?thesis using less.prems(3) by metis
  next
    case True
    have i: "?i < length ?L" "?L ! ?i = h_elems h ! ?i" using True less.prems(1,2) by auto
    have e: "e = he_elem (?L ! ?i)" "e \<in> he_elem ` set ?L" "e \<noteq> 0" using True less.prems(4,5) i nth_mem [OF i(1)] by auto
    show ?thesis
    proof (cases "ev_uid (ev e) = u")
      case eq: True
      then have "hs_search ev u e h = Some (e, h\<lparr>h_iter := h_iter h\<rparr>)" using e by (simp add: hs_search.simps)
      then show ?thesis using eq e by blast
    next
      case ne: False
      let ?i' = "if h_iter h \<ge> h_size h then 0 else h_iter h + 1"
      let ?e' = "if h_iter h \<ge> h_size h then 0 else he_elem (h_elems h ! h_iter h)"
      have it: "heap_iter h = Some (?e', h\<lparr>h_iter := ?i'\<rparr>)" using less.prems(1) by (simp add: heap_iter_def)
      have "take (h_iter h) ?L = take ?i ?L @ [?L ! ?i]" using take_Suc_conv_app_nth [OF i(1)] less.prems(2) by simp
      then have nf: "u \<notin> (\<lambda>a. ev_uid (ev (he_elem a))) ` set (take (h_iter h) ?L)" using less.prems(3) ne e(1) by auto
      show ?thesis
      proof (cases "h_iter h = h_size h")
        case last: True
        then have "hs_search ev u e h = Some (0, h\<lparr>h_iter := 0\<rparr>)"
          using it e(3) ne by (simp add: hs_search.simps [of ev u e h] hs_search.simps [of ev u 0])
        then show ?thesis using nf last by auto
      next
        case False
        then have it': "heap_iter h = Some (?e', h\<lparr>h_iter := h_iter h + 1\<rparr>)" using it True by simp
        have "\<exists>x i. hs_search ev u ?e' (h\<lparr>h_iter := h_iter h + 1\<rparr>) = Some (x, h\<lparr>h_iter := i\<rparr>) \<and>
          (x = 0 \<and> u \<notin> (\<lambda>a. ev_uid (ev (he_elem a))) ` set ?L \<or> x \<in> he_elem ` set ?L \<and> ev_uid (ev x) = u)"
          using less.hyps [of "h\<lparr>h_iter := h_iter h + 1\<rparr>" ?e'] True False less.prems nf by (simp add: min_def)
        then show ?thesis using it' e(3) ne by (simp add: hs_search.simps [of ev u e h])
      qed
    qed
  qed
qed

lemma hp_rep_iter: "hp_rep ev n (h\<lparr>h_iter := i\<rparr>) xs = hp_rep ev n h xs"
  by (simp add: hp_rep_def)

lemma hs_head_ok: "hp_rep ev n h xs \<Longrightarrow> heap_min h = Some (agenda_head xs)"
  using hp_root [of ev n h] hp_rep_size [of ev n h xs] by (cases xs) (auto simp: heap_min_def h_get_def hp_rep_def)

lemma hs_lookup_ok:
  assumes "hp_rep ev n h xs"
  shows "\<exists>h'. hs_lookup ev u h = Some (agenda_find ev u xs, h') \<and> hp_rep ev n h' xs"
proof -
  let ?h = "h\<lparr>h_iter := 1\<rparr>" and ?e = "agenda_head xs"
  let ?L = "set (take (h_size h) (h_elems h))"
  have h1: "hp_rep ev n ?h xs" using assms by (simp add: hp_rep_iter)
  have init: "heap_iter_init h = Some (?e, ?h)" using hs_head_ok [OF h1] by (simp add: heap_iter_init_def)
  have e: "?e = (if h_iter ?h \<le> h_size ?h then he_elem (h_elems ?h ! (h_iter ?h - 1)) else 0)"
    using hp_root [of ev n h] hp_rep_size [OF assms] assms by (cases xs) auto
  have z: "0 \<notin> he_elem ` ?L" using hp_rep_set [OF assms] assms by (simp add: hp_rep_def agenda_def)
  from hs_search_ok [of ?h u ev ?e] e z assms obtain x i where
    x: "hs_search ev u ?e ?h = Some (x, h\<lparr>h_iter := i\<rparr>)"
      "x = 0 \<and> u \<notin> (\<lambda>a. ev_uid (ev (he_elem a))) ` ?L \<or> x \<in> he_elem ` ?L \<and> ev_uid (ev x) = u"
    by (auto simp: hp_rep_def)
  have "agenda_find ev u xs = x"
    using x(2)
  proof
    assume *: "x = 0 \<and> u \<notin> (\<lambda>a. ev_uid (ev (he_elem a))) ` ?L"
    then have "ev_uid (ev y) \<noteq> u" if "y \<in> set xs" for y using that hp_rep_set [OF assms] by force
    then show ?thesis using * agenda_find_none [of xs ev u] by auto
  next
    assume "x \<in> he_elem ` ?L \<and> ev_uid (ev x) = u"
    then show ?thesis using hp_rep_set [OF assms] assms agenda_find_some [of ev n xs x u] by (auto simp: hp_rep_def)
  qed
  then show ?thesis using init x(1) assms by (auto simp: hs_lookup_def hp_rep_iter)
qed

section \<open>Insertion\<close>

lemma heap_grow_ok:
  assumes "hp_rep ev n h xs"
  shows "hp_rep ev n (heap_grow h) xs \<and> h_size (heap_grow h) < length (h_elems (heap_grow h)) \<and> h_size (heap_grow h) = h_size h \<and>
    h_s_key (heap_grow h) = h_s_key h"
proof (cases "h_maxsize h = h_size h")
  case True
  then have "take (h_size h) (h_elems h @ h_elems h) = take (h_size h) (h_elems h)" "length (h_elems h) = h_size h" "0 < h_size h"
    using assms by (auto simp: hp_rep_def)
  moreover from this have "heap_ordered (h_size h) (h_elems h @ h_elems h)" using assms by (auto simp: hp_rep_def heap_ordered_def nth_append)
  ultimately show ?thesis using True assms by (auto simp: heap_grow_def hp_rep_def)
qed (use assms in \<open>auto simp: heap_grow_def hp_rep_def\<close>)

lemma heap_insert_ok:
  assumes "h_size h < length (h_elems h)" "heap_ordered (h_size h) (h_elems h)" "h_maxsize h \<noteq> h_size h"
    and new: "new = \<lparr>he_key = key, he_s_key = h_s_key h, he_elem = e\<rparr>"
  shows "\<exists>es. heap_insert key e h = Some (h\<lparr>h_elems := es, h_size := h_size h + 1, h_s_key := h_s_key h + 1\<rparr>) \<and>
    length es = length (h_elems h) \<and> heap_ordered (h_size h + 1) es \<and>
    mset (take (h_size h + 1) es) = add_mset new (mset (take (h_size h) (h_elems h)))"
proof -
  let ?n = "h_size h + 1" and ?e = "h_elems h"
  have ch: "\<forall>j. 0 < j \<and> j < ?n \<and> parent j = h_size h \<longrightarrow> kle new (?e ! j)" using parent_less by (metis Suc_eq_plus1 less_Suc_eq_le not_le)
  have "heap_but ?n (?e[h_size h := new]) (h_size h)"
    unfolding heap_but_def
  proof (intro conjI allI impI)
    fix j assume "0 < j \<and> j < ?n \<and> parent j \<noteq> h_size h \<and> j \<noteq> h_size h"
    then show "kle (?e[h_size h := new] ! parent j) (?e[h_size h := new] ! j)" using assms(2) by (auto simp: heap_ordered_def)
  next
    fix j assume "0 < j \<and> j < ?n \<and> parent j = h_size h"
    then show "kle (?e[h_size h := new] ! parent (h_size h)) (?e[h_size h := new] ! j)" using parent_less [of j] by auto
  qed
  from sift_up_ok [OF _ _ this ch] assms(1) obtain k es where
    k: "sift_up new ?e (h_size h) = Some (k, es)" "k < ?n" "length es = length ?e" "heap_ordered ?n (es[k := new])"
      "mset (take ?n (es[k := new])) = mset (take ?n (?e[h_size h := new]))" by auto
  have "take ?n (?e[h_size h := new]) = take (h_size h) ?e @ [new]" using assms(1) by (simp add: take_Suc_conv_app_nth)
  then have "mset (take ?n (es[k := new])) = add_mset new (mset (take (h_size h) ?e))" using k(5) by simp
  moreover have "heap_grow h = h" using assms(3) by (simp add: heap_grow_def)
  moreover have "h_put es k new = Some (es[k := new])" using k(2,3) assms(1) by simp
  ultimately show ?thesis using k(1,3,4) unfolding heap_insert_def by (auto simp: new)
qed

lemma heap_insert_grow: "heap_insert key e (heap_grow h) = heap_insert key e h" if "0 < h_maxsize h"
  using that by (simp add: heap_insert_def heap_grow_def)

lemma hs_insert_ok:
  assumes "hp_rep ev n h xs" "e \<noteq> 0" "e \<notin> set xs" "n \<le> ev_uid (ev e)" "ev_uid (ev e) < 4294967296" "0 < n"
  shows "\<exists>h'. hs_insert ev e h = Some h' \<and> hp_rep ev (ev_uid (ev e) + 1) h' (agenda_insert ev e xs)"
proof -
  let ?g = "heap_grow h" and ?new = "\<lparr>he_key = ev_time (ev e), he_s_key = h_s_key h, he_elem = e\<rparr>"
  note g = heap_grow_ok [OF assms(1)]
  have "h_maxsize ?g \<noteq> h_size ?g" "heap_ordered (h_size ?g) (h_elems ?g)" using g by (auto simp: hp_rep_def)
  from heap_insert_ok [OF _ this(2,1) refl, of "ev_time (ev e)" e] g obtain es where
    es: "heap_insert (ev_time (ev e)) e ?g = Some (?g\<lparr>h_elems := es, h_size := h_size h + 1, h_s_key := h_s_key h + 1\<rparr>)"
      "length es = length (h_elems ?g)" "heap_ordered (h_size h + 1) es"
      "mset (take (h_size h + 1) es) = add_mset ?new (mset (take (h_size h) (h_elems ?g)))" by auto
  let ?h = "?g\<lparr>h_elems := es, h_size := h_size h + 1, h_s_key := h_s_key h + 1\<rparr>"
  let ?L = "set (take (h_size h) (h_elems ?g))"
  have L: "set (take (h_size h + 1) es) = insert ?new ?L" using arg_cong [OF es(4), of set_mset] by simp
  have r: "\<forall>a \<in> ?L. he_key a = ev_time (ev (he_elem a)) \<and> he_s_key a < h_s_key h" "int (unat (h_s_key h)) < n"
    "\<forall>a \<in> ?L. \<forall>b \<in> ?L. he_s_key a < he_s_key b \<longleftrightarrow> ev_uid (ev (he_elem a)) < ev_uid (ev (he_elem b))"
    "mset (map he_elem (take (h_size h) (h_elems ?g))) = mset xs" "agenda ev n xs"
    using g by (auto simp: hp_rep_def)
  have uid: "ev_uid (ev (he_elem a)) < ev_uid (ev e)" if "a \<in> ?L" for a
    using that r(5) hp_rep_set [of ev n ?g xs] g assms(4) by (force simp: agenda_def)
  have "unat (h_s_key h) < 4294967295" using r(2) assms(4,5) by linarith
  then have nowrap: "unat (h_s_key h + 1) = unat (h_s_key h) + 1" by (simp add: unat_plus_if_size word_size)
  then have lt: "h_s_key h < h_s_key h + 1" by (simp add: word_less_nat_alt)
  have "mset (map he_elem (take (h_size h + 1) es)) = mset (agenda_insert ev e xs)"
  proof -
    have "mset (agenda_insert ev e xs) = add_mset e (mset xs)"
      using mset_append [of "takeWhile (\<lambda>x. ev_time (ev x) \<le> ev_time (ev e)) xs" "dropWhile (\<lambda>x. ev_time (ev x) \<le> ev_time (ev e)) xs"]
      by (simp add: agenda_insert_def)
    then show ?thesis using es(4) r(4) by simp
  qed
  moreover have "\<forall>a \<in> insert ?new ?L. he_key a = ev_time (ev (he_elem a)) \<and> he_s_key a < h_s_key h + 1"
    using r(1) lt by (auto intro: less_trans)
  moreover have "\<forall>a \<in> insert ?new ?L. \<forall>b \<in> insert ?new ?L. he_s_key a < he_s_key b \<longleftrightarrow> ev_uid (ev (he_elem a)) < ev_uid (ev (he_elem b))"
    using r(1,3) uid by (fastforce simp: not_less)
  moreover have "agenda ev (ev_uid (ev e) + 1) (agenda_insert ev e xs)"
    using r(5) assms by (intro agenda_insert_agenda) auto
  ultimately have "hp_rep ev (ev_uid (ev e) + 1) ?h (agenda_insert ev e xs)"
    using g es(2,3) nowrap r(2) assms(4) by (simp add: hp_rep_def L [unfolded Suc_eq_plus1 [symmetric]])
  then show ?thesis using es(1) heap_insert_grow [of h] assms(1) by (auto simp: hs_insert_def hp_rep_def)
qed

section \<open>The heap implements the interface\<close>

text \<open>As long as fewer than \<open>2 ^ 32\<close> events were scheduled.\<close>

lemma hp_rep_frame:
  assumes "hp_rep ev n h xs" "\<And>x. x \<in> set xs \<Longrightarrow> ev' x = ev x" "n \<le> m"
  shows "hp_rep ev' m h xs"
proof -
  have "ev' (he_elem a) = ev (he_elem a)" if "a \<in> set (take (h_size h) (h_elems h))" for a
    using that assms(2) hp_rep_set [OF assms(1)] by blast
  then show ?thesis using assms agenda_frame [of ev n xs ev' m] by (auto simp: hp_rep_def)
qed

interpretation heap_queue: event_queue "heap_scheduler :: ('t::linorder, 't heap) sched_ops" "Heap 32 blank" "4294967296" "\<lambda>_. True" hp_rep for blank
proof (unfold_locales, goal_cases)
  case 1
  then show ?case by (simp add: hp_rep_def Heap_def heap_ordered_def)
next
  case 2
  then show ?case by simp
next
  case 3
  then show ?case by (simp add: hp_rep_def)
next
  case 4
  then show ?case by (rule hp_rep_frame)
next
  case 5
  then show ?case by (simp add: heap_scheduler_def hs_insert_ok)
next
  case 6
  then show ?case by (simp add: heap_scheduler_def hs_cancel_ok)
next
  case 7
  then show ?case by (simp add: heap_scheduler_def hs_cancel_def)
next
  case 8
  then show ?case by (simp add: heap_scheduler_def hs_lookup_ok)
next
  case (9 ev n q xs)
  then show ?case by (simp add: heap_scheduler_def hs_head_def hs_head_ok)
next
  case 10
  then show ?case by (simp add: heap_scheduler_def hs_deque_ok)
qed

end
