(* ===== verification/Splay_Scheduler.thy ===== *)
theory Splay_Scheduler
  imports Sim_Scheduler "HOL-Library.Tree"
begin

text \<open>
  \<^verbatim>\<open>SplayScheduler\<close> of \<^verbatim>\<open>src/ns-2.34/common/splay-scheduler.cc\<close>: the pending events in a binary search tree that insertions and
  removals splay top-down. \<open>prev_\<close> and \<open>next_\<close> of an event are its left and right subtree, a null pointer is \<^const>\<open>Leaf\<close>. While
  an insertion descends, the left tree and the right tree it has split off are open at their ends \<open>l\<close> and \<open>r\<close>: they are
  lists of the nodes on the way from the new root to these ends, each with its other subtree.
\<close>

section \<open>The tree\<close>

record splay_sched =
  sp_root :: "event_ptr tree"
  sp_qsize :: int

definition splay_new :: splay_sched where
  "splay_new = \<lparr>sp_root = Leaf, sp_qsize = 0\<rparr>"

fun ROTATE_RIGHT :: "'a tree \<Rightarrow> 'a tree" where
  "ROTATE_RIGHT (Node (Node a x b) t c) = Node a x (Node b t c)"
| "ROTATE_RIGHT t = t"

fun ROTATE_LEFT :: "'a tree \<Rightarrow> 'a tree" where
  "ROTATE_LEFT (Node a t (Node b x c)) = Node (Node a t b) x c"
| "ROTATE_LEFT t = t"

type_synonym 'a left_tree = "('a tree \<times> 'a) list"
type_synonym 'a right_tree = "('a \<times> 'a tree) list"

fun close_left :: "'a left_tree \<Rightarrow> 'a tree \<Rightarrow> 'a tree" where
  "close_left [] t = t"
| "close_left ((a, x) # l) t = Node a x (close_left l t)"

fun close_right :: "'a right_tree \<Rightarrow> 'a tree \<Rightarrow> 'a tree" where
  "close_right [] t = t"
| "close_right ((x, b) # r) t = Node (close_right r t) x b"

fun LINK_LEFT :: "'a left_tree \<Rightarrow> 'a tree \<Rightarrow> 'a left_tree \<times> 'a tree" where
  "LINK_LEFT l (Node a t b) = (l @ [(a, t)], b)"
| "LINK_LEFT l Leaf = (l, Leaf)"

fun LINK_RIGHT :: "'a right_tree \<Rightarrow> 'a tree \<Rightarrow> 'a right_tree \<times> 'a tree" where
  "LINK_RIGHT r (Node a t b) = (r @ [(t, b)], a)"
| "LINK_RIGHT r Leaf = (r, Leaf)"

lemma size_link_left: "LINK_LEFT l t = (l', t') \<Longrightarrow> t \<noteq> Leaf \<Longrightarrow> size t' < size t"
  by (cases t) auto

lemma size_link_right: "LINK_RIGHT r t = (r', t') \<Longrightarrow> t \<noteq> Leaf \<Longrightarrow> size t' < size t"
  by (cases t) auto

lemma size_rotate [simp]: "size (ROTATE_RIGHT t) = size t" "size (ROTATE_LEFT t) = size t"
  by (induction t rule: ROTATE_RIGHT.induct; simp) (induction t rule: ROTATE_LEFT.induct; simp)

lemma rotate_Leaf [simp]: "ROTATE_RIGHT t = Leaf \<longleftrightarrow> t = Leaf" "ROTATE_LEFT t = Leaf \<longleftrightarrow> t = Leaf"
  by (metis size_rotate eq_size_0)+

text \<open>The loop of \<open>insert\<close>, with the two trees it hangs below the new root.\<close>

function splay_split ::
  "'t::linorder events \<Rightarrow> 't \<Rightarrow> event_ptr left_tree \<Rightarrow> event_ptr right_tree \<Rightarrow> event_ptr tree \<Rightarrow> event_ptr tree \<times> event_ptr tree" where
  "splay_split ev time l r Leaf = (close_left l Leaf, close_right r Leaf)"
| "splay_split ev time l r (Node a t b) =
     (if time < ev_time (ev t) then
        case a of
          Leaf \<Rightarrow> (close_left l Leaf, close_right r (Node a t b))
        | Node _ x _ \<Rightarrow>
            case LINK_RIGHT r (if time < ev_time (ev x) then ROTATE_RIGHT (Node a t b) else Node a t b) of (r, t) \<Rightarrow>
              (if t = Leaf then (close_left l Leaf, close_right r Leaf) else splay_split ev time l r t)
      else
        case b of
          Leaf \<Rightarrow> (close_left l (Node a t b), close_right r Leaf)
        | Node _ x _ \<Rightarrow>
            case LINK_LEFT l (if time \<ge> ev_time (ev x) then ROTATE_LEFT (Node a t b) else Node a t b) of (l, t) \<Rightarrow>
              (if t = Leaf then (close_left l Leaf, close_right r Leaf) else splay_split ev time l r t))"
  by pat_completeness auto
termination
  by (relation "measure (\<lambda>(ev, time, l, r, t). size t)")
    (auto dest!: size_link_left [OF sym] size_link_right [OF sym] split: if_splits)

declare splay_split.simps(2) [simp del]

definition splay_insert :: "'t::linorder events \<Rightarrow> event_ptr \<Rightarrow> splay_sched \<Rightarrow> splay_sched exec" where
  "splay_insert ev n s =
     (let s = s\<lparr>sp_qsize := sp_qsize s + 1\<rparr> in
      if sp_root s = Leaf then Some (s\<lparr>sp_root := Node Leaf n Leaf\<rparr>)
      else case splay_split ev (ev_time (ev n)) [] [] (sp_root s) of (l, r) \<Rightarrow> Some (s\<lparr>sp_root := Node l n r\<rparr>))"

fun splay_leftmost :: "event_ptr tree \<Rightarrow> event_ptr" where
  "splay_leftmost Leaf = 0"
| "splay_leftmost (Node Leaf t b) = t"
| "splay_leftmost (Node (Node a x c) t b) = splay_leftmost (Node a x c)"

definition splay_head :: "'t events \<Rightarrow> splay_sched \<Rightarrow> (event_ptr \<times> splay_sched) exec" where
  "splay_head ev s = Some (splay_leftmost (sp_root s), s)"

text \<open>The loop of \<open>deque\<close> on the left subtree of \<open>t\<close>: the event removed and the new subtree.\<close>

fun splay_deq_left :: "event_ptr tree \<Rightarrow> event_ptr \<times> event_ptr tree" where
  "splay_deq_left Leaf = (0, Leaf)"
| "splay_deq_left (Node Leaf l lr) = (l, lr)"
| "splay_deq_left (Node (Node Leaf ll llr) l lr) = (ll, Node llr l lr)"
| "splay_deq_left (Node (Node (Node a lll c) ll llr) l lr) =
     (case splay_deq_left (Node a lll c) of (m, lll') \<Rightarrow> (m, Node lll' ll (Node llr l lr)))"

definition splay_deque :: "'t events \<Rightarrow> splay_sched \<Rightarrow> (event_ptr \<times> splay_sched) exec" where
  "splay_deque ev s =
     (case sp_root s of
        Leaf \<Rightarrow> Some (0, s)
      | Node l t r \<Rightarrow>
          let s = s\<lparr>sp_qsize := sp_qsize s - 1\<rparr> in
          if l = Leaf then Some (t, s\<lparr>sp_root := r\<rparr>)
          else case splay_deq_left l of (m, l) \<Rightarrow> Some (m, s\<lparr>sp_root := Node l t r\<rparr>))"

text \<open>\<open>cancel\<close>: the successor \<open>q\<close> of the removed event is the leftmost event of its right subtree.\<close>

fun splay_successor :: "event_ptr tree \<Rightarrow> event_ptr \<times> event_ptr tree" where
  "splay_successor Leaf = (0, Leaf)"
| "splay_successor (Node Leaf q r) = (q, r)"
| "splay_successor (Node (Node a x c) p r) = (case splay_successor (Node a x c) of (q, l) \<Rightarrow> (q, Node l p r))"

fun splay_unlink :: "event_ptr tree \<Rightarrow> event_ptr tree" where
  "splay_unlink Leaf = Leaf"
| "splay_unlink (Node l e r) =
     (if r = Leaf then l
      else if l = Leaf then r
      else case splay_successor r of (q, r) \<Rightarrow> Node l q r)"

fun node_is :: "event_ptr \<Rightarrow> event_ptr tree \<Rightarrow> bool" where
  "node_is e Leaf \<longleftrightarrow> False"
| "node_is e (Node _ x _) \<longleftrightarrow> x = e"

definition splay_goes_right :: "'t::linorder events \<Rightarrow> event_ptr \<Rightarrow> event_ptr \<Rightarrow> bool" where
  "splay_goes_right ev e t \<longleftrightarrow>
     ev_time (ev e) > ev_time (ev t) \<or> ev_time (ev e) = ev_time (ev t) \<and> ev_uid (ev e) > ev_uid (ev t)"

fun splay_search :: "'t::linorder events \<Rightarrow> event_ptr \<Rightarrow> event_ptr tree \<Rightarrow> event_ptr tree exec" where
  "splay_search ev e Leaf = None"
| "splay_search ev e (Node l t r) =
     (if splay_goes_right ev e t
      then (if node_is e r then Some (Node l t (splay_unlink r)) else do { r \<leftarrow> splay_search ev e r; Some (Node l t r) })
      else (if node_is e l then Some (Node (splay_unlink l) t r) else do { l \<leftarrow> splay_search ev e l; Some (Node l t r) }))"

definition splay_cancel :: "event_ptr \<Rightarrow> 't::linorder events \<times> splay_sched \<Rightarrow> ('t events \<times> splay_sched) exec" where
  "splay_cancel e = (\<lambda>(ev, s).
     if ev_uid (ev e) \<le> 0 then Some (ev, s)
     else do {
       root \<leftarrow> (if node_is e (sp_root s) then Some (splay_unlink (sp_root s)) else splay_search ev e (sp_root s));
       Some (negate_uid e ev, s\<lparr>sp_root := root, sp_qsize := sp_qsize s - 1\<rparr>)
     })"

fun splay_uid_lookup :: "'t events \<Rightarrow> int \<Rightarrow> event_ptr tree \<Rightarrow> event_ptr" where
  "splay_uid_lookup ev u Leaf = 0"
| "splay_uid_lookup ev u (Node l root r) =
     (if ev_uid (ev root) = u then root
      else let res = splay_uid_lookup ev u l in if res \<noteq> 0 then res else splay_uid_lookup ev u r)"

definition splay_lookup :: "'t events \<Rightarrow> int \<Rightarrow> splay_sched \<Rightarrow> (event_ptr \<times> splay_sched) exec" where
  "splay_lookup ev u s = Some (splay_uid_lookup ev u (sp_root s), s)"

definition splay_scheduler :: "('t::linorder, splay_sched) sched_ops" where
  "splay_scheduler =
     \<lparr>sq_insert = splay_insert, sq_cancel = splay_cancel, sq_lookup = splay_lookup, sq_head = splay_head, sq_deque = splay_deque\<rparr>"

section \<open>The order of the events\<close>

lemma inorder_rotate [simp]: "inorder (ROTATE_RIGHT t) = inorder t" "inorder (ROTATE_LEFT t) = inorder t"
  by (induction t rule: ROTATE_RIGHT.induct; simp) (induction t rule: ROTATE_LEFT.induct; simp)

lemma inorder_close_left: "inorder (close_left (l @ m) t) = inorder (close_left l Leaf) @ inorder (close_left m t)"
  by (induction l) auto

lemma inorder_close_right: "inorder (close_right (r @ m) t) = inorder (close_right m t) @ inorder (close_right r Leaf)"
  by (induction r) auto

lemma inorder_close: "inorder (close_left l t) = inorder (close_left l Leaf) @ inorder t"
  "inorder (close_right r t) = inorder t @ inorder (close_right r Leaf)"
  using inorder_close_left [of l "[]" t] inorder_close_right [of r "[]" t] by simp_all

text \<open>The split sends every event that is not later than the new one to the left.\<close>

lemma splay_split_Leaf: "(if t = Leaf then (close_left l Leaf, close_right r Leaf) else splay_split ev time l r t) = splay_split ev time l r t"
  by simp

lemma filter_early:
  assumes "sorted (ev_times ev (xs @ y # ys))" "ev_time (ev y) \<le> time"
  shows "filter (\<lambda>x. ev_time (ev x) \<le> time) (xs @ y # ys) = xs @ y # filter (\<lambda>x. ev_time (ev x) \<le> time) ys"
    "filter (\<lambda>x. \<not> ev_time (ev x) \<le> time) (xs @ y # ys) = filter (\<lambda>x. \<not> ev_time (ev x) \<le> time) ys"
proof -
  have "ev_time (ev z) \<le> time" if "z \<in> set xs" for z using assms that by (force simp: sorted_append)
  then show "filter (\<lambda>x. ev_time (ev x) \<le> time) (xs @ y # ys) = xs @ y # filter (\<lambda>x. ev_time (ev x) \<le> time) ys"
    "filter (\<lambda>x. \<not> ev_time (ev x) \<le> time) (xs @ y # ys) = filter (\<lambda>x. \<not> ev_time (ev x) \<le> time) ys"
    using assms(2) by (auto simp: filter_id_conv filter_empty_conv)
qed

lemma splay_split_inorder:
  assumes "sorted (ev_times ev (inorder t))"
  shows "inorder (fst (splay_split ev time l r t)) = inorder (close_left l Leaf) @ filter (\<lambda>x. ev_time (ev x) \<le> time) (inorder t) \<and>
    inorder (snd (splay_split ev time l r t)) = filter (\<lambda>x. \<not> ev_time (ev x) \<le> time) (inorder t) @ inorder (close_right r Leaf)"
  using assms
proof (induction "size t" arbitrary: l r t rule: less_induct)
  case less
  show ?case
  proof (cases t)
    case (Node a x b)
    have s: "sorted (ev_times ev (inorder a @ x # inorder b))" using less.prems Node by simp
    have sa: "sorted (ev_times ev (inorder a))" and sb: "sorted (ev_times ev (inorder b))" using s by (simp_all add: sorted_append)
    show ?thesis
    proof (cases "time < ev_time (ev x)")
      case True
      note late = filter_late [OF s True]
      show ?thesis
      proof (cases a)
        case Leaf
        then show ?thesis using late True Node inorder_close(2) [of r t] by (simp add: splay_split.simps(2))
      next
        case (Node aa y ab)
        note a = this
        show ?thesis
        proof (cases "time < ev_time (ev y)")
          case y: True
          have "sorted (ev_times ev (inorder aa))" using sa a by (simp add: sorted_append)
          then have ih: "inorder (fst (splay_split ev time l (r @ [(y, Node ab x b)]) aa)) = inorder (close_left l Leaf) @ filter (\<lambda>x. ev_time (ev x) \<le> time) (inorder aa) \<and>
              inorder (snd (splay_split ev time l (r @ [(y, Node ab x b)]) aa)) = filter (\<lambda>x. \<not> ev_time (ev x) \<le> time) (inorder aa) @ inorder (close_right (r @ [(y, Node ab x b)]) Leaf)"
            using less.hyps [of aa] \<open>t = Node a x b\<close> a by simp
          have "splay_split ev time l r t = splay_split ev time l (r @ [(y, Node ab x b)]) aa"
            using \<open>t = Node a x b\<close> a True y by (simp add: splay_split.simps(2) splay_split_Leaf)
          moreover have "filter (\<lambda>x. ev_time (ev x) \<le> time) (inorder a) = filter (\<lambda>x. ev_time (ev x) \<le> time) (inorder aa)"
            "filter (\<lambda>x. \<not> ev_time (ev x) \<le> time) (inorder a) = filter (\<lambda>x. \<not> ev_time (ev x) \<le> time) (inorder aa) @ y # inorder ab"
            using filter_late [of ev "inorder aa" y "inorder ab" time] sa a y by simp_all
          ultimately show ?thesis using ih late \<open>t = Node a x b\<close> by (simp add: inorder_close_right)
        next
          case y: False
          have "splay_split ev time l r t = splay_split ev time l (r @ [(x, b)]) a"
            using \<open>t = Node a x b\<close> a True y by (simp add: splay_split.simps(2) [of _ _ _ _ _ x])
          then show ?thesis using less.hyps [of a l "r @ [(x, b)]"] sa late \<open>t = Node a x b\<close> by (simp add: inorder_close_right)
        qed
      qed
    next
      case False
      note early = filter_early [OF s, of time]
      show ?thesis
      proof (cases b)
        case Leaf
        then show ?thesis using early False Node inorder_close(1) [of l t] by (simp add: splay_split.simps(2))
      next
        case (Node ba y bb)
        note b = this
        show ?thesis
        proof (cases "time \<ge> ev_time (ev y)")
          case y: True
          have "sorted (ev_times ev (inorder bb))" using sb b by (simp add: sorted_append)
          then have ih: "inorder (fst (splay_split ev time (l @ [(Node a x ba, y)]) r bb)) = inorder (close_left (l @ [(Node a x ba, y)]) Leaf) @ filter (\<lambda>x. ev_time (ev x) \<le> time) (inorder bb) \<and>
              inorder (snd (splay_split ev time (l @ [(Node a x ba, y)]) r bb)) = filter (\<lambda>x. \<not> ev_time (ev x) \<le> time) (inorder bb) @ inorder (close_right r Leaf)"
            using less.hyps [of bb] \<open>t = Node a x b\<close> b by simp
          have "splay_split ev time l r t = splay_split ev time (l @ [(Node a x ba, y)]) r bb"
            using \<open>t = Node a x b\<close> b False y by (simp add: splay_split.simps(2) splay_split_Leaf)
          moreover have "filter (\<lambda>x. ev_time (ev x) \<le> time) (inorder b) = inorder ba @ y # filter (\<lambda>x. ev_time (ev x) \<le> time) (inorder bb)"
            "filter (\<lambda>x. \<not> ev_time (ev x) \<le> time) (inorder b) = filter (\<lambda>x. \<not> ev_time (ev x) \<le> time) (inorder bb)"
            using filter_early [of ev "inorder ba" y "inorder bb" time] sb b y by simp_all
          ultimately show ?thesis using ih early False \<open>t = Node a x b\<close> by (simp add: inorder_close_left)
        next
          case y: False
          have "splay_split ev time l r t = splay_split ev time (l @ [(a, x)]) r b"
            using \<open>t = Node a x b\<close> b False y by (simp add: splay_split.simps(2) [of _ _ _ _ _ x])
          then show ?thesis using less.hyps [of b "l @ [(a, x)]" r] sb early False \<open>t = Node a x b\<close> by (simp add: inorder_close_left)
        qed
      qed
    qed
  qed simp
qed

lemma splay_insert_inorder:
  assumes "agenda ev n (inorder (sp_root s))"
  shows "\<exists>s'. splay_insert ev e s = Some s' \<and> inorder (sp_root s') = agenda_insert ev e (inorder (sp_root s)) \<and> sp_qsize s' = sp_qsize s + 1"
proof (cases "sp_root s")
  case (Node a x b)
  let ?t = "sp_root s"
  have "sorted (ev_times ev (inorder ?t))" using assms sorted_before_times by (auto simp: agenda_def)
  then show ?thesis
    using splay_split_inorder [of ev ?t "ev_time (ev e)" "[]" "[]"] sorted_take_filter [of ev "inorder ?t" "ev_time (ev e)"] Node
    by (auto simp: splay_insert_def Let_def agenda_insert_def split: prod.splits)
qed (simp add: splay_insert_def agenda_insert_def)

lemma splay_leftmost_inorder: "splay_leftmost t = agenda_head (inorder t)"
proof (induction t rule: splay_leftmost.induct)
  case (3 a x c t b)
  then show ?case by (cases "inorder a") auto
qed simp_all

lemma splay_deq_left_inorder: "t \<noteq> Leaf \<Longrightarrow> inorder t = fst (splay_deq_left t) # inorder (snd (splay_deq_left t))"
  by (induction t rule: splay_deq_left.induct) (auto split: prod.splits)

lemma splay_successor_inorder: "t \<noteq> Leaf \<Longrightarrow> inorder t = fst (splay_successor t) # inorder (snd (splay_successor t))"
  by (induction t rule: splay_successor.induct) (auto split: prod.splits)

lemma splay_unlink_inorder: "inorder (splay_unlink (Node l e r)) = inorder l @ inorder r"
  using splay_successor_inorder [of r] by (auto split: prod.splits)

lemma node_isE: "node_is e t \<Longrightarrow> (\<And>l r. t = Node l e r \<Longrightarrow> P) \<Longrightarrow> P"
  by (cases t) auto

text \<open>The search of \<open>cancel\<close> finds the event: the tree is in the order of time and identifier.\<close>

lemma splay_goes_right_before: "splay_goes_right ev e t \<longleftrightarrow> before ev t e"
  by (auto simp: splay_goes_right_def before_def)

lemma splay_unlink_node: "node_is e t \<Longrightarrow> distinct (inorder t) \<Longrightarrow> inorder (splay_unlink t) = remove1 e (inorder t)"
  by (auto elim!: node_isE simp: splay_unlink_inorder remove1_append simp del: splay_unlink.simps)

lemma splay_search_inorder:
  assumes "sorted_wrt (before ev) (inorder t)" "e \<in> set (inorder t)" "\<not> node_is e t"
  shows "\<exists>t'. splay_search ev e t = Some t' \<and> inorder t' = remove1 e (inorder t)"
  using assms
proof (induction t)
  case (Node l t r)
  have s: "sorted_wrt (before ev) (inorder l)" "sorted_wrt (before ev) (inorder r)" "\<forall>x \<in> set (inorder l). before ev x t" "\<forall>x \<in> set (inorder r). before ev t x"
    using Node.prems(1) by (auto simp: sorted_wrt_append)
  have d: "distinct (inorder l)" "distinct (inorder r)" using s(1,2) sorted_before_distinct by auto
  have ne: "e \<noteq> t" using Node.prems(3) by auto
  show ?case
  proof (cases "e \<in> set (inorder r)")
    case True
    then have g: "splay_goes_right ev e t" and nl: "e \<notin> set (inorder l)"
      using s before_asym [of ev e t] by (auto simp: splay_goes_right_before)
    show ?thesis
    proof (cases "node_is e r")
      case node: True
      then show ?thesis using g nl ne d splay_unlink_node [OF node] by (simp add: remove1_append)
    next
      case False
      then show ?thesis using Node.IH(2) [OF s(2) True] g nl ne by (auto simp: remove1_append)
    qed
  next
    case False
    then have l: "e \<in> set (inorder l)" using Node.prems(2) ne by auto
    then have g: "\<not> splay_goes_right ev e t" using s before_asym [of ev e t] by (auto simp: splay_goes_right_before)
    show ?thesis
    proof (cases "node_is e l")
      case node: True
      then show ?thesis using g l ne d splay_unlink_node [OF node] by (simp add: remove1_append)
    next
      case False
      then show ?thesis using Node.IH(1) [OF s(1) l] g l ne by (auto simp: remove1_append)
    qed
  qed
qed simp

lemma splay_uid_lookup_find:
  assumes "agenda ev n xs" "set (inorder t) \<subseteq> set xs"
  shows "(\<exists>x \<in> set (inorder t). ev_uid (ev x) = u \<and> splay_uid_lookup ev u t = x) \<or>
    (\<forall>x \<in> set (inorder t). ev_uid (ev x) \<noteq> u) \<and> splay_uid_lookup ev u t = 0"
  using assms(2)
proof (induction t)
  case (Node l t r)
  have "0 \<notin> set xs" using assms(1) by (simp add: agenda_def)
  then have "0 \<notin> set (inorder l)" using Node.prems by auto
  then show ?case using Node by (auto simp: Let_def)
qed simp

section \<open>The tree implements the interface\<close>

definition splay_rep :: "'t::linorder events \<Rightarrow> int \<Rightarrow> splay_sched \<Rightarrow> event_ptr list \<Rightarrow> bool" where
  "splay_rep ev n s xs \<longleftrightarrow> agenda ev n xs \<and> inorder (sp_root s) = xs \<and> sp_qsize s = int (length xs)"

lemma splay_cancel_ok:
  assumes "splay_rep ev n s xs" "e \<in> set xs"
  shows "\<exists>s'. splay_cancel e (ev, s) = Some (negate_uid e ev, s') \<and> splay_rep (negate_uid e ev) n s' (remove1 e xs)"
proof -
  have a: "agenda ev n xs" "inorder (sp_root s) = xs" "sorted_wrt (before ev) xs" using assms by (auto simp: splay_rep_def agenda_def)
  obtain t where t: "(if node_is e (sp_root s) then Some (splay_unlink (sp_root s)) else splay_search ev e (sp_root s)) = Some t"
    "inorder t = remove1 e xs"
    using splay_unlink_node [of e "sp_root s"] splay_search_inorder [of ev "sp_root s" e] a assms(2) agenda_distinct [OF a(1)]
    by (cases "node_is e (sp_root s)") auto
  have "0 < length xs" using assms(2) by auto
  then show ?thesis using t agenda_cancel [OF a(1) assms(2)] assms
    by (simp add: splay_cancel_def splay_rep_def length_remove1 of_nat_diff Suc_leI)
qed

interpretation splay_queue: event_queue "splay_scheduler :: ('t::linorder, splay_sched) sched_ops" splay_new "2 ^ 63" "\<lambda>_. True" splay_rep
proof (unfold_locales, goal_cases)
  case 1
  then show ?case by (simp add: splay_rep_def splay_new_def)
next
  case 2
  then show ?case by simp
next
  case 3
  then show ?case by (simp add: splay_rep_def)
next
  case 4
  then show ?case by (auto simp: splay_rep_def intro: agenda_frame)
next
  case (5 ev n q xs e)
  then show ?case using splay_insert_inorder [of ev n q e] agenda_insert_agenda [of ev n xs e]
    by (auto simp: splay_scheduler_def splay_rep_def length_agenda_insert)
next
  case 6
  then show ?case by (simp add: splay_scheduler_def splay_cancel_ok)
next
  case 7
  then show ?case by (simp add: splay_scheduler_def splay_cancel_def)
next
  case (8 ev n q xs u)
  then have a: "agenda ev n xs" "inorder (sp_root q) = xs" by (auto simp: splay_rep_def)
  have "splay_uid_lookup ev u (sp_root q) = agenda_find ev u xs"
    using splay_uid_lookup_find [OF a(1), of "sp_root q" u] a agenda_find_some [OF a(1)] agenda_find_none [of xs ev u] by auto
  then show ?case using 8 by (simp add: splay_scheduler_def splay_lookup_def)
next
  case 9
  then show ?case by (auto simp: splay_scheduler_def splay_head_def splay_rep_def splay_leftmost_inorder)
next
  case (10 ev n q xs)
  then have a: "agenda ev n (tl xs)" "inorder (sp_root q) = xs" "sp_qsize q = int (length xs)" using agenda_tl by (cases xs; auto simp: splay_rep_def)+
  show ?case
  proof (cases "sp_root q")
    case (Node l t r)
    then show ?thesis using a splay_deq_left_inorder [of l]
      by (cases "l = Leaf") (auto simp: splay_scheduler_def splay_deque_def splay_rep_def split: prod.splits)
  qed (use 10 in \<open>auto simp: splay_scheduler_def splay_deque_def splay_rep_def\<close>)
qed

end
