(* ===== verification/Calendar_Scheduler.thy ===== *)
theory Calendar_Scheduler
  imports Complex_Main Sim_Scheduler
begin

text \<open>
  \<^verbatim>\<open>CalendarScheduler\<close> of \<^verbatim>\<open>src/ns-2.34/common/scheduler.cc\<close>, the default scheduler: events are hashed by their time into the buckets
  of a year, with a number and a width of the buckets that follow the load. Times and widths are real numbers: rounding is
  not part of the model, and a time is not negative. A bucket is a circular list in the code; here it is the list of its
  events from \<open>list_\<close> on, \<open>list_->prev_\<close> being its last element.
\<close>

section \<open>The buckets\<close>

record bucket =
  cb_list :: "event_ptr list"
  cb_count :: int

record calendar =
  cq_min_bin_width :: real
  cq_adjust :: nat
  cq_time_to_newwidth :: nat
  cq_head_search :: nat
  cq_insert_search :: nat
  cq_round_num :: int
  cq_gap_num :: int
  cq_last_time :: real
  cq_avg_gap :: real
  cq_width :: real
  cq_diff0 :: real
  cq_diff1 :: real
  cq_diff2 :: real
  cq_stat_qsize :: int
  cq_nbuckets :: nat
  cq_lastbucket :: nat
  cq_top :: int
  cq_bot :: int
  cq_buckets :: "bucket list"
  cq_qsize :: int
  cq_clock :: real

definition CALENDAR_HASH :: "calendar \<Rightarrow> real \<Rightarrow> nat exec" where
  "CALENDAR_HASH q t = (if t < 0 then None else Some (nat (\<lfloor>t / cq_width q\<rfloor> mod int (cq_nbuckets q))))"

definition get_bucket :: "calendar \<Rightarrow> nat \<Rightarrow> bucket exec" where
  "get_bucket q i = (if i < length (cq_buckets q) then Some (cq_buckets q ! i) else None)"

definition put_bucket :: "nat \<Rightarrow> event_ptr list \<Rightarrow> int \<Rightarrow> calendar \<Rightarrow> calendar" where
  "put_bucket i xs dc q = q\<lparr>cq_buckets := (cq_buckets q)[i := \<lparr>cb_list = xs, cb_count = cb_count (cq_buckets q ! i) + dc\<rparr>],
     cq_stat_qsize := cq_stat_qsize q + dc\<rparr>"

definition cal_reinit :: "nat \<Rightarrow> real \<Rightarrow> real \<Rightarrow> calendar \<Rightarrow> calendar exec" where
  "cal_reinit nbuck bwidth start q = do {
     let q = q\<lparr>cq_buckets := replicate nbuck \<lparr>cb_list = [], cb_count = 0\<rparr>, cq_width := bwidth, cq_nbuckets := nbuck,
               cq_qsize := 0, cq_stat_qsize := 0\<rparr>;
     i \<leftarrow> CALENDAR_HASH q start;
     Some (q\<lparr>cq_lastbucket := i, cq_diff0 := bwidth * of_nat nbuck / 2, cq_diff1 := bwidth * of_nat nbuck / 2 + bwidth,
             cq_diff2 := bwidth * of_nat nbuck, cq_bot := int (nbuck div 2) - 2, cq_top := int (nbuck * 2)\<rparr>)
   }"

text \<open>\<open>insert2\<close>, for the events of the old buckets: before those of the same time.\<close>

definition cal_insert2 :: "real events \<Rightarrow> event_ptr \<Rightarrow> calendar \<Rightarrow> calendar exec" where
  "cal_insert2 ev e q = do {
     i \<leftarrow> CALENDAR_HASH q (ev_time (ev e));
     b \<leftarrow> get_bucket q i;
     let t = ev_time (ev e);
     let xs = cb_list b;
     let q = (if xs = [] then put_bucket i [e] 1 q
              else if t > ev_time (ev (last xs)) then put_bucket i (xs @ [e]) (if ev_time (ev (hd xs)) \<noteq> t then 1 else 0) q
              else let ys = takeWhile (\<lambda>x. t > ev_time (ev x)) xs; zs = dropWhile (\<lambda>x. t > ev_time (ev x)) xs
                   in put_bucket i (ys @ e # zs) (if ev_time (ev (hd zs)) \<noteq> t then 1 else 0) q);
     Some (q\<lparr>cq_qsize := cq_qsize q + 1\<rparr>)
   }"

fun cal_insert2s :: "real events \<Rightarrow> event_ptr list \<Rightarrow> calendar \<Rightarrow> calendar exec" where
  "cal_insert2s ev [] q = Some q"
| "cal_insert2s ev (e # es) q = do { q \<leftarrow> cal_insert2 ev e q; cal_insert2s ev es q }"

text \<open>The index of the fullest bucket.\<close>

definition max_bucket :: "bucket list \<Rightarrow> nat" where
  "max_bucket bs = foldl (\<lambda>m i. if cb_count (bs ! i) > cb_count (bs ! m) then i else m) 0 [1 ..< length bs]"

definition cal_newwidth :: "real events \<Rightarrow> nat \<Rightarrow> calendar \<Rightarrow> (real \<times> calendar) exec" where
  "cal_newwidth ev newsize q = do {
     let q = (if cq_adjust q \<noteq> 0 then q\<lparr>cq_time_to_newwidth := cq_adjust q\<rparr> else q);
     if cq_adjust q \<noteq> 0 \<and> cq_avg_gap q > 0 then Some (cq_avg_gap q * 4, q)
     else do {
       b \<leftarrow> get_bucket q (max_bucket (cq_buckets q));
       let nsamples = cb_count b;
       if nsamples \<le> 4 then Some (cq_width q, q)
       else if cb_list b = [] then None
       else do {
         let nw = ev_time (ev (last (cb_list b))) - ev_time (ev (hd (cb_list b)));
         if \<not> nw > 0 then None
         else Some (nw / of_int (min (int newsize) nsamples) * 4, q)
       }
     }
   }"

text \<open>The new width and the new number of buckets; no width when the calendar is left as it is.\<close>

definition cal_choose_width :: "real events \<Rightarrow> nat \<Rightarrow> calendar \<Rightarrow> (real option \<times> nat \<times> calendar) exec" where
  "cal_choose_width ev newsize q =
     (if newsize = cq_nbuckets q then do {
        let bwidth = (if cq_head_search q \<noteq> 0 then of_nat (cq_head_search q) else 1);
        let bwidth = (if cq_insert_search q \<noteq> 0 then bwidth / of_nat (cq_insert_search q) else bwidth);
        let bwidth = sqrt bwidth * cq_width q;
        if bwidth < cq_min_bin_width q then
          if cq_time_to_newwidth q > 0
          then Some (None, newsize, q\<lparr>cq_time_to_newwidth := cq_time_to_newwidth q - 1, cq_head_search := 0, cq_insert_search := 0, cq_round_num := 0\<rparr>)
          else do { (w, q) \<leftarrow> cal_newwidth ev newsize q; Some (Some w, newsize, q) }
        else Some (Some bwidth, newsize, q)
      }
      else do {
        (w, q) \<leftarrow> cal_newwidth ev newsize q;
        Some (Some w, max 4 newsize, q)
      })"

definition cal_resize :: "real events \<Rightarrow> nat \<Rightarrow> real \<Rightarrow> calendar \<Rightarrow> calendar exec" where
  "cal_resize ev newsize start q = do {
     (w, newsize, q) \<leftarrow> cal_choose_width ev newsize q;
     case w of
       None \<Rightarrow> Some q
     | Some bwidth \<Rightarrow> do {
         let oldb = cq_buckets q;
         q \<leftarrow> cal_reinit newsize bwidth start q;
         q \<leftarrow> cal_insert2s ev (concat (map (\<lambda>b. rev (cb_list b)) oldb)) q;
         Some (q\<lparr>cq_head_search := 0, cq_insert_search := 0, cq_round_num := 0\<rparr>)
       }
   }"

text \<open>The search of \<open>insert\<close> from the end of the bucket: the events up to \<open>after\<close>, reversed, the later ones, and the steps.\<close>

fun cal_after :: "real events \<Rightarrow> real \<Rightarrow> event_ptr list \<Rightarrow> event_ptr list \<Rightarrow> nat \<Rightarrow> (event_ptr list \<times> event_ptr list \<times> nat) exec" where
  "cal_after ev t [] later k = None"
| "cal_after ev t (a # as) later k = (if t < ev_time (ev a) then cal_after ev t as (a # later) (k + 1) else Some (a # as, later, k))"

definition cal_place :: "real events \<Rightarrow> event_ptr \<Rightarrow> nat \<Rightarrow> calendar \<Rightarrow> calendar exec" where
  "cal_place ev e i q = do {
     b \<leftarrow> get_bucket q i;
     let t = ev_time (ev e);
     let xs = cb_list b;
     if xs = [] then Some (put_bucket i [e] 1 q)
     else do {
       let q = q\<lparr>cq_insert_search := cq_insert_search q + 1\<rparr>;
       if t < ev_time (ev (hd xs)) then Some (put_bucket i (e # xs) 1 q)
       else do {
         (upto, later, k) \<leftarrow> cal_after ev t (rev xs) [] 0;
         Some (put_bucket i (rev upto @ e # later) (if ev_time (ev (hd upto)) < t then 1 else 0)
           (q\<lparr>cq_insert_search := cq_insert_search q + k\<rparr>))
       }
     }
   }"

definition cal_insert :: "real events \<Rightarrow> event_ptr \<Rightarrow> calendar \<Rightarrow> calendar exec" where
  "cal_insert ev e q = do {
     let t = ev_time (ev e);
     i \<leftarrow> CALENDAR_HASH q t;
     let q = (if cq_clock q > t then q\<lparr>cq_clock := t, cq_lastbucket := i\<rparr> else q);
     q \<leftarrow> cal_place ev e i q;
     let q = q\<lparr>cq_qsize := cq_qsize q + 1\<rparr>;
     if cq_stat_qsize q > cq_top q then cal_resize ev (cq_nbuckets q * 2) (cq_clock q) q else Some q
   }"

text \<open>
  \<open>CAL_DEQUEUE\<close>: \<^const>\<open>Inl\<close> when the first event of bucket \<open>i\<close> is due within \<open>d\<close>, otherwise the next bucket and the bucket of the
  earliest event seen so far.
\<close>

definition CAL_DEQUEUE :: "real events \<Rightarrow> real \<Rightarrow> calendar \<Rightarrow> nat \<Rightarrow> nat option \<Rightarrow> (nat + nat \<times> nat option) exec" where
  "CAL_DEQUEUE ev d q i m = do {
     b \<leftarrow> get_bucket q i;
     let i' = (if i + 1 = cq_nbuckets q then 0 else i + 1);
     if cb_list b = [] then Some (Inr (i', m))
     else do {
       let e = hd (cb_list b);
       if ev_time (ev e) - cq_clock q < d then Some (Inl i)
       else Some (Inr (i', case m of None \<Rightarrow> Some i
                           | Some l \<Rightarrow> if ev_time (ev (hd (cb_list (cq_buckets q ! l)))) > ev_time (ev e) then Some i else Some l))
     }
   }"

text \<open>The buckets from \<open>i\<close> up to the one before \<open>lastbucket_\<close>, which is left for the end.\<close>

definition cal_last :: "real events \<Rightarrow> calendar \<Rightarrow> nat \<Rightarrow> nat option \<Rightarrow> nat exec" where
  "cal_last ev q i m = do {
     b \<leftarrow> get_bucket q i;
     case m of
       Some l \<Rightarrow> (if cb_list b = [] \<or> ev_time (ev (hd (cb_list (cq_buckets q ! l)))) < ev_time (ev (hd (cb_list b))) then Some l else Some i)
     | None \<Rightarrow> (if cb_list b = [] then None else Some i)
   }"

partial_function (option) cal_search :: "real events \<Rightarrow> calendar \<Rightarrow> nat \<Rightarrow> nat \<Rightarrow> nat option \<Rightarrow> nat \<Rightarrow> (nat \<times> nat) exec" where
  "cal_search ev q stop i m k =
     (if i = stop then do { l \<leftarrow> cal_last ev q i m; Some (l, k) }
      else do {
        r \<leftarrow> CAL_DEQUEUE ev (cq_diff2 q) q i m;
        if isl r then Some (projl r, k + 1) else cal_search ev q stop (fst (projr r)) (snd (projr r)) (k + 1)
      })"

declare cal_search.simps [code]

text \<open>The bucket of the next event, with the number of buckets looked at.\<close>

definition cal_find :: "real events \<Rightarrow> calendar \<Rightarrow> (nat \<times> nat) exec" where
  "cal_find ev q = do {
     let stop = (if cq_lastbucket q \<noteq> 0 then cq_lastbucket q - 1 else cq_nbuckets q - 1);
     r \<leftarrow> CAL_DEQUEUE ev (cq_diff0 q) q (cq_lastbucket q) None;
     if isl r then Some (projl r, 1)
     else do {
       r \<leftarrow> CAL_DEQUEUE ev (cq_diff1 q) q (fst (projr r)) (snd (projr r));
       if isl r then Some (projl r, 2) else cal_search ev q stop (fst (projr r)) (snd (projr r)) 2
     }
   }"

definition cal_head :: "real events \<Rightarrow> calendar \<Rightarrow> (event_ptr \<times> calendar) exec" where
  "cal_head ev q =
     (if cq_qsize q = 0 then Some (0, q)
      else do {
        (l, k) \<leftarrow> cal_find ev q;
        b \<leftarrow> get_bucket q l;
        let e = hd (cb_list b);
        Some (e, q\<lparr>cq_head_search := cq_head_search q + k, cq_lastbucket := l, cq_clock := ev_time (ev e)\<rparr>)
      })"

text \<open>The statistics of \<open>deque\<close>.\<close>

definition cal_adjust :: "real events \<Rightarrow> event_ptr \<Rightarrow> calendar \<Rightarrow> calendar exec" where
  "cal_adjust ev e q =
     (if cq_adjust q = 0 then Some q
      else if cq_last_time q < 0 then Some (q\<lparr>cq_last_time := ev_time (ev e)\<rparr>)
      else
        let q = q\<lparr>cq_gap_num := cq_gap_num q + 1\<rparr> in
        if cq_gap_num q \<ge> cq_qsize q then
          let q = q\<lparr>cq_avg_gap := (ev_time (ev e) - cq_last_time q) / of_int (cq_gap_num q), cq_gap_num := 0,
                    cq_last_time := ev_time (ev e), cq_round_num := cq_round_num q + 1\<rparr> in
          if cq_round_num q > 20 \<and> (cq_head_search q > cq_insert_search q * 2 \<or> cq_insert_search q > cq_head_search q * 2)
          then do { q \<leftarrow> cal_resize ev (cq_nbuckets q) (cq_clock q) q; Some (q\<lparr>cq_round_num := 0\<rparr>) }
          else Some (if cq_round_num q > 100 then q\<lparr>cq_round_num := 0, cq_head_search := 0, cq_insert_search := 0\<rparr> else q)
        else Some q)"

definition cal_deque :: "real events \<Rightarrow> calendar \<Rightarrow> (event_ptr \<times> calendar) exec" where
  "cal_deque ev q = do {
     (e, q) \<leftarrow> cal_head ev q;
     if e = 0 then Some (0, q)
     else do {
       q \<leftarrow> cal_adjust ev e q;
       let l = cq_lastbucket q;
       b \<leftarrow> get_bucket q l;
       if cb_list b = [] \<or> hd (cb_list b) \<noteq> e then None
       else do {
         let rest = tl (cb_list b);
         let q = put_bucket l rest (if rest = [] \<or> ev_time (ev (hd rest)) \<noteq> ev_time (ev e) then - 1 else 0) q;
         let q = q\<lparr>cq_qsize := cq_qsize q - 1\<rparr>;
         q \<leftarrow> (if cq_stat_qsize q < cq_bot q then cal_resize ev (cq_nbuckets q div 2) (cq_clock q) q else Some q);
         Some (e, q)
       }
     }
   }"

text \<open>The neighbours of an event in the circular list.\<close>

definition circ_next :: "event_ptr list \<Rightarrow> event_ptr \<Rightarrow> event_ptr" where
  "circ_next xs e = hd (tl (dropWhile (\<lambda>x. x \<noteq> e) xs) @ xs)"

definition circ_prev :: "event_ptr list \<Rightarrow> event_ptr \<Rightarrow> event_ptr" where
  "circ_prev xs e = last (xs @ takeWhile (\<lambda>x. x \<noteq> e) xs)"

definition cal_cancel :: "event_ptr \<Rightarrow> real events \<times> calendar \<Rightarrow> (real events \<times> calendar) exec" where
  "cal_cancel e = (\<lambda>(ev, q).
     if ev_uid (ev e) \<le> 0 then Some (ev, q)
     else do {
       i \<leftarrow> CALENDAR_HASH q (ev_time (ev e));
       b \<leftarrow> get_bucket q i;
       let xs = cb_list b;
       if e \<notin> set xs then None
       else do {
         let t = ev_time (ev e);
         let single = (circ_next xs e = e \<or> ev_time (ev (circ_next xs e)) \<noteq> t \<and> ev_time (ev (circ_prev xs e)) \<noteq> t);
         let q = put_bucket i (remove1 e xs) (if single then - 1 else 0) q;
         b \<leftarrow> get_bucket q i;
         if single \<and> (cq_stat_qsize q < 0 \<or> cb_count b < 0) \<or> cb_count b = 0 \<and> cb_list b \<noteq> [] then None
         else Some (negate_uid e ev, q\<lparr>cq_qsize := cq_qsize q - 1\<rparr>)
       }
     })"

fun cal_lookup_in :: "real events \<Rightarrow> int \<Rightarrow> bucket list \<Rightarrow> event_ptr" where
  "cal_lookup_in ev u [] = 0"
| "cal_lookup_in ev u (b # bs) = (case List.find (\<lambda>x. ev_uid (ev x) = u) (cb_list b) of Some x \<Rightarrow> x | None \<Rightarrow> cal_lookup_in ev u bs)"

definition cal_lookup :: "real events \<Rightarrow> int \<Rightarrow> calendar \<Rightarrow> (event_ptr \<times> calendar) exec" where
  "cal_lookup ev u q = Some (cal_lookup_in ev u (cq_buckets q), q)"

definition calendar_scheduler :: "(real, calendar) sched_ops" where
  "calendar_scheduler = \<lparr>sq_insert = cal_insert, sq_cancel = cal_cancel, sq_lookup = cal_lookup, sq_head = cal_head, sq_deque = cal_deque\<rparr>"

text \<open>The constructor: four buckets of width one, the clock at the start of the simulation.\<close>

definition cal_new :: "nat \<Rightarrow> real \<Rightarrow> calendar" where
  "cal_new adjust min_width = \<lparr>cq_min_bin_width = min_width, cq_adjust = adjust, cq_time_to_newwidth = adjust, cq_head_search = 0, cq_insert_search = 0,
     cq_round_num = 0, cq_gap_num = 0, cq_last_time = - 2, cq_avg_gap = - 2, cq_width = 1, cq_diff0 = 2, cq_diff1 = 3, cq_diff2 = 4,
     cq_stat_qsize = 0, cq_nbuckets = 4, cq_lastbucket = 0, cq_top = 8, cq_bot = 0, cq_buckets = replicate 4 \<lparr>cb_list = [], cb_count = 0\<rparr>,
     cq_qsize = 0, cq_clock = 0\<rparr>"

section \<open>What the buckets hold\<close>

definition bucket_of :: "calendar \<Rightarrow> real \<Rightarrow> nat" where
  "bucket_of q t = nat (\<lfloor>t / cq_width q\<rfloor> mod int (cq_nbuckets q))"

definition cal_shape :: "calendar \<Rightarrow> bool" where
  "cal_shape q \<longleftrightarrow> 4 \<le> cq_nbuckets q \<and> length (cq_buckets q) = cq_nbuckets q \<and> 0 < cq_width q \<and>
     cq_diff0 q = cq_width q * of_nat (cq_nbuckets q) / 2 \<and> cq_diff1 q = cq_diff0 q + cq_width q \<and> cq_diff2 q = cq_width q * of_nat (cq_nbuckets q) \<and>
     0 \<le> cq_clock q \<and> cq_lastbucket q = bucket_of q (cq_clock q)"

definition bucket_ok :: "real events \<Rightarrow> event_ptr list \<Rightarrow> bucket \<Rightarrow> bool" where
  "bucket_ok ev xs b \<longleftrightarrow> cb_list b = xs \<and> cb_count b = int (card ((\<lambda>x. ev_time (ev x)) ` set xs))"

definition cal_holds :: "real events \<Rightarrow> calendar \<Rightarrow> event_ptr list \<Rightarrow> bool" where
  "cal_holds ev q xs \<longleftrightarrow> (\<forall>i < cq_nbuckets q. bucket_ok ev (filter (\<lambda>x. bucket_of q (ev_time (ev x)) = i) xs) (cq_buckets q ! i)) \<and>
     cq_stat_qsize q = sum_list (map cb_count (cq_buckets q)) \<and> cq_qsize q = int (length xs)"

definition cal_rep :: "real events \<Rightarrow> int \<Rightarrow> calendar \<Rightarrow> event_ptr list \<Rightarrow> bool" where
  "cal_rep ev n q xs \<longleftrightarrow> agenda ev n xs \<and> cal_shape q \<and> cal_holds ev q xs \<and> (\<forall>x \<in> set xs. cq_clock q \<le> ev_time (ev x))"

lemma bucket_less: "cal_shape q \<Longrightarrow> bucket_of q t < cq_nbuckets q"
  by (auto simp: cal_shape_def bucket_of_def nat_less_iff)

lemma hash_ok: "0 \<le> t \<Longrightarrow> CALENDAR_HASH q t = Some (bucket_of q t)"
  by (simp add: CALENDAR_HASH_def bucket_of_def)

lemma get_bucket_ok: "cal_shape q \<Longrightarrow> i < cq_nbuckets q \<Longrightarrow> get_bucket q i = Some (cq_buckets q ! i)"
  by (simp add: get_bucket_def cal_shape_def)

lemma put_bucket_fields [simp]:
  "cq_width (put_bucket i xs dc q) = cq_width q" "cq_nbuckets (put_bucket i xs dc q) = cq_nbuckets q" "cq_clock (put_bucket i xs dc q) = cq_clock q"
  "cq_lastbucket (put_bucket i xs dc q) = cq_lastbucket q" "cq_diff0 (put_bucket i xs dc q) = cq_diff0 q" "cq_diff1 (put_bucket i xs dc q) = cq_diff1 q"
  "cq_diff2 (put_bucket i xs dc q) = cq_diff2 q" "cq_qsize (put_bucket i xs dc q) = cq_qsize q"
  "length (cq_buckets (put_bucket i xs dc q)) = length (cq_buckets q)" "bucket_of (put_bucket i xs dc q) = bucket_of q"
  "cq_avg_gap (put_bucket i xs dc q) = cq_avg_gap q" "cal_shape (put_bucket i xs dc q) = cal_shape q"
  "cq_stat_qsize (put_bucket i xs dc q) = cq_stat_qsize q + dc"
  by (auto simp: put_bucket_def bucket_of_def cal_shape_def fun_eq_iff)

text \<open>The fields the calendar does not depend on.\<close>

lemma bucket_of_upd [simp]:
  "bucket_of (q\<lparr>cq_qsize := a\<rparr>) = bucket_of q" "bucket_of (q\<lparr>cq_insert_search := k\<rparr>) = bucket_of q" "bucket_of (q\<lparr>cq_head_search := k\<rparr>) = bucket_of q"
  "bucket_of (q\<lparr>cq_round_num := a\<rparr>) = bucket_of q" "bucket_of (q\<lparr>cq_clock := t\<rparr>) = bucket_of q" "bucket_of (q\<lparr>cq_lastbucket := k\<rparr>) = bucket_of q"
  "bucket_of (q\<lparr>cq_time_to_newwidth := k\<rparr>) = bucket_of q" "bucket_of (q\<lparr>cq_gap_num := a\<rparr>) = bucket_of q" "bucket_of (q\<lparr>cq_last_time := t\<rparr>) = bucket_of q"
  "bucket_of (q\<lparr>cq_avg_gap := t\<rparr>) = bucket_of q"
  by (simp_all add: bucket_of_def fun_eq_iff)

lemma cal_shape_upd [simp]:
  "cal_shape (q\<lparr>cq_qsize := a\<rparr>) = cal_shape q" "cal_shape (q\<lparr>cq_insert_search := k\<rparr>) = cal_shape q" "cal_shape (q\<lparr>cq_head_search := k\<rparr>) = cal_shape q"
  "cal_shape (q\<lparr>cq_round_num := a\<rparr>) = cal_shape q" "cal_shape (q\<lparr>cq_time_to_newwidth := k\<rparr>) = cal_shape q" "cal_shape (q\<lparr>cq_gap_num := a\<rparr>) = cal_shape q"
  "cal_shape (q\<lparr>cq_last_time := t\<rparr>) = cal_shape q" "cal_shape (q\<lparr>cq_avg_gap := t\<rparr>) = cal_shape q"
  by (simp_all add: cal_shape_def)

lemma cal_holds_upd [simp]:
  "cal_holds ev (q\<lparr>cq_insert_search := k\<rparr>) xs = cal_holds ev q xs" "cal_holds ev (q\<lparr>cq_head_search := k\<rparr>) xs = cal_holds ev q xs"
  "cal_holds ev (q\<lparr>cq_round_num := a\<rparr>) xs = cal_holds ev q xs" "cal_holds ev (q\<lparr>cq_clock := t\<rparr>) xs = cal_holds ev q xs"
  "cal_holds ev (q\<lparr>cq_lastbucket := k\<rparr>) xs = cal_holds ev q xs" "cal_holds ev (q\<lparr>cq_time_to_newwidth := k\<rparr>) xs = cal_holds ev q xs"
  "cal_holds ev (q\<lparr>cq_gap_num := a\<rparr>) xs = cal_holds ev q xs" "cal_holds ev (q\<lparr>cq_last_time := t\<rparr>) xs = cal_holds ev q xs"
  "cal_holds ev (q\<lparr>cq_avg_gap := t\<rparr>) xs = cal_holds ev q xs"
  by (simp_all add: cal_holds_def)

lemma sum_list_put: "i < length bs \<Longrightarrow> sum_list (map f (bs[i := b])) = sum_list (map f bs) + (f b - f (bs ! i) :: int)"
  by (induction bs arbitrary: i) (auto split: nat.splits)

text \<open>A change of one bucket, given the sets of events before and after it.\<close>

lemma cal_holds_put:
  assumes "cal_shape q" "cal_holds ev q xs" "i < cq_nbuckets q" "sorted_wrt (before ev) xs" "sorted_wrt (before ev) xs'" "sorted_wrt (before ev) ys"
    and "set ys = {x \<in> set xs'. bucket_of q (ev_time (ev x)) = i}"
    and "\<And>x. bucket_of q (ev_time (ev x)) \<noteq> i \<Longrightarrow> x \<in> set xs' \<longleftrightarrow> x \<in> set xs"
    and "cb_count (cq_buckets q ! i) + dc = int (card ((\<lambda>x. ev_time (ev x)) ` set ys))"
  shows "cal_holds ev ((put_bucket i ys dc q)\<lparr>cq_qsize := int (length xs')\<rparr>) xs'"
proof -
  let ?P = "\<lambda>j x. bucket_of q (ev_time (ev x)) = j"
  have len: "i < length (cq_buckets q)" using assms(1,3) by (simp add: cal_shape_def)
  have f: "sorted_wrt (before ev) (filter (?P j) xs)" "sorted_wrt (before ev) (filter (?P j) xs')" for j
    using assms(4,5) by (auto intro: sorted_wrt_filter)
  have fi: "filter (?P i) xs' = ys" by (rule sorted_before_unique [OF f(2) assms(6)]) (auto simp: assms(7))
  have fj: "filter (?P j) xs' = filter (?P j) xs" if "j \<noteq> i" for j
    by (rule sorted_before_unique [OF f(2) f(1)]) (use assms(8) that in auto)
  have "bucket_ok ev (filter (?P j) xs') (cq_buckets (put_bucket i ys dc q) ! j)" if "j < cq_nbuckets q" for j
  proof (cases "j = i")
    case True
    then show ?thesis using fi len assms(9) by (simp add: bucket_ok_def put_bucket_def)
  next
    case False
    then show ?thesis using fj [OF False] len assms(2) that by (simp add: put_bucket_def cal_holds_def)
  qed
  moreover have "cq_stat_qsize q + dc = sum_list (map cb_count (cq_buckets (put_bucket i ys dc q)))"
    using len assms(2) by (simp add: put_bucket_def cal_holds_def sum_list_put)
  ultimately show ?thesis by (simp add: cal_holds_def)
qed

text \<open>The number of different times, when an event comes or goes.\<close>

lemma card_insert_time:
  "int (card (f ` insert e (set ys))) = int (card (f ` set ys)) + (if f e \<in> f ` set ys then 0 else 1)"
  by (simp add: insert_absorb)

lemma card_remove_time:
  assumes "e \<in> set ys" "distinct ys"
  shows "int (card (f ` set (remove1 e ys))) = int (card (f ` set ys)) + (if f e \<in> f ` set (remove1 e ys) then 0 else - 1)"
proof -
  have "set ys = insert e (set (remove1 e ys))" using assms by auto
  then show ?thesis using card_insert_time [of f e "remove1 e ys"] by (auto split: if_splits)
qed

section \<open>Insertion into a bucket\<close>

lemma agenda_insert_sorted:
  assumes "sorted_wrt (before ev) xs" "\<And>x. x \<in> set xs \<Longrightarrow> ev_time (ev x) = ev_time (ev e) \<Longrightarrow> ev_uid (ev x) < ev_uid (ev e)"
  shows "sorted_wrt (before ev) (agenda_insert ev e xs)"
proof -
  let ?P = "\<lambda>x. ev_time (ev x) \<le> ev_time (ev e)"
  have s: "sorted_wrt (before ev) (takeWhile ?P xs @ dropWhile ?P xs)" using assms(1) by simp
  have "before ev x e" if "x \<in> set (takeWhile ?P xs)" for x
    using set_takeWhileD [OF that] assms(2) by (auto simp: before_def)
  moreover have "before ev e x" if "x \<in> set (dropWhile ?P xs)" for x
    using dropWhile_times [OF assms(1) that] by (simp add: before_def)
  ultimately show ?thesis using s unfolding agenda_insert_def
    by (auto simp: sorted_wrt_append simp del: takeWhile_dropWhile_id)
qed

lemma cal_after_ok:
  assumes "\<exists>a \<in> set as. ev_time (ev a) \<le> t"
  shows "\<exists>k'. cal_after ev t as later k =
    Some (dropWhile (\<lambda>x. t < ev_time (ev x)) as, rev (takeWhile (\<lambda>x. t < ev_time (ev x)) as) @ later, k')"
  using assms by (induction as arbitrary: later k) auto

lemma sorted_last_time: "sorted (ev_times ev xs) \<Longrightarrow> x \<in> set xs \<Longrightarrow> ev_time (ev x) \<le> ev_time (ev (last xs))"
  by (induction xs rule: rev_induct) (auto simp: sorted_append)

lemma rev_split:
  "sorted (ev_times ev xs) \<Longrightarrow> rev (dropWhile (\<lambda>x. t < ev_time (ev x)) (rev xs)) = takeWhile (\<lambda>x. ev_time (ev x) \<le> t) xs \<and>
    rev (takeWhile (\<lambda>x. t < ev_time (ev x)) (rev xs)) = dropWhile (\<lambda>x. ev_time (ev x) \<le> t) xs"
proof (induction xs rule: rev_induct)
  case (snoc x xs)
  have le: "\<forall>y \<in> set xs. ev_time (ev y) \<le> ev_time (ev x)" and s: "sorted (ev_times ev xs)" using snoc.prems by (auto simp: sorted_append)
  show ?case
  proof (cases "t < ev_time (ev x)")
    case True
    then show ?thesis using snoc.IH [OF s] by (auto simp: takeWhile_append dropWhile_append takeWhile_eq_all_conv)
  next
    case False
    then have "\<forall>y \<in> set xs. ev_time (ev y) \<le> t" using le by auto
    then have "takeWhile (\<lambda>x. ev_time (ev x) \<le> t) xs = xs" "dropWhile (\<lambda>x. ev_time (ev x) \<le> t) xs = []"
      by (simp_all add: takeWhile_eq_all_conv dropWhile_eq_Nil_conv)
    then show ?thesis using False by (simp add: takeWhile_append dropWhile_append)
  qed
qed simp

text \<open>The bucket after \<open>insert\<close>: the new event behind those of the same time.\<close>

lemma cal_place_ok:
  assumes "get_bucket q i = Some b" "sorted_wrt (before ev) (cb_list b)"
  shows "\<exists>k. cal_place ev e i q = Some (put_bucket i (agenda_insert ev e (cb_list b))
    (if ev_time (ev e) \<in> (\<lambda>x. ev_time (ev x)) ` set (cb_list b) then 0 else 1) (q\<lparr>cq_insert_search := k\<rparr>))"
proof (cases "cb_list b")
  case Nil
  then show ?thesis using assms(1) by (intro exI [of _ "cq_insert_search q"]) (simp add: cal_place_def agenda_insert_def)
next
  case (Cons y ys)
  let ?t = "ev_time (ev e)" and ?xs = "cb_list b"
  have s: "sorted (ev_times ev ?xs)" by (rule sorted_before_times [OF assms(2)])
  show ?thesis
  proof (cases "?t < ev_time (ev y)")
    case True
    then have "?t \<notin> (\<lambda>x. ev_time (ev x)) ` set ?xs" using s Cons by auto
    then show ?thesis using assms(1) Cons True by (auto simp: cal_place_def agenda_insert_def)
  next
    case False
    have "\<exists>a \<in> set (rev ?xs). ev_time (ev a) \<le> ?t" using False Cons by auto
    from cal_after_ok [OF this, of "[]" 0] obtain k where
      k: "cal_after ev ?t (rev ?xs) [] 0 = Some (dropWhile (\<lambda>x. ?t < ev_time (ev x)) (rev ?xs), rev (takeWhile (\<lambda>x. ?t < ev_time (ev x)) (rev ?xs)), k)"
      by auto
    let ?d = "dropWhile (\<lambda>x. ?t < ev_time (ev x)) (rev ?xs)"
    have d: "rev ?d = takeWhile (\<lambda>x. ev_time (ev x) \<le> ?t) ?xs" using rev_split [OF s] by simp
    then have ne: "?d \<noteq> []" using False Cons by auto
    let ?T = "takeWhile (\<lambda>x. ev_time (ev x) \<le> ?t) ?xs" and ?D = "dropWhile (\<lambda>x. ev_time (ev x) \<le> ?t) ?xs"
    have sT: "sorted (ev_times ev (?T @ ?D))" using s by simp
    have l: "hd ?d = last ?T" "last ?T \<in> set ?T" using d ne by (metis hd_rev rev_rev_ident, metis d rev_is_Nil_conv last_in_set)
    have le: "ev_time (ev x) \<le> ev_time (ev (last ?T))" if "x \<in> set ?T" for x
      by (rule sorted_last_time [OF _ that]) (use sT in \<open>simp only: map_append sorted_append\<close>)
    have "ev_time (ev (hd ?d)) < ?t \<longleftrightarrow> ?t \<notin> (\<lambda>x. ev_time (ev x)) ` set ?xs"
    proof
      assume lt: "ev_time (ev (hd ?d)) < ?t"
      show "?t \<notin> (\<lambda>x. ev_time (ev x)) ` set ?xs"
      proof
        assume "?t \<in> (\<lambda>x. ev_time (ev x)) ` set ?xs"
        then obtain x where x: "x \<in> set ?xs" "ev_time (ev x) = ?t" by auto
        have "x \<in> set ?T \<union> set ?D" using x(1) by (metis set_append takeWhile_dropWhile_id)
        then have "x \<in> set ?T" using dropWhile_times [OF assms(2), of x ?t] x(2) by auto
        then show False using le [of x] lt x(2) l(1) by simp
      qed
    next
      assume "?t \<notin> (\<lambda>x. ev_time (ev x)) ` set ?xs"
      then have "ev_time (ev (last ?T)) \<noteq> ?t" using set_takeWhileD [OF l(2)] by (metis image_eqI)
      then show "ev_time (ev (hd ?d)) < ?t" using set_takeWhileD [OF l(2)] l(1) by simp
    qed
    then show ?thesis using assms(1) Cons False k rev_split [OF s] by (auto simp: cal_place_def agenda_insert_def Let_def)
  qed
qed

lemma cal_bucketD:
  assumes "cal_holds ev q xs" "i < cq_nbuckets q"
  shows "cb_list (cq_buckets q ! i) = filter (\<lambda>x. bucket_of q (ev_time (ev x)) = i) xs"
    "cb_count (cq_buckets q ! i) = int (card ((\<lambda>x. ev_time (ev x)) ` {x \<in> set xs. bucket_of q (ev_time (ev x)) = i}))"
  using assms by (auto simp: cal_holds_def bucket_ok_def)

lemma cal_place_holds:
  assumes "cal_shape q" "cal_holds ev q xs" "sorted_wrt (before ev) xs" "e \<notin> set xs"
    and "\<And>x. x \<in> set xs \<Longrightarrow> ev_time (ev x) = ev_time (ev e) \<Longrightarrow> ev_uid (ev x) < ev_uid (ev e)"
  shows "\<exists>q'. cal_place ev e (bucket_of q (ev_time (ev e))) q = Some q' \<and> cal_shape q' \<and> cq_clock q' = cq_clock q \<and>
    cal_holds ev (q'\<lparr>cq_qsize := cq_qsize q' + 1\<rparr>) (agenda_insert ev e xs) \<and> cq_nbuckets q' = cq_nbuckets q"
proof -
  let ?i = "bucket_of q (ev_time (ev e))" and ?xs = "agenda_insert ev e xs"
  let ?b = "cq_buckets q ! ?i"
  let ?dc = "if ev_time (ev e) \<in> (\<lambda>x. ev_time (ev x)) ` set (cb_list ?b) then 0 else 1"
  have i: "?i < cq_nbuckets q" by (rule bucket_less [OF assms(1)])
  note b = cal_bucketD [OF assms(2) i]
  have sb: "sorted_wrt (before ev) (cb_list ?b)" unfolding b(1) by (rule sorted_wrt_filter [OF assms(3)])
  obtain k where k: "cal_place ev e ?i q = Some (put_bucket ?i (agenda_insert ev e (cb_list ?b)) ?dc (q\<lparr>cq_insert_search := k\<rparr>))"
    using cal_place_ok [OF get_bucket_ok [OF assms(1) i] sb] by blast
  let ?q = "put_bucket ?i (agenda_insert ev e (cb_list ?b)) ?dc (q\<lparr>cq_insert_search := k\<rparr>)"
  have "cal_holds ev (?q\<lparr>cq_qsize := int (length ?xs)\<rparr>) ?xs"
  proof (rule cal_holds_put [where xs = xs])
    show "sorted_wrt (before ev) ?xs" by (rule agenda_insert_sorted [OF assms(3,5)])
    show "sorted_wrt (before ev) (agenda_insert ev e (cb_list ?b))" using assms(5) b(1) by (intro agenda_insert_sorted [OF sb]) auto
    show "cb_count (cq_buckets (q\<lparr>cq_insert_search := k\<rparr>) ! ?i) + ?dc = int (card ((\<lambda>x. ev_time (ev x)) ` set (agenda_insert ev e (cb_list ?b))))"
      using card_insert_time [of "\<lambda>x. ev_time (ev x)" e "cb_list ?b"] b by (simp add: set_agenda_insert)
  qed (use assms i b in auto)
  moreover have "int (length ?xs) = cq_qsize q + 1" using assms(2) by (simp add: cal_holds_def length_agenda_insert)
  ultimately have "cal_holds ev (?q\<lparr>cq_qsize := cq_qsize ?q + 1\<rparr>) ?xs" by simp
  then show ?thesis using k assms(1) by auto
qed

section \<open>Rebuilding the calendar\<close>

lemma sorted_drop_late:
  assumes "sorted (ev_times ev xs)" "x \<in> set (dropWhile (\<lambda>x. t > ev_time (ev x)) xs)"
  shows "t \<le> ev_time (ev x)"
  using assms by (induction xs) (auto split: if_splits)

text \<open>\<open>insert2\<close> puts an event in front of those of the same time.\<close>

definition early_insert :: "real events \<Rightarrow> event_ptr \<Rightarrow> event_ptr list \<Rightarrow> event_ptr list" where
  "early_insert ev e xs = takeWhile (\<lambda>x. ev_time (ev e) > ev_time (ev x)) xs @ e # dropWhile (\<lambda>x. ev_time (ev e) > ev_time (ev x)) xs"

lemma set_early_insert [simp]: "set (early_insert ev e xs) = insert e (set xs)"
  using set_append [of "takeWhile (\<lambda>x. ev_time (ev e) > ev_time (ev x)) xs" "dropWhile (\<lambda>x. ev_time (ev e) > ev_time (ev x)) xs"]
  by (auto simp: early_insert_def)

lemma length_early_insert [simp]: "length (early_insert ev e xs) = length xs + 1"
  by (induction xs) (simp_all add: early_insert_def)

lemma early_insert_sorted:
  assumes "sorted_wrt (before ev) xs" "\<And>x. x \<in> set xs \<Longrightarrow> ev_time (ev x) = ev_time (ev e) \<Longrightarrow> before ev e x"
  shows "sorted_wrt (before ev) (early_insert ev e xs)"
proof -
  let ?P = "\<lambda>x. ev_time (ev e) > ev_time (ev x)"
  have s: "sorted_wrt (before ev) (takeWhile ?P xs @ dropWhile ?P xs)" using assms(1) by simp
  have "before ev x e" if "x \<in> set (takeWhile ?P xs)" for x
    using set_takeWhileD [OF that] by (auto simp: before_def)
  moreover have "before ev e x" if "x \<in> set (dropWhile ?P xs)" for x
    using sorted_drop_late [OF sorted_before_times [OF assms(1)] that] assms(2) [OF set_dropWhileD [OF that]] by (force simp: before_def)
  ultimately show ?thesis using s unfolding early_insert_def by (auto simp: sorted_wrt_append simp del: takeWhile_dropWhile_id)
qed

lemma cal_insert2_put:
  assumes "CALENDAR_HASH q (ev_time (ev e)) = Some i" "get_bucket q i = Some b" "sorted_wrt (before ev) (cb_list b)"
  shows "cal_insert2 ev e q = Some ((put_bucket i (early_insert ev e (cb_list b))
    (if ev_time (ev e) \<in> (\<lambda>x. ev_time (ev x)) ` set (cb_list b) then 0 else 1) q)\<lparr>cq_qsize := cq_qsize q + 1\<rparr>)"
proof (cases "cb_list b = []")
  case True
  then show ?thesis using assms by (simp add: cal_insert2_def early_insert_def)
next
  case ne: False
  let ?t = "ev_time (ev e)" and ?xs = "cb_list b"
  have s: "sorted (ev_times ev ?xs)" by (rule sorted_before_times [OF assms(3)])
  have le: "ev_time (ev x) \<le> ev_time (ev (last ?xs))" if "x \<in> set ?xs" for x
    by (rule sorted_last_time [OF s that])
  show ?thesis
  proof (cases "?t > ev_time (ev (last ?xs))")
    case True
    then have all: "\<forall>x \<in> set ?xs. ?t > ev_time (ev x)" using le by force
    then have w: "takeWhile (\<lambda>x. ?t > ev_time (ev x)) ?xs = ?xs" "dropWhile (\<lambda>x. ?t > ev_time (ev x)) ?xs = []"
      by (simp_all add: takeWhile_eq_all_conv dropWhile_eq_Nil_conv)
    have "?t \<notin> (\<lambda>x. ev_time (ev x)) ` set ?xs" "ev_time (ev (hd ?xs)) \<noteq> ?t" using all ne hd_in_set by force+
    then show ?thesis unfolding early_insert_def w using assms(1,2) ne True by (simp add: cal_insert2_def)
  next
    case False
    let ?z = "dropWhile (\<lambda>x. ?t > ev_time (ev x)) ?xs"
    have zne: "?z \<noteq> []" using False ne last_in_set by (auto simp: dropWhile_eq_Nil_conv)
    have h: "?t \<le> ev_time (ev (hd ?z))" "hd ?z \<in> set ?xs"
      using hd_dropWhile [OF zne] set_dropWhileD [OF hd_in_set [OF zne]] by (simp_all add: not_less)
    have "ev_time (ev (hd ?z)) = ?t" if "?t \<in> (\<lambda>x. ev_time (ev x)) ` set ?xs"
    proof -
      from that obtain x where x: "x \<in> set ?xs" "ev_time (ev x) = ?t" by auto
      have "x \<in> set (takeWhile (\<lambda>x. ?t > ev_time (ev x)) ?xs) \<union> set ?z" using x(1) by (metis set_append takeWhile_dropWhile_id)
      then have "x \<in> set ?z" using x(2) by (auto dest: set_takeWhileD)
      moreover have "sorted (ev_times ev (takeWhile (\<lambda>x. ?t > ev_time (ev x)) ?xs @ ?z))" using s by simp
      then have "sorted (ev_times ev ?z)" by (simp only: map_append sorted_append)
      ultimately show ?thesis using h x(2) zne by (cases ?z) auto
    qed
    then have "ev_time (ev (hd ?z)) \<noteq> ?t \<longleftrightarrow> ?t \<notin> (\<lambda>x. ev_time (ev x)) ` set ?xs" using h(2) by (metis image_eqI)
    then show ?thesis using assms(1,2) ne False by (simp add: cal_insert2_def early_insert_def Let_def)
  qed
qed

lemma cal_insert2_holds:
  assumes "cal_shape q" "cal_holds ev q xs" "sorted_wrt (before ev) xs" "e \<notin> set xs" "0 \<le> ev_time (ev e)"
    and "\<And>x. x \<in> set xs \<Longrightarrow> ev_time (ev x) = ev_time (ev e) \<Longrightarrow> before ev e x"
  shows "\<exists>q'. cal_insert2 ev e q = Some q' \<and> cal_shape q' \<and> cq_clock q' = cq_clock q \<and> cal_holds ev q' (early_insert ev e xs)"
proof -
  let ?i = "bucket_of q (ev_time (ev e))" and ?xs = "early_insert ev e xs"
  let ?b = "cq_buckets q ! ?i"
  let ?dc = "if ev_time (ev e) \<in> (\<lambda>x. ev_time (ev x)) ` set (cb_list ?b) then 0 else 1"
  let ?q = "(put_bucket ?i (early_insert ev e (cb_list ?b)) ?dc q)\<lparr>cq_qsize := cq_qsize q + 1\<rparr>"
  have i: "?i < cq_nbuckets q" by (rule bucket_less [OF assms(1)])
  note b = cal_bucketD [OF assms(2) i]
  have sb: "sorted_wrt (before ev) (cb_list ?b)" unfolding b(1) by (rule sorted_wrt_filter [OF assms(3)])
  have k: "cal_insert2 ev e q = Some ?q" by (rule cal_insert2_put [OF hash_ok [OF assms(5)] get_bucket_ok [OF assms(1) i] sb])
  have l: "cq_qsize q + 1 = int (length ?xs)" using assms(2) by (simp add: cal_holds_def)
  have "cal_holds ev ?q ?xs"
    unfolding l
  proof (rule cal_holds_put [where xs = xs])
    show "sorted_wrt (before ev) ?xs" by (rule early_insert_sorted [OF assms(3,6)])
    show "sorted_wrt (before ev) (early_insert ev e (cb_list ?b))" using assms(6) b(1) by (intro early_insert_sorted [OF sb]) auto
    show "cb_count (cq_buckets q ! ?i) + ?dc = int (card ((\<lambda>x. ev_time (ev x)) ` set (early_insert ev e (cb_list ?b))))"
      using card_insert_time [of "\<lambda>x. ev_time (ev x)" e "cb_list ?b"] b by simp
  qed (use assms i b in auto)
  moreover have "cal_shape ?q" "cq_clock ?q = cq_clock q" using assms(1) by simp_all
  ultimately show ?thesis using k by blast
qed

text \<open>The old events come in an order in which, of two events of the same time, the later one is first.\<close>

abbreviation (input) late_first :: "real events \<Rightarrow> event_ptr \<Rightarrow> event_ptr \<Rightarrow> bool" where
  "late_first ev x y \<equiv> ev_time (ev x) = ev_time (ev y) \<longrightarrow> before ev y x"

lemma cal_insert2s_holds:
  assumes "cal_shape q" "cal_holds ev q xs" "sorted_wrt (before ev) xs" "distinct es" "set es \<inter> set xs = {}" "\<forall>e \<in> set es. 0 \<le> ev_time (ev e)"
    and "sorted_wrt (late_first ev) es" "\<forall>e \<in> set es. \<forall>x \<in> set xs. ev_time (ev x) = ev_time (ev e) \<longrightarrow> before ev e x"
  shows "\<exists>q' zs. cal_insert2s ev es q = Some q' \<and> cal_shape q' \<and> cq_clock q' = cq_clock q \<and> cal_holds ev q' zs \<and> sorted_wrt (before ev) zs \<and>
    set zs = set es \<union> set xs"
  using assms
proof (induction es arbitrary: q xs)
  case (Cons e es)
  have b: "x \<in> set xs \<Longrightarrow> ev_time (ev x) = ev_time (ev e) \<Longrightarrow> before ev e x" for x using Cons.prems(8) by simp
  have e: "e \<notin> set xs" "0 \<le> ev_time (ev e)" using Cons.prems(5,6) by auto
  from cal_insert2_holds [OF Cons.prems(1-3) e b] obtain q1 where
    q1: "cal_insert2 ev e q = Some q1" "cal_shape q1" "cq_clock q1 = cq_clock q" "cal_holds ev q1 (early_insert ev e xs)" by blast
  have "\<exists>q' zs. cal_insert2s ev es q1 = Some q' \<and> cal_shape q' \<and> cq_clock q' = cq_clock q1 \<and> cal_holds ev q' zs \<and> sorted_wrt (before ev) zs \<and>
    set zs = set es \<union> set (early_insert ev e xs)"
  proof (rule Cons.IH [OF q1(2,4) early_insert_sorted [OF Cons.prems(3) b]])
    show "\<forall>f \<in> set es. \<forall>x \<in> set (early_insert ev e xs). ev_time (ev x) = ev_time (ev f) \<longrightarrow> before ev f x"
      using Cons.prems(7,8) by simp
  qed (use Cons.prems(4-7) in simp_all)
  then obtain q' zs where z: "cal_insert2s ev es q1 = Some q'" "cal_shape q'" "cq_clock q' = cq_clock q1" "cal_holds ev q' zs" "sorted_wrt (before ev) zs"
    "set zs = set es \<union> set (early_insert ev e xs)" by blast
  show ?case by (rule exI [of _ q'], rule exI [of _ zs]) (use q1 z in \<open>simp add: insert_commute\<close>)
qed auto

lemma bucket_events:
  assumes "sorted_wrt (before ev) xs" "distinct js"
  shows "sorted_wrt (late_first ev) (concat (map (\<lambda>i. rev (filter (\<lambda>x. b (ev_time (ev x)) = i) xs)) js))"
    "distinct (concat (map (\<lambda>i. rev (filter (\<lambda>x. b (ev_time (ev x)) = i) xs)) js))"
    "set (concat (map (\<lambda>i. rev (filter (\<lambda>x. b (ev_time (ev x)) = i) xs)) js)) = {x \<in> set xs. b (ev_time (ev x)) \<in> set js}"
proof -
  have "sorted_wrt (late_first ev) (rev (filter (\<lambda>x. b (ev_time (ev x)) = i) xs))" for i
    unfolding sorted_wrt_rev by (rule sorted_wrt_mono_rel [OF _ sorted_wrt_filter [OF assms(1)]]) simp
  then show "sorted_wrt (late_first ev) (concat (map (\<lambda>i. rev (filter (\<lambda>x. b (ev_time (ev x)) = i) xs)) js))"
    using assms(2) by (induction js) (auto simp: sorted_wrt_append)
  show "distinct (concat (map (\<lambda>i. rev (filter (\<lambda>x. b (ev_time (ev x)) = i) xs)) js))"
    using assms(2) sorted_before_distinct [OF assms(1)] by (induction js) auto
qed auto

lemma cal_buckets:
  assumes "cal_shape q" "cal_holds ev q xs"
  shows "map cb_list (cq_buckets q) = map (\<lambda>i. filter (\<lambda>x. bucket_of q (ev_time (ev x)) = i) xs) [0 ..< cq_nbuckets q]"
  using assms cal_bucketD(1) [OF assms(2)] by (intro nth_equalityI) (auto simp: cal_shape_def)

lemma cal_reinit_ok:
  assumes "4 \<le> nbuck" "0 < bwidth" "0 \<le> cq_clock q"
  shows "\<exists>q'. cal_reinit nbuck bwidth (cq_clock q) q = Some q' \<and> cal_shape q' \<and> cq_clock q' = cq_clock q \<and> cal_holds ev q' []"
  using assms by (simp add: cal_reinit_def hash_ok cal_shape_def cal_holds_def bucket_ok_def bucket_of_def Let_def sum_list_replicate)

text \<open>The new width is positive: a bucket with more than four different times does not begin and end at the same time.\<close>

lemma max_bucket_less:
  assumes "0 < length bs"
  shows "max_bucket bs < length bs"
proof -
  have "foldl (\<lambda>m i. if cb_count (bs ! i) > cb_count (bs ! m) then i else m) m js < length bs" if "m < length bs" "\<forall>j \<in> set js. j < length bs" for m js
    using that by (induction js arbitrary: m) auto
  then show ?thesis using assms unfolding max_bucket_def by simp
qed

lemma spread_positive:
  fixes ev :: "real events"
  assumes "sorted (ev_times ev xs)" "1 < card ((\<lambda>x. ev_time (ev x)) ` set xs)"
  shows "xs \<noteq> []" "ev_time (ev (hd xs)) < ev_time (ev (last xs))"
proof -
  show ne: "xs \<noteq> []" using assms(2) by auto
  have lo: "ev_time (ev (hd xs)) \<le> ev_time (ev x)" if "x \<in> set xs" for x using assms(1) that by (cases xs) auto
  show "ev_time (ev (hd xs)) < ev_time (ev (last xs))"
  proof (rule ccontr)
    assume "\<not> ?thesis"
    then have "ev_time (ev x) = ev_time (ev (hd xs))" if "x \<in> set xs" for x
      using lo [OF that] sorted_last_time [OF assms(1) that] by linarith
    then have "(\<lambda>x. ev_time (ev x)) ` set xs \<subseteq> {ev_time (ev (hd xs))}" by auto
    then have "card ((\<lambda>x. ev_time (ev x)) ` set xs) \<le> card {ev_time (ev (hd xs))}" by (intro card_mono) auto
    then show False using assms(2) by simp
  qed
qed

definition same_calendar :: "calendar \<Rightarrow> calendar \<Rightarrow> bool" where
  "same_calendar q q' \<longleftrightarrow> cq_buckets q' = cq_buckets q \<and> cq_nbuckets q' = cq_nbuckets q \<and> cq_clock q' = cq_clock q \<and>
     cal_shape q' = cal_shape q \<and> (\<forall>ev xs. cal_holds ev q' xs = cal_holds ev q xs)"

lemma cal_newwidth_ok:
  assumes "cal_shape q" "cal_holds ev q xs" "sorted_wrt (before ev) xs" "0 < newsize"
  shows "\<exists>w q'. cal_newwidth ev newsize q = Some (w, q') \<and> 0 < w \<and> same_calendar q q'"
proof -
  define q1 where "q1 = (if cq_adjust q \<noteq> 0 then q\<lparr>cq_time_to_newwidth := cq_adjust q\<rparr> else q)"
  let ?m = "max_bucket (cq_buckets q)"
  let ?b = "cq_buckets q ! ?m"
  have q: "same_calendar q q1" "cq_buckets q1 = cq_buckets q" "cq_avg_gap q1 = cq_avg_gap q" "cq_width q1 = cq_width q" "cq_adjust q1 = cq_adjust q"
    by (simp_all add: q1_def same_calendar_def)
  have "0 < length (cq_buckets q)" "length (cq_buckets q) = cq_nbuckets q" using assms(1) by (auto simp: cal_shape_def)
  then have m: "?m < cq_nbuckets q" "?m < length (cq_buckets q)" using max_bucket_less [of "cq_buckets q"] by simp_all
  have g: "get_bucket q1 ?m = Some ?b" using m(2) q(2) by (simp add: get_bucket_def)
  note b = cal_bucketD [OF assms(2) m(1)]
  have w: "0 < cq_width q" using assms(1) by (simp add: cal_shape_def)
  have "cb_list ?b \<noteq> [] \<and> ev_time (ev (hd (cb_list ?b))) < ev_time (ev (last (cb_list ?b)))" if "4 < cb_count ?b"
    using spread_positive [of ev "cb_list ?b"] that b sorted_before_times [OF sorted_wrt_filter [OF assms(3)]] by auto
  then have p: "4 < cb_count ?b \<Longrightarrow> cb_list ?b \<noteq> []" "4 < cb_count ?b \<Longrightarrow> 0 < ev_time (ev (last (cb_list ?b))) - ev_time (ev (hd (cb_list ?b)))"
    by auto
  show ?thesis
  proof (cases "cq_adjust q \<noteq> 0 \<and> cq_avg_gap q > 0")
    case True
    then show ?thesis using q(1) by (simp add: cal_newwidth_def q1_def)
  next
    case False
    have eq: "cal_newwidth ev newsize q = (if cb_count ?b \<le> 4 then Some (cq_width q, q1) else
        if cb_list ?b = [] then None
        else let nw = ev_time (ev (last (cb_list ?b))) - ev_time (ev (hd (cb_list ?b))) in
          if \<not> nw > 0 then None else Some (nw / of_int (min (int newsize) (cb_count ?b)) * 4, q1))"
      unfolding cal_newwidth_def q1_def [symmetric] Let_def q(2,3,5) if_not_P [OF False] g by (simp add: q(4))
    show ?thesis
    proof (cases "cb_count ?b \<le> 4")
      case True
      then show ?thesis using eq q(1) w by auto
    next
      case False
      then have "0 < real_of_int (min (int newsize) (cb_count ?b))" using assms(4) by simp
      then show ?thesis using eq q(1) p False by (simp add: Let_def)
    qed
  qed
qed

lemma cal_choose_width_ok:
  assumes "cal_shape q" "cal_holds ev q xs" "sorted_wrt (before ev) xs" "0 < newsize"
  shows "\<exists>w m q'. cal_choose_width ev newsize q = Some (w, m, q') \<and> (\<forall>b. w = Some b \<longrightarrow> 0 < b) \<and> 4 \<le> m \<and> same_calendar q q'"
proof (cases "newsize = cq_nbuckets q")
  case True
  let ?a = "if cq_head_search q \<noteq> 0 then real (cq_head_search q) else 1"
  let ?c = "if cq_insert_search q \<noteq> 0 then ?a / real (cq_insert_search q) else ?a"
  have n: "4 \<le> newsize" "0 < cq_width q" using True assms(1) by (simp_all add: cal_shape_def)
  have pos: "0 < sqrt ?c * cq_width q" using n(2) by simp
  obtain w q1 where w: "cal_newwidth ev newsize q = Some (w, q1)" "0 < w" "same_calendar q q1"
    using cal_newwidth_ok [OF assms] by blast
  have eq: "cal_choose_width ev newsize q = (if sqrt ?c * cq_width q < cq_min_bin_width q then
      if cq_time_to_newwidth q > 0 then Some (None, newsize, q\<lparr>cq_time_to_newwidth := cq_time_to_newwidth q - 1, cq_head_search := 0, cq_insert_search := 0, cq_round_num := 0\<rparr>)
      else Some (Some w, newsize, q1) else Some (Some (sqrt ?c * cq_width q), newsize, q))"
    using True w(1) unfolding cal_choose_width_def Let_def by simp
  show ?thesis unfolding eq using pos n(1) w(2,3) by (simp add: same_calendar_def)
next
  case False
  then show ?thesis using cal_newwidth_ok [OF assms] by (auto simp: cal_choose_width_def)
qed

text \<open>A resized calendar holds the same events.\<close>

lemma cal_resize_ok:
  assumes "cal_rep ev n q xs" "0 < newsize"
  shows "\<exists>q'. cal_resize ev newsize (cq_clock q) q = Some q' \<and> cal_rep ev n q' xs \<and> cq_clock q' = cq_clock q"
proof -
  have r: "cal_shape q" "cal_holds ev q xs" "sorted_wrt (before ev) xs" "\<forall>x \<in> set xs. cq_clock q \<le> ev_time (ev x)" "0 \<le> cq_clock q"
    using assms(1) by (auto simp: cal_rep_def agenda_def cal_shape_def)
  obtain w m q1 where w: "cal_choose_width ev newsize q = Some (w, m, q1)" "\<forall>b. w = Some b \<longrightarrow> 0 < b" "4 \<le> m" and same: "same_calendar q q1"
    using cal_choose_width_ok [OF r(1-3) assms(2)] by blast
  show ?thesis
  proof (cases w)
    case None
    then show ?thesis using w(1) same assms(1) by (simp add: cal_resize_def same_calendar_def cal_rep_def)
  next
    case (Some b)
    let ?es = "concat (map (\<lambda>b. rev (cb_list b)) (cq_buckets q))"
    let ?js = "[0 ..< cq_nbuckets q]"
    have "?es = concat (map rev (map cb_list (cq_buckets q)))" by (simp add: comp_def)
    also have "\<dots> = concat (map (\<lambda>i. rev (filter (\<lambda>x. bucket_of q (ev_time (ev x)) = i) xs)) ?js)"
      unfolding cal_buckets [OF r(1,2)] by (simp add: comp_def)
    finally have es: "?es = concat (map (\<lambda>i. rev (filter (\<lambda>x. bucket_of q (ev_time (ev x)) = i) xs)) ?js)" .
    have e: "sorted_wrt (late_first ev) ?es" "distinct ?es" "set ?es = set xs"
      using bucket_events [OF r(3), of ?js "bucket_of q"] bucket_less [OF r(1)] unfolding es by auto
    have c: "cq_clock q1 = cq_clock q" "cq_buckets q1 = cq_buckets q" using same by (simp_all add: same_calendar_def)
    have "0 \<le> cq_clock q1" "0 < b" using c r(5) w(2) Some by simp_all
    from cal_reinit_ok [OF w(3) this(2,1)] obtain q2 where
      q2: "cal_reinit m b (cq_clock q1) q1 = Some q2" "cal_shape q2" "cq_clock q2 = cq_clock q1" "cal_holds ev q2 []" by blast
    have "\<forall>x \<in> set ?es. 0 \<le> ev_time (ev x)" using r(4,5) unfolding e(3) by force
    with cal_insert2s_holds [OF q2(2,4) _ e(2) _ _ e(1)] obtain q3 zs where
      q3: "cal_insert2s ev ?es q2 = Some q3" "cal_shape q3" "cq_clock q3 = cq_clock q2" "cal_holds ev q3 zs" "sorted_wrt (before ev) zs" "set zs = set ?es"
      by auto
    have "zs = xs" by (rule sorted_before_unique [OF q3(5) r(3)]) (simp only: q3(6) e(3))
    then have "cal_rep ev n (q3\<lparr>cq_head_search := 0, cq_insert_search := 0, cq_round_num := 0\<rparr>) xs"
      using assms(1) q3 q2(3) c by (simp add: cal_rep_def)
    moreover have "cal_resize ev newsize (cq_clock q) q = Some (q3\<lparr>cq_head_search := 0, cq_insert_search := 0, cq_round_num := 0\<rparr>)"
      using w(1) Some q2(1) q3(1) c unfolding cal_resize_def by simp
    ultimately show ?thesis using q3(3) q2(3) c by simp
  qed
qed

section \<open>Insertion\<close>

lemma cal_shape_clock: "cal_shape q \<Longrightarrow> 0 \<le> t \<Longrightarrow> cal_shape (q\<lparr>cq_clock := t, cq_lastbucket := bucket_of q t\<rparr>)"
  by (simp add: cal_shape_def)

lemma cal_insert_ok:
  assumes "cal_rep ev n q xs" "0 < n" "e \<noteq> 0" "e \<notin> set xs" "n \<le> ev_uid (ev e)" "0 \<le> ev_time (ev e)"
  shows "\<exists>q'. cal_insert ev e q = Some q' \<and> cal_rep ev (ev_uid (ev e) + 1) q' (agenda_insert ev e xs)"
proof -
  let ?t = "ev_time (ev e)" and ?xs = "agenda_insert ev e xs"
  let ?i = "bucket_of q ?t"
  have r: "agenda ev n xs" "cal_shape q" "cal_holds ev q xs" "sorted_wrt (before ev) xs" "\<forall>x \<in> set xs. cq_clock q \<le> ev_time (ev x)"
    using assms(1) by (auto simp: cal_rep_def agenda_def)
  define q0 where "q0 = (if cq_clock q > ?t then q\<lparr>cq_clock := ?t, cq_lastbucket := ?i\<rparr> else q)"
  have q0: "cal_shape q0" "cal_holds ev q0 xs" "bucket_of q0 = bucket_of q" "cq_clock q0 \<le> ?t" "cq_clock q0 \<le> cq_clock q"
    using r(2,3) cal_shape_clock [OF r(2) assms(6)] by (simp_all add: q0_def)
  have u: "ev_uid (ev x) < ev_uid (ev e)" if "x \<in> set xs" for x using r(1) that assms(5) by (force simp: agenda_def)
  from cal_place_holds [OF q0(1,2) r(4) assms(4) u] obtain q1 where
    q1: "cal_place ev e ?i q0 = Some q1" "cal_shape q1" "cq_clock q1 = cq_clock q0" "cal_holds ev (q1\<lparr>cq_qsize := cq_qsize q1 + 1\<rparr>) ?xs" "cq_nbuckets q1 = cq_nbuckets q0"
    unfolding q0(3) by blast
  let ?q = "q1\<lparr>cq_qsize := cq_qsize q1 + 1\<rparr>"
  have "agenda ev (ev_uid (ev e) + 1) ?xs" using assms(2,5) by (intro agenda_insert_agenda [OF r(1) assms(3)]) simp_all
  moreover have "\<forall>x \<in> set ?xs. cq_clock q1 \<le> ev_time (ev x)" using r(5) q0(4,5) q1(3) by fastforce
  ultimately have rep: "cal_rep ev (ev_uid (ev e) + 1) ?q ?xs" using q1(2,4) by (simp add: cal_rep_def)
  have "0 < cq_nbuckets q1 * 2" using q1(2) by (simp add: cal_shape_def)
  from cal_resize_ok [OF rep this] obtain q' where "cal_resize ev (cq_nbuckets q1 * 2) (cq_clock ?q) ?q = Some q'" "cal_rep ev (ev_uid (ev e) + 1) q' ?xs" by blast
  moreover have "cal_insert ev e q = (if cq_stat_qsize ?q > cq_top ?q then cal_resize ev (cq_nbuckets q1 * 2) (cq_clock ?q) ?q else Some ?q)"
    unfolding cal_insert_def Let_def hash_ok [OF assms(6)] using q1(1) by (simp add: q0_def [symmetric])
  ultimately show ?thesis using rep by simp
qed

section \<open>The next event\<close>

text \<open>The day of a time; the days of a bucket repeat every \<open>cq_nbuckets\<close> days.\<close>

definition day :: "calendar \<Rightarrow> real \<Rightarrow> nat" where
  "day q t = nat \<lfloor>t / cq_width q\<rfloor>"

lemma bucket_day: "cal_shape q \<Longrightarrow> 0 \<le> t \<Longrightarrow> bucket_of q t = day q t mod cq_nbuckets q"
  by (simp add: bucket_of_def day_def cal_shape_def nat_mod_distrib)

lemma day_bounds:
  assumes "cal_shape q" "0 \<le> t"
  shows "real (day q t) * cq_width q \<le> t" "t < (real (day q t) + 1) * cq_width q"
proof -
  have w: "0 < cq_width q" using assms(1) by (simp add: cal_shape_def)
  then have "real (day q t) = of_int \<lfloor>t / cq_width q\<rfloor>" using assms(2) by (simp add: day_def)
  then have "real (day q t) \<le> t / cq_width q" "t / cq_width q < real (day q t) + 1" by linarith+
  then show "real (day q t) * cq_width q \<le> t" "t < (real (day q t) + 1) * cq_width q" using w by (simp_all add: field_simps)
qed

lemma day_mono: "cal_shape q \<Longrightarrow> s \<le> t \<Longrightarrow> day q s \<le> day q t"
  unfolding day_def cal_shape_def by (intro nat_mono floor_mono divide_right_mono) auto

text \<open>Within a year of the clock, the limits \<open>diff0_\<close>, \<open>diff1_\<close> and \<open>diff2_\<close> tell the events of this year from the later ones.\<close>

definition cal_diff :: "calendar \<Rightarrow> nat \<Rightarrow> real" where
  "cal_diff q k = (if k = 0 then cq_diff0 q else if k = 1 then cq_diff1 q else cq_diff2 q)"

lemma cal_diff_bounds:
  assumes "cal_shape q" "k + 2 \<le> cq_nbuckets q"
  shows "(real k + 1) * cq_width q \<le> cal_diff q k" "cal_diff q k \<le> (real k + real (cq_nbuckets q) - 1) * cq_width q"
proof -
  let ?n = "real (cq_nbuckets q)" and ?w = "cq_width q"
  have s: "4 \<le> ?n" "0 < ?w" "cq_diff0 q = ?w * ?n / 2" "cq_diff1 q = ?w * ?n / 2 + ?w" "cq_diff2 q = ?w * ?n" "real k + 2 \<le> ?n"
    using assms by (auto simp: cal_shape_def)
  define P where "P = ?w * ?n"
  have n: "?w * 4 \<le> P" "cq_diff0 q = P / 2" "cq_diff1 q = P / 2 + ?w" "cq_diff2 q = P" using s(1-5) by (simp_all add: P_def)
  have k: "(real k + 1) * ?w \<le> P" using s(2,6) by (simp add: P_def mult.commute)
  have k2: "(real k + ?n - 1) * ?w = real k * ?w + P - ?w" by (simp add: P_def algebra_simps)
  have k3: "2 * ?w \<le> real k * ?w" if "2 \<le> k" using s(2) that by simp
  consider "k = 0" | "k = 1" | "2 \<le> k" by linarith
  then show "(real k + 1) * ?w \<le> cal_diff q k" using n k s(2) by cases (simp_all add: cal_diff_def)
  consider "k = 0" | "k = 1" | "2 \<le> k" by linarith
  then show "cal_diff q k \<le> (real k + ?n - 1) * ?w" unfolding k2 using n s(2) k3 by cases (simp_all add: cal_diff_def)
qed

lemma due_test:
  assumes "cal_shape q" "cq_clock q \<le> t" "bucket_of q t = (cq_lastbucket q + k) mod cq_nbuckets q" "k + 2 \<le> cq_nbuckets q"
  shows "t - cq_clock q < cal_diff q k \<longleftrightarrow> day q t = day q (cq_clock q) + k"
proof -
  let ?n = "cq_nbuckets q" and ?w = "cq_width q" and ?a = "day q (cq_clock q)" and ?b = "day q t"
  have c: "0 \<le> cq_clock q" "0 \<le> t" "0 < ?w" using assms(1,2) by (auto simp: cal_shape_def)
  note a = day_bounds [OF assms(1) c(1)] and b = day_bounds [OF assms(1) c(2)] and d = cal_diff_bounds [OF assms(1,4)]
  have ab: "?a \<le> ?b" by (rule day_mono [OF assms(1,2)])
  have "cq_lastbucket q = ?a mod ?n" using assms(1) bucket_day [OF assms(1) c(1)] by (simp add: cal_shape_def)
  then have m: "?b mod ?n = (?a + k) mod ?n" using assms(3) bucket_day [OF assms(1) c(2)] by (simp add: mod_add_left_eq)
  have ge: "?a + k \<le> ?b"
  proof (rule ccontr)
    assume "\<not> ?a + k \<le> ?b"
    then have p: "?b \<le> ?a + k" "0 < ?a + k - ?b" by linarith+
    have "?n dvd ?a + k - ?b" by (rule mod_eq_dvd_iff_nat [OF p(1), THEN iffD1]) (rule m [symmetric])
    from dvd_imp_le [OF this p(2)] show False using ab assms(4) by linarith
  qed
  show ?thesis
  proof
    assume lt: "t - cq_clock q < cal_diff q k"
    show "?b = ?a + k"
    proof (rule ccontr)
      assume "?b \<noteq> ?a + k"
      then have p: "0 < ?b - (?a + k)" using ge by simp
      have "?n dvd ?b - (?a + k)" by (rule mod_eq_dvd_iff_nat [OF ge, THEN iffD1]) (rule m)
      from dvd_imp_le [OF this p] have "?a + k + ?n \<le> ?b" using ge by linarith
      then have "real ?a + real k + real ?n \<le> real ?b" by linarith
      then have "(real ?a + real k + real ?n) * ?w \<le> real ?b * ?w" using c(3) by (intro mult_right_mono) simp_all
      moreover have "(real ?a + real k + real ?n) * ?w = (real ?a + 1) * ?w + (real k + real ?n - 1) * ?w" by (simp add: algebra_simps)
      ultimately show False using lt a(2) b(1) d(2) by linarith
    qed
  next
    assume "?b = ?a + k"
    then have "(real ?b + 1) * ?w = real ?a * ?w + (real k + 1) * ?w" by (simp add: algebra_simps)
    then show "t - cq_clock q < cal_diff q k" using a(1) b(2) d(1) by linarith
  qed
qed

text \<open>The first events of the buckets.\<close>

lemma bucket_heads:
  assumes "cal_rep ev n q (x # xs)" "i < cq_nbuckets q"
  shows "cb_list (cq_buckets q ! i) \<noteq> [] \<Longrightarrow> bucket_of q (ev_time (ev (hd (cb_list (cq_buckets q ! i))))) = i \<and>
      cq_clock q \<le> ev_time (ev (hd (cb_list (cq_buckets q ! i)))) \<and> ev_time (ev x) \<le> ev_time (ev (hd (cb_list (cq_buckets q ! i))))"
    "i = bucket_of q (ev_time (ev x)) \<Longrightarrow> cb_list (cq_buckets q ! i) \<noteq> [] \<and> hd (cb_list (cq_buckets q ! i)) = x"
    "i \<noteq> bucket_of q (ev_time (ev x)) \<Longrightarrow> cb_list (cq_buckets q ! i) \<noteq> [] \<Longrightarrow> ev_time (ev x) < ev_time (ev (hd (cb_list (cq_buckets q ! i))))"
proof -
  let ?l = "cb_list (cq_buckets q ! i)"
  have r: "cal_holds ev q (x # xs)" "sorted_wrt (before ev) (x # xs)" "\<forall>y \<in> set (x # xs). cq_clock q \<le> ev_time (ev y)"
    using assms(1) by (auto simp: cal_rep_def agenda_def)
  note l = cal_bucketD(1) [OF r(1) assms(2)]
  have le: "ev_time (ev x) \<le> ev_time (ev y)" if "y \<in> set (x # xs)" for y using r(2) that by (auto simp: before_def)
  have "set ?l = {y \<in> set (x # xs). bucket_of q (ev_time (ev y)) = i}" unfolding l by (rule set_filter)
  then have h: "bucket_of q (ev_time (ev (hd ?l))) = i" "hd ?l \<in> set (x # xs)" if "?l \<noteq> []" using hd_in_set [OF that] by auto
  show 1: "bucket_of q (ev_time (ev (hd ?l))) = i \<and> cq_clock q \<le> ev_time (ev (hd ?l)) \<and> ev_time (ev x) \<le> ev_time (ev (hd ?l))" if "?l \<noteq> []"
    using h [OF that] le r(3) by blast
  show "?l \<noteq> [] \<and> hd ?l = x" if "i = bucket_of q (ev_time (ev x))" using that unfolding l by simp
  show "ev_time (ev x) < ev_time (ev (hd ?l))" if "i \<noteq> bucket_of q (ev_time (ev x))" "?l \<noteq> []"
    using 1 [OF that(2)] that(1) by (metis less_eq_real_def)
qed

text \<open>
  The search after \<open>k\<close> buckets: the next event is not due before day \<open>k\<close>, and if its bucket was passed, it is the one remembered.
\<close>

definition scan_inv :: "real events \<Rightarrow> calendar \<Rightarrow> event_ptr \<Rightarrow> nat \<Rightarrow> nat option \<Rightarrow> bool" where
  "scan_inv ev q x k m \<longleftrightarrow> day q (cq_clock q) + k \<le> day q (ev_time (ev x)) \<and>
     (case m of
        None \<Rightarrow> \<forall>j < k. (cq_lastbucket q + j) mod cq_nbuckets q \<noteq> bucket_of q (ev_time (ev x))
      | Some l \<Rightarrow> l < cq_nbuckets q \<and> cb_list (cq_buckets q ! l) \<noteq> [] \<and>
          ((\<exists>j < k. (cq_lastbucket q + j) mod cq_nbuckets q = bucket_of q (ev_time (ev x))) \<longrightarrow> l = bucket_of q (ev_time (ev x))))"

lemma scan_inv_passed:
  assumes "scan_inv ev q x k m" "(cq_lastbucket q + k) mod cq_nbuckets q \<noteq> bucket_of q (ev_time (ev x))" "day q (cq_clock q) + k \<noteq> day q (ev_time (ev x))"
  shows "scan_inv ev q x (Suc k) m"
  using assms by (auto simp: scan_inv_def less_Suc_eq split: option.splits)

lemma cal_next_index: "0 < n \<Longrightarrow> (if (a + k) mod n + 1 = n then 0 else (a + k) mod n + 1) = (a + Suc k) mod n"
  by (simp add: mod_Suc)

lemma scan_inv_kept:
  assumes "cal_rep ev n q (x # xs)" "scan_inv ev q x k m" "(cq_lastbucket q + k) mod cq_nbuckets q < cq_nbuckets q"
    and "cb_list (cq_buckets q ! ((cq_lastbucket q + k) mod cq_nbuckets q)) \<noteq> []" "day q (cq_clock q) + k \<noteq> day q (ev_time (ev x))"
  shows "scan_inv ev q x (Suc k) (case m of None \<Rightarrow> Some ((cq_lastbucket q + k) mod cq_nbuckets q)
    | Some l \<Rightarrow> if ev_time (ev (hd (cb_list (cq_buckets q ! l)))) > ev_time (ev (hd (cb_list (cq_buckets q ! ((cq_lastbucket q + k) mod cq_nbuckets q)))))
      then Some ((cq_lastbucket q + k) mod cq_nbuckets q) else Some l)"
proof -
  let ?i = "(cq_lastbucket q + k) mod cq_nbuckets q" and ?z = "bucket_of q (ev_time (ev x))"
  let ?h = "\<lambda>l. hd (cb_list (cq_buckets q ! l))"
  note h = bucket_heads [OF assms(1)]
  have d: "day q (cq_clock q) + Suc k \<le> day q (ev_time (ev x))" using assms(2,5) by (simp add: scan_inv_def)
  show ?thesis
  proof (cases m)
    case None
    then show ?thesis using assms(2-4) d by (auto simp: scan_inv_def less_Suc_eq)
  next
    case (Some l)
    have l: "l < cq_nbuckets q" "cb_list (cq_buckets q ! l) \<noteq> []"
      "\<And>j. j < k \<Longrightarrow> (cq_lastbucket q + j) mod cq_nbuckets q = ?z \<Longrightarrow> l = ?z" using assms(2) Some by (auto simp: scan_inv_def)
    have early: "?i = ?z" if "ev_time (ev (?h l)) > ev_time (ev (?h ?i))" "l = ?z"
      using that h(1) [OF assms(3,4)] h(2) [OF l(1) that(2)] by auto
    have late: "l = ?z" if "\<not> ev_time (ev (?h l)) > ev_time (ev (?h ?i))" "?i = ?z"
      using that h(2) [OF assms(3) that(2)] h(3) [OF l(1) _ l(2)] by metis
    show ?thesis
    proof (cases "ev_time (ev (?h l)) > ev_time (ev (?h ?i))")
      case True
      then show ?thesis using Some d assms(3,4) l(3) early by (auto simp: scan_inv_def less_Suc_eq)
    next
      case False
      then show ?thesis using Some d l late by (auto simp: scan_inv_def less_Suc_eq)
    qed
  qed
qed

lemma scan_step:
  assumes "cal_rep ev n q (x # xs)" "scan_inv ev q x k m" "k + 2 \<le> cq_nbuckets q"
  shows "CAL_DEQUEUE ev (cal_diff q k) q ((cq_lastbucket q + k) mod cq_nbuckets q) m = Some (Inl (bucket_of q (ev_time (ev x)))) \<or>
    (\<exists>m'. CAL_DEQUEUE ev (cal_diff q k) q ((cq_lastbucket q + k) mod cq_nbuckets q) m = Some (Inr ((cq_lastbucket q + Suc k) mod cq_nbuckets q, m')) \<and>
      scan_inv ev q x (Suc k) m')"
proof -
  let ?i = "(cq_lastbucket q + k) mod cq_nbuckets q" and ?z = "bucket_of q (ev_time (ev x))"
  let ?b = "cq_buckets q ! ?i" and ?d = "day q (cq_clock q)"
  have shape: "cal_shape q" and cx: "cq_clock q \<le> ev_time (ev x)" and c0: "0 \<le> cq_clock q" using assms(1) by (auto simp: cal_rep_def cal_shape_def)
  have i: "?i < cq_nbuckets q" using shape by (simp add: cal_shape_def)
  note g = get_bucket_ok [OF shape i] and hd = bucket_heads [OF assms(1) i] and hd0 = bucket_heads(2) [OF assms(1) bucket_less [OF shape] refl]
  have nx: "(if ?i + 1 = cq_nbuckets q then 0 else ?i + 1) = (cq_lastbucket q + Suc k) mod cq_nbuckets q"
    by (rule cal_next_index) (use i in auto)
  have "cq_lastbucket q = ?d mod cq_nbuckets q" using shape bucket_day [OF shape c0] by (simp add: cal_shape_def)
  then have at: "?d + k = day q (ev_time (ev x)) \<Longrightarrow> ?i = ?z" using bucket_day [OF shape] cx c0 by (simp add: mod_add_left_eq)
  show ?thesis
  proof (cases "cb_list ?b = []")
    case True
    then have "?i \<noteq> ?z" using hd(2) by blast
    then have "scan_inv ev q x (Suc k) m" using at by (intro scan_inv_passed [OF assms(2)]) auto
    then show ?thesis using True g nx by (simp add: CAL_DEQUEUE_def Let_def)
  next
    case ne: False
    let ?e = "hd (cb_list ?b)"
    note e = hd(1) [OF ne]
    have due: "ev_time (ev ?e) - cq_clock q < cal_diff q k \<longleftrightarrow> day q (ev_time (ev ?e)) = ?d + k"
      using e by (intro due_test [OF shape _ _ assms(3)]) auto
    show ?thesis
    proof (cases "ev_time (ev ?e) - cq_clock q < cal_diff q k")
      case True
      then have "?d + k = day q (ev_time (ev x))" using due day_mono [OF shape] e assms(2) by (simp add: scan_inv_def) (metis antisym)
      then show ?thesis using True g ne at by (simp add: CAL_DEQUEUE_def Let_def)
    next
      case False
      have "?d + k \<noteq> day q (ev_time (ev x))" using False due at hd(2) by metis
      from scan_inv_kept [OF assms(1,2) i ne this] show ?thesis using False g ne nx by (simp add: CAL_DEQUEUE_def Let_def)
    qed
  qed
qed

text \<open>The order in which the buckets are visited.\<close>

lemma visit_all:
  assumes "z < n" "a < n"
  shows "\<exists>j < n. (a + j) mod n = (z :: nat)"
proof (cases "a \<le> z")
  case True
  then show ?thesis using assms by (intro exI [of _ "z - a"]) auto
next
  case False
  then show ?thesis using assms by (intro exI [of _ "z + n - a"]) auto
qed

lemma visit_stop: "a < n \<Longrightarrow> (if a \<noteq> 0 then a - 1 else n - 1) = (a + (n - 1)) mod (n :: nat)"
  by (cases a) auto

lemma visit_once:
  assumes "k < n" "(a + k) mod n = (a + (n - 1)) mod (n :: nat)"
  shows "k = n - 1"
proof -
  have "a + k \<le> a + (n - 1)" using assms(1) by simp
  from mod_eq_dvd_iff_nat [OF this, THEN iffD1, OF assms(2) [symmetric]] have "n dvd n - 1 - k" by simp
  then show ?thesis using assms(1) nat_dvd_not_less [of "n - 1 - k" n] by linarith
qed

lemma scan_last:
  assumes "cal_rep ev n q (x # xs)" "scan_inv ev q x (cq_nbuckets q - 1) m"
  shows "cal_last ev q ((cq_lastbucket q + (cq_nbuckets q - 1)) mod cq_nbuckets q) m = Some (bucket_of q (ev_time (ev x)))"
proof -
  let ?i = "(cq_lastbucket q + (cq_nbuckets q - 1)) mod cq_nbuckets q" and ?z = "bucket_of q (ev_time (ev x))"
  have shape: "cal_shape q" using assms(1) by (simp add: cal_rep_def)
  have i: "?i < cq_nbuckets q" "cq_lastbucket q < cq_nbuckets q" using shape bucket_less [OF shape, of "cq_clock q"] by (auto simp: cal_shape_def)
  note h = bucket_heads [OF assms(1)] and g = get_bucket_ok [OF shape i(1)]
  obtain j where j: "j < cq_nbuckets q" "(cq_lastbucket q + j) mod cq_nbuckets q = ?z" using visit_all [OF bucket_less [OF shape] i(2)] by blast
  have zi: "?z = ?i" if "\<not> (\<exists>j < cq_nbuckets q - 1. (cq_lastbucket q + j) mod cq_nbuckets q = ?z)"
  proof -
    have "j = cq_nbuckets q - 1" using that j by (metis Suc_pred' i(2) less_SucE less_nat_zero_code not_gr_zero)
    then show ?thesis using j(2) by simp
  qed
  show ?thesis
  proof (cases m)
    case None
    then have "?z = ?i" using assms(2) by (intro zi) (auto simp: scan_inv_def)
    then show ?thesis using None g h(2) [OF i(1)] by (simp add: cal_last_def)
  next
    case (Some l)
    have l: "l < cq_nbuckets q" "cb_list (cq_buckets q ! l) \<noteq> []" "l \<noteq> ?z \<Longrightarrow> ?z = ?i"
      using assms(2) Some zi by (auto simp: scan_inv_def)
    show ?thesis
    proof (cases "l = ?z")
      case True
      then show ?thesis using Some g h(2) [OF l(1) True] h(3) [OF i(1)] by (auto simp: cal_last_def)
    next
      case False
      then show ?thesis using Some g l(3) h(2) [OF i(1)] h(3) [OF l(1) False l(2)] by (auto simp: cal_last_def)
    qed
  qed
qed

lemma cal_search_ok:
  assumes "cal_rep ev n q (x # xs)" "scan_inv ev q x k m" "2 \<le> k" "k < cq_nbuckets q"
  shows "\<exists>c'. cal_search ev q ((cq_lastbucket q + (cq_nbuckets q - 1)) mod cq_nbuckets q) ((cq_lastbucket q + k) mod cq_nbuckets q) m c =
    Some (bucket_of q (ev_time (ev x)), c')"
  using assms(2-4)
proof (induction "cq_nbuckets q - k" arbitrary: k m c rule: less_induct)
  case less
  let ?s = "(cq_lastbucket q + (cq_nbuckets q - 1)) mod cq_nbuckets q" and ?i = "(cq_lastbucket q + k) mod cq_nbuckets q"
  show ?case
  proof (cases "k = cq_nbuckets q - 1")
    case True
    then show ?thesis using scan_last [OF assms(1)] less.prems(1) by (simp add: cal_search.simps)
  next
    case False
    then have k: "k + 2 \<le> cq_nbuckets q" "?i \<noteq> ?s" using visit_once [OF less.prems(3)] less.prems(3) by auto
    have d: "cal_diff q k = cq_diff2 q" using less.prems(2) by (simp add: cal_diff_def)
    note eq = cal_search.simps [of ev q ?s ?i m c]
    from scan_step [OF assms(1) less.prems(1) k(1)] show ?thesis
    proof (elim disjE exE conjE)
      assume "CAL_DEQUEUE ev (cal_diff q k) q ?i m = Some (Inl (bucket_of q (ev_time (ev x))))"
      then show ?thesis using eq k(2) d by simp
    next
      fix m'
      assume s: "CAL_DEQUEUE ev (cal_diff q k) q ?i m = Some (Inr ((cq_lastbucket q + Suc k) mod cq_nbuckets q, m'))" "scan_inv ev q x (Suc k) m'"
      have "cal_search ev q ?s ?i m c = cal_search ev q ?s ((cq_lastbucket q + Suc k) mod cq_nbuckets q) m' (c + 1)"
        using eq k(2) d s(1) by simp
      then show ?thesis using less.hyps [OF _ s(2), of "c + 1"] k(1) less.prems(2) by simp
    qed
  qed
qed

lemma cal_find_ok:
  assumes "cal_rep ev n q (x # xs)"
  shows "\<exists>c. cal_find ev q = Some (bucket_of q (ev_time (ev x)), c)"
proof -
  let ?n = "cq_nbuckets q" and ?a = "cq_lastbucket q" and ?z = "bucket_of q (ev_time (ev x))"
  have shape: "cal_shape q" and cx: "cq_clock q \<le> ev_time (ev x)" using assms by (auto simp: cal_rep_def)
  have n: "4 \<le> ?n" "?a < ?n" using shape bucket_less [OF shape, of "cq_clock q"] by (auto simp: cal_shape_def)
  have s0: "scan_inv ev q x 0 None" using day_mono [OF shape cx] by (simp add: scan_inv_def)
  have a: "(?a + 0) mod ?n = ?a" using n(2) by simp
  note st = visit_stop [OF n(2)]
  have n2: "0 + 2 \<le> ?n" "Suc 0 + 2 \<le> ?n" using n(1) by simp_all
  from scan_step [OF assms s0 n2(1)] show ?thesis
  proof (elim disjE exE conjE)
    fix m assume s1: "CAL_DEQUEUE ev (cal_diff q 0) q ((?a + 0) mod ?n) None = Some (Inr ((?a + Suc 0) mod ?n, m))" "scan_inv ev q x (Suc 0) m"
    from scan_step [OF assms s1(2) n2(2)] show ?thesis
    proof (elim disjE exE conjE)
      fix m' assume s2: "CAL_DEQUEUE ev (cal_diff q (Suc 0)) q ((?a + Suc 0) mod ?n) m = Some (Inr ((?a + Suc (Suc 0)) mod ?n, m'))" "scan_inv ev q x (Suc (Suc 0)) m'"
      obtain c where c: "cal_search ev q ((?a + (?n - 1)) mod ?n) ((?a + Suc (Suc 0)) mod ?n) m' 2 = Some (?z, c)"
        using cal_search_ok [OF assms s2(2), of 2] n(1) by auto
      show ?thesis using s1(1) s2(1) c unfolding cal_find_def Let_def st a by (simp add: cal_diff_def)
    qed (use s1(1) in \<open>simp_all add: cal_find_def Let_def cal_diff_def n(2)\<close>)
  qed (use n in \<open>simp_all add: cal_find_def Let_def cal_diff_def\<close>)
qed

lemma cal_head_ok:
  assumes "cal_rep ev n q xs"
  shows "\<exists>q'. cal_head ev q = Some (agenda_head xs, q') \<and> cal_rep ev n q' xs \<and> (xs \<noteq> [] \<longrightarrow> cq_clock q' = ev_time (ev (hd xs)))"
proof (cases xs)
  case Nil
  then show ?thesis using assms by (simp add: cal_head_def cal_rep_def cal_holds_def)
next
  case (Cons x ys)
  let ?z = "bucket_of q (ev_time (ev x))"
  have r: "cal_rep ev n q (x # ys)" and shape: "cal_shape q" and cx: "cq_clock q \<le> ev_time (ev x)" and sz: "cq_qsize q \<noteq> 0"
    and sorted: "sorted_wrt (before ev) (x # ys)"
    using assms Cons by (auto simp: cal_rep_def cal_holds_def agenda_def)
  obtain c where c: "cal_find ev q = Some (?z, c)" using cal_find_ok [OF r] by blast
  let ?q = "q\<lparr>cq_head_search := cq_head_search q + c, cq_lastbucket := ?z, cq_clock := ev_time (ev x)\<rparr>"
  have h: "get_bucket q ?z = Some (cq_buckets q ! ?z)" "hd (cb_list (cq_buckets q ! ?z)) = x"
    using get_bucket_ok [OF shape] bucket_heads(2) [OF r _ refl] bucket_less [OF shape] by auto
  have "cal_shape ?q" using shape cx by (simp add: cal_shape_def)
  moreover have "\<forall>y \<in> set (x # ys). ev_time (ev x) \<le> ev_time (ev y)" using sorted by (auto simp: before_def)
  ultimately have "cal_rep ev n ?q xs" using r Cons by (simp add: cal_rep_def)
  moreover have "cal_head ev q = Some (x, ?q)" using sz c h by (simp add: cal_head_def Let_def)
  ultimately show ?thesis using Cons by auto
qed

section \<open>Removal\<close>

lemma cal_rep_upd [simp]:
  "cal_rep ev n (q\<lparr>cq_head_search := k\<rparr>) xs = cal_rep ev n q xs" "cal_rep ev n (q\<lparr>cq_insert_search := k\<rparr>) xs = cal_rep ev n q xs"
  "cal_rep ev n (q\<lparr>cq_round_num := a\<rparr>) xs = cal_rep ev n q xs" "cal_rep ev n (q\<lparr>cq_gap_num := a\<rparr>) xs = cal_rep ev n q xs"
  "cal_rep ev n (q\<lparr>cq_last_time := t\<rparr>) xs = cal_rep ev n q xs" "cal_rep ev n (q\<lparr>cq_avg_gap := t\<rparr>) xs = cal_rep ev n q xs"
  by (simp_all add: cal_rep_def)

lemma cal_adjust_ok:
  assumes "cal_rep ev n q xs"
  shows "\<exists>q'. cal_adjust ev e q = Some q' \<and> cal_rep ev n q' xs \<and> cq_clock q' = cq_clock q"
proof -
  let ?q = "q\<lparr>cq_gap_num := cq_gap_num q + 1\<rparr>"
  let ?p = "?q\<lparr>cq_avg_gap := (ev_time (ev e) - cq_last_time ?q) / of_int (cq_gap_num ?q), cq_gap_num := 0, cq_last_time := ev_time (ev e), cq_round_num := cq_round_num ?q + 1\<rparr>"
  have n: "cal_rep ev n ?p xs" "0 < cq_nbuckets ?p" using assms by (auto simp: cal_rep_def cal_shape_def)
  obtain q1 where q1: "cal_resize ev (cq_nbuckets ?p) (cq_clock ?p) ?p = Some q1" "cal_rep ev n q1 xs" "cq_clock q1 = cq_clock ?p"
    using cal_resize_ok [OF n] by blast
  show ?thesis using assms q1 unfolding cal_adjust_def Let_def by simp
qed

lemma card_cons_time:
  assumes "sorted (ev_times ev (x # ys))"
  shows "int (card ((\<lambda>y. ev_time (ev y)) ` set (x # ys))) + (if ys = [] \<or> ev_time (ev (hd ys)) \<noteq> ev_time (ev x) then - 1 else 0) =
    int (card ((\<lambda>y. ev_time (ev y)) ` set ys))"
proof -
  have "ev_time (ev x) \<in> (\<lambda>y. ev_time (ev y)) ` set ys \<longleftrightarrow> \<not> (ys = [] \<or> ev_time (ev (hd ys)) \<noteq> ev_time (ev x))"
    using assms by (cases ys) auto
  then show ?thesis using card_insert_time [of "\<lambda>y. ev_time (ev y)" x ys] by (auto split: if_splits)
qed

lemma cal_deque_ok:
  assumes "cal_rep ev n q xs"
  shows "\<exists>q'. cal_deque ev q = Some (agenda_head xs, q') \<and> cal_rep ev n q' (tl xs)"
proof (cases xs)
  case Nil
  then show ?thesis using cal_head_ok [OF assms] by (auto simp: cal_deque_def)
next
  case (Cons x ys)
  obtain q1 where q1: "cal_head ev q = Some (x, q1)" "cal_rep ev n q1 (x # ys)" "cq_clock q1 = ev_time (ev x)"
    using cal_head_ok [OF assms] Cons by auto
  obtain q2 where q2: "cal_adjust ev x q1 = Some q2" "cal_rep ev n q2 (x # ys)" "cq_clock q2 = ev_time (ev x)"
    using cal_adjust_ok [OF q1(2), of x] q1(3) by auto
  have r: "agenda ev n (x # ys)" "cal_shape q2" "cal_holds ev q2 (x # ys)" "sorted_wrt (before ev) (x # ys)" "\<forall>y \<in> set (x # ys). cq_clock q2 \<le> ev_time (ev y)"
    using q2(2) by (auto simp: cal_rep_def agenda_def)
  let ?l = "cq_lastbucket q2"
  let ?P = "\<lambda>y. bucket_of q2 (ev_time (ev y)) = ?l"
  let ?dc = "if filter ?P ys = [] \<or> ev_time (ev (hd (filter ?P ys))) \<noteq> ev_time (ev x) then - 1 else 0"
  let ?q = "(put_bucket ?l (filter ?P ys) ?dc q2)\<lparr>cq_qsize := cq_qsize q2 - 1\<rparr>"
  have l: "?l = bucket_of q2 (ev_time (ev x))" "?l < cq_nbuckets q2" using r(2) q2(3) bucket_less [OF r(2)] by (auto simp: cal_shape_def)
  note b = cal_bucketD [OF r(3) l(2)] and g = get_bucket_ok [OF r(2) l(2)]
  have f: "cb_list (cq_buckets q2 ! ?l) = x # filter ?P ys" using b(1) l(1) by simp
  have sz: "cq_qsize q2 - 1 = int (length ys)" using r(3) by (simp add: cal_holds_def)
  have "cal_holds ev ?q ys"
    unfolding sz
  proof (rule cal_holds_put [where xs = "x # ys"])
    have "sorted (ev_times ev (x # filter ?P ys))" using sorted_before_times [OF sorted_wrt_filter [OF r(4), of ?P]] l(1) by simp
    from card_cons_time [OF this] show "cb_count (cq_buckets q2 ! ?l) + ?dc = int (card ((\<lambda>y. ev_time (ev y)) ` set (filter ?P ys)))"
      unfolding b(2) f [symmetric] b(1) set_filter .
  qed (use r l in \<open>auto intro: sorted_wrt_filter\<close>)
  moreover have "\<forall>y \<in> set ys. cq_clock ?q \<le> ev_time (ev y)" using r(5) by simp
  ultimately have rep: "cal_rep ev n ?q ys" using agenda_tl [OF r(1)] r(2) by (simp add: cal_rep_def)
  have "0 < cq_nbuckets ?q div 2" using r(2) by (simp add: cal_shape_def)
  from cal_resize_ok [OF rep this] obtain q3 where q3: "cal_resize ev (cq_nbuckets ?q div 2) (cq_clock ?q) ?q = Some q3" "cal_rep ev n q3 ys" by blast
  have x: "x \<noteq> 0" using r(1) by (simp add: agenda_def)
  have "cal_deque ev q = do { q \<leftarrow> (if cq_stat_qsize ?q < cq_bot ?q then cal_resize ev (cq_nbuckets ?q div 2) (cq_clock ?q) ?q else Some ?q); Some (x, q) }"
    using q1(1) q2(1) g f x by (simp add: cal_deque_def Let_def)
  then show ?thesis using rep q3 Cons by (cases "cq_stat_qsize ?q < cq_bot ?q") auto
qed

text \<open>\<open>cancel\<close> looks at the two neighbours of the event in the circular list.\<close>

lemma circ_split:
  assumes "e \<notin> set as"
  shows "circ_next (as @ e # bs) e = hd (bs @ as @ [e])" "circ_prev (as @ e # bs) e = last (e # bs @ as)"
proof -
  have "takeWhile (\<lambda>x. x \<noteq> e) (as @ e # bs) = as" "dropWhile (\<lambda>x. x \<noteq> e) (as @ e # bs) = e # bs"
    using assms by (auto simp: takeWhile_append dropWhile_append)
  then show "circ_next (as @ e # bs) e = hd (bs @ as @ [e])" "circ_prev (as @ e # bs) e = last (e # bs @ as)"
    by (cases bs; cases as; simp add: circ_next_def circ_prev_def)+
qed

lemma cancel_single:
  assumes "sorted (ev_times ev xs)" "distinct xs" "e \<in> set xs"
  shows "(circ_next xs e = e \<or> ev_time (ev (circ_next xs e)) \<noteq> ev_time (ev e) \<and> ev_time (ev (circ_prev xs e)) \<noteq> ev_time (ev e)) \<longleftrightarrow>
    ev_time (ev e) \<notin> (\<lambda>x. ev_time (ev x)) ` set (remove1 e xs)"
proof -
  obtain as bs where xs: "xs = as @ e # bs" "e \<notin> set as" using assms(3) by (meson split_list_first)
  have s: "sorted (ev_times ev as)" "sorted (ev_times ev bs)" "\<forall>a \<in> set as. ev_time (ev a) \<le> ev_time (ev e)" "\<forall>b \<in> set bs. ev_time (ev e) \<le> ev_time (ev b)"
    "e \<notin> set bs" using assms(1,2) xs(1) by (auto simp: sorted_append)
  have r: "set (remove1 e xs) = set as \<union> set bs" using xs by (simp add: remove1_append)
  have A: "ev_time (ev e) \<in> (\<lambda>x. ev_time (ev x)) ` set as \<longleftrightarrow> as \<noteq> [] \<and> ev_time (ev (last as)) = ev_time (ev e)"
    using sorted_last_time [OF s(1)] s(3) by (metis (no_types, lifting) antisym image_iff last_in_set empty_iff empty_set)
  have B: "ev_time (ev e) \<in> (\<lambda>x. ev_time (ev x)) ` set bs \<longleftrightarrow> bs \<noteq> [] \<and> ev_time (ev (hd bs)) = ev_time (ev e)"
    using s(2,4) by (cases bs) auto
  have hA: "as \<noteq> [] \<Longrightarrow> ev_time (ev (hd as)) = ev_time (ev e) \<Longrightarrow> ev_time (ev (last as)) = ev_time (ev e)"
    using sorted_last_time [OF s(1), of "hd as"] s(3) by (metis antisym hd_in_set last_in_set)
  have lB: "bs \<noteq> [] \<Longrightarrow> ev_time (ev (last bs)) = ev_time (ev e) \<Longrightarrow> ev_time (ev (hd bs)) = ev_time (ev e)"
    using sorted_last_time [OF s(2), of "hd bs"] s(4) by (metis antisym hd_in_set last_in_set)
  show ?thesis
    unfolding r image_Un Un_iff A B unfolding xs(1) circ_split [OF xs(2)]
    using hA lB s(5) xs(2) by (cases "as = []"; cases "bs = []") (auto simp: hd_append)
qed

lemma cal_rep_frame:
  assumes "cal_rep ev n q xs" "\<And>x. x \<in> set xs \<Longrightarrow> ev' x = ev x" "n \<le> m"
  shows "cal_rep ev' m q xs"
proof -
  have "filter (\<lambda>x. bucket_of q (ev_time (ev' x)) = i) xs = filter (\<lambda>x. bucket_of q (ev_time (ev x)) = i) xs" for i
    using assms(2) by (intro filter_cong) auto
  moreover have "(\<lambda>x. ev_time (ev' x)) ` {x \<in> set xs. P x} = (\<lambda>x. ev_time (ev x)) ` {x \<in> set xs. P x}" for P
    using assms(2) by (intro image_cong) auto
  ultimately have "cal_holds ev' q xs" using assms(1) by (simp add: cal_rep_def cal_holds_def bucket_ok_def)
  then show ?thesis using assms agenda_frame [of ev n xs ev' m] by (simp add: cal_rep_def)
qed

lemma cal_holds_stat: "cal_shape q \<Longrightarrow> cal_holds ev q xs \<Longrightarrow> 0 \<le> cq_stat_qsize q"
  unfolding cal_holds_def bucket_ok_def cal_shape_def by (auto intro!: sum_list_nonneg simp: in_set_conv_nth)

lemma cal_cancel_ok:
  assumes "cal_rep ev n q xs" "e \<in> set xs"
  shows "\<exists>q'. cal_cancel e (ev, q) = Some (negate_uid e ev, q') \<and> cal_rep (negate_uid e ev) n q' (remove1 e xs)"
proof -
  have r: "agenda ev n xs" "cal_shape q" "cal_holds ev q xs" "sorted_wrt (before ev) xs" "\<forall>x \<in> set xs. cq_clock q \<le> ev_time (ev x)" "0 \<le> cq_clock q"
    using assms(1) by (auto simp: cal_rep_def agenda_def cal_shape_def)
  let ?t = "ev_time (ev e)"
  let ?i = "bucket_of q ?t"
  let ?ys = "cb_list (cq_buckets q ! ?i)"
  define single where "single = (circ_next ?ys e = e \<or> ev_time (ev (circ_next ?ys e)) \<noteq> ?t \<and> ev_time (ev (circ_prev ?ys e)) \<noteq> ?t)"
  let ?p = "put_bucket ?i (remove1 e ?ys) (if single then - 1 else 0) q"
  let ?q = "?p\<lparr>cq_qsize := cq_qsize q - 1\<rparr>"
  have t: "0 \<le> ?t" using r(5,6) assms(2) by force
  have i: "?i < cq_nbuckets q" "?i < length (cq_buckets q)" using bucket_less [OF r(2)] r(2) by (auto simp: cal_shape_def)
  note b = cal_bucketD [OF r(3) i(1)] and g = get_bucket_ok [OF r(2) i(1)] and d = sorted_before_distinct [OF r(4)]
  have ys: "sorted_wrt (before ev) ?ys" "distinct ?ys" "e \<in> set ?ys" "set ?ys = {x \<in> set xs. bucket_of q (ev_time (ev x)) = ?i}"
    unfolding b(1) using sorted_wrt_filter [OF r(4)] d assms(2) by auto
  have cs: "single \<longleftrightarrow> ?t \<notin> (\<lambda>x. ev_time (ev x)) ` set (remove1 e ?ys)"
    unfolding single_def by (rule cancel_single [OF sorted_before_times [OF ys(1)] ys(2,3)])
  have cnt: "cb_count (cq_buckets q ! ?i) + (if single then - 1 else 0) = int (card ((\<lambda>x. ev_time (ev x)) ` set (remove1 e ?ys)))"
    using card_remove_time [OF ys(3,2), of "\<lambda>x. ev_time (ev x)"] cs b(2) ys(4) by simp
  have sz: "cq_qsize q - 1 = int (length (remove1 e xs))" using r(3) assms(2) length_pos_if_in_set [OF assms(2)]
    by (simp add: cal_holds_def length_remove1 of_nat_diff Suc_leI)
  have holds: "cal_holds ev ?q (remove1 e xs)"
    unfolding sz
    by (rule cal_holds_put [where xs = xs]) (use r ys d i cnt sorted_wrt_remove1 in auto)
  have rep: "cal_rep ev n ?q (remove1 e xs)" using r(1,2,5) holds agenda_remove1 [OF r(1)] d by (simp add: cal_rep_def)
  have g2: "get_bucket ?p ?i = Some \<lparr>cb_list = remove1 e ?ys, cb_count = int (card ((\<lambda>x. ev_time (ev x)) ` set (remove1 e ?ys)))\<rparr>"
    using i(2) cnt by (simp add: get_bucket_def put_bucket_def)
  have "0 \<le> cq_stat_qsize ?p" using cal_holds_stat [OF _ holds] r(2) by simp
  then have "cal_cancel e (ev, q) = Some (negate_uid e ev, ?q)"
    using agenda_cancel(1) [OF r(1) assms(2)] hash_ok [OF t] g ys(3) g2
    by (auto simp: cal_cancel_def Let_def single_def [symmetric] simp del: put_bucket_fields(13))
  moreover have "cal_rep (negate_uid e ev) n ?q (remove1 e xs)"
    by (rule cal_rep_frame [OF rep]) (use d in \<open>auto simp: negate_uid_apply\<close>)
  ultimately show ?thesis by blast
qed

section \<open>The calendar implements the interface\<close>

lemma find_app: "List.find P (xs @ ys) = (case List.find P xs of None \<Rightarrow> List.find P ys | Some x \<Rightarrow> Some x)"
  by (induction xs) auto

lemma cal_lookup_concat: "cal_lookup_in ev u bs = agenda_find ev u (concat (map cb_list bs))"
  by (induction bs) (auto simp: agenda_find_def find_app split: option.splits)

lemma agenda_find_unique: "agenda ev n xs \<Longrightarrow> set ys = set xs \<Longrightarrow> agenda_find ev u ys = agenda_find ev u xs"
proof -
  assume a: "agenda ev n xs" "set ys = set xs"
  show ?thesis
  proof (cases "\<exists>x \<in> set xs. ev_uid (ev x) = u")
    case True
    then obtain x where x: "x \<in> set xs" "ev_uid (ev x) = u" by blast
    then obtain y where y: "List.find (\<lambda>x. ev_uid (ev x) = u) ys = Some y"
      using a(2) by (cases "List.find (\<lambda>x. ev_uid (ev x) = u) ys") (auto simp: find_None_iff)
    then have "y \<in> set ys" "ev_uid (ev y) = u" by (auto simp: find_Some_iff)
    then have "y = x" using a x by (auto simp: agenda_def inj_on_def)
    then show ?thesis using y agenda_find_some [OF a(1) x] by (simp add: agenda_find_def)
  qed (use a(2) agenda_find_none [of ys ev u] agenda_find_none [of xs ev u] in auto)
qed

lemma cal_lookup_ok:
  assumes "cal_rep ev n q xs"
  shows "cal_lookup ev u q = Some (agenda_find ev u xs, q)"
proof -
  have r: "agenda ev n xs" "cal_shape q" "cal_holds ev q xs" using assms by (auto simp: cal_rep_def)
  have "set (concat (map cb_list (cq_buckets q))) = set xs"
    unfolding cal_buckets [OF r(2,3)] using bucket_less [OF r(2)] by auto
  from agenda_find_unique [OF r(1) this] show ?thesis by (simp add: cal_lookup_def cal_lookup_concat)
qed

lemma cal_new_rep: "cal_rep ev 1 (cal_new adjust min_width) []"
  by (simp add: cal_rep_def cal_shape_def cal_holds_def bucket_ok_def cal_new_def bucket_of_def sum_list_replicate)

interpretation calendar_queue: event_queue calendar_scheduler "cal_new adjust min_width" "2 ^ 63" "\<lambda>t. 0 \<le> t" cal_rep for adjust min_width
proof (unfold_locales, goal_cases)
  case 1
  then show ?case by (rule cal_new_rep)
next
  case (2 t t')
  then show ?case by simp
next
  case 3
  then show ?case by (simp add: cal_rep_def)
next
  case 4
  then show ?case by (rule cal_rep_frame)
next
  case 5
  then show ?case by (simp add: calendar_scheduler_def cal_insert_ok)
next
  case 6
  then show ?case by (simp add: calendar_scheduler_def cal_cancel_ok)
next
  case 7
  then show ?case by (simp add: calendar_scheduler_def cal_cancel_def)
next
  case 8
  then show ?case by (simp add: calendar_scheduler_def cal_lookup_ok)
next
  case (9 ev n q xs)
  then show ?case using cal_head_ok [of ev n q xs] by (auto simp: calendar_scheduler_def)
next
  case 10
  then show ?case by (simp add: calendar_scheduler_def cal_deque_ok)
qed

end
