(* ===== verification/Scheduler_Run.thy ===== *)
theory Scheduler_Run
  imports List_Scheduler Heap_Scheduler Splay_Scheduler Calendar_Scheduler
begin

text \<open>
  The simulator with each of its event queues: the properties that all queues give to a simulation, and what the heap does
  once its counter has wrapped.
\<close>

section \<open>A network for the examples\<close>

text \<open>Handler 1 of event 1 schedules the next three events, two of them for the same time, and cancels one.\<close>

definition no_events :: "'t::zero events" where
  "no_events = (\<lambda>_. \<lparr>ev_time = 0, ev_uid = 0, ev_handler = 0\<rparr>)"

definition toy_handlers :: "('t::linordered_idom, (event_ptr \<times> 't) list) handlers" where
  "toy_handlers h p t w = (w @ [(p, t)], if p = 1 then [Schedule 1 2 5, Schedule 1 3 2, Schedule 1 4 5, Schedule 1 5 1, Cancel 5] else [])"

lemma toy_handlers_ok: "handlers_ok (+) (toy_handlers :: ('t::linordered_idom, (event_ptr \<times> 't) list) handlers)"
  by (simp add: handlers_ok_def calls_ok_def toy_handlers_def)

definition no_elem :: "'t \<Rightarrow> 't heap_elem" where
  "no_elem t = \<lparr>he_key = t, he_s_key = 0, he_elem = 0\<rparr>"

text \<open>A run of a few steps: two events are scheduled, then both are dispatched.\<close>

definition trace_step :: "('t::linorder, 'q) sched_ops \<Rightarrow> ('t \<times> int) list \<times> ('t, 'q) simulator \<Rightarrow> (('t \<times> int) list \<times> ('t, 'q) simulator) exec" where
  "trace_step ops = (\<lambda>(tr, s). do {
     (p, s) \<leftarrow> next_event ops s;
     if p = 0 then None
     else do { s' \<leftarrow> set_clock p (ev_time (s_events s p)) s; Some (due (s_events s) p # tr, s') }
   })"

definition toy_trace :: "('t::linordered_idom, 'q) sched_ops \<Rightarrow> 'q \<Rightarrow> (('t \<times> int) list \<times> ('t, 'q) simulator) exec" where
  "toy_trace ops q = do {
     s \<leftarrow> schedule ops (+) 1 1 9 (sim_new q 0 no_events);
     s \<leftarrow> schedule ops (+) 1 2 5 s;
     trs \<leftarrow> trace_step ops ([], s);
     trace_step ops trs
   }"

lemma trace_step_trace:
  assumes "trace_step ops (tr, s) = Some (tr', s')" "sim_trace ops dadd q t0 tr cs s"
  shows "sim_trace ops dadd q t0 tr' cs s'"
  using assms(1) trace_dispatch [OF assms(2)] by (auto simp: trace_step_def due_def split: Option.bind_splits if_splits)

lemma toy_trace_trace:
  assumes "toy_trace ops q = Some (tr, s)"
  shows "sim_trace ops (+) q 0 tr {} s"
proof -
  obtain s1 s2 tr3 s3 where s: "schedule ops (+) 1 1 9 (sim_new q 0 no_events) = Some s1" "schedule ops (+) 1 2 5 s1 = Some s2"
    "trace_step ops ([], s2) = Some (tr3, s3)" "trace_step ops (tr3, s3) = Some (tr, s)"
    using assms by (auto simp: toy_trace_def split: Option.bind_splits)
  have "sim_trace ops (+) q 0 [] {} (sim_new q 0 no_events)"
    by (rule trace_start) (simp_all add: sim_start_def no_events_def sim_new_def)
  then have "sim_trace ops (+) q 0 [] {} s1" by (rule trace_schedule [OF _ _ s(1)]) simp
  then have "sim_trace ops (+) q 0 [] {} s2" by (rule trace_schedule [OF _ _ s(2)]) simp
  then show ?thesis using trace_step_trace [OF s(3)] trace_step_trace [OF s(4)] by blast
qed

section \<open>The counter of the heap\<close>

text \<open>An event that is scheduled and dispatched alone advances the secondary key of the heap by one.\<close>

definition all_at :: "'t \<Rightarrow> 't events" where
  "all_at t = (\<lambda>_. \<lparr>ev_time = t, ev_uid = 1, ev_handler = 1\<rparr>)"

primrec heap_turns :: "nat \<Rightarrow> 't::linorder events \<Rightarrow> 't heap \<Rightarrow> 't heap exec" where
  "heap_turns 0 ev h = Some h"
| "heap_turns (Suc n) ev h = do { h \<leftarrow> heap_turns n ev h; h \<leftarrow> hs_insert ev 1 h; (_, h) \<leftarrow> hs_deque ev h; Some h }"

definition heap_idle :: "u32 \<Rightarrow> 't heap \<Rightarrow> bool" where
  "heap_idle k h \<longleftrightarrow> h_size h = 0 \<and> h_s_key h = k \<and> length (h_elems h) = 32 \<and> h_maxsize h = 32"

lemma heap_idle_insert:
  assumes "heap_idle k h"
  shows "hs_insert ev e h = Some (h\<lparr>h_elems := (h_elems h)[0 := \<lparr>he_key = ev_time (ev e), he_s_key = k, he_elem = e\<rparr>], h_size := 1, h_s_key := k + 1\<rparr>)"
  using assms by (simp add: hs_insert_def heap_insert_def heap_grow_def sift_up.simps heap_idle_def)

lemma heap_turns_key: "\<exists>h. heap_turns n ev (Heap 32 blank) = Some h \<and> heap_idle (of_nat n) h"
proof (induction n)
  case (Suc n)
  then obtain h where h: "heap_turns n ev (Heap 32 blank) = Some h" "heap_idle (of_nat n) h" by blast
  then show ?case
    by (simp add: heap_idle_insert [OF h(2)] hs_deque_def heap_extract_min_def sift_down.simps heap_idle_def)
qed (simp add: Heap_def heap_idle_def)

section \<open>The properties\<close>

text \<open>\<^bold>\<open>C12\<close> The choice of the event queue is not visible in a simulation: while fewer than \<open>2 ^ 32\<close> events are scheduled, a
  simulation with the list, with the heap or with the splay tree does, round by round and up to its end, what the
  simulation with a sorted agenda does. Clock, counter, events and network are the same; where one fails the others fail.\<close>

theorem schedulers_agree:
  fixes dadd :: "'t::linorder \<Rightarrow> 't \<Rightarrow> 't"
  assumes "handlers_ok dadd handle" "calls_ok dadd t0 cs" "\<And>e. ev_uid (ev e) \<le> 0" "bound \<le> 2 ^ 32"
  shows "Option.bind (simulate list_scheduler ls_new dadd handle t0 ev cs w) (visible bound) =
      Option.bind (simulate agenda_scheduler [] dadd handle t0 ev cs w) (visible bound) \<and>
    Option.bind (simulate heap_scheduler (Heap 32 blank) dadd handle t0 ev cs w) (visible bound) =
      Option.bind (simulate agenda_scheduler [] dadd handle t0 ev cs w) (visible bound) \<and>
    Option.bind (simulate splay_scheduler splay_new dadd handle t0 ev cs w) (visible bound) =
      Option.bind (simulate agenda_scheduler [] dadd handle t0 ev cs w) (visible bound) \<and>
    Option.bind (simulate_rounds n list_scheduler ls_new dadd handle t0 ev cs w) (visible_round bound) =
      Option.bind (simulate_rounds n agenda_scheduler [] dadd handle t0 ev cs w) (visible_round bound) \<and>
    Option.bind (simulate_rounds n heap_scheduler (Heap 32 blank) dadd handle t0 ev cs w) (visible_round bound) =
      Option.bind (simulate_rounds n agenda_scheduler [] dadd handle t0 ev cs w) (visible_round bound) \<and>
    Option.bind (simulate_rounds n splay_scheduler splay_new dadd handle t0 ev cs w) (visible_round bound) =
      Option.bind (simulate_rounds n agenda_scheduler [] dadd handle t0 ev cs w) (visible_round bound)"
  using assms
  by (simp add: list_queue.simulate_same heap_queue.simulate_same splay_queue.simulate_same
      list_queue.simulate_rounds_same heap_queue.simulate_rounds_same splay_queue.simulate_rounds_same)

theorem schedulers_agree_witness:
  "handlers_ok (+) (toy_handlers :: (int, (event_ptr \<times> int) list) handlers) \<and>
   map_option (\<lambda>(t, u, h, ev, w). (t, u, w)) (Option.bind (simulate agenda_scheduler [] (+) toy_handlers (0 :: int) no_events [Schedule 1 1 7] []) (visible 100)) =
     Some (12, 6, [(1, 7), (3, 9), (2, 12), (4, 12)]) \<and>
   map_option (\<lambda>(t, u, h, ev, w). (t, u, w)) (Option.bind (simulate heap_scheduler (Heap 32 (no_elem 0)) (+) toy_handlers (0 :: int) no_events [Schedule 1 1 7] []) (visible 100)) =
     Some (12, 6, [(1, 7), (3, 9), (2, 12), (4, 12)])"
proof -
  have c: "calls_ok (+) (0 :: int) [Schedule 1 1 7]" by (simp add: calls_ok_def)
  have u: "ev_uid ((no_events :: int events) e) \<le> 0" for e by (simp add: no_events_def)
  have "map_option (\<lambda>(t, u, h, ev, w). (t, u, w)) (Option.bind (simulate agenda_scheduler [] (+) toy_handlers (0 :: int) no_events [Schedule 1 1 7] []) (visible 100)) =
     Some (12, 6, [(1, 7), (3, 9), (2, 12), (4, 12)])" by code_simp
  then show ?thesis using toy_handlers_ok schedulers_agree [where bound = 100 and w = "[]" and blank = "no_elem 0" and n = 0, OF toy_handlers_ok c u] by simp
qed

text \<open>\<^bold>\<open>C2\<close> The calendar queue, the default scheduler, is not visible in a simulation either: with times in the real numbers it does, round
  by round and up to its end, what the sorted agenda does, for every setting of \<^verbatim>\<open>adjust_new_width_interval_\<close> and
  \<^verbatim>\<open>min_bin_width_\<close>, and whatever numbers and widths of buckets its resizing chooses.\<close>

theorem calendar_agrees:
  assumes "handlers_ok dadd handle" "calls_ok dadd t0 cs" "\<And>e. ev_uid (ev e) \<le> 0" "bound \<le> 2 ^ 63" "0 \<le> t0"
  shows "Option.bind (simulate calendar_scheduler (cal_new adjust min_width) dadd handle t0 ev cs w) (visible bound) =
      Option.bind (simulate agenda_scheduler [] dadd handle t0 ev cs w) (visible bound) \<and>
    Option.bind (simulate_rounds n calendar_scheduler (cal_new adjust min_width) dadd handle t0 ev cs w) (visible_round bound) =
      Option.bind (simulate_rounds n agenda_scheduler [] dadd handle t0 ev cs w) (visible_round bound)"
  using assms by (simp add: calendar_queue.simulate_same calendar_queue.simulate_rounds_same)

theorem calendar_agrees_witness:
  "handlers_ok (+) (toy_handlers :: (real, (event_ptr \<times> real) list) handlers) \<and>
   map_option (\<lambda>(t, u, h, ev, w). (t, u, w)) (Option.bind (simulate calendar_scheduler (cal_new 10 1) (+) toy_handlers 0 no_events [Schedule 1 1 7] []) (visible 100)) =
     Some (12, 6, [(1, 7), (3, 9), (2, 12), (4, 12)])"
proof -
  have c: "calls_ok (+) (0 :: real) [Schedule 1 1 7]" by (simp add: calls_ok_def)
  have u: "ev_uid ((no_events :: real events) e) \<le> 0" for e by (simp add: no_events_def)
  have "map_option (\<lambda>(t, u, h, ev, w). (t, u, w)) (Option.bind (simulate agenda_scheduler [] (+) toy_handlers (0 :: real) no_events [Schedule 1 1 7] []) (visible 100)) =
     Some (12, 6, [(1, 7), (3, 9), (2, 12), (4, 12)])" by code_simp
  then show ?thesis using toy_handlers_ok calendar_agrees [where bound = 100 and w = "[]" and adjust = 10 and min_width = 1 and n = 0, OF toy_handlers_ok c u] by simp
qed

text \<open>\<^bold>\<open>C3\<close> In every run of the simulator, with any of the four queues, the dispatched events are ordered by time and, for equal
  times, by the order of their scheduling. What the queue gives when \<open>deque\<close> is called until it returns the null pointer is, in this order,
  the events whose identifier is positive, none of them for a time in the past, and the first of them is dispatched next. No event
  is lost or duplicated: every identifier handed out belongs to exactly one event of these, one dispatch or one cancellation. (The runs
  schedule nothing into the past, times are real numbers, and the counter is at most 2 to the 63, for the heap 2 to the 32.)\<close>

theorem dispatch_orderly:
  fixes dadd :: "real \<Rightarrow> real \<Rightarrow> real"
  assumes "0 \<le> t0"
  shows "(sim_trace list_scheduler dadd ls_new t0 tr cs s1 \<and> in_range (2 ^ 63) s1 \<longrightarrow> orderly list_scheduler tr cs s1) \<and>
    (sim_trace heap_scheduler dadd (Heap 32 blank) t0 tr cs s2 \<and> in_range (2 ^ 32) s2 \<longrightarrow> orderly heap_scheduler tr cs s2) \<and>
    (sim_trace splay_scheduler dadd splay_new t0 tr cs s3 \<and> in_range (2 ^ 63) s3 \<longrightarrow> orderly splay_scheduler tr cs s3) \<and>
    (sim_trace calendar_scheduler dadd (cal_new adjust min_width) t0 tr cs s4 \<and> in_range (2 ^ 63) s4 \<longrightarrow> orderly calendar_scheduler tr cs s4)"
  using assms list_queue.trace_orderly [of dadd t0 tr cs s1] heap_queue.trace_orderly [of dadd blank t0 tr cs s2]
    splay_queue.trace_orderly [of dadd t0 tr cs s3] calendar_queue.trace_orderly [of dadd adjust min_width t0 tr cs s4] by simp

theorem dispatch_orderly_witness:
  "\<exists>s1 s2 s3 s4. sim_trace list_scheduler (+) ls_new 0 [(9, 1), (5, 2)] {} s1 \<and> orderly list_scheduler [(9 :: real, 1), (5, 2)] {} s1 \<and>
     sim_trace heap_scheduler (+) (Heap 32 (no_elem 0)) 0 [(9, 1), (5, 2)] {} s2 \<and> orderly heap_scheduler [(9 :: real, 1), (5, 2)] {} s2 \<and>
     sim_trace splay_scheduler (+) splay_new 0 [(9, 1), (5, 2)] {} s3 \<and> orderly splay_scheduler [(9 :: real, 1), (5, 2)] {} s3 \<and>
     sim_trace calendar_scheduler (+) (cal_new 10 1) 0 [(9, 1), (5, 2)] {} s4 \<and> orderly calendar_scheduler [(9, 1), (5, 2)] {} s4"
proof -
  have "map_option (\<lambda>(tr, s). (tr, s_uid s)) (toy_trace list_scheduler ls_new) = Some ([(9 :: real, 1), (5, 2)], 3)"
    "map_option (\<lambda>(tr, s). (tr, s_uid s)) (toy_trace heap_scheduler (Heap 32 (no_elem 0))) = Some ([(9 :: real, 1), (5, 2)], 3)"
    "map_option (\<lambda>(tr, s). (tr, s_uid s)) (toy_trace splay_scheduler splay_new) = Some ([(9 :: real, 1), (5, 2)], 3)"
    by code_simp+
  then obtain s1 s2 s3 where s: "toy_trace list_scheduler ls_new = Some ([(9 :: real, 1), (5, 2)], s1)"
    "toy_trace heap_scheduler (Heap 32 (no_elem 0)) = Some ([(9 :: real, 1), (5, 2)], s2)"
    "toy_trace splay_scheduler splay_new = Some ([(9 :: real, 1), (5, 2)], s3)" "s_uid s1 = 3" "s_uid s2 = 3" "s_uid s3 = 3" by auto
  have "map_option (\<lambda>(tr, s). (tr, s_uid s)) (toy_trace calendar_scheduler (cal_new 10 1)) = Some ([(9, 1), (5, 2)], 3)"
    by (simp add: toy_trace_def schedule_def calendar_scheduler_def cal_insert_def CALENDAR_HASH_def cal_new_def cal_place_def get_bucket_def put_bucket_def
        sim_new_def no_events_def trace_step_def next_event_def cal_deque_def cal_head_def cal_find_def CAL_DEQUEUE_def cal_search.simps cal_last_def
        cal_adjust_def set_clock_def negate_uid_def due_def numeral_nat Let_def)
  then obtain s4 where s4: "toy_trace calendar_scheduler (cal_new 10 1) = Some ([(9, 1), (5, 2)], s4)" "s_uid s4 = 3" by auto
  note t = toy_trace_trace [OF s(1)] toy_trace_trace [OF s(2)] toy_trace_trace [OF s(3)] toy_trace_trace [OF s4(1)]
  show ?thesis using t s(4-6) s4(2) dispatch_orderly [of 0 "(+)" "[(9, 1), (5, 2)]" "{}" s1 "no_elem 0" s2 s3 10 1 s4] by (auto simp: in_range_def)
qed

text \<open>\<^bold>\<open>C20\<close> The operations of the heap, with every access inside the array, implement those of the sorted agenda: insertion behind the
  events of the same time, removal of any pending event, lookup, and the removal of the first event; the heap is ordered and
  its cells hold exactly the pending events before and after.\<close>

theorem heap_refines:
  fixes ev :: "'t::linorder events"
  assumes "hp_rep ev n q xs"
  shows "(0 < n \<and> e \<noteq> 0 \<and> e \<notin> set xs \<and> n \<le> ev_uid (ev e) \<and> ev_uid (ev e) < 2 ^ 32 \<longrightarrow>
      (\<exists>q'. hs_insert ev e q = Some q' \<and> hp_rep ev (ev_uid (ev e) + 1) q' (agenda_insert ev e xs))) \<and>
    (e \<in> set xs \<longrightarrow> (\<exists>q'. hs_cancel e (ev, q) = Some (negate_uid e ev, q') \<and> hp_rep (negate_uid e ev) n q' (remove1 e xs))) \<and>
    (\<exists>q'. hs_lookup ev u q = Some (agenda_find ev u xs, q') \<and> hp_rep ev n q' xs) \<and>
    (\<exists>q'. hs_head ev q = Some (agenda_head xs, q') \<and> hp_rep ev n q' xs) \<and>
    (\<exists>q'. hs_deque ev q = Some (agenda_head xs, q') \<and> hp_rep ev n q' (tl xs))"
  using heap_queue.insert_law [OF assms, of e] heap_queue.cancel_law [OF assms, of e] heap_queue.lookup_law [OF assms, of u]
    heap_queue.head_law [OF assms] heap_queue.deque_law [OF assms] by (simp add: heap_scheduler_def)

theorem heap_refines_witness:
  "hp_rep (all_at (5 :: int)) 1 (Heap 32 (no_elem 0)) [] \<and> (\<exists>q'. hs_insert (all_at 5) 7 (Heap 32 (no_elem 0)) = Some q' \<and> hp_rep (all_at (5 :: int)) 2 q' [7])"
proof -
  have r: "hp_rep (all_at (5 :: int)) 1 (Heap 32 (no_elem 0)) []" by (rule heap_queue.rep_empty)
  have "ev_uid (all_at (5 :: int) 7) = 1" "ev_time (all_at (5 :: int) 7) = 5" "agenda_insert (all_at (5 :: int)) 7 [] = [7]"
    by (simp_all add: all_at_def agenda_insert_def)
  then show ?thesis using r heap_refines [OF r, of 7 1] by simp
qed

text \<open>\<^bold>\<open>C21\<close> The splay tree implements the sorted agenda: its rotations keep the order of the events, an insertion splits the tree
  behind the events of the same time, \<open>cancel\<close> finds every pending event by time and identifier, \<open>deque\<close> takes the leftmost event.\<close>

theorem splay_refines:
  fixes ev :: "'t::linorder events"
  assumes "splay_rep ev n q xs"
  shows "(0 < n \<and> e \<noteq> 0 \<and> e \<notin> set xs \<and> n \<le> ev_uid (ev e) \<and> ev_uid (ev e) < 2 ^ 63 \<longrightarrow>
      (\<exists>q'. splay_insert ev e q = Some q' \<and> splay_rep ev (ev_uid (ev e) + 1) q' (agenda_insert ev e xs))) \<and>
    (e \<in> set xs \<longrightarrow> (\<exists>q'. splay_cancel e (ev, q) = Some (negate_uid e ev, q') \<and> splay_rep (negate_uid e ev) n q' (remove1 e xs))) \<and>
    (\<exists>q'. splay_lookup ev u q = Some (agenda_find ev u xs, q') \<and> splay_rep ev n q' xs) \<and>
    (\<exists>q'. splay_head ev q = Some (agenda_head xs, q') \<and> splay_rep ev n q' xs) \<and>
    (\<exists>q'. splay_deque ev q = Some (agenda_head xs, q') \<and> splay_rep ev n q' (tl xs))"
  using splay_queue.insert_law [OF assms, of e] splay_queue.cancel_law [OF assms, of e] splay_queue.lookup_law [OF assms, of u]
    splay_queue.head_law [OF assms] splay_queue.deque_law [OF assms] by (simp add: splay_scheduler_def)

theorem splay_refines_witness:
  "splay_rep (all_at (5 :: int)) 1 splay_new [] \<and> (\<exists>q'. splay_insert (all_at (5 :: int)) 7 splay_new = Some q' \<and> splay_rep (all_at (5 :: int)) 2 q' [7])"
proof -
  have r: "splay_rep (all_at (5 :: int)) 1 splay_new []" by (rule splay_queue.rep_empty)
  have "ev_uid (all_at (5 :: int) 7) = 1" "ev_time (all_at (5 :: int) 7) = 5" "agenda_insert (all_at (5 :: int)) 7 [] = [7]"
    by (simp_all add: all_at_def agenda_insert_def)
  then show ?thesis using r splay_refines [OF r, of 7 1] by simp
qed

text \<open>\<^bold>\<open>C13\<close> The calendar queue implements the sorted agenda: the search of \<open>head\<close> through the buckets of the year, with its limits for the first,
  the second and the other buckets, ends and finds the earliest event; insertion, cancellation and removal keep the buckets sorted and
  the counts of different times right, through every resizing; no assertion of the code fails.\<close>

theorem calendar_refines:
  fixes ev :: "real events"
  assumes "cal_rep ev n q xs"
  shows "(0 < n \<and> e \<noteq> 0 \<and> e \<notin> set xs \<and> n \<le> ev_uid (ev e) \<and> ev_uid (ev e) < 2 ^ 63 \<and> 0 \<le> ev_time (ev e) \<longrightarrow>
      (\<exists>q'. cal_insert ev e q = Some q' \<and> cal_rep ev (ev_uid (ev e) + 1) q' (agenda_insert ev e xs))) \<and>
    (e \<in> set xs \<longrightarrow> (\<exists>q'. cal_cancel e (ev, q) = Some (negate_uid e ev, q') \<and> cal_rep (negate_uid e ev) n q' (remove1 e xs))) \<and>
    (\<exists>q'. cal_lookup ev u q = Some (agenda_find ev u xs, q') \<and> cal_rep ev n q' xs) \<and>
    (\<exists>q'. cal_head ev q = Some (agenda_head xs, q') \<and> cal_rep ev n q' xs) \<and>
    (\<exists>q'. cal_deque ev q = Some (agenda_head xs, q') \<and> cal_rep ev n q' (tl xs))"
  using calendar_queue.insert_law [OF assms, of e] calendar_queue.cancel_law [OF assms, of e] calendar_queue.lookup_law [OF assms, of u]
    calendar_queue.head_law [OF assms] calendar_queue.deque_law [OF assms] by (simp add: calendar_scheduler_def)

theorem calendar_refines_witness:
  "cal_rep (all_at (5 :: real)) 1 (cal_new 10 1) [] \<and> (\<exists>q'. cal_insert (all_at 5) 7 (cal_new 10 1) = Some q' \<and> cal_rep (all_at (5 :: real)) 2 q' [7])"
proof -
  have r: "cal_rep (all_at (5 :: real)) 1 (cal_new 10 1) []" by (rule calendar_queue.rep_empty)
  have "ev_uid (all_at (5 :: real) 7) = 1" "ev_time (all_at (5 :: real) 7) = 5" "agenda_insert (all_at (5 :: real)) 7 [] = [7]"
    by (simp_all add: all_at_def agenda_insert_def)
  then show ?thesis using r calendar_refines [OF r, of 7 1] by simp
qed

text \<open>\<^bold>\<open>C34\<close> The secondary key of the heap is an \<^verbatim>\<open>unsigned int\<close>: after \<open>2 ^ 32 - 1\<close> events were scheduled, two events for the same
  time leave the heap in the wrong order.\<close>

theorem heap_order_wraps:
  "\<exists>h h'. heap_turns (2 ^ 32 - 1) (all_at t) (Heap 32 blank) = Some h \<and>
     do { h \<leftarrow> hs_insert (all_at t) 1 h; h \<leftarrow> hs_insert (all_at t) 2 h; hs_deque (all_at t) h } = Some (2, h')"
proof -
  obtain h where h: "heap_turns (2 ^ 32 - 1) (all_at t) (Heap 32 blank) = Some h" "heap_idle (of_nat (2 ^ 32 - 1)) h"
    using heap_turns_key by blast
  have k: "heap_idle 4294967295 h" using h(2) by simp
  show ?thesis using h(1) k
    by (simp add: heap_idle_insert [OF k] hs_insert_def heap_insert_def heap_grow_def sift_up.simps hs_deque_def heap_extract_min_def sift_down.simps
        heap_child_def heap_idle_def parent_def KEY_LESS_THAN_def all_at_def left_def right_def)
qed

end
