(* ===== verification/Timer_Handler.thy ===== *)
theory Timer_Handler
  imports Scheduler_Run
begin

text \<open>
  \<^verbatim>\<open>TimerHandler\<close> of \<^verbatim>\<open>src/ns-2.34/common/timer-handler.{h,cc}\<close>: the timers of the agents, on top of the scheduler. A timer owns one event
  and is its handler; here the timer, the event and the handler have the same number. What a timer does when it expires is
  code of its owner: a function of the world that makes calls to timers.
\<close>

section \<open>Timers\<close>

datatype timer_status = TIMER_IDLE | TIMER_PENDING | TIMER_HANDLING

record ('t, 'q) timers =
  tm_status :: "nat \<Rightarrow> timer_status"
  tm_sim :: "('t, 'q) simulator"

definition set_status :: "nat \<Rightarrow> timer_status \<Rightarrow> ('t, 'q) timers \<Rightarrow> ('t, 'q) timers" where
  "set_status i v st = st\<lparr>tm_status := (tm_status st)(i := v)\<rparr>"

definition tm_sched :: "('t, 'q) sched_ops \<Rightarrow> ('t \<Rightarrow> 't \<Rightarrow> 't) \<Rightarrow> nat \<Rightarrow> 't \<Rightarrow> ('t, 'q) timers \<Rightarrow> ('t, 'q) timers exec" where
  "tm_sched ops dadd i delay st = do { s \<leftarrow> schedule ops dadd i i delay (tm_sim st); Some (st\<lparr>tm_sim := s\<rparr>) }"

definition tm_cancel :: "('t, 'q) sched_ops \<Rightarrow> nat \<Rightarrow> ('t, 'q) timers \<Rightarrow> ('t, 'q) timers exec" where
  "tm_cancel ops i st = do { s \<leftarrow> cancel ops i (tm_sim st); Some (st\<lparr>tm_sim := s\<rparr>) }"

definition timer_cancel :: "('t, 'q) sched_ops \<Rightarrow> nat \<Rightarrow> ('t, 'q) timers \<Rightarrow> ('t, 'q) timers exec" where
  "timer_cancel ops i st =
     (if tm_status st i \<noteq> TIMER_PENDING then None
      else do { st \<leftarrow> tm_cancel ops i st; Some (set_status i TIMER_IDLE st) })"

definition timer_sched :: "('t, 'q) sched_ops \<Rightarrow> ('t \<Rightarrow> 't \<Rightarrow> 't) \<Rightarrow> nat \<Rightarrow> 't \<Rightarrow> ('t, 'q) timers \<Rightarrow> ('t, 'q) timers exec" where
  "timer_sched ops dadd i delay st =
     (if tm_status st i \<noteq> TIMER_IDLE then None
      else do { st \<leftarrow> tm_sched ops dadd i delay st; Some (set_status i TIMER_PENDING st) })"

definition timer_resched :: "('t, 'q) sched_ops \<Rightarrow> ('t \<Rightarrow> 't \<Rightarrow> 't) \<Rightarrow> nat \<Rightarrow> 't \<Rightarrow> ('t, 'q) timers \<Rightarrow> ('t, 'q) timers exec" where
  "timer_resched ops dadd i delay st = do {
     st \<leftarrow> (if tm_status st i = TIMER_PENDING then tm_cancel ops i st else Some st);
     st \<leftarrow> tm_sched ops dadd i delay st;
     Some (set_status i TIMER_PENDING st)
   }"

definition timer_force_cancel :: "('t, 'q) sched_ops \<Rightarrow> nat \<Rightarrow> ('t, 'q) timers \<Rightarrow> ('t, 'q) timers exec" where
  "timer_force_cancel ops i st =
     (if tm_status st i = TIMER_PENDING then do { st \<leftarrow> tm_cancel ops i st; Some (set_status i TIMER_IDLE st) } else Some st)"

datatype 't timer_call = Timer_sched nat 't | Timer_resched nat 't | Timer_cancel nat | Timer_force_cancel nat

fun timer_op :: "('t, 'q) sched_ops \<Rightarrow> ('t \<Rightarrow> 't \<Rightarrow> 't) \<Rightarrow> 't timer_call \<Rightarrow> ('t, 'q) timers \<Rightarrow> ('t, 'q) timers exec" where
  "timer_op ops dadd (Timer_sched i delay) st = timer_sched ops dadd i delay st"
| "timer_op ops dadd (Timer_resched i delay) st = timer_resched ops dadd i delay st"
| "timer_op ops dadd (Timer_cancel i) st = timer_cancel ops i st"
| "timer_op ops dadd (Timer_force_cancel i) st = timer_force_cancel ops i st"

fun timer_ops :: "('t, 'q) sched_ops \<Rightarrow> ('t \<Rightarrow> 't \<Rightarrow> 't) \<Rightarrow> 't timer_call list \<Rightarrow> ('t, 'q) timers \<Rightarrow> ('t, 'q) timers exec" where
  "timer_ops ops dadd [] st = Some st"
| "timer_ops ops dadd (c # cs) st = do { st \<leftarrow> timer_op ops dadd c st; timer_ops ops dadd cs st }"

type_synonym ('t, 'w) expire = "nat \<Rightarrow> 't \<Rightarrow> 'w \<Rightarrow> 'w \<times> 't timer_call list"

definition timer_handle ::
  "('t, 'q) sched_ops \<Rightarrow> ('t \<Rightarrow> 't \<Rightarrow> 't) \<Rightarrow> ('t, 'w) expire \<Rightarrow> nat \<Rightarrow> ('t, 'q) timers \<times> 'w \<Rightarrow> (('t, 'q) timers \<times> 'w) exec" where
  "timer_handle ops dadd expire i = (\<lambda>(st, w).
     if tm_status st i \<noteq> TIMER_PENDING then None
     else do {
       let (w, cs) = expire i (s_clock (tm_sim st)) w;
       st \<leftarrow> timer_ops ops dadd cs (set_status i TIMER_HANDLING st);
       Some (if tm_status st i = TIMER_HANDLING then set_status i TIMER_IDLE st else st, w)
     })"

text \<open>A round of \<open>run\<close> that dispatches the event of a timer; there is none when the queue is empty.\<close>

definition timer_dispatch ::
  "('t::linorder, 'q) sched_ops \<Rightarrow> ('t \<Rightarrow> 't \<Rightarrow> 't) \<Rightarrow> ('t, 'w) expire \<Rightarrow> ('t, 'q) timers \<times> 'w \<Rightarrow> (('t, 'q) timers \<times> 'w) exec" where
  "timer_dispatch ops dadd expire = (\<lambda>(st, w). do {
     (p, s) \<leftarrow> next_event ops (tm_sim st);
     if p = 0 then None
     else do {
       s \<leftarrow> set_clock p (ev_time (s_events s p)) s;
       timer_handle ops dadd expire p (st\<lparr>tm_sim := s\<rparr>, w)
     }
   })"

text \<open>Timers are not set into the past.\<close>

definition timer_call_ok :: "('t::linorder \<Rightarrow> 't \<Rightarrow> 't) \<Rightarrow> 't \<Rightarrow> 't timer_call \<Rightarrow> bool" where
  "timer_call_ok dadd t c = (case c of Timer_sched i d \<Rightarrow> t \<le> dadd t d | Timer_resched i d \<Rightarrow> t \<le> dadd t d | _ \<Rightarrow> True)"

definition expire_ok :: "('t::linorder \<Rightarrow> 't \<Rightarrow> 't) \<Rightarrow> ('t, 'w) expire \<Rightarrow> bool" where
  "expire_ok dadd expire \<longleftrightarrow> (\<forall>i t w. \<forall>c \<in> set (snd (expire i t w)). timer_call_ok dadd t c)"

text \<open>The states of a simulation whose events are timers: calls of the agents, and dispatches.\<close>

inductive timer_run ::
  "('t::linorder, 'q) sched_ops \<Rightarrow> ('t \<Rightarrow> 't \<Rightarrow> 't) \<Rightarrow> ('t, 'w) expire \<Rightarrow> 'q \<Rightarrow> 't \<Rightarrow> ('t, 'q) timers \<Rightarrow> 'w \<Rightarrow> bool"
  for ops dadd expire q t0 where
  timer_start: "sim_start q (tm_sim st) \<Longrightarrow> s_clock (tm_sim st) = t0 \<Longrightarrow> (\<And>i. tm_status st i = TIMER_IDLE) \<Longrightarrow> timer_run ops dadd expire q t0 st w"
| timer_call: "timer_run ops dadd expire q t0 st w \<Longrightarrow> timer_call_ok dadd (s_clock (tm_sim st)) c \<Longrightarrow> timer_op ops dadd c st = Some st' \<Longrightarrow>
    timer_run ops dadd expire q t0 st' w"
| timer_expiry: "timer_run ops dadd expire q t0 st w \<Longrightarrow> timer_dispatch ops dadd expire (st, w) = Some (st', w') \<Longrightarrow> timer_run ops dadd expire q t0 st' w'"

section \<open>The status of a timer and its event\<close>

text \<open>A timer is pending exactly when its event is; only the timer \<open>h\<close> is being handled, none for \<open>h = 0\<close>.\<close>

definition timer_inv :: "nat \<Rightarrow> ('t, 'q) timers \<Rightarrow> bool" where
  "timer_inv h st \<longleftrightarrow> (\<forall>i. tm_status st i = TIMER_PENDING \<longleftrightarrow> 0 < ev_uid (s_events (tm_sim st) i)) \<and>
     (\<forall>i. tm_status st i = TIMER_HANDLING \<longrightarrow> i = h \<and> h \<noteq> 0)"

lemma timer_inv_done:
  assumes "timer_inv p st"
  shows "timer_inv 0 (if tm_status st p = TIMER_HANDLING then set_status p TIMER_IDLE st else st)"
proof (cases "tm_status st p = TIMER_HANDLING")
  case True
  have p: "\<forall>i. tm_status st i = TIMER_PENDING \<longleftrightarrow> 0 < ev_uid (s_events (tm_sim st) i)" using assms unfolding timer_inv_def by blast
  then have "\<not> 0 < ev_uid (s_events (tm_sim st) p)" using True by (metis timer_status.distinct(5))
  then have "((tm_status st)(p := TIMER_IDLE)) i = TIMER_PENDING \<longleftrightarrow> 0 < ev_uid (s_events (tm_sim st) i)" for i using p by (cases "i = p") simp_all
  moreover have "((tm_status st)(p := TIMER_IDLE)) i \<noteq> TIMER_HANDLING" for i using assms unfolding timer_inv_def by (cases "i = p") auto
  ultimately show ?thesis using True unfolding timer_inv_def set_status_def by simp
next
  case False
  then have "tm_status st i \<noteq> TIMER_HANDLING" for i using assms unfolding timer_inv_def by metis
  then show ?thesis using False assms unfolding timer_inv_def by simp
qed

abbreviation (input) clock_kept :: "('t, 'q) simulator \<Rightarrow> ('t, 'q) simulator \<Rightarrow> bool" where
  "clock_kept s s' \<equiv> uid_le s s' \<and> s_clock s' = s_clock s"

lemma tm_cancel_kept:
  assumes "tm_cancel ops i st = Some st'"
  shows "clock_kept (tm_sim st) (tm_sim st')"
proof -
  obtain s where s: "cancel ops i (tm_sim st) = Some s" "tm_sim st' = s" using assms by (auto simp: tm_cancel_def bind_eq_Some_conv)
  then show ?thesis using cancel_uid_le [OF s(1)] do_call_clock [of ops undefined "Cancel i" "tm_sim st" s] by simp
qed

lemma tm_sched_kept:
  assumes "tm_sched ops dadd i d st = Some st'"
  shows "clock_kept (tm_sim st) (tm_sim st')"
proof -
  obtain s where s: "schedule ops dadd i i d (tm_sim st) = Some s" "tm_sim st' = s" using assms by (auto simp: tm_sched_def bind_eq_Some_conv)
  then show ?thesis using schedule_uid_le [OF s(1)] do_call_clock [of ops dadd "Schedule i i d" "tm_sim st" s] by simp
qed

lemma set_status_simps [simp]: "tm_sim (set_status i v st) = tm_sim st" "tm_status (set_status i v st) = (tm_status st)(i := v)"
  by (simp_all add: set_status_def)

lemma timer_resched_Some:
  assumes "timer_resched ops dadd i d st = Some st'"
  obtains st1 st2 where "(if tm_status st i = TIMER_PENDING then tm_cancel ops i st else Some st) = Some st1" "tm_sched ops dadd i d st1 = Some st2"
    "st' = set_status i TIMER_PENDING st2"
  using assms unfolding timer_resched_def bind_eq_Some_conv option.inject by metis

lemma timer_op_uid_le: "timer_op ops dadd c st = Some st' \<Longrightarrow> clock_kept (tm_sim st) (tm_sim st')"
proof (induction c)
  case (Timer_resched i d)
  then obtain st1 st2 where s: "(if tm_status st i = TIMER_PENDING then tm_cancel ops i st else Some st) = Some st1" "tm_sched ops dadd i d st1 = Some st2"
    "st' = set_status i TIMER_PENDING st2" by (auto elim: timer_resched_Some)
  have "clock_kept (tm_sim st) (tm_sim st1)" using s(1) tm_cancel_kept [of ops i st st1] by (cases "tm_status st i = TIMER_PENDING") simp_all
  then show ?case using tm_sched_kept [OF s(2)] s(3) uid_le_trans by auto
qed (auto simp: timer_sched_def timer_cancel_def timer_force_cancel_def bind_eq_Some_conv dest: tm_sched_kept tm_cancel_kept split: if_splits)

lemma timer_ops_uid_le: "timer_ops ops dadd cs st = Some st' \<Longrightarrow> uid_le (tm_sim st) (tm_sim st')"
proof (induction cs arbitrary: st)
  case (Cons c cs)
  then obtain st1 where "timer_op ops dadd c st = Some st1" "timer_ops ops dadd cs st1 = Some st'" by (auto split: Option.bind_splits)
  then show ?case using timer_op_uid_le Cons.IH uid_le_trans by blast
qed simp

lemma timer_dispatch_Some:
  assumes "timer_dispatch ops dadd expire (st, w) = Some (st', w')"
  obtains p s1 s2 v calls st2 where "next_event ops (tm_sim st) = Some (p, s1)" "p \<noteq> 0" "set_clock p (ev_time (s_events s1 p)) s1 = Some s2"
    "expire p (s_clock s2) w = (v, calls)" "timer_ops ops dadd calls (set_status p TIMER_HANDLING (st\<lparr>tm_sim := s2\<rparr>)) = Some st2"
    "st' = (if tm_status st2 p = TIMER_HANDLING then set_status p TIMER_IDLE st2 else st2)"
proof -
  obtain p s1 where n: "next_event ops (tm_sim st) = Some (p, s1)" "p \<noteq> 0"
    using assms by (cases "next_event ops (tm_sim st)") (auto simp: timer_dispatch_def split: if_splits)
  then obtain s2 where c: "set_clock p (ev_time (s_events s1 p)) s1 = Some s2"
    using assms by (cases "set_clock p (ev_time (s_events s1 p)) s1") (auto simp: timer_dispatch_def)
  obtain v calls where e: "expire p (s_clock s2) w = (v, calls)" by fastforce
  let ?st = "set_status p TIMER_HANDLING (st\<lparr>tm_sim := s2\<rparr>)"
  have h: "timer_handle ops dadd expire p (st\<lparr>tm_sim := s2\<rparr>, w) = Some (st', w')" using assms n c by (simp add: timer_dispatch_def)
  then obtain st2 where "timer_ops ops dadd calls ?st = Some st2" using e by (cases "timer_ops ops dadd calls ?st") (auto simp: timer_handle_def split: if_splits)
  moreover have "st' = (if tm_status st2 p = TIMER_HANDLING then set_status p TIMER_IDLE st2 else st2)"
    using h e calculation by (cases "tm_status st p = TIMER_PENDING") (simp_all add: timer_handle_def)
  ultimately show ?thesis using that n c e by blast
qed

context event_queue
begin

lemma trace_sched:
  assumes "sim_trace ops dadd q_empty t0 tr cs s" "t_ok t0" "in_range lim s" "schedule ops dadd i i d s = Some s'" "s_clock s \<le> dadd (s_clock s) d"
  shows "sim_trace ops dadd q_empty t0 tr cs s'" "\<forall>j. 0 < ev_uid (s_events s' j) \<longleftrightarrow> j = i \<or> 0 < ev_uid (s_events s j)"
    "ev_time (s_events s' i) = dadd (s_clock s) d" "\<forall>j. j \<noteq> i \<longrightarrow> s_events s' j = s_events s j" "lim \<le> 2 ^ 63 \<Longrightarrow> in_range (lim - 2) s \<Longrightarrow> in_range lim s'"
proof -
  show "sim_trace ops dadd q_empty t0 tr cs s'" by (rule trace_schedule [OF assms(1,5,4)])
  obtain xs where "trace_inv t_ok rep tr cs s xs" using trace_invariant [OF assms(1,2,3)] by blast
  then have u: "0 < s_uid s" "s_uid s < 2 ^ 63" by (simp_all add: trace_inv_def)
  then show "\<forall>j. 0 < ev_uid (s_events s' j) \<longleftrightarrow> j = i \<or> 0 < ev_uid (s_events s j)" "ev_time (s_events s' i) = dadd (s_clock s) d"
    "\<forall>j. j \<noteq> i \<longrightarrow> s_events s' j = s_events s j"
    using assms(4) by (auto simp: schedule_def Let_def split: if_splits Option.bind_splits)
  have "s_uid s' = signed_take_bit 63 (s_uid s + 1)"
    using assms(4) by (auto simp: schedule_def Let_def split: if_splits Option.bind_splits)
  then show "in_range lim s'" if "lim \<le> 2 ^ 63" "in_range (lim - 2) s"
    using that u next_uid [of "s_uid s"] by (auto simp: in_range_def split: if_splits)
qed

lemma trace_cancelled:
  assumes "sim_trace ops dadd q_empty t0 tr cs s" "t_ok t0" "in_range lim s"
  shows "\<exists>s' tr' cs'. cancel ops i s = Some s' \<and> sim_trace ops dadd q_empty t0 tr' cs' s' \<and> s_uid s' = s_uid s \<and> s_clock s' = s_clock s \<and>
    (\<forall>j. 0 < ev_uid (s_events s' j) \<longleftrightarrow> j \<noteq> i \<and> 0 < ev_uid (s_events s j)) \<and> (\<forall>j. j \<noteq> i \<longrightarrow> s_events s' j = s_events s j)"
proof -
  obtain xs where inv: "trace_inv t_ok rep tr cs s xs" using trace_invariant [OF assms] by blast
  have r: "rep (s_events s) (s_uid s) (s_queue s) xs" "pending (s_events s) xs" using inv by (auto simp: trace_inv_def)
  obtain q' where c: "cancel ops i s = Some (if 0 < ev_uid (s_events s i) then s\<lparr>s_events := negate_uid i (s_events s), s_queue := q'\<rparr> else s)"
  proof (cases "0 < ev_uid (s_events s i)")
    case True
    then obtain q' where "sq_cancel ops i (s_events s, s_queue s) = Some (negate_uid i (s_events s), q')"
      using cancel_law [OF r(1), of i] r(2) by (auto simp: pending_def)
    then show ?thesis using True that [of q'] by (simp add: cancel_def)
  next
    case False
    then show ?thesis using cancel_idle [of "s_events s" i "s_queue s"] that by (simp add: cancel_def not_less)
  qed
  note t = trace_cancel [OF assms(1) c]
  show ?thesis
    by (rule exI [of _ "if 0 < ev_uid (s_events s i) then s\<lparr>s_events := negate_uid i (s_events s), s_queue := q'\<rparr> else s"], rule exI [of _ tr],
        rule exI [of _ "cs \<union> {u. u = ev_uid (s_events s i) \<and> 0 < u}"]) (use c t in \<open>auto simp: negate_uid_apply\<close>)
qed

lemma trace_can_schedule:
  assumes "sim_trace ops dadd q_empty t0 tr cs s" "t_ok t0" "in_range (lim - 1) s" "i \<noteq> 0" "ev_uid (s_events s i) \<le> 0" "s_clock s \<le> dadd (s_clock s) d"
  shows "\<exists>s'. schedule ops dadd i i d s = Some s'"
proof -
  have range: "in_range lim s" using assms(3) by (simp add: in_range_def)
  obtain xs where inv: "trace_inv t_ok rep tr cs s xs" using trace_invariant [OF assms(1,2) range] by blast
  let ?ev = "(s_events s)(i := \<lparr>ev_time = dadd (s_clock s) d, ev_uid = s_uid s, ev_handler = i\<rparr>)"
  have r: "rep (s_events s) (s_uid s) (s_queue s) xs" "pending (s_events s) xs" "0 < s_uid s" "t_ok (s_clock s)" using inv by (auto simp: trace_inv_def)
  have fresh: "i \<notin> set xs" using r(2) assms(5) by (force simp: pending_def)
  have "rep ?ev (s_uid s) (s_queue s) xs" by (rule rep_frame [OF r(1)]) (use fresh in auto)
  from insert_law [OF this r(3) assms(4) fresh] t_ok_mono [OF r(4) assms(6)] assms(3) obtain q' where "sq_insert ops ?ev i (s_queue s) = Some q'"
    by (auto simp: in_range_def)
  then show ?thesis using assms(4,5) r(3) by (simp add: schedule_def Let_def)
qed

lemma tm_sched_inv:
  assumes "sim_trace ops dadd q_empty t0 tr cs (tm_sim st)" "t_ok t0" "in_range lim (tm_sim st)" "tm_sched ops dadd i d st = Some st'"
    and "s_clock (tm_sim st) \<le> dadd (s_clock (tm_sim st)) d"
  shows "sim_trace ops dadd q_empty t0 tr cs (tm_sim st') \<and> tm_status st' = tm_status st \<and> ev_time (s_events (tm_sim st') i) = dadd (s_clock (tm_sim st)) d \<and>
    (\<forall>j. 0 < ev_uid (s_events (tm_sim st') j) \<longleftrightarrow> j = i \<or> 0 < ev_uid (s_events (tm_sim st) j)) \<and>
    (\<forall>j. j \<noteq> i \<longrightarrow> s_events (tm_sim st') j = s_events (tm_sim st) j) \<and>
    (lim \<le> 2 ^ 63 \<longrightarrow> in_range (lim - 2) (tm_sim st) \<longrightarrow> in_range lim (tm_sim st'))"
proof -
  obtain s where s: "schedule ops dadd i i d (tm_sim st) = Some s" "st' = st\<lparr>tm_sim := s\<rparr>" using assms(4) by (auto simp: tm_sched_def bind_eq_Some_conv)
  then show ?thesis using trace_sched [OF assms(1-3) s(1) assms(5)] by simp
qed

lemma tm_cancel_inv:
  assumes "sim_trace ops dadd q_empty t0 tr cs (tm_sim st)" "t_ok t0" "in_range lim (tm_sim st)"
  shows "\<exists>st' tr' cs'. tm_cancel ops i st = Some st' \<and> sim_trace ops dadd q_empty t0 tr' cs' (tm_sim st') \<and> tm_status st' = tm_status st \<and>
    s_uid (tm_sim st') = s_uid (tm_sim st) \<and> s_clock (tm_sim st') = s_clock (tm_sim st) \<and>
    (\<forall>j. 0 < ev_uid (s_events (tm_sim st') j) \<longleftrightarrow> j \<noteq> i \<and> 0 < ev_uid (s_events (tm_sim st) j)) \<and>
    (\<forall>j. j \<noteq> i \<longrightarrow> s_events (tm_sim st') j = s_events (tm_sim st) j)"
proof -
  from trace_cancelled [OF assms, of i] obtain s' tr' cs' where
    s: "cancel ops i (tm_sim st) = Some s'" "sim_trace ops dadd q_empty t0 tr' cs' s'" "s_uid s' = s_uid (tm_sim st)" "s_clock s' = s_clock (tm_sim st)"
      "\<forall>j. 0 < ev_uid (s_events s' j) \<longleftrightarrow> j \<noteq> i \<and> 0 < ev_uid (s_events (tm_sim st) j)"
      "\<forall>j. j \<noteq> i \<longrightarrow> s_events s' j = s_events (tm_sim st) j" by blast
  show ?thesis by (rule exI [of _ "st\<lparr>tm_sim := s'\<rparr>"], rule exI [of _ tr'], rule exI [of _ cs']) (use s in \<open>simp add: tm_cancel_def\<close>)
qed

text \<open>\<open>resched\<close> and \<open>force_cancel\<close> succeed in every state, also while the timer is being handled.\<close>

lemma timer_resched_works:
  assumes "sim_trace ops dadd q_empty t0 tr cs (tm_sim st)" "t_ok t0" "in_range (lim - 1) (tm_sim st)" "timer_inv h st" "i \<noteq> 0"
    and "s_clock (tm_sim st) \<le> dadd (s_clock (tm_sim st)) d"
  shows "\<exists>st'. timer_resched ops dadd i d st = Some st'"
proof -
  have range: "in_range lim (tm_sim st)" using assms(3) by (simp add: in_range_def)
  let ?p = "tm_status st i = TIMER_PENDING"
  obtain st1 tr1 cs1 where s: "(if ?p then tm_cancel ops i st else Some st) = Some st1" "sim_trace ops dadd q_empty t0 tr1 cs1 (tm_sim st1)"
    "s_uid (tm_sim st1) = s_uid (tm_sim st)" "s_clock (tm_sim st1) = s_clock (tm_sim st)" "ev_uid (s_events (tm_sim st1) i) \<le> 0"
  proof (cases ?p)
    case True
    then show ?thesis using that tm_cancel_inv [OF assms(1,2) range, of i] by (metis not_less)
  next
    case False
    then have "ev_uid (s_events (tm_sim st) i) \<le> 0" using assms(4) by (simp add: timer_inv_def not_less)
    then show ?thesis using that False assms(1) by simp
  qed
  have "in_range (lim - 1) (tm_sim st1)" "s_clock (tm_sim st1) \<le> dadd (s_clock (tm_sim st1)) d" using s(3,4) assms(3,6) by (simp_all add: in_range_def)
  from trace_can_schedule [OF s(2) assms(2) this(1) assms(5) s(5) this(2)] obtain s' where "schedule ops dadd i i d (tm_sim st1) = Some s'" by blast
  then show ?thesis using s(1) by (simp add: timer_resched_def tm_sched_def)
qed

lemma timer_op_inv:
  assumes "sim_trace ops dadd q_empty t0 tr cs (tm_sim st)" "t_ok t0" "in_range lim (tm_sim st)" "timer_inv h st"
    and "timer_call_ok dadd (s_clock (tm_sim st)) c" "timer_op ops dadd c st = Some st'"
  shows "\<exists>tr' cs'. sim_trace ops dadd q_empty t0 tr' cs' (tm_sim st') \<and> timer_inv h st'"
proof -
  obtain i where i: "c = Timer_cancel i \<or> c = Timer_force_cancel i \<or> (\<exists>d. c = Timer_sched i d \<or> c = Timer_resched i d)" by (cases c) auto
  obtain st1 tr1 cs1 where c: "tm_cancel ops i st = Some st1" "sim_trace ops dadd q_empty t0 tr1 cs1 (tm_sim st1)" "tm_status st1 = tm_status st"
    "s_uid (tm_sim st1) = s_uid (tm_sim st)" "s_clock (tm_sim st1) = s_clock (tm_sim st)"
    "\<forall>j. 0 < ev_uid (s_events (tm_sim st1) j) \<longleftrightarrow> j \<noteq> i \<and> 0 < ev_uid (s_events (tm_sim st) j)"
    using tm_cancel_inv [OF assms(1-3), of i] by blast
  have cancelled: "timer_inv h (set_status i TIMER_IDLE st1)" using assms(4) c(3,6) by (auto simp: timer_inv_def)
  have set: "\<exists>tr' cs'. sim_trace ops dadd q_empty t0 tr' cs' (tm_sim (set_status i TIMER_PENDING st2)) \<and> timer_inv h (set_status i TIMER_PENDING st2)"
    if "sim_trace ops dadd q_empty t0 tr0 cs0 (tm_sim st0)" "s_uid (tm_sim st0) = s_uid (tm_sim st)" "s_clock (tm_sim st0) = s_clock (tm_sim st)"
      "tm_status st0 = tm_status st" "\<forall>j. j \<noteq> i \<longrightarrow> (0 < ev_uid (s_events (tm_sim st0) j) \<longleftrightarrow> 0 < ev_uid (s_events (tm_sim st) j))"
      "tm_sched ops dadd i d st0 = Some st2" "s_clock (tm_sim st) \<le> dadd (s_clock (tm_sim st)) d" for tr0 cs0 st0 st2 d
  proof -
    have "in_range lim (tm_sim st0)" "s_clock (tm_sim st0) \<le> dadd (s_clock (tm_sim st0)) d" using that(2,3,7) assms(3) by (simp_all add: in_range_def)
    from tm_sched_inv [OF that(1) assms(2) this(1) that(6) this(2)] show ?thesis using assms(4) that(4,5) by (auto simp: timer_inv_def)
  qed
  consider "st' = set_status i TIMER_IDLE st1" | "st' = st"
    | d st2 where "c = Timer_sched i d" "tm_sched ops dadd i d st = Some st2" "st' = set_status i TIMER_PENDING st2"
    | d st0 st2 where "c = Timer_resched i d" "(if tm_status st i = TIMER_PENDING then tm_cancel ops i st else Some st) = Some st0"
        "tm_sched ops dadd i d st0 = Some st2" "st' = set_status i TIMER_PENDING st2"
    using i assms(6) c(1) by (fastforce simp: timer_cancel_def timer_force_cancel_def timer_sched_def bind_eq_Some_conv elim: timer_resched_Some split: if_splits)
  then show ?thesis
  proof cases
    case 1
    then show ?thesis using cancelled c(2) by auto
  next
    case 2
    then show ?thesis using assms(1,4) by blast
  next
    case (3 d st2)
    then show ?thesis using set [OF assms(1) refl refl refl _ 3(2)] assms(5) by (auto simp: timer_call_ok_def)
  next
    case (4 d st0 st2)
    have d: "s_clock (tm_sim st) \<le> dadd (s_clock (tm_sim st)) d" using assms(5) 4(1) by (simp add: timer_call_ok_def)
    show ?thesis
    proof (cases "tm_status st i = TIMER_PENDING")
      case True
      then have "st0 = st1" using 4(2) c(1) by simp
      then show ?thesis using set [OF c(2,4,5,3) _ _ d, of st2] 4(3,4) c(6) by simp
    next
      case False
      then have "st0 = st" using 4(2) by simp
      then show ?thesis using set [OF assms(1) refl refl refl _ _ d, of st2] 4(3,4) by simp
    qed
  qed
qed

lemma timer_ops_inv:
  assumes "sim_trace ops dadd q_empty t0 tr cs (tm_sim st)" "t_ok t0" "in_range lim (tm_sim st')" "timer_inv h st"
    and "\<forall>c \<in> set calls. timer_call_ok dadd (s_clock (tm_sim st)) c" "timer_ops ops dadd calls st = Some st'"
  shows "\<exists>tr' cs'. sim_trace ops dadd q_empty t0 tr' cs' (tm_sim st') \<and> timer_inv h st'"
  using assms(1,4-6)
proof (induction calls arbitrary: st tr cs)
  case (Cons c calls)
  obtain st1 where s: "timer_op ops dadd c st = Some st1" "timer_ops ops dadd calls st1 = Some st'" using Cons.prems(4) by (auto simp: bind_eq_Some_conv)
  note k = timer_op_uid_le [OF s(1)]
  have "in_range lim (tm_sim st)"
    by (rule in_range_back [OF uid_le_trans [OF conjunct1 [OF k] timer_ops_uid_le [OF s(2)]] assms(3) trace_uid [OF Cons.prems(1)]])
  then obtain tr1 cs1 where t: "sim_trace ops dadd q_empty t0 tr1 cs1 (tm_sim st1)" "timer_inv h st1"
    using timer_op_inv [OF Cons.prems(1) assms(2) _ Cons.prems(2) _ s(1)] Cons.prems(3) by auto
  have "\<forall>c \<in> set calls. timer_call_ok dadd (s_clock (tm_sim st1)) c" using Cons.prems(3) k by simp
  then show ?case by (rule Cons.IH [OF t(1,2) _ s(2)])
qed auto

lemma dispatch_ready:
  assumes "sim_trace ops dadd q_empty t0 tr cs s" "t_ok t0" "in_range lim s"
  shows "\<exists>p s1. next_event ops s = Some (p, s1) \<and> s_events s1 = s_events s \<and>
    (p \<noteq> 0 \<longrightarrow> 0 < ev_uid (s_events s p) \<and> s_clock s1 \<le> ev_time (s_events s p))"
proof -
  obtain xs where inv: "trace_inv t_ok rep tr cs s xs" using trace_invariant [OF assms] by blast
  obtain q where q: "next_event ops s = Some (agenda_head xs, s\<lparr>s_queue := q\<rparr>)" by (rule trace_inv_next [OF inv])
  have "0 < ev_uid (s_events s (agenda_head xs)) \<and> s_clock s \<le> ev_time (s_events s (agenda_head xs))" if "agenda_head xs \<noteq> 0"
    using inv that by (cases xs) (auto simp: trace_inv_def pending_def)
  then show ?thesis using q by simp
qed

lemma timer_dispatch_uid_le: "timer_dispatch ops dadd expire (st, w) = Some (st', w') \<Longrightarrow> uid_le (tm_sim st) (tm_sim st')"
proof -
  assume "timer_dispatch ops dadd expire (st, w) = Some (st', w')"
  then obtain p s1 s2 v calls st2 where d: "next_event ops (tm_sim st) = Some (p, s1)" "set_clock p (ev_time (s_events s1 p)) s1 = Some s2"
    "timer_ops ops dadd calls (set_status p TIMER_HANDLING (st\<lparr>tm_sim := s2\<rparr>)) = Some st2" "tm_sim st' = tm_sim st2"
    by (rule timer_dispatch_Some) simp
  have "uid_le s2 (tm_sim st')" using timer_ops_uid_le [OF d(3)] d(4) by simp
  then show ?thesis using next_event_uid [OF d(1)] set_clock_uid [OF d(2)] by (simp add: uid_le_def)
qed

lemma timer_dispatch_inv:
  assumes "sim_trace ops dadd q_empty t0 tr cs (tm_sim st)" "t_ok t0" "in_range lim (tm_sim st')" "timer_inv 0 st" "expire_ok dadd expire"
    and "timer_dispatch ops dadd expire (st, w) = Some (st', w')"
  shows "\<exists>tr' cs'. sim_trace ops dadd q_empty t0 tr' cs' (tm_sim st') \<and> timer_inv 0 st'"
proof -
  obtain p s1 s2 v calls st2 where d: "next_event ops (tm_sim st) = Some (p, s1)" "p \<noteq> 0" "set_clock p (ev_time (s_events s1 p)) s1 = Some s2"
    "expire p (s_clock s2) w = (v, calls)" "timer_ops ops dadd calls (set_status p TIMER_HANDLING (st\<lparr>tm_sim := s2\<rparr>)) = Some st2"
    "st' = (if tm_status st2 p = TIMER_HANDLING then set_status p TIMER_IDLE st2 else st2)"
    using assms(6) by (rule timer_dispatch_Some)
  have "in_range lim (tm_sim st)" by (rule in_range_back [OF timer_dispatch_uid_le [OF assms(6)] assms(3) trace_uid [OF assms(1)]])
  then obtain p' s1' where "next_event ops (tm_sim st) = Some (p', s1')" "s_events s1' = s_events (tm_sim st)" "p' \<noteq> 0 \<longrightarrow> 0 < ev_uid (s_events (tm_sim st) p')"
    using dispatch_ready [OF assms(1,2)] by blast
  then have e: "s_events s1 = s_events (tm_sim st)" "0 < ev_uid (s_events (tm_sim st) p)" using d(1,2) by auto
  have s2: "s_events s2 = negate_uid p (s_events (tm_sim st))" using d(3) e(1) by (auto simp: set_clock_def split: if_splits)
  let ?st = "set_status p TIMER_HANDLING (st\<lparr>tm_sim := s2\<rparr>)"
  have a1: "sim_trace ops dadd q_empty t0 ((ev_time (s_events s1 p), ev_uid (s_events s1 p)) # tr) cs (tm_sim ?st)" using trace_dispatch [OF assms(1) d(1-3)] by simp
  have ok: "\<forall>c \<in> set (snd (expire p (s_clock s2) w)). timer_call_ok dadd (s_clock s2) c" using assms(5) unfolding expire_ok_def by blast
  have a2: "in_range lim (tm_sim st2)" using assms(3) d(6) by (auto split: if_splits)
  have a3: "timer_inv p ?st" using assms(4) e(2) s2 d(2) by (auto simp: timer_inv_def negate_uid_apply)
  have a4: "\<forall>c \<in> set calls. timer_call_ok dadd (s_clock (tm_sim ?st)) c" using ok d(4) by simp
  from timer_ops_inv [OF a1 assms(2) a2 a3 a4 d(5)] obtain tr2 cs2 where t: "sim_trace ops dadd q_empty t0 tr2 cs2 (tm_sim st2)" "timer_inv p st2" by blast
  have "timer_inv 0 st'" using timer_inv_done [OF t(2)] d(6) by simp
  moreover have "tm_sim st' = tm_sim st2" using d(6) by simp
  ultimately show ?thesis using t(1) by auto
qed

lemma timer_run_uid: "timer_run ops dadd expire q_empty t0 st w \<Longrightarrow> s_uid (tm_sim st) < 2 ^ 63"
proof (induction rule: timer_run.induct)
  case (timer_call st w c st')
  then show ?case using timer_op_uid_le [OF timer_call.hyps(3)] by (simp add: uid_le_def)
next
  case (timer_expiry st w st' w')
  then show ?case using timer_dispatch_uid_le [OF timer_expiry.hyps(2)] by (simp add: uid_le_def)
qed (simp add: sim_start_def)

lemma timer_run_inv:
  assumes "timer_run ops dadd expire q_empty t0 st w" "t_ok t0" "expire_ok dadd expire"
  shows "in_range lim (tm_sim st) \<Longrightarrow> \<exists>tr cs. sim_trace ops dadd q_empty t0 tr cs (tm_sim st) \<and> timer_inv 0 st"
  using assms(1)
proof (induction rule: timer_run.induct)
  case (timer_start st w)
  have "timer_inv 0 st" using timer_start.hyps(1,3) by (simp add: timer_inv_def sim_start_def not_less)
  then show ?case using trace_start [OF timer_start.hyps(1,2)] by blast
next
  case (timer_call st w c st')
  have r: "in_range lim (tm_sim st)"
    by (rule in_range_back [OF conjunct1 [OF timer_op_uid_le [OF timer_call.hyps(3)]] timer_call.prems timer_run_uid [OF timer_call.hyps(1)]])
  then obtain tr cs where "sim_trace ops dadd q_empty t0 tr cs (tm_sim st)" "timer_inv 0 st" using timer_call.IH by blast
  then show ?case by (rule timer_op_inv [OF _ assms(2) r _ timer_call.hyps(2,3)])
next
  case (timer_expiry st w st' w')
  have "in_range lim (tm_sim st)"
    by (rule in_range_back [OF timer_dispatch_uid_le [OF timer_expiry.hyps(2)] timer_expiry.prems timer_run_uid [OF timer_expiry.hyps(1)]])
  then obtain tr cs where "sim_trace ops dadd q_empty t0 tr cs (tm_sim st)" "timer_inv 0 st" using timer_expiry.IH by blast
  then show ?case by (rule timer_dispatch_inv [OF _ assms(2) timer_expiry.prems _ assms(3) timer_expiry.hyps(2)])
qed

end

text \<open>
  What an operation on the timer \<open>i\<close> did: the timer has the status \<open>v\<close>, the queue holds the events \<open>A\<close>, in the order in which they are
  due, and no other event changed.
\<close>

definition timer_moved :: "('t::linorder, 'q) sched_ops \<Rightarrow> nat \<Rightarrow> timer_status \<Rightarrow> nat set \<Rightarrow> ('t, 'q) timers \<Rightarrow> ('t, 'q) timers \<Rightarrow> bool" where
  "timer_moved ops i v A st st' \<longleftrightarrow> tm_status st' = (tm_status st)(i := v) \<and>
     (\<forall>j. j \<noteq> i \<longrightarrow> s_events (tm_sim st') j = s_events (tm_sim st) j) \<and>
     (\<exists>ys. queued ops (tm_sim st') ys \<and> sorted_wrt (before (s_events (tm_sim st'))) ys \<and> set ys = A)"

text \<open>
  What holds between two steps, \<open>xs\<close> being what the queue holds: the timers in the queue are pending, the others idle; the next
  dispatch is of the first one, if there is one, and does not turn the clock back. A timer can always be set again, for a time that is not in
  the past, and \<open>force_cancel\<close>led; \<open>sched\<close> aborts exactly for a timer in the queue, \<open>cancel\<close> exactly for one that is not.
\<close>

definition timers_good :: "('t::linorder, 'q) sched_ops \<Rightarrow> ('t \<Rightarrow> 't \<Rightarrow> 't) \<Rightarrow> ('t, 'q) timers \<Rightarrow> bool" where
  "timers_good ops dadd st \<longleftrightarrow> (\<exists>xs. queued ops (tm_sim st) xs \<and> sorted_wrt (before (s_events (tm_sim st))) xs \<and>
     (\<forall>i. tm_status st i = (if i \<in> set xs then TIMER_PENDING else TIMER_IDLE)) \<and>
     (\<exists>s. next_event ops (tm_sim st) = Some (agenda_head xs, s) \<and>
        (xs \<noteq> [] \<longrightarrow> (\<exists>s'. set_clock (hd xs) (ev_time (s_events s (hd xs))) s = Some s'))) \<and>
     (\<forall>i d. i \<noteq> 0 \<and> s_clock (tm_sim st) \<le> dadd (s_clock (tm_sim st)) d \<longrightarrow>
        (\<exists>st'. timer_resched ops dadd i d st = Some st' \<and> timer_moved ops i TIMER_PENDING (insert i (set xs)) st st' \<and>
          ev_time (s_events (tm_sim st') i) = dadd (s_clock (tm_sim st)) d) \<and>
        (if i \<in> set xs then timer_sched ops dadd i d st = None
         else timer_sched ops dadd i d st = timer_resched ops dadd i d st)) \<and>
     (\<forall>i. (\<exists>st'. timer_force_cancel ops i st = Some st' \<and> timer_moved ops i TIMER_IDLE (set xs - {i}) st st') \<and>
        (if i \<in> set xs then timer_cancel ops i st = timer_force_cancel ops i st else timer_cancel ops i st = None)))"

context event_queue
begin

lemma timer_resched_effect:
  assumes "sim_trace ops dadd q_empty t0 tr cs (tm_sim st)" "t_ok t0" "in_range (lim - 2) (tm_sim st)" "lim \<le> 2 ^ 63" "timer_inv h st" "i \<noteq> 0"
    and "s_clock (tm_sim st) \<le> dadd (s_clock (tm_sim st)) d"
  shows "\<exists>st' tr' cs'. timer_resched ops dadd i d st = Some st' \<and> tm_status st' = (tm_status st)(i := TIMER_PENDING) \<and>
    ev_time (s_events (tm_sim st') i) = dadd (s_clock (tm_sim st)) d \<and> (\<forall>j. j \<noteq> i \<longrightarrow> s_events (tm_sim st') j = s_events (tm_sim st) j) \<and>
    0 < ev_uid (s_events (tm_sim st') i) \<and> sim_trace ops dadd q_empty t0 tr' cs' (tm_sim st') \<and> in_range lim (tm_sim st')"
proof -
  have range: "in_range lim (tm_sim st)" "in_range (lim - 1) (tm_sim st)" using assms(3) by (simp_all add: in_range_def)
  obtain st' where st': "timer_resched ops dadd i d st = Some st'" using timer_resched_works [OF assms(1,2) range(2) assms(5-7)] by blast
  then obtain st1 st2 where s: "(if tm_status st i = TIMER_PENDING then tm_cancel ops i st else Some st) = Some st1" "tm_sched ops dadd i d st1 = Some st2"
    "st' = set_status i TIMER_PENDING st2" by (rule timer_resched_Some)
  obtain tr1 cs1 where t: "sim_trace ops dadd q_empty t0 tr1 cs1 (tm_sim st1)" "tm_status st1 = tm_status st" "s_uid (tm_sim st1) = s_uid (tm_sim st)"
    "s_clock (tm_sim st1) = s_clock (tm_sim st)" "\<forall>j. j \<noteq> i \<longrightarrow> s_events (tm_sim st1) j = s_events (tm_sim st) j"
    using s(1) tm_cancel_inv [OF assms(1,2) range(1), of i] assms(1) that by (cases "tm_status st i = TIMER_PENDING") auto
  have r: "in_range lim (tm_sim st1)" "s_clock (tm_sim st1) \<le> dadd (s_clock (tm_sim st1)) d" "in_range (lim - 2) (tm_sim st1)"
    using t(3,4) range assms(3,7) by (simp_all add: in_range_def)
  from tm_sched_inv [OF t(1) assms(2) r(1) s(2) r(2)] show ?thesis using st' s(3) t(2,4,5) r(3) assms(4) by auto
qed

lemma timer_force_cancel_effect:
  assumes "sim_trace ops dadd q_empty t0 tr cs (tm_sim st)" "t_ok t0" "in_range lim (tm_sim st)" "timer_inv 0 st"
  shows "\<exists>st' tr' cs'. timer_force_cancel ops i st = Some st' \<and> tm_status st' = (tm_status st)(i := TIMER_IDLE) \<and>
    (\<forall>j. j \<noteq> i \<longrightarrow> s_events (tm_sim st') j = s_events (tm_sim st) j) \<and> \<not> 0 < ev_uid (s_events (tm_sim st') i) \<and>
    sim_trace ops dadd q_empty t0 tr' cs' (tm_sim st') \<and> in_range lim (tm_sim st')"
proof (cases "tm_status st i = TIMER_PENDING")
  case True
  obtain st1 tr1 cs1 where "tm_cancel ops i st = Some st1" "sim_trace ops dadd q_empty t0 tr1 cs1 (tm_sim st1)" "tm_status st1 = tm_status st"
    "s_uid (tm_sim st1) = s_uid (tm_sim st)" "\<not> 0 < ev_uid (s_events (tm_sim st1) i)" "\<forall>j. j \<noteq> i \<longrightarrow> s_events (tm_sim st1) j = s_events (tm_sim st) j"
    using tm_cancel_inv [OF assms(1-3), of i] by auto
  then show ?thesis using True assms(3)
    by (intro exI [of _ "set_status i TIMER_IDLE st1"] exI [of _ tr1] exI [of _ cs1]) (simp add: timer_force_cancel_def in_range_def)
next
  case False
  then have "tm_status st i = TIMER_IDLE" "\<not> 0 < ev_uid (s_events (tm_sim st) i)"
    using assms(4) unfolding timer_inv_def by (metis timer_status.exhaust)+
  then show ?thesis using assms(1,3) False by (intro exI [of _ st] exI [of _ tr] exI [of _ cs]) (auto simp: timer_force_cancel_def)
qed

lemma timer_moved_trace:
  assumes "sim_trace ops dadd q_empty t0 tr cs (tm_sim st')" "t_ok t0" "in_range lim (tm_sim st')" "tm_status st' = (tm_status st)(i := v)"
    and "\<forall>j. j \<noteq> i \<longrightarrow> s_events (tm_sim st') j = s_events (tm_sim st) j" "A = {j. 0 < ev_uid (s_events (tm_sim st') j)}"
  shows "timer_moved ops i v A st st'"
proof -
  obtain ys q where "trace_inv t_ok rep tr cs (tm_sim st') ys" "queued ops (tm_sim st') ys" "sorted_wrt (before (s_events (tm_sim st'))) ys"
    "\<forall>e. 0 < ev_uid (s_events (tm_sim st') e) \<longleftrightarrow> e \<in> set ys" "next_event ops (tm_sim st') = Some (agenda_head ys, (tm_sim st')\<lparr>s_queue := q\<rparr>)"
    using trace_agenda [OF assms(1-3)] .
  then show ?thesis using assms(4-6) unfolding timer_moved_def by (intro conjI exI [of _ ys]) auto
qed

lemma timers_good:
  assumes "timer_run ops dadd expire q_empty t0 st w" "t_ok t0" "expire_ok dadd expire" "in_range (lim - 2) (tm_sim st)" "lim \<le> 2 ^ 63"
  shows "timers_good ops dadd st"
proof -
  have range: "in_range lim (tm_sim st)" using assms(4) by (simp add: in_range_def)
  obtain tr cs where t: "sim_trace ops dadd q_empty t0 tr cs (tm_sim st)" "timer_inv 0 st" using timer_run_inv [OF assms(1-3) range] by blast
  obtain xs q where x: "queued ops (tm_sim st) xs" "sorted_wrt (before (s_events (tm_sim st))) xs"
    "\<forall>e. 0 < ev_uid (s_events (tm_sim st) e) \<longleftrightarrow> e \<in> set xs" "\<forall>e \<in> set xs. s_clock (tm_sim st) \<le> ev_time (s_events (tm_sim st) e)"
    "next_event ops (tm_sim st) = Some (agenda_head xs, (tm_sim st)\<lparr>s_queue := q\<rparr>)" using trace_agenda [OF t(1) assms(2) range] .
  have 1: "tm_status st i = (if i \<in> set xs then TIMER_PENDING else TIMER_IDLE)" for i
  proof -
    have "tm_status st i = TIMER_PENDING \<longleftrightarrow> i \<in> set xs" "tm_status st i \<noteq> TIMER_HANDLING" using t(2) x(3) by (auto simp: timer_inv_def)
    then show ?thesis by (cases "tm_status st i") simp_all
  qed
  have 2: "\<exists>s'. set_clock (hd xs) (ev_time (s_events ((tm_sim st)\<lparr>s_queue := q\<rparr>) (hd xs))) ((tm_sim st)\<lparr>s_queue := q\<rparr>) = Some s'" if "xs \<noteq> []"
    using x(4) that hd_in_set [OF that] by (auto simp: set_clock_def not_less)
  have 3: "(\<exists>st'. timer_resched ops dadd i d st = Some st' \<and> timer_moved ops i TIMER_PENDING (insert i (set xs)) st st' \<and>
      ev_time (s_events (tm_sim st') i) = dadd (s_clock (tm_sim st)) d) \<and>
    (if i \<in> set xs then timer_sched ops dadd i d st = None else timer_sched ops dadd i d st = timer_resched ops dadd i d st)"
    if "i \<noteq> 0" "s_clock (tm_sim st) \<le> dadd (s_clock (tm_sim st)) d" for i d
  proof
    from timer_resched_effect [OF t(1) assms(2,4,5) t(2) that] obtain st' tr' cs' where
      r: "timer_resched ops dadd i d st = Some st'" "tm_status st' = (tm_status st)(i := TIMER_PENDING)"
        "ev_time (s_events (tm_sim st') i) = dadd (s_clock (tm_sim st)) d" "\<forall>j. j \<noteq> i \<longrightarrow> s_events (tm_sim st') j = s_events (tm_sim st) j"
        "0 < ev_uid (s_events (tm_sim st') i)" "sim_trace ops dadd q_empty t0 tr' cs' (tm_sim st')" "in_range lim (tm_sim st')" by blast
    have "insert i (set xs) = {j. 0 < ev_uid (s_events (tm_sim st') j)}" 
    proof (rule set_eqI)
      show "j \<in> insert i (set xs) \<longleftrightarrow> j \<in> {j. 0 < ev_uid (s_events (tm_sim st') j)}" for j using r(4,5) x(3) by (cases "j = i") auto
    qed
    from timer_moved_trace [OF r(6) assms(2) r(7,2,4) this] show "\<exists>st'. timer_resched ops dadd i d st = Some st' \<and>
        timer_moved ops i TIMER_PENDING (insert i (set xs)) st st' \<and> ev_time (s_events (tm_sim st') i) = dadd (s_clock (tm_sim st)) d"
      using r(1,3) by blast
    show "if i \<in> set xs then timer_sched ops dadd i d st = None else timer_sched ops dadd i d st = timer_resched ops dadd i d st"
      using 1 [of i] by (simp add: timer_sched_def timer_resched_def)
  qed
  have 4: "(\<exists>st'. timer_force_cancel ops i st = Some st' \<and> timer_moved ops i TIMER_IDLE (set xs - {i}) st st') \<and>
    (if i \<in> set xs then timer_cancel ops i st = timer_force_cancel ops i st else timer_cancel ops i st = None)" for i
  proof
    from timer_force_cancel_effect [OF t(1) assms(2) range t(2), of i] obtain st' tr' cs' where
      r: "timer_force_cancel ops i st = Some st'" "tm_status st' = (tm_status st)(i := TIMER_IDLE)"
        "\<forall>j. j \<noteq> i \<longrightarrow> s_events (tm_sim st') j = s_events (tm_sim st) j" "\<not> 0 < ev_uid (s_events (tm_sim st') i)"
        "sim_trace ops dadd q_empty t0 tr' cs' (tm_sim st')" "in_range lim (tm_sim st')" by blast
    have "set xs - {i} = {j. 0 < ev_uid (s_events (tm_sim st') j)}" using r(3,4) x(3) by fastforce
    from timer_moved_trace [OF r(5) assms(2) r(6,2,3) this] show "\<exists>st'. timer_force_cancel ops i st = Some st' \<and>
        timer_moved ops i TIMER_IDLE (set xs - {i}) st st'" using r(1) by blast
    show "if i \<in> set xs then timer_cancel ops i st = timer_force_cancel ops i st else timer_cancel ops i st = None"
      using 1 [of i] by (simp add: timer_cancel_def timer_force_cancel_def)
  qed
  show ?thesis unfolding timers_good_def using x(1,2,5) 1 2 3 4 by blast
qed

end

section \<open>The properties\<close>

text \<open>For the example: a timer that sets itself again when it expires, run up to its first expiry.\<close>

definition toy_expire :: "(real, nat) expire" where
  "toy_expire i t w = (w + 1, [Timer_resched i 3])"

definition toy_timers :: "(real, 'q) sched_ops \<Rightarrow> 'q \<Rightarrow> ((real, 'q) timers \<times> nat) exec" where
  "toy_timers ops q = do {
     st \<leftarrow> timer_sched ops (+) 1 5 \<lparr>tm_status = (\<lambda>_. TIMER_IDLE), tm_sim = sim_new q 0 no_events\<rparr>;
     timer_dispatch ops (+) toy_expire (st, 0)
   }"

lemma toy_timers_run:
  assumes "toy_timers ops q = Some (st, w)"
  shows "timer_run ops (+) toy_expire q 0 st w"
proof -
  let ?s = "\<lparr>tm_status = (\<lambda>_. TIMER_IDLE), tm_sim = sim_new q 0 no_events\<rparr>"
  obtain st1 where s: "timer_op ops (+) (Timer_sched 1 5) ?s = Some st1" "timer_dispatch ops (+) toy_expire (st1, 0) = Some (st, w)"
    using assms by (auto simp: toy_timers_def bind_eq_Some_conv)
  have "timer_run ops (+) toy_expire q 0 ?s 0" by (rule timer_start) (simp_all add: sim_start_def no_events_def sim_new_def)
  then have "timer_run ops (+) toy_expire q 0 st1 0" by (rule timer_call [OF _ _ s(1)]) (simp add: timer_call_ok_def)
  then show ?thesis by (rule timer_expiry [OF _ s(2)])
qed

text \<open>\<^bold>\<open>C14\<close> In every run of timers on any of the four schedulers, between two steps, the timers that \<open>deque\<close> would take out of the
  queue are the pending ones, each once and in the order in which they are due, and the others are idle. The first of them is dispatched
  next and does not turn the clock back, so the checks of \<^verbatim>\<open>TimerHandler::handle\<close> and \<^verbatim>\<open>Scheduler::dispatch\<close> cannot abort. \<open>resched\<close>, for a
  time that is not in the past, and \<open>force_cancel\<close> never abort; the first leaves the timer in the queue for the new time, the second out of it,
  and neither touches another timer. \<open>sched\<close> aborts exactly for a pending timer and otherwise does the same as \<open>resched\<close>; \<open>cancel\<close> aborts exactly
  for one that is not pending and otherwise does the same as \<open>force_cancel\<close>. (The counter has two identifiers left: below 2 to the 63, for
  the heap 2 to the 32.)\<close>

theorem timers_safe:
  fixes dadd :: "real \<Rightarrow> real \<Rightarrow> real"
  assumes "expire_ok dadd expire" "0 \<le> t0"
  shows "(timer_run list_scheduler dadd expire ls_new t0 st1 w \<and> in_range (2 ^ 63 - 2) (tm_sim st1) \<longrightarrow> timers_good list_scheduler dadd st1) \<and>
    (timer_run heap_scheduler dadd expire (Heap 32 blank) t0 st2 w \<and> in_range (2 ^ 32 - 2) (tm_sim st2) \<longrightarrow> timers_good heap_scheduler dadd st2) \<and>
    (timer_run splay_scheduler dadd expire splay_new t0 st3 w \<and> in_range (2 ^ 63 - 2) (tm_sim st3) \<longrightarrow> timers_good splay_scheduler dadd st3) \<and>
    (timer_run calendar_scheduler dadd expire (cal_new adjust min_width) t0 st4 w \<and> in_range (2 ^ 63 - 2) (tm_sim st4) \<longrightarrow>
      timers_good calendar_scheduler dadd st4)"
  using assms list_queue.timers_good [of dadd expire t0 st1 w] heap_queue.timers_good [of dadd expire blank t0 st2 w]
    splay_queue.timers_good [of dadd expire t0 st3 w] calendar_queue.timers_good [of dadd expire adjust min_width t0 st4 w] by simp

theorem timers_safe_witness:
  "expire_ok (+) toy_expire \<and> (\<exists>st. timer_run calendar_scheduler (+) toy_expire (cal_new 10 1) 0 st 1 \<and> timers_good calendar_scheduler (+) st)"
proof -
  have e: "expire_ok (+) toy_expire" by (simp add: expire_ok_def toy_expire_def timer_call_ok_def)
  have "map_option (\<lambda>(st, w). (w, s_uid (tm_sim st))) (toy_timers calendar_scheduler (cal_new 10 1)) = Some (1, 3)"
    by (simp add: toy_timers_def timer_sched_def tm_sched_def timer_dispatch_def timer_handle_def toy_expire_def timer_resched_def set_status_def
        schedule_def calendar_scheduler_def cal_insert_def CALENDAR_HASH_def cal_new_def cal_place_def get_bucket_def put_bucket_def
        sim_new_def no_events_def next_event_def cal_deque_def cal_head_def cal_find_def CAL_DEQUEUE_def cal_search.simps cal_last_def
        cal_adjust_def set_clock_def negate_uid_def numeral_nat Let_def)
  then obtain st where s: "toy_timers calendar_scheduler (cal_new 10 1) = Some (st, 1)" "s_uid (tm_sim st) = 3" by auto
  note r = toy_timers_run [OF s(1)]
  then show ?thesis using e s(2) timers_safe [OF e, of 0 undefined 1 undefined undefined undefined 10 1 st] by (auto simp: in_range_def)
qed

end
