(* ===== verification/Module_Runs.thy ===== *)
theory Module_Runs
  imports Tcp_Scalable Tcp_Bic Tcp_Cubic Tcp_Highspeed Tcp_Vegas Tcp_Veno Tcp_Htcp Tcp_Hybla Tcp_Westwood
    Tcp_Illinois Tcp_Lp
begin

text \<open>
  The twelve modules of \<^verbatim>\<open>linux/src\<close> that meet the contract of the agent, in one statement: none
  can be driven into a trap or out of its bounds.  The runs are those of \<^const>\<open>cc_reach\<close>, with
  every interleaving of acknowledgments, recoveries, timeouts and state changes.
\<close>

text \<open>The states after \<^verbatim>\<open>init\<close>, from which the runs start.\<close>

lemma init_reaches:
  "cc_reach tcp_highspeed (\<lambda>_ _. True) 33554432 (\<lambda>_ _. True) (the (hstcp_init sample_env (sample_sock q1)))"
  "cc_reach (tcp_vegas m) (\<lambda>_ _. True) 4294967296 (\<lambda>_ _. True) (the (tcp_vegas_init sample_env (sample_sock q2)))"
  "cc_reach (htcp_ops m') (\<lambda>_ _. True) 33554432 (\<lambda>_ _. True) (the (htcp_init sample_env (sample_sock q3)))"
  "cc_reach tcp_westwood (\<lambda>_ _. True) 4294967296 (\<lambda>_ _. True) (the (tcp_westwood_init sample_env (sample_sock q4)))"
  "cc_reach tcp_lp (\<lambda>_ _. True) 4294967296 (\<lambda>_ _. True) (the (tcp_lp_init sample_env (sample_sock q5)))"
  "cc_reach tcp_veno (\<lambda>_ _. True) 1073741824 (\<lambda>_ _. True) (the (tcp_veno_init sample_env (sample_sock q6)))"
  subgoal by (rule sample_init [where f = hstcp_init and q = q1]; simp add: tcp_highspeed_def null_ops_def hstcp_init_def sample_sock_def wf_sock_def)
  subgoal by (rule sample_init [where f = tcp_vegas_init and q = q2]; simp add: tcp_vegas_def null_ops_def tcp_vegas_init_def vegas_enable_def sample_sock_def wf_sock_def)
  subgoal by (rule sample_init [where f = htcp_init and q = q3]; simp add: htcp_ops_def null_ops_def htcp_init_def sample_sock_def wf_sock_def)
  subgoal by (rule sample_init [where f = tcp_westwood_init and q = q4]; simp add: tcp_westwood_def null_ops_def tcp_westwood_init_def sample_sock_def wf_sock_def)
  subgoal by (rule sample_init [where f = tcp_lp_init and q = q5]; simp add: tcp_lp_def null_ops_def tcp_lp_init_def sample_sock_def wf_sock_def)
  subgoal by (rule sample_init [where f = tcp_veno_init and q = q6]; simp add: tcp_veno_def null_ops_def tcp_veno_init_def veno_enable_def sample_sock_def wf_sock_def)
  done

lemma init_reaches_parametric:
  "cc_reach (bictcp_ops bic_defaults) (\<lambda>_ _. True) 4294967292 (\<lambda>_ n. unat n \<le> DELACK_PKTS)
     (the (bictcp_init bic_defaults sample_env (sample_sock q1)))"
  "cc_reach (cubictcp_ops cubic_defaults cubic_default_scales) cubic_env CUBIC_LIM (\<lambda>_ n. unat n \<le> DELACK_PKTS)
     (the (cubictcp_init cubic_defaults sample_env (sample_sock q2)))"
  "cc_reach (tcp_illinois m) (\<lambda>_ _. True) 134217728 illinois_ack (the (tcp_illinois_init sample_env (sample_sock q3)))"
  "cc_reach (tcp_hybla hybla_rtt0_default) hybla_env HYBLA_LIM (\<lambda>_ _. True)
     (the (hybla_init hybla_rtt0_default sample_env (sample_sock q4)))"
  subgoal by (rule sample_init [where f = "bictcp_init bic_defaults" and q = q1]; simp add: bictcp_ops_def null_ops_def bictcp_init_def bic_defaults_def bictcp_reset_def Let_def sample_sock_def wf_sock_def)
  subgoal by (rule sample_init [where f = "cubictcp_init cubic_defaults" and q = q2]; simp add: cubictcp_ops_def null_ops_def cubictcp_init_def cubic_defaults_def cubictcp_reset_def Let_def cubic_env_def sample_sock_def wf_sock_def)
  subgoal by (rule sample_init [where f = tcp_illinois_init and q = q3]; simp add: tcp_illinois_def null_ops_def tcp_illinois_init_def rtt_reset_def sample_sock_def wf_sock_def)
  subgoal by (rule sample_init [where f = "hybla_init hybla_rtt0_default" and q = q4]; simp add: tcp_hybla_def null_ops_def hybla_init_def hybla_recalc_param_def Let_def msecs_to_jiffies_def hybla_env_def unat_simps sample_sock_def wf_sock_def)
  done

lemma init_reaches_plain:
  "cc_reach tcp_reno (\<lambda>_ _. True) 4294967296 (\<lambda>_ _. True) (sample_sock ())"
  "cc_reach tcp_scalable (\<lambda>_ _. True) 4294967296 (\<lambda>_ _. True) (sample_sock ())"
  by (rule sample_start, simp_all add: tcp_reno_def tcp_scalable_def null_ops_def)+

text \<open>
  \<^bold>\<open>C5\<close> In no run of the twelve modules under the conditions below does a call stop (division by zero,
  oversized shift, table read out of range, endless loop), and the window stays positive and the threshold
  at least two. The private invariants hold with it: the index of HighSpeed is in its table, the smallest
  round-trip time of Vegas and Veno is not zero, the factors of H-TCP and Illinois are in their ranges, the
  fraction of Hybla is below a segment, and the delayed acknowledgment ratio of BIC and CUBIC is at least one.

  The conditions: windows and clamp stay below the limit of the module (none for Reno, Scalable, Vegas,
  Westwood and LP, and almost none for BIC; 2 to the 31 for Hybla, 2 to the 30 for Veno, 2 to the 27 for CUBIC and
  Illinois, 2 to the 25 for HighSpeed and H-TCP). For Hybla the smoothed round trip time is below 800 ticks,
  which the module takes for milliseconds (\<open>hybla_env\<close>); from there on its shift does overflow, as \<open>Tcp_Hybla\<close> shows. For CUBIC the echoed time stamps
  are less than 100 seconds old (\<open>cubic_env\<close>). For BIC and CUBIC an acknowledgment covers at most
  \<open>DELACK_PKTS\<close> segments, and for Illinois the 32-bit count of samples of a round does not wrap
  (\<open>illinois_ack\<close>). The parameters of BIC, CUBIC and Hybla are the defaults.
\<close>

theorem modules_run_safe:
  "(cc_reach tcp_reno (\<lambda>_ _. True) 4294967296 (\<lambda>_ _. True) r \<longrightarrow> run_safe tcp_reno e (\<lambda>_ _. True) r) \<and>
   (cc_reach tcp_scalable (\<lambda>_ _. True) 4294967296 (\<lambda>_ _. True) sc \<longrightarrow> run_safe tcp_scalable e (\<lambda>_ _. True) sc) \<and>
   (cc_reach tcp_highspeed (\<lambda>_ _. True) 33554432 (\<lambda>_ _. True) hs \<longrightarrow>
      run_safe tcp_highspeed e (\<lambda>_ _. True) hs \<and> unat (hs_ai (icsk_ca_priv hs)) < 72) \<and>
   (cc_reach (tcp_vegas m) (\<lambda>_ _. True) 4294967296 (\<lambda>_ _. True) v \<longrightarrow>
      run_safe (tcp_vegas m) e (\<lambda>_ _. True) v \<and> minRTT (icsk_ca_priv v) \<noteq> 0) \<and>
   (cc_reach (htcp_ops mh) (\<lambda>_ _. True) 33554432 (\<lambda>_ _. True) h \<longrightarrow>
      run_safe (htcp_ops mh) e (\<lambda>_ _. True) h \<and>
      BETA_MIN \<le> ht_beta (icsk_ca_priv h) \<and> ht_beta (icsk_ca_priv h) \<le> BETA_MAX) \<and>
   (cc_reach (tcp_illinois mi) (\<lambda>_ _. True) 134217728 illinois_ack i \<longrightarrow>
      run_safe (tcp_illinois mi) e illinois_ack i \<and>
      IL_ALPHA_MIN \<le> il_alpha (icsk_ca_priv i) \<and> il_alpha (icsk_ca_priv i) \<le> IL_ALPHA_MAX \<and>
      IL_BETA_MIN \<le> il_beta (icsk_ca_priv i) \<and> il_beta (icsk_ca_priv i) \<le> IL_BETA_MAX) \<and>
   (cc_reach (tcp_hybla hybla_rtt0_default) hybla_env HYBLA_LIM (\<lambda>_ _. True) hy \<and> hybla_env e hy \<longrightarrow>
      run_safe (tcp_hybla hybla_rtt0_default) e (\<lambda>_ _. True) hy \<and>
      unat (hy_rho (icsk_ca_priv hy)) < 32 \<and> unat (snd_cwnd_cents (icsk_ca_priv hy)) < 128) \<and>
   (cc_reach (bictcp_ops bic_defaults) (\<lambda>_ _. True) 4294967292 (\<lambda>_ n. unat n \<le> DELACK_PKTS) b \<longrightarrow>
      run_safe (bictcp_ops bic_defaults) e (\<lambda>_ n. unat n \<le> DELACK_PKTS) b \<and> 16 \<le> unat (bic_delayed_ack (icsk_ca_priv b))) \<and>
   (cc_reach (cubictcp_ops cubic_defaults cubic_default_scales) cubic_env CUBIC_LIM (\<lambda>_ n. unat n \<le> DELACK_PKTS) c \<and> cubic_env e c \<longrightarrow>
      run_safe (cubictcp_ops cubic_defaults cubic_default_scales) e (\<lambda>_ n. unat n \<le> DELACK_PKTS) c \<and>
      16 \<le> unat (cu_delayed_ack (icsk_ca_priv c))) \<and>
   (cc_reach tcp_westwood (\<lambda>_ _. True) 4294967296 (\<lambda>_ _. True) w \<longrightarrow> run_safe tcp_westwood e (\<lambda>_ _. True) w) \<and>
   (cc_reach tcp_lp (\<lambda>_ _. True) 4294967296 (\<lambda>_ _. True) l \<longrightarrow> run_safe tcp_lp e (\<lambda>_ _. True) l) \<and>
   (cc_reach tcp_veno (\<lambda>_ _. True) 1073741824 (\<lambda>_ _. True) ve \<longrightarrow>
      run_safe tcp_veno e (\<lambda>_ _. True) ve \<and> minrtt (icsk_ca_priv ve) \<noteq> 0)"
  by (intro conjI; rule impI; (elim conjE)?;
      rule reno_run_safe scalable_run_safe highspeed_run_safe vegas_run_safe htcp_run_safe illinois_run_safe
        hybla_run_safe bic_run_safe cubic_run_safe westwood_run_safe lp_run_safe veno_run_safe; assumption)

theorem modules_run_safe_witness:
  "\<forall>q1 q2 q3 q4 q5 q6 q7 q8 q9 q10.
   run_safe tcp_reno sample_env (\<lambda>_ _. True) (sample_sock ()) \<and>
   run_safe tcp_scalable sample_env (\<lambda>_ _. True) (sample_sock ()) \<and>
   run_safe tcp_highspeed sample_env (\<lambda>_ _. True) (the (hstcp_init sample_env (sample_sock q1))) \<and>
   run_safe (tcp_vegas vegas_defaults) sample_env (\<lambda>_ _. True) (the (tcp_vegas_init sample_env (sample_sock q2))) \<and>
   run_safe (htcp_ops htcp_defaults) sample_env (\<lambda>_ _. True) (the (htcp_init sample_env (sample_sock q3))) \<and>
   run_safe (tcp_illinois illinois_defaults) sample_env illinois_ack (the (tcp_illinois_init sample_env (sample_sock q9))) \<and>
   run_safe (tcp_hybla hybla_rtt0_default) sample_env (\<lambda>_ _. True) (the (hybla_init hybla_rtt0_default sample_env (sample_sock q10))) \<and>
   run_safe (bictcp_ops bic_defaults) sample_env (\<lambda>_ n. unat n \<le> DELACK_PKTS) (the (bictcp_init bic_defaults sample_env (sample_sock q7))) \<and>
   run_safe (cubictcp_ops cubic_defaults cubic_default_scales) sample_env (\<lambda>_ n. unat n \<le> DELACK_PKTS)
     (the (cubictcp_init cubic_defaults sample_env (sample_sock q8))) \<and>
   run_safe tcp_westwood sample_env (\<lambda>_ _. True) (the (tcp_westwood_init sample_env (sample_sock q4))) \<and>
   run_safe tcp_lp sample_env (\<lambda>_ _. True) (the (tcp_lp_init sample_env (sample_sock q5))) \<and>
   run_safe tcp_veno sample_env (\<lambda>_ _. True) (the (tcp_veno_init sample_env (sample_sock q6)))"
proof (intro allI)
  fix q1 q2 q3 q4 q5 q6 q7 q8 q9 q10
  have env: "hybla_env sample_env (the (hybla_init hybla_rtt0_default sample_env (sample_sock q10)))"
    "cubic_env sample_env (the (cubictcp_init cubic_defaults sample_env (sample_sock q8)))"
    by (simp_all add: hybla_env_def hybla_init_def hybla_recalc_param_def Let_def msecs_to_jiffies_def unat_simps sample_sock_def
        cubic_env_def cubictcp_init_def cubic_defaults_def cubictcp_reset_def)
  show "run_safe tcp_reno sample_env (\<lambda>_ _. True) (sample_sock ()) \<and>
   run_safe tcp_scalable sample_env (\<lambda>_ _. True) (sample_sock ()) \<and>
   run_safe tcp_highspeed sample_env (\<lambda>_ _. True) (the (hstcp_init sample_env (sample_sock q1))) \<and>
   run_safe (tcp_vegas vegas_defaults) sample_env (\<lambda>_ _. True) (the (tcp_vegas_init sample_env (sample_sock q2))) \<and>
   run_safe (htcp_ops htcp_defaults) sample_env (\<lambda>_ _. True) (the (htcp_init sample_env (sample_sock q3))) \<and>
   run_safe (tcp_illinois illinois_defaults) sample_env illinois_ack (the (tcp_illinois_init sample_env (sample_sock q9))) \<and>
   run_safe (tcp_hybla hybla_rtt0_default) sample_env (\<lambda>_ _. True) (the (hybla_init hybla_rtt0_default sample_env (sample_sock q10))) \<and>
   run_safe (bictcp_ops bic_defaults) sample_env (\<lambda>_ n. unat n \<le> DELACK_PKTS) (the (bictcp_init bic_defaults sample_env (sample_sock q7))) \<and>
   run_safe (cubictcp_ops cubic_defaults cubic_default_scales) sample_env (\<lambda>_ n. unat n \<le> DELACK_PKTS)
     (the (cubictcp_init cubic_defaults sample_env (sample_sock q8))) \<and>
   run_safe tcp_westwood sample_env (\<lambda>_ _. True) (the (tcp_westwood_init sample_env (sample_sock q4))) \<and>
   run_safe tcp_lp sample_env (\<lambda>_ _. True) (the (tcp_lp_init sample_env (sample_sock q5))) \<and>
   run_safe tcp_veno sample_env (\<lambda>_ _. True) (the (tcp_veno_init sample_env (sample_sock q6)))"
    using modules_run_safe [of "sample_sock ()" sample_env "sample_sock ()" "the (hstcp_init sample_env (sample_sock q1))"
        vegas_defaults "the (tcp_vegas_init sample_env (sample_sock q2))"
        htcp_defaults "the (htcp_init sample_env (sample_sock q3))"
        illinois_defaults "the (tcp_illinois_init sample_env (sample_sock q9))"
        "the (hybla_init hybla_rtt0_default sample_env (sample_sock q10))"
        "the (bictcp_init bic_defaults sample_env (sample_sock q7))"
        "the (cubictcp_init cubic_defaults sample_env (sample_sock q8))"
        "the (tcp_westwood_init sample_env (sample_sock q4))" "the (tcp_lp_init sample_env (sample_sock q5))"
        "the (tcp_veno_init sample_env (sample_sock q6))"]
      init_reaches init_reaches_parametric init_reaches_plain env
    by blast
qed

end
