(* ===== verification/Str_Records.thy ===== *)
theory Str_Records
  imports Linux_Prelude
begin

text \<open>
  The string records of a bundle's dictionary header (\<^verbatim>\<open>dtn/strrecords.cc\<close>,
  \<^verbatim>\<open>dtn/strrecords.h\<close>): a list of interned strings, in which the endpoint
  identifiers of a bundle (a region and an administrative part, separated by a comma) are
  stored once and named by a byte of two four-bit positions.

  A C string is the list of its bytes; the array that holds it is the list of the array's
  elements without the terminating zero that every constructor of the file appends, and
  \<open>cstr\<close> is the string that \<^verbatim>\<open>strlen\<close> and \<^verbatim>\<open>strcmp\<close> see in
  it.  A null pointer is \<^const>\<open>None\<close>.  The linked list with its \<open>first_\<close>,
  \<open>last_\<close> and \<open>strcount_\<close> is the list of the records in their order: every
  operation appends at \<open>last_\<close> and counts the record, so that \<open>strcount_\<close> is
  the length.  A read outside an array and a null dereference are the outcome
  \<^const>\<open>None\<close> of \<open>'a exec\<close>.
\<close>

subsection \<open>C strings\<close>

type_synonym bytes = "u8 list"

definition cstr :: "bytes \<Rightarrow> bytes" where
  "cstr a = takeWhile (\<lambda>c. c \<noteq> 0) a"

definition c_strncpy :: "bytes \<Rightarrow> nat \<Rightarrow> bytes" where
  "c_strncpy src n = take n (cstr src) @ replicate (n - length (cstr src)) 0"

definition c_strncmp_eq :: "bytes \<Rightarrow> bytes \<Rightarrow> nat \<Rightarrow> bool" where
  "c_strncmp_eq a b n \<longleftrightarrow> take n (cstr a) = take n (cstr b)"

definition comma :: u8 where
  "comma = 0x2C"

lemma cstr_Nil [simp]: "cstr [] = []"
  by (simp add: cstr_def)

lemma cstr_id [simp]: "0 \<notin> set a \<Longrightarrow> cstr a = a"
  by (auto simp: cstr_def)

lemma cstr_no_zero [simp]: "0 \<notin> set (cstr a)"
  by (auto simp: cstr_def dest: set_takeWhileD)

lemma cstr_append_zero [simp]: "0 \<notin> set a \<Longrightarrow> cstr (a @ 0 # b) = a"
  unfolding cstr_def by (subst takeWhile_append2) auto

lemma cstr_idem [simp]: "cstr (cstr a) = cstr a"
  by (rule cstr_id) simp

lemma c_strncpy_exact: "0 \<notin> set a \<Longrightarrow> c_strncpy a (length a) = a"
  by (simp add: c_strncpy_def)

subsection \<open>The records\<close>

record str_rec =
  sr_len :: u8
  sr_text :: bytes

type_synonym str_records = "str_rec list"

text \<open>\<^verbatim>\<open>getRecord\<close>: a position outside the list gives a null pointer.\<close>

definition get_record :: "str_records \<Rightarrow> int \<Rightarrow> str_rec option" where
  "get_record rs number =
     (if 0 \<le> number \<and> number < int (length rs) then Some (rs ! nat number) else None)"

text \<open>\<^verbatim>\<open>addRecord(u_int8_t*, int)\<close> copies \<open>len\<close> bytes, which have to be there.\<close>

definition add_record_raw :: "str_records \<Rightarrow> bytes option \<Rightarrow> nat \<Rightarrow> (str_records \<times> int) exec" where
  "add_record_raw rs text len = (case text of
     None \<Rightarrow> Some (rs, -1)
   | Some t \<Rightarrow> if length t < len then None
               else Some (rs @ [\<lparr>sr_len = of_nat len, sr_text = take len t\<rparr>], 0))"

text \<open>\<^verbatim>\<open>lookup\<close> compares the length with the eight-bit length field and the text up to it.\<close>

fun lookup_from :: "int \<Rightarrow> str_records \<Rightarrow> bytes \<Rightarrow> int" where
  "lookup_from k [] text = -1"
| "lookup_from k (r # rs) text =
     (if length (cstr text) = unat (sr_len r)
         \<and> c_strncmp_eq text (sr_text r) (length (cstr text))
      then k else lookup_from (k + 1) rs text)"

definition lookup :: "str_records \<Rightarrow> bytes option \<Rightarrow> int" where
  "lookup rs text = (case text of None \<Rightarrow> -1 | Some t \<Rightarrow> lookup_from 0 rs t)"

text \<open>
  \<^verbatim>\<open>addRecord(const char*)\<close> is its two parts one after the other.  \<open>intern_part\<close>
  is the code they share: an existing record is reused, a new one is appended when the part is
  there, and nothing can be added otherwise.  The new record keeps the whole text, and its
  length in eight bits.
\<close>

definition intern_part :: "str_records \<Rightarrow> bytes option \<Rightarrow> str_records \<times> int option" where
  "intern_part rs temptext =
     (let k = lookup rs temptext
      in if 0 \<le> k then (rs, Some k)
         else case temptext of
           None \<Rightarrow> (rs, None)
         | Some t \<Rightarrow> (rs @ [\<lparr>sr_len = of_nat (length (cstr t)), sr_text = t\<rparr>], Some (int (length rs))))"

definition first_part :: "bytes \<Rightarrow> bytes option" where
  "first_part text = (let t = cstr text; i = length (takeWhile (\<lambda>c. c \<noteq> comma) t)
                      in if i \<noteq> 0 then Some (take i t) else None)"

definition second_part :: "bytes \<Rightarrow> bytes option" where
  "second_part text = (let t = cstr text; i = length (takeWhile (\<lambda>c. c \<noteq> comma) t);
                           len = length t - i
                       in if 0 < len then Some (drop (i + 1) t) else None)"

definition add_record :: "str_records \<Rightarrow> bytes option \<Rightarrow> str_records \<times> int" where
  "add_record rs text = (case text of
     None \<Rightarrow> (rs, -1)
   | Some t \<Rightarrow>
      (case intern_part rs (first_part t) of
         (rs1, None) \<Rightarrow> (rs1, -1)
       | (rs1, Some pos1) \<Rightarrow>
          (case intern_part rs1 (second_part t) of
             (rs2, None) \<Rightarrow> (rs2, -1)
           | (rs2, Some pos2) \<Rightarrow> (rs2, ((pos1 * 0x10) AND 0xf0) + (pos2 AND 0x0f)))))"

text \<open>\<^verbatim>\<open>getRecords\<close>: the array it returns, without the terminating zero.\<close>

definition get_records :: "str_records \<Rightarrow> u8 \<Rightarrow> bytes option" where
  "get_records rs number =
     (case (get_record rs (uint (number AND 0xf0) div 0x10), get_record rs (uint (number AND 0x0f))) of
        (Some one, Some two) \<Rightarrow>
          Some (c_strncpy (sr_text one) (unat (sr_len one)) @ [comma]
                @ c_strncpy (sr_text two) (unat (sr_len two)))
      | _ \<Rightarrow> None)"

text \<open>\<^verbatim>\<open>clone\<close> adds every record again, by its length field.\<close>

fun clone_from :: "str_records \<Rightarrow> str_records \<Rightarrow> str_records exec" where
  "clone_from acc [] = Some acc"
| "clone_from acc (cur # rs) =
     do { (acc', _) \<leftarrow> add_record_raw acc (Some (sr_text cur)) (unat (sr_len cur));
          clone_from acc' rs }"

definition clone_records :: "str_records \<Rightarrow> str_records exec" where
  "clone_records rs = clone_from [] rs"


subsection \<open>Well-formed records\<close>

definition rec_ok :: "str_rec \<Rightarrow> bool" where
  "rec_ok r \<longleftrightarrow> 0 \<notin> set (sr_text r) \<and> length (sr_text r) < 256
     \<and> sr_len r = of_nat (length (sr_text r))"

abbreviation recs_ok :: "str_records \<Rightarrow> bool" where
  "recs_ok rs \<equiv> list_all rec_ok rs"

lemma rec_ok_len: "rec_ok r \<Longrightarrow> unat (sr_len r) = length (sr_text r)"
  by (simp add: rec_ok_def unat_of_nat take_bit_eq_mod)

lemma rec_ok_new: "0 \<notin> set t \<Longrightarrow> length t < 256 \<Longrightarrow> rec_ok \<lparr>sr_len = of_nat (length t), sr_text = t\<rparr>"
  by (simp add: rec_ok_def)

lemma rec_ok_copy: "rec_ok r \<Longrightarrow> c_strncpy (sr_text r) (unat (sr_len r)) = sr_text r"
  by (metis rec_ok_def rec_ok_len c_strncpy_exact)

text \<open>The search finds the first record of the text, when there is one.\<close>

lemma lookup_from_ok:
  assumes "recs_ok rs" and "0 \<notin> set t"
  shows "(\<exists>i < length rs. lookup_from k rs t = k + int i \<and> sr_text (rs ! i) = t)
    \<or> (lookup_from k rs t = -1 \<and> t \<notin> sr_text ` set rs)"
  using assms
proof (induction rs arbitrary: k)
  case (Cons r rs)
  show ?case
  proof (cases "sr_text r = t")
    case True
    then show ?thesis using Cons.prems by (auto simp: c_strncmp_eq_def rec_ok_len)
  next
    case False
    have r: "unat (sr_len r) = length (sr_text r)" "0 \<notin> set (sr_text r)"
      using Cons.prems(1) by (simp_all add: rec_ok_len) (simp add: rec_ok_def)
    have step: "lookup_from k (r # rs) t = lookup_from (k + 1) rs t"
      using False Cons.prems(2) r by (auto simp: c_strncmp_eq_def)
    have "recs_ok rs" using Cons.prems(1) by simp
    then consider (found) i where "i < length rs" "lookup_from (k + 1) rs t = k + 1 + int i" "sr_text (rs ! i) = t"
      | (absent) "lookup_from (k + 1) rs t = -1" "t \<notin> sr_text ` set rs"
      using Cons.IH [of "k + 1"] Cons.prems(2) by blast
    then show ?thesis
    proof cases
      case found
      then have "Suc i < length (r # rs) \<and> lookup_from k (r # rs) t = k + int (Suc i)
        \<and> sr_text ((r # rs) ! Suc i) = t"
        unfolding step by simp
      then show ?thesis by blast
    next
      case absent
      then show ?thesis unfolding step using False by auto
    qed
  qed
qed simp

lemma lookup_absent:
  assumes "recs_ok rs" "0 \<notin> set t" "t \<notin> sr_text ` set rs"
  shows "lookup rs (Some t) = -1"
  using lookup_from_ok [OF assms(1,2), of 0] assms(3) nth_mem by (fastforce simp: lookup_def)

lemma intern_part_ok:
  assumes "recs_ok rs" "0 \<notin> set t" "length t < 256"
  obtains xs p where "intern_part rs (Some t) = (rs @ xs, Some (int p))" "length xs \<le> 1"
    "recs_ok (rs @ xs)" "p < length (rs @ xs)" "sr_text ((rs @ xs) ! p) = t"
proof (cases "0 \<le> lookup rs (Some t)")
  case True
  then obtain i where "i < length rs" "lookup rs (Some t) = int i" "sr_text (rs ! i) = t"
    using lookup_from_ok [OF assms(1,2), of 0] by (auto simp: lookup_def)
  then show thesis using that [of "[]" i] assms(1) by (simp add: intern_part_def)
next
  case False
  then show thesis using assms
    by (intro that [of "[\<lparr>sr_len = of_nat (length t), sr_text = t\<rparr>]" "length rs"])
       (simp_all add: intern_part_def Let_def rec_ok_new)
qed

subsection \<open>Endpoint identifiers\<close>

text \<open>The identifiers that can be recorded: a non-empty region without a comma, and both parts
  short enough for the length field.\<close>

definition endpoint_ok :: "bytes \<Rightarrow> bool" where
  "endpoint_ok k \<longleftrightarrow> (\<exists>a b. k = a @ comma # b \<and> a \<noteq> [] \<and> comma \<notin> set a \<and> 0 \<notin> set a \<and> 0 \<notin> set b
      \<and> length a < 256 \<and> length b < 256)"

lemma endpoint_okI:
  "a \<noteq> [] \<Longrightarrow> comma \<notin> set a \<Longrightarrow> 0 \<notin> set a \<Longrightarrow> 0 \<notin> set b \<Longrightarrow> length a < 256 \<Longrightarrow> length b < 256
    \<Longrightarrow> endpoint_ok (a @ comma # b)"
  unfolding endpoint_ok_def by blast

lemma comma_nonzero [simp]: "comma \<noteq> 0" "0 \<noteq> comma"
  by (simp_all add: comma_def)

lemma parts_split:
  assumes "a \<noteq> []" "comma \<notin> set a" "0 \<notin> set a" "0 \<notin> set b"
  shows "first_part (a @ comma # b) = Some a" and "second_part (a @ comma # b) = Some b"
proof -
  have c: "cstr (a @ comma # b) = a @ comma # b" using assms by simp
  have t: "takeWhile (\<lambda>c. c \<noteq> comma) (a @ comma # b) = a"
    using assms(2) by (subst takeWhile_append2) auto
  show "first_part (a @ comma # b) = Some a" "second_part (a @ comma # b) = Some b"
    using assms(1) by (simp_all add: first_part_def second_part_def c t Let_def)
qed

text \<open>The byte of two positions, and reading it back.\<close>

definition pos_byte :: "nat \<Rightarrow> nat \<Rightarrow> u8" where
  "pos_byte p q = of_int (((int p * 0x10) AND 0xf0) + (int q AND 0x0f))"

lemma pos_int: "((int p * 0x10) AND 0xf0) + (int q AND 0x0f) = int (p mod 16 * 16 + q mod 16)"
proof -
  have m15: "x AND 15 = x mod 16" for x :: int
    using take_bit_eq_mask [of 4 x] by (simp add: take_bit_eq_mod mask_eq_exp_minus_1)
  have "(int p * 0x10) AND 0xf0 = push_bit 4 (int p AND 15)"
    by (simp only: push_bit_and) (simp add: push_bit_eq_mult)
  also have "\<dots> = int (p mod 16) * 16" by (simp add: m15 push_bit_eq_mult zmod_int)
  finally show ?thesis by (simp add: m15 zmod_int)
qed

lemma pos_byte_parts:
  "uint (pos_byte p q AND 0xf0) div 0x10 = int (p mod 16)" "uint (pos_byte p q AND 0x0f) = int (q mod 16)"
proof -
  define x where "x = p mod 16 * 16 + q mod 16"
  have "p mod 16 < 16" "q mod 16 < 16" by simp_all
  then have x: "x < 256" unfolding x_def by linarith
  have pb: "pos_byte p q = of_nat x" by (simp add: pos_byte_def pos_int x_def)
  have u: "unat (pos_byte p q) = x"
    unfolding pb unat_of_nat using x by simp
  have m: "0x0f = (mask 4 :: u8)" "0xf0 = (push_bit 4 (mask 4) :: u8)" by (simp_all add: mask_eq_exp_minus_1)
  have "unat (pos_byte p q AND 0x0f) = x mod 16"
    unfolding m by (simp add: take_bit_eq_mask [symmetric] unsigned_take_bit_eq u) (simp add: take_bit_eq_mod)
  then show "uint (pos_byte p q AND 0x0f) = int (q mod 16)" by (simp add: x_def uint_nat)
  have "drop_bit 4 (pos_byte p q AND 0xf0) = drop_bit 4 (pos_byte p q) AND 0x0f"
    by (simp add: drop_bit_and)
  then have "unat (drop_bit 4 (pos_byte p q AND 0xf0)) = x div 16 mod 16"
    unfolding m(1) by (simp add: take_bit_eq_mask [symmetric] unsigned_take_bit_eq unat_drop_bit u)
      (simp add: take_bit_eq_mod)
  moreover have "unat (drop_bit 4 (pos_byte p q AND 0xf0)) = unat (pos_byte p q AND 0xf0) div 16"
    by (subst unat_drop_bit) simp
  ultimately have "unat (pos_byte p q AND 0xf0) div 16 = p mod 16"
    by (simp only: x_def) simp
  then have "int (unat (pos_byte p q AND 0xf0)) div int 16 = int (p mod 16)"
    by (metis zdiv_int)
  then show "uint (pos_byte p q AND 0xf0) div 0x10 = int (p mod 16)" by simp
qed

lemma get_records_pos:
  assumes "recs_ok rs" "p mod 16 < length rs" "q mod 16 < length rs"
  shows "get_records rs (pos_byte p q)
    = Some (sr_text (rs ! (p mod 16)) @ [comma] @ sr_text (rs ! (q mod 16)))"
  using assms by (simp add: get_records_def get_record_def pos_byte_parts rec_ok_copy list_all_length)

lemma get_record_append: "get_record rs i = Some r \<Longrightarrow> get_record (rs @ xs) i = Some r"
  by (auto simp: get_record_def nth_append split: if_splits)

lemma get_records_append:
  assumes "get_records rs i = Some k"
  shows "get_records (rs @ xs) i = Some k"
  using assms by (auto simp: get_records_def get_record_append split: option.splits)


text \<open>What adding an identifier to well-formed records does, whatever their number.\<close>

lemma add_record_ok:
  assumes rs: "recs_ok rs" and k: "k = a @ comma # b" "a \<noteq> []" "comma \<notin> set a" "0 \<notin> set a" "0 \<notin> set b"
    "length a < 256" "length b < 256"
  obtains xs p q where "add_record rs (Some k) = (rs @ xs, ((int p * 0x10) AND 0xf0) + (int q AND 0x0f))"
    "length xs \<le> 2" "recs_ok (rs @ xs)" "p < length (rs @ xs)" "q < length (rs @ xs)"
    "sr_text ((rs @ xs) ! p) = a" "sr_text ((rs @ xs) ! q) = b"
proof -
  obtain xs p where 1: "intern_part rs (Some a) = (rs @ xs, Some (int p))" "length xs \<le> 1"
    "recs_ok (rs @ xs)" "p < length (rs @ xs)" "sr_text ((rs @ xs) ! p) = a"
    using intern_part_ok [OF rs k(4,6)] by blast
  obtain ys q where 2: "intern_part (rs @ xs) (Some b) = ((rs @ xs) @ ys, Some (int q))" "length ys \<le> 1"
    "recs_ok ((rs @ xs) @ ys)" "q < length ((rs @ xs) @ ys)" "sr_text (((rs @ xs) @ ys) ! q) = b"
    using intern_part_ok [OF 1(3) k(5,7)] by blast
  have p: "sr_text ((rs @ xs @ ys) ! p) = a"
    using 1(4,5) nth_append_left [of p "rs @ xs" ys] by simp
  have "add_record rs (Some k) = (rs @ xs @ ys, ((int p * 0x10) AND 0xf0) + (int q AND 0x0f))"
    unfolding add_record_def k(1) option.case parts_split [OF k(2-5)] 1(1) prod.case 2(1) by simp
  then show thesis using that [of "xs @ ys" p q] 1 2 p by simp
qed

definition intern :: "str_records \<Rightarrow> bytes \<Rightarrow> str_records \<times> u8" where
  "intern rs k = (case add_record rs (Some k) of (rs', i) \<Rightarrow> (rs', of_int i))"

lemma intern_ok:
  assumes "recs_ok rs" "endpoint_ok k" "length rs + 2 \<le> 16"
  shows "recs_ok (fst (intern rs k))" "length (fst (intern rs k)) \<le> length rs + 2"
    "get_records (fst (intern rs k)) (snd (intern rs k)) = Some k"
    "get_records rs i = Some e \<Longrightarrow> get_records (fst (intern rs k)) i = Some e"
proof -
  obtain a b where k: "k = a @ comma # b" "a \<noteq> []" "comma \<notin> set a" "0 \<notin> set a" "0 \<notin> set b"
    "length a < 256" "length b < 256" using assms(2) unfolding endpoint_ok_def by blast
  obtain xs p q where r: "add_record rs (Some k) = (rs @ xs, ((int p * 0x10) AND 0xf0) + (int q AND 0x0f))"
    "length xs \<le> 2" "recs_ok (rs @ xs)" "p < length (rs @ xs)" "q < length (rs @ xs)"
    "sr_text ((rs @ xs) ! p) = a" "sr_text ((rs @ xs) ! q) = b"
    by (rule add_record_ok [OF assms(1) k])
  have i: "intern rs k = (rs @ xs, pos_byte p q)" by (simp add: intern_def r(1) pos_byte_def)
  have "length (rs @ xs) \<le> 16" using r(2) assms(3) by simp
  then have m: "p mod 16 = p" "q mod 16 = q" using r(4,5) by simp_all
  show "recs_ok (fst (intern rs k))" "length (fst (intern rs k)) \<le> length rs + 2"
    using i r(2,3) by simp_all
  have "get_records (rs @ xs) (pos_byte p q) = Some (a @ [comma] @ b)"
    using get_records_pos [OF r(3), of p q] r(4-7) by (simp only: m)
  then show "get_records (fst (intern rs k)) (snd (intern rs k)) = Some k"
    unfolding i fst_conv snd_conv by (simp add: k(1))
  show "get_records rs i = Some e \<Longrightarrow> get_records (fst (intern rs k)) i = Some e"
    by (simp add: i get_records_append)
qed

subsection \<open>The interface of an interning table\<close>

text \<open>
  What the code that fills a header relies on: an identifier that was added can be read back
  under its number, also after further additions, while there is room.
\<close>

fun add_all :: "('t \<Rightarrow> 'k \<Rightarrow> 't \<times> 'i) \<Rightarrow> 't \<Rightarrow> 'k list \<Rightarrow> 't \<times> 'i list" where
  "add_all add t [] = (t, [])"
| "add_all add t (k # ks) = (case add t k of (t1, i) \<Rightarrow> case add_all add t1 ks of (t2, js) \<Rightarrow> (t2, i # js))"

locale interning =
  fixes add :: "'t \<Rightarrow> 'k \<Rightarrow> 't \<times> 'i"
    and get :: "'t \<Rightarrow> 'i \<Rightarrow> 'k option"
    and table_ok :: "'t \<Rightarrow> bool"
    and key_ok :: "'k \<Rightarrow> bool"
    and used :: "'t \<Rightarrow> nat"
    and capacity :: nat
    and step :: nat
  assumes add_ok: "table_ok t \<Longrightarrow> key_ok k \<Longrightarrow> used t + step \<le> capacity \<Longrightarrow> table_ok (fst (add t k))"
    and add_used: "table_ok t \<Longrightarrow> key_ok k \<Longrightarrow> used t + step \<le> capacity \<Longrightarrow> used (fst (add t k)) \<le> used t + step"
    and add_get: "table_ok t \<Longrightarrow> key_ok k \<Longrightarrow> used t + step \<le> capacity \<Longrightarrow> get (fst (add t k)) (snd (add t k)) = Some k"
    and add_keeps: "table_ok t \<Longrightarrow> key_ok k \<Longrightarrow> used t + step \<le> capacity \<Longrightarrow> get t i = Some e \<Longrightarrow> get (fst (add t k)) i = Some e"
begin

lemma add_all_keeps:
  assumes "table_ok t" "list_all key_ok ks" "used t + step * length ks \<le> capacity"
  shows "table_ok (fst (add_all add t ks)) \<and> used (fst (add_all add t ks)) \<le> used t + step * length ks
    \<and> (\<forall>i e. get t i = Some e \<longrightarrow> get (fst (add_all add t ks)) i = Some e)"
  using assms
proof (induction ks arbitrary: t)
  case (Cons k ks)
  obtain t1 i where t1: "add t k = (t1, i)" by force
  have room: "used t + step \<le> capacity" using Cons.prems(3) by simp
  note one = add_ok [OF Cons.prems(1) _ room, of k] add_used [OF Cons.prems(1) _ room, of k]
    add_keeps [OF Cons.prems(1) _ room, of k]
  have "table_ok t1" "used t1 \<le> used t + step" using one Cons.prems(2) t1 by simp_all
  moreover have "used t1 + step * length ks \<le> capacity" using calculation Cons.prems(3) by simp
  ultimately show ?case
    using Cons.IH [of t1] one(3) Cons.prems(2) t1 by (fastforce split: prod.splits)
qed simp

lemma add_all_get:
  assumes "table_ok t" "list_all key_ok ks" "used t + step * length ks \<le> capacity"
  shows "list_all2 (\<lambda>i k. get (fst (add_all add t ks)) i = Some k) (snd (add_all add t ks)) ks"
  using assms
proof (induction ks arbitrary: t)
  case (Cons k ks)
  obtain t1 i where t1: "add t k = (t1, i)" by force
  obtain t2 js where t2: "add_all add t1 ks = (t2, js)" by force
  have room: "used t + step \<le> capacity" using Cons.prems(3) by simp
  have k: "key_ok k" "list_all key_ok ks" using Cons.prems(2) by simp_all
  have ok: "table_ok t1" "used t1 \<le> used t + step" "get t1 i = Some k"
    using add_ok [OF Cons.prems(1) k(1) room] add_used [OF Cons.prems(1) k(1) room]
      add_get [OF Cons.prems(1) k(1) room] t1 by simp_all
  then have r: "used t1 + step * length ks \<le> capacity" using Cons.prems(3) by simp
  have "get t2 i = Some k" using add_all_keeps [OF ok(1) k(2) r] ok(3) t2 by simp
  then show ?case using Cons.IH [OF ok(1) k(2) r] t1 t2 by simp
qed simp

end

interpretation sr: interning intern get_records recs_ok endpoint_ok length 16 2
  by unfold_locales (use intern_ok in auto)


lemma clone_from_ok: "recs_ok rs \<Longrightarrow> clone_from acc rs = Some (acc @ rs)"
  by (induction rs arbitrary: acc) (simp_all add: add_record_raw_def rec_ok_len, simp add: rec_ok_def)

lemma clone_records_ok: "recs_ok rs \<Longrightarrow> clone_records rs = Some rs"
  by (simp add: clone_records_def clone_from_ok)

subsection \<open>Properties\<close>

text \<open>
  \<^bold>\<open>C24\<close> The endpoint identifiers that are added to empty string records, up to eight of
  them (sixteen records), can all be read back under the bytes that \<^verbatim>\<open>addRecord\<close>
  returned for them: no addition disturbs an earlier one.
\<close>

theorem endpoints_resolve:
  assumes "list_all endpoint_ok ks" "length ks \<le> 8"
  shows "list_all2 (\<lambda>i k. get_records (fst (add_all intern [] ks)) i = Some k) (snd (add_all intern [] ks)) ks"
  by (rule sr.add_all_get) (use assms in simp_all)

theorem endpoints_resolve_witness:
  "list_all2 (\<lambda>i k. get_records (fst (add_all intern [] [[1, comma, 2], [3, comma, 2]])) i = Some k)
    (snd (add_all intern [] [[1, comma, 2], [3, comma, 2]])) [[1, comma, 2], [3, comma, 2]]"
proof (rule endpoints_resolve)
  have "endpoint_ok ([1] @ comma # [2])" "endpoint_ok ([3] @ comma # [2])"
    by (rule endpoint_okI; simp add: comma_def)+
  then show "list_all endpoint_ok [[1, comma, 2], [3, comma, 2]]" by simp
qed simp

text \<open>
  With sixteen records in the list the four-bit positions are used up, and nothing
  checks it: a new identifier is accepted, and the byte that is returned for it names the first
  two records instead.
\<close>

theorem endpoint_wraps:
  assumes "recs_ok rs" "length rs = 16"
    and "a \<noteq> []" "comma \<notin> set a" "0 \<notin> set a" "0 \<notin> set b" "length a < 256" "length b < 256"
    and "a \<notin> sr_text ` set rs" "b \<notin> sr_text ` set rs" "a \<noteq> b"
  shows "\<exists>rs' i. add_record rs (Some (a @ comma # b)) = (rs', i) \<and> 0 \<le> i
    \<and> get_records rs' (of_int i) = Some (sr_text (rs ! 0) @ comma # sr_text (rs ! 1))"
proof -
  let ?r = "\<lambda>t. \<lparr>sr_len = of_nat (length t), sr_text = t\<rparr>"
  have ok1: "recs_ok (rs @ [?r a])" using assms(1,5,7) by (simp add: rec_ok_new)
  have ok: "recs_ok (rs @ [?r a, ?r b])" using ok1 assms(6,8) by (simp add: rec_ok_new)
  have "lookup rs (Some a) = -1" by (rule lookup_absent) (use assms in auto)
  then have 1: "intern_part rs (Some a) = (rs @ [?r a], Some 16)"
    using assms(2,5) by (simp add: intern_part_def)
  have "lookup (rs @ [?r a]) (Some b) = -1" by (rule lookup_absent [OF ok1]) (use assms in auto)
  then have 2: "intern_part (rs @ [?r a]) (Some b) = (rs @ [?r a, ?r b], Some 17)"
    using assms(2,6) by (simp add: intern_part_def)
  have add: "add_record rs (Some (a @ comma # b)) = (rs @ [?r a, ?r b], ((16 * 0x10) AND 0xf0) + (17 AND 0x0f))"
    unfolding add_record_def option.case parts_split [OF assms(3-6)] 1 prod.case 2 ..
  have i: "((16 * 0x10) AND 0xf0) + (17 AND 0x0f) = (1 :: int)" by simp
  have pb: "(of_int 1 :: u8) = pos_byte 16 17" by (simp add: pos_byte_def)
  have "get_records (rs @ [?r a, ?r b]) (of_int 1) = Some (sr_text (rs ! 0) @ comma # sr_text (rs ! 1))"
    unfolding pb using get_records_pos [OF ok, of 16 17] assms(2) by (simp add: nth_append)
  then show ?thesis using add i by auto
qed

definition full_records :: str_records where
  "full_records = map (\<lambda>i. \<lparr>sr_len = 1, sr_text = [of_nat i]\<rparr>) [1..<17]"

theorem endpoint_wraps_witness:
  "\<exists>rs' i. add_record full_records (Some ([100] @ comma # [101])) = (rs', i) \<and> 0 \<le> i
    \<and> get_records rs' (of_int i) = Some (sr_text (full_records ! 0) @ comma # sr_text (full_records ! 1))"
proof (rule endpoint_wraps)
  show "recs_ok full_records" "[100] \<notin> sr_text ` set full_records" "[101] \<notin> sr_text ` set full_records"
    by code_simp+
qed (simp_all add: full_records_def comma_def)

end
