(* ===== verification/Dtn_Bundle.thy ===== *)
theory Dtn_Bundle
  imports Complex_Main Str_Records
begin

text \<open>
  The bundle of the DTN agent and its wire format (\<^verbatim>\<open>dtn/bundle.cc\<close>,
  \<^verbatim>\<open>dtn/headers.h\<close>, \<^verbatim>\<open>dtn/headers.cc\<close>): the chain of headers, its size,
  its copy into the data of a packet and the reading of a received packet.

  The chain is the dictionary header followed by the list of the other headers, in the order of
  their \<open>next_hdr_p\<close> pointers.  The type of the header behind such a pointer is not
  stored in it: the code takes it from the \<open>next_hdr\<close> byte of the header before and casts
  the pointer accordingly.  A cast to a type that the header does not have, and the
  \<^verbatim>\<open>abort\<close> on an unknown type, are the outcome \<^const>\<open>None\<close>.  A byte
  pointer is \<^const>\<open>None\<close> for null and the list of the array's bytes otherwise.

  The byte count of a traversal is a 32-bit \<^verbatim>\<open>int\<close>; it is compared as the
  operands' types demand, as a signed number where only \<^verbatim>\<open>int\<close> and \<^verbatim>\<open>u_int8_t\<close>
  take part and as an unsigned one where a \<^verbatim>\<open>u_int32_t\<close> or \<^verbatim>\<open>sizeof\<close> does.
\<close>

subsection \<open>Integers in a buffer\<close>

text \<open>\<^verbatim>\<open>memcpy\<close> of an integer: its bytes, the least significant first.\<close>

primrec le_bytes :: "nat \<Rightarrow> 'a::len word \<Rightarrow> bytes" where
  "le_bytes 0 w = []"
| "le_bytes (Suc k) w = ucast w # le_bytes k (drop_bit 8 w)"

primrec of_le_bytes :: "bytes \<Rightarrow> 'a::len word" where
  "of_le_bytes [] = 0"
| "of_le_bytes (b # bs) = ucast b OR push_bit 8 (of_le_bytes bs)"

abbreviation u32_bytes :: "u32 \<Rightarrow> bytes" where
  "u32_bytes w \<equiv> le_bytes 4 w"

lemma length_le_bytes [simp]: "length (le_bytes k w) = k"
  by (induction k arbitrary: w) simp_all

lemma of_le_bytes_take: "of_le_bytes (le_bytes k w) = take_bit (8 * k) w"
proof (induction k arbitrary: w)
  case (Suc k)
  have "of_le_bytes (le_bytes (Suc k) w) = ucast (ucast w :: u8) OR push_bit 8 (take_bit (8 * k) (drop_bit 8 w))"
    by (simp add: Suc)
  also have "\<dots> = take_bit (8 * Suc k) w"
    by (rule bit_word_eqI) (auto simp: bit_simps not_less)
  finally show ?case .
qed simp

lemma of_le_bytes_le_bytes [simp]: "of_le_bytes (le_bytes 4 w) = (w :: u32)"
  by (simp add: of_le_bytes_take take_bit_word_eq_self)

lemma of_le_bytes_le_bytes64 [simp]: "of_le_bytes (le_bytes 8 w) = (w :: u64)"
  by (simp add: of_le_bytes_take take_bit_word_eq_self)

text \<open>\<^verbatim>\<open>memcpy\<close> from a byte pointer.\<close>

definition c_read :: "bytes option \<Rightarrow> nat \<Rightarrow> bytes exec" where
  "c_read p n = (if n = 0 then Some [] else case p of
     None \<Rightarrow> None
   | Some a \<Rightarrow> if n \<le> length a then Some (take n a) else None)"

subsection \<open>Headers\<close>

definition BDL_NONE :: u8 where "BDL_NONE = 0x00"
definition BDL_PRIM :: u8 where "BDL_PRIM = 0x01"
definition BDL_DICT :: u8 where "BDL_DICT = 0x02"
definition BDL_PYLD :: u8 where "BDL_PYLD = 0x05"
definition BDL_AUTH :: u8 where "BDL_AUTH = 0x07"
definition BDL_PSEC :: u8 where "BDL_PSEC = 0x08"
definition BDL_FRAG :: u8 where "BDL_FRAG = 0x09"

lemmas bdl_types = BDL_NONE_def BDL_PRIM_def BDL_DICT_def BDL_PYLD_def BDL_AUTH_def BDL_PSEC_def
  BDL_FRAG_def

lemma bdl_types_distinct [simp]:
  "BDL_FRAG \<noteq> BDL_PYLD" "BDL_AUTH \<noteq> BDL_PYLD" "BDL_PSEC \<noteq> BDL_PYLD" "BDL_PYLD \<noteq> BDL_FRAG"
  "BDL_AUTH \<noteq> BDL_FRAG" "BDL_PSEC \<noteq> BDL_FRAG" "BDL_NONE \<noteq> BDL_PYLD" "BDL_NONE \<noteq> BDL_FRAG"
  by (simp_all add: bdl_types)

record hdr_bdlprim =
  p_version :: u8
  p_next_hdr :: u8
  p_cos :: u8
  p_pld_sec :: u8
  p_dest :: u8
  p_src :: u8
  p_rpt_to :: u8
  p_cust :: u8
  p_timestamp :: u64
  p_exp_time :: real
  p_elapsed_time :: real
  p_me :: c_int
  p_region :: bytes
  p_hopcount :: u8
  p_u_id :: c_int
  p_conversation :: c_int
  p_source_rule :: u8
  p_send_type :: u8

record hdr_bdldict =
  d_next_hdr :: u8
  d_strcount :: int
  d_record :: str_records

text \<open>The headers behind the dictionary, with their \<open>next_hdr\<close> byte first where they
  have one: \<open>Frag next_hdr tot_len offset\<close>, \<open>Auth next_hdr len info\<close>,
  \<open>Psec next_hdr len info\<close> and \<open>Pyld pldclass len payload\<close>.\<close>

datatype hdr =
    Frag u8 u32 u32
  | Auth u8 u8 "bytes option"
  | Psec u8 u8 "bytes option"
  | Pyld u8 u32 "bytes option"

fun hdr_type :: "hdr \<Rightarrow> u8" where
  "hdr_type (Frag _ _ _) = BDL_FRAG"
| "hdr_type (Auth _ _ _) = BDL_AUTH"
| "hdr_type (Psec _ _ _) = BDL_PSEC"
| "hdr_type (Pyld _ _ _) = BDL_PYLD"

fun hdr_next :: "hdr \<Rightarrow> u8" where
  "hdr_next (Frag nx _ _) = nx"
| "hdr_next (Auth nx _ _) = nx"
| "hdr_next (Psec nx _ _) = nx"
| "hdr_next (Pyld _ _ _) = BDL_NONE"

text \<open>The constructors of the header classes.\<close>

definition new_frag :: hdr where "new_frag = Frag 0 0 0"
definition new_auth :: hdr where "new_auth = Auth 0 0 None"
definition new_psec :: hdr where "new_psec = Psec 0 0 None"
definition new_pyld :: hdr where "new_pyld = Pyld 0 0 None"

text \<open>The bundle without its links, which the queues of bundles stand for.\<close>

record bdl_report =
  r_type :: c_int
  r_flags :: u8
  r_reason :: u8
  r_frag_off :: u32
  r_frag_len :: u32
  r_timestamp :: u64
  r_tos :: u64
  r_tor :: u64
  r_tof :: u64
  r_todeliv :: u64
  r_todelet :: u64
  r_reg_len :: u8
  r_reg_id :: "bytes option"
  r_adm_len :: u8
  r_adm_id :: "bytes option"
  r_dest :: "bytes option"

record bdl =
  b_prim :: hdr_bdlprim
  b_dict :: "hdr_bdldict option"
  b_hdrs :: "hdr list"
  b_report :: "bdl_report option"
  b_custreport :: "bdl_report option"
  b_prevhop :: c_int
  b_transtime :: real
  b_recvtime :: real
  b_fid :: c_int

text \<open>\<^verbatim>\<open>clone\<close> of the headers: the primary header copies fifteen of its fields; the
  other three keep the zeros of the value initialisation.\<close>

definition clone_prim :: "hdr_bdlprim \<Rightarrow> hdr_bdlprim" where
  "clone_prim h = \<lparr>p_version = p_version h, p_next_hdr = p_next_hdr h, p_cos = p_cos h,
     p_pld_sec = p_pld_sec h, p_dest = p_dest h, p_src = p_src h, p_rpt_to = p_rpt_to h,
     p_cust = p_cust h, p_timestamp = p_timestamp h, p_exp_time = p_exp_time h,
     p_elapsed_time = p_elapsed_time h, p_me = p_me h, p_region = cstr (p_region h),
     p_hopcount = p_hopcount h, p_u_id = p_u_id h, p_conversation = 0, p_source_rule = 0,
     p_send_type = 0\<rparr>"

definition clone_dict :: "hdr_bdldict \<Rightarrow> hdr_bdldict exec" where
  "clone_dict h = do { rs \<leftarrow> clone_records (d_record h); Some (h\<lparr>d_record := rs\<rparr>) }"

fun clone_hdr :: "hdr \<Rightarrow> hdr exec" where
  "clone_hdr (Frag nx tot off) = Some (Frag nx tot off)"
| "clone_hdr (Auth nx len info) = do { i \<leftarrow> c_read info (unat len); Some (Auth nx len (Some i)) }"
| "clone_hdr (Psec nx len info) = do { i \<leftarrow> c_read info (unat len); Some (Psec nx len (Some i)) }"
| "clone_hdr (Pyld c len p) = do { d \<leftarrow> c_read p (unat len); Some (Pyld c len (Some d)) }"

subsection \<open>The size of the headers: \<^verbatim>\<open>getDataSize\<close>\<close>

primrec recs_size :: "nat \<Rightarrow> int \<Rightarrow> str_records \<Rightarrow> c_int \<Rightarrow> c_int exec" where
  "recs_size 0 count rs bcount = Some bcount"
| "recs_size (Suc n) count rs bcount =
     do { r \<leftarrow> get_record rs count;
          recs_size n (count + 1) rs (bcount + (1 + ucast (sr_len r))) }"

text \<open>What a header behind the dictionary adds, for the three choices of \<open>frag\<close>.\<close>

fun hdr_size :: "int \<Rightarrow> hdr \<Rightarrow> c_int" where
  "hdr_size frag (Frag _ _ _) = (if frag = 0 then 1 + 2 * 4 else 0)"
| "hdr_size frag (Auth _ len _) = (if frag = 0 \<or> frag = 1 then 2 + ucast len else 0)"
| "hdr_size frag (Psec _ len _) = (if frag = 0 \<or> frag = 1 then 2 + ucast len else 0)"
| "hdr_size frag (Pyld _ len _) = (if frag = 0 then 1 + 4 + len else if frag = 1 then 1 + 4
                                   else if frag = 2 then len else 0)"

fun hdrs_size :: "int \<Rightarrow> u8 \<Rightarrow> hdr list \<Rightarrow> c_int \<Rightarrow> c_int exec" where
  "hdrs_size frag curhdr [] bcount = Some bcount"
| "hdrs_size frag curhdr (h # hs) bcount =
     (if curhdr \<noteq> hdr_type h then None
      else if hdr_type h = BDL_PYLD then Some (bcount + hdr_size frag h)
      else hdrs_size frag (hdr_next h) hs (bcount + hdr_size frag h))"

definition get_data_size :: "bdl \<Rightarrow> int \<Rightarrow> c_int exec" where
  "get_data_size b frag = (case b_dict b of
     None \<Rightarrow> Some 0
   | Some d \<Rightarrow> do { bcount \<leftarrow> (if frag = 0 \<or> frag = 1
                               then recs_size (nat (d_strcount d)) 0 (d_record d) 2 else Some 0);
                   hdrs_size frag (d_next_hdr d) (b_hdrs b) bcount })"

subsection \<open>Into the packet: \<^verbatim>\<open>extractData\<close>\<close>

text \<open>
  The buffer is what has been written to it so far; \<open>bcount\<close> is the length of that.  A
  stage returns the buffer and whether it went through; a stage that does not leads to the
  return value -1.
\<close>

abbreviation bcnt :: "bytes \<Rightarrow> c_int" where
  "bcnt out \<equiv> of_nat (length out)"

primrec extract_recs :: "c_int \<Rightarrow> nat \<Rightarrow> int \<Rightarrow> str_records \<Rightarrow> bytes \<Rightarrow> (bytes \<times> bool) exec" where
  "extract_recs buflen 0 count rs out = Some (out, True)"
| "extract_recs buflen (Suc n) count rs out =
     do { r \<leftarrow> get_record rs count;
          if buflen <s bcnt out + ucast (sr_len r) + 1 then Some (out, False)
          else do { t \<leftarrow> c_read (Some (sr_text r @ [0])) (unat (sr_len r));
                    extract_recs buflen n (count + 1) rs (out @ sr_len r # t) } }"

fun extract_hdr :: "c_int \<Rightarrow> hdr \<Rightarrow> bytes \<Rightarrow> (bytes \<times> bool) exec" where
  "extract_hdr buflen (Frag nx tot off) out =
     (if buflen < bcnt out + 1 + 2 * 4 then Some (out, False)
      else Some (out @ [nx] @ u32_bytes tot @ u32_bytes off, True))"
| "extract_hdr buflen (Auth nx len info) out =
     (if buflen <s bcnt out + 2 + ucast len then Some (out, False)
      else do { i \<leftarrow> c_read info (unat len); Some (out @ [nx, len] @ i, True) })"
| "extract_hdr buflen (Psec nx len info) out =
     (if buflen <s bcnt out + 2 + ucast len then Some (out, False)
      else do { i \<leftarrow> c_read info (unat len); Some (out @ [nx, len] @ i, True) })"
| "extract_hdr buflen (Pyld c len p) out =
     (if buflen < bcnt out + 5 + len then Some (out, False)
      else do { d \<leftarrow> c_read p (unat len); Some (out @ [c] @ u32_bytes len @ d, True) })"

fun extract_hdrs :: "c_int \<Rightarrow> u8 \<Rightarrow> hdr list \<Rightarrow> bytes \<Rightarrow> (bytes \<times> bool) exec" where
  "extract_hdrs buflen curhdr [] out = Some (out, True)"
| "extract_hdrs buflen curhdr (h # hs) out =
     (if curhdr \<noteq> hdr_type h then None
      else do { (out1, ok) \<leftarrow> extract_hdr buflen h out;
                if \<not> ok then Some (out1, False)
                else if hdr_type h = BDL_PYLD then Some (out1, True)
                else extract_hdrs buflen (hdr_next h) hs out1 })"

text \<open>The result is what is in the buffer and the return value; the buffer is never null here.\<close>

definition extract_data :: "bdl \<Rightarrow> c_int \<Rightarrow> (bytes \<times> c_int) exec" where
  "extract_data b buflen = (case b_dict b of
     None \<Rightarrow> Some ([], -1)
   | Some d \<Rightarrow>
       if buflen <s 2 then Some ([], -1)
       else do {
         (out1, ok1) \<leftarrow> extract_recs buflen (nat (d_strcount d)) 0 (d_record d)
                                    [d_next_hdr d, of_int (d_strcount d)];
         if \<not> ok1 then Some (out1, -1)
         else do {
           (out2, ok2) \<leftarrow> extract_hdrs buflen (d_next_hdr d) (b_hdrs b) out1;
           Some (out2, if ok2 then bcnt out2 else -1) } })"

subsection \<open>From the packet: \<^verbatim>\<open>retrieveData\<close>\<close>

text \<open>
  The received bytes are \<open>n\<close> read ones and the \<open>rest\<close>; \<open>bcount\<close> is
  \<open>n\<close>.  The string records are read without a look at the length of the buffer: a read
  behind its end is the outcome \<^const>\<open>None\<close>.  The other headers are first linked, with
  the values of their constructors, and then filled, so that a message that is too short leaves
  an incomplete header at the end of the chain.  The pointers of new authentication and security
  headers are null when \<^verbatim>\<open>memcpy\<close> writes through them.
\<close>

fun retrieve_recs :: "nat \<Rightarrow> bytes \<Rightarrow> str_records \<Rightarrow> (str_records \<times> bytes) exec" where
  "retrieve_recs 0 rest rs = Some (rs, rest)"
| "retrieve_recs (Suc n) [] rs = None"
| "retrieve_recs (Suc n) (len # rest) rs =
     do { (rs1, _) \<leftarrow> add_record_raw rs (Some rest) (unat len);
          retrieve_recs n (drop (unat len) rest) rs1 }"

lemma retrieve_recs_shorter:
  "retrieve_recs n rest rs = Some (rs', rest') \<Longrightarrow> length rest' \<le> length rest"
proof (induction n rest rs rule: retrieve_recs.induct)
  case (3 n len rest rs)
  then obtain rs1 z where "add_record_raw rs (Some rest) (unat len) = Some (rs1, z)"
    "retrieve_recs n (drop (unat len) rest) rs1 = Some (rs', rest')"
    by (auto simp: bind_eq_Some_conv)
  then have "length rest' \<le> length (drop (unat len) rest)" using "3.IH" by auto
  then show ?case by simp
qed simp_all

text \<open>A write through the null pointer of a new header: harmless only when nothing is copied.\<close>

definition c_write_null :: "nat \<Rightarrow> unit exec" where
  "c_write_null n = (if n = 0 then Some () else None)"

datatype retrieved = More u8 hdr nat bytes | Short hdr | Last hdr nat

text \<open>One header behind the dictionary: the next type, the header and what is left, or the
  incomplete header, or the payload, which is the last.\<close>

definition retrieve_frag :: "c_int \<Rightarrow> nat \<Rightarrow> bytes \<Rightarrow> retrieved exec" where
  "retrieve_frag buflen n rest =
     (if buflen < of_nat n + 1 + 2 * 4 then Some (Short new_frag)
      else case rest of
        nx # r1 \<Rightarrow>
          do { tot \<leftarrow> c_read (Some r1) 4;
               off \<leftarrow> c_read (Some (drop 4 r1)) 4;
               Some (More nx (Frag nx (of_le_bytes tot) (of_le_bytes off)) (n + 9) (drop 8 r1)) }
      | [] \<Rightarrow> None)"

definition retrieve_sec :: "(u8 \<Rightarrow> u8 \<Rightarrow> bytes option \<Rightarrow> hdr) \<Rightarrow> c_int \<Rightarrow> nat \<Rightarrow> bytes \<Rightarrow> retrieved exec" where
  "retrieve_sec mk buflen n rest =
     (if buflen <s of_nat n + 2 then Some (Short (mk 0 0 None))
      else case rest of
        nx # len # r1 \<Rightarrow>
          if buflen <s of_nat (n + 2) + ucast len then Some (Short (mk nx len None))
          else do { _ \<leftarrow> c_write_null (unat len);
                    Some (More nx (mk nx len None) (n + 2) r1) }
      | _ \<Rightarrow> None)"

definition retrieve_pyld :: "c_int \<Rightarrow> nat \<Rightarrow> bytes \<Rightarrow> retrieved exec" where
  "retrieve_pyld buflen n rest =
     (if buflen <s of_nat n + 5 then Some (Short new_pyld)
      else case rest of
        c # r1 \<Rightarrow>
          do { lenb \<leftarrow> c_read (Some r1) 4;
               let len = of_le_bytes lenb;
               if buflen < of_nat (n + 5) + len then Some (Short (Pyld c len None))
               else do { d \<leftarrow> c_read (Some (drop 4 r1)) (unat len);
                         Some (Last (Pyld c len (Some d)) (n + 5 + unat len)) } }
      | [] \<Rightarrow> None)"

definition retrieve_hdr :: "c_int \<Rightarrow> u8 \<Rightarrow> nat \<Rightarrow> bytes \<Rightarrow> retrieved exec" where
  "retrieve_hdr buflen curhdr n rest =
     (if curhdr = BDL_PYLD then retrieve_pyld buflen n rest
      else if curhdr = BDL_AUTH then retrieve_sec Auth buflen n rest
      else if curhdr = BDL_PSEC then retrieve_sec Psec buflen n rest
      else if curhdr = BDL_FRAG then retrieve_frag buflen n rest
      else None)"

lemma retrieve_hdr_shorter:
  "retrieve_hdr buflen curhdr n rest = Some (More nx h n' rest') \<Longrightarrow> length rest' < length rest"
  by (auto simp: retrieve_hdr_def retrieve_pyld_def retrieve_sec_def retrieve_frag_def
      bind_eq_Some_conv Let_def split: if_splits list.splits)

text \<open>The headers behind the dictionary; a type byte of \<^const>\<open>BDL_DICT\<close> there casts the
  current header to a dictionary.\<close>

function retrieve_hdrs :: "c_int \<Rightarrow> u8 \<Rightarrow> nat \<Rightarrow> bytes \<Rightarrow> hdr list \<Rightarrow> (hdr list \<times> c_int) exec" where
  "retrieve_hdrs buflen curhdr n rest hs =
     (if curhdr = BDL_NONE then Some (hs, of_nat n)
      else case retrieve_hdr buflen curhdr n rest of
        None \<Rightarrow> None
      | Some (Short h) \<Rightarrow> Some (hs @ [h], -1)
      | Some (Last h n') \<Rightarrow> Some (hs @ [h], of_nat n')
      | Some (More nx h n' rest') \<Rightarrow> retrieve_hdrs buflen nx n' rest' (hs @ [h]))"
  by pat_completeness auto
termination
  by (relation "measure (\<lambda>(_, _, _, rest, _). length rest)") (auto dest: retrieve_hdr_shorter)

declare retrieve_hdrs.simps [simp del]

text \<open>The dictionary, which is read again when its own type byte is \<^const>\<open>BDL_DICT\<close>.\<close>

function retrieve_dict :: "c_int \<Rightarrow> nat \<Rightarrow> bytes \<Rightarrow> hdr_bdldict \<Rightarrow> (hdr_bdldict \<times> hdr list \<times> c_int) exec" where
  "retrieve_dict buflen n rest d =
     (if buflen <s of_nat n + 2 then Some (d, [], -1)
      else case rest of
        nx # cnt # r1 \<Rightarrow>
          (case retrieve_recs (unat cnt) r1 [] of
             None \<Rightarrow> None
           | Some (rs, rest') \<Rightarrow>
               let d' = \<lparr>d_next_hdr = nx, d_strcount = int (unat cnt), d_record = rs\<rparr>;
                   n' = n + 2 + (length r1 - length rest')
               in if nx = BDL_DICT then retrieve_dict buflen n' rest' d'
                  else do { (hs, r) \<leftarrow> retrieve_hdrs buflen nx n' rest' [];
                            Some (d', hs, r) })
      | _ \<Rightarrow> None)"
  by pat_completeness auto
termination
  by (relation "measure (\<lambda>(_, _, rest, _). length rest)") (auto dest!: retrieve_recs_shorter)

declare retrieve_dict.simps [simp del]

definition retrieve_data :: "bdl \<Rightarrow> bytes \<Rightarrow> c_int \<Rightarrow> (bdl \<times> c_int) exec" where
  "retrieve_data b buf buflen = (case b_dict b of
     None \<Rightarrow> Some (b, -1)
   | Some d \<Rightarrow> do { (d', hs, r) \<leftarrow> retrieve_dict buflen 0 buf d;
                   Some (b\<lparr>b_dict := Some d', b_hdrs := hs\<rparr>, r) })"

subsection \<open>Well-formed bundles and their wire format\<close>

definition rec_fits :: "str_rec \<Rightarrow> bool" where
  "rec_fits r \<longleftrightarrow> length (sr_text r) = unat (sr_len r)"

definition bytes_of :: "bytes option \<Rightarrow> nat \<Rightarrow> bytes" where
  "bytes_of p n = (case p of None \<Rightarrow> [] | Some a \<Rightarrow> take n a)"

fun hdr_ok :: "hdr \<Rightarrow> bool" where
  "hdr_ok (Frag _ _ _) \<longleftrightarrow> True"
| "hdr_ok (Auth _ len info) \<longleftrightarrow> c_read info (unat len) \<noteq> None"
| "hdr_ok (Psec _ len info) \<longleftrightarrow> c_read info (unat len) \<noteq> None"
| "hdr_ok (Pyld _ len p) \<longleftrightarrow> c_read p (unat len) \<noteq> None"

text \<open>Every type byte announces the header that follows, and every length is backed by an
  array.\<close>

fun chain_ok :: "u8 \<Rightarrow> hdr list \<Rightarrow> bool" where
  "chain_ok nx [] \<longleftrightarrow> nx = BDL_NONE"
| "chain_ok nx (h # hs) \<longleftrightarrow> nx = hdr_type h \<and> hdr_ok h \<and> chain_ok (hdr_next h) hs"

definition dict_ok :: "hdr_bdldict \<Rightarrow> bool" where
  "dict_ok d \<longleftrightarrow> d_strcount d = int (length (d_record d)) \<and> list_all rec_fits (d_record d)"

definition bdl_ok :: "bdl \<Rightarrow> bool" where
  "bdl_ok b \<longleftrightarrow> (\<exists>d. b_dict b = Some d \<and> dict_ok d \<and> chain_ok (d_next_hdr d) (b_hdrs b))"

definition rec_wire :: "str_rec \<Rightarrow> bytes" where
  "rec_wire r = sr_len r # sr_text r"

fun hdr_wire :: "hdr \<Rightarrow> bytes" where
  "hdr_wire (Frag nx tot off) = nx # u32_bytes tot @ u32_bytes off"
| "hdr_wire (Auth nx len info) = nx # len # bytes_of info (unat len)"
| "hdr_wire (Psec nx len info) = nx # len # bytes_of info (unat len)"
| "hdr_wire (Pyld c len p) = c # u32_bytes len @ bytes_of p (unat len)"

definition dict_wire :: "hdr_bdldict \<Rightarrow> bytes" where
  "dict_wire d = d_next_hdr d # of_int (d_strcount d) # concat (map rec_wire (d_record d))"

definition wire :: "bdl \<Rightarrow> bytes" where
  "wire b = (case b_dict b of None \<Rightarrow> [] | Some d \<Rightarrow> dict_wire d @ concat (map hdr_wire (b_hdrs b)))"

lemma c_read_bytes_of: "c_read p n \<noteq> None \<Longrightarrow> c_read p n = Some (bytes_of p n) \<and> length (bytes_of p n) = n"
  by (auto simp: c_read_def bytes_of_def split: option.splits if_splits)

lemma c_read_self [simp]: "n \<le> length a \<Longrightarrow> c_read (Some a) n = Some (take n a)"
  by (simp add: c_read_def)

lemma hdr_type_not [simp]: "hdr_type h \<noteq> BDL_NONE" "BDL_NONE \<noteq> hdr_type h" "hdr_type h \<noteq> BDL_DICT"
  by (cases h; simp add: bdl_types)+

lemma hdr_type_pyld: "hdr_type h = BDL_PYLD \<longleftrightarrow> (\<exists>c len p. h = Pyld c len p)"
  by (cases h) (simp_all add: bdl_types)

lemma chain_ok_none [simp]: "chain_ok BDL_NONE hs \<longleftrightarrow> hs = []"
  by (cases hs) simp_all

lemma chain_ok_pyld: "hdr_type h = BDL_PYLD \<Longrightarrow> chain_ok nx (h # hs) \<Longrightarrow> hs = []"
  by (cases hs) (auto simp: hdr_type_pyld)

text \<open>Comparisons of counts below \<open>2 ^ 31\<close>, signed or not, are those of the numbers.\<close>

lemma sless_nat:
  fixes x y :: c_int
  assumes "unat x < 2 ^ 31" "unat y < 2 ^ 31"
  shows "x <s y \<longleftrightarrow> unat x < unat y"
proof -
  have eq: "sint z = int (unat z)" if "unat z < 2 ^ 31" for z :: c_int
  proof -
    have "int (unat z) < int (2 ^ 31)" using that by (simp only: of_nat_less_iff)
    then have "uint z < 2 ^ 31" by simp
    moreover have "- (2 ^ 31) \<le> uint z" by (rule order_trans [of _ 0]) simp_all
    ultimately have "signed_take_bit 31 (uint z) = uint z" by (rule signed_take_bit_int_eq_self [rotated])
    then show ?thesis by (simp add: sint_uint)
  qed
  show ?thesis unfolding word_sless_alt eq [OF assms(1)] eq [OF assms(2)] by (rule of_nat_less_iff)
qed

lemma unat_of_nat_small: "n < 2 ^ 32 \<Longrightarrow> unat (of_nat n :: c_int) = n"
  by (simp add: unat_of_nat)

lemma ucast8_of_nat: "(ucast (x :: u8) :: c_int) = of_nat (unat x)"
  by simp

lemma sless_count:
  assumes "n < 2 ^ 31" "unat buflen < 2 ^ 31"
  shows "buflen <s (of_nat n :: c_int) \<longleftrightarrow> unat buflen < n" "buflen < (of_nat n :: c_int) \<longleftrightarrow> unat buflen < n"
proof -
  have u: "unat (of_nat n :: c_int) = n" by (rule unat_of_nat_small) (use assms in simp)
  show "buflen <s (of_nat n :: c_int) \<longleftrightarrow> unat buflen < n"
    by (subst sless_nat) (use assms u in simp_all)
  show "buflen < (of_nat n :: c_int) \<longleftrightarrow> unat buflen < n" by (simp add: word_less_nat_alt u)
qed

subsection \<open>What is extracted\<close>

lemma length_bytes_of: "c_read p n = Some y \<Longrightarrow> length (bytes_of p n) = n"
  using c_read_bytes_of [of p n] by simp

lemma length_rec_wire: "rec_fits r \<Longrightarrow> length (rec_wire r) = 1 + unat (sr_len r)"
  by (simp add: rec_wire_def rec_fits_def)

lemma length_hdr_wire: "hdr_ok h \<Longrightarrow> hdr_size 0 h = of_nat (length (hdr_wire h))"
  by (cases h) (auto simp: length_bytes_of)

lemma recs_size_ok:
  assumes "k + n = length rs" "list_all rec_fits rs"
  shows "recs_size n (int k) rs bc = Some (bc + of_nat (length (concat (map rec_wire (drop k rs)))))"
  using assms
proof (induction n arbitrary: k bc)
  case (Suc n)
  have k: "k < length rs" using Suc.prems by simp
  have fit: "length (rec_wire (rs ! k)) = 1 + unat (sr_len (rs ! k))"
    using Suc.prems(2) k by (simp add: list_all_length length_rec_wire)
  have IH: "recs_size n (int k + 1) rs bc = Some (bc + of_nat (length (concat (map rec_wire (drop (Suc k) rs)))))" for bc
    using Suc.IH [of "Suc k"] Suc.prems by (simp add: add.commute)
  show ?case
    using k by (simp add: get_record_def IH Cons_nth_drop_Suc [OF k, symmetric] fit)
qed simp

lemma hdrs_size_ok:
  "chain_ok nx hs \<Longrightarrow> hdrs_size 0 nx hs bc = Some (bc + of_nat (length (concat (map hdr_wire hs))))"
proof (induction hs arbitrary: nx bc)
  case (Cons h hs)
  then show ?case
    using chain_ok_pyld [of h nx hs] by (auto simp: length_hdr_wire)
qed simp

lemma get_data_size_ok:
  assumes "bdl_ok b"
  shows "get_data_size b 0 = Some (of_nat (length (wire b)))"
proof -
  obtain d where d: "b_dict b = Some d" "dict_ok d" "chain_ok (d_next_hdr d) (b_hdrs b)"
    using assms by (auto simp: bdl_ok_def)
  have "recs_size (length (d_record d)) 0 (d_record d) 2
      = Some (2 + of_nat (length (concat (map rec_wire (d_record d)))))"
    using recs_size_ok [of 0 "length (d_record d)" "d_record d" 2] d(2) by (simp add: dict_ok_def)
  then show ?thesis
    using d hdrs_size_ok [OF d(3)] by (simp add: get_data_size_def wire_def dict_wire_def dict_ok_def)
qed

text \<open>A stage that copies \<open>w\<close> when there is room for all of it, and otherwise fails
  within the buffer.\<close>

definition fills :: "c_int \<Rightarrow> bytes \<Rightarrow> bytes \<Rightarrow> (bytes \<times> bool) exec \<Rightarrow> bool" where
  "fills buflen out w r \<longleftrightarrow> (if length out + length w \<le> unat buflen then r = Some (out @ w, True)
     else \<exists>out'. length out' \<le> unat buflen \<and> r = Some (out', False))"

lemma fills_append: "fills buflen (out @ v) w r \<Longrightarrow> fills buflen out (v @ w) r"
  by (simp add: fills_def add.assoc)

lemma extract_recs_ok:
  assumes "k + n = length rs" "list_all rec_fits rs" "unat buflen < 2 ^ 31"
    "length out + length (concat (map rec_wire (drop k rs))) < 2 ^ 31" "length out \<le> unat buflen"
  shows "fills buflen out (concat (map rec_wire (drop k rs))) (extract_recs buflen n (int k) rs out)"
  using assms
proof (induction n arbitrary: k out)
  case (Suc n)
  have k: "k < length rs" using Suc.prems by simp
  let ?r = "rs ! k"
  let ?w = "concat (map rec_wire (drop (Suc k) rs))"
  have fit: "length (sr_text ?r) = unat (sr_len ?r)"
    using Suc.prems(2) k by (simp add: list_all_length rec_fits_def)
  have w: "concat (map rec_wire (drop k rs)) = (sr_len ?r # sr_text ?r) @ ?w"
    by (simp add: Cons_nth_drop_Suc [OF k, symmetric] rec_wire_def)
  have cnt: "bcnt out + ucast (sr_len ?r) + 1 = of_nat (length out + unat (sr_len ?r) + 1)" by simp
  have "length out + unat (sr_len ?r) + 1 < 2 ^ 31" using Suc.prems(4) w fit by simp
  from sless_count(1) [OF this Suc.prems(3)]
  have cmp: "buflen <s bcnt out + ucast (sr_len ?r) + 1 \<longleftrightarrow> unat buflen < length out + unat (sr_len ?r) + 1"
    by (simp only: cnt)
  show ?case
  proof (cases "unat buflen < length out + unat (sr_len ?r) + 1")
    case True
    then have "extract_recs buflen (Suc n) (int k) rs out = Some (out, False)"
      using k cmp by (simp add: get_record_def)
    then show ?thesis using True Suc.prems(5) fit by (auto simp: fills_def w)
  next
    case False
    have t: "c_read (Some (sr_text ?r @ [0])) (unat (sr_len ?r)) = Some (sr_text ?r)"
      using fit by simp
    have step: "extract_recs buflen (Suc n) (int k) rs out
        = extract_recs buflen n (int (Suc k)) rs (out @ sr_len ?r # sr_text ?r)"
      using k cmp False t by (simp add: get_record_def add.commute)
    have "fills buflen (out @ sr_len ?r # sr_text ?r) ?w
        (extract_recs buflen n (int (Suc k)) rs (out @ sr_len ?r # sr_text ?r))"
      by (rule Suc.IH) (use Suc.prems w fit False in simp_all)
    then show ?thesis unfolding step w by (rule fills_append)
  qed
qed (simp add: fills_def)

lemma extract_hdr_ok:
  assumes "hdr_ok h" "unat buflen < 2 ^ 31" "length out + length (hdr_wire h) < 2 ^ 31"
  shows "extract_hdr buflen h out = Some (if length out + length (hdr_wire h) \<le> unat buflen
    then (out @ hdr_wire h, True) else (out, False))"
proof -
  let ?n = "length out + length (hdr_wire h)"
  note cmp = sless_count [OF assms(3,2)]
  have count: "of_nat ?n = bcnt out + hdr_size 0 h" using assms(1) by (simp add: length_hdr_wire)
  show ?thesis
  proof (cases h)
    case (Frag nx tot off)
    have e: "bcnt out + 1 + 2 * 4 = of_nat ?n" using count Frag by simp
    have "buflen < bcnt out + 1 + 2 * 4 \<longleftrightarrow> \<not> ?n \<le> unat buflen" by (simp only: e cmp not_le)
    then show ?thesis using Frag by simp
  next
    case (Auth nx len info)
    have e: "bcnt out + 2 + ucast len = of_nat ?n" using count Auth by simp
    have r: "c_read info (unat len) = Some (bytes_of info (unat len))"
      using assms(1) Auth c_read_bytes_of by simp
    have "buflen <s bcnt out + 2 + ucast len \<longleftrightarrow> \<not> ?n \<le> unat buflen" by (simp only: e cmp not_le)
    then show ?thesis using r Auth by simp
  next
    case (Psec nx len info)
    have e: "bcnt out + 2 + ucast len = of_nat ?n" using count Psec by simp
    have r: "c_read info (unat len) = Some (bytes_of info (unat len))"
      using assms(1) Psec c_read_bytes_of by simp
    have "buflen <s bcnt out + 2 + ucast len \<longleftrightarrow> \<not> ?n \<le> unat buflen" by (simp only: e cmp not_le)
    then show ?thesis using r Psec by simp
  next
    case (Pyld c len p)
    have e: "bcnt out + 5 + len = of_nat ?n" using count Pyld by simp
    have r: "c_read p (unat len) = Some (bytes_of p (unat len))"
      using assms(1) Pyld c_read_bytes_of by simp
    have "buflen < bcnt out + 5 + len \<longleftrightarrow> \<not> ?n \<le> unat buflen" by (simp only: e cmp not_le)
    then show ?thesis using r Pyld by simp
  qed
qed

lemma extract_hdrs_ok:
  assumes "chain_ok nx hs" "unat buflen < 2 ^ 31" "length out + length (concat (map hdr_wire hs)) < 2 ^ 31"
    "length out \<le> unat buflen"
  shows "fills buflen out (concat (map hdr_wire hs)) (extract_hdrs buflen nx hs out)"
  using assms
proof (induction hs arbitrary: nx out)
  case (Cons h hs)
  have h: "nx = hdr_type h" "hdr_ok h" "chain_ok (hdr_next h) hs" using Cons.prems(1) by simp_all
  have one: "extract_hdr buflen h out = Some (if length out + length (hdr_wire h) \<le> unat buflen
      then (out @ hdr_wire h, True) else (out, False))"
    by (rule extract_hdr_ok) (use Cons.prems h in simp_all)
  show ?case
  proof (cases "length out + length (hdr_wire h) \<le> unat buflen")
    case False
    then show ?thesis using one h(1) Cons.prems(4) by (auto simp: fills_def)
  next
    case fits: True
    show ?thesis
    proof (cases "hdr_type h = BDL_PYLD")
      case True
      then show ?thesis using fits one h(1) chain_ok_pyld [OF True Cons.prems(1)]
        by (simp add: fills_def)
    next
      case False
      have "fills buflen (out @ hdr_wire h) (concat (map hdr_wire hs))
          (extract_hdrs buflen (hdr_next h) hs (out @ hdr_wire h))"
        by (rule Cons.IH) (use Cons.prems h fits in simp_all)
      then show ?thesis using False fits one h(1) by (simp add: fills_append)
    qed
  qed
qed (simp add: fills_def)

lemma extract_data_ok:
  assumes "bdl_ok b" "length (wire b) < 2 ^ 31" "unat buflen < 2 ^ 31"
  shows "\<exists>out. length out \<le> unat buflen \<and> extract_data b buflen
    = (if length (wire b) \<le> unat buflen then Some (wire b, of_nat (length (wire b))) else Some (out, -1))"
proof -
  obtain d where d: "b_dict b = Some d" "dict_ok d" "chain_ok (d_next_hdr d) (b_hdrs b)"
    using assms(1) by (auto simp: bdl_ok_def)
  let ?rs = "concat (map rec_wire (d_record d))" and ?hs = "concat (map hdr_wire (b_hdrs b))"
  let ?o = "[d_next_hdr d, of_int (d_strcount d)]"
  have w: "wire b = (?o @ ?rs) @ ?hs" using d(1) by (simp add: wire_def dict_wire_def)
  have two: "buflen <s 2 \<longleftrightarrow> unat buflen < 2"
    using sless_count(1) [of 2 buflen] assms(3) by simp
  show ?thesis
  proof (cases "unat buflen < 2")
    case True
    then show ?thesis using two d(1) by (auto simp: extract_data_def w)
  next
    case False
    have "fills buflen ?o (concat (map rec_wire (drop 0 (d_record d))))
        (extract_recs buflen (length (d_record d)) (int 0) (d_record d) ?o)"
      by (rule extract_recs_ok) (use assms(2,3) False d(2) w in \<open>simp_all add: dict_ok_def\<close>)
    then have r: "fills buflen ?o ?rs (extract_recs buflen (length (d_record d)) 0 (d_record d) ?o)" by simp
    have st: "nat (d_strcount d) = length (d_record d)" using d(2) by (simp add: dict_ok_def)
    show ?thesis
    proof (cases "length (?o @ ?rs) \<le> unat buflen")
      case f: False
      then show ?thesis using r two d(1) \<open>\<not> unat buflen < 2\<close> st w
        by (auto simp: extract_data_def fills_def)
    next
      case True
      then have er: "extract_recs buflen (length (d_record d)) 0 (d_record d) ?o = Some (?o @ ?rs, True)"
        using r by (simp add: fills_def)
      have h: "fills buflen (?o @ ?rs) ?hs (extract_hdrs buflen (d_next_hdr d) (b_hdrs b) (?o @ ?rs))"
        by (rule extract_hdrs_ok) (use assms d(3) True w in simp_all)
      have ed: "extract_data b buflen = do { (out2, ok2) \<leftarrow> extract_hdrs buflen (d_next_hdr d) (b_hdrs b) (?o @ ?rs);
                                          Some (out2, if ok2 then bcnt out2 else -1) }"
        using d(1) two False st er by (simp add: extract_data_def)
      show ?thesis
      proof (cases "length (wire b) \<le> unat buflen")
        case True
        then have "extract_hdrs buflen (d_next_hdr d) (b_hdrs b) (?o @ ?rs) = Some (wire b, True)"
          using h unfolding fills_def w by simp
        then show ?thesis unfolding ed using True by auto
      next
        case False
        then obtain out' where "length out' \<le> unat buflen"
          "extract_hdrs buflen (d_next_hdr d) (b_hdrs b) (?o @ ?rs) = Some (out', False)"
          using h unfolding fills_def w by auto
        then show ?thesis unfolding ed using False by auto
      qed
    qed
  qed
qed

subsection \<open>What is retrieved\<close>

text \<open>A header as the receiver builds it, and a header with authentication or security
  information.\<close>

fun hdr_plain :: "hdr \<Rightarrow> bool" where
  "hdr_plain (Frag _ _ _) \<longleftrightarrow> True"
| "hdr_plain (Auth _ len info) \<longleftrightarrow> len = 0 \<and> info = None"
| "hdr_plain (Psec _ len info) \<longleftrightarrow> len = 0 \<and> info = None"
| "hdr_plain (Pyld _ len p) \<longleftrightarrow> (\<exists>d. p = Some d \<and> length d = unat len)"

fun secured :: "hdr \<Rightarrow> bool" where
  "secured (Auth _ len _) \<longleftrightarrow> len \<noteq> 0"
| "secured (Psec _ len _) \<longleftrightarrow> len \<noteq> 0"
| "secured _ \<longleftrightarrow> False"

lemma retrieve_recs_ok:
  "list_all rec_fits rs \<Longrightarrow> retrieve_recs (length rs) (concat (map rec_wire rs) @ rest) acc = Some (acc @ rs, rest)"
  by (induction rs arbitrary: acc) (auto simp: rec_wire_def rec_fits_def add_record_raw_def)

lemma retrieve_sec_ok:
  assumes "unat buflen < 2 ^ 31" "n + 2 + unat len \<le> unat buflen"
  shows "retrieve_sec mk buflen n (nx # len # rest)
    = (if len = 0 then Some (More nx (mk nx len None) (n + 2) rest) else None)"
proof -
  have "\<not> buflen <s of_nat (n + 2)" by (subst sless_count) (use assms in simp_all)
  then have 1: "\<not> buflen <s of_nat n + 2" by (simp add: add.commute)
  have e: "of_nat (n + 2) + (ucast len :: c_int) = of_nat (n + 2 + unat len)" by simp
  have 2: "\<not> buflen <s of_nat (n + 2) + ucast len"
    unfolding e by (subst sless_count) (use assms in simp_all)
  show ?thesis using 1 2 by (simp add: retrieve_sec_def c_write_null_def unat_eq_zero)
qed

lemma retrieve_frag_ok:
  assumes "unat buflen < 2 ^ 31" "n + 9 \<le> unat buflen"
  shows "retrieve_frag buflen n (nx # u32_bytes tot @ u32_bytes off @ rest)
    = Some (More nx (Frag nx tot off) (n + 9) rest)"
proof -
  have "\<not> buflen < of_nat (n + 9)" by (subst sless_count) (use assms in simp_all)
  then have "\<not> buflen < of_nat n + 1 + 2 * 4" by (simp add: add.commute)
  then show ?thesis by (simp add: retrieve_frag_def)
qed

lemma retrieve_pyld_ok:
  assumes "unat buflen < 2 ^ 31" "n + 5 + unat len \<le> unat buflen" "length d = unat len"
  shows "retrieve_pyld buflen n (c # u32_bytes len @ d @ rest) = Some (Last (Pyld c len (Some d)) (n + 5 + unat len))"
proof -
  have "\<not> buflen <s of_nat (n + 5)" by (subst sless_count) (use assms in simp_all)
  then have 1: "\<not> buflen <s of_nat n + 5" by (simp add: add.commute)
  have e: "of_nat (n + 5) + len = of_nat (n + 5 + unat len)" by simp
  have 2: "\<not> buflen < of_nat (n + 5) + len"
    unfolding e by (subst sless_count) (use assms in simp_all)
  show ?thesis using 1 2 assms(3) by (simp add: retrieve_pyld_def Let_def)
qed

lemma retrieve_hdr_ok:
  assumes "hdr_plain h \<or> hdr_ok h \<and> secured h" "unat buflen < 2 ^ 31" "n + length (hdr_wire h) \<le> unat buflen"
  shows "retrieve_hdr buflen (hdr_type h) n (hdr_wire h @ rest)
    = (if secured h then None
       else if hdr_type h = BDL_PYLD then Some (Last h (n + length (hdr_wire h)))
       else Some (More (hdr_next h) h (n + length (hdr_wire h)) rest))"
proof (cases h)
  case (Frag nx tot off)
  then show ?thesis using assms(3)
    by (simp add: retrieve_hdr_def bdl_types retrieve_frag_ok [OF assms(2)])
next
  case (Auth nx len info)
  then have "n + 2 + unat len \<le> unat buflen" using assms(1,3) by (auto simp: length_bytes_of)
  then show ?thesis using Auth assms(1)
    by (auto simp: retrieve_hdr_def bdl_types retrieve_sec_ok [OF assms(2)] bytes_of_def)
next
  case (Psec nx len info)
  then have "n + 2 + unat len \<le> unat buflen" using assms(1,3) by (auto simp: length_bytes_of)
  then show ?thesis using Psec assms(1)
    by (auto simp: retrieve_hdr_def bdl_types retrieve_sec_ok [OF assms(2)] bytes_of_def)
next
  case (Pyld c len p)
  then obtain d where d: "p = Some d" "length d = unat len" using assms(1) by auto
  then have "n + 5 + unat len \<le> unat buflen" using assms(3) Pyld by (simp add: bytes_of_def)
  then show ?thesis using Pyld d
    by (simp add: retrieve_hdr_def bytes_of_def retrieve_pyld_ok [OF assms(2)])
qed

lemma retrieve_hdrs_ok:
  assumes "chain_ok nx hs" "list_all (\<lambda>h. hdr_plain h \<or> secured h) hs" "unat buflen < 2 ^ 31"
    "n + length (concat (map hdr_wire hs)) \<le> unat buflen"
  shows "retrieve_hdrs buflen nx n (concat (map hdr_wire hs)) acc
    = (if list_ex secured hs then None else Some (acc @ hs, of_nat (n + length (concat (map hdr_wire hs)))))"
  using assms
proof (induction hs arbitrary: nx n acc)
  case Nil
  then show ?case by (simp add: retrieve_hdrs.simps)
next
  case (Cons h hs)
  have h: "nx = hdr_type h" "hdr_ok h" "chain_ok (hdr_next h) hs" using Cons.prems(1) by simp_all
  have one: "retrieve_hdr buflen nx n (concat (map hdr_wire (h # hs)))
    = (if secured h then None
       else if hdr_type h = BDL_PYLD then Some (Last h (n + length (hdr_wire h)))
       else Some (More (hdr_next h) h (n + length (hdr_wire h)) (concat (map hdr_wire hs))))"
    unfolding h(1) using retrieve_hdr_ok [of h buflen n "concat (map hdr_wire hs)"] Cons.prems h by auto
  have IH: "retrieve_hdrs buflen (hdr_next h) (n + length (hdr_wire h)) (concat (map hdr_wire hs)) (acc @ [h])
    = (if list_ex secured hs then None
       else Some ((acc @ [h]) @ hs, of_nat (n + length (hdr_wire h) + length (concat (map hdr_wire hs)))))"
    by (rule Cons.IH) (use Cons.prems h in simp_all)
  have nx: "nx \<noteq> BDL_NONE" using h(1) by simp
  show ?case
    using one IH nx chain_ok_pyld [of h nx hs] Cons.prems(1) unfolding retrieve_hdrs.simps [of buflen nx n]
    by (cases "hdr_type h = BDL_PYLD") (simp_all add: add.assoc)
qed

lemma retrieve_data_ok:
  assumes "bdl_ok b" "list_all (\<lambda>h. hdr_plain h \<or> secured h) (b_hdrs b)"
    "\<forall>d. b_dict b = Some d \<longrightarrow> length (d_record d) < 256" "length (wire b) < 2 ^ 31" "b_dict b0 \<noteq> None"
  shows "retrieve_data b0 (wire b) (of_nat (length (wire b)))
    = (if list_ex secured (b_hdrs b) then None
       else Some (b0\<lparr>b_dict := b_dict b, b_hdrs := b_hdrs b\<rparr>, of_nat (length (wire b))))"
proof -
  obtain d where d: "b_dict b = Some d" "dict_ok d" "chain_ok (d_next_hdr d) (b_hdrs b)"
    using assms(1) by (auto simp: bdl_ok_def)
  obtain d0 where d0: "b_dict b0 = Some d0" using assms(5) by blast
  let ?rs = "concat (map rec_wire (d_record d))" and ?hs = "concat (map hdr_wire (b_hdrs b))"
  let ?n = "length (wire b)" and ?k = "2 + length ?rs"
  let ?buflen = "of_nat ?n :: c_int"
  have w: "wire b = d_next_hdr d # of_int (d_strcount d) # ?rs @ ?hs"
    using d(1) by (simp add: wire_def dict_wire_def)
  have n: "?n = ?k + length ?hs" using w by simp
  have bl: "unat ?buflen = ?n" by (rule unat_of_nat_small) (use assms(4) in simp)
  have cnt: "unat (of_int (d_strcount d) :: u8) = length (d_record d)"
    using d(1,2) assms(3) by (simp add: dict_ok_def unat_of_nat)
  have two: "\<not> ?buflen <s of_nat 0 + 2"
  proof -
    have "\<not> ?buflen <s of_nat 2" by (subst sless_count) (use assms(4) bl n in simp_all)
    then show ?thesis by simp
  qed
  have rr: "retrieve_recs (unat (of_int (d_strcount d) :: u8)) (?rs @ ?hs) [] = Some (d_record d, ?hs)"
    unfolding cnt by (subst retrieve_recs_ok) (use d(2) in \<open>simp_all add: dict_ok_def\<close>)
  have hh: "retrieve_hdrs ?buflen (d_next_hdr d) ?k ?hs []
      = (if list_ex secured (b_hdrs b) then None else Some ([] @ b_hdrs b, of_nat (?k + length ?hs)))"
    by (rule retrieve_hdrs_ok [OF d(3) assms(2)]) (use bl assms(4) n in simp_all)
  have nx: "d_next_hdr d \<noteq> BDL_DICT" using d(3) by (cases "b_hdrs b") (simp_all, simp add: bdl_types)
  have dd: "\<lparr>d_next_hdr = d_next_hdr d, d_strcount = int (length (d_record d)), d_record = d_record d\<rparr> = d"
    using d(2) by (simp add: dict_ok_def)
  have len: "0 + 2 + (length (?rs @ ?hs) - length ?hs) = ?k" by simp
  define buflen where "buflen = ?buflen"
  have "retrieve_dict buflen 0 (d_next_hdr d # of_int (d_strcount d) # ?rs @ ?hs) d0
    = (if list_ex secured (b_hdrs b) then None else Some (d, b_hdrs b, of_nat (?k + length ?hs)))"
    using two rr hh nx unfolding buflen_def [symmetric] retrieve_dict.simps [of buflen 0] list.case
    by (simp add: len [simplified] dd cnt)
  then have "retrieve_dict ?buflen 0 (wire b) d0
    = (if list_ex secured (b_hdrs b) then None else Some (d, b_hdrs b, of_nat ?n))"
    unfolding w [symmetric] n [symmetric] buflen_def .
  then show ?thesis using d(1) d0 by (simp add: retrieve_data_def)
qed

lemma retrieve_recs_fits:
  "retrieve_recs n rest rs = Some (rs', rest') \<Longrightarrow> list_all rec_fits rs
    \<Longrightarrow> list_all rec_fits rs' \<and> length rs' = length rs + n"
proof (induction n rest rs rule: retrieve_recs.induct)
  case (3 n len rest rs)
  let ?r = "\<lparr>sr_len = len, sr_text = take (unat len) rest\<rparr>"
  have le: "unat len \<le> length rest" and
    r: "retrieve_recs n (drop (unat len) rest) (rs @ [?r]) = Some (rs', rest')"
    using "3.prems"(1) by (auto simp: add_record_raw_def split: if_splits)
  have "rec_fits ?r" using le by (simp add: rec_fits_def)
  then have "list_all rec_fits (rs @ [?r])" using "3.prems"(2) by simp
  then show ?case using "3.IH" [OF _ _ r] r le by (simp add: add_record_raw_def)
qed simp_all

lemma retrieve_hdr_types:
  "retrieve_hdr buflen nx n rest = Some (More nx' h n' rest') \<Longrightarrow> nx = hdr_type h \<and> hdr_ok h \<and> nx' = hdr_next h"
  "retrieve_hdr buflen nx n rest = Some (Last h n') \<Longrightarrow> nx = hdr_type h \<and> hdr_ok h \<and> hdr_next h = BDL_NONE"
  by (auto simp: retrieve_hdr_def retrieve_pyld_def retrieve_sec_def retrieve_frag_def c_write_null_def
      c_read_def bind_eq_Some_conv Let_def split: if_splits list.splits option.splits)

lemma retrieve_hdrs_chain:
  "retrieve_hdrs buflen nx n rest acc = Some (hs, r) \<Longrightarrow> r \<noteq> -1 \<Longrightarrow> \<exists>hs'. hs = acc @ hs' \<and> chain_ok nx hs'"
proof (induction buflen nx n rest acc rule: retrieve_hdrs.induct)
  case (1 buflen nx n rest acc)
  note eq = retrieve_hdrs.simps [of buflen nx n rest acc]
  show ?case
  proof (cases "nx = BDL_NONE")
    case True
    then show ?thesis using "1.prems" eq by auto
  next
    case False
    then obtain x where x: "retrieve_hdr buflen nx n rest = Some x"
      using "1.prems"(1) eq by (cases "retrieve_hdr buflen nx n rest") auto
    show ?thesis
    proof (cases x)
      case (More nx' h n' rest')
      then have "retrieve_hdrs buflen nx' n' rest' (acc @ [h]) = Some (hs, r)"
        using "1.prems"(1) eq x False by simp
      then obtain hs' where "hs = (acc @ [h]) @ hs'" "chain_ok nx' hs'"
        using "1.IH" [OF False x] More "1.prems"(2) by blast
      then show ?thesis using retrieve_hdr_types(1) [of buflen nx n rest nx' h n' rest'] x More by simp
    next
      case (Short h)
      then show ?thesis using "1.prems" eq x False by auto
    next
      case (Last h n')
      then show ?thesis
        using "1.prems"(1) eq x False retrieve_hdr_types(2) [of buflen nx n rest h n']
        by (auto intro!: exI [of _ "[h]"])
    qed
  qed
qed

lemma retrieve_dict_ok:
  "retrieve_dict buflen n rest d0 = Some (d, hs, r) \<Longrightarrow> r \<noteq> -1 \<Longrightarrow> dict_ok d \<and> chain_ok (d_next_hdr d) hs"
proof (induction buflen n rest d0 rule: retrieve_dict.induct)
  case (1 buflen n rest d0)
  note eq = retrieve_dict.simps [of buflen n rest d0]
  have b: "\<not> buflen <s of_nat n + 2" using "1.prems" eq by (auto split: if_splits)
  then obtain nx cnt r1 rs rest' where p: "rest = nx # cnt # r1" "retrieve_recs (unat cnt) r1 [] = Some (rs, rest')"
    using "1.prems" eq by (auto split: list.splits option.splits)
  let ?d = "\<lparr>d_next_hdr = nx, d_strcount = int (unat cnt), d_record = rs\<rparr>"
  let ?n = "n + 2 + (length r1 - length rest')"
  show ?case
  proof (cases "nx = BDL_DICT")
    case True
    then have "retrieve_dict buflen ?n rest' ?d = Some (d, hs, r)"
      using "1.prems"(1) eq b p by (simp add: Let_def)
    then show ?thesis using "1.IH" [OF b p(1) refl p(2) refl refl refl True] "1.prems"(2) by blast
  next
    case False
    then have "(retrieve_hdrs buflen nx ?n rest' [] \<bind> (\<lambda>(hs, r). Some (?d, hs, r))) = Some (d, hs, r)"
      using "1.prems"(1) b p(2) unfolding p(1) retrieve_dict.simps [of buflen n "nx # cnt # r1" d0]
      by (simp add: Let_def)
    then have d: "d = ?d" and h: "retrieve_hdrs buflen nx ?n rest' [] = Some (hs, r)"
      by (auto simp: bind_eq_Some_conv)
    have "dict_ok d" using retrieve_recs_fits [OF p(2)] by (simp add: d dict_ok_def)
    moreover have "chain_ok nx hs" using retrieve_hdrs_chain [OF h "1.prems"(2)] by simp
    ultimately show ?thesis by (simp add: d)
  qed
qed

lemma wrap_check:
  fixes buflen len :: c_int
  assumes "unat buflen < 2 ^ 31" "7 \<le> unat buflen" "2 ^ 32 - 7 \<le> unat len"
  shows "\<not> buflen <s 2" "\<not> buflen <s of_nat 2 + 5" "\<not> buflen < of_nat 7 + len"
proof -
  have "\<not> buflen <s of_nat 2" "\<not> buflen <s of_nat 7"
    using sless_count(1) [of 2 buflen] sless_count(1) [of 7 buflen] assms(1,2) by simp_all
  then show "\<not> buflen <s 2" "\<not> buflen <s of_nat 2 + 5" by simp_all
  have "unat (of_nat 7 + len) = (7 + unat len) mod 2 ^ 32"
    by (simp add: unat_word_ariths)
  also have "\<dots> = 7 + unat len - 2 ^ 32"
    using assms(3) le_less_trans [OF diff_le_self u32_bound, of len 4294967289]
    by (subst le_mod_geq) simp_all
  finally have e: "unat (of_nat 7 + len) = 7 + unat len - 2 ^ 32" .
  have small: "7 + n - 2 ^ 32 < 7" if "n < 4294967296" for n :: nat using that by simp
  have "7 + unat len - 2 ^ 32 < 7" by (rule small) (rule u32_bound)
  then have "unat (of_nat 7 + len) < 7" by (simp only: e)
  then show "\<not> buflen < of_nat 7 + len" using assms(2) by (simp add: word_less_nat_alt)
qed

definition sample_prim :: hdr_bdlprim where
  "sample_prim = \<lparr>p_version = 1, p_next_hdr = BDL_DICT, p_cos = 0x70, p_pld_sec = 0, p_dest = 0x01,
     p_src = 0x02, p_rpt_to = 0x02, p_cust = 0, p_timestamp = 77, p_exp_time = 100, p_elapsed_time = 0,
     p_me = 3, p_region = [82], p_hopcount = 0, p_u_id = 5, p_conversation = 6, p_source_rule = 1,
     p_send_type = 0\<rparr>"

definition sample_dict :: hdr_bdldict where
  "sample_dict = \<lparr>d_next_hdr = BDL_PYLD, d_strcount = 3,
     d_record = [\<lparr>sr_len = 1, sr_text = [82]\<rparr>, \<lparr>sr_len = 2, sr_text = [97, 98]\<rparr>, \<lparr>sr_len = 2, sr_text = [99, 100]\<rparr>]\<rparr>"

definition sample_bdl :: bdl where
  "sample_bdl = \<lparr>b_prim = sample_prim, b_dict = Some sample_dict,
     b_hdrs = [Pyld 0 6 (Some [1, 2, 3, 4, 5, 6])], b_report = None, b_custreport = None,
     b_prevhop = 2, b_transtime = 0, b_recvtime = 1, b_fid = 0\<rparr>"

definition received_dict :: hdr_bdldict where
  "received_dict = \<lparr>d_next_hdr = BDL_FRAG, d_strcount = 1, d_record = [\<lparr>sr_len = 1, sr_text = [82]\<rparr>]\<rparr>"

definition received_bdl :: bdl where
  "received_bdl = sample_bdl\<lparr>b_dict := Some received_dict, b_hdrs := [Frag 5 9 3, Pyld 0 2 (Some [7, 8])]\<rparr>"

lemma sample_bdl_ok: "bdl_ok sample_bdl"
  by (simp add: sample_bdl_def sample_dict_def bdl_ok_def dict_ok_def rec_fits_def)

lemma sample_bdl_wire: "length (wire sample_bdl) = 21"
  by (simp add: sample_bdl_def sample_dict_def wire_def dict_wire_def rec_wire_def bytes_of_def)

subsection \<open>Properties\<close>

text \<open>
  \<^bold>\<open>C23\<close> Of a well-formed bundle \<^verbatim>\<open>getDataSize\<close> answers the number of bytes
  that \<^verbatim>\<open>extractData\<close> needs: with at least this room it writes the wire format and
  returns its length, with less it returns -1 and has not written behind the end.
\<close>

theorem extraction_exact:
  assumes "bdl_ok b" "length (wire b) < 2 ^ 31" "unat buflen < 2 ^ 31"
  shows "get_data_size b 0 = Some (of_nat (length (wire b)))
    \<and> (\<exists>out. length out \<le> unat buflen \<and> extract_data b buflen
         = (if length (wire b) \<le> unat buflen then Some (wire b, of_nat (length (wire b))) else Some (out, -1)))"
  using get_data_size_ok [OF assms(1)] extract_data_ok [OF assms] by blast

theorem extraction_exact_witness:
  "get_data_size sample_bdl 0 = Some (of_nat (length (wire sample_bdl)))
    \<and> (\<exists>out. length out \<le> unat (20 :: c_int) \<and> extract_data sample_bdl 20
         = (if length (wire sample_bdl) \<le> unat (20 :: c_int)
            then Some (wire sample_bdl, of_nat (length (wire sample_bdl))) else Some (out, -1)))"
  by (rule extraction_exact [OF sample_bdl_ok]) (simp_all add: sample_bdl_wire)

text \<open>
  \<^bold>\<open>C8\<close> A bundle that is extracted into a packet and retrieved from it is the same
  bundle, whatever its chain of headers, unless a header carries authentication or security
  information: then the receiver copies it through the null pointer of a new header.
\<close>

theorem wire_roundtrip:
  assumes "bdl_ok b" "list_all (\<lambda>h. hdr_plain h \<or> secured h) (b_hdrs b)"
    "\<forall>d. b_dict b = Some d \<longrightarrow> length (d_record d) < 256" "length (wire b) < 2 ^ 31" "b_dict b0 \<noteq> None"
  shows "\<exists>buf size. get_data_size b 0 = Some size \<and> extract_data b size = Some (buf, size)
    \<and> retrieve_data b0 buf size
        = (if list_ex secured (b_hdrs b) then None
           else Some (b0\<lparr>b_dict := b_dict b, b_hdrs := b_hdrs b\<rparr>, size))"
proof -
  have u: "unat (of_nat (length (wire b)) :: c_int) = length (wire b)"
    by (rule unat_of_nat_small) (use assms(4) in simp)
  have "extract_data b (of_nat (length (wire b))) = Some (wire b, of_nat (length (wire b)))"
    using extract_data_ok [OF assms(1,4), of "of_nat (length (wire b))"] assms(4) u by simp
  then show ?thesis
    using get_data_size_ok [OF assms(1)] retrieve_data_ok [OF assms] by blast
qed

theorem wire_roundtrip_witness:
  "\<exists>buf size. get_data_size sample_bdl 0 = Some size \<and> extract_data sample_bdl size = Some (buf, size)
    \<and> retrieve_data sample_bdl buf size
        = (if list_ex secured (b_hdrs sample_bdl) then None
           else Some (sample_bdl\<lparr>b_dict := b_dict sample_bdl, b_hdrs := b_hdrs sample_bdl\<rparr>, size))"
  by (rule wire_roundtrip [OF sample_bdl_ok]) (simp_all add: sample_bdl_wire, simp_all add: sample_bdl_def sample_dict_def)

text \<open>
  \<^bold>\<open>C19\<close> Whatever bytes are received, a bundle that \<^verbatim>\<open>retrieveData\<close> accepts
  is well-formed: every type byte announces the header that follows, so that no cast of the later
  traversals is wrong, the string count is the number of records, and every length is backed by
  an array; its size can be computed and it can be sent on.
\<close>

theorem retrieved_well_typed:
  assumes "retrieve_data b0 buf buflen = Some (b, r)" "r \<noteq> -1" "length (wire b) < 2 ^ 31"
  shows "bdl_ok b \<and> (\<exists>size. get_data_size b 0 = Some size \<and> extract_data b size = Some (wire b, size))"
proof -
  have ok: "bdl_ok b"
    using assms(1,2) retrieve_dict_ok by (fastforce simp: retrieve_data_def bdl_ok_def bind_eq_Some_conv split: option.splits)
  have u: "unat (of_nat (length (wire b)) :: c_int) = length (wire b)"
    by (rule unat_of_nat_small) (use assms(3) in simp)
  have "extract_data b (of_nat (length (wire b))) = Some (wire b, of_nat (length (wire b)))"
    using extract_data_ok [OF ok assms(3), of "of_nat (length (wire b))"] assms(3) u by simp
  then show ?thesis using ok get_data_size_ok [OF ok] by blast
qed

theorem retrieved_well_typed_witness:
  "bdl_ok received_bdl \<and> (\<exists>size. get_data_size received_bdl 0 = Some size
    \<and> extract_data received_bdl size = Some (wire received_bdl, size))"
proof (rule retrieved_well_typed)
  have "retrieve_dict 20 0 [9, 1, 1, 82, 5, 9, 0, 0, 0, 3, 0, 0, 0, 0, 2, 0, 0, 0, 7, 8] sample_dict
    = Some (received_dict, [Frag 5 9 3, Pyld 0 2 (Some [7, 8])], 20)"
    by code_simp
  then show "retrieve_data sample_bdl [9, 1, 1, 82, 5, 9, 0, 0, 0, 3, 0, 0, 0, 0, 2, 0, 0, 0, 7, 8] 20
    = Some (received_bdl, 20)"
    by (simp add: retrieve_data_def sample_bdl_def received_bdl_def)
  show "length (wire received_bdl) < 2 ^ 31"
    by (simp add: received_bdl_def received_dict_def wire_def dict_wire_def rec_wire_def bytes_of_def)
qed simp

text \<open>
  The check of the payload length adds the length to the position in 32 bits: a
  message whose length field is close to \<open>2 ^ 32\<close> passes it, however short the message is,
  and the copy reads behind the end of the buffer.
\<close>

theorem payload_check_wraps:
  assumes "b_dict b0 \<noteq> None" "2 ^ 32 - 7 \<le> unat len"
    "buf = [BDL_PYLD, 0, c] @ u32_bytes len @ rest" "length buf < 2 ^ 31"
  shows "retrieve_data b0 buf (of_nat (length buf)) = None"
proof -
  define buflen :: c_int where "buflen = of_nat (length buf)"
  have u: "unat buflen = 7 + length rest"
    unfolding buflen_def by (subst unat_of_nat_small) (use assms(3,4) in simp_all)
  have chk: "\<not> buflen <s 2" "\<not> buflen <s of_nat 2 + 5" "\<not> buflen < of_nat 7 + len"
    by (rule wrap_check; use u assms(2-4) in simp)+
  have "length rest < unat len" using assms by simp
  then have p: "retrieve_pyld buflen 2 ([c] @ u32_bytes len @ rest) = None"
    using chk(2,3) by (auto simp: retrieve_pyld_def c_read_def Let_def)
  have "BDL_PYLD \<noteq> BDL_NONE" "BDL_PYLD \<noteq> BDL_DICT" by (simp_all add: bdl_types)
  moreover have "retrieve_hdrs buflen BDL_PYLD 2 ([c] @ u32_bytes len @ rest) [] = None"
    using p by (simp add: retrieve_hdrs.simps [of buflen BDL_PYLD 2] retrieve_hdr_def) (simp add: bdl_types)
  ultimately have "retrieve_dict buflen 0 buf d = None" for d
    using chk(1) by (simp add: assms(3) retrieve_dict.simps [of buflen 0] numeral_2_eq_2)
  then show ?thesis using assms(1) unfolding buflen_def by (auto simp: retrieve_data_def)
qed

theorem payload_check_wraps_witness:
  "retrieve_data sample_bdl ([BDL_PYLD, 0, 0] @ u32_bytes 0xFFFFFFFC @ [1, 2])
     (of_nat (length ([BDL_PYLD, 0, 0 :: u8] @ u32_bytes 0xFFFFFFFC @ [1, 2]))) = None"
  by (rule payload_check_wraps [where len = "0xFFFFFFFC"]) (simp_all add: sample_bdl_def)

end
