(* ===== verification/Dtn_Fragment.thy ===== *)
theory Dtn_Fragment
  imports Dtn_Bundle
begin

text \<open>
  Fragmentation and reassembly of bundles (\<^verbatim>\<open>fragment\<close> and
  \<^verbatim>\<open>defragment\<close> of \<^verbatim>\<open>dtn/bundle.cc\<close>).

  The waiting fragments are a list of groups, one for every bundle: the list is the chain of
  \<open>next_\<close> pointers from \<^verbatim>\<open>frags_\<close>, and a group is the chain of
  \<open>next_frag_\<close> pointers from its first bundle.  Sizes are 32 bits wide, as
  \<^verbatim>\<open>size_t\<close> and \<^verbatim>\<open>int\<close> are.
\<close>

subsection \<open>\<^verbatim>\<open>fragment\<close>\<close>

text \<open>
  The walk along the chain, up to the payload: the headers before it, their clones, the last
  fragment header (\<open>tot_len\<close>, \<open>offset\<close>) and the payload header.
\<close>

type_synonym frag_fields = "u32 \<times> u32"
type_synonym pyld_fields = "u8 \<times> u32 \<times> bytes option"

fun frag_walk :: "u8 \<Rightarrow> hdr list \<Rightarrow> hdr list \<Rightarrow> hdr list \<Rightarrow> frag_fields option
    \<Rightarrow> (hdr list \<times> hdr list \<times> frag_fields option \<times> pyld_fields option) exec" where
  "frag_walk curhdr [] pre clones fh = Some (pre, clones, fh, None)"
| "frag_walk curhdr (h # hs) pre clones fh =
     (if curhdr \<noteq> hdr_type h then None
      else case h of
        Pyld c len p \<Rightarrow> Some (pre, clones, fh, Some (c, len, p))
      | Frag nx tot off \<Rightarrow>
          do { h' \<leftarrow> clone_hdr h; frag_walk nx hs (pre @ [h]) (clones @ [h']) (Some (tot, off)) }
      | _ \<Rightarrow> do { h' \<leftarrow> clone_hdr h; frag_walk (hdr_next h) hs (pre @ [h]) (clones @ [h']) fh })"

fun is_frag_hdr :: "hdr \<Rightarrow> bool" where
  "is_frag_hdr (Frag _ _ _) \<longleftrightarrow> True"
| "is_frag_hdr _ \<longleftrightarrow> False"

text \<open>The fields of the last fragment header are assigned.\<close>

fun set_last_frag :: "u32 \<Rightarrow> u32 \<Rightarrow> hdr list \<Rightarrow> hdr list" where
  "set_last_frag tot off [] = []"
| "set_last_frag tot off (h # hs) =
     (if list_ex is_frag_hdr hs then h # set_last_frag tot off hs
      else case h of Frag nx _ _ \<Rightarrow> Frag nx tot off # hs | _ \<Rightarrow> h # hs)"

text \<open>
  The size of a chunk: \<open>base\<close> is \<^verbatim>\<open>sizeof(hdr_ip) + sizeof(hdr_bdlprim)\<close>, which
  depends on the headers of the packet.  The result is \<^const>\<open>None\<close> where the code aborts.
\<close>

definition frag_chunk :: "u32 \<Rightarrow> u32 \<Rightarrow> bool \<Rightarrow> u32 \<Rightarrow> u32 \<Rightarrow> u32 option exec" where
  "frag_chunk base mtu exact size1 pyldsize =
     (let headsize = base + size1 + 1 + 2 * 4
      in if mtu \<le> headsize then None
         else let chunk = (if exact then mtu else mtu - headsize)
              in if pyldsize < chunk then Some None
                 else if \<not> exact \<and> (pyldsize + chunk - 1) div chunk = 2
                      then Some (Some (pyldsize div 2))
                      else Some (Some chunk))"

definition split_payload :: "u32 \<Rightarrow> pyld_fields \<Rightarrow> (hdr \<times> hdr) exec" where
  "split_payload chunk py = (case py of (c, plen, olddata) \<Rightarrow>
     do { data \<leftarrow> c_read olddata (unat chunk);
          datarest \<leftarrow> c_read olddata (unat (plen - chunk));
          Some (Pyld c chunk (Some data), Pyld c (plen - chunk) (Some datarest)) })"

definition frag_bundle :: "u32 \<Rightarrow> hdr_bdldict \<Rightarrow> bdl \<Rightarrow> (bdl \<times> bdl) exec" where
  "frag_bundle chunk d b =
     do { d' \<leftarrow> clone_dict d;
          let restb = \<lparr>b_prim = clone_prim (b_prim b), b_dict = Some d', b_hdrs = [], b_report = None,
                      b_custreport = None, b_prevhop = b_prevhop b, b_transtime = b_transtime b,
                      b_recvtime = b_recvtime b, b_fid = b_fid b\<rparr>;
          (pre, clones, fh, py) \<leftarrow> frag_walk (d_next_hdr d) (b_hdrs b) [] [] None;
          (case py of
             None \<Rightarrow> Some (b, restb\<lparr>b_hdrs := clones\<rparr>)
           | Some (c, plen, olddata) \<Rightarrow>
               do { (pyld, pyldrest) \<leftarrow> split_payload chunk (c, plen, olddata);
                    Some (case fh of
                      Some (tot_len, offset) \<Rightarrow>
                        (b\<lparr>b_hdrs := pre @ [pyld]\<rparr>,
                         restb\<lparr>b_hdrs := set_last_frag tot_len (offset + chunk) clones @ [pyldrest]\<rparr>)
                    | None \<Rightarrow>
                        (b\<lparr>b_dict := Some (d\<lparr>d_next_hdr := BDL_FRAG\<rparr>),
                           b_hdrs := Frag (d_next_hdr d) plen 0 # pre @ [pyld]\<rparr>,
                         restb\<lparr>b_dict := Some (d'\<lparr>d_next_hdr := BDL_FRAG\<rparr>),
                           b_hdrs := Frag (d_next_hdr d') plen (0 + chunk) # clones @ [pyldrest]\<rparr>)) }) }"

text \<open>The bundle and, in \<open>next_frag_\<close>, the rest.\<close>

definition fragment :: "u32 \<Rightarrow> u32 \<Rightarrow> bool \<Rightarrow> bdl \<Rightarrow> (bdl \<times> bdl option) exec" where
  "fragment base mtu exact b =
     do { size1 \<leftarrow> get_data_size b 1;
          pyldsize \<leftarrow> get_data_size b 2;
          chunk \<leftarrow> frag_chunk base mtu exact size1 pyldsize;
          (case (chunk, b_dict b) of
             (None, _) \<Rightarrow> Some (b, None)
           | (Some ch, None) \<Rightarrow> None
           | (Some ch, Some d) \<Rightarrow> do { (b1, b2) \<leftarrow> frag_bundle ch d b; Some (b1, Some b2) }) }"

subsection \<open>\<^verbatim>\<open>defragment\<close>\<close>

text \<open>The fragment and the payload header of a chain, as the loops of all stages find them.\<close>

fun frag_parts :: "u8 \<Rightarrow> hdr list \<Rightarrow> frag_fields option \<Rightarrow> (frag_fields option \<times> pyld_fields option) exec" where
  "frag_parts nx [] fh = Some (if nx = BDL_FRAG then None else fh, None)"
| "frag_parts nx (h # hs) fh =
     (case h of
        Pyld c len p \<Rightarrow> if nx = BDL_PYLD then Some (fh, Some (c, len, p)) else None
      | Frag nx' tot off \<Rightarrow>
          if nx = BDL_PYLD then None
          else frag_parts nx' hs (if nx = BDL_FRAG then Some (tot, off) else fh)
      | _ \<Rightarrow> if nx = BDL_PYLD \<or> nx = BDL_FRAG then None else frag_parts (hdr_next h) hs fh)"

definition bdl_parts :: "bdl \<Rightarrow> (frag_fields option \<times> pyld_fields option) exec" where
  "bdl_parts b = do { d \<leftarrow> b_dict b; frag_parts (d_next_hdr d) (b_hdrs b) None }"

text \<open>Both headers of a waiting fragment; the code aborts when one is missing.\<close>

definition both_parts :: "bdl \<Rightarrow> (frag_fields \<times> pyld_fields) exec" where
  "both_parts b = (case bdl_parts b of Some (Some f, Some p) \<Rightarrow> Some (f, p) | _ \<Rightarrow> None)"

text \<open>Stage 1: the endpoint identifier and the timestamp name a bundle.\<close>

definition bdl_eid :: "bdl \<Rightarrow> bytes exec" where
  "bdl_eid b = do { d \<leftarrow> b_dict b; e \<leftarrow> get_records (d_record d) (p_src (b_prim b)); Some (cstr e) }"

definition same_bundle :: "bdl \<Rightarrow> bdl \<Rightarrow> bool exec" where
  "same_bundle cur this =
     do { ceid \<leftarrow> bdl_eid cur; beid \<leftarrow> bdl_eid this;
          Some (ceid = beid \<and> p_timestamp (b_prim cur) = p_timestamp (b_prim this)) }"

fun find_group :: "bdl list list \<Rightarrow> bdl \<Rightarrow> (bdl list list \<times> (bdl list \<times> bdl list list) option) exec" where
  "find_group [] this = Some ([], None)"
| "find_group (g # gs) this =
     do { same \<leftarrow> same_bundle (hd g) this;
          if same then Some ([], Some (g, gs))
          else do { (prev, r) \<leftarrow> find_group gs this; Some (g # prev, r) } }"

text \<open>Stage 2: the bundle is inserted before the first fragment with a higher offset;
  \<^const>\<open>None\<close> inside the result is a fragment that is there already.\<close>

fun insert_frag :: "bdl \<Rightarrow> frag_fields \<Rightarrow> pyld_fields option \<Rightarrow> bdl list \<Rightarrow> bdl list option exec" where
  "insert_frag this fh ph [] = Some (Some [this])"
| "insert_frag this fh ph (cur # g) =
     do { ((_, coff), (_, clen, _)) \<leftarrow> both_parts cur;
          dup \<leftarrow> (if coff = snd fh then (case ph of None \<Rightarrow> None | Some (_, len, _) \<Rightarrow> Some (clen = len)) else Some False);
          if dup then Some None
          else if snd fh < coff then Some (Some (this # cur # g))
          else do { r \<leftarrow> insert_frag this fh ph g; Some (map_option ((#) cur) r) } }"

text \<open>Stage 3: the end of what is covered without a gap, and the length that the last
  fragment states; \<^const>\<open>None\<close> inside the result is a gap.\<close>

fun covered :: "u32 \<Rightarrow> u32 \<Rightarrow> bdl list \<Rightarrow> frag_fields option exec" where
  "covered co tot [] = Some (Some (co, tot))"
| "covered co tot (cur # g) =
     do { ((ctot, coff), (_, clen, _)) \<leftarrow> both_parts cur;
          if co < coff then Some None
          else covered (if co = coff then co + clen else if co < coff + clen then coff + clen else co) ctot g }"

text \<open>Stage 4: the payloads are copied into a new array, whose bytes are undefined before.\<close>

definition c_write :: "u8 option list \<Rightarrow> nat \<Rightarrow> bytes \<Rightarrow> u8 option list exec" where
  "c_write arr pos a =
     (if pos + length a \<le> length arr
      then Some (take pos arr @ map Some a @ drop (pos + length a) arr) else None)"

fun copy_payloads :: "bdl list \<Rightarrow> u8 option list \<Rightarrow> u8 option list exec" where
  "copy_payloads [] data = Some data"
| "copy_payloads (cur # g) data =
     do { ((_, coff), (_, clen, p)) \<leftarrow> both_parts cur;
          a \<leftarrow> c_read p (unat clen);
          data' \<leftarrow> c_write data (unat coff) a;
          copy_payloads g data' }"

fun set_next :: "u8 \<Rightarrow> hdr \<Rightarrow> hdr" where
  "set_next nx (Frag _ tot off) = Frag nx tot off"
| "set_next nx (Auth _ len info) = Auth nx len info"
| "set_next nx (Psec _ len info) = Psec nx len info"
| "set_next nx (Pyld c len p) = Pyld c len p"

text \<open>The fragment headers are unlinked and the payload header gets the new payload.\<close>

fun rebuild_chain :: "u8 \<Rightarrow> hdr list \<Rightarrow> u32 \<Rightarrow> bytes \<Rightarrow> (u8 \<times> hdr list) exec" where
  "rebuild_chain nx [] totlen data = None"
| "rebuild_chain nx (h # hs) totlen data =
     (case h of
        Pyld c _ _ \<Rightarrow> if nx = BDL_PYLD then Some (nx, Pyld c totlen (Some data) # hs) else None
      | Frag nx' _ _ \<Rightarrow>
          if nx = BDL_FRAG then rebuild_chain nx' hs totlen data
          else if nx = BDL_PYLD then None
          else do { (nx2, hs2) \<leftarrow> rebuild_chain nx' hs totlen data; Some (nx, set_next nx2 h # hs2) }
      | _ \<Rightarrow> if nx = BDL_FRAG \<or> nx = BDL_PYLD then None
            else do { (nx2, hs2) \<leftarrow> rebuild_chain (hdr_next h) hs totlen data; Some (nx, set_next nx2 h # hs2) })"

definition rebuild :: "bdl list \<Rightarrow> u32 \<Rightarrow> bdl exec" where
  "rebuild g totlen =
     do { arr \<leftarrow> copy_payloads g (replicate (unat totlen) None);
          data \<leftarrow> those arr;
          d \<leftarrow> b_dict (hd g);
          (nx, hs) \<leftarrow> rebuild_chain (d_next_hdr d) (b_hdrs (hd g)) totlen data;
          Some ((hd g)\<lparr>b_dict := Some (d\<lparr>d_next_hdr := nx\<rparr>), b_hdrs := hs\<rparr>) }"

definition defragment :: "bdl list list \<Rightarrow> bdl \<Rightarrow> (bdl list list \<times> bdl option) exec" where
  "defragment frags this =
     do { (prev, found) \<leftarrow> find_group frags this;
          (case found of
             None \<Rightarrow> Some (prev @ [[this]], None)
           | Some (g, gs) \<Rightarrow>
               (case bdl_parts this of
                  Some (Some fh, ph) \<Rightarrow>
                    do { ins \<leftarrow> insert_frag this fh ph g;
                         (case ins of
                            None \<Rightarrow> Some (frags, None)
                          | Some g' \<Rightarrow>
                              do { co \<leftarrow> covered 0 0 g';
                                   (case co of
                                      None \<Rightarrow> Some (prev @ g' # gs, None)
                                    | Some (c, tot) \<Rightarrow>
                                        if c \<noteq> tot then Some (prev @ g' # gs, None)
                                        else do { b \<leftarrow> rebuild g' tot;
                                                  Some (prev @ gs, Some b) }) }) }
                | _ \<Rightarrow> None)) }"

subsection \<open>Chains with a payload\<close>

fun last_frag :: "frag_fields option \<Rightarrow> hdr list \<Rightarrow> frag_fields option" where
  "last_frag fh [] = fh"
| "last_frag fh (Frag nx tot off # hs) = last_frag (Some (tot, off)) hs"
| "last_frag fh (h # hs) = last_frag fh hs"

lemma chain_ok_pyld_iff: "chain_ok nx (Pyld c len p # hs) \<longleftrightarrow> nx = BDL_PYLD \<and> c_read p (unat len) \<noteq> None \<and> hs = []"
  by (cases hs) auto

lemma frag_parts_chain:
  "chain_ok nx (pre @ [Pyld c len p]) \<Longrightarrow> frag_parts nx (pre @ [Pyld c len p]) fh = Some (last_frag fh pre, Some (c, len, p))"
proof (induction pre arbitrary: nx fh)
  case (Cons h pre)
  then show ?case by (cases h) auto
qed simp

lemma chain_payload:
  "chain_ok nx hs \<Longrightarrow> frag_parts nx hs fh = Some (fh', Some (c, len, p)) \<Longrightarrow> \<exists>pre. hs = pre @ [Pyld c len p]"
proof (induction hs arbitrary: nx fh)
  case (Cons h hs)
  show ?case
  proof (cases "hdr_type h = BDL_PYLD")
    case True
    then have "hs = []" using chain_ok_pyld [OF True Cons.prems(1)] by simp
    then show ?thesis using True Cons.prems by (auto simp: hdr_type_pyld)
  next
    case False
    then obtain fh1 where "frag_parts (hdr_next h) hs fh1 = Some (fh', Some (c, len, p))" "chain_ok (hdr_next h) hs"
      using Cons.prems by (cases h) (auto split: if_splits)
    then obtain pre where "hs = pre @ [Pyld c len p]" using Cons.IH by blast
    then show ?thesis by (intro exI [of _ "h # pre"]) simp
  qed
qed (simp split: if_splits)

text \<open>A header's clone has its type, its successor and its fields.\<close>

lemma clone_hdr_ok:
  assumes "hdr_ok h"
  obtains h' where "clone_hdr h = Some h'" "hdr_type h' = hdr_type h" "hdr_next h' = hdr_next h" "hdr_ok h'"
    "last_frag fh (h' # hs) = last_frag fh (h # hs)" "is_frag_hdr h' = is_frag_hdr h"
  using assms by (cases h) (auto simp: c_read_def split: option.splits if_splits)

lemma frag_walk_chain:
  assumes "chain_ok nx (pre @ [Pyld c len p])"
  shows "\<exists>clones. frag_walk nx (pre @ [Pyld c len p]) as bs fh
      = Some (as @ pre, bs @ clones, last_frag fh pre, Some (c, len, p))
    \<and> (\<forall>fh. last_frag fh clones = last_frag fh pre) \<and> list_ex is_frag_hdr clones = list_ex is_frag_hdr pre
    \<and> (\<forall>c' len' p'. c_read p' (unat len') \<noteq> None \<longrightarrow> chain_ok nx (clones @ [Pyld c' len' p']))"
  using assms
proof (induction pre arbitrary: nx as bs fh)
  case (Cons h pre)
  have h: "nx = hdr_type h" "hdr_ok h" "chain_ok (hdr_next h) (pre @ [Pyld c len p])" using Cons.prems by simp_all
  have np: "hdr_type h \<noteq> BDL_PYLD"
    using Cons.prems chain_ok_pyld [of h nx "pre @ [Pyld c len p]"] by auto
  obtain h' where h': "clone_hdr h = Some h'" "hdr_type h' = hdr_type h" "hdr_next h' = hdr_next h" "hdr_ok h'"
    and lf: "\<And>fh hs. last_frag fh (h' # hs) = last_frag fh (h # hs)" and fr: "is_frag_hdr h' = is_frag_hdr h"
    using h(2) by (cases h) (auto simp: c_read_def split: option.splits if_splits)
  obtain clones where cl: "frag_walk (hdr_next h) (pre @ [Pyld c len p]) (as @ [h]) (bs @ [h']) (last_frag fh [h])
      = Some ((as @ [h]) @ pre, (bs @ [h']) @ clones, last_frag (last_frag fh [h]) pre, Some (c, len, p))"
    "\<forall>fh. last_frag fh clones = last_frag fh pre" "list_ex is_frag_hdr clones = list_ex is_frag_hdr pre"
    "\<forall>c' len' p'. c_read p' (unat len') \<noteq> None \<longrightarrow> chain_ok (hdr_next h) (clones @ [Pyld c' len' p'])"
    using Cons.IH [OF h(3)] by blast
  have step: "frag_walk nx ((h # pre) @ [Pyld c len p]) as bs fh
      = Some (as @ h # pre, bs @ h' # clones, last_frag fh (h # pre), Some (c, len, p))"
    using cl(1) h(1) h'(1) np by (cases h) auto
  have "last_frag fh (h' # clones) = last_frag fh (h # pre)" for fh
    unfolding lf using cl(2) by (cases h) simp_all
  moreover have "list_ex is_frag_hdr (h' # clones) = list_ex is_frag_hdr (h # pre)" using cl(3) fr by simp
  moreover have "\<forall>c' len' p'. c_read p' (unat len') \<noteq> None \<longrightarrow> chain_ok nx ((h' # clones) @ [Pyld c' len' p'])"
    using cl(4) h' h(1) by simp
  ultimately show ?case using step by (intro exI [of _ "h' # clones"]) simp
qed simp

lemma chain_ok_replace_pyld:
  "chain_ok nx (pre @ [Pyld c len p]) \<Longrightarrow> c_read p' (unat len') \<noteq> None \<Longrightarrow> chain_ok nx (pre @ [Pyld c' len' p'])"
  by (induction pre arbitrary: nx) simp_all

lemma set_last_frag_chain:
  "chain_ok nx (hs @ [py]) \<Longrightarrow> chain_ok nx (set_last_frag tot off hs @ [py])"
proof (induction hs arbitrary: nx)
  case (Cons h hs)
  then show ?case by (cases h) auto
qed simp

lemma last_frag_None: "\<not> list_ex is_frag_hdr hs \<Longrightarrow> last_frag fh hs = fh"
proof (induction hs arbitrary: fh)
  case (Cons h hs)
  then show ?case by (cases h) auto
qed simp

lemma last_frag_Some: "list_ex is_frag_hdr hs \<Longrightarrow> last_frag fh hs \<noteq> None \<and> last_frag fh hs = last_frag fh' hs"
proof (induction hs arbitrary: fh fh')
  case (Cons h hs)
  then show ?case by (cases "list_ex is_frag_hdr hs"; cases h) (auto simp: last_frag_None)
qed simp

lemma last_frag_set: "list_ex is_frag_hdr hs \<Longrightarrow> last_frag fh (set_last_frag tot off hs) = Some (tot, off)"
proof (induction hs arbitrary: fh)
  case (Cons h hs)
  show ?case
  proof (cases "list_ex is_frag_hdr hs")
    case True
    then show ?thesis using Cons.IH by (cases h) simp_all
  next
    case False
    then show ?thesis using Cons.prems last_frag_None [OF False] by (cases h) auto
  qed
qed simp

subsection \<open>The two fragments\<close>

lemma frag_bundle_ok:
  assumes d: "b_dict b = Some d" "recs_ok (d_record d)" "chain_ok (d_next_hdr d) (b_hdrs b)"
    and parts: "bdl_parts b = Some (fh, Some (c, len, Some a))" "length a = unat len" "chunk \<le> len"
  shows "\<exists>b1 b2 d1 d2. frag_bundle chunk d b = Some (b1, b2)
    \<and> bdl_parts b1 = Some (Some (case fh of None \<Rightarrow> (len, 0) | Some x \<Rightarrow> x), Some (c, chunk, Some (take (unat chunk) a)))
    \<and> bdl_parts b2 = Some (Some (case fh of None \<Rightarrow> (len, chunk) | Some (tot, off) \<Rightarrow> (tot, off + chunk)),
        Some (c, len - chunk, Some (take (unat (len - chunk)) a)))
    \<and> b_dict b1 = Some d1 \<and> b_dict b2 = Some d2 \<and> d_record d1 = d_record d \<and> d_record d2 = d_record d
    \<and> chain_ok (d_next_hdr d1) (b_hdrs b1) \<and> chain_ok (d_next_hdr d2) (b_hdrs b2)
    \<and> b_prim b1 = b_prim b \<and> b_prim b2 = clone_prim (b_prim b)"
proof -
  have fp: "frag_parts (d_next_hdr d) (b_hdrs b) None = Some (fh, Some (c, len, Some a))"
    using parts(1) d(1) by (simp add: bdl_parts_def)
  obtain pre where hs: "b_hdrs b = pre @ [Pyld c len (Some a)]" using chain_payload [OF d(3) fp] by blast
  note ch = d(3) [unfolded hs]
  have fh: "fh = last_frag None pre" using fp frag_parts_chain [OF ch] hs by simp
  obtain clones where cl: "frag_walk (d_next_hdr d) (b_hdrs b) [] [] None = Some (pre, clones, fh, Some (c, len, Some a))"
    "\<forall>fh. last_frag fh clones = last_frag fh pre" "list_ex is_frag_hdr clones = list_ex is_frag_hdr pre"
    "\<forall>c' len' p'. c_read p' (unat len') \<noteq> None \<longrightarrow> chain_ok (d_next_hdr d) (clones @ [Pyld c' len' p'])"
    using frag_walk_chain [OF ch, of "[]" "[]" None] hs fh by auto
  have le: "unat chunk \<le> unat len" "unat (len - chunk) \<le> unat len"
    using parts(3) by (simp_all add: word_le_nat_alt unat_sub)
  let ?p1 = "Pyld c chunk (Some (take (unat chunk) a))" and ?p2 = "Pyld c (len - chunk) (Some (take (unat (len - chunk)) a))"
  have sp: "split_payload chunk (c, len, Some a) = Some (?p1, ?p2)"
    using le parts(2) by (simp add: split_payload_def c_read_def)
  have r: "c_read (Some (take (unat chunk) a)) (unat chunk) \<noteq> None"
    "c_read (Some (take (unat (len - chunk)) a)) (unat (len - chunk)) \<noteq> None"
    using le parts(2) by (simp_all add: c_read_def)
  have c1: "chain_ok (d_next_hdr d) (pre @ [?p1])" by (rule chain_ok_replace_pyld [OF ch r(1)])
  have c2: "chain_ok (d_next_hdr d) (clones @ [?p2])" using cl(4) r(2) by simp
  have cd: "clone_dict d = Some d" using d(2) by (simp add: clone_dict_def clone_records_ok)
  show ?thesis
  proof (cases "list_ex is_frag_hdr pre")
    case False
    then have n: "fh = None" "last_frag fh0 clones = fh0" "last_frag fh0 pre = fh0" for fh0
      using fh cl(2) last_frag_None by simp_all
    show ?thesis
      using d(1) cd cl(1) sp n frag_parts_chain [OF c1] frag_parts_chain [OF c2] c1 c2
      by (simp add: frag_bundle_def bdl_parts_def bdl_types)
  next
    case True
    then have "fh \<noteq> None" using last_frag_Some [OF True, of None None] fh by simp
    then obtain tot off where f: "fh = Some (tot, off)" by auto
    then have n: "fh = Some (tot, off)" "last_frag None clones = Some (tot, off)" using fh cl(2) by simp_all
    have c3: "chain_ok (d_next_hdr d) (set_last_frag tot (off + chunk) clones @ [?p2])"
      by (rule set_last_frag_chain [OF c2])
    have l3: "last_frag None (set_last_frag tot (off + chunk) clones) = Some (tot, off + chunk)"
      by (rule last_frag_set) (use True cl(3) in simp)
    show ?thesis
      using d(1) cd cl(1) sp n fh frag_parts_chain [OF c1] frag_parts_chain [OF c3] c1 c3 l3
      by (simp add: frag_bundle_def bdl_parts_def)
  qed
qed

subsection \<open>Pieces of a payload\<close>

text \<open>A fragment of the bundle named by \<open>e\<close> and \<open>t\<close> that carries a part of
  the payload \<open>P\<close> at the place its header states.\<close>

definition piece :: "bytes \<Rightarrow> u64 \<Rightarrow> bytes \<Rightarrow> bdl \<Rightarrow> bool" where
  "piece e t P f \<longleftrightarrow> bdl_eid f = Some e \<and> p_timestamp (b_prim f) = t
    \<and> (\<exists>d tot off c len a. b_dict f = Some d \<and> chain_ok (d_next_hdr d) (b_hdrs f)
         \<and> bdl_parts f = Some (Some (tot, off), Some (c, len, Some a))
         \<and> unat tot = length P \<and> unat off + unat len \<le> length P
         \<and> length a = unat len \<and> a = take (unat len) (drop (unat off) P))"

definition piece_off :: "bdl \<Rightarrow> nat" where
  "piece_off f = (case both_parts f of Some ((_, off), _) \<Rightarrow> unat off | None \<Rightarrow> 0)"

definition piece_len :: "bdl \<Rightarrow> nat" where
  "piece_len f = (case both_parts f of Some (_, (_, len, _)) \<Rightarrow> unat len | None \<Rightarrow> 0)"

definition covers :: "bdl list \<Rightarrow> nat \<Rightarrow> bool" where
  "covers g i \<longleftrightarrow> (\<exists>f\<in>set g. piece_off f \<le> i \<and> i < piece_off f + piece_len f)"

definition complete :: "bytes \<Rightarrow> bdl list \<Rightarrow> bool" where
  "complete P g \<longleftrightarrow> (\<forall>i < length P. covers g i)"

lemma pieceE:
  assumes "piece e t P f"
  obtains c len off tot a where "bdl_parts f = Some (Some (tot, off), Some (c, len, Some a))"
    "both_parts f = Some ((tot, off), (c, len, Some a))"
    "piece_off f = unat off" "piece_len f = unat len" "unat tot = length P" "unat off + unat len \<le> length P"
    "length a = unat len" "a = take (unat len) (drop (unat off) P)"
proof -
  obtain tot off c len a where f: "bdl_parts f = Some (Some (tot, off), Some (c, len, Some a))"
    "unat tot = length P" "unat off + unat len \<le> length P" "length a = unat len" "a = take (unat len) (drop (unat off) P)"
    using assms unfolding piece_def by blast
  have b: "both_parts f = Some ((tot, off), (c, len, Some a))" by (simp add: both_parts_def f(1))
  show thesis
    by (rule that [OF f(1) b]) (use f b in \<open>simp_all add: piece_off_def piece_len_def\<close>)
qed

lemma piece_within: "piece e t P f \<Longrightarrow> piece_off f + piece_len f \<le> length P"
  by (elim pieceE) simp

lemma piece_length: "piece e t P f \<Longrightarrow> length P < 2 ^ 32"
proof -
  assume "piece e t P f"
  then obtain tot :: u32 where "unat tot = length P" by (rule pieceE)
  then show ?thesis using u32_bound [of tot] by (simp del: u32_bound)
qed

subsection \<open>The stages on pieces\<close>

definition same_place :: "bdl \<Rightarrow> bdl \<Rightarrow> bool" where
  "same_place f h \<longleftrightarrow> piece_off f = piece_off h \<and> piece_len f = piece_len h"

definition insert_abs :: "bdl \<Rightarrow> bdl list \<Rightarrow> bdl list" where
  "insert_abs f g = takeWhile (\<lambda>h. piece_off h \<le> piece_off f) g @ f # dropWhile (\<lambda>h. piece_off h \<le> piece_off f) g"

lemma set_insert_abs [simp]: "set (insert_abs f g) = insert f (set g)"
proof -
  have "set (takeWhile Q g) \<union> set (dropWhile Q g) = set g" for Q :: "bdl \<Rightarrow> bool"
    by (metis set_append takeWhile_dropWhile_id)
  then show ?thesis by (auto simp: insert_abs_def)
qed

lemma insert_abs_simps:
  "insert_abs f [] = [f]"
  "insert_abs f (h # g) = (if piece_off h \<le> piece_off f then h # insert_abs f g else f # h # g)"
  by (simp_all add: insert_abs_def)

lemma sorted_insert_abs: "sorted (map piece_off g) \<Longrightarrow> sorted (map piece_off (insert_abs f g))"
  by (induction g) (auto simp: insert_abs_simps)

lemma insert_frag_ok:
  assumes "piece e t P f" "\<forall>h\<in>set g. piece e t P h" "sorted (map piece_off g)"
    "bdl_parts f = Some (Some fh, ph)"
  shows "insert_frag f fh ph g = Some (if \<exists>h\<in>set g. same_place h f then None else Some (insert_abs f g))"
  using assms(2,3)
proof (induction g)
  case (Cons h g)
  obtain c len off tot a where f: "bdl_parts f = Some (Some (tot, off), Some (c, len, Some a))"
    "piece_off f = unat off" "piece_len f = unat len" using assms(1) by (rule pieceE)
  obtain c' len' off' tot' a' where h: "both_parts h = Some ((tot', off'), (c', len', Some a'))"
    "piece_off h = unat off'" "piece_len h = unat len'" using Cons.prems(1) by (auto elim: pieceE)
  have fp: "fh = (tot, off)" "ph = Some (c, len, Some a)" using f(1) assms(4) by simp_all
  have same: "same_place h f \<longleftrightarrow> off' = off \<and> len' = len" using f h by (simp add: same_place_def word_unat_eq_iff)
  have lt: "off < off' \<longleftrightarrow> piece_off f < piece_off h" using f h by (simp add: word_less_nat_alt)
  have IH: "insert_frag f fh ph g = Some (if \<exists>h\<in>set g. same_place h f then None else Some (insert_abs f g))"
    using Cons by simp
  show ?case
  proof (cases "piece_off f < piece_off h")
    case True
    then have "\<not> same_place k f" if "k \<in> set (h # g)" for k
      using Cons.prems(2) that by (auto simp: same_place_def)
    then show ?thesis using True h fp lt same by (auto simp: insert_abs_def)
  next
    case False
    then show ?thesis using h fp lt same IH by (auto simp: insert_abs_def)
  qed
qed (simp add: insert_abs_def)

text \<open>The end of the part that is covered without a gap, on numbers.\<close>

fun cov :: "nat \<Rightarrow> bdl list \<Rightarrow> nat option" where
  "cov co [] = Some co"
| "cov co (f # g) = (if co < piece_off f then None else cov (max co (piece_off f + piece_len f)) g)"

lemma covered_ok:
  assumes "\<forall>f\<in>set g. piece e t P f" "co \<le> length P" "length P < 2 ^ 32"
  shows "covered (of_nat co) tot g
    = Some (map_option (\<lambda>c. (of_nat c, if g = [] then tot else of_nat (length P))) (cov co g))"
  using assms(1,2)
proof (induction g arbitrary: co tot)
  case (Cons f g)
  obtain c len off ftot a where f: "both_parts f = Some ((ftot, off), (c, len, Some a))" "piece_off f = unat off"
    "piece_len f = unat len" "unat ftot = length P" "unat off + unat len \<le> length P"
    using Cons.prems(1) by (auto elim: pieceE)
  have tot: "ftot = of_nat (length P)" by (simp flip: f(4))
  have u: "unat (of_nat co :: u32) = co" using Cons.prems(2) assms(3) by (simp add: unat_of_nat_small)
  have s: "unat (off + len) = unat off + unat len"
    using f(5) assms(3) by (intro unat_add_bounded) simp
  have lt: "of_nat co < off \<longleftrightarrow> co < piece_off f" using u f(2) by (simp add: word_less_nat_alt)
  have lt2: "of_nat co < off + len \<longleftrightarrow> co < piece_off f + piece_len f" using u f(2,3) s by (simp add: word_less_nat_alt)
  have eq: "of_nat co = off \<longleftrightarrow> co = piece_off f" using u f(2) by (simp add: word_unat_eq_iff)
  have nx: "(if of_nat co = off then of_nat co + len else if of_nat co < off + len then off + len else of_nat co)
      = (of_nat (max co (piece_off f + piece_len f)) :: u32)"
    unfolding eq lt2 using f(2,3) by (auto simp: max_def)
  show ?case
  proof (cases "co < piece_off f")
    case True
    then show ?thesis using f(1) lt by simp
  next
    case False
    have "max co (piece_off f + piece_len f) \<le> length P" using Cons.prems f by simp
    then have "covered (of_nat (max co (piece_off f + piece_len f))) ftot g
      = Some (map_option (\<lambda>c. (of_nat c, of_nat (length P))) (cov (max co (piece_off f + piece_len f)) g))"
      using Cons.IH [of "max co (piece_off f + piece_len f)" ftot] Cons.prems(1) tot by (simp split: if_splits)
    then show ?thesis using f(1) lt False nx by simp
  qed
qed simp

lemma cov_sound: "cov co g = Some n \<Longrightarrow> co \<le> n \<and> (\<forall>i. co \<le> i \<and> i < n \<longrightarrow> covers g i)"
proof (induction g arbitrary: co)
  case (Cons f g)
  then have c: "piece_off f \<le> co" "cov (max co (piece_off f + piece_len f)) g = Some n" by (auto split: if_splits)
  show ?case
    using Cons.IH [OF c(2)] c(1) by (auto simp: covers_def)
qed auto

lemma cov_complete:
  assumes "\<forall>f\<in>set g. piece_off f + piece_len f \<le> n" "sorted (map piece_off g)" "co \<le> n" "\<forall>i. co \<le> i \<and> i < n \<longrightarrow> covers g i"
  shows "cov co g = Some n"
  using assms
proof (induction g arbitrary: co)
  case Nil
  then have "\<not> co < n" by (auto simp: covers_def)
  then show ?case using Nil.prems(3) by simp
next
  case (Cons f g)
  have "piece_off f \<le> co"
  proof (rule ccontr)
    assume less: "\<not> piece_off f \<le> co"
    then have "co < n" using Cons.prems(1) by force
    then obtain h where "h \<in> set (f # g)" "piece_off h \<le> co" using Cons.prems(4) by (auto simp: covers_def)
    then show False using less Cons.prems(2) by auto
  qed
  moreover have "cov (max co (piece_off f + piece_len f)) g = Some n"
    by (rule Cons.IH) (use Cons.prems in \<open>auto simp: covers_def\<close>)
  ultimately show ?case by simp
qed

text \<open>What has been copied is the payload.\<close>

definition filled :: "bytes \<Rightarrow> (nat \<Rightarrow> bool) \<Rightarrow> u8 option list \<Rightarrow> bool" where
  "filled P Q arr \<longleftrightarrow> length arr = length P \<and> (\<forall>i < length P. arr ! i = None \<or> arr ! i = Some (P ! i))
    \<and> (\<forall>i < length P. Q i \<longrightarrow> arr ! i \<noteq> None)"

lemma c_write_filled:
  assumes "filled P Q arr" "a = take n (drop pos P)" "length a = n" "pos + n \<le> length P"
  shows "\<exists>arr'. c_write arr pos a = Some arr' \<and> filled P (\<lambda>i. Q i \<or> pos \<le> i \<and> i < pos + n) arr'"
proof -
  let ?arr' = "take pos arr @ map Some a @ drop (pos + length a) arr"
  have len: "length arr = length P" using assms(1) by (simp add: filled_def)
  have nth: "?arr' ! i = (if pos \<le> i \<and> i < pos + n then Some (P ! i) else arr ! i)" if "i < length P" for i
    using that assms(2-4) len by (auto simp: nth_append min_def)
  show ?thesis
    using assms(1,3,4) len nth by (auto simp: c_write_def filled_def)
qed

lemma copy_payloads_ok:
  assumes "\<forall>f\<in>set g. piece e t P f" "filled P Q arr"
  shows "\<exists>arr'. copy_payloads g arr = Some arr' \<and> filled P (\<lambda>i. Q i \<or> covers g i) arr'"
  using assms
proof (induction g arbitrary: Q arr)
  case (Cons f g)
  obtain c len off tot a where f: "both_parts f = Some ((tot, off), (c, len, Some a))" "piece_off f = unat off"
    "piece_len f = unat len" "unat off + unat len \<le> length P" "length a = unat len" "a = take (unat len) (drop (unat off) P)"
    using Cons.prems(1) by (auto elim: pieceE)
  obtain arr1 where 1: "c_write arr (unat off) a = Some arr1"
    "filled P (\<lambda>i. Q i \<or> unat off \<le> i \<and> i < unat off + unat len) arr1"
    using c_write_filled [OF Cons.prems(2) f(6,5,4)] by blast
  obtain arr2 where 2: "copy_payloads g arr1 = Some arr2"
    "filled P (\<lambda>i. (Q i \<or> unat off \<le> i \<and> i < unat off + unat len) \<or> covers g i) arr2"
    using Cons.IH [OF _ 1(2)] Cons.prems(1) by auto
  have q: "(Q i \<or> unat off \<le> i \<and> i < unat off + unat len) \<or> covers g i \<longleftrightarrow> Q i \<or> covers (f # g) i" for i
    using f(2,3) by (auto simp: covers_def)
  have r: "c_read (Some a) (unat len) = Some a" using f(5) by (auto simp: c_read_def)
  show ?case using f(1) 1(1) r 2 unfolding q by simp
qed (simp add: covers_def)

lemma those_map_Some [simp]: "those (map Some xs) = Some xs"
  by (induction xs) simp_all

lemma filled_all:
  assumes "filled P Q arr" "\<forall>i < length P. Q i"
  shows "those arr = Some P"
proof -
  have "arr ! i = Some (P ! i)" if "i < length P" for i using assms that unfolding filled_def by metis
  then have "arr = map Some P" using assms(1) by (intro nth_equalityI) (simp_all add: filled_def)
  then show ?thesis by simp
qed

text \<open>The rebuilt chain has no fragment header, and the whole payload.\<close>

lemma rebuild_chain_ok:
  assumes "chain_ok nx hs" "frag_parts nx hs fh = Some (fh1, Some (c, len, p))" "length P = unat tot"
  shows "\<exists>nx' hs'. rebuild_chain nx hs tot P = Some (nx', hs') \<and> chain_ok nx' hs' \<and> \<not> list_ex is_frag_hdr hs'
    \<and> (\<exists>pre. hs' = pre @ [Pyld c tot (Some P)])"
  using assms(1,2)
proof (induction hs arbitrary: nx fh)
  case Nil
  then show ?case by simp
next
  case (Cons h hs)
  have rd: "c_read (Some P) (unat tot) \<noteq> None" using assms(3) by (simp add: c_read_def)
  show ?case
  proof (cases "hdr_type h = BDL_PYLD")
    case True
    then have "hs = []" using chain_ok_pyld [OF True Cons.prems(1)] by simp
    then show ?thesis using True Cons.prems rd by (auto simp: hdr_type_pyld)
  next
    case False
    then obtain fh2 where "frag_parts (hdr_next h) hs fh2 = Some (fh1, Some (c, len, p))"
      using Cons.prems by (cases h) (auto split: if_splits)
    moreover have "chain_ok (hdr_next h) hs" using Cons.prems(1) by simp
    ultimately obtain nx' hs' pre where IH: "rebuild_chain (hdr_next h) hs tot P = Some (nx', hs')" "chain_ok nx' hs'"
      "\<not> list_ex is_frag_hdr hs'" "hs' = pre @ [Pyld c tot (Some P)]"
      using Cons.IH by blast
    show ?thesis
    proof (cases "is_frag_hdr h")
      case True
      then show ?thesis using IH Cons.prems(1) by (cases h) auto
    next
      case nf: False
      then have "rebuild_chain nx (h # hs) tot P = Some (nx, set_next nx' h # hs')"
        using False IH(1) Cons.prems(1) by (cases h) auto
      moreover have "chain_ok nx (set_next nx' h # hs')" "\<not> list_ex is_frag_hdr (set_next nx' h # hs')"
        using IH Cons.prems(1) nf False by (cases h; simp)+
      moreover have "set_next nx' h # hs' = (set_next nx' h # pre) @ [Pyld c tot (Some P)]" using IH(4) by simp
      ultimately show ?thesis by blast
    qed
  qed
qed

text \<open>The bundle of the name \<open>e\<close>, \<open>t\<close> with the payload \<open>P\<close> and no
  fragment header.\<close>

definition whole :: "bytes \<Rightarrow> u64 \<Rightarrow> bytes \<Rightarrow> bdl \<Rightarrow> bool" where
  "whole e t P b \<longleftrightarrow> bdl_eid b = Some e \<and> p_timestamp (b_prim b) = t \<and> \<not> list_ex is_frag_hdr (b_hdrs b)
    \<and> (\<exists>d c. b_dict b = Some d \<and> chain_ok (d_next_hdr d) (b_hdrs b)
         \<and> bdl_parts b = Some (None, Some (c, of_nat (length P), Some P)))"

lemma rebuild_ok:
  assumes "g \<noteq> []" "\<forall>f\<in>set g. piece e t P f" "complete P g"
  shows "\<exists>b. rebuild g (of_nat (length P)) = Some b \<and> whole e t P b \<and> b_prim b = b_prim (hd g)"
proof -
  let ?f = "hd g"
  have f: "piece e t P ?f" using assms(1,2) by simp
  obtain d tot off c len a where d: "b_dict ?f = Some d" "chain_ok (d_next_hdr d) (b_hdrs ?f)"
    "bdl_parts ?f = Some (Some (tot, off), Some (c, len, Some a))" "unat tot = length P"
    using f unfolding piece_def by blast
  have tot: "of_nat (length P) = tot" by (simp flip: d(4))
  obtain arr where arr: "copy_payloads g (replicate (length P) None) = Some arr"
    "filled P (\<lambda>i. False \<or> covers g i) arr"
    using copy_payloads_ok [OF assms(2), of "\<lambda>_. False" "replicate (length P) None"] by (auto simp: filled_def)
  have data: "those arr = Some P"
    by (rule filled_all [OF arr(2)]) (use assms(3) in \<open>simp add: complete_def\<close>)
  obtain nx' hs' pre where r: "rebuild_chain (d_next_hdr d) (b_hdrs ?f) tot P = Some (nx', hs')"
    "chain_ok nx' hs'" "\<not> list_ex is_frag_hdr hs'" "hs' = pre @ [Pyld c tot (Some P)]"
    using rebuild_chain_ok [OF d(2), of None "Some (tot, off)" c len "Some a" P tot] d(1,3,4)
    by (auto simp: bdl_parts_def)
  let ?b = "?f\<lparr>b_dict := Some (d\<lparr>d_next_hdr := nx'\<rparr>), b_hdrs := hs'\<rparr>"
  have "rebuild g tot = Some ?b" using arr(1) data d(1,4) r(1) by (simp add: rebuild_def)
  moreover have "bdl_eid ?b = Some e" using f d(1) by (simp add: piece_def bdl_eid_def)
  moreover have "bdl_parts ?b = Some (None, Some (c, tot, Some P))"
    using frag_parts_chain [of nx' pre c tot "Some P"] r last_frag_None [of pre None]
    by (simp add: bdl_parts_def)
  ultimately show ?thesis using f r tot by (auto simp: whole_def piece_def)
qed

subsection \<open>Receiving fragments\<close>

definition foreign :: "bytes \<Rightarrow> u64 \<Rightarrow> bdl list \<Rightarrow> bool" where
  "foreign e t g \<longleftrightarrow> (\<exists>e'. bdl_eid (hd g) = Some e' \<and> \<not> (e' = e \<and> p_timestamp (b_prim (hd g)) = t))"

definition waiting :: "bytes \<Rightarrow> u64 \<Rightarrow> bytes \<Rightarrow> bdl list \<Rightarrow> bool" where
  "waiting e t P g \<longleftrightarrow> g \<noteq> [] \<and> (\<forall>f\<in>set g. piece e t P f) \<and> sorted (map piece_off g)"

lemma find_group_foreign:
  "\<forall>g\<in>set A. foreign e t g \<Longrightarrow> piece e t P f
    \<Longrightarrow> find_group (A @ B) f = do { (prev, r) \<leftarrow> find_group B f; Some (A @ prev, r) }"
  by (induction A) (auto simp: foreign_def same_bundle_def piece_def split: Option.bind_split)

lemma defragment_first:
  assumes "\<forall>g\<in>set A. foreign e t g" "piece e t P f"
  shows "defragment A f = Some (A @ [[f]], None) \<and> waiting e t P [f]"
  using find_group_foreign [OF assms, of "[]"] assms(2) by (simp add: defragment_def waiting_def)

lemma waiting_insert: "waiting e t P g \<Longrightarrow> piece e t P f \<Longrightarrow> waiting e t P (insert_abs f g)"
  by (simp add: waiting_def sorted_insert_abs) (simp add: insert_abs_def)

lemma covers_insert: "covers (insert_abs f g) i \<longleftrightarrow> covers (g @ [f]) i"
  by (auto simp: covers_def)

lemma covers_same: "\<exists>h\<in>set g. same_place h f \<Longrightarrow> covers (g @ [f]) i \<longleftrightarrow> covers g i"
  by (simp add: covers_def same_place_def) metis

text \<open>One more fragment of a bundle some of whose fragments wait.\<close>

lemma defragment_next:
  assumes A: "\<forall>g\<in>set A. foreign e t g" and g: "waiting e t P g" and f: "piece e t P f"
  shows "if \<exists>h\<in>set g. same_place h f then defragment (A @ [g]) f = Some (A @ [g], None)
    else if complete P (g @ [f]) then \<exists>b. defragment (A @ [g]) f = Some (A, Some b) \<and> whole e t P b
    else defragment (A @ [g]) f = Some (A @ [insert_abs f g], None)"
proof -
  obtain fh c len a where fp: "bdl_parts f = Some (Some fh, Some (c, len, Some a))"
    using f by (rule pieceE)
  have gg: "g \<noteq> []" "\<forall>h\<in>set g. piece e t P h" "sorted (map piece_off g)" using g by (simp_all add: waiting_def)
  have "piece e t P (hd g)" using gg by simp
  then have "find_group [g] f = Some ([], Some (g, []))"
    using f by (simp add: same_bundle_def piece_def)
  then have fg: "find_group (A @ [g]) f = Some (A, Some (g, []))" using find_group_foreign [OF A f, of "[g]"] by simp
  note ins = insert_frag_ok [OF f gg(2,3) fp]
  show ?thesis
  proof (cases "\<exists>h\<in>set g. same_place h f")
    case True
    then show ?thesis using fg fp ins by (simp add: defragment_def)
  next
    case False
    let ?g = "insert_abs f g"
    have w: "?g \<noteq> []" "\<forall>h\<in>set ?g. piece e t P h" "sorted (map piece_off ?g)"
      using waiting_insert [OF g f] by (simp_all add: waiting_def)
    have cv: "covered 0 0 ?g = Some (map_option (\<lambda>c. (of_nat c, of_nat (length P))) (cov 0 ?g))"
      using covered_ok [OF w(2), of 0 0] piece_length [OF f] w(1) by simp
    have upto: "cov 0 ?g = Some n \<Longrightarrow> n \<le> length P" for n
    proof (rule ccontr)
      assume "cov 0 ?g = Some n" "\<not> n \<le> length P"
      then have "covers ?g (length P)" using cov_sound [of 0 ?g n] by simp
      then obtain h where "h \<in> set ?g" "length P < piece_off h + piece_len h" unfolding covers_def by blast
      then show False using w(2) piece_within by fastforce
    qed
    have small: "n = length P" if "n \<le> length P" "(of_nat n :: u32) = of_nat (length P)" for n
      using that piece_length [OF f] by (metis unat_of_nat_small le_less_trans)
    have bd: "\<forall>h\<in>set ?g. piece_off h + piece_len h \<le> length P" using w(2) piece_within by blast
    have iff: "complete P ?g \<longleftrightarrow> cov 0 ?g = Some (length P)"
      using cov_sound [of 0 ?g "length P"] cov_complete [OF bd w(3), of 0]
      by (auto simp: complete_def)
    have cg: "complete P ?g \<longleftrightarrow> complete P (g @ [f])" by (simp add: complete_def covers_insert)
    show ?thesis
    proof (cases "complete P ?g")
      case True
      then obtain b where "rebuild ?g (of_nat (length P)) = Some b" "whole e t P b"
        using rebuild_ok [OF w(1,2)] by blast
      then show ?thesis using False True iff cg cv fg fp ins by (simp add: defragment_def)
    next
      case nc: False
      then show ?thesis
        using False iff cg cv fg fp ins upto small by (cases "cov 0 ?g") (auto simp: defragment_def)
    qed
  qed
qed

fun receive_all :: "bdl list list \<Rightarrow> bdl list \<Rightarrow> (bdl list list \<times> bdl option list) exec" where
  "receive_all frags [] = Some (frags, [])"
| "receive_all frags (f # fs) =
     do { (frags1, r) \<leftarrow> defragment frags f;
          (frags2, rs) \<leftarrow> receive_all frags1 fs;
          Some (frags2, r # rs) }"

lemma receive_all_step:
  assumes "defragment A f = Some (A1, None)" "receive_all A1 fs = Some (B, replicate (length fs - 1) None @ [Some b])" "fs \<noteq> []"
  shows "receive_all A (f # fs) = Some (B, replicate (length (f # fs) - 1) None @ [Some b])"
proof -
  have "replicate (length (f # fs) - 1) None = None # replicate (length fs - 1) (None :: bdl option)"
    using assms(3) by (cases fs) simp_all
  then show ?thesis using assms(1,2) by simp
qed

lemma complete_cong: "(\<And>i. covers g i \<longleftrightarrow> covers h i) \<Longrightarrow> complete P g \<longleftrightarrow> complete P h"
  by (simp add: complete_def)

lemma covers_append: "covers (g @ h) i \<longleftrightarrow> covers g i \<or> covers h i"
  by (auto simp: covers_def)

lemma receive_rest:
  assumes "\<forall>g\<in>set A. foreign e t g" "waiting e t P g" "\<forall>f\<in>set fs. piece e t P f" "fs \<noteq> []"
    "\<not> complete P (g @ butlast fs)" "complete P (g @ fs)"
  shows "\<exists>b. receive_all (A @ [g]) fs = Some (A, replicate (length fs - 1) None @ [Some b]) \<and> whole e t P b"
  using assms(2-)
proof (induction fs arbitrary: g)
  case (Cons f fs)
  have f: "piece e t P f" using Cons.prems(2) by simp
  note step = defragment_next [OF assms(1) Cons.prems(1) f]
  show ?case
  proof (cases fs)
    case Nil
    then have "\<not> (\<exists>h\<in>set g. same_place h f)"
      using covers_same [of g f] complete_cong [of "g @ [f]" g P] Cons.prems(4,5) by auto
    then show ?thesis using step Cons.prems(5) Nil by auto
  next
    case (Cons f' fs')
    then have nil: "fs \<noteq> []" and bl: "butlast (f # fs) = f # butlast fs" by simp_all
    obtain g' where g': "defragment (A @ [g]) f = Some (A @ [g'], None)" "waiting e t P g'"
      "\<And>i. covers g' i \<longleftrightarrow> covers (g @ [f]) i"
    proof (cases "\<exists>h\<in>set g. same_place h f")
      case True
      then show thesis using that [of g] step Cons.prems(1) covers_same [OF True] by simp
    next
      case False
      have "\<not> complete P (g @ [f])"
        using Cons.prems(4) unfolding bl by (auto simp: complete_def covers_append covers_def)
      then show thesis
        using that [of "insert_abs f g"] step False waiting_insert [OF Cons.prems(1) f] covers_insert by simp
    qed
    have cov: "covers (g' @ xs) i \<longleftrightarrow> covers (g @ f # xs) i" for xs i
      using g'(3) covers_append [of g "f # xs"] covers_append [of "[f]" xs] covers_append [of g "[f]"]
      by (simp add: covers_append)
    have "\<exists>b. receive_all (A @ [g']) fs = Some (A, replicate (length fs - 1) None @ [Some b]) \<and> whole e t P b"
      using Cons.IH [OF g'(2) _ nil] Cons.prems(2,4,5) cov bl
        complete_cong [of "g' @ butlast fs" "g @ f # butlast fs" P] complete_cong [of "g' @ fs" "g @ f # fs" P]
      by simp
    then show ?thesis using receive_all_step [OF g'(1) _ nil] by blast
  qed
qed simp

lemma receive_all_ok:
  assumes "\<forall>g\<in>set A. foreign e t g" "\<forall>f\<in>set fs. piece e t P f" "2 \<le> length fs"
    "\<not> complete P (butlast fs)" "complete P fs"
  shows "\<exists>b. receive_all A fs = Some (A, replicate (length fs - 1) None @ [Some b]) \<and> whole e t P b"
proof -
  obtain f f' fs' where fs: "fs = f # f' # fs'" using assms(3) by (cases fs; cases "tl fs") auto
  have f: "piece e t P f" using assms(2) fs by simp
  have "\<exists>b. receive_all (A @ [[f]]) (f' # fs')
      = Some (A, replicate (length (f' # fs') - 1) None @ [Some b]) \<and> whole e t P b"
    by (rule receive_rest) (use assms fs defragment_first [OF assms(1) f] in auto)
  then show ?thesis using defragment_first [OF assms(1) f] receive_all_step [of A f "A @ [[f]]" "f' # fs'" A] fs
    by blast
qed

text \<open>Two fragments, neither of which need be a proper part.\<close>

lemma receive_two:
  assumes "\<forall>g\<in>set A. foreign e t g" "piece e t P f" "piece e t P h" "\<not> same_place f h" "complete P [f, h]"
  shows "\<exists>b. receive_all A [f, h] = Some (A, [None, Some b]) \<and> whole e t P b"
  using defragment_first [OF assms(1,2)] defragment_next [OF assms(1) _ assms(3), of "[f]"] assms(4,5) by auto

subsection \<open>Fragmentation, followed by reassembly\<close>

lemma hdrs_size_payload:
  "chain_ok nx (pre @ [Pyld c len p]) \<Longrightarrow> hdrs_size 2 nx (pre @ [Pyld c len p]) bc = Some (bc + len)"
proof (induction pre arbitrary: nx bc)
  case (Cons h pre)
  then show ?case by (cases h) auto
qed simp

lemma frag_chunk_le:
  assumes "frag_chunk base mtu exact size1 pyldsize = Some (Some chunk)"
  shows "chunk \<le> pyldsize" "pyldsize \<noteq> 0" "chunk \<noteq> 0"
proof -
  define k where "k = (if exact then mtu else mtu - (base + size1 + 1 + 2 * 4))"
  have k: "base + size1 + 1 + 2 * 4 < mtu" "k \<le> pyldsize" "chunk = pyldsize div 2 \<and> (pyldsize + k - 1) div k = 2 \<or> chunk = k"
    using assms by (auto simp: frag_chunk_def Let_def k_def not_less split: if_splits)
  have nz: "k \<noteq> 0" using k(1) by (auto simp: k_def)
  then show pz: "pyldsize \<noteq> 0" using k(2) by auto
  show "chunk \<le> pyldsize"
    using k(2,3) by (auto simp: word_le_nat_alt unat_div_word)
  show "chunk \<noteq> 0"
  proof (cases "chunk = k")
    case False
    have "pyldsize \<noteq> 1"
    proof
      assume one: "pyldsize = 1"
      then have "unat k \<le> 1" "0 < unat k" using k(2) nz by (simp_all add: word_le_nat_alt unat_gt_0)
      then have "unat k = unat (1 :: u32)" by simp
      then have "k = 1" by (rule word_unat_eq_iff [THEN iffD2])
      then show False using False k(3) one by simp
    qed
    then have "unat pyldsize \<noteq> unat (1 :: u32)" by (simp only: word_unat_eq_iff not_False_eq_True)
    moreover have "0 < unat pyldsize" using pz by (simp add: unat_gt_0)
    ultimately have "unat pyldsize \<noteq> 1" "0 < unat pyldsize" by simp_all
    then have "0 < unat pyldsize div 2" by simp
    moreover have "chunk = pyldsize div 2" using k(3) False by simp
    ultimately have "0 < unat chunk" by (simp add: unat_div_word)
    then show ?thesis by (simp add: unat_gt_0)
  qed (simp add: nz)
qed

lemma fragment_pieces:
  assumes d: "b_dict b = Some d" "recs_ok (d_record d)" "chain_ok (d_next_hdr d) (b_hdrs b)"
    and parts: "bdl_parts b = Some (None, Some (c, len, Some P))" "length P = unat len"
    and id: "bdl_eid b = Some e" "p_timestamp (b_prim b) = t"
    and fr: "fragment base mtu exact b = Some (b1, Some b2)"
  shows "\<exists>hsize chunk. get_data_size b 1 = Some hsize \<and> frag_chunk base mtu exact hsize len = Some (Some chunk) \<and>
    0 < unat chunk \<and> unat chunk \<le> length P \<and> (let n = unat chunk; P' = take n P @ take (length P - n) P in
    piece e t P' b1 \<and> piece e t P' b2 \<and> piece_off b1 = 0 \<and> piece_len b1 = n \<and> piece_off b2 = n \<and> piece_len b2 = length P - n)"
proof -
  have fp: "frag_parts (d_next_hdr d) (b_hdrs b) None = Some (None, Some (c, len, Some P))"
    using parts(1) d(1) by (simp add: bdl_parts_def)
  obtain pre where hs: "b_hdrs b = pre @ [Pyld c len (Some P)]" using chain_payload [OF d(3) fp] by blast
  have "get_data_size b 2 = Some len"
    using d(1) hdrs_size_payload [of "d_next_hdr d" pre c len "Some P" 0] d(3) hs by (simp add: get_data_size_def)
  then obtain size1 chunk where ch: "frag_chunk base mtu exact size1 len = Some (Some chunk)"
    "frag_bundle chunk d b = Some (b1, b2)" "get_data_size b 1 = Some size1"
    using fr d(1) by (auto simp: fragment_def bind_eq_Some_conv split: option.splits)
  note le = frag_chunk_le [OF ch(1)]
  let ?n = "unat chunk" and ?P = "take (unat chunk) P @ take (length P - unat chunk) P"
  have n: "?n \<le> length P" "unat (len - chunk) = length P - ?n" "length P = unat len"
    using le(1) parts(2) by (simp_all add: word_le_nat_alt unat_sub)
  obtain d1 d2 where r: "bdl_parts b1 = Some (Some (len, 0), Some (c, chunk, Some (take ?n P)))"
    "bdl_parts b2 = Some (Some (len, chunk), Some (c, len - chunk, Some (take (length P - ?n) P)))"
    "b_dict b1 = Some d1" "b_dict b2 = Some d2" "d_record d1 = d_record d" "d_record d2 = d_record d"
    "chain_ok (d_next_hdr d1) (b_hdrs b1)" "chain_ok (d_next_hdr d2) (b_hdrs b2)"
    "b_prim b1 = b_prim b" "b_prim b2 = clone_prim (b_prim b)"
    using frag_bundle_ok [OF d parts(1,2) le(1)] ch(2) n(2) by auto
  have e: "bdl_eid b1 = Some e" "bdl_eid b2 = Some e"
    using id(1) d(1) r by (simp_all add: bdl_eid_def clone_prim_def)
  have P: "length ?P = unat len" "take ?n ?P = take ?n P" "drop ?n ?P = take (length P - ?n) P"
    using n by simp_all
  have 1: "piece e t ?P b1"
    using e(1) id(2) r(1,3,7,9) n P unfolding piece_def by simp
  have 2: "piece e t ?P b2"
    using e(2) id(2) r(2,4,8,10) n P unfolding piece_def by (simp add: clone_prim_def)
  have "0 < ?n" using le(3) by (simp add: unat_gt_0)
  then show ?thesis
    using 1 2 n r(1,2) ch(1,3) by (intro exI [of _ size1] exI [of _ chunk]) (simp add: piece_off_def piece_len_def both_parts_def Let_def)
qed

subsection \<open>Properties\<close>

text \<open>
  \<^bold>\<open>C9\<close> The fragments of a bundle may arrive in any order, repeated and
  overlapping, while fragments of other bundles wait: as long as the payload is not covered
  nothing is delivered, and the fragment that completes it yields the bundle with the whole
  payload and without a fragment header, and leaves only the others waiting.
\<close>

theorem reassembly:
  assumes "\<forall>g\<in>set A. foreign e t g" "\<forall>f\<in>set fs. piece e t P f" "2 \<le> length fs"
    "\<not> complete P (butlast fs)" "complete P fs"
  shows "\<exists>b. receive_all A fs = Some (A, replicate (length fs - 1) None @ [Some b]) \<and> whole e t P b"
  by (rule receive_all_ok [OF assms])

definition sample_frag :: "u32 \<Rightarrow> bytes \<Rightarrow> bdl" where
  "sample_frag off a = sample_bdl\<lparr>b_dict := Some (sample_dict\<lparr>d_next_hdr := BDL_FRAG\<rparr>),
     b_hdrs := [Frag BDL_PYLD 6 off, Pyld 0 (of_nat (length a)) (Some a)]\<rparr>"

lemma sample_eid: "get_records (d_record sample_dict) 2 = Some [82, comma, 99, 100]"
  by code_simp

lemma sample_frag_piece:
  assumes "unat off + length a \<le> 6" "a = take (length a) (drop (unat off) [1, 2, 3, 4, 5, 6])"
  shows "piece [82, comma, 99, 100] 77 [1, 2, 3, 4, 5, 6] (sample_frag off a)"
    and "piece_off (sample_frag off a) = unat off" "piece_len (sample_frag off a) = length a"
proof -
  have u: "unat (of_nat (length a) :: u32) = length a" by (rule unat_of_nat_small) (use assms(1) in simp)
  have p: "bdl_parts (sample_frag off a) = Some (Some (6, off), Some (0, of_nat (length a), Some a))"
    by (simp add: sample_frag_def bdl_parts_def)
  show "piece_off (sample_frag off a) = unat off" "piece_len (sample_frag off a) = length a"
    using p u by (simp_all add: piece_off_def piece_len_def both_parts_def)
  have "bdl_eid (sample_frag off a) = Some [82, comma, 99, 100]"
    using sample_eid by (simp add: sample_frag_def bdl_eid_def sample_bdl_def sample_prim_def sample_dict_def comma_def)
  then show "piece [82, comma, 99, 100] 77 [1, 2, 3, 4, 5, 6] (sample_frag off a)"
    unfolding piece_def using p u assms
    by (auto simp: sample_frag_def sample_bdl_def sample_prim_def c_read_def)
qed

theorem reassembly_witness:
  "\<exists>b. receive_all [] [sample_frag 3 [4, 5, 6], sample_frag 2 [3, 4], sample_frag 3 [4, 5, 6], sample_frag 0 [1, 2]]
     = Some ([], replicate 3 None @ [Some b]) \<and> whole [82, comma, 99, 100] 77 [1, 2, 3, 4, 5, 6] b"
proof -
  let ?fs = "[sample_frag 3 [4, 5, 6], sample_frag 2 [3, 4], sample_frag 3 [4, 5, 6], sample_frag 0 [1, 2]]"
  note s = sample_frag_piece [of 3 "[4, 5, 6]"] sample_frag_piece [of 2 "[3, 4]"] sample_frag_piece [of 0 "[1, 2]"]
  have "\<not> covers (butlast ?fs) 0" using s by (simp add: covers_def)
  then have "\<not> complete [1, 2, 3, 4, 5, 6] (butlast ?fs)" by (auto simp: complete_def)
  moreover have "complete [1, 2, 3, 4, 5, 6] ?fs" using s by (auto simp: complete_def covers_def)
  moreover have "\<forall>f\<in>set ?fs. piece [82, comma, 99, 100] 77 [1, 2, 3, 4, 5, 6] f" using s by simp
  moreover have "\<forall>g\<in>set []. foreign [82, comma, 99, 100] 77 g" "2 \<le> length ?fs" by simp_all
  moreover have len: "length ?fs - 1 = 3" by simp
  ultimately show ?thesis
    using reassembly [of "[]" "[82, comma, 99, 100]" 77 ?fs "[1, 2, 3, 4, 5, 6]"] unfolding len by blast
qed

text \<open>
  \<^bold>\<open>C30\<close> When \<^verbatim>\<open>fragment\<close> splits a bundle whose payload \<open>P\<close> is not a fragment itself, the first fragment has the first \<open>n\<close>
  bytes, \<open>n\<close> being the chunk that is computed from the MTU and the sizes; it is positive. The two fragments state offsets and lengths that
  cover the payload, and in either order they are put together to one bundle; but the second one carries the first bytes again
  instead of the last ones (both copies start at \<^verbatim>\<open>olddata\<close>). The payload that is delivered is the first \<open>n\<close> bytes followed by
  the first bytes again, up to the length of \<open>P\<close>; it is \<open>P\<close> only if the rest of \<open>P\<close> happens to repeat its beginning.
\<close>

theorem fragments_misassemble:
  assumes "b_dict b = Some d" "recs_ok (d_record d)" "chain_ok (d_next_hdr d) (b_hdrs b)"
    "bdl_parts b = Some (None, Some (c, len, Some P))" "length P = unat len"
    "bdl_eid b = Some e" "p_timestamp (b_prim b) = t" "\<forall>g\<in>set A. foreign e t g"
    "fragment base mtu exact b = Some (b1, Some b2)"
  shows "\<exists>hsize chunk. get_data_size b 1 = Some hsize \<and> frag_chunk base mtu exact hsize len = Some (Some chunk) \<and>
    0 < unat chunk \<and> unat chunk \<le> length P \<and>
    (let n = unat chunk; P' = take n P @ take (length P - n) P in
       (\<exists>b'. receive_all A [b1, b2] = Some (A, [None, Some b']) \<and> whole e t P' b') \<and>
       (\<exists>b'. receive_all A [b2, b1] = Some (A, [None, Some b']) \<and> whole e t P' b') \<and>
       (P' = P \<longleftrightarrow> drop n P = take (length P - n) P))"
proof -
  obtain hsize chunk where h: "get_data_size b 1 = Some hsize" "frag_chunk base mtu exact hsize len = Some (Some chunk)"
    and n: "0 < unat chunk" "unat chunk \<le> length P"
    and p: "piece e t (take (unat chunk) P @ take (length P - unat chunk) P) b1" "piece e t (take (unat chunk) P @ take (length P - unat chunk) P) b2"
    and at: "piece_off b1 = 0" "piece_len b1 = unat chunk" "piece_off b2 = unat chunk" "piece_len b2 = length P - unat chunk"
    using fragment_pieces [OF assms(1-7,9)] by (auto simp: Let_def)
  let ?n = "unat chunk" and ?P = "take (unat chunk) P @ take (length P - unat chunk) P"
  have ns: "\<not> same_place b1 b2" "\<not> same_place b2 b1" using at n by (auto simp: same_place_def)
  have c: "complete ?P [b1, b2]" "complete ?P [b2, b1]" using at n(2) by (auto simp: complete_def covers_def)
  have "?P = P \<longleftrightarrow> drop ?n P = take (length P - ?n) P" by (metis append_take_drop_id same_append_eq)
  then show ?thesis
    using h n receive_two [OF assms(8) p ns(1) c(1)] receive_two [OF assms(8) p(2,1) ns(2) c(2)] unfolding Let_def by blast
qed

text \<open>The sample has six bytes; with room for four of them the fragments have three each, and the last three bytes are lost.\<close>

theorem fragments_misassemble_witness:
  "\<exists>b1 b2. fragment 20 48 False sample_bdl = Some (b1, Some b2) \<and>
     (\<exists>b'. receive_all [] [b1, b2] = Some ([], [None, Some b']) \<and> whole [82, comma, 99, 100] 77 [1, 2, 3, 1, 2, 3] b') \<and>
     (\<exists>b'. receive_all [] [b2, b1] = Some ([], [None, Some b']) \<and> whole [82, comma, 99, 100] 77 [1, 2, 3, 1, 2, 3] b')"
proof -
  have ok: "recs_ok (d_record sample_dict)" by code_simp
  have parts: "bdl_parts sample_bdl = Some (None, Some (0, 6, Some [1, 2, 3, 4, 5, 6]))"
    by (simp add: bdl_parts_def sample_bdl_def sample_dict_def)
  have h: "get_data_size sample_bdl 1 = Some 15" "get_data_size sample_bdl 2 = Some 6"
    by code_simp+
  have chunk: "frag_chunk 20 48 False 15 6 = Some (Some 3)" by code_simp
  obtain b1 b2 where "frag_bundle 3 sample_dict sample_bdl = Some (b1, b2)"
    using frag_bundle_ok [of sample_bdl sample_dict None 0 6 "[1, 2, 3, 4, 5, 6]" 3] ok parts
    by (auto simp: sample_bdl_def sample_dict_def c_read_def)
  then have f: "fragment 20 48 False sample_bdl = Some (b1, Some b2)"
    using h chunk by (simp add: fragment_def) (simp add: sample_bdl_def)
  have e: "bdl_eid sample_bdl = Some [82, comma, 99, 100]"
    using sample_eid by (simp add: bdl_eid_def sample_bdl_def sample_prim_def comma_def)
  have b: "b_dict sample_bdl = Some sample_dict" "chain_ok (d_next_hdr sample_dict) (b_hdrs sample_bdl)"
    "length [1 :: u8, 2, 3, 4, 5, 6] = unat (6 :: u32)" "p_timestamp (b_prim sample_bdl) = 77"
    "\<forall>g \<in> set []. foreign [82, comma, 99, 100] 77 g"
    by (simp_all add: sample_bdl_def sample_dict_def sample_prim_def c_read_def)
  show ?thesis
    using fragments_misassemble [OF b(1) ok b(2) parts b(3) e b(4,5) f] f by (auto simp: h(1) chunk Let_def)
qed

end
