(* ===== verification/Dtn_Report.thy ===== *)
theory Dtn_Report
  imports Dtn_Fragment
begin

text \<open>
  Status reports and delivery options of bundles: \<^verbatim>\<open>generateReport\<close>
  (\<^verbatim>\<open>dtn/bundle.cc\<close>), and \<^verbatim>\<open>buildReport\<close>, \<^verbatim>\<open>parseReport\<close>
  and the two \<^verbatim>\<open>parseOptions\<close> of \<^verbatim>\<open>dtn/bundlemanager.cc\<close>.

  A new report is allocated in memory whose content is the argument \<open>mem\<close>: the fields that
  the constructor leaves alone keep it.  The current time stamp is an argument.
\<close>

subsection \<open>Flags\<close>

definition BDL_PRIO_EXP :: u8 where "BDL_PRIO_EXP = 0x10"
definition BDL_PRIO_NORM :: u8 where "BDL_PRIO_NORM = 0x20"
definition BDL_PRIO_BULK :: u8 where "BDL_PRIO_BULK = 0x40"
definition BDL_COS_CUST :: u8 where "BDL_COS_CUST = 0x80"
definition BDL_COS_CTREP :: u8 where "BDL_COS_CTREP = 0x01"
definition BDL_COS_BREC :: u8 where "BDL_COS_BREC = 0x02"
definition BDL_COS_BFWD :: u8 where "BDL_COS_BFWD = 0x04"
definition BDL_COS_RET :: u8 where "BDL_COS_RET = 0x08"
definition BDL_COS_PRIMASK :: u8 where "BDL_COS_PRIMASK = 0x70"
definition BDL_PSEC_ENC :: u8 where "BDL_PSEC_ENC = 0x80"
definition BDL_PSEC_AUTH :: u8 where "BDL_PSEC_AUTH = 0x40"
definition BDL_PSEC_INT :: u8 where "BDL_PSEC_INT = 0x20"
definition BDL_PCLASS_NORMAL :: u8 where "BDL_PCLASS_NORMAL = 0x00"
definition BDL_PCLASS_REPORT :: u8 where "BDL_PCLASS_REPORT = 0x01"
definition BDL_PCLASS_CUST :: u8 where "BDL_PCLASS_CUST = 0x02"
definition BDL_RPT_RECV :: u8 where "BDL_RPT_RECV = 0x01"
definition BDL_RPT_CUST :: u8 where "BDL_RPT_CUST = 0x02"
definition BDL_RPT_FWD :: u8 where "BDL_RPT_FWD = 0x04"
definition BDL_RPT_DELIV :: u8 where "BDL_RPT_DELIV = 0x08"
definition BDL_RPT_EXP :: u8 where "BDL_RPT_EXP = 0x10"
definition BDL_RPT_FRAG :: u8 where "BDL_RPT_FRAG = 0x80"
definition BDL_CUST_SUCC :: u8 where "BDL_CUST_SUCC = 0x01"
definition BDL_CUST_FRAG :: u8 where "BDL_CUST_FRAG = 0x80"
definition BDL_CUST_ACCEPT :: u8 where "BDL_CUST_ACCEPT = 0x01"

lemmas bdl_flags = BDL_PRIO_EXP_def BDL_PRIO_NORM_def BDL_PRIO_BULK_def BDL_COS_CUST_def BDL_COS_CTREP_def
  BDL_COS_BREC_def BDL_COS_BFWD_def BDL_COS_RET_def BDL_COS_PRIMASK_def BDL_PSEC_ENC_def BDL_PSEC_AUTH_def
  BDL_PSEC_INT_def BDL_PCLASS_NORMAL_def BDL_PCLASS_REPORT_def BDL_PCLASS_CUST_def BDL_RPT_RECV_def
  BDL_RPT_CUST_def BDL_RPT_FWD_def BDL_RPT_DELIV_def BDL_RPT_EXP_def BDL_RPT_FRAG_def BDL_CUST_SUCC_def
  BDL_CUST_FRAG_def BDL_CUST_ACCEPT_def

abbreviation flag :: "u8 \<Rightarrow> u8 \<Rightarrow> bool" where
  "flag x f \<equiv> x AND f \<noteq> 0"

subsection \<open>\<^verbatim>\<open>generateReport\<close>\<close>

definition new_report :: "bdl_report \<Rightarrow> bdl_report" where
  "new_report mem = mem\<lparr>r_type := 0, r_flags := 0, r_reason := 0, r_reg_id := None, r_adm_id := None, r_dest := None\<rparr>"

text \<open>What both reports are filled with: the time stamp, the source and the destination of the
  report.  A record that is missing is dereferenced.\<close>

definition fill_report :: "bdl \<Rightarrow> u8 \<Rightarrow> u8 \<Rightarrow> bdl_report \<Rightarrow> bdl_report exec" where
  "fill_report b pclass dest r =
     do { d \<leftarrow> b_dict b;
          reg \<leftarrow> get_record (d_record d) (uint (p_src (b_prim b) AND 0xf0) div 0x10);
          adm \<leftarrow> get_record (d_record d) (uint (p_src (b_prim b) AND 0x0f));
          Some (r\<lparr>r_type := ucast pclass, r_flags := 0, r_timestamp := p_timestamp (b_prim b),
                  r_reg_len := sr_len reg, r_reg_id := Some (sr_text reg),
                  r_adm_len := sr_len adm, r_adm_id := Some (sr_text adm),
                  r_dest := get_records (d_record d) dest\<rparr>) }"

definition add_flag :: "bool \<Rightarrow> u8 \<Rightarrow> (bdl_report \<Rightarrow> bdl_report) \<Rightarrow> bdl_report \<Rightarrow> bdl_report" where
  "add_flag c f upd r = (if c then upd (r\<lparr>r_flags := r_flags r OR f\<rparr>) else r)"

definition status_flags :: "u64 \<Rightarrow> u8 \<Rightarrow> u8 \<Rightarrow> bdl_report \<Rightarrow> bdl_report" where
  "status_flags now cosf rflags r =
     add_flag (flag rflags BDL_RPT_EXP) BDL_RPT_EXP (r_todelet_update (\<lambda>_. now))
    (add_flag (flag rflags BDL_RPT_DELIV \<and> flag cosf BDL_COS_RET) BDL_RPT_DELIV (r_todeliv_update (\<lambda>_. now))
    (add_flag (flag rflags BDL_RPT_FWD \<and> flag cosf BDL_COS_BFWD) BDL_RPT_FWD (r_tof_update (\<lambda>_. now))
    (add_flag (flag rflags BDL_RPT_CUST \<and> flag cosf BDL_COS_CTREP) BDL_RPT_CUST (\<lambda>r. r)
    (add_flag (flag rflags BDL_RPT_RECV \<and> flag cosf BDL_COS_BREC) BDL_RPT_RECV (r_tor_update (\<lambda>_. now)) r))))"

text \<open>The fragment flag and the place of the payload; a report of nothing else is no report.\<close>

definition frag_flags :: "frag_fields option \<Rightarrow> u32 \<Rightarrow> bdl_report \<Rightarrow> bdl_report" where
  "frag_flags fh len r =
     (let r0 = r\<lparr>r_flags := r_flags r AND NOT BDL_RPT_FRAG\<rparr>;
          r1 = (case fh of None \<Rightarrow> r0
                | Some (_, off) \<Rightarrow> r0\<lparr>r_flags := r_flags r0 OR BDL_RPT_FRAG, r_frag_off := off\<rparr>);
          r2 = r1\<lparr>r_frag_len := len\<rparr>
      in if r_flags r2 = BDL_RPT_FRAG then r2\<lparr>r_flags := 0\<rparr> else r2)"

definition generate_report :: "bdl_report \<Rightarrow> bdl_report \<Rightarrow> u64 \<Rightarrow> bdl \<Rightarrow> u8 \<Rightarrow> u8 \<Rightarrow> u8 \<Rightarrow> bdl exec" where
  "generate_report mem1 mem2 now b rflags cflags reason =
     (let cosf = p_cos (b_prim b) in
      do { r0 \<leftarrow> (case b_report b of
                   Some r \<Rightarrow> Some r
                 | None \<Rightarrow> fill_report b BDL_PCLASS_REPORT (p_rpt_to (b_prim b)) (new_report mem1));
           let r1 = status_flags now cosf rflags r0;
           c1 \<leftarrow> (if flag cflags BDL_CUST_SUCC \<and> flag cosf BDL_COS_CUST
                  then do { c0 \<leftarrow> (case b_custreport b of
                              Some c \<Rightarrow> Some c
                            | None \<Rightarrow> do { c \<leftarrow> fill_report b BDL_PCLASS_CUST (p_cust (b_prim b)) (new_report mem2);
                                           Some (c\<lparr>r_tos := now\<rparr>) });
                            Some (Some (c0\<lparr>r_flags := r_flags c0 OR BDL_CUST_SUCC, r_reason := reason\<rparr>)) }
                  else Some (b_custreport b));
           (fh, py) \<leftarrow> bdl_parts b;
           (_, len, _) \<leftarrow> py;
           Some (b\<lparr>b_report := Some (frag_flags fh len r1), b_custreport := map_option (frag_flags fh len) c1\<rparr>) })"

subsection \<open>The payload of a report\<close>

definition report_len :: "bdl_report \<Rightarrow> c_int" where
  "report_len r =
     3 * 1 + 8 + ucast (r_reg_len r) + ucast (r_adm_len r)
     + (if flag (r_flags r) BDL_RPT_FRAG then 2 * 4 else 0)
     + (if r_type r = ucast BDL_PCLASS_REPORT
        then (if flag (r_flags r) BDL_RPT_RECV then 8 else 0)
           + (if flag (r_flags r) BDL_RPT_FWD then 8 else 0)
           + (if flag (r_flags r) BDL_RPT_DELIV then 8 else 0)
           + (if flag (r_flags r) BDL_RPT_EXP then 8 else 0)
        else if r_type r = ucast BDL_PCLASS_CUST then 8 + 1 else 0)"

definition report_bytes :: "bdl_report \<Rightarrow> bytes exec" where
  "report_bytes r =
     do { reg \<leftarrow> c_read (r_reg_id r) (unat (r_reg_len r));
          adm \<leftarrow> c_read (r_adm_id r) (unat (r_adm_len r));
          Some ([r_flags r]
            @ (if r_type r = ucast BDL_PCLASS_CUST then [r_reason r] else [])
            @ (if flag (r_flags r) BDL_RPT_FRAG then u32_bytes (r_frag_off r) @ u32_bytes (r_frag_len r) else [])
            @ le_bytes 8 (r_timestamp r)
            @ (if r_type r = ucast BDL_PCLASS_REPORT
               then (if flag (r_flags r) BDL_RPT_RECV then le_bytes 8 (r_tor r) else [])
                  @ (if flag (r_flags r) BDL_RPT_FWD then le_bytes 8 (r_tof r) else [])
                  @ (if flag (r_flags r) BDL_RPT_DELIV then le_bytes 8 (r_todeliv r) else [])
                  @ (if flag (r_flags r) BDL_RPT_EXP then le_bytes 8 (r_todelet r) else [])
               else if r_type r = ucast BDL_PCLASS_CUST then le_bytes 8 (r_tos r) else [])
            @ [r_reg_len r] @ reg @ [r_adm_len r] @ adm) }"

text \<open>
  \<^verbatim>\<open>parseReport\<close> reads the payload step by step; the reader state is the position
  and what is behind it in the array.  The result of a reader is \<^const>\<open>None\<close> for an
  undefined read, and \<open>Some None\<close> where the function returns a null pointer.
\<close>

type_synonym 'a reader = "nat \<times> bytes \<Rightarrow> ('a \<times> nat \<times> bytes) option exec"

definition rret :: "'a \<Rightarrow> 'a reader" where
  "rret x = (\<lambda>st. Some (Some (x, st)))"

definition rbind :: "'a reader \<Rightarrow> ('a \<Rightarrow> 'b reader) \<Rightarrow> 'b reader" where
  "rbind f g = (\<lambda>st. case f st of None \<Rightarrow> None | Some None \<Rightarrow> Some None | Some (Some (x, st')) \<Rightarrow> g x st')"

definition rtake :: "nat \<Rightarrow> bytes reader" where
  "rtake n = (\<lambda>(pos, rest). do { a \<leftarrow> c_read (Some rest) n; Some (Some (a, pos + n, drop n rest)) })"

text \<open>Checks of the position against the length of the payload, signed and unsigned.\<close>

definition rcheck_s :: "c_int \<Rightarrow> c_int \<Rightarrow> unit reader" where
  "rcheck_s plen n = (\<lambda>(pos, rest). Some (if plen <s of_nat pos + n then None else Some ((), pos, rest)))"

definition rcheck_u :: "c_int \<Rightarrow> c_int \<Rightarrow> unit reader" where
  "rcheck_u plen n = (\<lambda>(pos, rest). Some (if plen < of_nat pos + n then None else Some ((), pos, rest)))"

definition rd_byte :: "u8 reader" where
  "rd_byte = rbind (rtake 1) (\<lambda>a. rret (hd a))"

definition rd_u32 :: "c_int \<Rightarrow> u32 reader" where
  "rd_u32 plen = rbind (rcheck_u plen 4) (\<lambda>_. rbind (rtake 4) (\<lambda>a. rret (of_le_bytes a)))"

definition rd_u64 :: "c_int \<Rightarrow> u64 reader" where
  "rd_u64 plen = rbind (rcheck_u plen 8) (\<lambda>_. rbind (rtake 8) (\<lambda>a. rret (of_le_bytes a)))"

definition rd_when :: "bool \<Rightarrow> 'a reader \<Rightarrow> ('a \<Rightarrow> bdl_report \<Rightarrow> bdl_report) \<Rightarrow> bdl_report \<Rightarrow> bdl_report reader" where
  "rd_when c f upd r = (if c then rbind f (\<lambda>x. rret (upd x r)) else rret r)"

definition rd_sized :: "c_int \<Rightarrow> (u8 \<times> bytes) reader" where
  "rd_sized plen = rbind (rcheck_s plen 1) (\<lambda>_. rbind rd_byte (\<lambda>len.
     rbind (rcheck_s plen (ucast len)) (\<lambda>_. rbind (rtake (unat len)) (\<lambda>a. rret (len, a)))))"

definition set_reg :: "u8 \<times> bytes \<Rightarrow> bdl_report \<Rightarrow> bdl_report" where
  "set_reg x r = r\<lparr>r_reg_len := fst x, r_reg_id := Some (snd x)\<rparr>"

definition set_adm :: "u8 \<times> bytes \<Rightarrow> bdl_report \<Rightarrow> bdl_report" where
  "set_adm x r = r\<lparr>r_adm_len := fst x, r_adm_id := Some (snd x)\<rparr>"

definition report_reader :: "c_int \<Rightarrow> bdl_report \<Rightarrow> bdl_report reader" where
  "report_reader plen r0 =
     rbind (rcheck_s plen 1) (\<lambda>_. rbind rd_byte (\<lambda>flags. let r1 = r0\<lparr>r_flags := flags\<rparr> in
     rbind (rd_when (r_type r0 = ucast BDL_PCLASS_CUST) rd_byte (\<lambda>x. r_reason_update (\<lambda>_. x)) r1) (\<lambda>r2.
     rbind (rd_when (flag flags BDL_RPT_FRAG) (rd_u32 plen) (\<lambda>x. r_frag_off_update (\<lambda>_. x)) r2) (\<lambda>r3.
     rbind (rd_when (flag flags BDL_RPT_FRAG) (rd_u32 plen) (\<lambda>x. r_frag_len_update (\<lambda>_. x)) r3) (\<lambda>r4.
     rbind (rd_when True (rd_u64 plen) (\<lambda>x. r_timestamp_update (\<lambda>_. x)) r4) (\<lambda>r5.
     let rep = (r_type r0 = ucast BDL_PCLASS_REPORT);
         sig = (r_type r0 = ucast BDL_PCLASS_CUST) in
     rbind (rd_when (rep \<and> flag flags BDL_RPT_RECV) (rd_u64 plen) (\<lambda>x. r_tor_update (\<lambda>_. x)) r5) (\<lambda>r6.
     rbind (rd_when (rep \<and> flag flags BDL_RPT_FWD) (rd_u64 plen) (\<lambda>x. r_tof_update (\<lambda>_. x)) r6) (\<lambda>r7.
     rbind (rd_when (rep \<and> flag flags BDL_RPT_DELIV) (rd_u64 plen) (\<lambda>x. r_todeliv_update (\<lambda>_. x)) r7) (\<lambda>r8.
     rbind (rd_when (rep \<and> flag flags BDL_RPT_EXP) (rd_u64 plen) (\<lambda>x. r_todelet_update (\<lambda>_. x)) r8) (\<lambda>r9.
     rbind (rd_when (\<not> rep \<and> sig) (rd_u64 plen) (\<lambda>x. r_tos_update (\<lambda>_. x)) r9) (\<lambda>r10.
     rbind (rd_when True (rd_sized plen) set_reg r10) (\<lambda>r11.
     rd_when True (rd_sized plen) set_adm r11))))))))))))"

definition parse_report :: "bdl_report \<Rightarrow> hdr option \<Rightarrow> bdl_report option exec" where
  "parse_report mem pyldhdr = (case pyldhdr of
     Some (Pyld c len p) \<Rightarrow>
       if c = BDL_PCLASS_REPORT \<or> c = BDL_PCLASS_CUST
       then map_option (map_option fst)
              (report_reader len ((new_report mem)\<lparr>r_type := ucast c\<rparr>) (0, case p of None \<Rightarrow> [] | Some a \<Rightarrow> a))
       else Some None
   | _ \<Rightarrow> Some None)"

text \<open>
  \<^verbatim>\<open>buildReport\<close> on a bundle with the requested report: \<open>endpoint\<close> is the
  address of the local agent.  The inner \<^const>\<open>None\<close> is a returned null pointer.  The
  payload is built, and the bundle's new payload header gets its class and its length, but no
  memory: the \<^verbatim>\<open>strcat\<close> that follows reads and writes through the null pointer of
  its constructor.  Of the new primary header the fields are set on which the outcome depends.
\<close>

definition c_strcat_null :: "bytes option \<Rightarrow> bytes option exec" where
  "c_strcat_null p = (case p of None \<Rightarrow> None | Some a \<Rightarrow> Some (Some (cstr a)))"

fun new_payload :: "hdr \<Rightarrow> bytes option" where
  "new_payload (Pyld _ _ p) = p"
| "new_payload _ = None"

text \<open>The code aborts when a string record cannot be added.\<close>

definition added :: "str_records \<times> int \<Rightarrow> (str_records \<times> int) exec" where
  "added r = (if snd r = -1 then None else Some r)"

definition build_report :: "bytes \<Rightarrow> bdl \<Rightarrow> u8 \<Rightarrow> bdl option exec" where
  "build_report endpoint b typ =
     (case (if typ = BDL_PCLASS_REPORT \<and> b_report b \<noteq> None then b_report b
            else if typ = BDL_PCLASS_CUST then b_custreport b else None) of
        None \<Rightarrow> Some None
      | Some r \<Rightarrow>
          do { dest \<leftarrow> r_dest r;
               if cstr endpoint = cstr dest then Some None
               else do {
                 let ack = (r_type r = ucast BDL_PCLASS_CUST \<and> flag (r_flags r) BDL_CUST_SUCC);
                 let r1 = (if ack then r\<lparr>r_reason := BDL_CUST_ACCEPT\<rparr> else r);
                 py \<leftarrow> (if ack then do { parts \<leftarrow> bdl_parts b; Some (snd parts) } else Some None);
                 (if ack \<and> py = None then Some None
                  else do {
                    cust \<leftarrow> (case py of
                       Some (c, _, _) \<Rightarrow> if c = BDL_PCLASS_NORMAL then Some (Some endpoint)
                                         else if c = BDL_PCLASS_CUST then Some None else None
                     | None \<Rightarrow> Some None);
                    payload \<leftarrow> report_bytes r1;
                    (rs1, dst) \<leftarrow> added (add_record [] (Some dest));
                    (rs2, src) \<leftarrow> added (add_record rs1 (Some endpoint));
                    (rs3, rpt) \<leftarrow> added (add_record rs2 (Some endpoint));
                    (rs4, cu) \<leftarrow> (case cust of None \<Rightarrow> Some (rs3, 0) | Some k \<Rightarrow> added (add_record rs3 (Some k)));
                    data \<leftarrow> c_strcat_null (new_payload new_pyld);
                    Some (Some (b\<lparr>b_dict := Some \<lparr>d_next_hdr = BDL_PYLD, d_strcount = int (length rs4), d_record = rs4\<rparr>,
                      b_hdrs := [Pyld (if ack then BDL_PCLASS_CUST else BDL_PCLASS_REPORT) (report_len r1) data],
                      b_prim := (b_prim b)\<lparr>p_next_hdr := BDL_DICT, p_pld_sec := 0, p_dest := of_int dst, p_src := of_int src,
                        p_rpt_to := of_int rpt, p_cust := of_int cu,
                        p_cos := (if cust \<noteq> None then BDL_COS_CUST else 0) OR (p_cos (b_prim b) AND BDL_COS_PRIMASK)\<rparr>\<rparr>)) }) } })"

subsection \<open>Reading back what was written\<close>

definition reads :: "c_int \<Rightarrow> 'a reader \<Rightarrow> bytes \<Rightarrow> 'a \<Rightarrow> bool" where
  "reads plen f bs x \<longleftrightarrow> (\<forall>pos rest. pos + length bs \<le> unat plen \<longrightarrow>
     f (pos, bs @ rest) = Some (Some (x, pos + length bs, rest)))"

named_theorems reading \<open>readers of what the builder writes\<close>

lemma reads_ret [reading]: "reads plen (rret x) [] x"
  by (simp add: reads_def rret_def)

lemma reads_bind: "reads plen f as x \<Longrightarrow> reads plen (g x) bs y \<Longrightarrow> reads plen (rbind f g) (as @ bs) y"
  by (simp add: reads_def rbind_def)

lemma reads_take: "reads plen (rtake (length a)) a a"
  by (simp add: reads_def rtake_def)

lemma reads_bind_ret: "reads plen f bs x \<Longrightarrow> reads plen (rbind f (\<lambda>x. rret (g x))) bs (g x)"
  using reads_bind [OF _ reads_ret, of plen f bs x g] by simp

lemma reads_byte [reading]: "reads plen rd_byte [b] b"
  using reads_bind_ret [OF reads_take [of plen "[b]"], of hd] by (simp add: rd_byte_def)

lemma reads_checked:
  assumes "unat plen < 2 ^ 31" "reads plen h bs y" "n \<le> length bs"
  shows "reads plen (rbind (rcheck_s plen (of_nat n)) (\<lambda>_. h)) bs y"
    and "reads plen (rbind (rcheck_u plen (of_nat n)) (\<lambda>_. h)) bs y"
proof -
  have e: "of_nat pos + of_nat n = (of_nat (pos + n) :: c_int)" for pos by simp
  have "\<not> plen <s of_nat pos + of_nat n" "\<not> plen < of_nat pos + of_nat n" if "pos + length bs \<le> unat plen" for pos
    unfolding e using sless_count [of "pos + n" plen] that assms(1,3) by simp_all
  then show "reads plen (rbind (rcheck_s plen (of_nat n)) (\<lambda>_. h)) bs y"
    and "reads plen (rbind (rcheck_u plen (of_nat n)) (\<lambda>_. h)) bs y"
    using assms(2) by (simp_all add: reads_def rbind_def rcheck_s_def rcheck_u_def)
qed

lemma reads_u32 [reading]: "unat plen < 2 ^ 31 \<Longrightarrow> reads plen (rd_u32 plen) (u32_bytes w) w"
  using reads_checked(2) [of plen _ "u32_bytes w" w 4] reads_bind_ret [OF reads_take [of plen "u32_bytes w"], of "of_le_bytes :: bytes \<Rightarrow> u32"]
  by (simp add: rd_u32_def)

lemma reads_u64 [reading]: "unat plen < 2 ^ 31 \<Longrightarrow> reads plen (rd_u64 plen) (le_bytes 8 w) w"
  using reads_checked(2) [of plen _ "le_bytes 8 w" w 8]
    reads_bind_ret [OF reads_take [of plen "le_bytes 8 w"], of "of_le_bytes :: bytes \<Rightarrow> u64"]
  by (simp add: rd_u64_def)

lemma reads_sized [reading]:
  assumes "unat plen < 2 ^ 31" "length a = unat n"
  shows "reads plen (rd_sized plen) ([n] @ a) (n, a)"
proof -
  have "reads plen (rbind (rtake (unat n)) (\<lambda>a. rret (n, a))) a (n, a)"
    using reads_bind_ret [OF reads_take [of plen a]] assms(2) by simp
  from reads_checked(1) [OF assms(1) this, of "unat n"]
  have "reads plen (rbind (rcheck_s plen (ucast n)) (\<lambda>_. rbind (rtake (unat n)) (\<lambda>a. rret (n, a)))) a (n, a)"
    using assms(2) by simp
  from reads_bind [where g = "\<lambda>n. rbind (rcheck_s plen (ucast n)) (\<lambda>_. rbind (rtake (unat n)) (\<lambda>a. rret (n, a)))",
      OF reads_byte this]
  have "reads plen (rbind rd_byte (\<lambda>n. rbind (rcheck_s plen (ucast n)) (\<lambda>_. rbind (rtake (unat n)) (\<lambda>a. rret (n, a))))) ([n] @ a) (n, a)" .
  from reads_checked(1) [OF assms(1) this, of 1] show ?thesis by (simp add: rd_sized_def)
qed

text \<open>What the reader makes of a report.\<close>

definition upd_if :: "bool \<Rightarrow> (bdl_report \<Rightarrow> bdl_report) \<Rightarrow> bdl_report \<Rightarrow> bdl_report" where
  "upd_if c f r = (if c then f r else r)"

definition received :: "bdl_report \<Rightarrow> bytes \<Rightarrow> bytes \<Rightarrow> bdl_report \<Rightarrow> bdl_report" where
  "received r reg adm r0 =
     (let rep = (r_type r = ucast BDL_PCLASS_REPORT); sig = (r_type r = ucast BDL_PCLASS_CUST) in
      (upd_if True (set_adm (r_adm_len r, adm))
      (upd_if True (set_reg (r_reg_len r, reg))
      (upd_if (\<not> rep \<and> sig) (r_tos_update (\<lambda>_. r_tos r))
      (upd_if (rep \<and> flag (r_flags r) BDL_RPT_EXP) (r_todelet_update (\<lambda>_. r_todelet r))
      (upd_if (rep \<and> flag (r_flags r) BDL_RPT_DELIV) (r_todeliv_update (\<lambda>_. r_todeliv r))
      (upd_if (rep \<and> flag (r_flags r) BDL_RPT_FWD) (r_tof_update (\<lambda>_. r_tof r))
      (upd_if (rep \<and> flag (r_flags r) BDL_RPT_RECV) (r_tor_update (\<lambda>_. r_tor r))
      (upd_if True (r_timestamp_update (\<lambda>_. r_timestamp r))
      (upd_if (flag (r_flags r) BDL_RPT_FRAG) (r_frag_len_update (\<lambda>_. r_frag_len r))
      (upd_if (flag (r_flags r) BDL_RPT_FRAG) (r_frag_off_update (\<lambda>_. r_frag_off r))
      (upd_if sig (r_reason_update (\<lambda>_. r_reason r))
        (r0\<lparr>r_flags := r_flags r\<rparr>)))))))))))))"

lemma reads_when:
  assumes "c \<Longrightarrow> reads plen f bs x"
  shows "reads plen (rd_when c f upd r) (if c then bs else []) (upd_if c (upd x) r)"
proof (cases c)
  case True
  then show ?thesis using reads_bind_ret [OF assms, of "\<lambda>x. upd x r"] by (simp add: rd_when_def upd_if_def)
qed (simp add: rd_when_def upd_if_def reads_ret)

lemma reads_report:
  assumes p: "unat plen < 2 ^ 31" and ty: "r_type r0 = r_type r"
    and reg: "length reg = unat (r_reg_len r)" and adm: "length adm = unat (r_adm_len r)"
  shows "reads plen (report_reader plen r0)
    ([r_flags r]
      @ (if r_type r = ucast BDL_PCLASS_CUST then [r_reason r] else [])
      @ (if flag (r_flags r) BDL_RPT_FRAG then u32_bytes (r_frag_off r) else [])
      @ (if flag (r_flags r) BDL_RPT_FRAG then u32_bytes (r_frag_len r) else [])
      @ (if True then le_bytes 8 (r_timestamp r) else [])
      @ (if r_type r = ucast BDL_PCLASS_REPORT \<and> flag (r_flags r) BDL_RPT_RECV then le_bytes 8 (r_tor r) else [])
      @ (if r_type r = ucast BDL_PCLASS_REPORT \<and> flag (r_flags r) BDL_RPT_FWD then le_bytes 8 (r_tof r) else [])
      @ (if r_type r = ucast BDL_PCLASS_REPORT \<and> flag (r_flags r) BDL_RPT_DELIV then le_bytes 8 (r_todeliv r) else [])
      @ (if r_type r = ucast BDL_PCLASS_REPORT \<and> flag (r_flags r) BDL_RPT_EXP then le_bytes 8 (r_todelet r) else [])
      @ (if r_type r \<noteq> ucast BDL_PCLASS_REPORT \<and> r_type r = ucast BDL_PCLASS_CUST then le_bytes 8 (r_tos r) else [])
      @ (if True then [r_reg_len r] @ reg else [])
      @ (if True then [r_adm_len r] @ adm else []))
    (received r reg adm r0)"
  (is "reads plen _ (_ @ ?rest) _")
proof -
  have inner: "reads plen (rbind rd_byte g) ([r_flags r] @ ?rest) (received r reg adm r0)
      \<Longrightarrow> reads plen (rbind (rcheck_s plen 1) (\<lambda>_. rbind rd_byte g)) ([r_flags r] @ ?rest) (received r reg adm r0)" for g
    using reads_checked(1) [OF p, of "rbind rd_byte g" "[r_flags r] @ ?rest" _ 1] by simp
  show ?thesis
    unfolding report_reader_def ty Let_def
    apply (rule inner)
    unfolding received_def Let_def
    apply (rule reads_bind, rule reads_byte)
    apply (rule reads_bind, rule reads_when,
      (rule reads_byte | rule reads_u32 [OF p] | rule reads_u64 [OF p] | rule reads_sized [OF p reg]))+
    apply (rule reads_when, rule reads_sized [OF p adm])
    done
qed

lemma pclass_distinct [simp]: "(ucast BDL_PCLASS_REPORT :: c_int) \<noteq> ucast BDL_PCLASS_CUST"
    "(ucast BDL_PCLASS_CUST :: c_int) \<noteq> ucast BDL_PCLASS_REPORT"
    "BDL_PCLASS_REPORT \<noteq> BDL_PCLASS_CUST" "BDL_PCLASS_CUST \<noteq> BDL_PCLASS_REPORT"
  by (simp_all add: bdl_flags)

lemma if_append: "(if c then xs @ ys else []) = (if c then xs else []) @ (if c then ys else [])"
  by simp

lemma report_bytes_reads:
  assumes "report_bytes r = Some bs" "unat plen < 2 ^ 31" "r_type r0 = r_type r"
  obtains reg adm where "reads plen (report_reader plen r0) bs (received r reg adm r0)"
    "c_read (r_reg_id r) (unat (r_reg_len r)) = Some reg" "c_read (r_adm_id r) (unat (r_adm_len r)) = Some adm"
proof -
  obtain reg adm where ra: "c_read (r_reg_id r) (unat (r_reg_len r)) = Some reg"
    "c_read (r_adm_id r) (unat (r_adm_len r)) = Some adm"
    using assms(1) by (auto simp: report_bytes_def bind_eq_Some_conv)
  then have len: "length reg = unat (r_reg_len r)" "length adm = unat (r_adm_len r)"
    by (auto simp: c_read_def split: option.splits if_splits)
  have bs: "bs = [r_flags r]
      @ (if r_type r = ucast BDL_PCLASS_CUST then [r_reason r] else [])
      @ (if flag (r_flags r) BDL_RPT_FRAG then u32_bytes (r_frag_off r) else [])
      @ (if flag (r_flags r) BDL_RPT_FRAG then u32_bytes (r_frag_len r) else [])
      @ (if True then le_bytes 8 (r_timestamp r) else [])
      @ (if r_type r = ucast BDL_PCLASS_REPORT \<and> flag (r_flags r) BDL_RPT_RECV then le_bytes 8 (r_tor r) else [])
      @ (if r_type r = ucast BDL_PCLASS_REPORT \<and> flag (r_flags r) BDL_RPT_FWD then le_bytes 8 (r_tof r) else [])
      @ (if r_type r = ucast BDL_PCLASS_REPORT \<and> flag (r_flags r) BDL_RPT_DELIV then le_bytes 8 (r_todeliv r) else [])
      @ (if r_type r = ucast BDL_PCLASS_REPORT \<and> flag (r_flags r) BDL_RPT_EXP then le_bytes 8 (r_todelet r) else [])
      @ (if r_type r \<noteq> ucast BDL_PCLASS_REPORT \<and> r_type r = ucast BDL_PCLASS_CUST then le_bytes 8 (r_tos r) else [])
      @ (if True then [r_reg_len r] @ reg else [])
      @ (if True then [r_adm_len r] @ adm else [])"
    using assms(1) ra
    by (cases "r_type r = ucast BDL_PCLASS_REPORT"; cases "r_type r = ucast BDL_PCLASS_CUST")
      (simp_all add: report_bytes_def if_append [of "flag (r_flags r) BDL_RPT_FRAG"] split del: if_split)
  show thesis using that [OF _ ra] reads_report [OF assms(2,3) len] unfolding bs by blast
qed

lemma report_len_bytes:
  assumes "report_bytes r = Some bs" "r_type r = ucast BDL_PCLASS_REPORT \<or> r_type r = ucast BDL_PCLASS_CUST"
  shows "report_len r = of_nat (length bs)" "length bs < 1000"
proof -
  obtain reg adm where ra: "c_read (r_reg_id r) (unat (r_reg_len r)) = Some reg"
    "c_read (r_adm_id r) (unat (r_adm_len r)) = Some adm"
    using assms(1) by (auto simp: report_bytes_def bind_eq_Some_conv)
  then have len: "length reg = unat (r_reg_len r)" "length adm = unat (r_adm_len r)"
    by (auto simp: c_read_def split: option.splits if_splits)
  show "report_len r = of_nat (length bs)"
    using assms ra len by (auto simp: report_bytes_def report_len_def)
  have small: "unat (r_reg_len r) < 256" "unat (r_adm_len r) < 256" by (rule u8_bound)+
  have "length bs \<le> 60 + (unat (r_reg_len r) + unat (r_adm_len r))"
    using assms ra len by (auto simp: report_bytes_def)
  also have "\<dots> \<le> 60 + (256 + 256)" by (intro add_mono order_less_imp_le small order_refl)
  finally show "length bs < 1000" by simp
qed

subsection \<open>Delivery options\<close>

text \<open>The option strings of \<^verbatim>\<open>dtn/bmflags.h\<close> as bytes.\<close>

definition str :: "string \<Rightarrow> bytes" where
  "str s = map of_char s"

definition opt_names :: "(bytes \<times> u8) list" where
  "opt_names = [(str ''CUST'', BDL_COS_CUST), (str ''EERCPT'', BDL_COS_RET), (str ''REPRCPT'', BDL_COS_BREC),
     (str ''REPFWD'', BDL_COS_BFWD), (str ''REPCUST'', BDL_COS_CTREP), (str ''PSAUTH'', 0), (str ''PSINT'', 0),
     (str ''PSENC'', 0)]"

text \<open>
  The comparisons are \<^verbatim>\<open>strncmp(&options[start], name, i - start)\<close>: they ask whether
  the option is a prefix of the name.  An option that is not known, or not supported, changes
  nothing.
\<close>

fun opt_bit :: "(bytes \<times> u8) list \<Rightarrow> bytes \<Rightarrow> nat \<Rightarrow> u8" where
  "opt_bit [] s n = 0"
| "opt_bit ((name, b) # opts) s n = (if c_strncmp_eq s name n then b else opt_bit opts s n)"

function opt_loop :: "bytes \<Rightarrow> u8 \<Rightarrow> u8" where
  "opt_loop rest ret1 =
     (if rest = [] then ret1
      else let n = length (takeWhile (\<lambda>c. c \<noteq> comma) rest)
           in if c_strncmp_eq rest (str ''NONE'') n then 0
              else opt_loop (drop (n + 1) rest) (ret1 OR opt_bit opt_names rest n))"
  by pat_completeness auto
termination by (relation "measure (\<lambda>(rest, _). length rest)") auto

declare opt_loop.simps [simp del]

text \<open>\<^verbatim>\<open>atoi\<close>: white space, a sign and digits.\<close>

definition is_space :: "u8 \<Rightarrow> bool" where
  "is_space c \<longleftrightarrow> c = 32 \<or> (9 \<le> c \<and> c \<le> 13)"

fun digits :: "int \<Rightarrow> bytes \<Rightarrow> int" where
  "digits n [] = n"
| "digits n (c # cs) = (if 48 \<le> c \<and> c \<le> 57 then digits (10 * n + uint (c - 48)) cs else n)"

definition c_atoi :: "bytes \<Rightarrow> int" where
  "c_atoi s = (case dropWhile is_space (cstr s) of
     [] \<Rightarrow> 0
   | c # cs \<Rightarrow> if c = 45 then - digits 0 cs else if c = 43 then digits 0 cs else digits 0 (c # cs))"

definition parse_options :: "bytes option \<Rightarrow> bytes option \<Rightarrow> hdr_bdlprim \<Rightarrow> hdr_bdlprim" where
  "parse_options cosarg options p =
     (case (cosarg, options) of
        (Some cs, Some opts) \<Rightarrow>
          let ret1 = opt_loop (cstr opts) 0;
              tcos = c_atoi cs;
              prio = (if 0 < tcos \<and> tcos < 16 then of_int (tcos * 0x10) AND BDL_COS_PRIMASK
                      else if c_strncmp_eq cs (str ''NORMAL'') 7 then BDL_PRIO_NORM
                      else if c_strncmp_eq cs (str ''BULK'') 5 then BDL_PRIO_BULK
                      else if c_strncmp_eq cs (str ''EXPEDITED'') 10 then BDL_PRIO_EXP
                      else BDL_COS_PRIMASK)
          in p\<lparr>p_cos := ret1 OR prio, p_pld_sec := 0\<rparr>
      | _ \<Rightarrow> p)"

text \<open>The other direction: the options of the two fields, each followed by a comma, the last
  of which becomes the end of the string.\<close>

definition options_of :: "u8 \<Rightarrow> u8 \<Rightarrow> bytes list" where
  "options_of cosf psec =
     (if flag cosf BDL_COS_CUST then [str ''CUST''] else [])
   @ (if flag cosf BDL_COS_CTREP then [str ''REPCUST''] else [])
   @ (if flag cosf BDL_COS_BREC then [str ''REPRCPT''] else [])
   @ (if flag cosf BDL_COS_BFWD then [str ''REPFWD''] else [])
   @ (if flag cosf BDL_COS_RET then [str ''EERCPT''] else [])
   @ (if flag psec BDL_PSEC_ENC then [str ''PSENC''] else [])
   @ (if flag psec BDL_PSEC_AUTH then [str ''PSAUTH''] else [])
   @ (if flag psec BDL_PSEC_INT then [str ''PSINT''] else [])"

definition render_options :: "u8 \<Rightarrow> u8 \<Rightarrow> bytes exec" where
  "render_options cosf psec =
     (if cosf AND NOT BDL_COS_PRIMASK = 0 then Some (str ''NONE'')
      else let out = concat (map (\<lambda>s. s @ [comma]) (options_of cosf psec))
           in if out = [] then None else Some (butlast out))"

lemma str_simps [simp]: "str [] = []" "str (c # cs) = of_char c # str cs"
  by (simp_all add: str_def)

lemma c_strncmp_word:
  "0 \<notin> set n \<Longrightarrow> c_strncmp_eq (n @ r) m (length n) \<longleftrightarrow> take (length n) (cstr m) = n"
proof -
  assume "0 \<notin> set n"
  then have "cstr (n @ r) = n @ cstr r" unfolding cstr_def by (subst takeWhile_append2) auto
  then show ?thesis by (auto simp: c_strncmp_eq_def)
qed

fun opt_first :: "(bytes \<times> u8) list \<Rightarrow> bytes \<Rightarrow> u8" where
  "opt_first [] n = 0"
| "opt_first ((name, b) # opts) n = (if take (length n) (cstr name) = n then b else opt_first opts n)"

lemma opt_bit_word: "0 \<notin> set n \<Longrightarrow> opt_bit opts (n @ r) (length n) = opt_first opts n"
  by (induction opts n rule: opt_first.induct) (simp_all add: c_strncmp_word)

lemma opt_names_check:
  "list_all (\<lambda>n. n \<noteq> [] \<and> comma \<notin> set n \<and> 0 \<notin> set n \<and> take (length n) (cstr (str ''NONE'')) \<noteq> n
     \<and> opt_first opt_names n = the (map_of opt_names n)) (map fst opt_names)"
  by code_simp

lemma opt_word:
  assumes "n \<in> set (map fst opt_names)"
  shows "n \<noteq> []" "comma \<notin> set n" "\<not> c_strncmp_eq (n @ r) (str ''NONE'') (length n)"
    "opt_bit opt_names (n @ r) (length n) = the (map_of opt_names n)"
proof -
  have "n \<noteq> [] \<and> comma \<notin> set n \<and> 0 \<notin> set n \<and> take (length n) (cstr (str ''NONE'')) \<noteq> n
     \<and> opt_first opt_names n = the (map_of opt_names n)"
    using opt_names_check assms unfolding list_all_iff by blast
  then show "n \<noteq> []" "comma \<notin> set n" "\<not> c_strncmp_eq (n @ r) (str ''NONE'') (length n)"
    "opt_bit opt_names (n @ r) (length n) = the (map_of opt_names n)"
    by (simp_all only: c_strncmp_word opt_bit_word not_False_eq_True)
qed

lemma opt_loop_last:
  assumes "n \<in> set (map fst opt_names)"
  shows "opt_loop n ret = ret OR the (map_of opt_names n)"
proof -
  have t: "takeWhile (\<lambda>c. c \<noteq> comma) n = n" using opt_word(2) [OF assms] by (auto simp: takeWhile_eq_all_conv)
  show ?thesis
    using opt_word(1) [OF assms] opt_word(3,4) [OF assms, where r = "[]"] unfolding opt_loop.simps [of n ret] t
    by (simp add: Let_def opt_loop.simps [of "[]"])
qed

lemma opt_loop_comma:
  assumes "n \<in> set (map fst opt_names)"
  shows "opt_loop (n @ comma # rest) ret = opt_loop rest (ret OR the (map_of opt_names n))"
proof -
  have t: "takeWhile (\<lambda>c. c \<noteq> comma) (n @ comma # rest) = n"
    using opt_word(2) [OF assms] by (subst takeWhile_append2) auto
  show ?thesis
    using opt_word(3,4) [OF assms, where r = "comma # rest"] unfolding opt_loop.simps [of "n @ comma # rest" ret] t
    by (simp add: Let_def)
qed

lemma opt_loop_list:
  "set ns \<subseteq> set (map fst opt_names) \<Longrightarrow> ns \<noteq> []
    \<Longrightarrow> opt_loop (butlast (concat (map (\<lambda>s. s @ [comma]) ns))) ret = fold (\<lambda>n r. r OR the (map_of opt_names n)) ns ret"
proof (induction ns arbitrary: ret)
  case (Cons n ns)
  show ?case
  proof (cases "ns = []")
    case True
    then show ?thesis using Cons.prems opt_loop_last [of n] by simp
  next
    case False
    then have "butlast (concat (map (\<lambda>s. s @ [comma]) (n # ns)))
        = n @ comma # butlast (concat (map (\<lambda>s. s @ [comma]) ns))"
      by (simp add: butlast_append)
    then show ?thesis using Cons False opt_loop_comma [of n] by simp
  qed
qed simp

lemma flag_mask: "(if flag x (push_bit k 1) then push_bit k 1 else 0) = x AND push_bit k 1" for x :: u8
proof (cases "bit x k")
  case True
  then have "x AND push_bit k 1 = push_bit k 1" by (intro bit_word_eqI) (auto simp: bit_simps bit_1_iff)
  then show ?thesis by simp
next
  case False
  then have "x AND push_bit k 1 = 0" by (intro bit_word_eqI) (auto simp: bit_simps bit_1_iff dest: le_antisym)
  then show ?thesis by simp
qed

lemma flag_masks:
  "(if flag x 0x80 then 0x80 else 0) = x AND 0x80" "(if flag x 1 then 1 else 0) = x AND 1"
  "(if flag x 2 then 2 else 0) = x AND 2" "(if flag x 4 then 4 else 0) = x AND 4"
  "(if flag x 8 then 8 else 0) = x AND 8" for x :: u8
proof -
  have p: "push_bit 7 1 = (0x80 :: u8)" "push_bit 0 1 = (1 :: u8)" "push_bit 1 1 = (2 :: u8)"
    "push_bit 2 1 = (4 :: u8)" "push_bit 3 1 = (8 :: u8)" by simp_all
  show "(if flag x 0x80 then 0x80 else 0) = x AND 0x80" "(if flag x 1 then 1 else 0) = x AND 1"
    "(if flag x 2 then 2 else 0) = x AND 2" "(if flag x 4 then 4 else 0) = x AND 4"
    "(if flag x 8 then 8 else 0) = x AND 8"
    using flag_mask [of x 7, unfolded p] flag_mask [of x 0, unfolded p] flag_mask [of x 1, unfolded p]
      flag_mask [of x 2, unfolded p] flag_mask [of x 3, unfolded p] by fast+
qed

lemma fold_OR_if:
  "fold (\<lambda>n r. r OR f n) (if c then [n] else []) r = r OR (if c then f n else (0 :: u8))"
  by simp

lemma options_flags:
  "fold (\<lambda>n r. r OR the (map_of opt_names n)) (options_of cosf psec) 0 = cosf AND NOT BDL_COS_PRIMASK"
proof -
  let ?f = "\<lambda>n. the (map_of opt_names n)"
  have v: "?f (str ''CUST'') = 0x80" "?f (str ''REPCUST'') = 1" "?f (str ''REPRCPT'') = 2" "?f (str ''REPFWD'') = 4"
    "?f (str ''EERCPT'') = 8" "?f (str ''PSENC'') = 0" "?f (str ''PSAUTH'') = 0" "?f (str ''PSINT'') = 0"
    by code_simp+
  have "fold (\<lambda>n r. r OR ?f n) (options_of cosf psec) 0
    = (cosf AND 0x80) OR (cosf AND 1) OR (cosf AND 2) OR (cosf AND 4) OR (cosf AND 8)"
    unfolding options_of_def fold_append comp_def fold_OR_if v BDL_COS_CUST_def BDL_COS_CTREP_def BDL_COS_BREC_def
      BDL_COS_BFWD_def BDL_COS_RET_def flag_masks
    by (simp add: or.assoc)
  also have "\<dots> = cosf AND 0x8F" by (simp flip: bit.conj_disj_distrib)
  also have "0x8F = NOT BDL_COS_PRIMASK" by code_simp
  finally show ?thesis .
qed

lemma render_loop: "\<exists>s. render_options cosf psec = Some s \<and> opt_loop s 0 = cosf AND NOT BDL_COS_PRIMASK"
proof (cases "cosf AND NOT BDL_COS_PRIMASK = 0")
  case True
  have "opt_loop (str ''NONE'') 0 = 0" by code_simp
  then show ?thesis using True by (simp add: render_options_def)
next
  case False
  have sub: "set (options_of cosf psec) \<subseteq> set (map fst opt_names)"
    by (auto simp: options_of_def opt_names_def)
  have ne: "options_of cosf psec \<noteq> []" using options_flags [of cosf psec] False by auto
  then have "concat (map (\<lambda>s. s @ [comma]) (options_of cosf psec)) \<noteq> []"
    by (cases "options_of cosf psec") simp_all
  then show ?thesis
    using opt_loop_list [OF sub ne, of 0] options_flags [of cosf psec] False by (simp add: render_options_def)
qed

lemma options_nonzero: "0 \<notin> set (concat (map (\<lambda>s. s @ [comma]) (options_of cosf psec)))"
  by (auto simp: options_of_def comma_def split: if_splits)

lemma render_zero_free: "render_options cosf psec = Some s \<Longrightarrow> cstr s = s"
proof -
  assume "render_options cosf psec = Some s"
  then have "s = str ''NONE'' \<or> s = butlast (concat (map (\<lambda>s. s @ [comma]) (options_of cosf psec)))"
    by (auto simp: render_options_def Let_def split: if_splits)
  moreover have "0 \<notin> set (str ''NONE'')" by code_simp
  ultimately have "0 \<notin> set s" using options_nonzero [of cosf psec] in_set_butlastD by metis
  then show ?thesis by simp
qed

lemma prio_mask:
  "cosf AND BDL_COS_PRIMASK = of_int (int (unat (cosf AND BDL_COS_PRIMASK) div 16) * 0x10) AND BDL_COS_PRIMASK"
proof -
  define y where "y = cosf AND 0x70"
  have "take_bit 4 y = 0" unfolding y_def take_bit_and by simp
  then have "push_bit 4 (drop_bit 4 y) = y" using bits_ident [of 4 y] by simp
  moreover have "of_int (int (unat y div 16) * 0x10) = (of_nat (unat (drop_bit 4 y)) * 16 :: u8)"
    by (simp add: unat_drop_bit)
  moreover have "\<dots> = push_bit 4 (drop_bit 4 y)" by (simp add: push_bit_eq_mult)
  ultimately have "of_int (int (unat y div 16) * 0x10) = y" by simp
  moreover have "y AND 0x70 = y" by (simp add: y_def and.assoc)
  ultimately show ?thesis by (simp only: BDL_COS_PRIMASK_def y_def)
qed

lemma received_fields:
  "r_flags (received r reg adm r0) = r_flags r" "r_timestamp (received r reg adm r0) = r_timestamp r"
  "r_reg_len (received r reg adm r0) = r_reg_len r" "r_reg_id (received r reg adm r0) = Some reg"
  "r_adm_len (received r reg adm r0) = r_adm_len r" "r_adm_id (received r reg adm r0) = Some adm"
  "flag (r_flags r) BDL_RPT_FRAG \<Longrightarrow> r_frag_off (received r reg adm r0) = r_frag_off r \<and> r_frag_len (received r reg adm r0) = r_frag_len r"
  "r_type r = ucast BDL_PCLASS_CUST \<Longrightarrow> r_tos (received r reg adm r0) = r_tos r \<and> r_reason (received r reg adm r0) = r_reason r"
  "r_type r = ucast BDL_PCLASS_REPORT \<Longrightarrow> flag (r_flags r) BDL_RPT_RECV \<Longrightarrow> r_tor (received r reg adm r0) = r_tor r"
  "r_type r = ucast BDL_PCLASS_REPORT \<Longrightarrow> flag (r_flags r) BDL_RPT_FWD \<Longrightarrow> r_tof (received r reg adm r0) = r_tof r"
  "r_type r = ucast BDL_PCLASS_REPORT \<Longrightarrow> flag (r_flags r) BDL_RPT_DELIV \<Longrightarrow> r_todeliv (received r reg adm r0) = r_todeliv r"
  "r_type r = ucast BDL_PCLASS_REPORT \<Longrightarrow> flag (r_flags r) BDL_RPT_EXP \<Longrightarrow> r_todelet (received r reg adm r0) = r_todelet r"
  by (simp_all add: received_def Let_def upd_if_def set_reg_def set_adm_def)

text \<open>What two reports agree on when one is read from the payload built of the other.\<close>

definition same_report :: "bdl_report \<Rightarrow> bdl_report \<Rightarrow> bool" where
  "same_report r r' \<longleftrightarrow> r_type r' = r_type r \<and> r_flags r' = r_flags r \<and> r_timestamp r' = r_timestamp r
    \<and> r_reg_len r' = r_reg_len r \<and> r_reg_id r' = c_read (r_reg_id r) (unat (r_reg_len r))
    \<and> r_adm_len r' = r_adm_len r \<and> r_adm_id r' = c_read (r_adm_id r) (unat (r_adm_len r))
    \<and> (flag (r_flags r) BDL_RPT_FRAG \<longrightarrow> r_frag_off r' = r_frag_off r \<and> r_frag_len r' = r_frag_len r)
    \<and> (r_type r = ucast BDL_PCLASS_CUST \<longrightarrow> r_tos r' = r_tos r \<and> r_reason r' = r_reason r)
    \<and> (r_type r = ucast BDL_PCLASS_REPORT \<longrightarrow>
         (flag (r_flags r) BDL_RPT_RECV \<longrightarrow> r_tor r' = r_tor r)
       \<and> (flag (r_flags r) BDL_RPT_FWD \<longrightarrow> r_tof r' = r_tof r)
       \<and> (flag (r_flags r) BDL_RPT_DELIV \<longrightarrow> r_todeliv r' = r_todeliv r)
       \<and> (flag (r_flags r) BDL_RPT_EXP \<longrightarrow> r_todelet r' = r_todelet r))"

lemma received_type: "r_type (received r reg adm r0) = r_type r0"
  by (simp add: received_def Let_def upd_if_def set_reg_def set_adm_def)

lemma received_same:
  assumes "r_type r0 = r_type r" "c_read (r_reg_id r) (unat (r_reg_len r)) = Some reg"
    "c_read (r_adm_id r) (unat (r_adm_len r)) = Some adm"
  shows "same_report r (received r reg adm r0)"
  unfolding same_report_def received_type assms by (simp add: received_fields)

subsection \<open>Properties\<close>

text \<open>
  \<^bold>\<open>C18\<close> The payload that \<^verbatim>\<open>buildReport\<close> fills for a status report or a
  custody signal has exactly the length that it computed for it, and \<^verbatim>\<open>parseReport\<close>
  reads from it the report with all its fields, under every combination of flags.
\<close>

theorem report_roundtrip:
  assumes "report_bytes r = Some bs" "r_type r = ucast c" "c = BDL_PCLASS_REPORT \<or> c = BDL_PCLASS_CUST"
  shows "report_len r = of_nat (length bs)
    \<and> (\<exists>r'. parse_report mem (Some (Pyld c (report_len r) (Some bs))) = Some (Some r') \<and> same_report r r')"
proof -
  have ty: "r_type r = ucast BDL_PCLASS_REPORT \<or> r_type r = ucast BDL_PCLASS_CUST" using assms(2,3) by auto
  have n: "report_len r = of_nat (length bs)" "length bs < 1000" by (rule report_len_bytes [OF assms(1) ty])+
  then have u: "unat (report_len r) = length bs" by (simp add: unat_of_nat_small)
  then have small: "unat (report_len r) < 2 ^ 31" using n(2) by simp
  let ?r0 = "(new_report mem)\<lparr>r_type := ucast c\<rparr>"
  obtain reg adm where r: "reads (report_len r) (report_reader (report_len r) ?r0) bs (received r reg adm ?r0)"
    "c_read (r_reg_id r) (unat (r_reg_len r)) = Some reg" "c_read (r_adm_id r) (unat (r_adm_len r)) = Some adm"
    using report_bytes_reads [OF assms(1) small, of ?r0] assms(2) by auto
  have "report_reader (report_len r) ?r0 (0, bs @ []) = Some (Some (received r reg adm ?r0, 0 + length bs, []))"
    using r(1) [unfolded reads_def, rule_format, of 0 "[]"] u by simp
  then have "parse_report mem (Some (Pyld c (report_len r) (Some bs))) = Some (Some (received r reg adm ?r0))"
    using assms(3) by (simp add: parse_report_def)
  moreover have "same_report r (received r reg adm ?r0)" by (rule received_same) (use r assms(2) in simp_all)
  ultimately show ?thesis using n(1) by blast
qed

definition sample_report :: bdl_report where
  "sample_report = \<lparr>r_type = ucast BDL_PCLASS_REPORT, r_flags = BDL_RPT_RECV OR BDL_RPT_FRAG, r_reason = 0,
     r_frag_off = 3, r_frag_len = 4, r_timestamp = 77, r_tos = 0, r_tor = 80, r_tof = 0, r_todeliv = 0,
     r_todelet = 0, r_reg_len = 1, r_reg_id = Some [82], r_adm_len = 2, r_adm_id = Some [97, 98],
     r_dest = Some [82, comma, 97]\<rparr>"

theorem report_roundtrip_witness:
  "\<exists>bs. report_bytes sample_report = Some bs \<and> report_len sample_report = of_nat (length bs)
    \<and> (\<exists>r'. parse_report sample_report (Some (Pyld BDL_PCLASS_REPORT (report_len sample_report) (Some bs))) = Some (Some r')
         \<and> same_report sample_report r')"
proof -
  obtain bs where bs: "report_bytes sample_report = Some bs"
    by (simp add: report_bytes_def sample_report_def c_read_def)
  have "report_len sample_report = of_nat (length bs)
    \<and> (\<exists>r'. parse_report sample_report (Some (Pyld BDL_PCLASS_REPORT (report_len sample_report) (Some bs))) = Some (Some r')
         \<and> same_report sample_report r')"
    by (rule report_roundtrip [OF bs]) (simp_all add: sample_report_def)
  then show ?thesis using bs by blast
qed

text \<open>
  No call of \<^verbatim>\<open>buildReport\<close> returns a report: it returns null, or
  stops at the latest where it concatenates the payload to the null pointer of the new header.
\<close>

theorem reports_never_built: "build_report endpoint b typ \<noteq> Some (Some b')"
  by (auto simp: build_report_def c_strcat_null_def new_pyld_def bind_eq_Some_conv Let_def split: option.splits if_splits)

text \<open>
  \<^bold>\<open>C39\<close> The option string that is given to the receiving application for a class of
  service can be parsed again: with the priority as a number it restores the class of service,
  whatever the payload security bits; a priority of zero is read as the mask of all priorities.
\<close>

theorem options_roundtrip:
  assumes "c_atoi prio = int (unat (cosf AND BDL_COS_PRIMASK) div 16)"
    and "\<not> c_strncmp_eq prio (str ''NORMAL'') 7" "\<not> c_strncmp_eq prio (str ''BULK'') 5"
    "\<not> c_strncmp_eq prio (str ''EXPEDITED'') 10"
  shows "\<exists>s. render_options cosf psec = Some s \<and> p_cos (parse_options (Some prio) (Some s) p)
    = (if cosf AND BDL_COS_PRIMASK = 0 then cosf OR BDL_COS_PRIMASK else cosf)"
proof -
  obtain s where s: "render_options cosf psec = Some s" "opt_loop s 0 = cosf AND NOT BDL_COS_PRIMASK"
    using render_loop by blast
  let ?y = "cosf AND BDL_COS_PRIMASK"
  have whole: "(cosf AND NOT BDL_COS_PRIMASK) OR ?y = cosf"
    by (simp flip: bit.conj_disj_distrib)
  have less: "unat ?y div 16 < 16" using u8_bound [of ?y] by (simp add: div_less_iff_less_mult)
  show ?thesis
  proof (cases "?y = 0")
    case True
    then have "(cosf AND NOT BDL_COS_PRIMASK) = cosf" using whole by simp
    then show ?thesis using assms s render_zero_free [OF s(1)] True by (simp add: parse_options_def Let_def)
  next
    case False
    have pos: "0 < unat ?y div 16"
    proof (rule ccontr)
      assume "\<not> 0 < unat ?y div 16"
      then show False using prio_mask [of cosf] False by simp
    qed
    have "p_cos (parse_options (Some prio) (Some s) p)
        = (cosf AND NOT BDL_COS_PRIMASK) OR (of_int (int (unat ?y div 16) * 0x10) AND BDL_COS_PRIMASK)"
      using assms(1) s(2) render_zero_free [OF s(1)] pos less by (simp add: parse_options_def Let_def)
    then show ?thesis unfolding prio_mask [symmetric] using False s(1) whole by simp
  qed
qed

theorem options_roundtrip_witness:
  "\<exists>s. render_options 0xA3 0xE0 = Some s \<and> p_cos (parse_options (Some (str ''2'')) (Some s) sample_prim)
    = (if (0xA3 :: u8) AND BDL_COS_PRIMASK = 0 then 0xA3 OR BDL_COS_PRIMASK else 0xA3)"
  by (rule options_roundtrip) (code_simp, code_simp, code_simp, code_simp)

end
