(* ===== verification/Dtn_Tables.thy ===== *)
theory Dtn_Tables
  imports "HOL-Library.AList" Dtn_Report
begin

text \<open>
  The tables of a DTN node: the delivery registrations (\<^verbatim>\<open>dtn/registration.cc\<close>),
  the routing table (\<^verbatim>\<open>dtn/routes.cc\<close>) and the neighbours in range
  (\<^verbatim>\<open>dtn/neighbors.cc\<close>).  Linked lists are lists in the order of their links; a
  \<^verbatim>\<open>std::map\<close> is an association list.  Shown are: the registrations refine a
  map from tokens, what a refused registration leaves behind, which link a route gets, and
  which neighbours the periodic check removes.
\<close>

subsection \<open>Registrations\<close>

definition FAIL_UNDEF :: c_int where "FAIL_UNDEF = 0"
definition FAIL_DEFER :: c_int where "FAIL_DEFER = 1"
definition FAIL_ABORT :: c_int where "FAIL_ABORT = 2"
definition FAIL_SINK :: c_int where "FAIL_SINK = 3"

lemmas fail_acts = FAIL_UNDEF_def FAIL_DEFER_def FAIL_ABORT_def FAIL_SINK_def

record reg_entry =
  re_token :: int
  re_fail :: c_int
  re_endpoint :: bytes
  re_passive :: bool

text \<open>
  The list \<open>reg_\<close>, and the counter of tokens. The counter is static in the constructor of the
  entries, so that all nodes draw from one sequence, which starts at one: the registrations of
  the other nodes are steps of their own below. It is an \<^verbatim>\<open>int\<close>, taken as ideal here: the
  model holds for the first 2 to the 31 registrations of a simulation.
\<close>

record registration =
  reg_list :: "reg_entry list"
  reg_next :: int

definition new_registration :: registration where
  "new_registration = \<lparr>reg_list = [], reg_next = 1\<rparr>"

definition fail_action :: "bytes \<Rightarrow> c_int option" where
  "fail_action s = (if cstr s = str ''DEFER'' then Some FAIL_DEFER
     else if cstr s = str ''ABORT'' then Some FAIL_ABORT
     else if cstr s = str ''SINK'' then Some FAIL_SINK else None)"

text \<open>\<^verbatim>\<open>addReg\<close> links the new entry before it looks at the failure action.\<close>

definition add_reg :: "registration \<Rightarrow> bytes option \<Rightarrow> bytes option \<Rightarrow> registration \<times> int" where
  "add_reg s failact endpoint = (case (failact, endpoint) of
     (Some fa, Some ep) \<Rightarrow>
       let e = \<lparr>re_token = reg_next s, re_fail = FAIL_UNDEF, re_endpoint = cstr ep, re_passive = False\<rparr>
       in (case fail_action fa of
            Some f \<Rightarrow> (\<lparr>reg_list = reg_list s @ [e\<lparr>re_fail := f\<rparr>], reg_next = reg_next s + 1\<rparr>, re_token e)
          | None \<Rightarrow> (\<lparr>reg_list = reg_list s @ [e], reg_next = reg_next s + 1\<rparr>, -1))
   | _ \<Rightarrow> (s, -1))"

fun unlink :: "int \<Rightarrow> reg_entry list \<Rightarrow> reg_entry list option" where
  "unlink token [] = None"
| "unlink token (e # es) = (if re_token e \<noteq> token then map_option ((#) e) (unlink token es) else Some es)"

definition de_reg :: "registration \<Rightarrow> bytes option \<Rightarrow> registration \<times> int" where
  "de_reg s ctoken = (case ctoken of
     None \<Rightarrow> (s, -1)
   | Some c \<Rightarrow> let token = c_atoi c in
       if token = 0 then (s, -1)
       else (case unlink token (reg_list s) of None \<Rightarrow> (s, -1) | Some es \<Rightarrow> (s\<lparr>reg_list := es\<rparr>, 0)))"

fun find_endpoint :: "bytes \<Rightarrow> reg_entry list \<Rightarrow> reg_entry option" where
  "find_endpoint ep [] = None"
| "find_endpoint ep (e # es) = (if cstr ep \<noteq> cstr (re_endpoint e) then find_endpoint ep es else Some e)"

definition lookup_reg :: "registration \<Rightarrow> bytes \<Rightarrow> reg_entry option" where
  "lookup_reg s ep = find_endpoint ep (reg_list s)"

fun find_token :: "int \<Rightarrow> reg_entry list \<Rightarrow> reg_entry option" where
  "find_token token [] = None"
| "find_token token (e # es) = (if token \<noteq> re_token e then find_token token es else Some e)"

definition lookup_id :: "registration \<Rightarrow> bytes option \<Rightarrow> bytes option" where
  "lookup_id s ctoken = (case ctoken of
     None \<Rightarrow> None
   | Some c \<Rightarrow> let token = c_atoi c in
       if token = 0 then None else map_option re_endpoint (find_token token (reg_list s)))"

text \<open>\<open>start\<close>, \<open>stop\<close> and \<open>change\<close> write into the entry of the token.\<close>

fun update_token :: "int \<Rightarrow> (reg_entry \<Rightarrow> reg_entry) \<Rightarrow> reg_entry list \<Rightarrow> reg_entry list option" where
  "update_token token f [] = None"
| "update_token token f (e # es) =
     (if token \<noteq> re_token e then map_option ((#) e) (update_token token f es) else Some (f e # es))"

definition with_token :: "registration \<Rightarrow> bytes option \<Rightarrow> (reg_entry \<Rightarrow> reg_entry) \<Rightarrow> registration \<times> int" where
  "with_token s ctoken f = (case ctoken of
     None \<Rightarrow> (s, -1)
   | Some c \<Rightarrow> let token = c_atoi c in
       if token = 0 then (s, -1)
       else (case update_token token f (reg_list s) of None \<Rightarrow> (s, -1) | Some es \<Rightarrow> (s\<lparr>reg_list := es\<rparr>, 0)))"

definition start_reg :: "registration \<Rightarrow> bytes option \<Rightarrow> registration \<times> int" where
  "start_reg s ctoken = with_token s ctoken (\<lambda>e. e\<lparr>re_passive := True\<rparr>)"

definition stop_reg :: "registration \<Rightarrow> bytes option \<Rightarrow> registration \<times> int" where
  "stop_reg s ctoken = with_token s ctoken (\<lambda>e. e\<lparr>re_passive := False\<rparr>)"

definition change_reg :: "registration \<Rightarrow> bytes option \<Rightarrow> bytes option \<Rightarrow> registration \<times> int" where
  "change_reg s ctoken failact = (case failact of
     None \<Rightarrow> (s, -1)
   | Some fa \<Rightarrow>
       (case with_token s ctoken (\<lambda>e. case fail_action fa of Some f \<Rightarrow> e\<lparr>re_fail := f\<rparr> | None \<Rightarrow> e) of
          (s', ret) \<Rightarrow> (s', if ret = 0 \<and> fail_action fa = None then -1 else ret)))"

subsection \<open>Routes\<close>

text \<open>The links of a node; \<open>linkObj_\<close> is an array of nine characters.  A route refers to
  its link by the position in \<open>links_\<close>, where links are only appended.\<close>

record link_info =
  l_obj :: bytes
  l_node :: c_int
  l_mtu :: c_int

record route =
  rt_region :: "bytes option"
  rt_custodian :: c_int
  rt_metric :: c_int
  rt_link :: nat

record routes =
  rt_list :: "route list"
  rt_links :: "link_info list"

definition new_routes :: routes where
  "new_routes = \<lparr>rt_list = [], rt_links = []\<rparr>"

text \<open>The search for the link goes on while the names are equal.\<close>

fun find_link :: "bytes \<Rightarrow> nat \<Rightarrow> link_info list \<Rightarrow> nat option" where
  "find_link obj i [] = None"
| "find_link obj i (l # ls) = (if cstr obj = cstr (l_obj l) then find_link obj (i + 1) ls else Some i)"

definition add_route :: "routes \<Rightarrow> c_int \<Rightarrow> bytes option \<Rightarrow> c_int \<Rightarrow> c_int \<Rightarrow> c_int \<Rightarrow> bytes option \<Rightarrow> (routes \<times> int) exec" where
  "add_route rs node region custodian metric mtu linkObj = (case (region, linkObj) of
     (Some r, Some obj) \<Rightarrow>
       let metric1 = (if metric <s 0 then 0 else metric);
           (metric2, reg) = (if cstr r = str ''*'' then (1000, None) else (metric1, Some (cstr r)));
           rt = (\<lambda>i. \<lparr>rt_region = reg, rt_custodian = custodian, rt_metric = metric2, rt_link = i\<rparr>)
       in (case find_link obj 0 (rt_links rs) of
            Some i \<Rightarrow> Some (rs\<lparr>rt_list := rt i # rt_list rs\<rparr>, 0)
          | None \<Rightarrow>
              if 9 \<le> length (cstr obj) then None
              else Some (\<lparr>rt_list = rt (length (rt_links rs)) # rt_list rs,
                          rt_links = rt_links rs @ [\<lparr>l_obj = cstr obj, l_node = node, l_mtu = mtu\<rparr>]\<rparr>, 0))
   | _ \<Rightarrow> Some (rs, -1))"

definition route_node :: "routes \<Rightarrow> route \<Rightarrow> c_int" where
  "route_node rs r = l_node (rt_links rs ! rt_link r)"

text \<open>
  The nodes belong to the simulator: \<open>node_named\<close> is the name of the node object that
  \<^verbatim>\<open>TclObject::lookup\<close> finds, \<open>name_at\<close> the name of the node at an address.
  \<^verbatim>\<open>getNextHop\<close> answers the link of the first route to the node.
\<close>

definition node_part :: "bytes \<Rightarrow> bytes" where
  "node_part adm = takeWhile (\<lambda>c. c \<noteq> 0x3A) (cstr adm)"

fun find_hop :: "(c_int \<Rightarrow> bytes) \<Rightarrow> routes \<Rightarrow> bytes \<Rightarrow> route list \<Rightarrow> nat option" where
  "find_hop name_at rs name [] = None"
| "find_hop name_at rs name (r # rts) =
     (if name = name_at (route_node rs r) then Some (rt_link r) else find_hop name_at rs name rts)"

definition get_next_hop :: "(bytes \<Rightarrow> bytes option) \<Rightarrow> (c_int \<Rightarrow> bytes) \<Rightarrow> routes \<Rightarrow> bytes \<Rightarrow> nat option" where
  "get_next_hop node_named name_at rs admdest =
     (if rt_list rs = [] then None
      else case node_named (node_part admdest) of
        None \<Rightarrow> None
      | Some name \<Rightarrow> find_hop name_at rs name (rt_list rs))"

text \<open>\<^verbatim>\<open>is_there\<close> compares regions with \<^verbatim>\<open>strcmp\<close>, also with the null
  pointer of a default route.\<close>

fun is_there_from :: "routes \<Rightarrow> c_int \<Rightarrow> bytes \<Rightarrow> route list \<Rightarrow> int exec" where
  "is_there_from rs node region [] = Some 0"
| "is_there_from rs node region (r # rts) =
     do { reg \<leftarrow> rt_region r;
          if cstr region = cstr reg \<and> node = route_node rs r then Some 1
          else is_there_from rs node region rts }"

definition is_there :: "routes \<Rightarrow> c_int \<Rightarrow> bytes \<Rightarrow> int exec" where
  "is_there rs node region = is_there_from rs node region (rt_list rs)"

text \<open>\<^verbatim>\<open>delete_route\<close>, with the routes before \<open>start\<close>, the last of which is
  \<open>last\<close>.\<close>

fun delete_from :: "(c_int \<Rightarrow> bytes) \<Rightarrow> routes \<Rightarrow> bytes \<Rightarrow> route list \<Rightarrow> route list \<Rightarrow> (route list \<times> int)" where
  "delete_from name_at rs name before [] = (before, -1)"
| "delete_from name_at rs name before (start # rest) =
     (if before = [] \<and> name_at (route_node rs start) = cstr name then (rest, 1)
      else if before \<noteq> [] \<and> name_at (route_node rs start) = cstr name \<and> rest = [] then (before, 1)
      else if before \<noteq> [] \<and> name_at (route_node rs start) = cstr name \<and> rest \<noteq> []
        then (if 1 < length (before @ start # rest) then (before @ rest, 1) else ([], 1))
      else delete_from name_at rs name (before @ [start]) rest)"

definition delete_route :: "(c_int \<Rightarrow> bytes) \<Rightarrow> routes \<Rightarrow> bytes \<Rightarrow> routes \<times> int" where
  "delete_route name_at rs name = (case delete_from name_at rs name [] (rt_list rs) of (l, r) \<Rightarrow> (rs\<lparr>rt_list := l\<rparr>, r))"

subsection \<open>Neighbours\<close>

text \<open>
  The map from node names to the date of the last contact, and the counter beside it.  The list
  stands for the elements of the \<^verbatim>\<open>std::map\<close> in the order of its iterators; nothing below
  depends on which order this is.  A name or region that does not fit the arrays of the neighbour is
  undefined.

  Two places leave the behaviour to the compiler and the library. \<^verbatim>\<open>add_neighbor\<close> ends without
  a \<^verbatim>\<open>return\<close> after it has added a neighbour: its value, which no caller uses, is \<^const>\<open>None\<close>.
  \<^verbatim>\<open>check_neighbors\<close> increments an iterator whose element it has erased: what this gives is a
  parameter, \<open>incr xs i\<close> for the remaining elements \<open>xs\<close> and the position \<open>i\<close> of the erased one, the
  position at which the loop goes on, or \<^const>\<open>None\<close> if it does not go on at all.
\<close>

record neighbours =
  nb_map :: "(bytes \<times> real) list"
  nb_count :: int

definition no_neighbours :: neighbours where
  "no_neighbours = \<lparr>nb_map = [], nb_count = 0\<rparr>"

definition exist_neighbor :: "neighbours \<Rightarrow> bytes \<Rightarrow> int" where
  "exist_neighbor s k = (if map_of (nb_map s) (cstr k) = None then -1 else 1)"

definition update_arrival_date :: "neighbours \<Rightarrow> real \<Rightarrow> bytes \<Rightarrow> neighbours \<times> int" where
  "update_arrival_date s now k = (case map_of (nb_map s) (cstr k) of
     Some _ \<Rightarrow> (s\<lparr>nb_map := AList.update (cstr k) now (nb_map s)\<rparr>, 1)
   | None \<Rightarrow> (s, -1))"

definition add_neighbor :: "nat \<Rightarrow> real \<Rightarrow> neighbours \<Rightarrow> bytes \<Rightarrow> bytes \<Rightarrow> (neighbours \<times> int option) exec" where
  "add_neighbor max_neighbors now s k region =
     (if length (nb_map s) = max_neighbors then Some (s, Some (-1))
      else if exist_neighbor s k = -1 then
        (if 15 \<le> length (cstr k) \<or> 10 \<le> length (cstr region) then None
         else Some (\<lparr>nb_map = AList.update (cstr k) now (nb_map s), nb_count = nb_count s + 1\<rparr>, None))
      else Some (fst (update_arrival_date s now k), Some 1))"

type_synonym erased_incr = "(bytes \<times> real) list \<Rightarrow> nat \<Rightarrow> nat option"

function check_loop :: "erased_incr \<Rightarrow> real \<Rightarrow> real \<Rightarrow> nat \<Rightarrow> neighbours \<Rightarrow> neighbours exec" where
  "check_loop incr interval now i s =
     (if i < length (nb_map s) then
        if interval < now - snd (nb_map s ! i) then
          let s = \<lparr>nb_map = take i (nb_map s) @ drop (Suc i) (nb_map s), nb_count = nb_count s - 1\<rparr> in
          case incr (nb_map s) i of None \<Rightarrow> None | Some j \<Rightarrow> check_loop incr interval now j s
        else check_loop incr interval now (Suc i) s
      else Some s)"
  by pat_completeness auto
termination
  by (relation "measures [\<lambda>(_, _, _, i, s). length (nb_map s), \<lambda>(_, _, _, i, s). length (nb_map s) - i]") auto

declare check_loop.simps [simp del]

definition check_neighbors :: "erased_incr \<Rightarrow> real \<Rightarrow> real \<Rightarrow> neighbours \<Rightarrow> neighbours exec" where
  "check_neighbors incr interval now s = check_loop incr interval now 0 s"

definition get_arrival_date :: "neighbours \<Rightarrow> bytes \<Rightarrow> real" where
  "get_arrival_date s k = (case map_of (nb_map s) (cstr k) of Some d \<Rightarrow> d | None \<Rightarrow> 0)"

section \<open>Registrations as a map from tokens\<close>

text \<open>
  The operations a script can call, and a run of them with the values returned. \<open>Other_Add\<close> is a
  registration at another node, which takes a token from the common counter.
\<close>

datatype reg_op =
    Add_Reg "bytes option" "bytes option"
  | De_Reg "bytes option"
  | Start_Reg "bytes option"
  | Stop_Reg "bytes option"
  | Change_Reg "bytes option" "bytes option"
  | Other_Add

fun reg_step :: "registration \<Rightarrow> reg_op \<Rightarrow> registration \<times> int" where
  "reg_step s (Add_Reg fa ep) = add_reg s fa ep"
| "reg_step s (De_Reg c) = de_reg s c"
| "reg_step s (Start_Reg c) = start_reg s c"
| "reg_step s (Stop_Reg c) = stop_reg s c"
| "reg_step s (Change_Reg c fa) = change_reg s c fa"
| "reg_step s Other_Add = (s\<lparr>reg_next := reg_next s + 1\<rparr>, 0)"

fun regs_run :: "registration \<Rightarrow> reg_op list \<Rightarrow> registration \<times> int list" where
  "regs_run s [] = (s, [])"
| "regs_run s (op # ops) = (case reg_step s op of (s', v) \<Rightarrow> case regs_run s' ops of (s'', vs) \<Rightarrow> (s'', v # vs))"

text \<open>The specification: a map from tokens to entries and the next token.\<close>

type_synonym regs_spec = "(int \<Rightarrow> reg_entry option) \<times> int"

definition token_of :: "bytes option \<Rightarrow> int" where
  "token_of ctoken = (case ctoken of None \<Rightarrow> 0 | Some c \<Rightarrow> c_atoi c)"

definition spec_update :: "regs_spec \<Rightarrow> bytes option \<Rightarrow> (reg_entry \<Rightarrow> reg_entry option) \<Rightarrow> regs_spec" where
  "spec_update sp c f = (case fst sp (token_of c) of None \<Rightarrow> sp
     | Some e \<Rightarrow> ((fst sp)(token_of c := f e), snd sp))"

definition spec_found :: "regs_spec \<Rightarrow> bytes option \<Rightarrow> int" where
  "spec_found sp c = (if fst sp (token_of c) = None then -1 else 0)"

fun spec_step :: "regs_spec \<Rightarrow> reg_op \<Rightarrow> regs_spec \<times> int" where
  "spec_step sp (Add_Reg (Some fa) (Some ep)) =
     (((fst sp)(snd sp \<mapsto> \<lparr>re_token = snd sp, re_fail = (case fail_action fa of Some f \<Rightarrow> f | None \<Rightarrow> FAIL_UNDEF),
                          re_endpoint = cstr ep, re_passive = False\<rparr>), snd sp + 1),
      if fail_action fa = None then -1 else snd sp)"
| "spec_step sp (Add_Reg fa ep) = (sp, -1)"
| "spec_step sp (De_Reg c) = (spec_update sp c (\<lambda>_. None), spec_found sp c)"
| "spec_step sp (Start_Reg c) = (spec_update sp c (\<lambda>e. Some (e\<lparr>re_passive := True\<rparr>)), spec_found sp c)"
| "spec_step sp (Stop_Reg c) = (spec_update sp c (\<lambda>e. Some (e\<lparr>re_passive := False\<rparr>)), spec_found sp c)"
| "spec_step sp (Change_Reg c None) = (sp, -1)"
| "spec_step sp (Change_Reg c (Some fa)) = (case fail_action fa of
     None \<Rightarrow> (sp, -1)
   | Some f \<Rightarrow> (spec_update sp c (\<lambda>e. Some (e\<lparr>re_fail := f\<rparr>)), spec_found sp c))"
| "spec_step sp Other_Add = ((fst sp, snd sp + 1), 0)"

fun spec_run :: "regs_spec \<Rightarrow> reg_op list \<Rightarrow> regs_spec \<times> int list" where
  "spec_run s [] = (s, [])"
| "spec_run s (op # ops) = (case spec_step s op of (s', v) \<Rightarrow> case spec_run s' ops of (s'', vs) \<Rightarrow> (s'', v # vs))"

definition reg_abs :: "registration \<Rightarrow> regs_spec" where
  "reg_abs s = (map_of (map (\<lambda>e. (re_token e, e)) (reg_list s)), reg_next s)"

text \<open>The tokens of the list increase, start at one and are below the next one.\<close>

definition reg_inv :: "registration \<Rightarrow> bool" where
  "reg_inv s \<longleftrightarrow> sorted_wrt (<) (map re_token (reg_list s))
     \<and> (\<forall>e \<in> set (reg_list s). 0 < re_token e \<and> re_token e < reg_next s) \<and> 0 < reg_next s"

lemma find_token_map: "find_token t es = map_of (map (\<lambda>e. (re_token e, e)) es) t"
  by (induction es) auto

lemma update_token_None: "update_token t f es = None \<longleftrightarrow> map_of (map (\<lambda>e. (re_token e, e)) es) t = None"
  by (induction es) auto

lemma unlink_None: "unlink t es = None \<longleftrightarrow> map_of (map (\<lambda>e. (re_token e, e)) es) t = None"
  by (induction es) auto

lemma map_of_token: "map_of (map (\<lambda>e. (re_token e, e)) es) t = Some e \<Longrightarrow> e \<in> set es \<and> re_token e = t"
  by (induction es) (auto split: if_splits)

lemma update_token_Some:
  assumes "update_token t f es = Some es'" "\<And>e. re_token (f e) = re_token e"
  shows "map re_token es' = map re_token es
    \<and> map_of (map (\<lambda>e. (re_token e, e)) es')
        = (map_of (map (\<lambda>e. (re_token e, e)) es))(t := map_option f (map_of (map (\<lambda>e. (re_token e, e)) es) t))"
  using assms by (induction es arbitrary: es') (auto split: if_splits)

lemma unlink_Some:
  assumes "unlink t es = Some es'" "sorted_wrt (<) (map re_token es)"
  shows "set es' \<subseteq> set es" "sorted_wrt (<) (map re_token es')"
    "map_of (map (\<lambda>e. (re_token e, e)) es') = (map_of (map (\<lambda>e. (re_token e, e)) es))(t := None)"
  using assms
proof (induction es arbitrary: es')
  case (Cons e es)
  {
    case 1
    show ?case using 1 Cons.IH(1) by (auto split: if_splits)
  next
    case 2
    then show ?case using Cons.IH(1,2) by (fastforce split: if_splits)
  next
    case 3
    show ?case
    proof (cases "re_token e = t")
      case True
      then have "map_of (map (\<lambda>e. (re_token e, e)) es) t = None"
        using 3(2) by (auto simp: map_of_eq_None_iff)
      then show ?thesis using True 3 by (auto simp: fun_eq_iff)
    next
      case False
      then obtain es'' where "unlink t es = Some es''" "es' = e # es''" using 3 by auto
      then show ?thesis using False Cons.IH(3) [of es''] 3(2) by (auto simp: fun_eq_iff)
    qed
  }
qed simp_all

abbreviation tokens :: "registration \<Rightarrow> int \<Rightarrow> reg_entry option" where
  "tokens s \<equiv> map_of (map (\<lambda>e. (re_token e, e)) (reg_list s))"

lemma token_zero: "reg_inv s \<Longrightarrow> tokens s 0 = None"
  by (auto simp: reg_inv_def map_of_eq_None_iff)

lemma reg_inv_tokens:
  assumes "reg_inv s" "map re_token es = map re_token (reg_list s)"
  shows "reg_inv (s\<lparr>reg_list := es\<rparr>)"
proof -
  have "\<And>P. (\<forall>e \<in> set es. P (re_token e)) = (\<forall>e \<in> set (reg_list s). P (re_token e))"
    using arg_cong [OF assms(2), of set] by (metis (mono_tags, lifting) image_iff list.set_map)
  from this [of "\<lambda>t. 0 < t \<and> t < reg_next s"] show ?thesis
    using assms by (simp add: reg_inv_def)
qed

lemma with_token_refines:
  assumes "reg_inv s" "\<And>e. re_token (f e) = re_token e"
  shows "reg_inv (fst (with_token s c f))"
    "reg_abs (fst (with_token s c f)) = spec_update (reg_abs s) c (\<lambda>e. Some (f e))"
    "snd (with_token s c f) = spec_found (reg_abs s) c"
proof -
  let ?t = "token_of c"
  have "reg_inv (fst (with_token s c f))
    \<and> reg_abs (fst (with_token s c f)) = spec_update (reg_abs s) c (\<lambda>e. Some (f e))
    \<and> snd (with_token s c f) = spec_found (reg_abs s) c"
  proof (cases "update_token ?t f (reg_list s)")
    case None
    then have none: "tokens s ?t = None" by (simp add: update_token_None)
    then have "with_token s c f = (s, -1)"
      using None by (auto simp: with_token_def token_of_def Let_def split: option.splits)
    then show ?thesis using assms(1) none by (simp add: spec_update_def spec_found_def reg_abs_def)
  next
    case (Some es)
    then obtain e where e: "tokens s ?t = Some e"
      using update_token_None [of ?t f "reg_list s"] by auto
    then have t: "?t \<noteq> 0" using token_zero [OF assms(1)] by auto
    then have "with_token s c f = (s\<lparr>reg_list := es\<rparr>, 0)"
      using Some by (auto simp: with_token_def token_of_def Let_def split: option.splits)
    then show ?thesis
      using update_token_Some [OF Some assms(2)] reg_inv_tokens [OF assms(1)] e
      by (simp add: spec_update_def spec_found_def reg_abs_def)
  qed
  then show "reg_inv (fst (with_token s c f))"
    "reg_abs (fst (with_token s c f)) = spec_update (reg_abs s) c (\<lambda>e. Some (f e))"
    "snd (with_token s c f) = spec_found (reg_abs s) c" by simp_all
qed

lemma de_reg_refines:
  assumes "reg_inv s"
  shows "reg_inv (fst (de_reg s c)) \<and> reg_abs (fst (de_reg s c)) = spec_update (reg_abs s) c (\<lambda>_. None)
    \<and> snd (de_reg s c) = spec_found (reg_abs s) c"
proof (cases "unlink (token_of c) (reg_list s)")
  case None
  then have none: "tokens s (token_of c) = None" by (simp add: unlink_None)
  then have "de_reg s c = (s, -1)"
    using None by (auto simp: de_reg_def token_of_def Let_def split: option.splits)
  then show ?thesis using assms none by (simp add: spec_update_def spec_found_def reg_abs_def)
next
  case (Some es)
  then obtain e where e: "tokens s (token_of c) = Some e" using unlink_None [of "token_of c" "reg_list s"] by auto
  then have "token_of c \<noteq> 0" using token_zero [OF assms] by auto
  then have "de_reg s c = (s\<lparr>reg_list := es\<rparr>, 0)"
    using Some by (auto simp: de_reg_def token_of_def Let_def split: option.splits)
  moreover note unlink_Some [OF Some]
  ultimately show ?thesis
    using e assms by (auto simp: spec_update_def spec_found_def reg_abs_def reg_inv_def)
qed

lemma add_reg_refines:
  assumes "reg_inv s"
  shows "reg_inv (fst (add_reg s fa ep)) \<and> reg_abs (fst (add_reg s fa ep)) = fst (spec_step (reg_abs s) (Add_Reg fa ep))
    \<and> snd (add_reg s fa ep) = snd (spec_step (reg_abs s) (Add_Reg fa ep))"
proof (cases fa; cases ep)
  fix f p assume fa: "fa = Some f" "ep = Some p"
  have new: "tokens s (reg_next s) = None"
    using assms by (auto simp: reg_inv_def map_of_eq_None_iff)
  have app: "map_of (map (\<lambda>e. (re_token e, e)) (reg_list s @ [e])) = (tokens s)(re_token e \<mapsto> e)"
    if "re_token e = reg_next s" for e
    using new that by (auto simp: fun_eq_iff map_add_def split: option.splits)
  show ?thesis
  proof (cases "fail_action f")
    case None
    then show ?thesis
      using assms fa app by (auto simp: add_reg_def Let_def reg_abs_def reg_inv_def sorted_wrt_append)
  next
    case (Some a)
    then show ?thesis
      using assms fa app by (auto simp: add_reg_def Let_def reg_abs_def reg_inv_def sorted_wrt_append)
  qed
qed (use assms in \<open>simp_all add: add_reg_def\<close>)

lemma spec_update_Some [simp]: "spec_update sp c Some = sp"
  by (cases "fst sp (token_of c)") (auto simp: spec_update_def prod_eq_iff fun_eq_iff)

lemma change_reg_refines:
  assumes "reg_inv s"
  shows "reg_inv (fst (change_reg s c fa)) \<and> reg_abs (fst (change_reg s c fa)) = fst (spec_step (reg_abs s) (Change_Reg c fa))
    \<and> snd (change_reg s c fa) = snd (spec_step (reg_abs s) (Change_Reg c fa))"
proof (cases fa)
  case (Some f)
  let ?g = "\<lambda>e. case fail_action f of Some a \<Rightarrow> e\<lparr>re_fail := a\<rparr> | None \<Rightarrow> e"
  have tok: "re_token (?g e) = re_token e" for e by (simp split: option.splits)
  note w = with_token_refines [of s ?g c, OF assms tok]
  show ?thesis
  proof (cases "fail_action f")
    case None
    then show ?thesis using w Some
      by (cases "fst (reg_abs s) (token_of c)") (auto simp: change_reg_def spec_found_def split: prod.splits)
  next
    case (Some a)
    then show ?thesis using w \<open>fa = Some f\<close> by (auto simp: change_reg_def split: prod.splits)
  qed
qed (use assms in \<open>simp add: change_reg_def\<close>)

lemma reg_step_refines:
  assumes "reg_inv s"
  shows "reg_inv (fst (reg_step s op)) \<and> reg_abs (fst (reg_step s op)) = fst (spec_step (reg_abs s) op)
    \<and> snd (reg_step s op) = snd (spec_step (reg_abs s) op)"
proof (cases op)
  case (Start_Reg c)
  then show ?thesis using with_token_refines [OF assms, of "\<lambda>e. e\<lparr>re_passive := True\<rparr>"]
    by (simp add: start_reg_def)
next
  case (Stop_Reg c)
  then show ?thesis using with_token_refines [OF assms, of "\<lambda>e. e\<lparr>re_passive := False\<rparr>"]
    by (simp add: stop_reg_def)
next
  case (Add_Reg fa ep)
  then show ?thesis using add_reg_refines [OF assms] by simp
next
  case (Change_Reg c fa)
  then show ?thesis using change_reg_refines [OF assms] by simp
next
  case (De_Reg c)
  then show ?thesis using de_reg_refines [OF assms] by simp
next
  case Other_Add
  then show ?thesis using assms by (force simp: reg_inv_def reg_abs_def)
qed

lemma regs_run_refines:
  "reg_inv s \<Longrightarrow> reg_inv (fst (regs_run s ops)) \<and> reg_abs (fst (regs_run s ops)) = fst (spec_run (reg_abs s) ops)
    \<and> snd (regs_run s ops) = snd (spec_run (reg_abs s) ops)"
proof (induction ops arbitrary: s)
  case (Cons op ops)
  then show ?case
    using reg_step_refines [OF Cons.prems, of op] Cons.IH [of "fst (reg_step s op)"]
    by (simp add: case_prod_beta)
qed simp

section \<open>What a refused registration leaves\<close>

lemma find_endpoint_append:
  "find_endpoint ep (es @ es') = (case find_endpoint ep es of Some e \<Rightarrow> Some e | None \<Rightarrow> find_endpoint ep es')"
  by (induction es) auto

lemma find_endpoint_same: "cstr ep = cstr ep' \<Longrightarrow> find_endpoint ep es = find_endpoint ep' es"
  by (induction es) auto

section \<open>The links of the routes\<close>

text \<open>A run of calls of \<^verbatim>\<open>add\<close>, each with its arguments; the calls of a stopped
  run have no result.\<close>

record route_args =
  ra_node :: c_int
  ra_region :: "bytes option"
  ra_custodian :: c_int
  ra_metric :: c_int
  ra_mtu :: c_int
  ra_link :: "bytes option"

definition add_call :: "routes \<Rightarrow> route_args \<Rightarrow> routes exec" where
  "add_call rs a = map_option fst
     (add_route rs (ra_node a) (ra_region a) (ra_custodian a) (ra_metric a) (ra_mtu a) (ra_link a))"

fun add_calls :: "routes \<Rightarrow> route_args list \<Rightarrow> routes exec" where
  "add_calls rs [] = Some rs"
| "add_calls rs (a # as) = Option.bind (add_call rs a) (\<lambda>rs'. add_calls rs' as)"

text \<open>All links have the name of the first one, and every route refers to a link.\<close>

definition links_inv :: "routes \<Rightarrow> bool" where
  "links_inv rs \<longleftrightarrow> (\<forall>l \<in> set (rt_links rs). cstr (l_obj l) = cstr (l_obj (hd (rt_links rs))))
     \<and> (\<forall>r \<in> set (rt_list rs). rt_link r < length (rt_links rs))"

lemma find_link_None: "find_link obj i ls = None \<longleftrightarrow> (\<forall>l \<in> set ls. cstr (l_obj l) = cstr obj)"
  by (induction ls arbitrary: i) auto

lemma find_link_Some: "find_link obj i ls = Some j \<Longrightarrow> i \<le> j \<and> j < i + length ls"
  by (induction ls arbitrary: i) (fastforce split: if_splits)+

lemma find_link_hd:
  "\<lbrakk>ls \<noteq> []; cstr obj \<noteq> cstr (l_obj (hd ls))\<rbrakk> \<Longrightarrow> find_link obj i ls = Some i"
  by (cases ls) auto

lemma add_call_cases:
  assumes "add_call rs a = Some rs'"
  obtains "rs' = rs" "ra_region a = None \<or> ra_link a = None"
  | obj rt j where "ra_link a = Some obj" "find_link obj 0 (rt_links rs) = Some j" "rt_link rt = j"
      "rs' = rs\<lparr>rt_list := rt # rt_list rs\<rparr>"
  | obj rt where "ra_link a = Some obj" "find_link obj 0 (rt_links rs) = None"
      "rt_link rt = length (rt_links rs)" "length (cstr obj) < 9"
      "rs' = \<lparr>rt_list = rt # rt_list rs,
         rt_links = rt_links rs @ [\<lparr>l_obj = cstr obj, l_node = ra_node a, l_mtu = ra_mtu a\<rparr>]\<rparr>"
proof -
  consider (null) "ra_region a = None \<or> ra_link a = None" | (names) r obj where "ra_region a = Some r" "ra_link a = Some obj"
    by (cases "ra_region a"; cases "ra_link a") auto
  then show thesis
  proof cases
    case null
    then have "rs' = rs" using assms by (auto simp: add_call_def add_route_def split: option.splits)
    then show thesis by (rule that(1)) (rule null)
  next
    case a: names
  obtain m reg where m: "(if cstr r = str ''*'' then (1000, None)
      else (if ra_metric a <s 0 then 0 else ra_metric a, Some (cstr r))) = (m, reg)"
    by (rule prod.exhaust)
  let ?rt = "\<lambda>i. \<lparr>rt_region = reg, rt_custodian = ra_custodian a, rt_metric = m, rt_link = i\<rparr>"
  show thesis
  proof (cases "find_link obj 0 (rt_links rs)")
    case None
    then show thesis using assms a m that(3) [OF a(2) None, of "?rt (length (rt_links rs))"]
      by (simp add: add_call_def add_route_def Let_def split: if_splits)
  next
    case (Some j)
    then show thesis using assms a m that(2) [OF a(2) Some, of "?rt j"]
      by (simp add: add_call_def add_route_def Let_def)
  qed
  qed
qed

lemma add_call_inv: "\<lbrakk>add_call rs a = Some rs'; links_inv rs\<rbrakk> \<Longrightarrow> links_inv rs'"
proof (erule add_call_cases)
  fix obj rt j
  assume "links_inv rs" "find_link obj 0 (rt_links rs) = Some j" "rt_link rt = j" "rs' = rs\<lparr>rt_list := rt # rt_list rs\<rparr>"
  then show "links_inv rs'" using find_link_Some [of obj 0 "rt_links rs" j] by (simp add: links_inv_def)
next
  fix obj rt
  assume "links_inv rs" "find_link obj 0 (rt_links rs) = None" "rt_link rt = length (rt_links rs)"
    "rs' = \<lparr>rt_list = rt # rt_list rs, rt_links = rt_links rs @ [\<lparr>l_obj = cstr obj, l_node = ra_node a, l_mtu = ra_mtu a\<rparr>]\<rparr>"
  then show "links_inv rs'" unfolding links_inv_def find_link_None by (cases "rt_links rs") (auto simp: less_SucI)
qed simp

lemma add_calls_inv: "\<lbrakk>add_calls rs as = Some rs'; links_inv rs\<rbrakk> \<Longrightarrow> links_inv rs'"
  by (induction as arbitrary: rs) (auto simp: bind_eq_Some_conv dest: add_call_inv)

lemma new_routes_inv: "links_inv new_routes"
  by (simp add: links_inv_def new_routes_def)

section \<open>The neighbours in range\<close>

datatype nb_op = Nb_Add real bytes bytes | Nb_Update real bytes | Nb_Check real

fun nb_step :: "erased_incr \<Rightarrow> nat \<Rightarrow> real \<Rightarrow> neighbours \<Rightarrow> nb_op \<Rightarrow> neighbours exec" where
  "nb_step incr mx interval s (Nb_Add now k region) = map_option fst (add_neighbor mx now s k region)"
| "nb_step incr mx interval s (Nb_Update now k) = Some (fst (update_arrival_date s now k))"
| "nb_step incr mx interval s (Nb_Check now) = check_neighbors incr interval now s"

fun nb_run :: "erased_incr \<Rightarrow> nat \<Rightarrow> real \<Rightarrow> neighbours \<Rightarrow> nb_op list \<Rightarrow> neighbours exec" where
  "nb_run incr mx interval s [] = Some s"
| "nb_run incr mx interval s (op # ops) = Option.bind (nb_step incr mx interval s op) (\<lambda>s'. nb_run incr mx interval s' ops)"

definition nb_inv :: "nat \<Rightarrow> neighbours \<Rightarrow> bool" where
  "nb_inv mx s \<longleftrightarrow> distinct (map fst (nb_map s)) \<and> nb_count s = int (length (nb_map s)) \<and> length (nb_map s) \<le> mx"

text \<open>A neighbour has left when the last contact is longer ago than the interval.\<close>

definition gone :: "real \<Rightarrow> real \<Rightarrow> bytes \<times> real \<Rightarrow> bool" where
  "gone interval now x \<longleftrightarrow> interval < now - snd x"

lemma update_length:
  "distinct (map fst al) \<Longrightarrow> length (AList.update k v al) = (if map_of al k = None then Suc (length al) else length al)"
  by (induction al) auto

text \<open>Whatever the increment does, the loop removes only neighbours that have left, and counts them.\<close>

lemma check_loop_inv:
  assumes "check_loop incr interval now i s = Some s'" "nb_inv mx s"
  shows "nb_inv mx s' \<and> set (nb_map s') \<subseteq> set (nb_map s) \<and> {x \<in> set (nb_map s). \<not> gone interval now x} \<subseteq> set (nb_map s')"
  using assms
proof (induction incr interval now i s rule: check_loop.induct)
  case (1 incr interval now i s)
  consider (erase) j where "i < length (nb_map s)" "gone interval now (nb_map s ! i)"
      "incr (take i (nb_map s) @ drop (Suc i) (nb_map s)) i = Some j"
      "check_loop incr interval now j \<lparr>nb_map = take i (nb_map s) @ drop (Suc i) (nb_map s), nb_count = nb_count s - 1\<rparr> = Some s'"
    | (keep) "i < length (nb_map s)" "\<not> gone interval now (nb_map s ! i)" "check_loop incr interval now (Suc i) s = Some s'"
    | (stop) "s' = s"
    using "1.prems"(1) by (subst (asm) check_loop.simps) (auto simp: gone_def Let_def split: if_splits option.splits)
  then show ?case
  proof cases
    case erase
    let ?x = "nb_map s ! i" and ?xs = "take i (nb_map s) @ drop (Suc i) (nb_map s)"
    have eq: "nb_map s = take i (nb_map s) @ ?x # drop (Suc i) (nb_map s)" using erase(1) by (rule id_take_nth_drop)
    have "distinct (map fst (take i (nb_map s) @ ?x # drop (Suc i) (nb_map s)))" using "1.prems"(2) eq by (simp add: nb_inv_def)
    then have inv: "nb_inv mx \<lparr>nb_map = ?xs, nb_count = nb_count s - 1\<rparr>"
      using "1.prems"(2) erase(1) by (auto simp: nb_inv_def)
    have set: "set (nb_map s) = insert ?x (set ?xs)" using arg_cong [OF eq, of set] by simp
    from "1.IH"(1) [OF erase(1) _ refl _ erase(4) inv] erase(2,3) set show ?thesis by (auto simp: gone_def)
  next
    case keep
    then show ?thesis using "1.IH"(2) [OF keep(1) _ keep(3) "1.prems"(2)] by (simp add: gone_def)
  next
    case stop
    then show ?thesis using "1.prems"(2) by auto
  qed
qed

lemma check_loop_none: "\<forall>x \<in> set (nb_map s). \<not> gone interval now x \<Longrightarrow> check_loop incr interval now i s = Some s"
proof (induction incr interval now i s rule: check_loop.induct)
  case (1 incr interval now i s)
  then show ?case by (subst check_loop.simps) (auto simp: gone_def)
qed

text \<open>When the increment goes on at the element after the erased one, exactly those that have left are removed.\<close>

lemma check_loop_next:
  assumes "i \<le> length (nb_map s)"
  shows "check_loop (\<lambda>_. Some) interval now i s =
    Some \<lparr>nb_map = take i (nb_map s) @ filter (\<lambda>x. \<not> gone interval now x) (drop i (nb_map s)),
      nb_count = nb_count s - int (length (filter (gone interval now) (drop i (nb_map s))))\<rparr>"
  using assms
proof (induction "(\<lambda>_. Some) :: erased_incr" interval now i s rule: check_loop.induct)
  case (1 interval now i s)
  show ?case
  proof (cases "i < length (nb_map s)")
    case True
    then have d: "drop i (nb_map s) = nb_map s ! i # drop (Suc i) (nb_map s)" by (simp add: Cons_nth_drop_Suc)
    show ?thesis
    proof (cases "gone interval now (nb_map s ! i)")
      case g: True
      then show ?thesis
        using True d "1.hyps"(1) [OF True _ refl refl] "1.prems" by (subst check_loop.simps) (simp add: Let_def min_def flip: gone_def)
    next
      case g: False
      then show ?thesis
        using True d "1.hyps"(2) [OF True] by (subst check_loop.simps) (simp add: take_Suc_conv_app_nth flip: gone_def)
    qed
  next
    case False
    then show ?thesis using "1.prems" by (subst check_loop.simps) simp
  qed
qed

lemma check_loop_crash:
  assumes "\<exists>x \<in> set (drop i (nb_map s)). gone interval now x"
  shows "check_loop (\<lambda>_ _. None) interval now i s = None"
  using assms
proof (induction "(\<lambda>_ _. None) :: erased_incr" interval now i s rule: check_loop.induct)
  case (1 interval now i s)
  have i: "i < length (nb_map s)" using "1.prems" by (cases "i < length (nb_map s)") auto
  then have d: "drop i (nb_map s) = nb_map s ! i # drop (Suc i) (nb_map s)" by (simp add: Cons_nth_drop_Suc)
  show ?case
  proof (cases "gone interval now (nb_map s ! i)")
    case True
    then show ?thesis using i by (subst check_loop.simps) (simp add: gone_def Let_def)
  next
    case False
    then have "\<exists>x \<in> set (drop (Suc i) (nb_map s)). gone interval now x" using "1.prems" d by auto
    then show ?thesis using i False "1.hyps"(2) [OF i] by (subst check_loop.simps) (simp add: gone_def)
  qed
qed

lemma nb_step_inv:
  assumes "nb_step incr mx interval s op = Some s'" "nb_inv mx s"
  shows "nb_inv mx s'"
proof (cases op)
  case (Nb_Add now k region)
  then show ?thesis using assms
    by (auto simp: add_neighbor_def exist_neighbor_def update_arrival_date_def nb_inv_def update_length distinct_update
        map_of_eq_None_iff split: if_splits option.splits)
next
  case (Nb_Update now k)
  then show ?thesis using assms
    by (auto simp: update_arrival_date_def nb_inv_def update_length distinct_update split: option.splits)
next
  case (Nb_Check now)
  then show ?thesis using assms check_loop_inv [of incr interval now 0 s s' mx] by (simp add: check_neighbors_def)
qed

lemma nb_run_inv: "\<lbrakk>nb_run incr mx interval s ops = Some s'; nb_inv mx s\<rbrakk> \<Longrightarrow> nb_inv mx s'"
proof (induction ops arbitrary: s)
  case (Cons op ops)
  then obtain s1 where s1: "nb_step incr mx interval s op = Some s1" "nb_run incr mx interval s1 ops = Some s'"
    by (auto simp: bind_eq_Some_conv)
  then show ?case using nb_step_inv [OF s1(1) Cons.prems(2)] Cons.IH [OF s1(2)] by blast
qed simp

lemma no_neighbours_inv: "nb_inv mx no_neighbours"
  by (simp add: nb_inv_def no_neighbours_def)

section \<open>Properties\<close>

text \<open>
  \<^bold>\<open>C17\<close> Whatever sequence of registrations, deregistrations, starts, stops and
  changes is called, with any arguments, and whatever registrations other nodes make in between with
  tokens of the same counter, the registrations are the ones of the map from tokens of the
  specification, every call returns the value the specification returns, and the tokens of the
  list are positive and increase.
\<close>

theorem registrations_refine:
  "reg_abs (fst (regs_run new_registration ops)) = fst (spec_run (\<lambda>_. None, 1) ops)
   \<and> snd (regs_run new_registration ops) = snd (spec_run (\<lambda>_. None, 1) ops)
   \<and> reg_inv (fst (regs_run new_registration ops))"
proof -
  have "reg_inv new_registration" "reg_abs new_registration = (\<lambda>_. None, 1)"
    by (simp_all add: reg_inv_def new_registration_def reg_abs_def)
  then show ?thesis using regs_run_refines [of new_registration ops] by simp
qed

text \<open>
  \<^bold>\<open>C40\<close> A registration that is refused for its failure action stays in the
  list: after it, and after any further successful registration of the same endpoint, the
  lookup of the endpoint finds the refused entry, with the undefined failure action, where no
  entry was found before.
\<close>

theorem refused_registration_found:
  assumes "lookup_reg s ep = None" "fail_action fa = None"
  shows "snd (add_reg s (Some fa) (Some ep)) = -1
    \<and> lookup_reg (fst (add_reg (fst (add_reg s (Some fa) (Some ep))) (Some fa') (Some ep))) ep
      = Some \<lparr>re_token = reg_next s, re_fail = FAIL_UNDEF, re_endpoint = cstr ep, re_passive = False\<rparr>"
  using assms by (auto simp: add_reg_def Let_def lookup_reg_def find_endpoint_append split: option.splits)

theorem refused_registration_found_witness:
  "snd (add_reg new_registration (Some (str ''SAVE'')) (Some (str ''R,n''))) = -1
    \<and> lookup_reg (fst (add_reg (fst (add_reg new_registration (Some (str ''SAVE'')) (Some (str ''R,n''))))
         (Some (str ''SINK'')) (Some (str ''R,n'')))) (str ''R,n'')
      = Some \<lparr>re_token = reg_next new_registration, re_fail = FAIL_UNDEF, re_endpoint = cstr (str ''R,n''), re_passive = False\<rparr>"
  by (rule refused_registration_found) (simp add: lookup_reg_def new_registration_def, code_simp)

text \<open>
  \<^bold>\<open>C31\<close> In every table built by calls of \<^verbatim>\<open>add\<close>, all links have
  one name, and a route added for a link of another name is given the first link of the table:
  its bundles go to the node of that link, whatever node the call named.
\<close>

theorem route_takes_other_link:
  assumes "add_calls new_routes as = Some rs" "l \<in> set (rt_links rs)" "cstr obj \<noteq> cstr (l_obj l)"
  shows "\<exists>rs' r. add_route rs node (Some region) custodian metric mtu (Some obj) = Some (rs', 0)
    \<and> rt_list rs' = r # rt_list rs \<and> rt_links rs' = rt_links rs \<and> rt_link r = 0
    \<and> route_node rs' r = l_node (hd (rt_links rs))"
proof -
  have inv: "links_inv rs" by (rule add_calls_inv [OF assms(1) new_routes_inv])
  then have hd: "rt_links rs \<noteq> []" "cstr obj \<noteq> cstr (l_obj (hd (rt_links rs)))"
    using assms(2,3) by (auto simp: links_inv_def)
  then show ?thesis
    using find_link_hd [OF hd, of 0] by (auto simp: add_route_def Let_def route_node_def hd_conv_nth split: prod.splits)
qed

definition sample_calls :: "route_args list" where
  "sample_calls = [\<lparr>ra_node = 1, ra_region = Some (str ''R''), ra_custodian = 1, ra_metric = 1, ra_mtu = 1500,
     ra_link = Some (str ''link1'')\<rparr>]"

definition sample_routes :: routes where
  "sample_routes = the (add_calls new_routes sample_calls)"

theorem route_takes_other_link_witness:
  "\<exists>rs' r. add_route sample_routes 2 (Some (str ''Q'')) 1 1 1500 (Some (str ''link2'')) = Some (rs', 0)
    \<and> rt_list rs' = r # rt_list sample_routes \<and> rt_links rs' = rt_links sample_routes \<and> rt_link r = 0
    \<and> route_node rs' r = l_node (hd (rt_links sample_routes))"
proof (rule route_takes_other_link)
  show "add_calls new_routes sample_calls = Some sample_routes" by code_simp
  show "hd (rt_links sample_routes) \<in> set (rt_links sample_routes)" by code_simp
  show "cstr (str ''link2'') \<noteq> cstr (l_obj (hd (rt_links sample_routes)))" by code_simp
qed

text \<open>
  \<^bold>\<open>C32\<close> What the periodic check does to a table that was built by additions, updates and checks, whatever the increment of
  an erased iterator gives. The counter is the number of the neighbours and at most the maximum, before and after; if the
  check ends, no neighbour that is in range was removed and none was added. If nobody has left, it changes nothing. If the increment goes
  on at the next element, exactly the neighbours that have left are removed; if it stops the program, the check does so as soon
  as one neighbour has left.
\<close>

theorem neighbours_checked:
  assumes "nb_run incr mx interval no_neighbours ops = Some s"
  shows "nb_inv mx s \<and>
    (\<forall>s'. check_neighbors incr interval now s = Some s' \<longrightarrow> nb_inv mx s' \<and> set (nb_map s') \<subseteq> set (nb_map s) \<and>
       {x \<in> set (nb_map s). \<not> gone interval now x} \<subseteq> set (nb_map s')) \<and>
    ((\<forall>x \<in> set (nb_map s). \<not> gone interval now x) \<longrightarrow> check_neighbors incr interval now s = Some s) \<and>
    ((\<forall>xs i. incr xs i = Some i) \<longrightarrow> (\<exists>s'. check_neighbors incr interval now s = Some s' \<and>
       nb_map s' = filter (\<lambda>x. \<not> gone interval now x) (nb_map s) \<and> nb_count s' = int (length (nb_map s')))) \<and>
    ((\<forall>xs i. incr xs i = None) \<and> (\<exists>x \<in> set (nb_map s). gone interval now x) \<longrightarrow> check_neighbors incr interval now s = None)"
proof -
  have inv: "nb_inv mx s" by (rule nb_run_inv [OF assms no_neighbours_inv])
  have "\<exists>s'. check_neighbors incr interval now s = Some s' \<and>
       nb_map s' = filter (\<lambda>x. \<not> gone interval now x) (nb_map s) \<and> nb_count s' = int (length (nb_map s'))" if "\<forall>xs i. incr xs i = Some i"
  proof -
    have "incr = (\<lambda>_. Some)" using that by (intro ext) simp
    with check_loop_next [of 0 s interval now] obtain s' where
      s': "check_neighbors incr interval now s = Some s'" "nb_map s' = filter (\<lambda>x. \<not> gone interval now x) (nb_map s)"
      by (auto simp: check_neighbors_def)
    then show ?thesis using check_loop_inv [of incr interval now 0 s s' mx] inv by (simp add: check_neighbors_def nb_inv_def)
  qed
  moreover have "check_neighbors incr interval now s = None" if "\<forall>xs i. incr xs i = None" "\<exists>x \<in> set (nb_map s). gone interval now x"
  proof -
    have "incr = (\<lambda>_ _. None)" using that(1) by (intro ext) simp
    with check_loop_crash [of 0 s interval now] that(2) show ?thesis by (simp add: check_neighbors_def)
  qed
  ultimately show ?thesis
    using inv check_loop_inv [of incr interval now 0 s _ mx] check_loop_none [of s interval now incr 0]
    unfolding check_neighbors_def by blast
qed

definition sample_nb_ops :: "nb_op list" where
  "sample_nb_ops = [Nb_Add 1 (str ''n1'') (str ''R''), Nb_Add 6 (str ''n2'') (str ''R'')]"

definition sample_nb :: neighbours where
  "sample_nb = \<lparr>nb_map = [(str ''n1'', 1), (str ''n2'', 6)], nb_count = 2\<rparr>"

theorem neighbours_checked_witness:
  "\<exists>s'. check_neighbors (\<lambda>_. Some) 5 7 sample_nb = Some s' \<and> nb_map s' = [(str ''n2'', 6)] \<and> nb_count s' = 1"
proof -
  have "nb_run (\<lambda>_. Some) 4 5 no_neighbours sample_nb_ops = Some sample_nb"
    by (simp add: sample_nb_ops_def sample_nb_def no_neighbours_def add_neighbor_def exist_neighbor_def str_def cstr_def)
  from neighbours_checked [OF this, of 7] show ?thesis by (auto simp: sample_nb_def gone_def)
qed

end
