(* ===== verification/Dtn_Buffer.thy ===== *)
theory Dtn_Buffer
  imports Dtn_Report
begin

text \<open>
  The buffer of the epidemic routing of a DTN node (\<^verbatim>\<open>dtn/epidemic-routing.cc\<close>): the
  store of bundles, the unique identifiers they are found by, the drop policies of a full buffer
  with their priority for the node's own bundles, the reception of a bundle and the periodic
  cleaning.

  The linked list \<open>bundleStoreList\<close> is a list, a position in it stands for an iterator, and
  \<open>buffer_sem\<close> is whether the semaphore is free: a wait for it when it is not never ends in
  the single thread of the simulator.  The dereference of a null pointer or of the end of the list
  and the overrun of a local array are \<^const>\<open>None\<close> as well.

  Modelled is the configuration without network statistics, reference mode and block
  acknowledgments (\<open>maintain_stat\<close>, \<open>reference\<close> and \<open>activate_ack_mechanism\<close> are
  zero), in which the calls for them do nothing.  The copy of the count that the agent keeps for the
  script is left out.  The policies 5 to 8 weigh bundles by estimates of
  the network's state; they are an argument of the model.  Reports on the standard output are left
  out.
\<close>

section \<open>Bundles and their identifiers\<close>

record er_conf =
  cf_endpoint :: bytes
  cf_max_bundles :: int
  cf_drop_policy :: int
  cf_drop_bin :: int
  cf_max_spray :: int
  cf_max_uid :: nat
  cf_infinite_ttl :: bool
  cf_anti_packet :: bool

record store_entry =
  se_bundle :: bdl
  se_id :: bytes
  se_time :: real
  se_forwarded :: int
  se_spray :: bool
  se_max_spray :: int
  se_copy_time :: real

record epidemic =
  er_store :: "store_entry list"
  er_count :: int
  er_free :: bool
  er_seen :: "bytes list"
  er_received :: int
  er_deleted :: int
  er_update :: real

text \<open>The decimal digits of \<^verbatim>\<open>sprintf\<close>'s \<open>%i\<close>.\<close>

fun dec_nat :: "nat \<Rightarrow> bytes" where
  "dec_nat n = (if n < 10 then [of_nat (48 + n)] else dec_nat (n div 10) @ [of_nat (48 + n mod 10)])"

declare dec_nat.simps [simp del]

definition dec_int :: "int \<Rightarrow> bytes" where
  "dec_int i = (if i < 0 then 45 # dec_nat (nat (- i)) else dec_nat (nat i))"

text \<open>The suffix of a unique identifier, written to an array of \<open>max_uid_length + 1\<close> characters;
  the identifier of a bundle is the source endpoint and the suffix, in an array of
  \<open>max_uid_length + 12\<close>.\<close>

definition uid_suffix :: "er_conf \<Rightarrow> c_int \<Rightarrow> bytes exec" where
  "uid_suffix cf u = (let s = 0x72 # dec_int (sint u) in if cf_max_uid cf < length s then None else Some s)"

definition bundle_uid :: "er_conf \<Rightarrow> bdl \<Rightarrow> bytes exec" where
  "bundle_uid cf b = do { e \<leftarrow> bdl_eid b; s \<leftarrow> uid_suffix cf (p_u_id (b_prim b));
     if cf_max_uid cf + 12 < length e + length s + 1 then None else Some (e @ s) }"

definition is_my_message :: "er_conf \<Rightarrow> bdl \<Rightarrow> bool exec" where
  "is_my_message cf b = do { e \<leftarrow> bdl_eid b; Some (e = cstr (cf_endpoint cf)) }"

abbreviation b_elapsed :: "bdl \<Rightarrow> real" where
  "b_elapsed b \<equiv> p_elapsed_time (b_prim b)"

abbreviation elapsed :: "store_entry \<Rightarrow> real" where
  "elapsed e \<equiv> b_elapsed (se_bundle e)"

fun find_id :: "bytes \<Rightarrow> store_entry list \<Rightarrow> store_entry option" where
  "find_id s [] = None"
| "find_id s (e # es) = (if cstr (se_id e) = cstr s then Some e else find_id s es)"

definition exist_id :: "er_conf \<Rightarrow> epidemic \<Rightarrow> bytes \<Rightarrow> c_int \<Rightarrow> store_entry option exec" where
  "exist_id cf st s u = (if u = -1 then Some (find_id s (er_store st))
     else do { x \<leftarrow> uid_suffix cf u; Some (find_id (cstr s @ x) (er_store st)) })"

definition free_place :: "er_conf \<Rightarrow> epidemic \<Rightarrow> bool" where
  "free_place cf st \<longleftrightarrow> er_count st < cf_max_bundles cf"

definition pointer_to :: "epidemic \<Rightarrow> nat \<Rightarrow> store_entry option" where
  "pointer_to st position =
     (if int position \<le> er_count st \<and> 1 \<le> position \<and> position \<le> length (er_store st)
      then Some (er_store st ! (position - 1)) else None)"

text \<open>The constructor of an entry, at the time \<open>now\<close>, and its appending to the store.\<close>

definition new_entry :: "er_conf \<Rightarrow> real \<Rightarrow> bytes \<Rightarrow> bdl \<Rightarrow> store_entry" where
  "new_entry cf now uid b = \<lparr>se_bundle = b, se_id = uid, se_time = now, se_forwarded = 0, se_spray = True,
     se_max_spray = cf_max_spray cf, se_copy_time = 0\<rparr>"

definition push_new :: "er_conf \<Rightarrow> real \<Rightarrow> store_entry list \<Rightarrow> bdl \<Rightarrow> store_entry list exec" where
  "push_new cf now es b = do { uid \<leftarrow> bundle_uid cf b; Some (es @ [new_entry cf now uid b]) }"

definition erase_at :: "nat \<Rightarrow> 'a list \<Rightarrow> 'a list" where
  "erase_at i es = take i es @ drop (i + 1) es"

text \<open>The dereference of an iterator.\<close>

definition deref_at :: "store_entry list \<Rightarrow> nat \<Rightarrow> store_entry exec" where
  "deref_at es i = (if i < length es then Some (es ! i) else None)"

section \<open>The drop policies\<close>

text \<open>A policy has the random number, the time, the state and the new bundle; the result is 1.\<close>

type_synonym policy = "er_conf \<Rightarrow> real \<Rightarrow> real \<Rightarrow> epidemic \<Rightarrow> bdl \<Rightarrow> (epidemic \<times> int) exec"

text \<open>Drop tail: the search for the last bundle that is not the node's own looks at the bundle before it
  looks at the position.\<close>

fun tail_pos :: "er_conf \<Rightarrow> epidemic \<Rightarrow> nat \<Rightarrow> nat exec" where
  "tail_pos cf st lp =
     (case pointer_to st lp of
        None \<Rightarrow> None
      | Some e \<Rightarrow> do { mine \<leftarrow> is_my_message cf (se_bundle e);
                      if mine \<and> 0 < lp then tail_pos cf st (lp - 1) else Some lp })"

declare tail_pos.simps [simp del]

fun index_of_id :: "bytes \<Rightarrow> store_entry list \<Rightarrow> nat" where
  "index_of_id s [] = 0"
| "index_of_id s (e # es) = (if cstr s = cstr (se_id e) then 0 else Suc (index_of_id s es))"

definition add_with_drop_tail :: policy where
  "add_with_drop_tail cf r now st b =
     do { mine \<leftarrow> is_my_message cf b;
          if \<not> mine then Some (st\<lparr>er_deleted := er_deleted st + 1\<rparr>, 1)
          else do {
            lp \<leftarrow> tail_pos cf st (nat (er_count st));
            if lp = 0 then Some (st\<lparr>er_deleted := er_deleted st + 1\<rparr>, 1)
            else do {
              e \<leftarrow> pointer_to st lp;
              es \<leftarrow> push_new cf now (erase_at (index_of_id (se_id e) (er_store st)) (er_store st)) b;
              Some (st\<lparr>er_store := es\<rparr>, 1) } } }"

text \<open>Drop from front: the first bundle that is not the node's own, or else the first.\<close>

fun first_foreign :: "er_conf \<Rightarrow> store_entry list \<Rightarrow> nat exec" where
  "first_foreign cf [] = Some 0"
| "first_foreign cf (e # es) =
     do { mine \<leftarrow> is_my_message cf (se_bundle e);
          if mine then map_option Suc (first_foreign cf es) else Some 0 }"

definition add_with_drop_from_front :: policy where
  "add_with_drop_from_front cf r now st b =
     do { _ \<leftarrow> deref_at (er_store st) 0;
          i \<leftarrow> first_foreign cf (er_store st);
          _ \<leftarrow> (if i < length (er_store st) then bundle_uid cf (se_bundle (er_store st ! i)) else Some []);
          es \<leftarrow> push_new cf now (erase_at (if i < length (er_store st) then i else 0) (er_store st)) b;
          Some (st\<lparr>er_store := es\<rparr>, 1) }"

text \<open>The youngest and the oldest bundle that is not the node's own: the two loops differ in the comparison
  only.  They have the position, the best elapsed time and the position of it, which is zero as long
  as there is none.\<close>

fun pick :: "(real \<Rightarrow> real \<Rightarrow> bool) \<Rightarrow> er_conf \<Rightarrow> store_entry list \<Rightarrow> nat \<Rightarrow> real \<Rightarrow> nat \<Rightarrow> nat exec" where
  "pick better cf [] i best c = Some c"
| "pick better cf (e # es) i best c =
     do { new \<leftarrow> (if better (elapsed e) best then map_option Not (is_my_message cf (se_bundle e)) else Some False);
          if new then pick better cf es (i + 1) (elapsed e) i else pick better cf es (i + 1) best c }"

definition get_youngest :: "er_conf \<Rightarrow> epidemic \<Rightarrow> nat exec" where
  "get_youngest cf st = pick (<) cf (er_store st) 0 99999 0"

definition get_oldest :: "er_conf \<Rightarrow> epidemic \<Rightarrow> nat exec" where
  "get_oldest cf st = pick (>) cf (er_store st) 0 0 0"

text \<open>Replace the bundle at a position, or delete the new one.\<close>

definition replace_at :: "er_conf \<Rightarrow> real \<Rightarrow> epidemic \<Rightarrow> nat \<Rightarrow> bdl \<Rightarrow> (epidemic \<times> int) exec" where
  "replace_at cf now st i b =
     do { es \<leftarrow> push_new cf now (erase_at i (er_store st)) b; Some (st\<lparr>er_store := es\<rparr>, 1) }"

definition add_with_drop_youngest :: policy where
  "add_with_drop_youngest cf r now st b =
     do { i \<leftarrow> get_youngest cf st;
          e \<leftarrow> deref_at (er_store st) i;
          go \<leftarrow> (if elapsed e < b_elapsed b then Some True else is_my_message cf b);
          if go then replace_at cf now st i b else Some (st, 1) }"

definition add_with_drop_oldest :: policy where
  "add_with_drop_oldest cf r now st b =
     do { i \<leftarrow> get_oldest cf st;
          e \<leftarrow> deref_at (er_store st) i;
          go \<leftarrow> (if b_elapsed b < elapsed e then Some True else is_my_message cf b);
          if go then replace_at cf now st i b else Some (st, 1) }"

definition add_with_bin_drop_oldest :: policy where
  "add_with_bin_drop_oldest cf r now st b =
     do { i \<leftarrow> get_oldest cf st;
          mine \<leftarrow> is_my_message cf b;
          e \<leftarrow> deref_at (er_store st) i;
          if mine then replace_at cf now st i b
          else if b_elapsed b \<le> elapsed e
          then (if real_of_int (cf_drop_bin cf) \<le> elapsed e - b_elapsed b \<or> 0.5 < r
                then replace_at cf now st i b else Some (st, 1))
          else (if b_elapsed b - elapsed e < real_of_int (cf_drop_bin cf) \<and> 0.5 < r
                then replace_at cf now st i b else Some (st, 1)) }"

section \<open>Reception of a bundle and cleaning\<close>

definition add_seen :: "bytes \<Rightarrow> bytes list \<Rightarrow> bytes list" where
  "add_seen s seen = (if s \<in> set seen then seen else seen @ [s])"

definition sem_wait :: "epidemic \<Rightarrow> epidemic exec" where
  "sem_wait st = (if er_free st then Some (st\<lparr>er_free := False\<rparr>) else None)"

definition sem_post :: "epidemic \<Rightarrow> epidemic" where
  "sem_post st = st\<lparr>er_free := True\<rparr>"

text \<open>The switch over the policies; a policy that is not known deletes the new bundle, and only there
  the semaphore is not released.\<close>

definition drop_policy :: "(int \<Rightarrow> policy) \<Rightarrow> int \<Rightarrow> policy option" where
  "drop_policy metric n =
     (if n = 1 then Some add_with_drop_tail
      else if n = 2 then Some add_with_drop_from_front
      else if n = 3 then Some add_with_drop_youngest
      else if n = 4 then Some add_with_drop_oldest
      else if 5 \<le> n \<and> n \<le> 8 then Some (metric n)
      else if n = 9 then Some add_with_bin_drop_oldest
      else None)"

definition add_bundle :: "(int \<Rightarrow> policy) \<Rightarrow> er_conf \<Rightarrow> real \<Rightarrow> real \<Rightarrow> epidemic \<Rightarrow> bdl \<Rightarrow> (epidemic \<times> int) exec" where
  "add_bundle metric cf r now st b =
     do { eid \<leftarrow> bdl_eid b;
          uid \<leftarrow> bundle_uid cf b;
          mine \<leftarrow> is_my_message cf b;
          let st1 = st\<lparr>er_seen := add_seen uid (er_seen st),
                       er_received := er_received st + (if mine then 0 else 1)\<rparr>;
          found \<leftarrow> exist_id cf st1 eid (p_u_id (b_prim b));
          if found \<noteq> None then Some (st1, 0)
          else do {
            st2 \<leftarrow> sem_wait st1;
            if free_place cf st1 then do {
              let b' = (if mine then b else b\<lparr>b_prim := (b_prim b)\<lparr>p_hopcount := p_hopcount (b_prim b) + 1\<rparr>\<rparr>);
              Some (sem_post (st2\<lparr>er_store := er_store st2 @ [new_entry cf now uid b'],
                                  er_count := er_count st2 + 1, er_update := now\<rparr>), 1) }
            else (case drop_policy metric (cf_drop_policy cf) of
                    None \<Rightarrow> Some (st2\<lparr>er_update := now\<rparr>, 0)
                  | Some p \<Rightarrow> do { (st3, v) \<leftarrow> p cf r now (st2\<lparr>er_update := now\<rparr>) b;
                                   Some (sem_post st3, v) }) } }"

definition update_elapsed :: "real \<Rightarrow> store_entry \<Rightarrow> store_entry" where
  "update_elapsed d e =
     (let b = se_bundle e; el = b_elapsed b + (d - se_time e)
      in e\<lparr>se_bundle := b\<lparr>b_prim := (b_prim b)\<lparr>p_elapsed_time := el\<rparr>\<rparr>,
           se_copy_time := se_copy_time e + (d - se_time e), se_time := d,
           se_spray := (if real_of_int (se_max_spray e) < el then False else se_spray e)\<rparr>)"

text \<open>The loop over the store: the entries that stay and the number of those that are deleted.\<close>

fun clean_loop :: "real \<Rightarrow> store_entry list \<Rightarrow> store_entry list \<times> int" where
  "clean_loop now [] = ([], 0)"
| "clean_loop now (e # es) =
     (let e' = update_elapsed now e; (kept, n) = clean_loop now es
      in if p_exp_time (b_prim (se_bundle e')) \<le> elapsed e' then (kept, n + 1) else (e' # kept, n))"

definition make_clean :: "er_conf \<Rightarrow> real \<Rightarrow> epidemic \<Rightarrow> epidemic exec" where
  "make_clean cf now st =
     (if cf_infinite_ttl cf \<or> er_count st \<le> 0 then Some st
      else do { st1 \<leftarrow> sem_wait st;
                let (kept, n) = clean_loop now (er_store st1);
                Some (sem_post (st1\<lparr>er_store := kept, er_count := er_count st1 - n,
                                    er_update := (if 0 < n then now else er_update st1)\<rparr>)) })"

text \<open>The deletion of the bundles that an anti-packet declares delivered.\<close>

fun delivered_loop :: "er_conf \<Rightarrow> bytes list \<Rightarrow> store_entry list \<Rightarrow> (store_entry list \<times> int) exec" where
  "delivered_loop cf dl [] = Some ([], 0)"
| "delivered_loop cf dl (e # es) =
     do { uid \<leftarrow> bundle_uid cf (se_bundle e);
          (kept, n) \<leftarrow> delivered_loop cf dl es;
          Some (if uid \<in> set dl then (kept, n + 1) else (e # kept, n)) }"

definition delete_delivered :: "er_conf \<Rightarrow> bytes list \<Rightarrow> real \<Rightarrow> epidemic \<Rightarrow> epidemic exec" where
  "delete_delivered cf dl now st =
     (if \<not> cf_anti_packet cf then Some st
      else do { st1 \<leftarrow> sem_wait st;
                st2 \<leftarrow> (if 0 < er_count st1
                       then do { (kept, n) \<leftarrow> delivered_loop cf dl (er_store st1);
                                 Some (st1\<lparr>er_store := kept, er_count := er_count st1 - n,
                                           er_update := (if 0 < n then now else er_update st1)\<rparr>) }
                       else Some st1);
                Some (sem_post st2) })"

section \<open>Identifiers\<close>

lemma dec_nat_no_zero: "0 \<notin> set (dec_nat n)"
proof (induction n rule: dec_nat.induct)
  case (1 n)
  have digit: "(of_nat (48 + d) :: u8) \<noteq> 0" if "d < 10" for d
  proof -
    have small: "unat (of_nat m :: u8) = m" if "m < 256" for m using that by (simp add: unat_of_nat)
    have "unat (of_nat (48 + d) :: u8) = 48 + d" by (rule small) (use that in simp)
    then show ?thesis by (metis add_is_0 unat_0 zero_neq_numeral)
  qed
  show ?case
  proof (cases "n < 10")
    case True
    then show ?thesis using digit [of n] by (subst dec_nat.simps) auto
  next
    case False
    then show ?thesis using 1 digit [of "n mod 10"] by (subst dec_nat.simps) auto
  qed
qed

lemma uid_suffix_no_zero: "uid_suffix cf u = Some s \<Longrightarrow> 0 \<notin> set s"
  by (auto simp: uid_suffix_def Let_def dec_int_def dec_nat_no_zero split: if_splits)

lemma bdl_eid_no_zero: "bdl_eid b = Some e \<Longrightarrow> 0 \<notin> set e"
  by (auto simp: bdl_eid_def bind_eq_Some_conv)

lemma bundle_uid_no_zero: "bundle_uid cf b = Some s \<Longrightarrow> 0 \<notin> set s"
  by (auto simp: bundle_uid_def bind_eq_Some_conv split: if_splits dest: uid_suffix_no_zero bdl_eid_no_zero)

lemma bundle_uid_parts:
  "bundle_uid cf b = Some s \<Longrightarrow> \<exists>e x. bdl_eid b = Some e \<and> uid_suffix cf (p_u_id (b_prim b)) = Some x \<and> s = e @ x"
  by (auto simp: bundle_uid_def bind_eq_Some_conv split: if_splits)

lemma bundle_uid_hop [simp]: "bundle_uid cf (b\<lparr>b_prim := (b_prim b)\<lparr>p_hopcount := h\<rparr>\<rparr>) = bundle_uid cf b"
  by (simp add: bundle_uid_def bdl_eid_def)

lemma bundle_uid_elapsed [simp]: "bundle_uid cf (b\<lparr>b_prim := (b_prim b)\<lparr>p_elapsed_time := h\<rparr>\<rparr>) = bundle_uid cf b"
  by (simp add: bundle_uid_def bdl_eid_def)

lemma find_id_None: "find_id s es = None \<longleftrightarrow> cstr s \<notin> (cstr \<circ> se_id) ` set es"
  by (induction es) auto

section \<open>Well-formed buffers\<close>

text \<open>Every entry has the identifier of its bundle.\<close>

definition entry_ok :: "er_conf \<Rightarrow> store_entry \<Rightarrow> bool" where
  "entry_ok cf e \<longleftrightarrow> bundle_uid cf (se_bundle e) = Some (se_id e)"

definition store_ok :: "er_conf \<Rightarrow> epidemic \<Rightarrow> bool" where
  "store_ok cf st \<longleftrightarrow> er_count st = int (length (er_store st)) \<and> er_count st \<le> cf_max_bundles cf
     \<and> distinct (map se_id (er_store st)) \<and> (\<forall>e \<in> set (er_store st). entry_ok cf e) \<and> er_free st"

abbreviation own :: "er_conf \<Rightarrow> bdl \<Rightarrow> bool" where
  "own cf b \<equiv> is_my_message cf b = Some True"

abbreviation strange :: "er_conf \<Rightarrow> bdl \<Rightarrow> bool" where
  "strange cf b \<equiv> is_my_message cf b = Some False"

lemma entry_ok_cstr: "entry_ok cf e \<Longrightarrow> cstr (se_id e) = se_id e"
  by (auto simp: entry_ok_def dest: bundle_uid_no_zero)

lemma uid_known: "bundle_uid cf b = Some s \<Longrightarrow> own cf b \<or> strange cf b"
  by (auto simp: is_my_message_def dest!: bundle_uid_parts)

lemma entry_known: "entry_ok cf e \<Longrightarrow> own cf (se_bundle e) \<or> strange cf (se_bundle e)"
  by (auto simp: entry_ok_def dest: uid_known)

lemma new_entry_ok: "bundle_uid cf b = Some uid \<Longrightarrow> entry_ok cf (new_entry cf now uid b)"
  by (simp add: entry_ok_def new_entry_def)

lemma set_erase_at: "set (erase_at i es) \<subseteq> set es"
  by (auto simp: erase_at_def dest: in_set_takeD in_set_dropD)

lemma length_erase_at: "i < length es \<Longrightarrow> length (erase_at i es) = length es - 1"
  by (simp add: erase_at_def)

lemma map_erase_at: "map f (erase_at i es) = erase_at i (map f es)"
  by (simp add: erase_at_def take_map drop_map)

lemma distinct_erase_at: "distinct es \<Longrightarrow> distinct (erase_at i es)"
  unfolding erase_at_def using append_take_drop_id [of i es]
  by (auto simp: set_take_disj_set_drop_if_distinct)

lemma erase_at_other: "\<lbrakk>e \<in> set es; i < length es; e \<noteq> es ! i\<rbrakk> \<Longrightarrow> e \<in> set (erase_at i es)"
proof -
  assume *: "e \<in> set es" "i < length es" "e \<noteq> es ! i"
  have "set es = set (take i es @ es ! i # drop (Suc i) es)" by (subst id_take_nth_drop [OF *(2), symmetric]) simp
  then show ?thesis using * by (auto simp: erase_at_def)
qed

section \<open>The contract of the drop policies\<close>

text \<open>A policy either leaves the store as it is or replaces one entry by the new bundle; count and
  semaphore are left to the caller.\<close>

locale replacing_policy =
  fixes p :: policy
  assumes replaces: "p cf r now st b = Some (st', v) \<Longrightarrow>
      er_store st' = er_store st
      \<or> (\<exists>i uid. i < length (er_store st) \<and> bundle_uid cf b = Some uid
           \<and> er_store st' = erase_at i (er_store st) @ [new_entry cf now uid b])"
    and frame: "p cf r now st b = Some (st', v) \<Longrightarrow> er_count st' = er_count st \<and> er_free st' = er_free st \<and> v = 1"
begin

lemma keeps_ok:
  assumes "p cf r now st b = Some (st', v)" "store_ok cf (st\<lparr>er_free := True\<rparr>)"
    and "\<And>uid. bundle_uid cf b = Some uid \<Longrightarrow> uid \<notin> se_id ` set (er_store st)"
  shows "store_ok cf (st'\<lparr>er_free := True\<rparr>)"
  using replaces [OF assms(1)]
proof
  assume "er_store st' = er_store st"
  then show ?thesis using frame [OF assms(1)] assms(2) by (simp add: store_ok_def)
next
  assume "\<exists>i uid. i < length (er_store st) \<and> bundle_uid cf b = Some uid
           \<and> er_store st' = erase_at i (er_store st) @ [new_entry cf now uid b]"
  then obtain i uid where i: "i < length (er_store st)" "bundle_uid cf b = Some uid"
    "er_store st' = erase_at i (er_store st) @ [new_entry cf now uid b]" by blast
  have d: "distinct (map se_id (erase_at i (er_store st)))"
    using assms(2) by (simp add: map_erase_at distinct_erase_at store_ok_def)
  have "uid \<notin> se_id ` set (erase_at i (er_store st))"
    using assms(3) [OF i(2)] set_erase_at [of i "er_store st"] by blast
  then have "distinct (map se_id (er_store st'))" using d i(3) by (simp add: new_entry_def)
  moreover have "\<forall>e \<in> set (er_store st'). entry_ok cf e"
    using i new_entry_ok [OF i(2)] set_erase_at [of i "er_store st"] assms(2) by (auto simp: store_ok_def)
  moreover have "length (er_store st') = length (er_store st)"
    using i by (simp add: length_erase_at)
  ultimately show ?thesis using frame [OF assms(1)] assms(2) by (simp add: store_ok_def)
qed

end

text \<open>The priority of the node's own bundles.\<close>

locale fair_policy = replacing_policy +
  assumes keeps_own: "\<lbrakk>p cf r now st b = Some (st', v); store_ok cf (st\<lparr>er_free := True\<rparr>);
      f \<in> set (er_store st); strange cf (se_bundle f); 0 < elapsed f; elapsed f < 99999;
      e \<in> set (er_store st); own cf (se_bundle e)\<rbrakk> \<Longrightarrow> e \<in> set (er_store st')"
    and takes_own: "\<lbrakk>p cf r now st b = Some (st', v); own cf b\<rbrakk> \<Longrightarrow>
      \<exists>uid. bundle_uid cf b = Some uid \<and> new_entry cf now uid b \<in> set (er_store st')"

section \<open>The policies meet the contract\<close>

lemma push_new_Some: "push_new cf now es b = Some es' \<longleftrightarrow>
    (\<exists>uid. bundle_uid cf b = Some uid \<and> es' = es @ [new_entry cf now uid b])"
  by (auto simp: push_new_def bind_eq_Some_conv)

lemma replace_at_Some: "replace_at cf now st i b = Some (st', v) \<longleftrightarrow>
    (\<exists>uid. bundle_uid cf b = Some uid \<and> st' = st\<lparr>er_store := erase_at i (er_store st) @ [new_entry cf now uid b]\<rparr>) \<and> v = 1"
  by (auto simp: replace_at_def push_new_def bind_eq_Some_conv)

lemma index_of_id_nth: "e \<in> set es \<Longrightarrow> index_of_id (se_id e) es < length es
    \<and> cstr (se_id (es ! index_of_id (se_id e) es)) = cstr (se_id e)"
  by (induction es) auto

text \<open>The searches.\<close>

lemma tail_pos_Some:
  "tail_pos cf st lp = Some n \<Longrightarrow> (\<exists>e. pointer_to st n = Some e \<and> strange cf (se_bundle e)) \<and> n \<noteq> 0"
proof (induction cf st lp rule: tail_pos.induct)
  case (1 cf st lp)
  from "1.prems" obtain e mine where e: "pointer_to st lp = Some e" "is_my_message cf (se_bundle e) = Some mine"
    by (subst (asm) tail_pos.simps) (auto split: option.splits simp: bind_eq_Some_conv)
  then have lp: "lp \<noteq> 0" by (auto simp: pointer_to_def split: if_splits)
  show ?case
  proof (cases mine)
    case True
    then have "tail_pos cf st (lp - 1) = Some n" using "1.prems" e lp by (subst (asm) tail_pos.simps) simp
    then show ?thesis using "1.IH" [OF e(1) e(2)] True lp by simp
  next
    case False
    then show ?thesis using "1.prems" e lp by (subst (asm) tail_pos.simps) auto
  qed
qed

lemma first_foreign_Some:
  "first_foreign cf es = Some i \<Longrightarrow> i < length es \<and> strange cf (se_bundle (es ! i))
     \<or> i = length es \<and> (\<forall>e \<in> set es. own cf (se_bundle e))"
  by (induction es arbitrary: i) (fastforce simp: bind_eq_Some_conv split: if_splits)+

lemma pick_Some:
  assumes trans: "\<And>x y z. better x y \<Longrightarrow> better y z \<Longrightarrow> better x z" and irrefl: "\<And>x. \<not> better x x"
  shows "pick better cf es i best c = Some c' \<Longrightarrow>
     c' = c \<and> (\<forall>e \<in> set es. better (elapsed e) best \<longrightarrow> own cf (se_bundle e))
     \<or> (\<exists>k < length es. c' = i + k \<and> strange cf (se_bundle (es ! k)) \<and> better (elapsed (es ! k)) best
          \<and> (\<forall>f \<in> set es. strange cf (se_bundle f) \<longrightarrow> \<not> better (elapsed f) (elapsed (es ! k))))"
proof (induction es arbitrary: i best c)
  case (Cons e es)
  show ?case
  proof (cases "better (elapsed e) best \<and> strange cf (se_bundle e)")
    case True
    then have "pick better cf es (i + 1) (elapsed e) i = Some c'" using Cons.prems by simp
    from Cons.IH [OF this] show ?thesis
    proof (elim disjE exE conjE)
      assume "c' = i" "\<forall>f \<in> set es. better (elapsed f) (elapsed e) \<longrightarrow> own cf (se_bundle f)"
      then show ?thesis using True irrefl by (intro disjI2 exI [of _ 0]) auto
    next
      fix k
      assume "k < length es" "c' = i + 1 + k" "strange cf (se_bundle (es ! k))" "better (elapsed (es ! k)) (elapsed e)"
        "\<forall>f \<in> set es. strange cf (se_bundle f) \<longrightarrow> \<not> better (elapsed f) (elapsed (es ! k))"
      then show ?thesis using True trans irrefl by (intro disjI2 exI [of _ "Suc k"]) (simp, blast)
    qed
  next
    case False
    then have *: "pick better cf es (i + 1) best c = Some c'" "better (elapsed e) best \<longrightarrow> own cf (se_bundle e)"
      using Cons.prems by (auto simp: bind_eq_Some_conv split: if_splits)
    from Cons.IH [OF *(1)] show ?thesis
    proof (elim disjE exE conjE)
      assume "c' = c" "\<forall>e \<in> set es. better (elapsed e) best \<longrightarrow> own cf (se_bundle e)"
      then show ?thesis using *(2) by simp
    next
      fix k
      assume "k < length es" "c' = i + 1 + k" "strange cf (se_bundle (es ! k))" "better (elapsed (es ! k)) best"
        "\<forall>f \<in> set es. strange cf (se_bundle f) \<longrightarrow> \<not> better (elapsed f) (elapsed (es ! k))"
      then show ?thesis using *(2) trans by (intro disjI2 exI [of _ "Suc k"]) auto
    qed
  qed
qed simp

text \<open>With a bundle of another node inside the limits of the search, its victim is the youngest or oldest of those.\<close>

lemma youngest_victim:
  assumes "get_youngest cf st = Some i" "f \<in> set (er_store st)" "strange cf (se_bundle f)" "elapsed f < 99999"
  shows "i < length (er_store st) \<and> strange cf (se_bundle (er_store st ! i))
    \<and> (\<forall>g \<in> set (er_store st). strange cf (se_bundle g) \<longrightarrow> elapsed (er_store st ! i) \<le> elapsed g)"
  using pick_Some [of "(<)" cf "er_store st" 0 99999 0 i] assms by (fastforce simp: get_youngest_def)

lemma oldest_victim:
  assumes "get_oldest cf st = Some i" "f \<in> set (er_store st)" "strange cf (se_bundle f)" "0 < elapsed f"
  shows "i < length (er_store st) \<and> strange cf (se_bundle (er_store st ! i))
    \<and> (\<forall>g \<in> set (er_store st). strange cf (se_bundle g) \<longrightarrow> elapsed g \<le> elapsed (er_store st ! i))"
  using pick_Some [of "(>)" cf "er_store st" 0 0 0 i] assms by (fastforce simp: get_oldest_def)

text \<open>What a replacement does.\<close>

lemma replace_at_replaces:
  assumes "replace_at cf now st i b = Some (st', v)" "i < length (er_store st)"
  shows "\<exists>i uid. i < length (er_store st) \<and> bundle_uid cf b = Some uid
           \<and> er_store st' = erase_at i (er_store st) @ [new_entry cf now uid b]"
  using assms by (auto simp: replace_at_Some)

lemma replace_at_keeps:
  assumes "replace_at cf now st i b = Some (st', v)" "i < length (er_store st)" "strange cf (se_bundle (er_store st ! i))"
    "e \<in> set (er_store st)" "own cf (se_bundle e)"
  shows "e \<in> set (er_store st')"
proof -
  have "e \<noteq> er_store st ! i" using assms(3,5) by auto
  then have "e \<in> set (erase_at i (er_store st))" by (rule erase_at_other [OF assms(4,2)])
  then show ?thesis using assms(1) by (auto simp: replace_at_Some)
qed

lemma deref_at_Some [simp]: "deref_at es i = Some e \<longleftrightarrow> i < length es \<and> e = es ! i"
  by (auto simp: deref_at_def)

text \<open>The policies that search for a victim and then replace it or delete the new bundle.\<close>

locale search_policy =
  fixes p :: policy and search :: "er_conf \<Rightarrow> epidemic \<Rightarrow> nat exec"
  assumes outcome: "p cf r now st b = Some (st', v) \<Longrightarrow> st' = st \<and> v = 1 \<and> strange cf b
      \<or> (\<exists>i. search cf st = Some i \<and> i < length (er_store st) \<and> replace_at cf now st i b = Some (st', v))"
    and victim: "\<lbrakk>search cf st = Some i; f \<in> set (er_store st); strange cf (se_bundle f); 0 < elapsed f; elapsed f < 99999\<rbrakk>
      \<Longrightarrow> strange cf (se_bundle (er_store st ! i))"
begin

lemma search_replaces:
  "p cf r now st b = Some (st', v) \<Longrightarrow> er_store st' = er_store st
      \<or> (\<exists>i uid. i < length (er_store st) \<and> bundle_uid cf b = Some uid
           \<and> er_store st' = erase_at i (er_store st) @ [new_entry cf now uid b])"
  by (drule outcome) (auto simp: replace_at_Some)

lemma search_frame: "p cf r now st b = Some (st', v) \<Longrightarrow> er_count st' = er_count st \<and> er_free st' = er_free st \<and> v = 1"
  by (drule outcome) (auto simp: replace_at_Some)

lemma search_keeps:
  assumes "p cf r now st b = Some (st', v)" "f \<in> set (er_store st)" "strange cf (se_bundle f)" "0 < elapsed f" "elapsed f < 99999"
    "e \<in> set (er_store st)" "own cf (se_bundle e)"
  shows "e \<in> set (er_store st')"
  using outcome [OF assms(1)] victim [OF _ assms(2-5)] replace_at_keeps [OF _ _ _ assms(6,7)] assms(6) by blast

lemma search_takes:
  "\<lbrakk>p cf r now st b = Some (st', v); own cf b\<rbrakk> \<Longrightarrow> \<exists>uid. bundle_uid cf b = Some uid \<and> new_entry cf now uid b \<in> set (er_store st')"
  by (drule outcome) (auto simp: replace_at_Some)

end

sublocale search_policy \<subseteq> fair_policy p
  by unfold_locales (fact search_replaces search_frame search_takes | (rule search_keeps, assumption+))+

interpretation youngest: search_policy add_with_drop_youngest get_youngest
  by unfold_locales
    (auto simp: add_with_drop_youngest_def bind_eq_Some_conv split: if_splits dest: youngest_victim)

interpretation oldest: search_policy add_with_drop_oldest get_oldest
  by unfold_locales
    (auto simp: add_with_drop_oldest_def bind_eq_Some_conv split: if_splits dest: oldest_victim)

interpretation bin_oldest: search_policy add_with_bin_drop_oldest get_oldest
  by unfold_locales
    (auto simp: add_with_bin_drop_oldest_def bind_eq_Some_conv split: if_splits dest: oldest_victim)

interpretation from_front: fair_policy add_with_drop_from_front
proof
  fix cf r now st b st' v
  assume p: "add_with_drop_from_front cf r now st b = Some (st', v)"
  then obtain i uid where i: "er_store st \<noteq> []" "first_foreign cf (er_store st) = Some i" "bundle_uid cf b = Some uid"
    "st' = st\<lparr>er_store := erase_at (if i < length (er_store st) then i else 0) (er_store st) @ [new_entry cf now uid b]\<rparr>" "v = 1"
    by (auto simp: add_with_drop_from_front_def bind_eq_Some_conv push_new_Some)
  then show "er_store st' = er_store st \<or> (\<exists>i uid. i < length (er_store st) \<and> bundle_uid cf b = Some uid
           \<and> er_store st' = erase_at i (er_store st) @ [new_entry cf now uid b])"
    by (intro disjI2 exI [of _ "if i < length (er_store st) then i else 0"] exI [of _ uid]) simp
  show "er_count st' = er_count st \<and> er_free st' = er_free st \<and> v = 1" using i by simp
  show "own cf b \<Longrightarrow> \<exists>uid. bundle_uid cf b = Some uid \<and> new_entry cf now uid b \<in> set (er_store st')" using i by simp
  fix f e
  assume f: "f \<in> set (er_store st)" "strange cf (se_bundle f)" and e: "e \<in> set (er_store st)" "own cf (se_bundle e)"
  have "i < length (er_store st)" "strange cf (se_bundle (er_store st ! i))"
    using first_foreign_Some [OF i(2)] f by auto
  moreover have "e \<noteq> er_store st ! i" using calculation(2) e(2) by auto
  ultimately show "e \<in> set (er_store st')" using erase_at_other [OF e(1), of i] i(4) by simp
qed

lemma tail_replaces:
  assumes "add_with_drop_tail cf r now st b = Some (st', v)"
  shows "st' = st\<lparr>er_deleted := er_deleted st + 1\<rparr> \<and> v = 1 \<and> strange cf b
    \<or> (\<exists>i uid lp. i < length (er_store st) \<and> bundle_uid cf b = Some uid
           \<and> st' = st\<lparr>er_store := erase_at i (er_store st) @ [new_entry cf now uid b]\<rparr> \<and> v = 1
           \<and> lp < length (er_store st) \<and> strange cf (se_bundle (er_store st ! lp))
           \<and> cstr (se_id (er_store st ! i)) = cstr (se_id (er_store st ! lp)))"
proof (cases "strange cf b")
  case True
  then show ?thesis using assms by (simp add: add_with_drop_tail_def)
next
  case False
  then obtain lp e uid where lp: "tail_pos cf st (nat (er_count st)) = Some lp" "lp \<noteq> 0" "pointer_to st lp = Some e"
    "bundle_uid cf b = Some uid" "v = 1"
    "st' = st\<lparr>er_store := erase_at (index_of_id (se_id e) (er_store st)) (er_store st) @ [new_entry cf now uid b]\<rparr>"
    using assms tail_pos_Some by (auto simp: add_with_drop_tail_def bind_eq_Some_conv push_new_Some split: if_splits)
  have e: "lp - 1 < length (er_store st)" "e = er_store st ! (lp - 1)" "strange cf (se_bundle e)"
    using lp(3) tail_pos_Some [OF lp(1)] by (auto simp: pointer_to_def split: if_splits)
  then have "e \<in> set (er_store st)" by simp
  from index_of_id_nth [OF this] show ?thesis
    using lp e by (intro disjI2 exI [of _ "index_of_id (se_id e) (er_store st)"] exI [of _ uid] exI [of _ "lp - 1"]) simp
qed

interpretation tail: fair_policy add_with_drop_tail
proof
  fix cf r now st b st' v
  assume p: "add_with_drop_tail cf r now st b = Some (st', v)"
  show "er_store st' = er_store st \<or> (\<exists>i uid. i < length (er_store st) \<and> bundle_uid cf b = Some uid
           \<and> er_store st' = erase_at i (er_store st) @ [new_entry cf now uid b])"
    using tail_replaces [OF p] by auto
  show "er_count st' = er_count st \<and> er_free st' = er_free st \<and> v = 1" using tail_replaces [OF p] by auto
  show "own cf b \<Longrightarrow> \<exists>uid. bundle_uid cf b = Some uid \<and> new_entry cf now uid b \<in> set (er_store st')"
    using tail_replaces [OF p] by auto
  fix e
  assume ok: "store_ok cf (st\<lparr>er_free := True\<rparr>)" and e: "e \<in> set (er_store st)" "own cf (se_bundle e)"
  from tail_replaces [OF p] show "e \<in> set (er_store st')"
  proof (elim disjE exE conjE)
    fix i uid lp
    assume i: "i < length (er_store st)" "st' = st\<lparr>er_store := erase_at i (er_store st) @ [new_entry cf now uid b]\<rparr>"
      "lp < length (er_store st)" "strange cf (se_bundle (er_store st ! lp))"
      "cstr (se_id (er_store st ! i)) = cstr (se_id (er_store st ! lp))"
    have "entry_ok cf (er_store st ! i)" "entry_ok cf (er_store st ! lp)" using ok i(1,3) by (simp_all add: store_ok_def)
    then have "se_id (er_store st ! i) = se_id (er_store st ! lp)" using i(5) by (simp add: entry_ok_cstr)
    then have "i = lp" using ok i(1,3) by (simp add: store_ok_def distinct_conv_nth) metis
    then have "e \<noteq> er_store st ! i" using e(2) i(4) by auto
    then show ?thesis using erase_at_other [OF e(1) i(1)] i(2) by simp
  qed (use e in simp)
qed

section \<open>The reception of a bundle\<close>

text \<open>A policy number whose policy is modelled.\<close>

abbreviation known_policy :: "er_conf \<Rightarrow> bool" where
  "known_policy cf \<equiv> cf_drop_policy cf \<in> {1, 2, 3, 4, 9}"

lemma known_policy_fair: "known_policy cf \<Longrightarrow> \<exists>p. drop_policy metric (cf_drop_policy cf) = Some p \<and> fair_policy p"
  using tail.fair_policy_axioms from_front.fair_policy_axioms youngest.fair_policy_axioms
    oldest.fair_policy_axioms bin_oldest.fair_policy_axioms
  by (auto simp: drop_policy_def)

lemma exist_id_uid:
  assumes "bdl_eid b = Some eid" "bundle_uid cf b = Some uid" "p_u_id (b_prim b) \<noteq> -1"
  shows "exist_id cf st eid (p_u_id (b_prim b)) = Some (find_id uid (er_store st))"
  using assms bundle_uid_parts [OF assms(2)] bdl_eid_no_zero [OF assms(1)] by (auto simp: exist_id_def)

lemma find_id_new:
  assumes "store_ok cf st" "bundle_uid cf b = Some uid"
  shows "find_id uid (er_store st) = None \<longleftrightarrow> uid \<notin> se_id ` set (er_store st)"
proof -
  have "(cstr \<circ> se_id) ` set (er_store st) = se_id ` set (er_store st)"
    using assms(1) by (intro image_cong) (auto simp: store_ok_def entry_ok_cstr)
  then show ?thesis using bundle_uid_no_zero [OF assms(2)] by (simp add: find_id_None)
qed

text \<open>The state in which the policy is called.\<close>

abbreviation full_state :: "er_conf \<Rightarrow> real \<Rightarrow> epidemic \<Rightarrow> bdl \<Rightarrow> epidemic" where
  "full_state cf now st b \<equiv> st\<lparr>er_seen := add_seen (the (bundle_uid cf b)) (er_seen st),
     er_received := er_received st + (if own cf b then 0 else 1), er_free := False, er_update := now\<rparr>"

text \<open>The four ways of a reception.\<close>

lemma add_bundle_cases:
  assumes "store_ok cf st" "bundle_uid cf b = Some uid" "p_u_id (b_prim b) \<noteq> -1"
  obtains (known) "uid \<in> se_id ` set (er_store st)"
      "add_bundle metric cf r now st b = Some (st\<lparr>er_seen := add_seen uid (er_seen st),
         er_received := er_received st + (if own cf b then 0 else 1)\<rparr>, 0)"
  | (room) b' where "uid \<notin> se_id ` set (er_store st)" "er_count st < cf_max_bundles cf"
      "bundle_uid cf b' = Some uid" "b_elapsed b' = b_elapsed b" "own cf b \<longrightarrow> b' = b"
      "add_bundle metric cf r now st b = Some (st\<lparr>er_seen := add_seen uid (er_seen st),
         er_received := er_received st + (if own cf b then 0 else 1), er_store := er_store st @ [new_entry cf now uid b'],
         er_count := er_count st + 1, er_update := now\<rparr>, 1)"
  | (full) p where "uid \<notin> se_id ` set (er_store st)" "er_count st = cf_max_bundles cf"
      "drop_policy metric (cf_drop_policy cf) = Some p"
      "add_bundle metric cf r now st b = Option.bind (p cf r now (full_state cf now st b) b) (\<lambda>(st', v). Some (sem_post st', v))"
  | (unknown) "uid \<notin> se_id ` set (er_store st)" "er_count st = cf_max_bundles cf"
      "drop_policy metric (cf_drop_policy cf) = None"
      "add_bundle metric cf r now st b = Some (full_state cf now st b, 0)"
proof -
  obtain eid x where eid: "bdl_eid b = Some eid" using bundle_uid_parts [OF assms(2)] by blast
  obtain mine where mine: "is_my_message cf b = Some mine" using uid_known [OF assms(2)] by auto
  have free: "er_free st" and le: "er_count st \<le> cf_max_bundles cf" using assms(1) by (simp_all add: store_ok_def)
  note ex = exist_id_uid [OF eid assms(2,3)]
  show thesis
  proof (cases "find_id uid (er_store st)")
    case (Some e)
    then show thesis using known find_id_new [OF assms(1,2)] eid assms(2) mine ex
      by (auto simp: add_bundle_def Let_def)
  next
    case None
    then have new: "uid \<notin> se_id ` set (er_store st)" using find_id_new [OF assms(1,2)] by simp
    consider "er_count st < cf_max_bundles cf" | "er_count st = cf_max_bundles cf" using le by fastforce
    then show thesis
    proof cases
      case 1
      let ?b = "if mine then b else b\<lparr>b_prim := (b_prim b)\<lparr>p_hopcount := p_hopcount (b_prim b) + 1\<rparr>\<rparr>"
      show thesis
        by (rule room [OF new 1, of ?b])
          (use None eid assms(2) mine ex free 1 in
            \<open>auto simp: add_bundle_def Let_def sem_wait_def sem_post_def free_place_def\<close>)
    next
      case 2
      show thesis
      proof (cases "drop_policy metric (cf_drop_policy cf)")
        case None
        then show thesis using unknown new 2 eid assms(2) mine ex free \<open>find_id uid (er_store st) = None\<close>
          by (auto simp: add_bundle_def Let_def sem_wait_def free_place_def)
      next
        case (Some p)
        then show thesis using full new 2 eid assms(2) mine ex free None
          by (auto simp: add_bundle_def Let_def sem_wait_def free_place_def)
      qed
    qed
  qed
qed

lemma add_bundle_ok:
  assumes "store_ok cf st" "bundle_uid cf b = Some uid" "p_u_id (b_prim b) \<noteq> -1" "known_policy cf"
    "add_bundle metric cf r now st b = Some (st', v)"
  shows "store_ok cf st'"
proof (cases rule: add_bundle_cases [OF assms(1-3), of metric r now, case_names known room full unknown])
  case known
  then show ?thesis using assms(1,5) by (auto simp: store_ok_def)
next
  case (room b')
  then show ?thesis using assms(1,5) new_entry_ok [OF room(3)] by (auto simp: store_ok_def new_entry_def)
next
  case (full p)
  then have "Option.bind (p cf r now (full_state cf now st b) b) (\<lambda>(st', v). Some (sem_post st', v)) = Some (st', v)"
    using assms(5) by simp
  then obtain st3 where p: "p cf r now (full_state cf now st b) b = Some (st3, v)" "st' = sem_post st3"
    by (auto simp: bind_eq_Some_conv)
  have fair: "replacing_policy p" using known_policy_fair [OF assms(4), of metric] full(3) fair_policy.axioms(1) by auto
  have "store_ok cf (st3\<lparr>er_free := True\<rparr>)"
    by (rule replacing_policy.keeps_ok [OF fair p(1)]) (use assms(1,2) full(1) in \<open>auto simp: store_ok_def\<close>)
  then show ?thesis using p(2) by (simp add: sem_post_def)
next
  case unknown
  then show ?thesis using assms(4) by (auto simp: drop_policy_def)
qed

text \<open>The policies that are modelled return.\<close>

lemma pick_returns: "\<forall>e \<in> set es. entry_ok cf e \<Longrightarrow> \<exists>i. pick better cf es k best c = Some i"
  by (induction es arbitrary: k best c) (auto dest!: entry_known)

lemma first_foreign_returns: "\<forall>e \<in> set es. entry_ok cf e \<Longrightarrow> \<exists>i. first_foreign cf es = Some i"
  by (induction es) (auto dest!: entry_known)

lemma search_in_store:
  assumes "er_store st \<noteq> []"
  shows "get_youngest cf st = Some i \<Longrightarrow> i < length (er_store st)" "get_oldest cf st = Some i \<Longrightarrow> i < length (er_store st)"
  using pick_Some [of "(<)" cf "er_store st" 0 99999 0 i] pick_Some [of "(>)" cf "er_store st" 0 0 0 i] assms
  by (auto simp: get_youngest_def get_oldest_def)

lemma tail_pos_returns:
  assumes "store_ok cf st" "k < lp" "lp \<le> length (er_store st)" "strange cf (se_bundle (er_store st ! k))"
  shows "\<exists>n. tail_pos cf st lp = Some n"
  using assms(2,3)
proof (induction lp)
  case (Suc lp)
  have p: "pointer_to st (Suc lp) = Some (er_store st ! lp)"
    using Suc.prems assms(1) by (simp add: pointer_to_def store_ok_def)
  have ok: "entry_ok cf (er_store st ! lp)" using assms(1) Suc.prems by (simp add: store_ok_def)
  show ?case
  proof (cases "strange cf (se_bundle (er_store st ! lp))")
    case True
    then show ?thesis using p by (subst tail_pos.simps) simp
  next
    case False
    then have "own cf (se_bundle (er_store st ! lp))" "k < lp"
      using entry_known [OF ok] Suc.prems assms(4) by (auto simp: less_Suc_eq)
    then show ?thesis using Suc p by (subst tail_pos.simps) simp
  qed
qed simp

lemma tail_pos_free: "tail_pos cf (st\<lparr>er_free := x\<rparr>) lp = tail_pos cf st lp"
proof (induction lp)
  case 0
  show ?case by (simp add: tail_pos.simps [of cf _ 0] pointer_to_def)
next
  case (Suc lp)
  show ?case by (simp add: tail_pos.simps [of cf _ "Suc lp"] Suc pointer_to_def cong: if_cong)
qed

lemma tail_pos_stops:
  assumes "\<forall>e \<in> set (er_store st). own cf (se_bundle e)"
  shows "tail_pos cf st lp = None"
proof (induction lp)
  case 0
  show ?case by (subst tail_pos.simps) (simp add: pointer_to_def)
next
  case (Suc lp)
  have "pointer_to st (Suc lp) = Some e \<Longrightarrow> own cf (se_bundle e)" for e
    using assms by (auto simp: pointer_to_def split: if_splits)
  then show ?case using Suc by (subst tail_pos.simps) (auto split: option.splits)
qed

text \<open>Drop tail has to find a bundle of another node when the new one is the node's own.\<close>

definition tail_ok :: "er_conf \<Rightarrow> epidemic \<Rightarrow> bdl \<Rightarrow> bool" where
  "tail_ok cf st b \<longleftrightarrow> cf_drop_policy cf = 1 \<and> own cf b \<longrightarrow> (\<exists>e \<in> set (er_store st). strange cf (se_bundle e))"

lemma policy_returns:
  assumes ok: "store_ok cf (st\<lparr>er_free := True\<rparr>)" and uid: "bundle_uid cf b = Some uid" and known: "known_policy cf"
    and ne: "er_store st \<noteq> []" and tl: "tail_ok cf st b" and p: "drop_policy metric (cf_drop_policy cf) = Some p"
  shows "\<exists>st' v. p cf r now st b = Some (st', v)"
proof -
  have e: "\<forall>e \<in> set (er_store st). entry_ok cf e" using ok by (simp add: store_ok_def)
  obtain y q where s: "get_youngest cf st = Some y" "get_oldest cf st = Some q"
    using pick_returns [OF e] unfolding get_youngest_def get_oldest_def by metis
  then have len: "y < length (er_store st)" "q < length (er_store st)" using search_in_store [OF ne] by blast+
  obtain mine where mine: "is_my_message cf b = Some mine" using uid_known [OF uid] by auto
  consider "cf_drop_policy cf = 1" | "cf_drop_policy cf = 2" | "cf_drop_policy cf = 3 \<or> cf_drop_policy cf = 4 \<or> cf_drop_policy cf = 9"
    using known by auto
  then show ?thesis
  proof cases
    case 1
    then have p: "p = add_with_drop_tail" using p by (simp add: drop_policy_def)
    show ?thesis
    proof (cases mine)
      case True
      then obtain k where k: "k < length (er_store st)" "strange cf (se_bundle (er_store st ! k))"
        using tl 1 mine by (auto simp: tail_ok_def in_set_conv_nth)
      obtain n where n: "tail_pos cf st (nat (er_count st)) = Some n"
        using tail_pos_returns [OF ok, of k "length (er_store st)"] k ok by (auto simp: store_ok_def tail_pos_free)
      obtain x where "pointer_to st n = Some x" "n \<noteq> 0" using tail_pos_Some [OF n] by blast
      then show ?thesis using p mine True n uid by (simp add: add_with_drop_tail_def push_new_def)
    qed (use p mine in \<open>simp add: add_with_drop_tail_def\<close>)
  next
    case 2
    obtain i where i: "first_foreign cf (er_store st) = Some i" using first_foreign_returns [OF e] by blast
    have "i < length (er_store st) \<Longrightarrow> \<exists>u. bundle_uid cf (se_bundle (er_store st ! i)) = Some u"
      using e by (auto simp: entry_ok_def)
    then show ?thesis using 2 p i ne uid
      by (auto simp: drop_policy_def add_with_drop_from_front_def deref_at_def push_new_def)
  next
    case 3
    then show ?thesis using p s len mine uid
      by (auto simp: drop_policy_def add_with_drop_youngest_def add_with_drop_oldest_def add_with_bin_drop_oldest_def
          deref_at_def replace_at_def push_new_def)
  qed
qed

lemma add_bundle_returns:
  assumes "store_ok cf st" "bundle_uid cf b = Some uid" "p_u_id (b_prim b) \<noteq> -1" "known_policy cf"
    "0 < cf_max_bundles cf" "tail_ok cf st b"
  shows "\<exists>st' v. add_bundle metric cf r now st b = Some (st', v)"
proof (cases rule: add_bundle_cases [OF assms(1-3), of metric r now, case_names known room full unknown])
  case (full p)
  let ?st = "full_state cf now st b"
  have "store_ok cf (?st\<lparr>er_free := True\<rparr>)" "er_store ?st \<noteq> []" "tail_ok cf ?st b"
    using assms(1,5,6) full(2) by (auto simp: store_ok_def tail_ok_def)
  then obtain st' v where "p cf r now ?st b = Some (st', v)"
    using policy_returns [OF _ assms(2,4) _ _ full(3), of ?st r now] by blast
  then show ?thesis using full(4) by simp
next
  case unknown
  then show ?thesis by blast
qed blast+

section \<open>Cleaning\<close>

text \<open>The bundle of an entry expires when its elapsed time reaches its expiration time.\<close>

definition expired :: "store_entry \<Rightarrow> bool" where
  "expired e \<longleftrightarrow> p_exp_time (b_prim (se_bundle e)) \<le> elapsed e"

lemma clean_loop_filter:
  "clean_loop now es = (filter (\<lambda>e. \<not> expired e) (map (update_elapsed now) es),
     int (length (filter expired (map (update_elapsed now) es))))"
  by (induction es) (simp_all add: expired_def Let_def)

lemma length_filter_split: "length (filter P es) + length (filter (\<lambda>e. \<not> P e) es) = length es"
  by (induction es) simp_all

lemma se_id_update [simp]: "se_id (update_elapsed now e) = se_id e"
  by (simp add: update_elapsed_def Let_def)

lemma entry_ok_update [simp]: "entry_ok cf (update_elapsed now e) = entry_ok cf e"
  by (simp add: update_elapsed_def Let_def entry_ok_def)

lemma store_ok_sub:
  assumes "store_ok cf st" "map se_id es = map se_id (er_store st)" "\<forall>e \<in> set es. entry_ok cf e"
    "er_count st' = er_count st - int (length (filter P es))" "er_store st' = filter (\<lambda>e. \<not> P e) es" "er_free st'"
  shows "store_ok cf st'"
proof -
  have len: "length es = length (er_store st)" using arg_cong [OF assms(2), of length] by simp
  have "distinct (map se_id es)" using assms(1,2) by (simp add: store_ok_def)
  then have "distinct (map se_id (filter (\<lambda>e. \<not> P e) es))" by (rule distinct_map_filter)
  then show ?thesis
    using assms len length_filter_split [of P es] by (auto simp: store_ok_def)
qed

lemma make_clean_exact:
  assumes "store_ok cf st"
  shows "\<exists>st'. make_clean cf now st = Some st' \<and> store_ok cf st'
    \<and> (\<not> cf_infinite_ttl cf \<longrightarrow> er_store st' = filter (\<lambda>e. \<not> expired e) (map (update_elapsed now) (er_store st)))"
proof (cases "cf_infinite_ttl cf \<or> er_count st \<le> 0")
  case True
  then show ?thesis using assms by (auto simp: make_clean_def store_ok_def)
next
  case False
  let ?es = "map (update_elapsed now) (er_store st)"
  let ?st = "st\<lparr>er_free := True, er_store := filter (\<lambda>e. \<not> expired e) ?es, er_count := er_count st - int (length (filter expired ?es)),
               er_update := (if 0 < length (filter expired ?es) then now else er_update st)\<rparr>"
  have "make_clean cf now st = Some ?st"
    using False assms by (simp add: make_clean_def sem_wait_def sem_post_def store_ok_def clean_loop_filter)
  moreover have "store_ok cf ?st"
    by (rule store_ok_sub [OF assms, where es = ?es and P = expired])
      (use assms in \<open>simp_all add: store_ok_def o_def\<close>)
  ultimately show ?thesis by (intro exI [of _ ?st]) simp
qed

lemma delivered_loop_filter:
  "\<forall>e \<in> set es. entry_ok cf e \<Longrightarrow> delivered_loop cf dl es =
     Some (filter (\<lambda>e. \<not> se_id e \<in> set dl) es, int (length (filter (\<lambda>e. se_id e \<in> set dl) es)))"
  by (induction es) (simp_all add: entry_ok_def)

lemma delete_delivered_exact:
  assumes "store_ok cf st"
  shows "\<exists>st'. delete_delivered cf dl now st = Some st' \<and> store_ok cf st'
    \<and> (cf_anti_packet cf \<longrightarrow> er_store st' = filter (\<lambda>e. se_id e \<notin> set dl) (er_store st))"
proof (cases "cf_anti_packet cf \<and> 0 < er_count st")
  case False
  then show ?thesis using assms
    by (auto simp: delete_delivered_def sem_wait_def sem_post_def store_ok_def)
next
  case True
  let ?es = "er_store st" let ?P = "\<lambda>e. se_id e \<in> set dl"
  let ?st = "st\<lparr>er_free := True, er_store := filter (\<lambda>e. \<not> ?P e) ?es, er_count := er_count st - int (length (filter ?P ?es)),
               er_update := (if 0 < length (filter ?P ?es) then now else er_update st)\<rparr>"
  have "delete_delivered cf dl now st = Some ?st"
    using True assms delivered_loop_filter [of ?es cf dl]
    by (simp add: delete_delivered_def sem_wait_def sem_post_def store_ok_def)
  moreover have "store_ok cf ?st"
    by (rule store_ok_sub [OF assms, where es = ?es and P = ?P]) (use assms in \<open>simp_all add: store_ok_def\<close>)
  ultimately show ?thesis by (intro exI [of _ ?st]) simp
qed

section \<open>Runs\<close>

definition new_epidemic :: epidemic where
  "new_epidemic = \<lparr>er_store = [], er_count = 0, er_free = True, er_seen = [], er_received = 0, er_deleted = 0, er_update = 0\<rparr>"

text \<open>The states of a node that receives, cleans and hears of deliveries.  The identifier -1, by which
  \<^const>\<open>exist_id\<close> means a complete identifier, is not given to a bundle.\<close>

inductive er_reach :: "(int \<Rightarrow> policy) \<Rightarrow> er_conf \<Rightarrow> epidemic \<Rightarrow> bool" for metric cf where
  er_start: "er_reach metric cf new_epidemic"
| er_receive: "\<lbrakk>er_reach metric cf st; bundle_uid cf b = Some uid; p_u_id (b_prim b) \<noteq> -1;
    add_bundle metric cf r now st b = Some (st', v)\<rbrakk> \<Longrightarrow> er_reach metric cf st'"
| er_clean: "\<lbrakk>er_reach metric cf st; make_clean cf now st = Some st'\<rbrakk> \<Longrightarrow> er_reach metric cf st'"
| er_delivered: "\<lbrakk>er_reach metric cf st; delete_delivered cf dl now st = Some st'\<rbrakk> \<Longrightarrow> er_reach metric cf st'"

lemma er_reach_ok:
  assumes "known_policy cf" "0 \<le> cf_max_bundles cf" "er_reach metric cf st"
  shows "store_ok cf st"
  using assms(3)
proof (induction rule: er_reach.induct)
  case er_start
  then show ?case using assms(2) by (simp add: new_epidemic_def store_ok_def)
next
  case (er_receive st b uid r now st' v)
  then show ?case using add_bundle_ok assms(1) by blast
next
  case (er_clean st now st')
  then show ?case using make_clean_exact [of cf st now] by auto
next
  case (er_delivered st dl now st')
  then show ?case using delete_delivered_exact [of cf st dl now] by auto
qed

section \<open>Properties\<close>

text \<open>
  \<^bold>\<open>C10\<close> In every state that a node reaches with one of the drop policies 1, 2, 3, 4 or 9, the count is the
  number of stored bundles and at most the maximum, the identifiers are distinct and those of the stored bundles, and
  the semaphore is free; cleaning and the deletion of delivered bundles return, and so does the reception of every
  bundle, except that drop tail needs a bundle of another node in the buffer when the new one is the node's own.
\<close>

theorem buffer_safe:
  assumes "known_policy cf" "0 < cf_max_bundles cf" "er_reach metric cf st"
  shows "store_ok cf st \<and> (\<exists>st'. make_clean cf now st = Some st') \<and> (\<exists>st'. delete_delivered cf dl now st = Some st')
    \<and> (bundle_uid cf b \<noteq> None \<and> p_u_id (b_prim b) \<noteq> -1 \<and> tail_ok cf st b
         \<longrightarrow> (\<exists>st' v. add_bundle metric cf r now st b = Some (st', v)))"
proof -
  have ok: "store_ok cf st" by (rule er_reach_ok [OF assms(1) _ assms(3)]) (use assms(2) in simp)
  then show ?thesis
    using make_clean_exact [OF ok, of now] delete_delivered_exact [OF ok, of dl now] add_bundle_returns [OF ok _ _ assms(1,2)]
    by blast
qed

definition sample_er :: "int \<Rightarrow> er_conf" where
  "sample_er n = \<lparr>cf_endpoint = str ''R,n:0'', cf_max_bundles = 1, cf_drop_policy = n, cf_drop_bin = 10, cf_max_spray = 100,
     cf_max_uid = 5, cf_infinite_ttl = False, cf_anti_packet = True\<rparr>"

text \<open>A bundle of the node named \<open>x\<close>, with an elapsed time.\<close>

definition er_bundle :: "string \<Rightarrow> c_int \<Rightarrow> real \<Rightarrow> bdl" where
  "er_bundle x u t = sample_bdl\<lparr>b_prim := sample_prim\<lparr>p_src := 0x01, p_u_id := u, p_elapsed_time := t, p_exp_time := 100\<rparr>,
     b_dict := Some \<lparr>d_next_hdr = BDL_PYLD, d_strcount = 2,
       d_record = [\<lparr>sr_len = 1, sr_text = str ''R''\<rparr>, \<lparr>sr_len = of_nat (length x), sr_text = str x\<rparr>]\<rparr>\<rparr>"

lemma er_bundle_eid: "length x < 256 \<Longrightarrow> 0 \<notin> set (str x) \<Longrightarrow> bdl_eid (er_bundle x u t) = Some (str (''R,'' @ x))"
  by (simp add: bdl_eid_def er_bundle_def get_records_def get_record_def c_strncpy_def str_def comma_def unat_of_nat)

text \<open>The own bundle \<open>n\<close> and the bundle \<open>m\<close> of another node.\<close>

lemma er_bundle_uid:
  "bundle_uid (sample_er k) (er_bundle ''n:0'' 1 t) = Some (str ''R,n:0r1'')"
  "bundle_uid (sample_er k) (er_bundle ''m:0'' 1 t) = Some (str ''R,m:0r1'')"
  "own (sample_er k) (er_bundle ''n:0'' 1 t)" "strange (sample_er k) (er_bundle ''m:0'' 1 t)"
  by (simp_all add: bundle_uid_def er_bundle_eid is_my_message_def)
    (simp_all add: sample_er_def er_bundle_def uid_suffix_def dec_int_def dec_nat.simps [of "Suc 0"])

lemma er_bundle_fields [simp]: "p_u_id (b_prim (er_bundle x u t)) = u" "b_elapsed (er_bundle x u t) = t"
  by (simp_all add: er_bundle_def)

definition one_stored :: "bdl \<Rightarrow> bytes \<Rightarrow> epidemic" where
  "one_stored b uid = \<lparr>er_store = [new_entry (sample_er 3) 0 uid b], er_count = 1, er_free = True, er_seen = [uid],
     er_received = 1, er_deleted = 0, er_update = 0\<rparr>"

theorem buffer_safe_witness:
  "store_ok (sample_er 3) new_epidemic \<and> (\<exists>st'. make_clean (sample_er 3) 1 new_epidemic = Some st')
    \<and> (\<exists>st'. delete_delivered (sample_er 3) [] 1 new_epidemic = Some st')
    \<and> (\<exists>st' v. add_bundle (\<lambda>_ _ _ _ _ _. None) (sample_er 3) 0 1 new_epidemic (er_bundle ''m:0'' 1 5) = Some (st', v))"
proof -
  have "tail_ok (sample_er 3) new_epidemic (er_bundle ''m:0'' 1 5)" by (simp add: tail_ok_def sample_er_def)
  then show ?thesis
    using buffer_safe [of "sample_er 3" "\<lambda>_ _ _ _ _ _. None" new_epidemic 1 "[]" "er_bundle ''m:0'' 1 5" 0]
      er_start er_bundle_uid(2) [of 3 5] by (simp add: sample_er_def)
qed

text \<open>
  \<^bold>\<open>C11\<close> The priority of the source: as long as the buffer holds a bundle of another node whose elapsed time is
  positive and below 99999, no reception drops a bundle of the node itself, and a new bundle of the node itself is always
  stored.
\<close>

theorem source_priority:
  assumes "known_policy cf" "0 \<le> cf_max_bundles cf" "er_reach metric cf st"
    "bundle_uid cf b = Some uid" "p_u_id (b_prim b) \<noteq> -1" "add_bundle metric cf r now st b = Some (st', v)"
    "f \<in> set (er_store st)" "strange cf (se_bundle f)" "0 < elapsed f" "elapsed f < 99999"
  shows "(\<forall>e \<in> set (er_store st). own cf (se_bundle e) \<longrightarrow> e \<in> set (er_store st'))
    \<and> (own cf b \<longrightarrow> uid \<in> se_id ` set (er_store st'))"
proof -
  have ok: "store_ok cf st" by (rule er_reach_ok [OF assms(1-3)])
  show ?thesis
  proof (cases rule: add_bundle_cases [OF ok assms(4,5), of metric r now, case_names known room full unknown])
    case known
    then show ?thesis using assms(6,7) by auto
  next
    case (room b')
    then show ?thesis using assms(6) by (auto simp: new_entry_def)
  next
    case (full p)
    have fair: "fair_policy p" using known_policy_fair [OF assms(1), of metric] full(3) by auto
    have "Option.bind (p cf r now (full_state cf now st b) b) (\<lambda>(st', v). Some (sem_post st', v)) = Some (st', v)"
      using assms(6) full(4) by simp
    then obtain st3 where p: "p cf r now (full_state cf now st b) b = Some (st3, v)" "st' = sem_post st3"
      by (auto simp: bind_eq_Some_conv)
    have st: "er_store st' = er_store st3" using p(2) by (simp add: sem_post_def)
    have "e \<in> set (er_store st3)" if "e \<in> set (er_store st)" "own cf (se_bundle e)" for e
      by (rule fair_policy.keeps_own [OF fair p(1), of f])
        (use that ok assms(7-10) in \<open>simp_all add: store_ok_def\<close>)
    moreover have "uid \<in> se_id ` set (er_store st3)" if "own cf b"
      using fair_policy.takes_own [OF fair p(1) that] assms(4) by (force simp: new_entry_def)
    ultimately show ?thesis using st by simp
  next
    case unknown
    then show ?thesis using assms(1) by (auto simp: drop_policy_def)
  qed
qed

lemma one_stored_reached:
  assumes "bundle_uid (sample_er k) b = Some uid" "strange (sample_er k) b \<or> own (sample_er k) b" "p_u_id (b_prim b) \<noteq> -1"
  shows "\<exists>st. er_reach metric (sample_er k) st \<and> er_count st = 1 \<and>
    (\<exists>b'. er_store st = [new_entry (sample_er k) 0 uid b'] \<and> b_elapsed b' = b_elapsed b \<and> is_my_message (sample_er k) b' = is_my_message (sample_er k) b)"
proof -
  have ok: "store_ok (sample_er k) new_epidemic" by (simp add: store_ok_def new_epidemic_def sample_er_def)
  obtain eid where eid: "bdl_eid b = Some eid" using bundle_uid_parts [OF assms(1)] by blast
  let ?b = "b\<lparr>b_prim := (b_prim b)\<lparr>p_hopcount := p_hopcount (b_prim b) + 1\<rparr>\<rparr>"
  have same: "is_my_message cf ?b = is_my_message cf b" for cf by (simp add: is_my_message_def bdl_eid_def)
  obtain mine where mine: "is_my_message (sample_er k) b = Some mine" using assms(2) by auto
  let ?st = "new_epidemic\<lparr>er_seen := add_seen uid [], er_received := (if mine then 0 else 1),
    er_store := [new_entry (sample_er k) 0 uid (if mine then b else ?b)], er_count := 1\<rparr>"
  have "add_bundle metric (sample_er k) 0 0 new_epidemic b = Some (?st, 1)"
    using eid assms(1) mine exist_id_uid [OF eid assms(1,3)]
    by (simp add: add_bundle_def Let_def sem_wait_def sem_post_def free_place_def new_epidemic_def sample_er_def)
  then have "er_reach metric (sample_er k) ?st" by (rule er_receive [OF er_start assms(1,3)])
  then show ?thesis using same by (intro exI [of _ ?st]) (auto simp: new_entry_def)
qed

theorem source_priority_witness:
  "\<exists>st st' v. er_reach (\<lambda>_ _ _ _ _ _. None) (sample_er 3) st
    \<and> add_bundle (\<lambda>_ _ _ _ _ _. None) (sample_er 3) 0 1 st (er_bundle ''n:0'' 1 2) = Some (st', v)
    \<and> str ''R,n:0r1'' \<in> se_id ` set (er_store st')"
proof -
  let ?m = "\<lambda>_ _ _ _ _ _. None" and ?cf = "sample_er 3" and ?b = "er_bundle ''n:0'' 1 2"
  obtain st b' where st: "er_reach ?m ?cf st" "er_count st = 1" "er_store st = [new_entry ?cf 0 (str ''R,m:0r1'') b']"
    "b_elapsed b' = 5" "strange ?cf b'"
    using one_stored_reached [OF er_bundle_uid(2) [of 3 5], of ?m] er_bundle_uid(4) [of 3 5] by auto
  have cf: "known_policy ?cf" "0 < cf_max_bundles ?cf" "0 \<le> cf_max_bundles ?cf" by (simp_all add: sample_er_def)
  have f: "new_entry ?cf 0 (str ''R,m:0r1'') b' \<in> set (er_store st)" "strange ?cf (se_bundle (new_entry ?cf 0 (str ''R,m:0r1'') b'))"
    "0 < elapsed (new_entry ?cf 0 (str ''R,m:0r1'') b')" "elapsed (new_entry ?cf 0 (str ''R,m:0r1'') b') < 99999"
    using st by (simp_all add: new_entry_def)
  have "tail_ok ?cf st ?b" by (simp add: tail_ok_def sample_er_def)
  then obtain st' v where a: "add_bundle ?m ?cf 0 1 st ?b = Some (st', v)"
    using add_bundle_returns [OF er_reach_ok [OF cf(1,3) st(1)] er_bundle_uid(1) _ cf(1,2), of 2 ?m 0 1] by auto
  show ?thesis using source_priority [OF cf(1,3) st(1) er_bundle_uid(1) _ a f] st(1) er_bundle_uid(3) [of 3 2] a by auto
qed

text \<open>
  \<^bold>\<open>C28\<close> The priority does not hold when all stored bundles are the node's own: with drop youngest a bundle of
  another node that is older than the first of them, and with drop oldest one that is younger, replaces it; drop tail
  then stops on a null pointer when the new bundle is the node's own, too.
\<close>

theorem own_bundles_lost:
  assumes "store_ok cf st" "er_count st = cf_max_bundles cf" "er_store st = e # es" "\<forall>e \<in> set (er_store st). own cf (se_bundle e)"
    "bundle_uid cf b = Some uid" "uid \<notin> se_id ` set (er_store st)" "p_u_id (b_prim b) \<noteq> -1"
  shows "(cf_drop_policy cf = 3 \<and> elapsed e < b_elapsed b \<or> cf_drop_policy cf = 4 \<and> b_elapsed b < elapsed e \<longrightarrow>
      (\<exists>st'. add_bundle metric cf r now st b = Some (st', 1) \<and> er_store st' = es @ [new_entry cf now uid b]))
    \<and> (cf_drop_policy cf = 1 \<and> own cf b \<longrightarrow> add_bundle metric cf r now st b = None)"
proof (cases rule: add_bundle_cases [OF assms(1,5,7), of metric r now, case_names known room full unknown])
  case (full p)
  let ?st = "full_state cf now st b"
  have pick: "pick better cf (er_store st) 0 best 0 = Some 0" for better best
  proof -
    have "pick better cf xs k best 0 = Some 0" if "\<forall>e \<in> set xs. own cf (se_bundle e)" for xs k
      using that by (induction xs arbitrary: k) auto
    then show ?thesis using assms(4) by blast
  qed
  have search: "get_youngest cf ?st = Some 0" "get_oldest cf ?st = Some 0"
    by (simp add: get_youngest_def pick, simp add: get_oldest_def pick)
  have e: "deref_at (er_store ?st) 0 \<bind> f = f e" for f :: "store_entry \<Rightarrow> (epidemic \<times> int) exec"
    by (simp add: deref_at_def assms(3))
  obtain st' where rep: "replace_at cf now ?st 0 b = Some (st', 1)" "er_store st' = es @ [new_entry cf now uid b]"
    using assms(3,5) by (simp add: replace_at_def push_new_def erase_at_def)
  have y: "add_with_drop_youngest cf r now ?st b = Some (st', 1)" if "elapsed e < b_elapsed b"
    unfolding add_with_drop_youngest_def search bind.bind_lunit e using that rep(1) by simp
  have q: "add_with_drop_oldest cf r now ?st b = Some (st', 1)" if "b_elapsed b < elapsed e"
    unfolding add_with_drop_oldest_def search bind.bind_lunit e using that rep(1) by simp
  have "tail_pos cf ?st lp = None" for lp by (rule tail_pos_stops) (use assms(4) in simp)
  then have t: "add_with_drop_tail cf r now ?st b = None" if "own cf b" using that by (simp add: add_with_drop_tail_def)
  show ?thesis
  proof (intro conjI impI)
    assume c: "cf_drop_policy cf = 3 \<and> elapsed e < b_elapsed b \<or> cf_drop_policy cf = 4 \<and> b_elapsed b < elapsed e"
    then have "p cf r now ?st b = Some (st', 1)" using full(3) y q by (auto simp: drop_policy_def)
    then show "\<exists>st'. add_bundle metric cf r now st b = Some (st', 1) \<and> er_store st' = es @ [new_entry cf now uid b]"
      unfolding full(4) using rep(2) by (simp add: sem_post_def)
  next
    assume "cf_drop_policy cf = 1 \<and> own cf b"
    then have "p cf r now ?st b = None" using full(3) t by (auto simp: drop_policy_def)
    then show "add_bundle metric cf r now st b = None" unfolding full(4) by simp
  qed
next
  case unknown
  then show ?thesis by (auto simp: drop_policy_def)
qed (use assms(2,6) in simp_all)

lemma one_stored_ok: "store_ok (sample_er k) (one_stored (er_bundle ''n:0'' 1 t) (str ''R,n:0r1''))"
  by (simp add: store_ok_def one_stored_def new_entry_def entry_ok_def er_bundle_uid [of k t, simplified])
    (simp add: sample_er_def)

theorem own_bundles_lost_witness:
  "\<exists>st'. add_bundle (\<lambda>_ _ _ _ _ _. None) (sample_er 3) 0 1 (one_stored (er_bundle ''n:0'' 1 2) (str ''R,n:0r1'')) (er_bundle ''m:0'' 1 5)
      = Some (st', 1)
    \<and> er_store st' = [new_entry (sample_er 3) 1 (str ''R,m:0r1'') (er_bundle ''m:0'' 1 5)]"
proof -
  let ?e = "new_entry (sample_er 3) 0 (str ''R,n:0r1'') (er_bundle ''n:0'' 1 2)"
  have a: "er_count (one_stored (er_bundle ''n:0'' 1 2) (str ''R,n:0r1'')) = cf_max_bundles (sample_er 3)"
    "str ''R,m:0r1'' \<notin> se_id ` set (er_store (one_stored (er_bundle ''n:0'' 1 2) (str ''R,n:0r1'')))"
    "p_u_id (b_prim (er_bundle ''m:0'' 1 5)) \<noteq> -1" "cf_drop_policy (sample_er 3) = 3"
    "elapsed ?e < b_elapsed (er_bundle ''m:0'' 1 5)"
    "er_store (one_stored (er_bundle ''n:0'' 1 2) (str ''R,n:0r1'')) = ?e # []"
    by (simp_all add: one_stored_def sample_er_def new_entry_def)
  then have "\<forall>e \<in> set (er_store (one_stored (er_bundle ''n:0'' 1 2) (str ''R,n:0r1''))). own (sample_er 3) (se_bundle e)"
    using er_bundle_uid(3) [of 3 2] by (simp add: new_entry_def)
  from own_bundles_lost [OF one_stored_ok a(1,6) this er_bundle_uid(2) a(2,3), of "\<lambda>_ _ _ _ _ _. None" 0 1] a(4,5)
  show ?thesis by simp
qed

text \<open>
  \<^bold>\<open>C29\<close> A drop policy that is not known locks the node: the bundle is refused, and from then on no reception of a
  new bundle and no cleaning of the buffer returns.
\<close>

theorem unknown_policy_locks:
  assumes "store_ok cf st" "er_count st = cf_max_bundles cf" "cf_drop_policy cf \<notin> {1..9}"
    "bundle_uid cf b = Some uid" "uid \<notin> se_id ` set (er_store st)" "p_u_id (b_prim b) \<noteq> -1"
  shows "\<exists>st'. add_bundle metric cf r now st b = Some (st', 0)
    \<and> (\<forall>c s r now. bundle_uid cf c = Some s \<and> p_u_id (b_prim c) \<noteq> -1 \<and> s \<notin> se_id ` set (er_store st')
         \<longrightarrow> add_bundle metric cf r now st' c = None)
    \<and> (\<forall>now. \<not> cf_infinite_ttl cf \<and> 0 < er_count st' \<longrightarrow> make_clean cf now st' = None)"
proof (cases rule: add_bundle_cases [OF assms(1,4,6), of metric r now, case_names known room full unknown])
  case unknown
  let ?st = "full_state cf now st b"
  have "add_bundle metric cf r now ?st c = None"
    if c: "bundle_uid cf c = Some s" "p_u_id (b_prim c) \<noteq> -1" "s \<notin> se_id ` set (er_store ?st)" for c s r now
  proof -
    obtain eid where eid: "bdl_eid c = Some eid" using bundle_uid_parts [OF c(1)] by blast
    obtain mine where mine: "is_my_message cf c = Some mine" using uid_known [OF c(1)] by auto
    have "find_id s (er_store ?st) = None" using find_id_new [OF assms(1) c(1)] c(3) by simp
    then show ?thesis using eid mine c(1) exist_id_uid [OF eid c(1,2)] by (simp add: add_bundle_def Let_def sem_wait_def)
  qed
  moreover have "make_clean cf now ?st = None" if "\<not> cf_infinite_ttl cf" "0 < er_count ?st" for now
    using that by (simp add: make_clean_def sem_wait_def)
  ultimately show ?thesis using unknown(4) by (intro exI [of _ ?st]) blast
qed (use assms(2,3,5) in \<open>auto simp: drop_policy_def\<close>)

theorem unknown_policy_locks_witness:
  "\<exists>st'. add_bundle (\<lambda>_ _ _ _ _ _. None) (sample_er 0) 0 1 (one_stored (er_bundle ''n:0'' 1 2) (str ''R,n:0r1'')) (er_bundle ''m:0'' 1 5)
      = Some (st', 0)
    \<and> (\<forall>now. \<not> cf_infinite_ttl (sample_er 0) \<and> 0 < er_count st' \<longrightarrow> make_clean (sample_er 0) now st' = None)"
proof -
  have a: "er_count (one_stored (er_bundle ''n:0'' 1 2) (str ''R,n:0r1'')) = cf_max_bundles (sample_er 0)"
    "cf_drop_policy (sample_er 0) \<notin> {1..9}"
    "str ''R,m:0r1'' \<notin> se_id ` set (er_store (one_stored (er_bundle ''n:0'' 1 2) (str ''R,n:0r1'')))"
    "p_u_id (b_prim (er_bundle ''m:0'' 1 5)) \<noteq> -1"
    by (simp_all add: one_stored_def sample_er_def new_entry_def)
  show ?thesis
    using unknown_policy_locks [OF one_stored_ok a(1,2) er_bundle_uid(2) a(3,4)] by blast
qed

text \<open>
  \<^bold>\<open>C25\<close> Cleaning keeps exactly the bundles that have not expired, in their order and with their elapsed time brought up
  to date, and anti-packets delete exactly the bundles that were delivered; both keep the buffer well formed.
\<close>

theorem cleaning_exact:
  assumes "known_policy cf" "0 \<le> cf_max_bundles cf" "er_reach metric cf st" "\<not> cf_infinite_ttl cf" "cf_anti_packet cf"
  shows "\<exists>st1 st2. make_clean cf now st = Some st1 \<and> store_ok cf st1
    \<and> er_store st1 = filter (\<lambda>e. \<not> expired e) (map (update_elapsed now) (er_store st))
    \<and> delete_delivered cf dl now st1 = Some st2 \<and> store_ok cf st2
    \<and> er_store st2 = filter (\<lambda>e. se_id e \<notin> set dl) (er_store st1)"
proof -
  obtain st1 where st1: "make_clean cf now st = Some st1" "store_ok cf st1"
    "er_store st1 = filter (\<lambda>e. \<not> expired e) (map (update_elapsed now) (er_store st))"
    using make_clean_exact [OF er_reach_ok [OF assms(1-3)]] assms(4) by blast
  then show ?thesis using delete_delivered_exact [OF st1(2)] assms(5) by blast
qed

theorem cleaning_exact_witness:
  "\<exists>st1 st2. make_clean (sample_er 4) 7 new_epidemic = Some st1 \<and> er_store st1 = []
    \<and> delete_delivered (sample_er 4) [str ''R,m:0r1''] 7 st1 = Some st2"
  using cleaning_exact [of "sample_er 4" "\<lambda>_ _ _ _ _ _. None" new_epidemic 7 "[str ''R,m:0r1'']", OF _ _ er_start]
  by (auto simp: sample_er_def new_epidemic_def)

end
