(* ===== verification/Spec2Isabelle.thy ===== *)
theory Spec2Isabelle
  imports Tcp_Scalable Tcp_Bic Tcp_Cubic Tcp_Highspeed Tcp_Vegas Tcp_Veno Tcp_Yeah Tcp_Htcp Tcp_Hybla
    Tcp_Westwood Tcp_Illinois Tcp_Lp Tcp_Compound Cong_List Cc_Params Scoreboard1 Agent_Run Timer_Handler
    Module_Runs Dtn_Tables Dtn_Buffer
begin

text \<open>
  TCP-Linux, the event schedulers and the bundle layer of the delay tolerant networking agent of ns-2.34, the repository's
  network simulator.

  \<^bold>\<open>The program.\<close> \<^verbatim>\<open>src/ns-2.34/tcp/linux\<close> compiles the congestion control modules of Linux 2.6.22 into the
  simulator. \<^verbatim>\<open>ns-linux-util.h\<close> and \<^verbatim>\<open>ns-linux-c.h\<close> replace the kernel headers: one struct \<^verbatim>\<open>tcp_sock\<close>
  holds the state of a connection, a table \<^verbatim>\<open>tcp_congestion_ops\<close> the callbacks of a module, and two
  clocks are set before a module is called. Each module registers itself from a constructor
  (\<^verbatim>\<open>tcp_cong.c\<close>) and declares its parameters in a table (\<^verbatim>\<open>ns-linux-c.c\<close>). The C++ agent
  \<^verbatim>\<open>LinuxTcpAgent\<close> (\<^verbatim>\<open>tcp-linux.cc\<close>) receives acknowledgments and timeouts, keeps the SACK scoreboard and
  calls the module: \<^verbatim>\<open>pkts_acked\<close> and \<^verbatim>\<open>cwnd_event\<close> for every acknowledgment, \<^verbatim>\<open>cong_avoid\<close> to open the
  window, \<^verbatim>\<open>ssthresh\<close> and \<^verbatim>\<open>min_cwnd\<close> after a loss, \<^verbatim>\<open>set_state\<close> around a change of state.

  Below the agents is the simulator itself, \<^verbatim>\<open>src/ns-2.34/common\<close>: \<^verbatim>\<open>Scheduler\<close> (\<^verbatim>\<open>scheduler.cc\<close>) numbers the events, gives
  them to an event queue and dispatches them in the order of their times; the queue is a list, a heap, a calendar queue (the
  default) or a splay tree (\<^verbatim>\<open>splay-scheduler.cc\<close>). \<^verbatim>\<open>TimerHandler\<close> (\<^verbatim>\<open>timer-handler.cc\<close>) makes timers of them, which agents such as
  \<^verbatim>\<open>LinuxTcpAgent\<close> set for their retransmission timeouts.

  The repository's own addition is \<^verbatim>\<open>src/ns-2.34/dtn\<close>, an agent for delay tolerant networking. Its unit of data is the bundle
  (\<^verbatim>\<open>bundle.cc\<close>): a primary header, a dictionary of string records (\<^verbatim>\<open>strrecords.cc\<close>) in which the endpoints are stored, and a chain
  of further headers (\<^verbatim>\<open>headers.h\<close>) that ends with the payload. Bundles are written into packets and read back, split into fragments and
  reassembled, and reported on (\<^verbatim>\<open>bundlemanager.cc\<close>). A node keeps its registrations (\<^verbatim>\<open>registration.cc\<close>), routes (\<^verbatim>\<open>routes.cc\<close>), the
  neighbours in range (\<^verbatim>\<open>neighbors.cc\<close>) and, for the epidemic routing, a bounded buffer of bundles (\<^verbatim>\<open>epidemic-routing.cc\<close>) with its drop policies.

  \<^bold>\<open>The theories.\<close>
  \<^item> \<open>Linux_Prelude\<close>: machine integers at the widths of the 32-bit build, the C operations that can stop
    an execution, and the lemmas on words that all theories share.
  \<^item> \<open>NS_Linux_C\<close>: the helper routines of \<^verbatim>\<open>ns-linux-c.c\<close> (\<open>fls\<close>, \<open>fls64\<close>, \<open>div64_64\<close>, \<open>do_div\<close>, the
    ktime functions), with their exact results.
  \<^item> \<open>Linux_Sock\<close>: the structs of \<^verbatim>\<open>ns-linux-util.h\<close> as records. The private area of a module is a type
    parameter of the socket; a null callback is \<^const>\<open>None\<close>.
  \<^item> \<open>Cong_Control\<close>: how \<^verbatim>\<open>LinuxTcpAgent\<close> calls a module, the runs it can drive a module through
    (\<open>cc_reach\<close>, an inductive relation) and the contract between the two, the locale \<open>cong_control\<close>. In
    the locale it is proved once that in every run every call returns and that the window stays
    positive and the threshold at least two.
  \<^item> \<open>Tcp_Reno\<close>, \<open>Tcp_Scalable\<close> (with the tutorial module), \<open>Tcp_Bic\<close>, \<open>Tcp_Cubic\<close>, \<open>Tcp_Highspeed\<close>,
    \<open>Tcp_Vegas\<close>, \<open>Tcp_Veno\<close>, \<open>Tcp_Yeah\<close>, \<open>Tcp_Htcp\<close>, \<open>Tcp_Hybla\<close>, \<open>Tcp_Westwood\<close>, \<open>Tcp_Illinois\<close>,
    \<open>Tcp_Lp\<close>, \<open>Tcp_Compound\<close>: one theory per module of \<^verbatim>\<open>linux/src\<close>, each callback translated whole. Every
    module that meets the contract interprets the locale on its own table; YeAH, Compound and the
    tutorial module do not meet it (they may exceed the clamp, and the threshold of YeAH wraps) and
    are described by lemmas of their own.
  \<^item> \<open>Cong_List\<close>: the intrusive doubly linked list of modules with explicit pointers, the interface
    \<open>intrusive_list\<close> it implements, and the registry functions of \<^verbatim>\<open>tcp_cong.c\<close> on top.
  \<^item> \<open>Cc_Params\<close>: the table of module parameters as a map, interface \<open>param_table\<close>.
  \<^item> \<open>Scoreboard1\<close>: the SACK scoreboard of \<^verbatim>\<open>scoreboard1.cc\<close>, a list of blocks of segments with their flags, and its
    abstract view as a function from segments to states.
  \<^item> \<open>Linux_Agent\<close>: \<^verbatim>\<open>LinuxTcpAgent\<close> itself: \<open>recv\<close>, the reaction to loss, \<open>send_much\<close>, timeouts, round-trip times, installing and
    removing a module. The module is a record of callbacks, the contract between the two the locale \<open>agent_module\<close>. \<open>Agent_Run\<close>: the runs of the
    agent (data, acknowledgements, timeouts, also before the first acknowledgement) and the five modules that meet the contract without a condition
    on windows and times: Reno, Scalable, Vegas, Westwood and TCP-LP.
  \<^item> \<open>Event_Queue\<close>: events, the sorted agenda as the specification of an event queue, and the interface of the queues, the
    locale \<open>event_queue\<close>. \<open>Sim_Scheduler\<close>: \<open>schedule\<close>, \<open>dispatch\<close> and \<open>run\<close> on any queue; the client lemmas are proved once in the locale.
  \<^item> \<open>List_Scheduler\<close>, \<open>Heap_Scheduler\<close>, \<open>Splay_Scheduler\<close>, \<open>Calendar_Scheduler\<close>: the four queues, each an interpretation of the
    locale. The list has explicit pointers, the heap an array with checked accesses, the splay tree its rotations, the
    calendar its buckets, the year scan of \<open>head\<close> and the resizing. \<open>Scheduler_Run\<close>: their common properties.
    What a queue holds is stated as what \<open>deque\<close> drains from it (\<open>drain\<close>).
  \<^item> \<open>Timer_Handler\<close>: the timers on a scheduler.
  \<^item> \<open>Module_Runs\<close>: the twelve modules of the contract in one statement.
  \<^item> \<open>Str_Records\<close>: C strings and the string records with their interning of endpoints, interface \<open>interning\<close>.
  \<^item> \<open>Dtn_Bundle\<close>: the headers, their cloning, \<open>getDataSize\<close>, \<open>extractData\<close> and \<open>retrieveData\<close>, with the 32-bit arithmetic of their length checks.
    The chain of headers is a list whose elements the code casts by the type byte of the header before.
  \<^item> \<open>Dtn_Fragment\<close>: \<open>fragment\<close> and \<open>defragment\<close> with its list of waiting fragments.
  \<^item> \<open>Dtn_Report\<close>: \<open>generateReport\<close>, the payload of reports in both directions, \<open>buildReport\<close> and the delivery options.
  \<^item> \<open>Dtn_Tables\<close>: registrations, routes and neighbours. The token counter of the registrations is static in the code: additions at other nodes
    are steps of the runs. The check of the neighbours increments an iterator whose element it has erased; what this undefined
    increment gives is an argument of the model.
  \<^item> \<open>Dtn_Buffer\<close>: the buffer of the epidemic routing with its semaphore: \<open>add_bundle\<close>, five drop policies under the contracts
    \<open>replacing_policy\<close> and \<open>fair_policy\<close>, \<open>make_clean\<close>, \<open>delete_delivred_bundles\<close> and the states they reach (\<open>er_reach\<close>).

  \<^bold>\<open>What is shown.\<close> For the modules: no division by zero, table read out of range, oversized shift or
  endless loop can occur in a run, the window and the threshold keep their bounds, private divisors
  and indices keep their invariants; exact formulas for the reaction to a loss; exact growth of slow
  start and congestion avoidance; accuracy of the integer arithmetic (bit search, 64-bit division,
  cube and fourth root, carry loop). For the registry and the parameter table: refinement of abstract
  lists and maps, every error outcome, independence of the order of the constructors. For the
  scoreboard: it records exactly the SACK blocks, finds the lost segments, offers the lowest one, and its counters are
  right. For the agent: in every run it fails no assertion, what it counts as in flight is right, recovery ends exactly at the recovery point and
  a timeout retransmits the first outstanding segment that is not sacked. For the schedulers: every queue implements the
  sorted agenda, so that simulations do not depend on the queue; events are dispatched in order and each is in the queue until it is
  dispatched or cancelled; the timers in the queue are the pending ones, so that their dispatching cannot abort. For the bundles: the wire format is read back as it was written and its length is exact, whatever is read
  is well typed, fragments in any order are reassembled when the last one arrives, reports and options survive their round trip, the
  registrations implement a map from tokens, the buffer keeps its bound and its distinct identifiers, keeps the node's own bundles while it holds
  others, and loses exactly what has expired or was delivered. Where the code does not do what it means to (a fragment with the wrong bytes, lengths and
  positions that wrap, a refused registration that stays, a route on the wrong link, a report that cannot be built, a buffer locked by an unknown policy,
  lost segments that are no longer offered, a threshold that wraps, a simulated flow that never ends) the theorem states what it does.

  \<^bold>\<open>Bounds.\<close> Each interpretation of \<open>cong_control\<close> names the limit under which the module's arithmetic is
  meant to work: the window and the clamp stay below it. It is \<open>2 ^ 32\<close> (no restriction) for Reno,
  Scalable, Vegas, Westwood and TCP-LP, and for the others the largest window for which their 32-bit
  products do not overflow (\<open>2 ^ 25\<close> for HighSpeed, whose \<^verbatim>\<open>init\<close> enforces it, and H-TCP, \<open>2 ^ 27\<close> for
  CUBIC and Illinois, \<open>2 ^ 30\<close> for Veno, \<open>2 ^ 31\<close> for Hybla). Loops are recursive functions with a
  termination proof, or partial functions whose result \<^const>\<open>None\<close> means that the loop does not end; no
  fuel is used. The queues work for the identifiers of events below \<open>2 ^ 63\<close>, where the counter is used up, the heap below
  \<open>2 ^ 32\<close>, where its secondary key wraps. Hybla is safe for a smoothed round trip time below 800 ticks (\<open>hybla_env\<close>; its shift overflows from there on,
  as \<open>Tcp_Hybla\<close> proves), CUBIC for echoed time stamps less than 100 seconds old (\<open>cubic_env\<close>), BIC, CUBIC and Illinois for acknowledgments of bounded size.
  The agent is driven by the acknowledgements of \<open>ack_ok_for\<close>, which leave out the D-SACK block at the acknowledged segment (it
  makes an assertion fail, as \<open>Scoreboard1\<close> proves), and configured as in \<open>conf_ok\<close>.

  \<^bold>\<open>Not modelled.\<close> The diagnostic callbacks (\<^verbatim>\<open>get_info\<close>), which only fill a message the simulator never
  asks for; debug prints; the agent without a module, which falls back on the floating-point window of \<^verbatim>\<open>tcp.cc\<close>; the timers of
  the agent, whose expiry is an input of \<open>Linux_Agent\<close>; sequence numbers that wrap. Times are real numbers in the calendar queue
  and any linear order elsewhere: the rounding of doubles is not modelled. The real-time scheduler, which waits on the system
  clock, and the Tcl commands of the schedulers are left out. Of the DTN agent the following is not modelled: of the epidemic routing the
  sessions between neighbours, the network statistics and the drop policies 5 to 8, which decide by floating-point estimates of the network and are an
  argument of \<open>Dtn_Buffer\<close>; the Tcl glue, the packets and timers of \<^verbatim>\<open>dtn.cc\<close>; what the bundle manager does between them; the links of the routes are asked for their state through Tcl. Left out are the rest of ns-2 (links, queues and radio models on
  floating-point values) and the vendored interpreters, libraries and tools.
\<close>

end
